(* ===== verification/Prelude.thy ===== *)
theory Prelude
  imports Main "HOL-Library.Word" "HOL-Library.Monad_Syntax"
begin

section \<open>Shared vocabulary of the skynet development\<close>

text \<open>
  The types, the treatment of C failures and the generic lemmas every component uses.

  \<^item> A C function that can fail an \<open>assert\<close>, read outside an array, read an uninitialised
    cell, dereference a null or freed pointer or loop for ever is a function into \<open>option\<close>:
    \<open>None\<close> is that failure, and the sequencing is the option monad. A theorem that such
    a function returns is therefore always of the form \<open>\<exists>r. f x = Some r\<close>.
  \<^item> Fixed-width C integers whose wrap-around matters are words; indices and capacities, which
    are bounded by the size of an allocation, are \<open>nat\<close>.
  \<^item> C strings are lists of characters without the terminating zero.
\<close>

type_synonym u8 = "8 word"
type_synonym u16 = "16 word"
type_synonym u32 = "32 word"
type_synonym u64 = "64 word"

text \<open>Addresses handed out by \<open>skynet_malloc\<close>; \<open>0\<close> is \<open>NULL\<close>.\<close>

type_synonym ptr = nat

named_theorems inv_intros
  \<open>introduction of the invariants of the components\<close>
named_theorems step_defs
  \<open>definitions of the state-changing operations\<close>

subsection \<open>Assertions and array accesses\<close>

definition c_assert :: "bool \<Rightarrow> unit option" where
  "c_assert b = (if b then Some () else None)"

definition arr_get :: "'a list \<Rightarrow> nat \<Rightarrow> 'a option" where
  "arr_get xs i = (if i < length xs then Some (xs ! i) else None)"

definition arr_set :: "'a list \<Rightarrow> nat \<Rightarrow> 'a \<Rightarrow> 'a list option" where
  "arr_set xs i v = (if i < length xs then Some (xs[i := v]) else None)"

lemma c_assert_simps [simp]:
  "c_assert True = Some ()" "c_assert False = None"
  by (simp_all add: c_assert_def)

lemma c_assert_eq_Some [simp]: "c_assert b = Some u \<longleftrightarrow> b"
  by (simp add: c_assert_def)

lemma c_assert_bind_eq_Some [simp]:
  "c_assert b \<bind> f = Some r \<longleftrightarrow> b \<and> f () = Some r"
  by (auto simp: c_assert_def)

lemma arr_get_Some_iff: "arr_get xs i = Some x \<longleftrightarrow> i < length xs \<and> xs ! i = x"
  by (auto simp: arr_get_def)

lemma arr_get_in [simp]: "i < length xs \<Longrightarrow> arr_get xs i = Some (xs ! i)"
  by (simp add: arr_get_def)

lemma arr_set_in [simp]: "i < length xs \<Longrightarrow> arr_set xs i v = Some (xs[i := v])"
  by (simp add: arr_set_def)

lemma arr_set_Some_iff:
  "arr_set xs i v = Some ys \<longleftrightarrow> i < length xs \<and> ys = xs[i := v]"
  by (auto simp: arr_set_def)

subsection \<open>Loops over a list\<close>

text \<open>A loop whose body may fail. The congruence rule lets a recursive function call itself in the body.\<close>

fun each :: "('a \<Rightarrow> 'w \<Rightarrow> 'w option) \<Rightarrow> 'a list \<Rightarrow> 'w \<Rightarrow> 'w option" where
  "each f [] w = Some w"
| "each f (x # xs) w = do { w1 \<leftarrow> f x w; each f xs w1 }"

lemma each_cong [fundef_cong]:
  "xs = ys \<Longrightarrow> w = w' \<Longrightarrow> (\<And>x w. x \<in> set ys \<Longrightarrow> f x w = g x w) \<Longrightarrow> each f xs w = each g ys w'"
proof (induction ys arbitrary: xs w w')
  case (Cons y ys)
  then have "each f ys = each g ys" by (intro ext) simp
  with Cons.prems show ?case by simp
qed simp

lemma each_append: "each f (xs @ ys) w = do { w1 \<leftarrow> each f xs w; each f ys w1 }"
proof (induction xs arbitrary: w)
  case (Cons x xs)
  then show ?case by (cases "f x w") simp_all
qed simp

lemma each_total: "(\<And>x w. x \<in> set xs \<Longrightarrow> f x w = Some (g x w)) \<Longrightarrow> each f xs w = Some (fold g xs w)"
  by (induction xs arbitrary: w) simp_all

subsection \<open>Words\<close>

lemma unat8_less: "unat (w :: u8) < 2 ^ 8"
  using unsigned_less [of w] by simp

lemma unat16_less: "unat (w :: u16) < 2 ^ 16"
  using unsigned_less [of w] by simp

lemma unat32_less: "unat (w :: u32) < 2 ^ 32"
  using unsigned_less [of w] by simp

lemma unat64_less: "unat (w :: u64) < 2 ^ 64"
  using unsigned_less [of w] by simp

lemma unat_take_bit: "unat (take_bit k w) = unat w mod 2 ^ k"
  by (subst unsigned_take_bit_eq) (simp only: take_bit_eq_mod)

lemma residue_cover:
  assumes "i < (m::nat)"
  shows "\<exists>j < m. (h + j) mod m = i"
proof -
  define r where "r = h mod m"
  let ?j = "(i + (m - r)) mod m"
  have "r < m" using assms by (simp add: r_def)
  have "(h + ?j) mod m = (r + (i + (m - r))) mod m"
    by (simp add: r_def mod_simps)
  also have "r + (i + (m - r)) = i + m"
    using \<open>r < m\<close> by simp
  finally have "(h + ?j) mod m = i" using assms by simp
  moreover have "?j < m" using assms by (intro mod_less_divisor) simp
  ultimately show ?thesis by blast
qed

lemma ucast_32_64 [simp]: "ucast (ucast (w :: u32) :: u64) = w"
  by (rule bit_word_eqI) (auto simp: bit_ucast_iff dest: bit_imp_le_length)

subsection \<open>First-in first-out queues\<close>

text \<open>
  The program keeps four hand-written queues: the ring buffer of a service mailbox, the linked
  list of runnable mailboxes, the ring buffer of messages that wait for a remote node and the
  ring buffer of complete network packages. All of them promise the same: an
  element that is put in is appended to the contents, an element that is taken out is the
  oldest one, and neither operation fails. \<open>rep q xs\<close> says that \<open>q\<close> is well formed and holds
  \<open>xs\<close>, oldest first; \<open>ok x q\<close> is what the caller must know to put \<open>x\<close> in.
\<close>

fun run_enq :: "('a \<Rightarrow> 'q \<Rightarrow> 'q option) \<Rightarrow> 'a list \<Rightarrow> 'q \<Rightarrow> 'q option" where
  "run_enq enq [] q = Some q"
| "run_enq enq (x # xs) q = do { q' \<leftarrow> enq x q; run_enq enq xs q' }"

fun run_deq :: "('q \<Rightarrow> ('a option \<times> 'q) option) \<Rightarrow> nat \<Rightarrow> 'q \<Rightarrow> ('a list \<times> 'q) option" where
  "run_deq deq 0 q = Some ([], q)"
| "run_deq deq (Suc n) q = do {
     (r, q') \<leftarrow> deq q;
     case r of
       None \<Rightarrow> Some ([], q')
     | Some x \<Rightarrow> do { (xs, q'') \<leftarrow> run_deq deq n q'; Some (x # xs, q'') } }"

text \<open>A loop that takes elements out until there is none left.\<close>

partial_function (option) deq_all :: "('q \<Rightarrow> ('a option \<times> 'q) option) \<Rightarrow> 'q \<Rightarrow> ('a list \<times> 'q) option" where
  "deq_all deq q = do {
     (r, q') \<leftarrow> deq q;
     case r of
       None \<Rightarrow> Some ([], q')
     | Some x \<Rightarrow> do { (xs, q'') \<leftarrow> deq_all deq q'; Some (x # xs, q'') } }"

locale fifo =
  fixes enq :: "'a \<Rightarrow> 'q \<Rightarrow> 'q option"
    and deq :: "'q \<Rightarrow> ('a option \<times> 'q) option"
    and rep :: "'q \<Rightarrow> 'a list \<Rightarrow> bool"
    and ok :: "'a \<Rightarrow> 'a list \<Rightarrow> 'q \<Rightarrow> bool"
  assumes enq_rep: "rep q xs \<Longrightarrow> ok x xs q \<Longrightarrow> \<exists>q'. enq x q = Some q' \<and> rep q' (xs @ [x])"
    and ok_enq: "rep q xs \<Longrightarrow> ok x xs q \<Longrightarrow> ok y xs q \<Longrightarrow> x \<noteq> y \<Longrightarrow> enq x q = Some q' \<Longrightarrow>
      ok y (xs @ [x]) q'"
    and deq_nil: "rep q [] \<Longrightarrow> \<exists>q'. deq q = Some (None, q') \<and> rep q' []"
    and deq_cons: "rep q (x # xs) \<Longrightarrow> \<exists>q'. deq q = Some (Some x, q') \<and> rep q' xs"
begin

lemma enq_total: "rep q xs \<Longrightarrow> ok x xs q \<Longrightarrow> enq x q \<noteq> None"
  using enq_rep by fastforce

lemma deq_total: "rep q xs \<Longrightarrow> deq q \<noteq> None"
  using deq_nil deq_cons by (cases xs) fastforce+

text \<open>Any sequence of distinct elements the queue accepts goes in, in order.\<close>

lemma run_enq_rep:
  "rep q xs \<Longrightarrow> distinct ys \<Longrightarrow> (\<And>y. y \<in> set ys \<Longrightarrow> ok y xs q) \<Longrightarrow>
   \<exists>q'. run_enq enq ys q = Some q' \<and> rep q' (xs @ ys)"
proof (induction ys arbitrary: xs q)
  case Nil
  then show ?case by simp
next
  case (Cons y ys)
  obtain q1 where q1: "enq y q = Some q1" "rep q1 (xs @ [y])"
    using enq_rep Cons.prems(1,3) by (meson list.set_intros(1))
  have "\<And>z. z \<in> set ys \<Longrightarrow> ok z (xs @ [y]) q1"
    using Cons.prems q1(1) ok_enq by (metis distinct.simps(2) list.set_intros)
  then obtain q' where "run_enq enq ys q1 = Some q'" "rep q' ((xs @ [y]) @ ys)"
    using Cons.IH q1(2) Cons.prems(2) by (metis distinct.simps(2))
  with q1(1) show ?case by simp
qed

text \<open>Taking out as many elements as the queue holds gives its contents, oldest first.\<close>

lemma run_deq_rep:
  "rep q xs \<Longrightarrow> \<exists>q'. run_deq deq (Suc (length xs)) q = Some (xs, q') \<and> rep q' []"
proof (induction xs arbitrary: q)
  case Nil
  then show ?case using deq_nil by fastforce
next
  case (Cons x xs)
  obtain q1 where q1: "deq q = Some (Some x, q1)" "rep q1 xs"
    using deq_cons Cons.prems by blast
  then obtain q' where "run_deq deq (Suc (length xs)) q1 = Some (xs, q')" "rep q' []"
    using Cons.IH by blast
  with q1(1) show ?case by (simp del: run_deq.simps(2) add: run_deq.simps(2) [of _ "Suc _"])
qed

text \<open>The loop that takes everything out returns, with the contents in order.\<close>

lemma deq_all_rep:
  "rep q xs \<Longrightarrow> \<exists>q'. deq_all deq q = Some (xs, q') \<and> rep q' []"
proof (induction xs arbitrary: q)
  case Nil
  then show ?case using deq_nil by (subst deq_all.simps) fastforce
next
  case (Cons x xs)
  obtain q1 where q1: "deq q = Some (Some x, q1)" "rep q1 xs"
    using deq_cons Cons.prems by blast
  with Cons.IH [OF q1(2)] show ?case by (subst deq_all.simps) auto
qed

lemma fifo_order:
  assumes "rep q []" and "distinct ys" and "\<And>y. y \<in> set ys \<Longrightarrow> ok y [] q"
  shows "\<exists>q1 q2. run_enq enq ys q = Some q1 \<and>
    run_deq deq (Suc (length ys)) q1 = Some (ys, q2) \<and> rep q2 []"
  using run_enq_rep [OF assms] run_deq_rep by fastforce

end

text \<open>A queue that accepts every element at any time keeps any sequence, repetitions included.\<close>

locale total_fifo = fifo enq deq rep "\<lambda>x xs q. True"
  for enq :: "'a \<Rightarrow> 'q \<Rightarrow> 'q option" and deq :: "'q \<Rightarrow> ('a option \<times> 'q) option"
    and rep :: "'q \<Rightarrow> 'a list \<Rightarrow> bool"
begin

lemma run_enq_any:
  "rep q xs \<Longrightarrow> \<exists>q'. run_enq enq ys q = Some q' \<and> rep q' (xs @ ys)"
proof (induction ys arbitrary: xs q)
  case Nil
  then show ?case by simp
next
  case (Cons y ys)
  obtain q1 where q1: "enq y q = Some q1" "rep q1 (xs @ [y])"
    using enq_rep Cons.prems by blast
  from Cons.IH [OF q1(2)] q1(1) show ?case by simp
qed

lemma fifo_order_any:
  "rep q [] \<Longrightarrow> \<exists>q1 q2. run_enq enq ys q = Some q1 \<and>
     run_deq deq (Suc (length ys)) q1 = Some (ys, q2) \<and> rep q2 []"
  using run_enq_any run_deq_rep by fastforce

end

subsection \<open>Ring buffers\<close>

text \<open>
  The three ring buffers share their arithmetic: \<open>ring a h n\<close> lists the \<open>n\<close> cells of the array
  \<open>a\<close> from index \<open>h\<close> on, wrapping at the end of the array.
\<close>

definition ring :: "'a list \<Rightarrow> nat \<Rightarrow> nat \<Rightarrow> 'a list" where
  "ring a h n = map (\<lambda>i. a ! ((h + i) mod length a)) [0..<n]"

definition ring_len :: "nat \<Rightarrow> nat \<Rightarrow> nat \<Rightarrow> nat" where
  "ring_len cap h t = (if h \<le> t then t - h else t + cap - h)"

lemma length_ring [simp]: "length (ring a h n) = n"
  by (simp add: ring_def)

lemma ring_0 [simp]: "ring a h 0 = []"
  by (simp add: ring_def)

lemma nth_ring: "i < n \<Longrightarrow> ring a h n ! i = a ! ((h + i) mod length a)"
  by (simp add: ring_def)

lemma ring_len_less: "h < cap \<Longrightarrow> t < cap \<Longrightarrow> ring_len cap h t < cap"
  by (auto simp: ring_len_def)

lemma ring_len_0_iff: "h < cap \<Longrightarrow> t < cap \<Longrightarrow> ring_len cap h t = 0 \<longleftrightarrow> h = t"
  by (auto simp: ring_len_def)

lemma ring_len_tail: "h < cap \<Longrightarrow> t < cap \<Longrightarrow> (h + ring_len cap h t) mod cap = t"
  by (auto simp: ring_len_def)

lemma ring_index_inj:
  assumes "h < cap" "i < cap" "j < cap" "(h + i) mod cap = (h + j) mod cap"
  shows "i = (j::nat)"
proof -
  have wrap: "(h + k) mod cap = (if h + k < cap then h + k else h + k - cap)"
    if "k < cap" for k
  proof (cases "h + k < cap")
    case False
    with assms(1) that show ?thesis by (simp add: le_mod_geq)
  qed simp
  from wrap [OF assms(2)] wrap [OF assms(3)] show ?thesis using assms by (auto split: if_splits)
qed

text \<open>Writing the cell after the last one appends to the contents.\<close>

lemma ring_snoc:
  assumes "h < length a" and "n < length a"
  shows "ring (a[(h + n) mod length a := x]) h (Suc n) = ring a h n @ [x]"
proof -
  have "(h + n) mod length a \<noteq> (h + i) mod length a" if "i < n" for i
    using ring_index_inj [of h "length a" n i] assms that by auto
  moreover have "(h + n) mod length a < length a"
    using assms by (cases a) simp_all
  ultimately show ?thesis by (simp add: ring_def)
qed

text \<open>Moving the head over one cell drops the oldest element.\<close>

lemma ring_Cons:
  assumes "h < length a"
  shows "ring a h (Suc n) = a ! h # ring a (Suc h mod length a) n"
proof -
  have "map (\<lambda>i. a ! ((h + i) mod length a)) [0..<Suc n] =
      a ! (h mod length a) # map (\<lambda>i. a ! ((h + Suc i) mod length a)) [0..<n]"
    by (simp add: map_upt_Suc del: upt_Suc)
  moreover have "(h + Suc i) mod length a = (Suc h mod length a + i) mod length a" for i
    by (simp add: mod_add_left_eq)
  ultimately show ?thesis using assms by (simp add: ring_def)
qed

text \<open>Copying the full ring to the front of an array of twice the size keeps the contents.\<close>

lemma ring_grow:
  assumes "0 < length a"
  shows "ring (ring a h (length a) @ ys) 0 (length a) = ring a h (length a)"
proof (rule nth_equalityI)
  fix i
  assume "i < length (ring (ring a h (length a) @ ys) 0 (length a))"
  then have i: "i < length a" by simp
  then have "i mod (length a + length ys) = i" by simp
  with i show "ring (ring a h (length a) @ ys) 0 (length a) ! i = ring a h (length a) ! i"
    by (simp add: nth_ring nth_append)
qed simp

lemma Suc_mod_wrap: "h < cap \<Longrightarrow> (if cap \<le> Suc h then 0 else Suc h) = Suc h mod cap"
  by (auto simp: le_Suc_eq mod_if)

lemma ring_len_Suc_tail:
  "h < cap \<Longrightarrow> t < cap \<Longrightarrow> Suc t mod cap \<noteq> h \<Longrightarrow> ring_len cap h (Suc t mod cap) = Suc (ring_len cap h t)"
  by (cases "Suc t = cap") (auto simp: ring_len_def)

lemma ring_len_Suc_head:
  "h < cap \<Longrightarrow> t < cap \<Longrightarrow> h \<noteq> t \<Longrightarrow> Suc (ring_len cap (Suc h mod cap) t) = ring_len cap h t"
  by (cases "Suc h = cap") (auto simp: ring_len_def)

lemma ring_len_full: "h < cap \<Longrightarrow> t < cap \<Longrightarrow> Suc t mod cap = h \<Longrightarrow> Suc (ring_len cap h t) = cap"
  by (cases "Suc t = cap") (auto simp: ring_len_def)

text \<open>An array of \<open>cap\<close> cells with head \<open>h\<close> and tail \<open>t\<close> holds \<open>xs\<close>, with at least one cell free.\<close>

definition ring_rep :: "'a option list \<Rightarrow> nat \<Rightarrow> nat \<Rightarrow> nat \<Rightarrow> 'a list \<Rightarrow> bool" where
  "ring_rep a cap h t xs \<longleftrightarrow> h < cap \<and> t < cap \<and> length a = cap \<and> ring_len cap h t = length xs \<and>
     ring a h (length xs) = map Some xs"

lemma ring_repD:
  assumes "ring_rep a cap h t xs"
  shows "h < cap" "t < cap" "length a = cap" "ring_len cap h t = length xs" "ring a h (length xs) = map Some xs"
    "xs = [] \<longleftrightarrow> h = t"
  using assms ring_len_0_iff [of h cap t] by (auto simp: ring_rep_def)

lemma ring_rep_store:
  assumes "ring_rep a cap h t xs"
  shows "ring (a[t := Some x]) h (Suc (length xs)) = map Some (xs @ [x])"
  using ring_repD [OF assms] ring_snoc [of h a "length xs" "Some x"] ring_len_tail [of h cap t] ring_len_less [of h cap t] by simp

lemma ring_rep_push:
  assumes "ring_rep a cap h t xs" "Suc t mod cap \<noteq> h"
  shows "ring_rep (a[t := Some x]) cap h (Suc t mod cap) (xs @ [x])"
proof -
  note r = ring_repD [OF assms(1)]
  have "Suc t mod cap < cap" using r(1) by (cases cap) simp_all
  with r ring_rep_store [OF assms(1), of x] ring_len_Suc_tail [OF r(1,2) assms(2)] show ?thesis by (simp add: ring_rep_def)
qed

lemma ring_rep_pop:
  assumes "ring_rep a cap h t (x # xs)"
  shows "h \<noteq> t" "a ! h = Some x" "ring_rep a cap (Suc h mod cap) t xs"
proof -
  note r = ring_repD [OF assms]
  show ne: "h \<noteq> t" using r(6) by simp
  show "a ! h = Some x" using r(5) ring_Cons [of h a "length xs"] r(1,3) by auto
  have "Suc h mod cap < cap" using r(1) by (cases cap) simp_all
  with r ring_Cons [of h a "length xs"] ring_len_Suc_head [OF r(1,2) ne] show "ring_rep a cap (Suc h mod cap) t xs"
    by (simp add: ring_rep_def)
qed

text \<open>Contents copied to the front of a larger array.\<close>

lemma ring_rep_front:
  assumes "length xs < cap" "length ys = cap - length xs"
  shows "ring_rep (map Some xs @ ys) cap 0 (length xs) xs"
proof -
  have "ring (map Some xs @ ys) 0 (length xs) = map Some xs"
    by (rule nth_equalityI) (simp_all add: nth_ring nth_append)
  with assms show ?thesis by (simp add: ring_rep_def ring_len_def)
qed

lemma ring_rep_empty: "0 < cap \<Longrightarrow> length a = cap \<Longrightarrow> h < cap \<Longrightarrow> ring_rep a cap h h []"
  by (simp add: ring_rep_def ring_len_def)

end
