(* ===== verification/Mqueue.thy ===== *)
theory Mqueue
  imports Prelude
begin

section \<open>Message queues (skynet_mq.c, skynet_mq.h)\<close>

text \<open>
  The mailbox of a service is a ring buffer that doubles when it is full, and the global queue
  is an intrusive linked list of the mailboxes that have work. \<open>message_queue\<close> and
  \<open>mq_state\<close> (the heap of mailboxes and the global queue) have the fields of the C structures.
  Every operation is one critical section under the spin lock of its structure, so it is one
  atomic step here; the lock itself is the subject of \<open>Locks\<close>.

  The lemmas show that the ring buffer implements a list (\<open>mq_rep\<close>), through every growth and
  wrap of the indices, that the linked list implements a list of distinct mailboxes
  (\<open>gq_rep\<close>), and that both meet the \<open>fifo\<close> contract.
\<close>

subsection \<open>Data\<close>

record skynet_message =
  msg_source :: u32
  msg_session :: u32
  msg_data :: ptr
  msg_sz :: u64

type_synonym qid = nat

record message_queue =
  mq_handle :: u32
  mq_cap :: nat
  mq_head :: nat
  mq_tail :: nat
  mq_release :: bool
  mq_in_global :: bool
  mq_overload :: nat
  mq_overload_threshold :: nat
  mq_queue :: "skynet_message option list"
  mq_next :: "qid option"

text \<open>The heap of mailboxes, the next fresh address, and the global queue \<open>Q\<close>.\<close>

record mq_state =
  mqs :: "qid \<Rightarrow> message_queue option"
  mq_fresh :: qid
  Q_head :: "qid option"
  Q_tail :: "qid option"

definition DEFAULT_QUEUE_SIZE :: nat where "DEFAULT_QUEUE_SIZE = 64"
definition MQ_OVERLOAD :: nat where "MQ_OVERLOAD = 1024"

subsection \<open>The global queue\<close>

definition skynet_mq_init :: mq_state where
  "skynet_mq_init = \<lparr>mqs = Map.empty, mq_fresh = 1, Q_head = None, Q_tail = None\<rparr>"

definition set_next :: "qid \<Rightarrow> qid option \<Rightarrow> mq_state \<Rightarrow> mq_state option" where
  "set_next q nx s = do { m \<leftarrow> mqs s q; Some (s\<lparr>mqs := (mqs s)(q \<mapsto> m\<lparr>mq_next := nx\<rparr>)\<rparr>) }"

definition skynet_globalmq_push :: "qid \<Rightarrow> mq_state \<Rightarrow> mq_state option" where
  "skynet_globalmq_push queue s = do {
     m \<leftarrow> mqs s queue;
     c_assert (mq_next m = None);
     case Q_tail s of
       Some t \<Rightarrow> do { s' \<leftarrow> set_next t (Some queue) s; Some (s'\<lparr>Q_tail := Some queue\<rparr>) }
     | None \<Rightarrow> Some (s\<lparr>Q_head := Some queue, Q_tail := Some queue\<rparr>) }"

definition skynet_globalmq_pop :: "mq_state \<Rightarrow> (qid option \<times> mq_state) option" where
  "skynet_globalmq_pop s =
     (case Q_head s of
        None \<Rightarrow> Some (None, s)
      | Some mq \<Rightarrow> do {
          m \<leftarrow> mqs s mq;
          let s1 = s\<lparr>Q_head := mq_next m\<rparr>;
          s2 \<leftarrow> (if Q_head s1 = None
                then do { c_assert (Some mq = Q_tail s1); Some (s1\<lparr>Q_tail := None\<rparr>) }
                else Some s1);
          s3 \<leftarrow> set_next mq None s2;
          Some (Some mq, s3) })"

subsection \<open>One mailbox\<close>

definition new_queue :: "u32 \<Rightarrow> message_queue" where
  "new_queue handle = \<lparr>mq_handle = handle, mq_cap = DEFAULT_QUEUE_SIZE, mq_head = 0,
     mq_tail = 0, mq_release = False, mq_in_global = True, mq_overload = 0,
     mq_overload_threshold = MQ_OVERLOAD, mq_queue = replicate DEFAULT_QUEUE_SIZE None,
     mq_next = None\<rparr>"

definition skynet_mq_create :: "u32 \<Rightarrow> mq_state \<Rightarrow> qid \<times> mq_state" where
  "skynet_mq_create handle s =
     (mq_fresh s, s\<lparr>mqs := (mqs s)(mq_fresh s \<mapsto> new_queue handle), mq_fresh := Suc (mq_fresh s)\<rparr>)"

text \<open>\<open>_release\<close>: the queue must not be linked when it is freed.\<close>

definition mq_free :: "qid \<Rightarrow> mq_state \<Rightarrow> mq_state option" where
  "mq_free q s = do {
     m \<leftarrow> mqs s q;
     c_assert (mq_next m = None);
     Some (s\<lparr>mqs := (mqs s)(q := None)\<rparr>) }"

definition skynet_mq_length :: "message_queue \<Rightarrow> nat" where
  "skynet_mq_length q =
     (if mq_head q \<le> mq_tail q then mq_tail q - mq_head q
      else mq_tail q + mq_cap q - mq_head q)"

definition skynet_mq_overload :: "message_queue \<Rightarrow> nat \<times> message_queue" where
  "skynet_mq_overload q =
     (if mq_overload q \<noteq> 0 then (mq_overload q, q\<lparr>mq_overload := 0\<rparr>) else (0, q))"

text \<open>
  The loop \<open>while (length > q->overload_threshold)\<close>: it stops only because the threshold
  is positive, so its result is optional.
\<close>

partial_function (option) overload_loop :: "nat \<Rightarrow> nat \<Rightarrow> nat \<Rightarrow> (nat \<times> nat) option" where
  "overload_loop len ov thr =
     (if thr < len then overload_loop len len (thr * 2) else Some (ov, thr))"

definition mq_pop1 :: "message_queue \<Rightarrow> (skynet_message option \<times> message_queue) option" where
  "mq_pop1 q =
     (if mq_head q \<noteq> mq_tail q then do {
        cell \<leftarrow> arr_get (mq_queue q) (mq_head q);
        message \<leftarrow> cell;
        let h = Suc (mq_head q);
        let head = (if mq_cap q \<le> h then 0 else h);
        let l = int (mq_tail q) - int head;
        let len = (if l < 0 then l + int (mq_cap q) else l);
        (ov, thr) \<leftarrow> overload_loop (nat len) (mq_overload q) (mq_overload_threshold q);
        Some (Some message, q\<lparr>mq_head := head, mq_overload := ov, mq_overload_threshold := thr\<rparr>) }
      else Some (None, q\<lparr>mq_overload_threshold := MQ_OVERLOAD, mq_in_global := False\<rparr>))"

definition expand_queue :: "message_queue \<Rightarrow> message_queue option" where
  "expand_queue q = do {
     c_assert (0 < mq_cap q \<and> mq_cap q \<le> length (mq_queue q));
     Some (q\<lparr>mq_queue := map (\<lambda>i. mq_queue q ! ((mq_head q + i) mod mq_cap q)) [0..<mq_cap q]
                @ replicate (mq_cap q) None,
            mq_head := 0, mq_tail := mq_cap q, mq_cap := mq_cap q * 2\<rparr>) }"

definition mq_push1 :: "skynet_message \<Rightarrow> message_queue \<Rightarrow> message_queue option" where
  "mq_push1 message q = do {
     a \<leftarrow> arr_set (mq_queue q) (mq_tail q) (Some message);
     let t = Suc (mq_tail q);
     let tail = (if mq_cap q \<le> t then 0 else t);
     let q1 = q\<lparr>mq_queue := a, mq_tail := tail\<rparr>;
     if mq_head q1 = mq_tail q1 then expand_queue q1 else Some q1 }"

subsection \<open>The operations on the heap of mailboxes\<close>

definition skynet_mq_pop :: "qid \<Rightarrow> mq_state \<Rightarrow> (skynet_message option \<times> mq_state) option" where
  "skynet_mq_pop q s = do {
     m \<leftarrow> mqs s q;
     (r, m') \<leftarrow> mq_pop1 m;
     Some (r, s\<lparr>mqs := (mqs s)(q \<mapsto> m')\<rparr>) }"

definition skynet_mq_push :: "qid \<Rightarrow> skynet_message \<Rightarrow> mq_state \<Rightarrow> mq_state option" where
  "skynet_mq_push q message s = do {
     m \<leftarrow> mqs s q;
     m1 \<leftarrow> mq_push1 message m;
     if \<not> mq_in_global m1
     then skynet_globalmq_push q (s\<lparr>mqs := (mqs s)(q \<mapsto> m1\<lparr>mq_in_global := True\<rparr>)\<rparr>)
     else Some (s\<lparr>mqs := (mqs s)(q \<mapsto> m1)\<rparr>) }"

definition skynet_mq_mark_release :: "qid \<Rightarrow> mq_state \<Rightarrow> mq_state option" where
  "skynet_mq_mark_release q s = do {
     m \<leftarrow> mqs s q;
     c_assert (\<not> mq_release m);
     let s1 = s\<lparr>mqs := (mqs s)(q \<mapsto> m\<lparr>mq_release := True\<rparr>)\<rparr>;
     if \<not> mq_in_global m then skynet_globalmq_push q s1 else Some s1 }"

text \<open>
  \<open>_drop_queue\<close> and \<open>skynet_mq_release\<close> call back into the client with every message that is
  left, so they are written over the client's state \<open>'w\<close>: \<open>get\<close> and \<open>put\<close> read and write
  its message-queue part and \<open>drop_func\<close> is the callback.
\<close>

partial_function (option) drain_queue ::
  "('w \<Rightarrow> mq_state) \<Rightarrow> (mq_state \<Rightarrow> 'w \<Rightarrow> 'w) \<Rightarrow> (skynet_message \<Rightarrow> 'w \<Rightarrow> 'w option) \<Rightarrow>
   qid \<Rightarrow> 'w \<Rightarrow> 'w option" where
  "drain_queue get put drop_func q w = do {
     (r, s) \<leftarrow> skynet_mq_pop q (get w);
     case r of
       None \<Rightarrow> Some (put s w)
     | Some msg \<Rightarrow> do {
         w' \<leftarrow> drop_func msg (put s w);
         drain_queue get put drop_func q w' } }"

definition drop_queue ::
  "('w \<Rightarrow> mq_state) \<Rightarrow> (mq_state \<Rightarrow> 'w \<Rightarrow> 'w) \<Rightarrow> (skynet_message \<Rightarrow> 'w \<Rightarrow> 'w option) \<Rightarrow>
   qid \<Rightarrow> 'w \<Rightarrow> 'w option" where
  "drop_queue get put drop_func q w = do {
     w' \<leftarrow> drain_queue get put drop_func q w;
     s \<leftarrow> mq_free q (get w');
     Some (put s w') }"

definition skynet_mq_release ::
  "('w \<Rightarrow> mq_state) \<Rightarrow> (mq_state \<Rightarrow> 'w \<Rightarrow> 'w) \<Rightarrow> (skynet_message \<Rightarrow> 'w \<Rightarrow> 'w option) \<Rightarrow>
   qid \<Rightarrow> 'w \<Rightarrow> 'w option" where
  "skynet_mq_release get put drop_func q w = do {
     m \<leftarrow> mqs (get w) q;
     if mq_release m then drop_queue get put drop_func q w
     else do { s \<leftarrow> skynet_globalmq_push q (get w); Some (put s w) } }"

subsection \<open>The mailbox implements a list\<close>

definition mq_len :: "message_queue \<Rightarrow> nat" where
  "mq_len q = ring_len (mq_cap q) (mq_head q) (mq_tail q)"

definition mq_abs :: "message_queue \<Rightarrow> skynet_message option list" where
  "mq_abs q = ring (mq_queue q) (mq_head q) (mq_len q)"

definition mq_wf :: "message_queue \<Rightarrow> bool" where
  "mq_wf q \<longleftrightarrow> mq_head q < mq_cap q \<and> mq_tail q < mq_cap q \<and>
     length (mq_queue q) = mq_cap q \<and> 0 < mq_overload_threshold q"

definition mq_rep :: "message_queue \<Rightarrow> skynet_message list \<Rightarrow> bool" where
  "mq_rep q xs \<longleftrightarrow> mq_wf q \<and> mq_abs q = map Some xs"

lemma mq_repD:
  assumes "mq_rep q xs"
  shows "mq_head q < mq_cap q" "mq_tail q < mq_cap q" "length (mq_queue q) = mq_cap q"
    "0 < mq_overload_threshold q" "mq_len q = length xs"
    "ring (mq_queue q) (mq_head q) (length xs) = map Some xs"
proof -
  show "mq_head q < mq_cap q" "mq_tail q < mq_cap q" "length (mq_queue q) = mq_cap q"
    "0 < mq_overload_threshold q"
    using assms by (auto simp: mq_rep_def mq_wf_def)
  have abs: "mq_abs q = map Some xs" using assms by (simp add: mq_rep_def)
  from arg_cong [OF this, of length] show "mq_len q = length xs" by (simp add: mq_abs_def)
  with abs show "ring (mq_queue q) (mq_head q) (length xs) = map Some xs"
    by (simp add: mq_abs_def)
qed

lemma mq_rep_new: "mq_rep (new_queue handle) []"
  by (simp add: mq_rep_def mq_wf_def mq_abs_def mq_len_def ring_len_def new_queue_def
      DEFAULT_QUEUE_SIZE_def MQ_OVERLOAD_def)

lemma skynet_mq_length_rep: "mq_rep q xs \<Longrightarrow> skynet_mq_length q = length xs"
  using mq_repD(5) by (auto simp: skynet_mq_length_def mq_len_def ring_len_def)

text \<open>The overload loop stops, at a threshold that covers the length.\<close>

lemma overload_loop_total:
  "0 < thr \<Longrightarrow> \<exists>ov' thr'. overload_loop len ov thr = Some (ov', thr') \<and> 0 < thr' \<and> len \<le> thr' \<and>
     (len \<le> thr \<longrightarrow> ov' = ov \<and> thr' = thr) \<and> (thr < len \<longrightarrow> ov' = len)"
proof (induction "len - thr" arbitrary: ov thr rule: less_induct)
  case less
  show ?case
  proof (cases "thr < len")
    case True
    then have "len - thr * 2 < len - thr" using less.prems by simp
    from less.hyps [OF this, of len] less.prems True show ?thesis
      by (subst overload_loop.simps) (auto simp: not_less)
  next
    case False
    with less.prems show ?thesis by (subst overload_loop.simps) auto
  qed
qed

lemma mq_pop1_cons:
  assumes "mq_rep q (x # xs)"
  shows "\<exists>q'. mq_pop1 q = Some (Some x, q') \<and> mq_rep q' xs \<and> mq_in_global q' = mq_in_global q \<and>
    mq_next q' = mq_next q \<and> mq_handle q' = mq_handle q \<and> mq_release q' = mq_release q \<and>
    (mq_overload q' = mq_overload q \<or> mq_overload q' = length xs)"
proof -
  note r = mq_repD [OF assms]
  let ?h = "Suc (mq_head q) mod mq_cap q"
  have ne: "mq_head q \<noteq> mq_tail q"
    using r(5) ring_len_0_iff [OF r(1,2)] by (auto simp: mq_len_def)
  have ring: "mq_queue q ! mq_head q = Some x" "ring (mq_queue q) ?h (length xs) = map Some xs"
    using r(6) ring_Cons [of "mq_head q" "mq_queue q" "length xs"] r(1,3) by auto
  have head: "(if mq_cap q \<le> Suc (mq_head q) then 0 else Suc (mq_head q)) = ?h"
    using r(1) by (rule Suc_mod_wrap)
  have hlt: "?h < mq_cap q" using r(1) by (cases "mq_cap q") simp_all
  have rl: "ring_len (mq_cap q) ?h (mq_tail q) = length xs"
    using r(1,2,5) ne head by (auto simp: mq_len_def ring_len_def split: if_splits)
  let ?l = "int (mq_tail q) - int ?h"
  have len: "nat (if ?l < 0 then ?l + int (mq_cap q) else ?l) = length xs"
    using rl hlt by (auto simp: ring_len_def split: if_splits)
  obtain ov thr where ov: "overload_loop (length xs) (mq_overload q) (mq_overload_threshold q)
      = Some (ov, thr)" "0 < thr" "ov = mq_overload q \<or> ov = length xs"
    using overload_loop_total [OF r(4), of "length xs" "mq_overload q"]
    by (metis linorder_not_le)
  have "mq_pop1 q = Some (Some x,
      q\<lparr>mq_head := ?h, mq_overload := ov, mq_overload_threshold := thr\<rparr>)"
    unfolding mq_pop1_def Let_def head len using ne ring ov r by simp
  with ring ov r hlt rl show ?thesis
    by (auto simp: mq_rep_def mq_wf_def mq_abs_def mq_len_def)
qed

lemma mq_pop1_nil:
  assumes "mq_rep q []"
  shows "mq_pop1 q = Some (None, q\<lparr>mq_overload_threshold := MQ_OVERLOAD, mq_in_global := False\<rparr>)"
    and "mq_rep (q\<lparr>mq_overload_threshold := MQ_OVERLOAD, mq_in_global := b\<rparr>) []"
proof -
  note r = mq_repD [OF assms]
  have "mq_head q = mq_tail q"
    using r(5) ring_len_0_iff [OF r(1,2)] by (auto simp: mq_len_def)
  with assms show "mq_pop1 q =
      Some (None, q\<lparr>mq_overload_threshold := MQ_OVERLOAD, mq_in_global := False\<rparr>)"
    and "mq_rep (q\<lparr>mq_overload_threshold := MQ_OVERLOAD, mq_in_global := b\<rparr>) []"
    by (auto simp: mq_pop1_def mq_rep_def mq_wf_def mq_abs_def mq_len_def MQ_OVERLOAD_def)
qed

text \<open>A full ring: the tail has caught up with the head, and the contents are the whole array.\<close>

lemma expand_queue_rep:
  assumes "mq_head q = mq_tail q" "mq_head q < mq_cap q" "length (mq_queue q) = mq_cap q"
    and "ring (mq_queue q) (mq_head q) (mq_cap q) = map Some xs" and "0 < mq_overload_threshold q"
  shows "\<exists>q'. expand_queue q = Some q' \<and> mq_rep q' xs \<and> mq_cap q' = 2 * mq_cap q \<and>
    mq_in_global q' = mq_in_global q \<and> mq_next q' = mq_next q \<and> mq_handle q' = mq_handle q \<and>
    mq_release q' = mq_release q"
proof -
  have "length xs = mq_cap q"
    using arg_cong [OF assms(4), of length] by simp
  moreover have "ring (map Some xs @ replicate (mq_cap q) None) 0 (mq_cap q) = map Some xs"
    using ring_grow [of "mq_queue q" "mq_head q" "replicate (mq_cap q) None"] assms(2-4) by auto
  moreover have "map (\<lambda>i. mq_queue q ! ((mq_head q + i) mod mq_cap q)) [0..<mq_cap q] = map Some xs"
    using assms(3,4) by (simp add: ring_def)
  ultimately show ?thesis
    using assms by (simp add: expand_queue_def mq_rep_def mq_wf_def mq_abs_def mq_len_def ring_len_def)
qed

lemma mq_push1_rep:
  assumes "mq_rep q xs"
  shows "\<exists>q'. mq_push1 m q = Some q' \<and> mq_rep q' (xs @ [m]) \<and> mq_in_global q' = mq_in_global q \<and>
    mq_next q' = mq_next q \<and> mq_handle q' = mq_handle q \<and> mq_release q' = mq_release q"
proof -
  note r = mq_repD [OF assms]
  let ?t = "Suc (mq_tail q) mod mq_cap q"
  let ?q = "q\<lparr>mq_queue := (mq_queue q)[mq_tail q := Some m], mq_tail := ?t\<rparr>"
  have tail: "(if mq_cap q \<le> Suc (mq_tail q) then 0 else Suc (mq_tail q)) = ?t"
    using r(2) by (rule Suc_mod_wrap)
  have tlt: "?t < mq_cap q" using r(1) by (cases "mq_cap q") simp_all
  have snoc: "ring ((mq_queue q)[mq_tail q := Some m]) (mq_head q) (Suc (length xs)) =
      map Some (xs @ [m])"
    using ring_snoc [of "mq_head q" "mq_queue q" "length xs" "Some m"] r
      ring_len_tail [OF r(1,2)] ring_len_less [OF r(1,2)] by (auto simp: mq_len_def)
  show ?thesis
  proof (cases "mq_head q = ?t")
    case True
    then have "Suc (length xs) = mq_cap q"
      using r(1,2,5) tail by (auto simp: mq_len_def ring_len_def split: if_splits)
    then obtain q' where "expand_queue ?q = Some q'" "mq_rep q' (xs @ [m])"
      "mq_in_global q' = mq_in_global q" "mq_next q' = mq_next q" "mq_handle q' = mq_handle q"
      "mq_release q' = mq_release q"
      using expand_queue_rep [of ?q "xs @ [m]"] True r snoc by auto
    with True r(2,3) show ?thesis by (simp add: mq_push1_def tail Let_def)
  next
    case False
    then have "ring_len (mq_cap q) (mq_head q) ?t = Suc (length xs)"
      using r(1,2,5) tail by (auto simp: mq_len_def ring_len_def split: if_splits)
    with False r tlt snoc show ?thesis
      by (simp add: mq_push1_def tail Let_def mq_rep_def mq_wf_def mq_abs_def mq_len_def)
  qed
qed

interpretation mbox: total_fifo mq_push1 mq_pop1 mq_rep
proof unfold_locales
  fix q xs and x :: skynet_message
  show "mq_rep q xs \<Longrightarrow> \<exists>q'. mq_push1 x q = Some q' \<and> mq_rep q' (xs @ [x])"
    using mq_push1_rep by blast
next
  show "\<exists>q'. mq_pop1 q = Some (None, q') \<and> mq_rep q' []" if "mq_rep q []" for q
    using mq_pop1_nil that by auto
next
  show "\<exists>q'. mq_pop1 q = Some (Some x, q') \<and> mq_rep q' xs" if "mq_rep q (x # xs)" for q x xs
    using mq_pop1_cons [OF that] by auto
qed simp


subsection \<open>The linked list of the global queue implements a list\<close>

fun chain :: "(qid \<Rightarrow> message_queue option) \<Rightarrow> qid option \<Rightarrow> qid list \<Rightarrow> bool" where
  "chain m p [] \<longleftrightarrow> p = None"
| "chain m p (q # qs) \<longleftrightarrow> p = Some q \<and> (\<exists>x. m q = Some x \<and> chain m (mq_next x) qs)"

definition gq_rep :: "mq_state \<Rightarrow> qid list \<Rightarrow> bool" where
  "gq_rep s qs \<longleftrightarrow> chain (mqs s) (Q_head s) qs \<and> distinct qs \<and>
     Q_tail s = (if qs = [] then None else Some (last qs))"

definition unlinked :: "qid \<Rightarrow> mq_state \<Rightarrow> bool" where
  "unlinked q s \<longleftrightarrow> (\<exists>m. mqs s q = Some m \<and> mq_next m = None)"

lemma chain_upd [simp]: "q \<notin> set qs \<Longrightarrow> chain (m(q := v)) p qs = chain m p qs"
  by (induction qs arbitrary: p) auto

lemma chain_dom: "chain m p qs \<Longrightarrow> q \<in> set qs \<Longrightarrow> \<exists>x. m q = Some x"
  by (induction qs arbitrary: p) auto

lemma chain_last_next:
  "chain m p qs \<Longrightarrow> qs \<noteq> [] \<Longrightarrow> \<exists>x. m (last qs) = Some x \<and> mq_next x = None"
  by (induction qs arbitrary: p) auto

lemma chain_same_next:
  "(\<And>q. q \<in> set qs \<Longrightarrow> map_option mq_next (m' q) = map_option mq_next (m q)) \<Longrightarrow>
   chain m' p qs = chain m p qs"
proof (induction qs arbitrary: p)
  case (Cons q qs)
  then have "map_option mq_next (m' q) = map_option mq_next (m q)" by simp
  then show ?case using Cons by (cases "m q"; cases "m' q") auto
qed simp

lemma chain_snoc:
  "chain m p qs \<Longrightarrow> qs \<noteq> [] \<Longrightarrow> distinct qs \<Longrightarrow> x \<notin> set qs \<Longrightarrow> m x = Some mx \<Longrightarrow>
   mq_next mx = None \<Longrightarrow> m (last qs) = Some t \<Longrightarrow>
   chain (m(last qs \<mapsto> t\<lparr>mq_next := Some x\<rparr>)) p (qs @ [x])"
proof (induction qs arbitrary: p)
  case (Cons q qs)
  show ?case
  proof (cases "qs = []")
    case False
    obtain y where y: "m q = Some y" "chain m (mq_next y) qs" using Cons.prems(1) by auto
    have "chain (m(last qs \<mapsto> t\<lparr>mq_next := Some x\<rparr>)) (mq_next y) (qs @ [x])"
      by (rule Cons.IH) (use Cons.prems False y in auto)
    moreover have "last qs \<noteq> q" using Cons.prems(3) False last_in_set by auto
    then have "(m(last qs \<mapsto> t\<lparr>mq_next := Some x\<rparr>)) q = Some y" using y(1) by simp
    ultimately show ?thesis using Cons.prems(1) False by (simp del: fun_upd_apply)
  qed (use Cons.prems in auto)
qed simp

text \<open>Pushing and popping touch only the links.\<close>

definition same_but_next :: "mq_state \<Rightarrow> mq_state \<Rightarrow> bool" where
  "same_but_next s s' \<longleftrightarrow> mq_fresh s' = mq_fresh s \<and>
     (\<forall>q. map_option (mq_next_update (\<lambda>_. None)) (mqs s' q) =
          map_option (mq_next_update (\<lambda>_. None)) (mqs s q))"

lemma same_but_next_trans: "same_but_next s t \<Longrightarrow> same_but_next t u \<Longrightarrow> same_but_next s u"
  by (simp add: same_but_next_def)

lemma same_but_nextD:
  assumes "same_but_next s s'" "mqs s q = Some m"
  shows "\<exists>n. mqs s' q = Some (m\<lparr>mq_next := n\<rparr>)"
proof -
  have "map_option (mq_next_update (\<lambda>_. None)) (mqs s' q) =
      Some (m\<lparr>mq_next := None\<rparr>)"
    using assms by (simp add: same_but_next_def)
  then obtain m' where m': "mqs s' q = Some m'" "m'\<lparr>mq_next := None\<rparr> = m\<lparr>mq_next := None\<rparr>" by auto
  then have "m' = m\<lparr>mq_next := mq_next m'\<rparr>"
    by (metis message_queue.surjective message_queue.update_convs(10))
  with m'(1) show ?thesis by metis
qed

lemma same_but_next_dom: "same_but_next s s' \<Longrightarrow> mqs s' q = None \<longleftrightarrow> mqs s q = None"
  unfolding same_but_next_def by (metis option.map_disc_iff)

lemma mq_rep_next [simp]: "mq_rep (q\<lparr>mq_next := n\<rparr>) xs = mq_rep q xs"
  by (simp add: mq_rep_def mq_wf_def mq_abs_def mq_len_def)

lemma mq_rep_flags [simp]:
  "mq_rep (q\<lparr>mq_in_global := b\<rparr>) xs = mq_rep q xs"
  "mq_rep (q\<lparr>mq_release := b\<rparr>) xs = mq_rep q xs"
  by (simp_all add: mq_rep_def mq_wf_def mq_abs_def mq_len_def)

lemma globalmq_push_rep:
  assumes "gq_rep s qs" "x \<notin> set qs" "unlinked x s"
  shows "\<exists>s'. skynet_globalmq_push x s = Some s' \<and> gq_rep s' (qs @ [x]) \<and> same_but_next s s' \<and>
    (\<forall>q. q \<notin> set qs \<longrightarrow> mqs s' q = mqs s q)"
proof -
  obtain mx where mx: "mqs s x = Some mx" "mq_next mx = None"
    using assms(3) by (auto simp: unlinked_def)
  show ?thesis
  proof (cases "qs = []")
    case True
    with assms(1) mx show ?thesis
      by (simp add: gq_rep_def skynet_globalmq_push_def same_but_next_def)
  next
    case False
    with assms(1) obtain t where t: "mqs s (last qs) = Some t" "Q_tail s = Some (last qs)"
      using chain_dom [of "mqs s" "Q_head s" qs "last qs"] by (auto simp: gq_rep_def)
    have "chain ((mqs s)(last qs \<mapsto> t\<lparr>mq_next := Some x\<rparr>)) (Q_head s) (qs @ [x])"
      using assms(1,2) False mx t(1) by (intro chain_snoc) (auto simp: gq_rep_def)
    with assms(1,2) False mx t show ?thesis
      by (auto simp: gq_rep_def skynet_globalmq_push_def set_next_def same_but_next_def)
  qed
qed

lemma globalmq_pop_nil:
  "gq_rep s [] \<Longrightarrow> skynet_globalmq_pop s = Some (None, s)"
  by (simp add: gq_rep_def skynet_globalmq_pop_def)

lemma globalmq_pop_cons:
  assumes "gq_rep s (x # qs)"
  shows "\<exists>s'. skynet_globalmq_pop s = Some (Some x, s') \<and> gq_rep s' qs \<and> same_but_next s s' \<and>
    unlinked x s' \<and> (\<forall>q. q \<noteq> x \<longrightarrow> mqs s' q = mqs s q)"
proof -
  obtain m where m: "Q_head s = Some x" "mqs s x = Some m" "chain (mqs s) (mq_next m) qs"
    using assms by (auto simp: gq_rep_def)
  have d: "x \<notin> set qs" "distinct qs" and
    tl: "Q_tail s = Some (if qs = [] then x else last qs)"
    using assms by (auto simp: gq_rep_def)
  have nx: "mq_next m = None \<longleftrightarrow> qs = []"
    using m(3) by (cases qs) auto
  show ?thesis
  proof (cases "qs = []")
    case True
    with m tl nx show ?thesis
      by (simp add: skynet_globalmq_pop_def set_next_def gq_rep_def unlinked_def same_but_next_def)
  next
    case False
    with nx obtain y where "mq_next m = Some y" by blast
    with m d tl False show ?thesis
      by (simp add: skynet_globalmq_pop_def set_next_def gq_rep_def unlinked_def same_but_next_def
          Let_def)
  qed
qed

interpretation gq: fifo skynet_globalmq_push skynet_globalmq_pop gq_rep
  "\<lambda>x qs s. x \<notin> set qs \<and> unlinked x s"
proof unfold_locales
  show "\<exists>s'. skynet_globalmq_push x s = Some s' \<and> gq_rep s' (qs @ [x])"
    if "gq_rep s qs" "x \<notin> set qs \<and> unlinked x s" for s qs x
    using globalmq_push_rep that by blast
next
  show "y \<notin> set (qs @ [x]) \<and> unlinked y s'"
    if "gq_rep s qs" "x \<notin> set qs \<and> unlinked x s" "y \<notin> set qs \<and> unlinked y s" "x \<noteq> y"
      "skynet_globalmq_push x s = Some s'" for s s' qs x y
  proof -
    have "mqs s' y = mqs s y"
      using globalmq_push_rep [OF that(1)] that(2,3,5) by force
    with that show ?thesis by (simp add: unlinked_def)
  qed
next
  show "\<exists>s'. skynet_globalmq_pop s = Some (None, s') \<and> gq_rep s' []" if "gq_rep s []" for s
    using globalmq_pop_nil that by blast
next
  show "\<exists>s'. skynet_globalmq_pop s = Some (Some x, s') \<and> gq_rep s' qs" if "gq_rep s (x # qs)" for s x qs
    using globalmq_pop_cons [OF that] by blast
qed

lemmas gq_ops = globalmq_push_rep globalmq_pop_nil globalmq_pop_cons

end
