(* ===== verification/Sched.thy ===== *)
theory Sched
  imports Mqueue
begin

section \<open>Scheduling of mailboxes (skynet_mq.c with the worker loop of skynet_server.c)\<close>

text \<open>
  Any number of threads push messages into mailboxes and any number of workers take
  mailboxes from the global queue, pop messages and hand the mailbox back. Each step below is one
  critical section of the code. \<open>s_held\<close> lists the mailboxes a thread has in its hands: a worker
  between \<open>skynet_globalmq_pop\<close> and the moment it pushes the mailbox back, finds it
  empty or frees it, and \<open>skynet_context_new\<close> between creating the mailbox and launching it.
  \<open>s_sent\<close> and \<open>s_got\<close> are ghost logs of what was pushed into and popped from each mailbox.

  The flag \<open>in_global\<close> is what makes this work: the invariant \<open>sched_inv\<close> says that a mailbox
  is in the list or in somebody's hands exactly when the flag or \<open>release\<close> is set, that it is
  never in two places, and that a mailbox without the flag is empty.
\<close>

record sched =
  s_mq :: mq_state
  s_held :: "qid list"
  s_sent :: "qid \<Rightarrow> skynet_message list"
  s_got :: "qid \<Rightarrow> skynet_message list"

definition sched_init :: sched where
  "sched_init = \<lparr>s_mq = skynet_mq_init, s_held = [], s_sent = (\<lambda>_. []), s_got = (\<lambda>_. [])\<rparr>"

definition released :: "qid \<Rightarrow> mq_state \<Rightarrow> bool" where
  "released q s = (case mqs s q of None \<Rightarrow> True | Some m \<Rightarrow> mq_release m)"

text \<open>
  A sender and a worker that found the mailbox empty hold a reference to the context, which is
  what keeps \<open>release\<close> unset in \<open>push\<close> and \<open>idle\<close>.
\<close>

inductive sched_step :: "sched \<Rightarrow> sched \<Rightarrow> bool" where
  create: "skynet_mq_create h (s_mq s) = (q, t) \<Longrightarrow>
    sched_step s (s\<lparr>s_mq := t, s_held := q # s_held s\<rparr>)"
| push: "\<not> released q (s_mq s) \<Longrightarrow> skynet_mq_push q m (s_mq s) = Some t \<Longrightarrow>
    sched_step s (s\<lparr>s_mq := t, s_sent := (s_sent s)(q := s_sent s q @ [m])\<rparr>)"
| grab: "skynet_globalmq_pop (s_mq s) = Some (Some q, t) \<Longrightarrow>
    sched_step s (s\<lparr>s_mq := t, s_held := q # s_held s\<rparr>)"
| take: "q \<in> set (s_held s) \<Longrightarrow> skynet_mq_pop q (s_mq s) = Some (Some m, t) \<Longrightarrow>
    sched_step s (s\<lparr>s_mq := t, s_got := (s_got s)(q := s_got s q @ [m])\<rparr>)"
| idle: "q \<in> set (s_held s) \<Longrightarrow> \<not> released q (s_mq s) \<Longrightarrow>
    skynet_mq_pop q (s_mq s) = Some (None, t) \<Longrightarrow>
    sched_step s (s\<lparr>s_mq := t, s_held := remove1 q (s_held s)\<rparr>)"
| requeue: "q \<in> set (s_held s) \<Longrightarrow> skynet_globalmq_push q (s_mq s) = Some t \<Longrightarrow>
    sched_step s (s\<lparr>s_mq := t, s_held := remove1 q (s_held s)\<rparr>)"
| mark: "\<not> released q (s_mq s) \<Longrightarrow> skynet_mq_mark_release q (s_mq s) = Some t \<Longrightarrow>
    sched_step s (s\<lparr>s_mq := t\<rparr>)"
| free: "q \<in> set (s_held s) \<Longrightarrow> mqs (s_mq s) q = Some m \<Longrightarrow> mq_release m \<Longrightarrow>
    skynet_mq_pop q (s_mq s) = Some (None, t) \<Longrightarrow> mq_free q t = Some u \<Longrightarrow>
    sched_step s (s\<lparr>s_mq := u, s_held := remove1 q (s_held s)\<rparr>)"

inductive sched_reach :: "sched \<Rightarrow> bool" where
  init: "sched_reach sched_init"
| step: "sched_reach s \<Longrightarrow> sched_step s t \<Longrightarrow> sched_reach t"

subsection \<open>The invariant\<close>

text \<open>What holds of one mailbox, given the list, the held mailboxes and the two logs.\<close>

definition mbox_ok ::
  "qid list \<Rightarrow> qid list \<Rightarrow> skynet_message list \<Rightarrow> skynet_message list \<Rightarrow> qid \<Rightarrow>
   message_queue option \<Rightarrow> bool" where
  "mbox_ok qs held sent got q mo = (case mo of
     None \<Rightarrow> sent = got \<and> q \<notin> set held \<and> q \<notin> set qs
   | Some m \<Rightarrow> \<exists>xs. mq_rep m xs \<and> sent = got @ xs \<and> (\<not> mq_in_global m \<longrightarrow> xs = []) \<and>
       (q \<in> set qs \<or> q \<in> set held \<longleftrightarrow> mq_in_global m \<or> mq_release m) \<and>
       (q \<notin> set qs \<longrightarrow> mq_next m = None))"

definition sched_ok :: "sched \<Rightarrow> qid list \<Rightarrow> bool" where
  "sched_ok s qs \<longleftrightarrow> gq_rep (s_mq s) qs \<and> distinct (s_held s @ qs) \<and>
     (\<forall>q. mbox_ok qs (s_held s) (s_sent s q) (s_got s q) q (mqs (s_mq s) q)) \<and>
     (\<forall>q \<ge> mq_fresh (s_mq s). mqs (s_mq s) q = None)"

definition sched_inv :: "sched \<Rightarrow> bool" where
  "sched_inv s \<longleftrightarrow> (\<exists>qs. sched_ok s qs)"

lemma sched_okD:
  assumes "sched_ok s qs"
  shows "gq_rep (s_mq s) qs" "distinct (s_held s @ qs)"
    "\<And>q. mbox_ok qs (s_held s) (s_sent s q) (s_got s q) q (mqs (s_mq s) q)"
    "\<And>q. mq_fresh (s_mq s) \<le> q \<Longrightarrow> mqs (s_mq s) q = None"
  using assms by (auto simp: sched_ok_def)

text \<open>Relinking, and moving other mailboxes around, keeps what holds of a mailbox.\<close>

lemma mbox_ok_move:
  assumes "mbox_ok qs held sent got q mo"
    and "q \<in> set qs \<or> q \<in> set held \<longleftrightarrow> q \<in> set qs' \<or> q \<in> set held'"
    and "q \<notin> set qs' \<Longrightarrow> q \<notin> set qs"
  shows "mbox_ok qs' held' sent got q mo"
  using assms by (cases mo) (auto simp: mbox_ok_def)

lemma mbox_ok_relink:
  assumes "mbox_ok qs held sent got q (Some m)"
    and "q \<in> set qs \<or> q \<in> set held \<longleftrightarrow> q \<in> set qs' \<or> q \<in> set held'"
    and "q \<notin> set qs' \<Longrightarrow> n = None"
  shows "mbox_ok qs' held' sent got q (Some (m\<lparr>mq_next := n\<rparr>))"
  using assms by (auto simp: mbox_ok_def)

lemma sched_ok_init: "sched_ok sched_init []"
  by (simp add: sched_ok_def sched_init_def skynet_mq_init_def gq_rep_def mbox_ok_def)

lemma sched_ok_unlinked:
  "sched_ok s qs \<Longrightarrow> q \<notin> set qs \<Longrightarrow> mqs (s_mq s) q = Some m \<Longrightarrow> unlinked q (s_mq s)"
  using sched_okD(3) [of s qs q] by (auto simp: mbox_ok_def unlinked_def)

lemma sched_ok_held:
  assumes "sched_ok s qs" "q \<in> set (s_held s)"
  shows "q \<notin> set qs" "\<exists>m. mqs (s_mq s) q = Some m" "unlinked q (s_mq s)"
proof -
  show q: "q \<notin> set qs" using assms sched_okD(2) [OF assms(1)] by auto
  show ex: "\<exists>m. mqs (s_mq s) q = Some m"
    using sched_okD(3) [OF assms(1), of q] assms(2) by (auto simp: mbox_ok_def split: option.splits)
  then show "unlinked q (s_mq s)" using sched_ok_unlinked [OF assms(1) q] by auto
qed

subsection \<open>Every step keeps it\<close>

lemma sched_ok_create:
  assumes "sched_ok s qs" "skynet_mq_create h (s_mq s) = (q, t)"
  shows "sched_ok (s\<lparr>s_mq := t, s_held := q # s_held s\<rparr>) qs"
proof -
  let ?f = "mq_fresh (s_mq s)"
  have qt: "q = ?f" "t = (s_mq s)\<lparr>mqs := (mqs (s_mq s))(?f \<mapsto> new_queue h), mq_fresh := Suc ?f\<rparr>"
    using assms(2) by (auto simp: skynet_mq_create_def)
  have fresh: "mqs (s_mq s) ?f = None" using sched_okD(4) [OF assms(1)] by simp
  have new: "?f \<notin> set qs" "?f \<notin> set (s_held s)" "s_sent s ?f = s_got s ?f"
    using sched_okD(3) [OF assms(1), of ?f] fresh by (auto simp: mbox_ok_def)
  have "mbox_ok qs (?f # s_held s) (s_sent s p) (s_got s p) p
      (((mqs (s_mq s))(?f \<mapsto> new_queue h)) p)" for p
  proof (cases "p = ?f")
    case True
    with new mq_rep_new [of h] show ?thesis by (auto simp: mbox_ok_def new_queue_def)
  next
    case False
    then show ?thesis
      by (auto intro: mbox_ok_move [OF sched_okD(3) [OF assms(1), of p]])
  qed
  with assms(1) new qt show ?thesis
    by (auto simp: sched_ok_def gq_rep_def)
qed

text \<open>A mailbox put at the end of the list, from the hands of its holder.\<close>

lemma sched_ok_requeue:
  assumes "sched_ok s qs" "q \<in> set (s_held s)" "skynet_globalmq_push q (s_mq s) = Some t"
  shows "sched_ok (s\<lparr>s_mq := t, s_held := remove1 q (s_held s)\<rparr>) (qs @ [q])"
proof -
  note h = sched_ok_held [OF assms(1,2)]
  have t: "gq_rep t (qs @ [q])" "same_but_next (s_mq s) t" "\<And>p. p \<notin> set qs \<Longrightarrow> mqs t p = mqs (s_mq s) p"
    using globalmq_push_rep [OF sched_okD(1) [OF assms(1)] h(1,3)] assms(3) by auto
  have d: "distinct (s_held s)" using sched_okD(2) [OF assms(1)] by simp
  have "mbox_ok (qs @ [q]) (remove1 q (s_held s)) (s_sent s p) (s_got s p) p (mqs t p)" for p
  proof (cases "p \<in> set qs")
    case True
    then obtain m where m: "mqs (s_mq s) p = Some m"
      using sched_okD(3) [OF assms(1), of p] by (cases "mqs (s_mq s) p") (auto simp: mbox_ok_def)
    then obtain n where "mqs t p = Some (m\<lparr>mq_next := n\<rparr>)" using same_but_nextD [OF t(2)] by blast
    with True m sched_okD(3) [OF assms(1), of p] show ?thesis
      by (auto intro!: mbox_ok_relink [of qs "s_held s"])
  next
    case False
    then show ?thesis
      using t(3) [of p] assms(2) d sched_okD(3) [OF assms(1), of p]
      by (auto intro!: mbox_ok_move [of qs "s_held s"])
  qed
  with t d assms(1) h(1) show ?thesis
    using same_but_next_dom [OF t(2)] by (auto simp: sched_ok_def same_but_next_def)
qed

lemma sched_ok_grab:
  assumes "sched_ok s qs" "skynet_globalmq_pop (s_mq s) = Some (Some q, t)"
  shows "\<exists>qs'. qs = q # qs' \<and> sched_ok (s\<lparr>s_mq := t, s_held := q # s_held s\<rparr>) qs'"
proof -
  have rep: "gq_rep (s_mq s) qs" using sched_okD(1) [OF assms(1)] .
  obtain qs' where qs: "qs = q # qs'"
  proof (cases qs)
    case Nil
    with rep globalmq_pop_nil assms(2) show thesis by fastforce
  next
    case (Cons x xs)
    with rep globalmq_pop_cons [of "s_mq s" x xs] assms(2) that show thesis by auto
  qed
  have t: "gq_rep t qs'" "same_but_next (s_mq s) t" "unlinked q t"
    "\<And>p. p \<noteq> q \<Longrightarrow> mqs t p = mqs (s_mq s) p"
    using globalmq_pop_cons [of "s_mq s" q qs'] sched_okD(1) [OF assms(1)] assms(2) qs by auto
  have "mbox_ok qs' (q # s_held s) (s_sent s p) (s_got s p) p (mqs t p)" for p
  proof (cases "p = q")
    case True
    obtain m where m: "mqs t q = Some m" "mq_next m = None" using t(3) by (auto simp: unlinked_def)
    then obtain m0 n where "mqs (s_mq s) q = Some m0" "m = m0\<lparr>mq_next := n\<rparr>"
      using same_but_nextD [OF t(2)] same_but_next_dom [OF t(2), of q]
      by (metis not_Some_eq option.inject)
    with m True qs sched_okD(3) [OF assms(1), of q] show ?thesis
      by (auto simp: mbox_ok_def)
  next
    case False
    then have "mqs t p = mqs (s_mq s) p" by (rule t(4))
    then show ?thesis
      using mbox_ok_move [OF sched_okD(3) [OF assms(1), of p]] False qs by simp
  qed
  then have "sched_ok (s\<lparr>s_mq := t, s_held := q # s_held s\<rparr>) qs'"
    using t(1,2) assms(1) same_but_next_dom [OF t(2)]
    by (auto simp: sched_ok_def qs same_but_next_def)
  with qs show ?thesis by blast
qed


text \<open>
  A step that rewrites one mailbox and leaves the list alone: enough to look at that mailbox.
\<close>

lemma gq_rep_upd:
  assumes "gq_rep s qs" "mqs s q = Some m" "mq_next m' = mq_next m"
  shows "gq_rep (s\<lparr>mqs := (mqs s)(q \<mapsto> m')\<rparr>) qs"
proof -
  have "chain ((mqs s)(q \<mapsto> m')) (Q_head s) qs = chain (mqs s) (Q_head s) qs"
    by (rule chain_same_next) (use assms in auto)
  with assms(1) show ?thesis by (simp add: gq_rep_def)
qed

lemma sched_ok_upd:
  assumes "sched_ok s qs" "mqs (s_mq s) q = Some m" "mq_next m' = mq_next m"
    and "distinct (held' @ qs)" "\<And>p. p \<noteq> q \<Longrightarrow> p \<in> set held' \<longleftrightarrow> p \<in> set (s_held s)"
    and "mbox_ok qs held' sent' got' q (Some m')"
  shows "sched_ok (s\<lparr>s_mq := (s_mq s)\<lparr>mqs := (mqs (s_mq s))(q \<mapsto> m')\<rparr>, s_held := held',
    s_sent := (s_sent s)(q := sent'), s_got := (s_got s)(q := got')\<rparr>) qs"
proof -
  have "mbox_ok qs held' (s_sent s p) (s_got s p) p (mqs (s_mq s) p)" if "p \<noteq> q" for p
    using mbox_ok_move [OF sched_okD(3) [OF assms(1), of p]] assms(5) [OF that] by simp
  with assms gq_rep_upd [OF sched_okD(1) [OF assms(1)] assms(2,3)] show ?thesis
    by (auto simp: sched_ok_def)
qed

lemma sched_ok_take:
  assumes "sched_ok s qs" "q \<in> set (s_held s)" "skynet_mq_pop q (s_mq s) = Some (Some m, t)"
  shows "sched_ok (s\<lparr>s_mq := t, s_got := (s_got s)(q := s_got s q @ [m])\<rparr>) qs"
proof -
  obtain x where x: "mqs (s_mq s) q = Some x" using sched_ok_held [OF assms(1,2)] by blast
  obtain xs where xs: "mq_rep x xs" "s_sent s q = s_got s q @ xs"
    "\<not> mq_in_global x \<longrightarrow> xs = []" "mq_in_global x \<or> mq_release x" "mq_next x = None"
    using sched_okD(3) [OF assms(1), of q] x assms(2) sched_ok_held(1) [OF assms(1,2)]
    by (auto simp: mbox_ok_def)
  obtain ys where ys: "xs = m # ys"
    using assms(3) x xs(1) mq_pop1_nil mq_pop1_cons by (cases xs) (fastforce simp: skynet_mq_pop_def)+
  obtain x' where x': "mq_pop1 x = Some (Some m, x')" "mq_rep x' ys"
      "mq_in_global x' = mq_in_global x" "mq_next x' = mq_next x" "mq_release x' = mq_release x"
    using mq_pop1_cons xs(1) ys by blast
  have t: "t = (s_mq s)\<lparr>mqs := (mqs (s_mq s))(q \<mapsto> x')\<rparr>"
    using assms(3) x x'(1) by (simp add: skynet_mq_pop_def)
  have "mbox_ok qs (s_held s) (s_sent s q) (s_got s q @ [m]) q (Some x')"
    using x' xs ys assms(2) by (auto simp: mbox_ok_def)
  with sched_ok_upd [OF assms(1) x x'(4), of "s_held s" "s_sent s q" "s_got s q @ [m]"]
    sched_okD(2) [OF assms(1)] t show ?thesis by simp
qed

lemma skynet_mq_pop_None:
  assumes "mqs s q = Some x" "mq_rep x xs" "skynet_mq_pop q s = Some (None, t)"
  shows "xs = []" "t = s\<lparr>mqs := (mqs s)(q \<mapsto> x\<lparr>mq_overload_threshold := MQ_OVERLOAD,
    mq_in_global := False\<rparr>)\<rparr>"
proof -
  show "xs = []"
    using assms mq_pop1_cons by (cases xs) (fastforce simp: skynet_mq_pop_def)+
  with assms mq_pop1_nil(1) show "t = s\<lparr>mqs := (mqs s)(q \<mapsto>
    x\<lparr>mq_overload_threshold := MQ_OVERLOAD, mq_in_global := False\<rparr>)\<rparr>"
    by (simp add: skynet_mq_pop_def)
qed

lemma sched_ok_idle:
  assumes "sched_ok s qs" "q \<in> set (s_held s)" "\<not> released q (s_mq s)"
    "skynet_mq_pop q (s_mq s) = Some (None, t)"
  shows "sched_ok (s\<lparr>s_mq := t, s_held := remove1 q (s_held s)\<rparr>) qs"
proof -
  obtain x where x: "mqs (s_mq s) q = Some x" using sched_ok_held [OF assms(1,2)] by blast
  obtain xs where xs: "mq_rep x xs" "s_sent s q = s_got s q @ xs" "mq_next x = None"
    using sched_okD(3) [OF assms(1), of q] x sched_ok_held(1) [OF assms(1,2)]
    by (auto simp: mbox_ok_def)
  note p = skynet_mq_pop_None [OF x xs(1) assms(4)]
  have d: "distinct (s_held s @ qs)" using sched_okD(2) [OF assms(1)] .
  let ?x = "x\<lparr>mq_overload_threshold := MQ_OVERLOAD, mq_in_global := False\<rparr>"
  have "mbox_ok qs (remove1 q (s_held s)) (s_sent s q) (s_got s q) q (Some ?x)"
    using xs p(1) assms(3) x d sched_ok_held(1) [OF assms(1,2)] mq_pop1_nil(2)
    by (auto simp: mbox_ok_def released_def)
  with sched_ok_upd [OF assms(1) x, of ?x "remove1 q (s_held s)" "s_sent s q" "s_got s q"]
    d p(2) show ?thesis by auto
qed

lemma not_releasedD:
  assumes "sched_ok s qs" "\<not> released q (s_mq s)"
  obtains x xs where "mqs (s_mq s) q = Some x" "\<not> mq_release x" "mq_rep x xs"
    "s_sent s q = s_got s q @ xs" "\<not> mq_in_global x \<Longrightarrow> xs = []"
    "q \<in> set qs \<or> q \<in> set (s_held s) \<longleftrightarrow> mq_in_global x" "q \<notin> set qs \<Longrightarrow> mq_next x = None"
  using sched_okD(3) [OF assms(1), of q] assms(2)
  by (cases "mqs (s_mq s) q") (auto simp: released_def mbox_ok_def)

text \<open>
  A mailbox that is not in the list and not held, rewritten with its flag or \<open>release\<close> set, goes
  to the end of the list: the push that both \<open>skynet_mq_push\<close> and \<open>skynet_mq_mark_release\<close> end in.
\<close>

lemma sched_ok_enlist:
  assumes "sched_ok s qs" "mqs (s_mq s) q = Some x" "q \<notin> set qs" "q \<notin> set (s_held s)"
    and "mq_next x' = mq_next x" "mbox_ok qs (q # s_held s) sent' (s_got s q) q (Some x')"
    and "skynet_globalmq_push q ((s_mq s)\<lparr>mqs := (mqs (s_mq s))(q \<mapsto> x')\<rparr>) = Some t"
  shows "sched_ok (s\<lparr>s_mq := t, s_sent := (s_sent s)(q := sent')\<rparr>) (qs @ [q])"
proof -
  let ?s = "s\<lparr>s_mq := (s_mq s)\<lparr>mqs := (mqs (s_mq s))(q \<mapsto> x')\<rparr>, s_held := q # s_held s,
    s_sent := (s_sent s)(q := sent')\<rparr>"
  have "sched_ok ?s qs"
    using sched_ok_upd [OF assms(1,2,5), of "q # s_held s" sent' "s_got s q"] assms(3,4,6)
      sched_okD(2) [OF assms(1)] by simp
  from sched_ok_requeue [OF this, of q t] assms(7)
  have "sched_ok (?s\<lparr>s_mq := t, s_held := s_held s\<rparr>) (qs @ [q])" by simp
  moreover have "?s\<lparr>s_mq := t, s_held := s_held s\<rparr> = s\<lparr>s_mq := t, s_sent := (s_sent s)(q := sent')\<rparr>"
    by simp
  ultimately show ?thesis by (simp only:)
qed

lemma sched_ok_push:
  assumes "sched_ok s qs" "\<not> released q (s_mq s)" "skynet_mq_push q m (s_mq s) = Some t"
  shows "\<exists>qs'. sched_ok (s\<lparr>s_mq := t, s_sent := (s_sent s)(q := s_sent s q @ [m])\<rparr>) qs'"
proof -
  obtain x xs where x: "mqs (s_mq s) q = Some x" "\<not> mq_release x" "mq_rep x xs"
    "s_sent s q = s_got s q @ xs" "q \<in> set qs \<or> q \<in> set (s_held s) \<longleftrightarrow> mq_in_global x"
    "q \<notin> set qs \<Longrightarrow> mq_next x = None"
    using not_releasedD [OF assms(1,2)] by metis
  obtain x1 where x1: "mq_push1 m x = Some x1" "mq_rep x1 (xs @ [m])"
    "mq_in_global x1 = mq_in_global x" "mq_next x1 = mq_next x" "mq_release x1 = mq_release x"
    using mq_push1_rep [OF x(3)] by blast
  show ?thesis
  proof (cases "mq_in_global x")
    case True
    then have "mbox_ok qs (s_held s) (s_sent s q @ [m]) (s_got s q) q (Some x1)"
      using x x1 by (auto simp: mbox_ok_def)
    with sched_ok_upd [OF assms(1) x(1) x1(4), of "s_held s" "s_sent s q @ [m]" "s_got s q"]
      sched_okD(2) [OF assms(1)] assms(3) x(1) x1(1,3) True show ?thesis
      by (auto simp: skynet_mq_push_def intro!: exI [of _ qs])
  next
    case False
    have "mbox_ok qs (q # s_held s) (s_sent s q @ [m]) (s_got s q) q
        (Some (x1\<lparr>mq_in_global := True\<rparr>))"
      using x x1 False by (auto simp: mbox_ok_def)
    with sched_ok_enlist [OF assms(1) x(1), of "x1\<lparr>mq_in_global := True\<rparr>"] x x1 False assms(3)
    show ?thesis by (auto simp: skynet_mq_push_def)
  qed
qed

lemma sched_ok_mark:
  assumes "sched_ok s qs" "\<not> released q (s_mq s)" "skynet_mq_mark_release q (s_mq s) = Some t"
  shows "\<exists>qs'. sched_ok (s\<lparr>s_mq := t\<rparr>) qs'"
proof -
  obtain x xs where x: "mqs (s_mq s) q = Some x" "\<not> mq_release x" "mq_rep x xs"
    "s_sent s q = s_got s q @ xs" "\<not> mq_in_global x \<Longrightarrow> xs = []"
    "q \<in> set qs \<or> q \<in> set (s_held s) \<longleftrightarrow> mq_in_global x" "q \<notin> set qs \<Longrightarrow> mq_next x = None"
    using not_releasedD [OF assms(1,2)] by metis
  let ?x = "x\<lparr>mq_release := True\<rparr>"
  show ?thesis
  proof (cases "mq_in_global x")
    case True
    then have "mbox_ok qs (s_held s) (s_sent s q) (s_got s q) q (Some ?x)"
      using x by (auto simp: mbox_ok_def)
    with sched_ok_upd [OF assms(1) x(1), of ?x "s_held s" "s_sent s q" "s_got s q"]
      sched_okD(2) [OF assms(1)] assms(3) x(1,2) True show ?thesis
      by (auto simp: skynet_mq_mark_release_def intro!: exI [of _ qs])
  next
    case False
    then have "mbox_ok qs (q # s_held s) (s_sent s q) (s_got s q) q (Some ?x)"
      using x by (auto simp: mbox_ok_def)
    moreover have "skynet_globalmq_push q ((s_mq s)\<lparr>mqs := (mqs (s_mq s))(q \<mapsto> ?x)\<rparr>) = Some t"
      using x(1,2) False assms(3) by (simp add: skynet_mq_mark_release_def)
    ultimately have "sched_ok (s\<lparr>s_mq := t\<rparr>) (qs @ [q])"
      using sched_ok_enlist [OF assms(1) x(1), of ?x "s_sent s q" t] x(6) False by simp
    then show ?thesis by blast
  qed
qed

lemma sched_ok_free:
  assumes "sched_ok s qs" "q \<in> set (s_held s)" "skynet_mq_pop q (s_mq s) = Some (None, t)"
    "mq_free q t = Some u"
  shows "sched_ok (s\<lparr>s_mq := u, s_held := remove1 q (s_held s)\<rparr>) qs"
proof -
  note h = sched_ok_held [OF assms(1,2)]
  obtain x where x: "mqs (s_mq s) q = Some x" using h(2) by blast
  obtain xs where xs: "mq_rep x xs" "s_sent s q = s_got s q @ xs"
    using sched_okD(3) [OF assms(1), of q] x by (auto simp: mbox_ok_def)
  note p = skynet_mq_pop_None [OF x xs(1) assms(3)]
  have u: "u = (s_mq s)\<lparr>mqs := (mqs (s_mq s))(q := None)\<rparr>"
    using assms(4) p(2) by (auto simp: mq_free_def split: if_splits)
  have d: "distinct (s_held s @ qs)" using sched_okD(2) [OF assms(1)] .
  have "mbox_ok qs (remove1 q (s_held s)) (s_sent s r) (s_got s r) r
      (((mqs (s_mq s))(q := None)) r)" for r
  proof (cases "r = q")
    case True
    with d xs(2) p(1) h(1) show ?thesis by (auto simp: mbox_ok_def)
  next
    case False
    with mbox_ok_move [OF sched_okD(3) [OF assms(1), of r]] show ?thesis by simp
  qed
  with assms(1) d u h(1) show ?thesis by (auto simp: sched_ok_def gq_rep_def)
qed

lemma sched_step_inv: "sched_step s t \<Longrightarrow> sched_inv s \<Longrightarrow> sched_inv t"
proof (induction rule: sched_step.induct)
  case create
  then show ?case unfolding sched_inv_def using sched_ok_create by blast
next
  case push
  then show ?case unfolding sched_inv_def using sched_ok_push by blast
next
  case grab
  then show ?case unfolding sched_inv_def using sched_ok_grab by blast
next
  case take
  then show ?case unfolding sched_inv_def using sched_ok_take by blast
next
  case idle
  then show ?case unfolding sched_inv_def using sched_ok_idle by blast
next
  case requeue
  then show ?case unfolding sched_inv_def using sched_ok_requeue by blast
next
  case mark
  then show ?case unfolding sched_inv_def using sched_ok_mark by blast
next
  case free
  then show ?case unfolding sched_inv_def using sched_ok_free by blast
qed

lemma sched_reach_inv: "sched_reach s \<Longrightarrow> sched_inv s"
proof (induction rule: sched_reach.induct)
  case init
  show ?case unfolding sched_inv_def using sched_ok_init by blast
next
  case step
  then show ?case by (blast intro: sched_step_inv)
qed


subsection \<open>What the invariant gives\<close>

text \<open>No assertion fails: each operation a thread is about to do succeeds.\<close>

lemma sched_ok_push_total:
  assumes "sched_ok s qs" "\<not> released q (s_mq s)"
  shows "\<exists>t. skynet_mq_push q m (s_mq s) = Some t"
proof -
  obtain x xs where x: "mqs (s_mq s) q = Some x" "mq_rep x xs"
    "q \<in> set qs \<or> q \<in> set (s_held s) \<longleftrightarrow> mq_in_global x" "q \<notin> set qs \<Longrightarrow> mq_next x = None"
    using not_releasedD [OF assms] by metis
  obtain x1 where x1: "mq_push1 m x = Some x1" "mq_in_global x1 = mq_in_global x"
    "mq_next x1 = mq_next x"
    using mq_push1_rep [OF x(2)] by blast
  let ?x = "x1\<lparr>mq_in_global := True\<rparr>"
  let ?s = "(s_mq s)\<lparr>mqs := (mqs (s_mq s))(q \<mapsto> ?x)\<rparr>"
  have "\<exists>t. skynet_globalmq_push q ?s = Some t" if "\<not> mq_in_global x"
  proof -
    have "q \<notin> set qs" "unlinked q ?s" using x(3,4) x1(3) that by (auto simp: unlinked_def)
    with gq_rep_upd [OF sched_okD(1) [OF assms(1)] x(1), of ?x] x1(3) gq.enq_rep
    show ?thesis by fastforce
  qed
  with x(1) x1 show ?thesis by (simp add: skynet_mq_push_def)
qed

lemma sched_ok_mark_total:
  assumes "sched_ok s qs" "\<not> released q (s_mq s)"
  shows "\<exists>t. skynet_mq_mark_release q (s_mq s) = Some t"
proof -
  obtain x xs where x: "mqs (s_mq s) q = Some x" "\<not> mq_release x"
    "q \<in> set qs \<or> q \<in> set (s_held s) \<longleftrightarrow> mq_in_global x" "q \<notin> set qs \<Longrightarrow> mq_next x = None"
    using not_releasedD [OF assms] by metis
  let ?x = "x\<lparr>mq_release := True\<rparr>"
  let ?s = "(s_mq s)\<lparr>mqs := (mqs (s_mq s))(q \<mapsto> ?x)\<rparr>"
  have "\<exists>t. skynet_globalmq_push q ?s = Some t" if "\<not> mq_in_global x"
  proof -
    have "q \<notin> set qs" "unlinked q ?s" using x(3,4) that by (auto simp: unlinked_def)
    with gq_rep_upd [OF sched_okD(1) [OF assms(1)] x(1), of ?x] gq.enq_rep
    show ?thesis by fastforce
  qed
  with x(1,2) show ?thesis by (simp add: skynet_mq_mark_release_def Let_def)
qed

lemma sched_ok_pop_total:
  assumes "sched_ok s qs" "q \<in> set (s_held s)"
  shows "\<exists>r t. skynet_mq_pop q (s_mq s) = Some (r, t)"
proof -
  obtain x where x: "mqs (s_mq s) q = Some x" using sched_ok_held [OF assms] by blast
  then obtain xs where "mq_rep x xs"
    using sched_okD(3) [OF assms(1), of q] by (auto simp: mbox_ok_def)
  from mbox.deq_total [OF this] x show ?thesis by (auto simp: skynet_mq_pop_def)
qed

lemma sched_ok_requeue_total:
  assumes "sched_ok s qs" "q \<in> set (s_held s)"
  shows "\<exists>t. skynet_globalmq_push q (s_mq s) = Some t"
  using gq.enq_rep [OF sched_okD(1) [OF assms(1)]] sched_ok_held [OF assms] by blast

lemma sched_ok_grab_total:
  assumes "sched_ok s qs"
  shows "skynet_globalmq_pop (s_mq s) \<noteq> None"
  using gq.deq_total [OF sched_okD(1) [OF assms]] .

subsection \<open>Properties\<close>

text \<open>A run to apply the properties to: a mailbox is created and receives a message.\<close>

definition demo_msg :: skynet_message where
  "demo_msg = \<lparr>msg_source = 1, msg_session = 7, msg_data = 0, msg_sz = 0\<rparr>"

definition demo_created :: sched where
  "demo_created = sched_init\<lparr>s_mq := snd (skynet_mq_create 5 skynet_mq_init), s_held := [1]\<rparr>"

definition demo_box :: message_queue where
  "demo_box = (new_queue 5)\<lparr>mq_queue := (replicate DEFAULT_QUEUE_SIZE None)[0 := Some demo_msg],
     mq_tail := 1\<rparr>"

definition demo_pushed :: sched where
  "demo_pushed = demo_created\<lparr>
     s_mq := (s_mq demo_created)\<lparr>mqs := [1 \<mapsto> demo_box]\<rparr>, s_sent := (\<lambda>_. [])(1 := [demo_msg])\<rparr>"

lemma demo_push: "skynet_mq_push 1 demo_msg (s_mq demo_created) = Some (s_mq demo_pushed)"
  by (simp add: skynet_mq_push_def demo_created_def demo_pushed_def skynet_mq_create_def
      skynet_mq_init_def mq_push1_def new_queue_def demo_box_def DEFAULT_QUEUE_SIZE_def Let_def)

lemma demo_box_rep: "mq_rep demo_box [demo_msg]"
  using mq_push1_rep [OF mq_rep_new [of 5], of demo_msg]
  by (auto simp: mq_push1_def new_queue_def demo_box_def DEFAULT_QUEUE_SIZE_def Let_def)

lemma demo_reach: "sched_reach demo_created" "sched_reach demo_pushed"
proof -
  show c: "sched_reach demo_created"
    using sched_reach.step [OF sched_reach.init sched_step.create [of 5 sched_init 1]]
    by (simp add: demo_created_def sched_init_def skynet_mq_create_def skynet_mq_init_def)
  have "\<not> released 1 (s_mq demo_created)"
    by (simp add: released_def demo_created_def skynet_mq_create_def skynet_mq_init_def new_queue_def)
  from sched_reach.step [OF c sched_step.push [OF this demo_push]]
  show "sched_reach demo_pushed"
    by (simp add: demo_pushed_def demo_created_def sched_init_def)
qed

text \<open>
  C1. In every reachable state of the scheduler the global queue is a well-formed linked list of
  distinct mailboxes and no mailbox is both in the list and in the hands of a thread, nor in the
  hands of two: two workers never dispatch the same service at once.
\<close>

theorem sched_exclusive:
  assumes "sched_reach s"
  shows "\<exists>qs. gq_rep (s_mq s) qs \<and> distinct (s_held s @ qs)"
  using sched_reach_inv [OF assms] by (auto simp: sched_inv_def sched_ok_def)

theorem sched_exclusive_witness:
  "sched_reach demo_pushed \<and> (\<exists>qs. gq_rep (s_mq demo_pushed) qs \<and> distinct (s_held demo_pushed @ qs))"
  using sched_exclusive [OF demo_reach(2)] demo_reach(2) by simp

text \<open>
  C2. No lost wake-up: in every reachable state a mailbox that holds a message is in the global
  queue or in the hands of a worker, so the message will be dispatched.
\<close>

theorem sched_no_lost_wakeup:
  assumes "sched_reach s" "mqs (s_mq s) q = Some m" "mq_rep m (x # xs)"
  shows "q \<in> set (s_held s) \<or> (\<exists>qs. gq_rep (s_mq s) qs \<and> q \<in> set qs)"
proof -
  obtain qs where ok: "sched_ok s qs"
    using sched_reach_inv [OF assms(1)] by (auto simp: sched_inv_def)
  then obtain ys where "mq_rep m ys" "\<not> mq_in_global m \<longrightarrow> ys = []"
    "q \<in> set qs \<or> q \<in> set (s_held s) \<longleftrightarrow> mq_in_global m \<or> mq_release m"
    using sched_okD(3) [OF ok, of q] assms(2) by (auto simp: mbox_ok_def)
  moreover have "ys = x # xs"
    using calculation(1) assms(3) by (auto simp: mq_rep_def dest: map_injective)
  ultimately show ?thesis using sched_okD(1) [OF ok] by blast
qed

theorem sched_no_lost_wakeup_witness:
  "mqs (s_mq demo_pushed) 1 = Some demo_box \<and> mq_rep demo_box [demo_msg] \<and>
   (1 \<in> set (s_held demo_pushed) \<or> (\<exists>qs. gq_rep (s_mq demo_pushed) qs \<and> 1 \<in> set qs))"
proof -
  have "mqs (s_mq demo_pushed) 1 = Some demo_box" by (simp add: demo_pushed_def)
  with sched_no_lost_wakeup [OF demo_reach(2) this demo_box_rep] demo_box_rep show ?thesis by blast
qed

text \<open>
  C3. Exactly once and in order: in every reachable state the messages popped from a mailbox
  followed by the ones it holds are the messages pushed, in the order of the pushes; once the
  mailbox is freed every message pushed has been popped.
\<close>

theorem sched_in_order:
  assumes "sched_reach s"
  shows "case mqs (s_mq s) q of
      None \<Rightarrow> s_sent s q = s_got s q
    | Some m \<Rightarrow> \<exists>xs. mq_rep m xs \<and> s_sent s q = s_got s q @ xs"
proof -
  obtain qs where "sched_ok s qs"
    using sched_reach_inv [OF assms] by (auto simp: sched_inv_def)
  from sched_okD(3) [OF this, of q] show ?thesis
    by (auto simp: mbox_ok_def split: option.splits)
qed

theorem sched_in_order_witness:
  "sched_reach demo_pushed \<and> s_sent demo_pushed 1 = [demo_msg] \<and>
   (\<exists>xs. mq_rep demo_box xs \<and> s_sent demo_pushed 1 = s_got demo_pushed 1 @ xs)"
  using sched_in_order [OF demo_reach(2), of 1] demo_reach(2)
  by (simp add: demo_pushed_def demo_created_def)



end
