(* ===== verification/CString.thy ===== *)
theory CString
  imports Prelude
begin

section \<open>C library routines on strings\<close>

text \<open>
  What the source uses of \<open>string.h\<close> and \<open>stdlib.h\<close>: \<open>strcmp\<close>, \<open>strchr\<close>, \<open>strtoul\<close> and
  \<open>strtol\<close> and the conversions \<open>%d\<close>, \<open>%x\<close> and \<open>%08x\<close> of \<open>sprintf\<close>. A C string is the list of
  its characters, without the terminating zero.
\<close>

subsection \<open>Comparison\<close>

fun strcmp :: "string \<Rightarrow> string \<Rightarrow> int" where
  "strcmp [] [] = 0"
| "strcmp [] (b # bs) = - 1"
| "strcmp (a # as) [] = 1"
| "strcmp (a # as) (b # bs) =
     (if a = b then strcmp as bs
      else if (of_char a :: nat) < of_char b then - 1 else 1)"

lemma strcmp_0_iff: "strcmp a b = 0 \<longleftrightarrow> a = b"
  by (induction a b rule: strcmp.induct) auto

lemma strcmp_refl [simp]: "strcmp a a = 0"
  by (simp add: strcmp_0_iff)

lemma strcmp_neg: "strcmp a b < 0 \<longleftrightarrow> 0 < strcmp b a"
proof (induction a b rule: strcmp.induct)
  case (4 a as b bs)
  then show ?case by (cases "(of_char a :: nat) = of_char b") auto
qed auto

lemma strcmp_pos: "0 < strcmp a b \<longleftrightarrow> strcmp b a < 0"
  by (simp add: strcmp_neg)

lemma strcmp_trans: "strcmp a b < 0 \<Longrightarrow> strcmp b c < 0 \<Longrightarrow> strcmp a c < 0"
proof (induction a b arbitrary: c rule: strcmp.induct)
  case (2 b bs)
  then show ?case by (cases c) auto
next
  case (4 a as b bs)
  then show ?case by (cases c) (auto split: if_splits)
qed auto

lemma strcmp_linear: "strcmp a b < 0 \<or> a = b \<or> strcmp b a < 0"
  using strcmp_neg strcmp_0_iff by (metis linorder_neqE_linordered_idom)

subsection \<open>Numbers in strings\<close>

definition is_cspace :: "char \<Rightarrow> bool" where
  "is_cspace c \<longleftrightarrow> c \<in> set (map char_of [9::nat, 10, 11, 12, 13, 32])"

definition digit_val :: "char \<Rightarrow> nat option" where
  "digit_val c = (let n = (of_char c :: nat) in
     if 48 \<le> n \<and> n \<le> 57 then Some (n - 48)
     else if 97 \<le> n \<and> n \<le> 122 then Some (n - 87)
     else if 65 \<le> n \<and> n \<le> 90 then Some (n - 55)
     else None)"

text \<open>The longest prefix of digits below the base, and what follows it.\<close>

fun scan_digits :: "nat \<Rightarrow> nat \<Rightarrow> string \<Rightarrow> nat \<times> string" where
  "scan_digits base acc [] = (acc, [])"
| "scan_digits base acc (c # cs) =
     (case digit_val c of
        Some d \<Rightarrow> if d < base then scan_digits base (acc * base + d) cs else (acc, c # cs)
      | None \<Rightarrow> (acc, c # cs))"

definition skip_space :: "string \<Rightarrow> string" where
  "skip_space s = dropWhile is_cspace s"

definition take_sign :: "string \<Rightarrow> bool \<times> string" where
  "take_sign s = (case s of
     [] \<Rightarrow> (False, [])
   | c # t \<Rightarrow> if c = CHR ''-'' then (True, t) else if c = CHR ''+'' then (False, t) else (False, s))"

text \<open>An optional \<open>0x\<close> before the digits of base 16, when a digit follows it.\<close>

definition skip_0x :: "string \<Rightarrow> string" where
  "skip_0x s = (case s of
     z # x # d # t \<Rightarrow>
       if z = CHR ''0'' \<and> (x = CHR ''x'' \<or> x = CHR ''X'') \<and>
          (case digit_val d of Some v \<Rightarrow> v < 16 | None \<Rightarrow> False)
       then d # t else s
   | _ \<Rightarrow> s)"

text \<open>
  \<open>strtoul(s, NULL, 16)\<close> on a 64-bit \<open>unsigned long\<close>: it saturates at \<open>2 ^ 64 - 1\<close>, and a minus
  sign negates the value. The source stores the result in 32 bits.
\<close>

definition strtoul16 :: "string \<Rightarrow> u64" where
  "strtoul16 s = (let (neg, t) = take_sign (skip_space s); v = fst (scan_digits 16 0 (skip_0x t));
     w = (if 2 ^ 64 \<le> v then - 1 else word_of_nat v)
     in if neg \<and> v < 2 ^ 64 then - w else w)"

definition strtoul16_u32 :: "string \<Rightarrow> u32" where
  "strtoul16_u32 s = ucast (strtoul16 s)"

text \<open>\<open>strtol(s, &end, 10)\<close> on a 64-bit \<open>long\<close>, saturating, stored in an \<open>int\<close> by the source.\<close>

definition strtol10 :: "string \<Rightarrow> u64" where
  "strtol10 s = (let (neg, t) = take_sign (skip_space s); v = int (fst (scan_digits 10 0 t));
     w = (if neg then - v else v)
     in word_of_int (max (- (2 ^ 63)) (min (2 ^ 63 - 1) w)))"

definition strtol10_int :: "string \<Rightarrow> u32" where
  "strtol10_int s = ucast (strtol10 s)"

definition hex_char :: "nat \<Rightarrow> char" where
  "hex_char d = (if d < 10 then char_of (48 + d) else char_of (87 + d))"

definition HEX_char :: "nat \<Rightarrow> char" where
  "HEX_char d = (if d < 10 then char_of (48 + d) else char_of (55 + d))"

fun digits_of :: "nat \<Rightarrow> nat \<Rightarrow> nat \<Rightarrow> nat list" where
  "digits_of base 0 n = []"
| "digits_of base (Suc k) n = digits_of base k (n div base) @ [n mod base]"

text \<open>The number of digits of a number, at least one; \<open>k\<close> bounds it.\<close>

fun ndigits :: "nat \<Rightarrow> nat \<Rightarrow> nat \<Rightarrow> nat" where
  "ndigits base 0 n = 1"
| "ndigits base (Suc k) n = (if n < base then 1 else Suc (ndigits base k (n div base)))"

definition sprintf_x :: "u32 \<Rightarrow> string" where
  "sprintf_x w = map hex_char (digits_of 16 (ndigits 16 8 (unat w)) (unat w))"

definition sprintf_08x :: "u32 \<Rightarrow> string" where
  "sprintf_08x v = map hex_char (digits_of 16 8 (unat v))"

definition sprintf_u :: "u32 \<Rightarrow> string" where
  "sprintf_u w = map hex_char (digits_of 10 (ndigits 10 10 (unat w)) (unat w))"

definition sprintf_d :: "u32 \<Rightarrow> string" where
  "sprintf_d w = (let v = sint w; n = nat \<bar>v\<bar>; s = map hex_char (digits_of 10 (ndigits 10 10 n) n)
     in if v < 0 then CHR ''-'' # s else s)"

text \<open>\<open>strsep\<close>: the token up to the first delimiter, and what follows it if there was one.\<close>

definition strsep :: "string \<Rightarrow> char list \<Rightarrow> string \<times> string option" where
  "strsep s delims = (let t = takeWhile (\<lambda>c. c \<notin> set delims) s; r = dropWhile (\<lambda>c. c \<notin> set delims) s
     in (t, if r = [] then None else Some (tl r)))"

subsection \<open>Reading back what was printed\<close>

lemma length_digits_of [simp]: "length (digits_of base k n) = k"
  by (induction k arbitrary: n) auto

lemma digits_of_less: "0 < base \<Longrightarrow> d \<in> set (digits_of base k n) \<Longrightarrow> d < base"
  by (induction k arbitrary: n) auto

lemma digit_val_hex_char: "d < 16 \<Longrightarrow> digit_val (hex_char d) = Some d"
  by (auto simp: digit_val_def hex_char_def Let_def)

lemma digit_val_HEX_char: "d < 16 \<Longrightarrow> digit_val (HEX_char d) = Some d"
  by (auto simp: digit_val_def HEX_char_def Let_def)

lemma scan_digits_append:
  assumes "\<And>c. c \<in> set s \<Longrightarrow> \<exists>d < base. digit_val c = Some d"
  shows "scan_digits base acc (s @ t) = scan_digits base (fst (scan_digits base acc s)) t"
  using assms
proof (induction s arbitrary: acc)
  case (Cons c s)
  then obtain d where "d < base" "digit_val c = Some d" by fastforce
  with Cons show ?case by simp
qed simp

lemma scan_digits_of:
  assumes "0 < base" "\<And>d. d < base \<Longrightarrow> digit_val (f d) = Some d"
  shows "scan_digits base acc (map f (digits_of base k n)) = (acc * base ^ k + n mod base ^ k, [])"
proof (induction k arbitrary: n)
  case (Suc k)
  have "scan_digits base acc (map f (digits_of base k (n div base)) @ [f (n mod base)]) =
      scan_digits base (fst (scan_digits base acc (map f (digits_of base k (n div base)))))
        [f (n mod base)]"
    using assms digits_of_less by (intro scan_digits_append) auto
  moreover have "n mod base ^ Suc k = base * (n div base mod base ^ k) + n mod base"
    by (simp add: mod_mult2_eq)
  ultimately show ?case using assms Suc by (simp add: algebra_simps)
qed simp

lemma ndigits_bound: "1 < base \<Longrightarrow> n < base ^ Suc k \<Longrightarrow> n < base ^ ndigits base k n"
proof (induction k arbitrary: n)
  case (Suc k)
  have "n div base < base ^ Suc k"
    using Suc.prems by (simp add: less_mult_imp_div_less mult.commute)
  from Suc.IH [OF Suc.prems(1) this] Suc.prems(1) show ?case
    by (auto simp: div_less_iff_less_mult mult.commute)
qed simp

lemma ndigits_pos [simp]: "0 < ndigits base k n"
  by (cases k) auto

lemma hex_char_plain:
  assumes "d < 16"
  shows "\<not> is_cspace (hex_char d)" "hex_char d \<noteq> CHR ''-''" "hex_char d \<noteq> CHR ''+''"
    "hex_char d \<noteq> CHR ''x''" "hex_char d \<noteq> CHR ''X''"
proof -
  have "d = 0 \<or> d = 1 \<or> d = 2 \<or> d = 3 \<or> d = 4 \<or> d = 5 \<or> d = 6 \<or> d = 7 \<or> d = 8 \<or> d = 9 \<or>
      d = 10 \<or> d = 11 \<or> d = 12 \<or> d = 13 \<or> d = 14 \<or> d = 15" using assms by arith
  then show "\<not> is_cspace (hex_char d)" "hex_char d \<noteq> CHR ''-''" "hex_char d \<noteq> CHR ''+''"
    "hex_char d \<noteq> CHR ''x''" "hex_char d \<noteq> CHR ''X''"
    by (elim disjE; simp add: hex_char_def is_cspace_def char_of_def)+
qed

lemma strtoul16_hex_digits:
  assumes "ds \<noteq> []" "\<And>d. d \<in> set ds \<Longrightarrow> d < 16"
    and "scan_digits 16 0 (map hex_char ds) = (v, [])" "v < 2 ^ 64"
  shows "strtoul16 (map hex_char ds) = word_of_nat v"
proof -
  obtain d es where ds: "ds = d # es" using assms(1) by (cases ds) auto
  note d = hex_char_plain [OF assms(2) [of d, unfolded ds, simplified]]
  have sp: "skip_space (map hex_char ds) = map hex_char ds"
    using d(1) by (simp add: skip_space_def ds)
  have sg: "take_sign (map hex_char ds) = (False, map hex_char ds)"
    using d by (simp add: take_sign_def ds)
  have "skip_0x (map hex_char ds) = map hex_char ds"
    using hex_char_plain(4,5) [OF assms(2)] ds
    by (auto simp: skip_0x_def split: list.splits)
  with sp sg assms(3,4) show ?thesis by (simp add: strtoul16_def)
qed

text \<open>A handle printed with \<open>:%x\<close> is read back by \<open>strtoul\<close>.\<close>

lemma strtoul_sprintf_x: "strtoul16_u32 (sprintf_x w) = w"
proof -
  let ?k = "ndigits 16 8 (unat w)" let ?ds = "digits_of 16 ?k (unat w)"
  have lt: "unat w < 2 ^ 32" by (rule unat32_less)
  then have "unat w < 16 ^ Suc 8" by simp
  then have "unat w < 16 ^ ?k" by (intro ndigits_bound) auto
  then have "scan_digits 16 0 (map hex_char ?ds) = (unat w, [])"
    using scan_digits_of [of 16 hex_char 0 ?k "unat w"] digit_val_hex_char by simp
  moreover have "?ds \<noteq> []" using arg_cong [OF length_digits_of, of "\<lambda>n. n = 0"] ndigits_pos
    by (metis length_0_conv length_digits_of less_numeral_extra(3))
  ultimately have "strtoul16 (map hex_char ?ds) = word_of_nat (unat w)"
    using digits_of_less [of 16] lt by (intro strtoul16_hex_digits) auto
  then show ?thesis by (simp add: strtoul16_u32_def sprintf_x_def ucast_32_64)
qed

end
