(* ===== verification/Timer.thy ===== *)
theory Timer
  imports Mqueue "HOL-Library.Multiset"
begin

section \<open>The timing wheel (skynet_timer.c)\<close>

text \<open>
  Timers are kept in a hierarchical wheel: 256 lists for the next ticks and four levels of 64
  lists for later ones. A tick dispatches the list of the current time, advances the clock, and,
  when a digit of the clock rolls over, distributes one list of a higher level again. The linked
  lists are Isabelle lists (\<open>link\<close> appends, \<open>link_clear\<close> takes all), the 32-bit clock wraps.

  The invariant \<open>timer_ok\<close> says that every node sits in the list that \<open>add_node\<close> would choose
  for it at the current time (\<open>place\<close>), and the main lemma that a tick restores it and
  dispatches exactly the nodes that expire: no timer fires early, late, twice or never,
  across every carry between levels and the wrap of the clock.
\<close>

unbundle bit_operations_syntax

record timer_node =
  tn_expire :: u32
  tn_handle :: u32
  tn_session :: u32

record timer =
  near :: "timer_node list list"
  levels :: "timer_node list list list"
  t_time :: u32
  t_starttime :: u32
  t_current :: u64
  t_current_point :: u64

definition TIME_NEAR_SHIFT :: nat where "TIME_NEAR_SHIFT = 8"
definition TIME_LEVEL_SHIFT :: nat where "TIME_LEVEL_SHIFT = 6"
definition TIME_NEAR :: u32 where "TIME_NEAR = 0x100"
definition TIME_NEAR_MASK :: u32 where "TIME_NEAR_MASK = 0xff"
definition TIME_LEVEL_MASK :: u32 where "TIME_LEVEL_MASK = 0x3f"

lemmas time_consts = TIME_NEAR_SHIFT_def TIME_LEVEL_SHIFT_def TIME_NEAR_def TIME_NEAR_MASK_def
  TIME_LEVEL_MASK_def

subsection \<open>Operations\<close>

definition timer_create_timer :: timer where
  "timer_create_timer = \<lparr>near = replicate 256 [], levels = replicate 4 (replicate 64 []),
     t_time = 0, t_starttime = 0, t_current = 0, t_current_point = 0\<rparr>"

text \<open>\<open>link\<close> on one list of the near array and of a level.\<close>

definition link_near :: "nat \<Rightarrow> timer_node \<Rightarrow> timer \<Rightarrow> timer option" where
  "link_near i node T = do {
     l \<leftarrow> arr_get (near T) i;
     a \<leftarrow> arr_set (near T) i (l @ [node]);
     Some (T\<lparr>near := a\<rparr>) }"

definition link_level :: "nat \<Rightarrow> nat \<Rightarrow> timer_node \<Rightarrow> timer \<Rightarrow> timer option" where
  "link_level lv i node T = do {
     row \<leftarrow> arr_get (levels T) lv;
     l \<leftarrow> arr_get row i;
     row' \<leftarrow> arr_set row i (l @ [node]);
     a \<leftarrow> arr_set (levels T) lv row';
     Some (T\<lparr>levels := a\<rparr>) }"

text \<open>The loop that finds the level: \<open>for (i=0;i<3;i++) ... mask <<= TIME_LEVEL_SHIFT\<close>.\<close>

function find_level :: "u32 \<Rightarrow> u32 \<Rightarrow> nat \<Rightarrow> u32 \<Rightarrow> nat" where
  "find_level time current_time i msk =
     (if i < 3 then
        (if time OR (msk - 1) = current_time OR (msk - 1) then i
         else find_level time current_time (Suc i) (push_bit TIME_LEVEL_SHIFT msk))
      else i)"
  by pat_completeness auto
termination
  by (relation "measure (\<lambda>(t, c, i, m). 3 - i)") auto

declare find_level.simps [simp del]

definition add_node :: "timer_node \<Rightarrow> timer \<Rightarrow> timer option" where
  "add_node node T =
     (let time = tn_expire node; current_time = t_time T in
      if time OR TIME_NEAR_MASK = current_time OR TIME_NEAR_MASK
      then link_near (unat (time AND TIME_NEAR_MASK)) node T
      else let i = find_level time current_time 0 (push_bit TIME_LEVEL_SHIFT TIME_NEAR) in
        link_level i (unat (drop_bit (TIME_NEAR_SHIFT + i * TIME_LEVEL_SHIFT) time AND TIME_LEVEL_MASK))
          node T)"

text \<open>\<open>time\<close> is an \<open>int\<close>; the sum with the clock wraps.\<close>

definition timer_add :: "u32 \<Rightarrow> u32 \<Rightarrow> u32 \<Rightarrow> timer \<Rightarrow> timer option" where
  "timer_add handle session time T =
     add_node \<lparr>tn_expire = time + t_time T, tn_handle = handle, tn_session = session\<rparr> T"

fun add_nodes :: "timer_node list \<Rightarrow> timer \<Rightarrow> timer option" where
  "add_nodes [] T = Some T"
| "add_nodes (n # ns) T = do { T' \<leftarrow> add_node n T; add_nodes ns T' }"

definition move_list :: "nat \<Rightarrow> nat \<Rightarrow> timer \<Rightarrow> timer option" where
  "move_list lv idx T = do {
     row \<leftarrow> arr_get (levels T) lv;
     current \<leftarrow> arr_get row idx;
     row' \<leftarrow> arr_set row idx [];
     a \<leftarrow> arr_set (levels T) lv row';
     add_nodes current (T\<lparr>levels := a\<rparr>) }"

text \<open>
  The loop of \<open>timer_shift\<close>. It has no bound in the code: that it stops within the four levels
  is a lemma.
\<close>

partial_function (option) shift_loop :: "u32 \<Rightarrow> u32 \<Rightarrow> u32 \<Rightarrow> nat \<Rightarrow> timer \<Rightarrow> timer option" where
  "shift_loop ct time msk i T =
     (if ct AND (msk - 1) = 0 then
        (let idx = unat (time AND TIME_LEVEL_MASK) in
         if idx \<noteq> 0 then move_list i idx T
         else shift_loop ct (drop_bit TIME_LEVEL_SHIFT time) (push_bit TIME_LEVEL_SHIFT msk) (Suc i) T)
      else Some T)"

definition timer_shift :: "timer \<Rightarrow> timer option" where
  "timer_shift T =
     (let ct = t_time T + 1; T1 = T\<lparr>t_time := ct\<rparr> in
      if ct = 0 then move_list 3 0 T1
      else shift_loop ct (drop_bit TIME_NEAR_SHIFT ct) TIME_NEAR 0 T1)"

text \<open>
  \<open>timer_execute\<close> takes the list of the current tick and dispatches it; the nodes are returned
  in the order in which \<open>dispatch_list\<close> sends their messages. The loop tests the list again
  only for nodes that other threads add while the lock is released.
\<close>

definition timer_execute :: "timer \<Rightarrow> (timer_node list \<times> timer) option" where
  "timer_execute T = do {
     let idx = unat (t_time T AND TIME_NEAR_MASK);
     l \<leftarrow> arr_get (near T) idx;
     a \<leftarrow> arr_set (near T) idx [];
     Some (l, T\<lparr>near := a\<rparr>) }"

definition timer_update :: "timer \<Rightarrow> (timer_node list \<times> timer) option" where
  "timer_update T = do {
     (ev1, T1) \<leftarrow> timer_execute T;
     T2 \<leftarrow> timer_shift T1;
     (ev2, T3) \<leftarrow> timer_execute T2;
     Some (ev1 @ ev2, T3) }"

text \<open>The message of an expired timer: \<open>PTYPE_RESPONSE\<close> in the type byte, no data.\<close>

definition PTYPE_RESPONSE :: u64 where "PTYPE_RESPONSE = 1"
definition MESSAGE_TYPE_SHIFT :: nat where "MESSAGE_TYPE_SHIFT = 56"
definition MESSAGE_TYPE_MASK :: u64 where "MESSAGE_TYPE_MASK = 0xffffffffffffff"

definition timer_message :: "u32 \<Rightarrow> skynet_message" where
  "timer_message session = \<lparr>msg_source = 0, msg_session = session, msg_data = 0,
     msg_sz = push_bit MESSAGE_TYPE_SHIFT PTYPE_RESPONSE\<rparr>"

fun update_times :: "nat \<Rightarrow> timer \<Rightarrow> (timer_node list \<times> timer) option" where
  "update_times 0 T = Some ([], T)"
| "update_times (Suc n) T = do {
     (ev, T1) \<leftarrow> timer_update T;
     (evs, T2) \<leftarrow> update_times n T1;
     Some (ev @ evs, T2) }"

text \<open>\<open>skynet_updatetime\<close> for a reading \<open>cp\<close> of the monotonic clock, in centiseconds.\<close>

definition skynet_updatetime :: "u64 \<Rightarrow> timer \<Rightarrow> (timer_node list \<times> timer) option" where
  "skynet_updatetime cp T =
     (if cp < t_current_point T then Some ([], T\<lparr>t_current_point := cp\<rparr>)
      else if cp \<noteq> t_current_point T then
        (let diff = (ucast (cp - t_current_point T) :: u32) in
         update_times (unat diff) (T\<lparr>t_current_point := cp, t_current := t_current T + ucast diff\<rparr>))
      else Some ([], T))"

definition skynet_timer_init :: "u32 \<Rightarrow> u32 \<Rightarrow> u64 \<Rightarrow> timer" where
  "skynet_timer_init sec cs now =
     timer_create_timer\<lparr>t_starttime := sec, t_current := ucast cs, t_current_point := now\<rparr>"

subsection \<open>Where a node belongs\<close>

text \<open>
  The list for an expiry \<open>e\<close> at time \<open>c\<close>: 0 is the near array, 1 to 4 the levels. The level is
  the first at which the higher digits of \<open>e\<close> and \<open>c\<close> agree.
\<close>

definition place :: "nat \<Rightarrow> nat \<Rightarrow> nat \<times> nat" where
  "place e c =
     (if e div 2 ^ 8 = c div 2 ^ 8 then (0, e mod 2 ^ 8)
      else if e div 2 ^ 14 = c div 2 ^ 14 then (1, e div 2 ^ 8 mod 64)
      else if e div 2 ^ 20 = c div 2 ^ 20 then (2, e div 2 ^ 14 mod 64)
      else if e div 2 ^ 26 = c div 2 ^ 26 then (3, e div 2 ^ 20 mod 64)
      else (4, e div 2 ^ 26 mod 64))"

definition node_place :: "timer_node \<Rightarrow> u32 \<Rightarrow> nat \<times> nat" where
  "node_place n c = place (unat (tn_expire n)) (unat c)"

definition bucket :: "timer \<Rightarrow> nat \<times> nat \<Rightarrow> timer_node list" where
  "bucket T p = (if fst p = 0 then near T ! snd p else levels T ! (fst p - 1) ! snd p)"

definition shape_ok :: "timer \<Rightarrow> bool" where
  "shape_ok T \<longleftrightarrow> length (near T) = 256 \<and> length (levels T) = 4 \<and> (\<forall>r \<in> set (levels T). length r = 64)"

definition valid_place :: "nat \<times> nat \<Rightarrow> bool" where
  "valid_place p \<longleftrightarrow> (fst p = 0 \<and> snd p < 256) \<or> (0 < fst p \<and> fst p \<le> 4 \<and> snd p < 64)"

lemma valid_place_place [simp]: "valid_place (place e c)"
  by (simp only: place_def if_distrib [of valid_place]) (simp add: valid_place_def)

lemma unat_drop_bit: "unat (drop_bit k (w :: u32)) = unat w div 2 ^ k"
proof -
  have "unat w mod 2 ^ 32 = unat w" using unat32_less [of w] by (rule mod_less)
  then show ?thesis
    by (simp only: unsigned_drop_bit_eq) (simp add: drop_bit_eq_div take_bit_eq_mod)
qed

lemma or_mask_eq_iff:
  "(a :: u32) OR mask k = b OR mask k \<longleftrightarrow> unat a div 2 ^ k = unat b div 2 ^ k"
proof -
  have "a OR mask k = b OR mask k \<longleftrightarrow> drop_bit k a = drop_bit k b"
  proof
    assume "a OR mask k = b OR mask k"
    then have "drop_bit k (a OR mask k) = drop_bit k (b OR mask k)" by (simp only:)
    moreover have "drop_bit k (mask k) = (0 :: u32)"
      by (rule bit_word_eqI) (simp add: bit_drop_bit_eq bit_mask_iff)
    ultimately show "drop_bit k a = drop_bit k b" by (simp only: drop_bit_or or.right_neutral)
  next
    assume eq: "drop_bit k a = drop_bit k b"
    show "a OR mask k = b OR mask k"
    proof (rule bit_word_eqI)
      fix n
      assume "n < LENGTH(32)"
      show "bit (a OR mask k) n = bit (b OR mask k) n"
      proof (cases "n < k")
        case False
        then have "bit w n = bit (drop_bit k w) (n - k)" for w :: u32
          by (simp add: bit_drop_bit_eq)
        with eq have "bit a n = bit b n" by simp
        then show ?thesis by (simp only: bit_or_iff)
      qed (simp add: bit_or_iff bit_mask_iff \<open>n < LENGTH(32)\<close> [simplified])
    qed
  qed
  also have "\<dots> \<longleftrightarrow> unat a div 2 ^ k = unat b div 2 ^ k"
    by (simp only: word_unat_eq_iff unat_drop_bit)
  finally show ?thesis .
qed

text \<open>\<open>add_node\<close> appends to exactly the list \<open>place\<close> names.\<close>

lemma find_level_place:
  assumes "unat e div 2 ^ 8 \<noteq> unat c div 2 ^ 8"
  shows "place (unat e) (unat c) =
    (Suc (find_level e c 0 0x4000),
     unat e div 2 ^ (8 + 6 * find_level e c 0 0x4000) mod 64)"
proof -
  have m: "(0x4000 - 1 :: u32) = mask 14" "(0x100000 - 1 :: u32) = mask 20"
    "(0x4000000 - 1 :: u32) = mask 26" by (simp_all add: mask_eq_exp_minus_1)
  have shifts: "push_bit 6 (0x4000 :: u32) = 0x100000" "push_bit 6 (0x100000 :: u32) = 0x4000000"
    by simp_all
  have lt: "(0::nat) < 3" "Suc 0 < 3" "Suc (Suc 0) < 3" "\<not> Suc (Suc (Suc 0)) < 3" by simp_all
  let ?A = "\<lambda>k. unat e div 2 ^ k = unat c div 2 ^ k"
  have lv: "find_level e c 0 0x4000 = (if ?A 14 then 0 else if ?A 20 then 1 else if ?A 26 then 2 else 3)"
    by ((simp only: find_level.simps [of e c 0 "0x4000"] find_level.simps [of e c "Suc 0" "0x100000"]
        find_level.simps [of e c "Suc (Suc 0)" "0x4000000"]
        find_level.simps [of e c "Suc (Suc (Suc 0))"] TIME_LEVEL_SHIFT_def shifts or_mask_eq_iff m),
      (simp only: lt if_True if_False), (simp only: One_nat_def numeral_2_eq_2 numeral_3_eq_3))
  have pl: "place (unat e) (unat c) = (if ?A 14 then (1, unat e div 2 ^ 8 mod 64)
      else if ?A 20 then (2, unat e div 2 ^ 14 mod 64)
      else if ?A 26 then (3, unat e div 2 ^ 20 mod 64) else (4, unat e div 2 ^ 26 mod 64))"
    using assms by (simp only: place_def if_False)
  show ?thesis unfolding pl lv
    by (cases "?A 14"; cases "?A 20"; cases "?A 26"; simp only: if_True if_False; simp)
qed

lemma shape_okD:
  assumes "shape_ok T"
  shows "length (near T) = 256" "length (levels T) = 4" "lv < 4 \<Longrightarrow> length (levels T ! lv) = 64"
  using assms by (auto simp: shape_ok_def)

lemma link_near_spec:
  assumes "shape_ok T" "i < 256"
  shows "\<exists>T'. link_near i n T = Some T' \<and> shape_ok T' \<and> t_time T' = t_time T \<and>
    (\<forall>p. valid_place p \<longrightarrow> bucket T' p = bucket T p @ (if p = (0, i) then [n] else []))"
  using assms by (auto simp: link_near_def shape_ok_def bucket_def nth_list_update valid_place_def)

lemma link_level_spec:
  assumes "shape_ok T" "lv < 4" "i < 64"
  shows "\<exists>T'. link_level lv i n T = Some T' \<and> shape_ok T' \<and> t_time T' = t_time T \<and>
    (\<forall>p. valid_place p \<longrightarrow> bucket T' p = bucket T p @ (if p = (Suc lv, i) then [n] else []))"
proof -
  note sh = shape_okD [OF assms(1)]
  let ?row = "(levels T ! lv)[i := levels T ! lv ! i @ [n]]"
  let ?T = "T\<lparr>levels := (levels T)[lv := ?row]\<rparr>"
  have "link_level lv i n T = Some ?T"
    using sh assms(2,3) by (simp add: link_level_def)
  moreover have "shape_ok ?T"
    using assms sh by (auto simp: shape_ok_def dest!: set_update_subset_insert [THEN subsetD])
  moreover have "bucket ?T p = bucket T p @ (if p = (Suc lv, i) then [n] else [])" if "valid_place p" for p
    using that sh assms(2,3) by (cases p; cases "fst p") (auto simp: bucket_def valid_place_def nth_list_update)
  ultimately show ?thesis by auto
qed

lemma add_node_spec:
  assumes "shape_ok T"
  shows "\<exists>T'. add_node n T = Some T' \<and> shape_ok T' \<and> t_time T' = t_time T \<and>
    (\<forall>p. valid_place p \<longrightarrow>
      bucket T' p = bucket T p @ (if p = node_place n (t_time T) then [n] else []))"
proof -
  let ?e = "tn_expire n" let ?c = "t_time T"
  have m8: "TIME_NEAR_MASK = mask 8" "TIME_LEVEL_MASK = mask 6"
    by (simp_all add: time_consts mask_eq_exp_minus_1)
  have low: "unat (?e AND mask 8) = unat ?e mod 2 ^ 8" "unat (w AND mask 6) = unat w mod 2 ^ 6" for w :: u32
    by (simp_all only: unat_take_bit flip: take_bit_eq_mask)
  show ?thesis
  proof (cases "unat ?e div 2 ^ 8 = unat ?c div 2 ^ 8")
    case True
    then have "add_node n T = link_near (unat ?e mod 2 ^ 8) n T"
      by (simp only: add_node_def Let_def m8 or_mask_eq_iff low if_True simp_thms)
    moreover have "node_place n ?c = (0, unat ?e mod 2 ^ 8)"
      using True by (simp only: node_place_def place_def if_True simp_thms)
    ultimately show ?thesis using link_near_spec [OF assms, of "unat ?e mod 2 ^ 8" n] by simp
  next
    case False
    let ?l = "find_level ?e ?c 0 0x4000"
    have pl: "node_place n ?c = (Suc ?l, unat ?e div 2 ^ (8 + 6 * ?l) mod 64)"
      using find_level_place [OF False] by (simp only: node_place_def)
    then have l: "?l < 4" using valid_place_place [of "unat ?e" "unat ?c"]
      by (simp add: node_place_def valid_place_def)
    have mk: "push_bit 6 TIME_NEAR = (0x4000 :: u32)" by (simp add: time_consts)
    have "add_node n T = link_level ?l (unat ?e div 2 ^ (8 + 6 * ?l) mod 64) n T"
      using False by (simp only: add_node_def Let_def m8 or_mask_eq_iff low if_False mk unat_drop_bit
          TIME_NEAR_SHIFT_def TIME_LEVEL_SHIFT_def) (simp add: mult.commute)
    with link_level_spec [OF assms l, of "unat ?e div 2 ^ (8 + 6 * ?l) mod 64" n] pl show ?thesis
      by simp
  qed
qed

lemma add_nodes_spec:
  assumes "shape_ok T"
  shows "\<exists>T'. add_nodes ns T = Some T' \<and> shape_ok T' \<and> t_time T' = t_time T \<and>
    (\<forall>p. valid_place p \<longrightarrow>
      bucket T' p = bucket T p @ filter (\<lambda>n. node_place n (t_time T) = p) ns)"
  using assms
proof (induction ns arbitrary: T)
  case (Cons n ns)
  obtain T1 where T1: "add_node n T = Some T1" "shape_ok T1" "t_time T1 = t_time T"
    "\<forall>p. valid_place p \<longrightarrow> bucket T1 p = bucket T p @ (if p = node_place n (t_time T) then [n] else [])"
    using add_node_spec [OF Cons.prems] by blast
  obtain T2 where "add_nodes ns T1 = Some T2" "shape_ok T2" "t_time T2 = t_time T"
    "\<forall>p. valid_place p \<longrightarrow> bucket T2 p = bucket T1 p @ filter (\<lambda>n. node_place n (t_time T) = p) ns"
    using Cons.IH [OF T1(2)] T1(3) by auto
  with T1 show ?case by auto
qed simp

lemma move_list_spec:
  assumes "shape_ok T" "lv < 4" "i < 64"
  shows "\<exists>T'. move_list lv i T = Some T' \<and> shape_ok T' \<and> t_time T' = t_time T \<and>
    (\<forall>p. valid_place p \<longrightarrow> bucket T' p = (if p = (Suc lv, i) then [] else bucket T p) @
      filter (\<lambda>n. node_place n (t_time T) = p) (bucket T (Suc lv, i)))"
proof -
  note sh = shape_okD [OF assms(1)]
  let ?row = "(levels T ! lv)[i := []]"
  let ?T = "T\<lparr>levels := (levels T)[lv := ?row]\<rparr>"
  have mv: "move_list lv i T = add_nodes (bucket T (Suc lv, i)) ?T"
    using sh assms(2,3) by (simp add: move_list_def bucket_def)
  have shape: "shape_ok ?T"
    using assms sh by (auto simp: shape_ok_def dest!: set_update_subset_insert [THEN subsetD])
  have b: "bucket ?T p = (if p = (Suc lv, i) then [] else bucket T p)" if "valid_place p" for p
    using that sh assms(2,3) by (cases p; cases "fst p") (auto simp: bucket_def valid_place_def nth_list_update)
  obtain T' where "add_nodes (bucket T (Suc lv, i)) ?T = Some T'" "shape_ok T'"
    "t_time T' = t_time T" "\<forall>p. valid_place p \<longrightarrow> bucket T' p = bucket ?T p @
      filter (\<lambda>n. node_place n (t_time T) = p) (bucket T (Suc lv, i))"
    using add_nodes_spec [OF shape, of "bucket T (Suc lv, i)"] by auto
  with mv b show ?thesis by auto
qed

lemma timer_execute_spec:
  assumes "shape_ok T"
  shows "\<exists>T'. timer_execute T = Some (bucket T (0, unat (t_time T) mod 256), T') \<and> shape_ok T' \<and>
    t_time T' = t_time T \<and> (\<forall>p. valid_place p \<longrightarrow>
      bucket T' p = (if p = (0, unat (t_time T) mod 256) then [] else bucket T p))"
proof -
  let ?i = "unat (t_time T) mod 256"
  have "unat (t_time T AND TIME_NEAR_MASK) = ?i"
    using unat_take_bit [of 8 "t_time T"]
    by (simp add: TIME_NEAR_MASK_def take_bit_eq_mask mask_eq_exp_minus_1)
  with shape_okD [OF assms] assms show ?thesis
    by (auto simp: timer_execute_def bucket_def shape_ok_def valid_place_def nth_list_update Let_def)
qed

subsection \<open>Advancing the clock\<close>

text \<open>The list that is distributed again when the clock becomes \<open>c\<close>.\<close>

definition moved :: "nat \<Rightarrow> (nat \<times> nat) option" where
  "moved c =
     (if c = 0 then Some (4, 0)
      else if c mod 2 ^ 8 \<noteq> 0 then None
      else if c div 2 ^ 8 mod 64 \<noteq> 0 then Some (1, c div 2 ^ 8 mod 64)
      else if c div 2 ^ 14 mod 64 \<noteq> 0 then Some (2, c div 2 ^ 14 mod 64)
      else if c div 2 ^ 20 mod 64 \<noteq> 0 then Some (3, c div 2 ^ 20 mod 64)
      else Some (4, c div 2 ^ 26 mod 64))"

text \<open>The pure part of \<open>shift_loop\<close>: which list it moves. The loop ends by level 3.\<close>

lemma next_digit: "(c::nat) mod 2 ^ (k + 6) = 0 \<longleftrightarrow> c mod 2 ^ k = 0 \<and> c div 2 ^ k mod 64 = 0"
proof -
  have "c mod (2 ^ k * 64) = 2 ^ k * (c div 2 ^ k mod 64) + c mod 2 ^ k"
    by (rule mod_mult2_eq)
  then show ?thesis by (auto simp: power_add)
qed

lemma shift_loop_step:
  assumes "m - 1 = mask k" "time = drop_bit k ct" "unat ct mod 2 ^ k = 0"
  shows "shift_loop ct time m i T =
    (if unat ct div 2 ^ k mod 64 \<noteq> 0 then move_list i (unat ct div 2 ^ k mod 64) T
     else shift_loop ct (drop_bit (k + 6) ct) (push_bit 6 m) (Suc i) T)"
proof -
  have "unat (ct AND (m - 1)) = unat ct mod 2 ^ k"
    unfolding assms(1) by (simp only: unat_take_bit flip: take_bit_eq_mask)
  then have "ct AND (m - 1) = 0" using assms(3) by (simp only: unat_eq_zero)
  moreover have "unat (time AND TIME_LEVEL_MASK) = unat ct div 2 ^ k mod 64"
  proof -
    have "TIME_LEVEL_MASK = mask 6" by (simp add: time_consts mask_eq_exp_minus_1)
    then have "unat (time AND TIME_LEVEL_MASK) = unat (take_bit 6 time)"
      by (simp only: take_bit_eq_mask)
    then have "unat (time AND TIME_LEVEL_MASK) = unat time mod 2 ^ 6" by (simp only: unat_take_bit)
    then show ?thesis by (simp add: assms(2) unat_drop_bit)
  qed
  moreover have "drop_bit TIME_LEVEL_SHIFT time = drop_bit (k + 6) ct"
    by (simp add: assms(2) TIME_LEVEL_SHIFT_def add.commute)
  ultimately show ?thesis
    by (subst shift_loop.simps) (simp add: TIME_LEVEL_SHIFT_def Let_def)
qed

lemma shift_loop_moved:
  assumes "ct \<noteq> 0"
  shows "shift_loop ct (drop_bit 8 ct) 0x100 0 T =
    (case moved (unat ct) of None \<Rightarrow> Some T | Some p \<Rightarrow> move_list (fst p - 1) (snd p) T)"
proof -
  let ?c = "unat ct"
  have c: "?c \<noteq> 0" using assms by (simp only: unat_eq_zero simp_thms)
  have m: "(0x100 - 1 :: u32) = mask 8" "(0x4000 - 1 :: u32) = mask 14" "(0x100000 - 1 :: u32) = mask 20"
    "(0x4000000 - 1 :: u32) = mask 26" by (simp_all add: mask_eq_exp_minus_1)
  have sh: "push_bit 6 (0x100 :: u32) = 0x4000" "push_bit 6 (0x4000 :: u32) = 0x100000"
    "push_bit 6 (0x100000 :: u32) = 0x4000000" by simp_all
  show ?thesis
  proof (cases "?c mod 2 ^ 8 = 0")
    case False
    have "unat (ct AND (0x100 - 1)) = ?c mod 2 ^ 8"
      unfolding m(1) by (simp only: unat_take_bit flip: take_bit_eq_mask)
    then have "ct AND (0x100 - 1) \<noteq> 0" using False by (metis unat_0)
    then have "shift_loop ct (drop_bit 8 ct) 0x100 0 T = Some T"
      by (subst shift_loop.simps) (simp only: if_False)
    moreover have "moved ?c = None" using False c by (simp only: moved_def if_False if_True simp_thms)
    ultimately show ?thesis by simp
  next
    case 8: True
    note s8 = shift_loop_step [OF m(1) refl 8, of 0 T, unfolded sh]
    show ?thesis
    proof (cases "?c div 2 ^ 8 mod 64 = 0")
      case False
      with s8 8 c show ?thesis by (simp only: moved_def) simp
    next
      case d8: True
      have 14: "?c mod 2 ^ 14 = 0" using next_digit [of ?c 8] 8 d8 by simp
      note s14 = shift_loop_step [OF m(2) refl 14, of "Suc 0" T, unfolded sh]
      show ?thesis
      proof (cases "?c div 2 ^ 14 mod 64 = 0")
        case False
        with s8 s14 8 d8 c show ?thesis by (simp only: moved_def) simp
      next
        case d14: True
        have 20: "?c mod 2 ^ 20 = 0" using next_digit [of ?c 14] 14 d14 by simp
        note s20 = shift_loop_step [OF m(3) refl 20, of "Suc (Suc 0)" T, unfolded sh]
        show ?thesis
        proof (cases "?c div 2 ^ 20 mod 64 = 0")
          case False
          with s8 s14 s20 8 d8 d14 c show ?thesis
            by (simp only: moved_def) (simp add: numeral_2_eq_2)
        next
          case d20: True
          have 26: "?c mod 2 ^ 26 = 0" using next_digit [of ?c 20] 20 d20 by simp
          note s26 = shift_loop_step [OF m(4) refl 26, of "Suc (Suc (Suc 0))" T]
          have "?c div 2 ^ 26 mod 64 \<noteq> 0"
            using next_digit [of ?c 26] 26 c unat32_less [of ct] by simp
          with s8 s14 s20 s26 8 d8 d14 d20 c show ?thesis
            by (simp only: moved_def) (simp add: numeral_3_eq_3)
        qed
      qed
    qed
  qed
qed

lemma moved_valid: "moved c = Some p \<Longrightarrow> valid_place p \<and> 0 < fst p"
  by (auto simp: moved_def valid_place_def split: if_splits)

lemma timer_shift_spec:
  assumes "shape_ok T"
  shows "\<exists>T'. timer_shift T = Some T' \<and> shape_ok T' \<and> t_time T' = t_time T + 1 \<and>
    (\<forall>p. valid_place p \<longrightarrow> bucket T' p = (case moved (unat (t_time T + 1)) of
        None \<Rightarrow> bucket T p
      | Some m \<Rightarrow> (if p = m then [] else bucket T p) @
          filter (\<lambda>n. node_place n (t_time T + 1) = p) (bucket T m)))"
proof -
  let ?ct = "t_time T + 1"
  let ?T = "T\<lparr>t_time := ?ct\<rparr>"
  have sh: "shape_ok ?T" "bucket ?T p = bucket T p" for p
    using assms by (simp_all add: shape_ok_def bucket_def)
  have eq: "timer_shift T = (case moved (unat ?ct) of
      None \<Rightarrow> Some ?T | Some p \<Rightarrow> move_list (fst p - 1) (snd p) ?T)"
  proof (cases "?ct = 0")
    case True
    then have "timer_shift T = move_list 3 0 ?T" by (simp add: timer_shift_def)
    moreover have "moved (unat ?ct) = Some (4, 0)" using True by (simp add: moved_def)
    ultimately show ?thesis by simp
  next
    case False
    then have "timer_shift T = shift_loop ?ct (drop_bit 8 ?ct) 0x100 0 ?T"
      by (simp add: timer_shift_def time_consts Let_def)
    with shift_loop_moved [OF False] show ?thesis by simp
  qed
  show ?thesis
  proof (cases "moved (unat ?ct)")
    case None
    with eq sh show ?thesis by simp
  next
    case (Some m)
    then have m: "valid_place m" "0 < fst m" using moved_valid by auto
    then obtain lv i where lv: "m = (Suc lv, i)" "lv < 4" "i < 64"
      by (cases m; cases "fst m") (auto simp: valid_place_def)
    from move_list_spec [OF sh(1) lv(2,3)] eq Some lv(1) sh(2) show ?thesis by auto
  qed
qed

text \<open>
  The arithmetic heart: when the clock goes from \<open>c\<close> to its successor, a node that is not due
  now and less than \<open>2 ^ 31\<close> ticks ahead keeps its place unless its list is the one moved.
\<close>

lemma div_succ:
  assumes "(Suc c) mod m \<noteq> 0"
  shows "Suc c div m = c div m"
  using assms by (simp add: div_Suc)

lemma block_before:
  assumes "Suc c mod m = 0" "e div m = c div m" "e \<noteq> c" "0 < m"
  shows "e < c \<and> c - e < m"
proof -
  have "c mod m = m - 1"
    using assms(1,4) by (metis Suc_diff_1 diff_Suc_1 mod_Suc nat.simps(3))
  moreover have "e = c div m * m + e mod m" using assms(2) by (metis div_mult_mod_eq)
  moreover have "c = c div m * m + c mod m" by simp
  moreover have "e mod m < m" using assms(4) by simp
  ultimately show ?thesis using assms(3) by linarith
qed

definition ahead :: "nat \<Rightarrow> nat \<Rightarrow> bool" where
  "ahead e c \<longleftrightarrow> (if c \<le> e then e - c < 2 ^ 31 else 2 ^ 32 - c + e < 2 ^ 31)"

lemma ahead_not_before: "ahead e c \<Longrightarrow> c < 2 ^ 32 \<Longrightarrow> e < c \<Longrightarrow> 2 ^ 31 < c - e"
  by (auto simp: ahead_def)

lemma place_step:
  assumes "e < 2 ^ 32" "c < 2 ^ 32" "ahead e c" "e \<noteq> c"
  shows "place e (Suc c mod 2 ^ 32) = place e c \<or> moved (Suc c mod 2 ^ 32) = Some (place e c)"
proof -
  let ?d = "Suc c mod 2 ^ 32"
  have no_block: "e div 2 ^ k \<noteq> c div 2 ^ k" if "Suc c mod 2 ^ k = 0" "k \<le> 26" for k
  proof
    assume "e div 2 ^ k = c div 2 ^ k"
    with block_before [OF that(1) this assms(4)] have "e < c" "c - e < 2 ^ k" by auto
    moreover have "(2::nat) ^ k \<le> 2 ^ 26" using that(2) by (intro power_increasing) auto
    ultimately show False using ahead_not_before [OF assms(3,2)] by simp
  qed
  define A where "A k \<longleftrightarrow> e div 2 ^ k = c div 2 ^ k" for k :: nat
  define B where "B k \<longleftrightarrow> e div 2 ^ k = ?d div 2 ^ k" for k :: nat
  define D where "D k = e div 2 ^ k mod 64" for k :: nat
  define E where "E k = ?d div 2 ^ k mod 64" for k :: nat
  define Z where "Z k \<longleftrightarrow> ?d mod 2 ^ k = 0" for k :: nat
  have pc: "place e c = (if A 8 then (0, e mod 2 ^ 8) else if A 14 then (1, D 8)
      else if A 20 then (2, D 14) else if A 26 then (3, D 20) else (4, D 26))"
    by (simp only: place_def A_def D_def)
  have pd: "place e ?d = (if B 8 then (0, e mod 2 ^ 8) else if B 14 then (1, D 8)
      else if B 20 then (2, D 14) else if B 26 then (3, D 20) else (4, D 26))"
    by (simp only: place_def B_def D_def)
  have mv: "moved ?d = (if ?d = 0 then Some (4, 0) else if \<not> Z 8 then None
      else if E 8 \<noteq> 0 then Some (1, E 8) else if E 14 \<noteq> 0 then Some (2, E 14)
      else if E 20 \<noteq> 0 then Some (3, E 20) else Some (4, E 26))"
    by (simp only: moved_def Z_def E_def)
  have Z_mod: "Z k \<longleftrightarrow> Suc c mod 2 ^ k = 0" if "k \<le> 32" for k
  proof -
    have "(2::nat) ^ k dvd 2 ^ 32" using that by (rule le_imp_power_dvd)
    then show ?thesis by (simp only: Z_def mod_mod_cancel)
  qed
  have Z_A: "Z k \<Longrightarrow> k \<le> 26 \<Longrightarrow> \<not> A k" for k
    using no_block [of k] Z_mod [of k] by (simp add: A_def)
  have nZ_B: "\<not> Z k \<Longrightarrow> k \<le> 26 \<Longrightarrow> B k = A k" for k
  proof -
    assume z: "\<not> Z k" "k \<le> 26"
    then have "?d \<noteq> 0" unfolding Z_def by (metis mod_0)
    then have "?d = Suc c" using assms(2) by (auto simp: mod_Suc split: if_splits)
    moreover have "Suc c mod 2 ^ k \<noteq> 0" using z Z_mod by simp
    ultimately have "?d div 2 ^ k = c div 2 ^ k" using div_succ by metis
    then show "B k = A k" by (simp only: A_def B_def)
  qed
  have Z_next: "Z (k + 6) \<longleftrightarrow> Z k \<and> E k = 0" for k
    by (simp only: Z_def E_def next_digit)
  have dig: "x div 2 ^ k = y div 2 ^ k \<longleftrightarrow> x div 2 ^ (k + 6) = y div 2 ^ (k + 6) \<and>
      x div 2 ^ k mod 64 = y div 2 ^ k mod 64" for x y k :: nat
  proof -
    have "z div 2 ^ k = z div 2 ^ (k + 6) * 64 + z div 2 ^ k mod 64" for z :: nat
      by (simp add: power_add div_mult2_eq)
    then show ?thesis by (metis div_mult2_eq power_add)
  qed
  have A_next: "A k \<longleftrightarrow> A (k + 6) \<and> D k = c div 2 ^ k mod 64" for k
    unfolding A_def D_def by (rule dig)
  have B_next: "B k \<longleftrightarrow> B (k + 6) \<and> D k = E k" for k
    unfolding B_def D_def E_def by (rule dig)
  have top: "D 26 = e div 2 ^ 26" "E 26 = ?d div 2 ^ 26"
    using assms(1) by (simp_all add: D_def E_def less_mult_imp_div_less)
  have B26: "B 26 \<longleftrightarrow> D 26 = E 26" by (simp only: B_def top)
  have d0: "?d = 0 \<Longrightarrow> Z k \<and> E k = 0" for k by (simp only: Z_def E_def mod_0 div_0 simp_thms)
  have Am: "A 8 \<Longrightarrow> A 14" "A 14 \<Longrightarrow> A 20" "A 20 \<Longrightarrow> A 26"
    using A_next [of 8] A_next [of 14] A_next [of 20] by simp_all
  have B8: "B 8 \<longleftrightarrow> B 14 \<and> D 8 = E 8" "B 14 \<longleftrightarrow> B 20 \<and> D 14 = E 14" "B 20 \<longleftrightarrow> B 26 \<and> D 20 = E 20"
    using B_next [of 8] B_next [of 14] B_next [of 20] by simp_all
  have Zn: "Z 14 \<longleftrightarrow> Z 8 \<and> E 8 = 0" "Z 20 \<longleftrightarrow> Z 14 \<and> E 14 = 0" "Z 26 \<longleftrightarrow> Z 20 \<and> E 20 = 0"
    using Z_next [of 8] Z_next [of 14] Z_next [of 20] by simp_all
  note za = Z_A [of 8] Z_A [of 14] Z_A [of 20] Z_A [of 26]
  note zb = nZ_B [of 8] nZ_B [of 14] nZ_B [of 20] nZ_B [of 26]
  consider (zero) "?d = 0" | (none) "?d \<noteq> 0" "\<not> Z 8" | (l1) "?d \<noteq> 0" "Z 8" "\<not> Z 14"
    | (l2) "?d \<noteq> 0" "Z 14" "\<not> Z 20" | (l3) "?d \<noteq> 0" "Z 20" "\<not> Z 26" | (l4) "?d \<noteq> 0" "Z 26"
    by blast
  then show ?thesis
  proof cases
    case zero
    have z: "Z 26" "E 26 = 0" using d0 [OF zero] by blast+
    then have "\<not> A 26" using za(4) by simp
    then have c: "place e c = (4, D 26)" using pc Am by auto
    show ?thesis
    proof (cases "D 26 = 0")
      case True
      with c mv zero show ?thesis by (simp only: if_True) simp
    next
      case False
      then have "\<not> B 26" using B26 z(2) by simp
      then have "place e ?d = (4, D 26)" using pd B8 by (simp only: if_False simp_thms)
      with c show ?thesis by simp
    qed
  next
    case none
    then have "\<not> Z 14" "\<not> Z 20" "\<not> Z 26" using Zn by simp_all
    with none have "B 8 = A 8" "B 14 = A 14" "B 20 = A 20" "B 26 = A 26" using zb by simp_all
    then have "place e ?d = place e c" by (simp only: pc pd)
    then show ?thesis ..
  next
    case l1
    then have z: "E 8 \<noteq> 0" "\<not> Z 20" "\<not> Z 26" using Zn by simp_all
    have eq: "B 14 = A 14" "B 20 = A 20" "B 26 = A 26" "\<not> A 8" using l1 z za zb by simp_all
    have m: "moved ?d = Some (1, E 8)" using mv l1 z by (simp only: if_True if_False simp_thms)
    show ?thesis
    proof (cases "A 14 \<and> D 8 = E 8")
      case True
      with eq m pc show ?thesis by (simp only: if_True if_False simp_thms)
    next
      case False
      with eq B8(1) have "\<not> B 8" by simp
      with eq have "place e ?d = place e c" by (simp only: pc pd if_False)
      then show ?thesis ..
    qed
  next
    case l2
    then have z: "Z 8" "E 8 = 0" "E 14 \<noteq> 0" "\<not> Z 26" using Zn by simp_all
    have eq: "B 20 = A 20" "B 26 = A 26" "\<not> A 14" "\<not> A 8" using l2 z za zb by simp_all
    have m: "moved ?d = Some (2, E 14)" using mv l2 z by (simp only: if_True if_False simp_thms)
    show ?thesis
    proof (cases "A 20 \<and> D 14 = E 14")
      case True
      with eq m pc show ?thesis by (simp only: if_True if_False simp_thms)
    next
      case False
      with eq B8 have "\<not> B 14" "\<not> B 8" by simp_all
      with eq have "place e ?d = place e c" by (simp only: pc pd if_False)
      then show ?thesis ..
    qed
  next
    case l3
    then have z: "Z 8" "Z 14" "E 8 = 0" "E 14 = 0" "E 20 \<noteq> 0" using Zn by simp_all
    have eq: "B 26 = A 26" "\<not> A 20" "\<not> A 14" "\<not> A 8" using l3 z za zb by simp_all
    have m: "moved ?d = Some (3, E 20)" using mv l3 z by (simp only: if_True if_False simp_thms)
    show ?thesis
    proof (cases "A 26 \<and> D 20 = E 20")
      case True
      with eq m pc show ?thesis by (simp only: if_True if_False simp_thms)
    next
      case False
      with eq B8 have "\<not> B 20" "\<not> B 14" "\<not> B 8" by simp_all
      with eq have "place e ?d = place e c" by (simp only: pc pd if_False)
      then show ?thesis ..
    qed
  next
    case l4
    then have z: "Z 8" "Z 14" "Z 20" "E 8 = 0" "E 14 = 0" "E 20 = 0" using Zn by simp_all
    have eq: "\<not> A 26" "\<not> A 20" "\<not> A 14" "\<not> A 8" using l4 z za by simp_all
    have m: "moved ?d = Some (4, E 26)" using mv l4 z by (simp only: if_True if_False simp_thms)
    show ?thesis
    proof (cases "D 26 = E 26")
      case True
      with eq m pc show ?thesis by (simp only: if_True if_False simp_thms)
    next
      case False
      with B26 B8 have "\<not> B 26" "\<not> B 20" "\<not> B 14" "\<not> B 8" by simp_all
      with eq have "place e ?d = place e c" by (simp only: pc pd if_False)
      then show ?thesis ..
    qed
  qed
qed

subsection \<open>The invariant and the pending timers\<close>

definition due_in :: "timer_node \<Rightarrow> u32 \<Rightarrow> bool" where
  "due_in n c \<longleftrightarrow> ahead (unat (tn_expire n)) (unat c)"

definition timer_ok :: "timer \<Rightarrow> bool" where
  "timer_ok T \<longleftrightarrow> shape_ok T \<and> (\<forall>p. valid_place p \<longrightarrow>
     (\<forall>n \<in> set (bucket T p). node_place n (t_time T) = p \<and> due_in n (t_time T)))"

text \<open>All the nodes of the wheel.\<close>

definition pending :: "timer \<Rightarrow> timer_node multiset" where
  "pending T = (\<Sum>p \<in> {p. valid_place p}. mset (bucket T p))"

lemma filter_mset_all: "(\<And>x. x \<in># M \<Longrightarrow> P x) \<Longrightarrow> filter_mset P M = M"
  by (induction M) auto

lemma filter_mset_none: "(\<And>x. x \<in># M \<Longrightarrow> \<not> P x) \<Longrightarrow> filter_mset P M = {#}"
  by (induction M) auto

lemma finite_places: "finite {p. valid_place p}"
proof -
  have "{p. valid_place p} \<subseteq> {0..4} \<times> {0..<256}" by (auto simp: valid_place_def)
  then show ?thesis by (rule finite_subset) simp
qed

lemma node_place_valid [simp]: "valid_place (node_place n c)"
  by (simp add: node_place_def)

lemma sum_if_place:
  "valid_place q \<Longrightarrow> (\<Sum>p \<in> {p. valid_place p}. if p = q then f p else (0 :: 'a :: comm_monoid_add)) = f q"
  using finite_places by (simp add: sum.delta)

lemma sum_filter_place:
  "(\<Sum>p \<in> {p. valid_place p}. mset (filter (\<lambda>n. node_place n c = p) ns)) = mset ns"
proof (induction ns)
  case (Cons n ns)
  have "(\<Sum>p \<in> {p. valid_place p}. mset (filter (\<lambda>n. node_place n c = p) (n # ns))) =
      (\<Sum>p \<in> {p. valid_place p}. (if p = node_place n c then {#n#} else {#}) +
        mset (filter (\<lambda>n. node_place n c = p) ns))"
    by (intro sum.cong) auto
  also have "\<dots> = {#n#} + mset ns"
    using Cons.IH sum_if_place [of "node_place n c" "\<lambda>_. {#n#}"] by (simp add: sum.distrib)
  finally show ?case by simp
qed simp

lemma pending_add:
  assumes "\<And>p. valid_place p \<Longrightarrow> bucket T' p = bucket T p @ (if p = q then [n] else [])" "valid_place q"
  shows "pending T' = add_mset n (pending T)"
proof -
  have "pending T' = (\<Sum>p \<in> {p. valid_place p}. mset (bucket T p) + (if p = q then {#n#} else {#}))"
    unfolding pending_def using assms(1) by (intro sum.cong) auto
  with sum_if_place [OF assms(2), of "\<lambda>_. {#n#}"] show ?thesis
    by (simp add: sum.distrib pending_def)
qed

lemma pending_split:
  assumes "valid_place q"
  shows "pending T = mset (bucket T q) + (\<Sum>p \<in> {p. valid_place p}. mset (if p = q then [] else bucket T p))"
proof -
  have "pending T = (\<Sum>p \<in> {p. valid_place p}. (if p = q then mset (bucket T q) else {#}) +
      mset (if p = q then [] else bucket T p))"
    unfolding pending_def by (intro sum.cong) auto
  with sum_if_place [OF assms, of "\<lambda>_. mset (bucket T q)"] show ?thesis
    by (simp add: sum.distrib)
qed

lemma pending_bucket: "n \<in># pending T \<longleftrightarrow> (\<exists>p. valid_place p \<and> n \<in> set (bucket T p))"
  using finite_places by (simp add: pending_def set_mset_sum)

lemma due_now_iff: "node_place n c = (0, unat c mod 256) \<longleftrightarrow> tn_expire n = c"
proof
  assume "node_place n c = (0, unat c mod 256)"
  then have "unat (tn_expire n) div 2 ^ 8 = unat c div 2 ^ 8" "unat (tn_expire n) mod 2 ^ 8 = unat c mod 2 ^ 8"
    by (auto simp: node_place_def place_def split: if_splits)
  then have "unat (tn_expire n) = unat c" by (metis div_mult_mod_eq)
  then show "tn_expire n = c" by (simp only: word_unat_eq_iff)
qed (simp add: node_place_def place_def)

text \<open>Dispatching the current list takes out exactly the nodes that are due.\<close>

lemma execute_due:
  assumes "timer_ok T"
  shows "\<exists>ev T'. timer_execute T = Some (ev, T') \<and> timer_ok T' \<and> t_time T' = t_time T \<and>
    mset ev = filter_mset (\<lambda>n. tn_expire n = t_time T) (pending T) \<and>
    pending T' = filter_mset (\<lambda>n. tn_expire n \<noteq> t_time T) (pending T)"
proof -
  let ?q = "(0 :: nat, unat (t_time T) mod 256)"
  have q: "valid_place ?q" by (simp add: valid_place_def)
  have ok: "shape_ok T" "\<And>p n. valid_place p \<Longrightarrow> n \<in> set (bucket T p) \<Longrightarrow>
      node_place n (t_time T) = p \<and> due_in n (t_time T)"
    using assms by (auto simp: timer_ok_def)
  obtain T' where T': "timer_execute T = Some (bucket T ?q, T')" "shape_ok T'" "t_time T' = t_time T"
    "\<And>p. valid_place p \<Longrightarrow> bucket T' p = (if p = ?q then [] else bucket T p)"
    using timer_execute_spec [OF ok(1)] by blast
  have rest: "pending T' = (\<Sum>p \<in> {p. valid_place p}. mset (if p = ?q then [] else bucket T p))"
    unfolding pending_def using T'(4) by (intro sum.cong) auto
  have split: "pending T = mset (bucket T ?q) + pending T'"
    using pending_split [OF q] rest by simp
  have now: "tn_expire n = t_time T" if "n \<in> set (bucket T ?q)" for n
    using ok(2) [OF q that] due_now_iff by blast
  have later: "tn_expire n \<noteq> t_time T" if pend: "n \<in># pending T'" for n
  proof -
    obtain p where "valid_place p" "n \<in> set (bucket T' p)"
      using pend unfolding pending_bucket by blast
    then have p: "valid_place p" "p \<noteq> ?q" "n \<in> set (bucket T p)" using T'(4) [of p] by (simp_all split: if_splits)
    then have "node_place n (t_time T) \<noteq> ?q" using ok(2) [OF p(1,3)] by simp
    then show ?thesis using due_now_iff [of n "t_time T"] by simp
  qed
  have "filter_mset (\<lambda>n. tn_expire n = t_time T) (pending T) = mset (bucket T ?q) + {#}"
    unfolding split filter_union_mset using now later
    by (intro arg_cong2 [where f = "(+)"] filter_mset_all filter_mset_none) auto
  moreover have "filter_mset (\<lambda>n. tn_expire n \<noteq> t_time T) (pending T) = {#} + pending T'"
    unfolding split filter_union_mset using now later
    by (intro arg_cong2 [where f = "(+)"] filter_mset_all filter_mset_none) auto
  moreover have "timer_ok T'"
    unfolding timer_ok_def
  proof (intro conjI allI impI ballI)
    show "shape_ok T'" by (rule T'(2))
    fix p n
    assume p: "valid_place p" "n \<in> set (bucket T' p)"
    then have "n \<in> set (bucket T p)" using T'(4) by (simp split: if_splits)
    with ok(2) [OF p(1) this] T'(3)
    show "node_place n (t_time T') = p" "due_in n (t_time T')" by simp_all
  qed
  ultimately show ?thesis using T'(1,3) by auto
qed

lemma unat_succ: "unat (c + 1 :: u32) = Suc (unat c) mod 2 ^ 32"
  by (simp add: unat_word_ariths)

lemma ahead_succ:
  assumes "ahead e c" "e \<noteq> c" "c < 2 ^ 32" "e < 2 ^ 32"
  shows "ahead e (Suc c mod 2 ^ 32)"
proof (cases "Suc c = 2 ^ 32")
  case True
  then have "Suc c mod 2 ^ 32 = 0" by simp
  moreover have "2 ^ 32 - c + e < 2 ^ 31" using assms True by (auto simp: ahead_def split: if_splits)
  ultimately show ?thesis by (simp add: ahead_def)
next
  case False
  then have "Suc c mod 2 ^ 32 = Suc c" using assms(3) by (intro mod_less) simp
  then show ?thesis using assms False by (auto simp: ahead_def split: if_splits)
qed

lemma node_step:
  assumes "due_in n c" "tn_expire n \<noteq> c"
  shows "due_in n (c + 1)"
    and "node_place n (c + 1) = node_place n c \<or> moved (unat (c + 1)) = Some (node_place n c)"
proof -
  have ne: "unat (tn_expire n) \<noteq> unat c" using assms(2) by (metis word_unat_eq_iff)
  note a = assms(1) [unfolded due_in_def] and lt = unat32_less [of "tn_expire n"] unat32_less [of c]
  show "due_in n (c + 1)"
    unfolding due_in_def unat_succ by (rule ahead_succ [OF a ne lt(2,1)])
  show "node_place n (c + 1) = node_place n c \<or> moved (unat (c + 1)) = Some (node_place n c)"
    unfolding node_place_def unat_succ by (rule place_step [OF lt a ne])
qed

lemma shift_keeps:
  assumes "timer_ok T" "\<And>n. n \<in># pending T \<Longrightarrow> tn_expire n \<noteq> t_time T"
  shows "\<exists>T'. timer_shift T = Some T' \<and> timer_ok T' \<and> t_time T' = t_time T + 1 \<and> pending T' = pending T"
proof -
  let ?c = "t_time T + 1"
  have ok: "shape_ok T" "\<And>p n. valid_place p \<Longrightarrow> n \<in> set (bucket T p) \<Longrightarrow>
      node_place n (t_time T) = p \<and> due_in n (t_time T)"
    using assms(1) by (auto simp: timer_ok_def)
  obtain T' where T': "timer_shift T = Some T'" "shape_ok T'" "t_time T' = ?c"
    "\<And>p. valid_place p \<Longrightarrow> bucket T' p = (case moved (unat ?c) of None \<Rightarrow> bucket T p
      | Some m \<Rightarrow> (if p = m then [] else bucket T p) @ filter (\<lambda>n. node_place n ?c = p) (bucket T m))"
    using timer_shift_spec [OF ok(1)] by blast
  have nstep: "due_in n ?c" "node_place n ?c = p \<or> moved (unat ?c) = Some p"
    if "valid_place p" "n \<in> set (bucket T p)" for n p
  proof -
    have "n \<in># pending T" using that unfolding pending_bucket by blast
    from node_step [OF _ assms(2) [OF this]] ok(2) [OF that]
    show "due_in n ?c" "node_place n ?c = p \<or> moved (unat ?c) = Some p" by auto
  qed
  have "timer_ok T'"
    unfolding timer_ok_def
  proof (intro conjI allI impI ballI)
    show "shape_ok T'" by (rule T'(2))
    fix p n
    assume p: "valid_place p" "n \<in> set (bucket T' p)"
    have "node_place n ?c = p \<and> due_in n ?c"
    proof (cases "moved (unat ?c)")
      case None
      then have b: "n \<in> set (bucket T p)" using T'(4) [OF p(1)] p(2) by simp
      with None nstep [OF p(1) b] show ?thesis by simp
    next
      case (Some m)
      then have m: "valid_place m" using moved_valid by blast
      have "(p \<noteq> m \<and> n \<in> set (bucket T p)) \<or> (n \<in> set (bucket T m) \<and> node_place n ?c = p)"
        using T'(4) [OF p(1)] p(2) Some by (simp split: if_splits)
      then show ?thesis
      proof (elim disjE conjE)
        assume b: "p \<noteq> m" "n \<in> set (bucket T p)"
        with Some nstep [OF p(1) b(2)] show ?thesis by simp
      next
        assume b: "n \<in> set (bucket T m)" "node_place n ?c = p"
        with nstep(1) [OF m b(1)] show ?thesis by simp
      qed
    qed
    then show "node_place n (t_time T') = p" "due_in n (t_time T')" using T'(3) by simp_all
  qed
  moreover have "pending T' = pending T"
  proof (cases "moved (unat ?c)")
    case None
    with T'(4) show ?thesis unfolding pending_def by (intro sum.cong) auto
  next
    case (Some m)
    then have m: "valid_place m" using moved_valid by blast
    have "pending T' = (\<Sum>p \<in> {p. valid_place p}. mset (if p = m then [] else bucket T p) +
        mset (filter (\<lambda>n. node_place n ?c = p) (bucket T m)))"
      unfolding pending_def using T'(4) Some by (intro sum.cong) auto
    then show ?thesis
      using pending_split [OF m, of T] sum_filter_place [of ?c "bucket T m"]
      by (simp add: sum.distrib)
  qed
  ultimately show ?thesis using T'(1,3) by blast
qed

lemma filter_mset_two:
  "filter_mset P M + filter_mset Q (filter_mset (\<lambda>x. \<not> P x) M) = filter_mset (\<lambda>x. P x \<or> Q x) M"
  by (induction M) auto

lemma timer_update_spec:
  assumes "timer_ok T"
  shows "\<exists>ev T'. timer_update T = Some (ev, T') \<and> timer_ok T' \<and> t_time T' = t_time T + 1 \<and>
    mset ev = filter_mset (\<lambda>n. tn_expire n = t_time T \<or> tn_expire n = t_time T + 1) (pending T) \<and>
    pending T' = filter_mset (\<lambda>n. tn_expire n \<noteq> t_time T \<and> tn_expire n \<noteq> t_time T + 1) (pending T)"
proof -
  obtain ev1 T1 where 1: "timer_execute T = Some (ev1, T1)" "timer_ok T1" "t_time T1 = t_time T"
    "mset ev1 = filter_mset (\<lambda>n. tn_expire n = t_time T) (pending T)"
    "pending T1 = filter_mset (\<lambda>n. tn_expire n \<noteq> t_time T) (pending T)"
    using execute_due [OF assms] by blast
  obtain T2 where 2: "timer_shift T1 = Some T2" "timer_ok T2" "t_time T2 = t_time T + 1"
    "pending T2 = pending T1"
    using shift_keeps [OF 1(2)] 1(3,5) by auto
  obtain ev3 T3 where 3: "timer_execute T2 = Some (ev3, T3)" "timer_ok T3" "t_time T3 = t_time T + 1"
    "mset ev3 = filter_mset (\<lambda>n. tn_expire n = t_time T + 1) (pending T2)"
    "pending T3 = filter_mset (\<lambda>n. tn_expire n \<noteq> t_time T + 1) (pending T2)"
    using execute_due [OF 2(2)] 2(3) by auto
  have "mset (ev1 @ ev3) = filter_mset (\<lambda>n. tn_expire n = t_time T \<or> tn_expire n = t_time T + 1) (pending T)"
    unfolding mset_append 1(4) 3(4) 2(4) 1(5) by (rule filter_mset_two)
  moreover have "pending T3 = filter_mset (\<lambda>n. tn_expire n \<noteq> t_time T \<and> tn_expire n \<noteq> t_time T + 1) (pending T)"
    unfolding 3(5) 2(4) 1(5) by (simp add: filter_filter_mset conj_commute)
  ultimately show ?thesis using 1(1) 2(1) 3 by (simp add: timer_update_def)
qed

subsection \<open>Timers fire exactly when they are due\<close>

lemma due_in_word: "due_in n c \<longleftrightarrow> unat (tn_expire n - c) < 2 ^ 31"
  using unat32_less [of c]
  by (auto simp: due_in_def ahead_def unat_sub_if' word_le_nat_alt)

lemma diff_succ:
  assumes "(e :: u32) \<noteq> c"
  shows "unat (e - (c + 1)) = unat (e - c) - 1" "0 < unat (e - c)"
proof -
  have "e - c \<noteq> 0" using assms by simp
  then show "0 < unat (e - c)" using unat_gt_0 by blast
  have "e - (c + 1) = (e - c) - 1" by simp
  then show "unat (e - (c + 1)) = unat (e - c) - 1"
    using unat_minus_one [OF \<open>e - c \<noteq> 0\<close>] by (simp only:)
qed

lemma diff_eq_1: "unat ((e :: u32) - c) = Suc 0 \<longleftrightarrow> e = c + 1"
proof -
  have "unat (e - c) = Suc 0 \<longleftrightarrow> e - c = 1" by (simp add: word_unat_eq_iff)
  also have "\<dots> \<longleftrightarrow> e = c + 1" by (metis add.commute add_diff_cancel_left' diff_add_cancel)
  finally show ?thesis .
qed

text \<open>The ticks that remain before a node is due; 0 and 1 both fire at the next tick.\<close>

definition remaining :: "timer_node \<Rightarrow> u32 \<Rightarrow> nat" where
  "remaining n c = unat (tn_expire n - c)"

lemma remaining_le_1: "remaining n c \<le> 1 \<longleftrightarrow> tn_expire n = c \<or> tn_expire n = c + 1"
proof -
  have "remaining n c \<le> 1 \<longleftrightarrow> unat (tn_expire n - c) = 0 \<or> unat (tn_expire n - c) = 1"
    unfolding remaining_def by linarith
  then show ?thesis by (simp only: diff_eq_1 One_nat_def unat_eq_zero eq_iff_diff_eq_0 [of "tn_expire n"])
qed

lemma timer_update_remaining:
  assumes "timer_ok T"
  shows "\<exists>ev T'. timer_update T = Some (ev, T') \<and> timer_ok T' \<and> t_time T' = t_time T + 1 \<and>
    mset ev = filter_mset (\<lambda>n. remaining n (t_time T) \<le> 1) (pending T) \<and>
    pending T' = filter_mset (\<lambda>n. \<not> remaining n (t_time T) \<le> 1) (pending T)"
  using timer_update_spec [OF assms] by (simp only: remaining_le_1 de_Morgan_disj)

lemma filter_mset_conj: "filter_mset P (filter_mset Q M) = filter_mset (\<lambda>x. Q x \<and> P x) M"
  by (induction M) auto

lemma update_times_spec:
  "timer_ok T \<Longrightarrow> \<exists>ev T'. update_times k T = Some (ev, T') \<and> timer_ok T' \<and>
    t_time T' = t_time T + of_nat k \<and>
    mset ev = filter_mset (\<lambda>n. 0 < k \<and> remaining n (t_time T) \<le> k) (pending T) \<and>
    pending T' = filter_mset (\<lambda>n. \<not> (0 < k \<and> remaining n (t_time T) \<le> k)) (pending T)"
proof (induction k arbitrary: T)
  case (Suc k)
  let ?c = "t_time T"
  obtain e1 T1 where 1: "timer_update T = Some (e1, T1)" "timer_ok T1" "t_time T1 = ?c + 1"
    "mset e1 = filter_mset (\<lambda>n. remaining n ?c \<le> 1) (pending T)"
    "pending T1 = filter_mset (\<lambda>n. \<not> remaining n ?c \<le> 1) (pending T)"
    using timer_update_remaining [OF Suc.prems] by blast
  obtain e2 T2 where 2: "update_times k T1 = Some (e2, T2)" "timer_ok T2" "t_time T2 = t_time T1 + of_nat k"
    "mset e2 = filter_mset (\<lambda>n. 0 < k \<and> remaining n (t_time T1) \<le> k) (pending T1)"
    "pending T2 = filter_mset (\<lambda>n. \<not> (0 < k \<and> remaining n (t_time T1) \<le> k)) (pending T1)"
    using Suc.IH [OF 1(2)] by blast
  have next_tick: "(0 < k \<and> remaining n (?c + 1) \<le> k) = (remaining n ?c \<le> Suc k)"
    if "\<not> remaining n ?c \<le> 1" for n
  proof -
    have "tn_expire n \<noteq> ?c" using that remaining_le_1 by blast
    from diff_succ [OF this] that show ?thesis by (auto simp: remaining_def)
  qed
  have le_1: "remaining n ?c \<le> Suc k" if "remaining n ?c \<le> 1" for n
    using that by simp
  have "mset (e1 @ e2) = filter_mset (\<lambda>n. remaining n ?c \<le> Suc k) (pending T)"
    unfolding mset_append 1(4) 2(4) 1(5) 1(3) filter_mset_two
    using next_tick le_1 by (intro filter_mset_cong refl) blast
  moreover have "pending T2 = filter_mset (\<lambda>n. \<not> remaining n ?c \<le> Suc k) (pending T)"
    unfolding 2(5) 1(5) 1(3) filter_mset_conj
    using next_tick le_1 by (intro filter_mset_cong refl) blast
  ultimately show ?case using 1(1,3) 2(1,2,3) by simp
qed simp

lemma timer_add_spec:
  fixes handle session :: u32
  assumes "timer_ok T" "0 < d" "d < 2 ^ 31"
  defines "n \<equiv> \<lparr>tn_expire = d + t_time T, tn_handle = handle, tn_session = session\<rparr>"
  shows "\<exists>T'. timer_add handle session d T = Some T' \<and> timer_ok T' \<and> t_time T' = t_time T \<and>
    pending T' = add_mset n (pending T)"
proof -
  have ok: "shape_ok T" "\<And>p n. valid_place p \<Longrightarrow> n \<in> set (bucket T p) \<Longrightarrow>
      node_place n (t_time T) = p \<and> due_in n (t_time T)"
    using assms(1) by (auto simp: timer_ok_def)
  have d: "due_in n (t_time T)"
    using assms(3) unfolding due_in_word n_def by (simp add: word_less_nat_alt)
  obtain T' where T': "add_node n T = Some T'" "shape_ok T'" "t_time T' = t_time T"
    "\<And>p. valid_place p \<Longrightarrow> bucket T' p = bucket T p @ (if p = node_place n (t_time T) then [n] else [])"
    using add_node_spec [OF ok(1), of n] by blast
  have "node_place m (t_time T') = p" "due_in m (t_time T')"
    if "valid_place p" "m \<in> set (bucket T' p)" for m p
    using that ok(2) [of p m] d T'(3,4) by (auto split: if_splits)
  then have "timer_ok T'" unfolding timer_ok_def using T'(2) by blast
  moreover have "pending T' = add_mset n (pending T)"
    by (rule pending_add [OF T'(4)]) simp_all
  ultimately show ?thesis using T'(1,3) unfolding timer_add_def n_def by blast
qed

text \<open>The timers reachable from the initial one by insertions and ticks.\<close>

inductive timer_reach :: "timer \<Rightarrow> bool" where
  init: "timer_reach (skynet_timer_init sec cs now)"
| add: "timer_reach T \<Longrightarrow> 0 < d \<Longrightarrow> d < 2 ^ 31 \<Longrightarrow> timer_add h s d T = Some T' \<Longrightarrow> timer_reach T'"
| clock: "timer_reach T \<Longrightarrow> skynet_updatetime cp T = Some (ev, T') \<Longrightarrow> timer_reach T'"

lemma bucket_clock [simp]:
  "bucket (T\<lparr>t_current_point := cp\<rparr>) p = bucket T p" "bucket (T\<lparr>t_current := cu\<rparr>) p = bucket T p"
  by (simp_all add: bucket_def)

lemma timer_ok_clock [simp]:
  "timer_ok (T\<lparr>t_current_point := cp\<rparr>) = timer_ok T" "timer_ok (T\<lparr>t_current := cu\<rparr>) = timer_ok T"
  by (simp_all add: timer_ok_def shape_ok_def)

lemma pending_clock [simp]:
  "pending (T\<lparr>t_current_point := cp\<rparr>) = pending T" "pending (T\<lparr>t_current := cu\<rparr>) = pending T"
  by (simp_all add: pending_def)

lemma timer_init_bucket: "valid_place p \<Longrightarrow> bucket (skynet_timer_init sec cs now) p = []"
  by (auto simp: valid_place_def bucket_def skynet_timer_init_def timer_create_timer_def)

lemma timer_init_ok: "timer_ok (skynet_timer_init sec cs now)" "pending (skynet_timer_init sec cs now) = {#}"
  using timer_init_bucket
  by (auto simp: timer_ok_def shape_ok_def pending_def skynet_timer_init_def timer_create_timer_def)

lemma timer_reach_ok: "timer_reach T \<Longrightarrow> timer_ok T"
proof (induction rule: timer_reach.induct)
  case (init sec cs now)
  show ?case by (rule timer_init_ok)
next
  case (add T d h s T')
  with timer_add_spec [of T d h s] show ?case by auto
next
  case (clock T cp ev T')
  note eq = clock.hyps(2) [unfolded skynet_updatetime_def]
  show ?case
  proof (cases "cp < t_current_point T \<or> cp = t_current_point T")
    case True
    with eq clock.IH show ?thesis by (auto split: if_splits)
  next
    case False
    let ?d = "unat (ucast (cp - t_current_point T) :: u32)"
    let ?T = "T\<lparr>t_current_point := cp, t_current := t_current T + ucast (ucast (cp - t_current_point T) :: u32)\<rparr>"
    from False eq have "update_times ?d ?T = Some (ev, T')" by (simp add: Let_def)
    then show ?thesis using update_times_spec [of ?T ?d] clock.IH by auto
  qed
qed

text \<open>
  C10. On every timer that insertions and clock readings can produce, \<open>k\<close> ticks (\<open>k\<close> not 0)
  return, advance the wheel's clock by \<open>k\<close> modulo 2^32, dispatch exactly the pending nodes
  whose expiry is at most \<open>k\<close> ticks away, each as often as it is pending, and leave exactly the
  others pending: no timer is early, late, lost or repeated, whatever level it is kept on.
\<close>

theorem ticks_fire_exactly:
  assumes "timer_reach T" "0 < k"
  shows "\<exists>ev T'. update_times k T = Some (ev, T') \<and> t_time T' = t_time T + of_nat k \<and>
    mset ev = filter_mset (\<lambda>n. unat (tn_expire n - t_time T) \<le> k) (pending T) \<and>
    pending T' = filter_mset (\<lambda>n. k < unat (tn_expire n - t_time T)) (pending T)"
proof -
  have "\<not> (0 < k \<and> remaining n (t_time T) \<le> k) \<longleftrightarrow> k < unat (tn_expire n - t_time T)"
    "0 < k \<and> remaining n (t_time T) \<le> k \<longleftrightarrow> unat (tn_expire n - t_time T) \<le> k" for n
    using assms(2) by (simp_all add: remaining_def not_le)
  then show ?thesis using update_times_spec [OF timer_reach_ok [OF assms(1)], of k] by auto
qed

theorem ticks_fire_exactly_witness:
  "\<exists>ev T'. update_times 70000 (skynet_timer_init 1 2 3) = Some (ev, T') \<and> pending T' = {#}"
  using ticks_fire_exactly [OF timer_reach.init [of 1 2 3], of 70000] timer_init_ok(2) by auto

text \<open>
  A timer set for \<open>d\<close> ticks (a positive \<open>int\<close>) on any such wheel is accepted, and among the
  nodes dispatched by the following \<open>k\<close> ticks are exactly the old ones due within
  \<open>k\<close> and, if and only if \<open>d \<le> k\<close>, the new one: it fires at the \<open>d\<close>-th tick.
\<close>

theorem timeout_after_exactly:
  assumes "timer_reach T" "0 < d" "d < 2 ^ 31" "0 < k"
  shows "\<exists>T1 ev T2. timer_add handle session d T = Some T1 \<and> update_times k T1 = Some (ev, T2) \<and>
    mset ev = filter_mset (\<lambda>n. unat (tn_expire n - t_time T) \<le> k) (pending T) +
      (if unat d \<le> k then {#\<lparr>tn_expire = d + t_time T, tn_handle = handle, tn_session = session\<rparr>#} else {#})"
proof -
  let ?n = "\<lparr>tn_expire = d + t_time T, tn_handle = handle, tn_session = session\<rparr>"
  obtain T1 where T1: "timer_add handle session d T = Some T1" "timer_ok T1" "t_time T1 = t_time T"
    "pending T1 = add_mset ?n (pending T)"
    using timer_add_spec [OF timer_reach_ok [OF assms(1)] assms(2,3)] by blast
  then show ?thesis using update_times_spec [OF T1(2), of k] assms(4) by (auto simp: remaining_def)
qed

theorem timeout_after_exactly_witness:
  "\<exists>T1 ev T2. timer_add 0x01000001 7 300 (skynet_timer_init 1 2 3) = Some T1 \<and>
    update_times 300 T1 = Some (ev, T2) \<and>
    mset ev = {#\<lparr>tn_expire = 300, tn_handle = 0x01000001, tn_session = 7\<rparr>#}"
  using timeout_after_exactly [OF timer_reach.init [of 1 2 3], of 300 300 "0x01000001" 7] timer_init_ok(2) [of 1 2 3]
  by (simp add: skynet_timer_init_def timer_create_timer_def)

end
