(* ===== verification/Module.thy ===== *)
theory Module
  imports CString
begin

section \<open>C service modules (skynet_module.c)\<close>

text \<open>
  A service type is a shared library, found by substituting its name for the question mark of
  every piece of a search path, and four functions looked up in it by name. \<open>dlopen\<close> and
  \<open>dlsym\<close> belong to the system: they are parameters, with \<open>0\<close> for \<open>NULL\<close>. The candidate file
  names are composed in a stack buffer whose size is computed once; \<open>try_open\<close> checks every
  write against it and the lemmas show that the buffer is large enough and that the search
  tries the candidates in the order of the path.
\<close>

record skynet_module =
  mod_name :: string
  mod_module :: ptr
  mod_create :: ptr
  mod_init :: ptr
  mod_release :: ptr
  mod_signal :: ptr

text \<open>\<open>struct modules\<close>; the used part of the array \<open>m\<close> is a list, \<open>count\<close> its length.\<close>

record modules =
  mods_path :: string
  mods_m :: "skynet_module list"

definition MAX_MODULE_TYPE :: nat where "MAX_MODULE_TYPE = 32"

definition NUL :: char where "NUL = CHR 0x00"

subsection \<open>Searching the path\<close>

text \<open>Writing a run of bytes into a buffer, and reading the C string a buffer holds.\<close>

definition buf_write :: "string \<Rightarrow> nat \<Rightarrow> string \<Rightarrow> string option" where
  "buf_write tmp off bs =
     (if off + length bs \<le> length tmp then Some (take off tmp @ bs @ drop (off + length bs) tmp) else None)"

definition buf_string :: "string \<Rightarrow> string option" where
  "buf_string tmp = (if NUL \<in> set tmp then Some (takeWhile (\<lambda>c. c \<noteq> NUL) tmp) else None)"

text \<open>An invalid path makes the process exit.\<close>

datatype open_result = Exited | Opened ptr

text \<open>\<open>_try_open\<close>: \<open>path\<close> is the rest of the search path, \<open>sz\<close> the size of the buffer.\<close>

function try_open_loop :: "(string \<Rightarrow> ptr) \<Rightarrow> nat \<Rightarrow> string \<Rightarrow> string \<Rightarrow> open_result option" where
  "try_open_loop dlopen sz name path =
     (let path = dropWhile (\<lambda>c. c = CHR '';'') path in
      if path = [] then Some (Opened 0)
      else
        let l = takeWhile (\<lambda>c. c \<noteq> CHR '';'') path;
            i = length (takeWhile (\<lambda>c. c \<noteq> CHR ''?'') l) in do {
          tmp1 \<leftarrow> buf_write (replicate sz NUL) 0 (take i l);
          tmp2 \<leftarrow> buf_write tmp1 i name;
          if i < length l then do {
            tmp3 \<leftarrow> buf_write tmp2 (i + length name) (drop (Suc i) l);
            file \<leftarrow> buf_string tmp3;
            if dlopen file = 0 then try_open_loop dlopen sz name (drop (length l) path)
            else Some (Opened (dlopen file)) }
          else Some Exited })"
  by pat_completeness auto
termination
proof (relation "measure (\<lambda>(d, sz, name, path). length path)", goal_cases)
  case (2 dlopen sz name path x l i)
  have "length x \<le> length path"
    using length_dropWhile_le [of "\<lambda>c. c = CHR '';''" path] 2(1) by simp
  moreover have "l \<noteq> []" using 2 by (metis (full_types) hd_dropWhile takeWhile_eq_Nil_iff)
  then have "0 < length l" "0 < length x" using 2(2) by simp_all
  ultimately have "length x - length l < length path" by linarith
  then show ?case by simp
qed simp

declare try_open_loop.simps [simp del]

definition try_open :: "(string \<Rightarrow> ptr) \<Rightarrow> string \<Rightarrow> string \<Rightarrow> open_result option" where
  "try_open dlopen path name = try_open_loop dlopen (length path + length name) name path"

subsection \<open>The table of modules\<close>

definition find_module :: "string \<Rightarrow> modules \<Rightarrow> skynet_module option" where
  "find_module name M = find (\<lambda>m. strcmp (mod_name m) name = 0) (mods_m M)"

text \<open>The part of the composed name behind its last dot is the symbol.\<close>

definition get_api :: "(ptr \<Rightarrow> string \<Rightarrow> ptr) \<Rightarrow> skynet_module \<Rightarrow> string \<Rightarrow> ptr" where
  "get_api dlsym m api_name =
     dlsym (mod_module m) (rev (takeWhile (\<lambda>c. c \<noteq> CHR ''.'') (rev (mod_name m @ api_name))))"

definition open_sym :: "(ptr \<Rightarrow> string \<Rightarrow> ptr) \<Rightarrow> skynet_module \<Rightarrow> bool \<times> skynet_module" where
  "open_sym dlsym m =
     (let m' = m\<lparr>mod_create := get_api dlsym m ''_create'', mod_init := get_api dlsym m ''_init'',
                 mod_release := get_api dlsym m ''_release'', mod_signal := get_api dlsym m ''_signal''\<rparr>
      in (mod_init m' = 0, m'))"

definition skynet_module_query ::
  "(string \<Rightarrow> ptr) \<Rightarrow> (ptr \<Rightarrow> string \<Rightarrow> ptr) \<Rightarrow> string \<Rightarrow> modules \<Rightarrow> (skynet_module option \<times> modules) option" where
  "skynet_module_query dlopen dlsym name M =
     (case find_module name M of
        Some m \<Rightarrow> Some (Some m, M)
      | None \<Rightarrow>
          if length (mods_m M) < MAX_MODULE_TYPE then
            (case try_open dlopen (mods_path M) name of
               Some (Opened dl) \<Rightarrow>
                 if dl \<noteq> 0 then
                   (let (failed, m) = open_sym dlsym \<lparr>mod_name = name, mod_module = dl, mod_create = 0,
                      mod_init = 0, mod_release = 0, mod_signal = 0\<rparr>
                    in if failed then Some (None, M) else Some (Some m, M\<lparr>mods_m := mods_m M @ [m]\<rparr>))
                 else Some (None, M)
             | _ \<Rightarrow> None)
          else Some (None, M))"

definition skynet_module_insert :: "skynet_module \<Rightarrow> modules \<Rightarrow> modules option" where
  "skynet_module_insert m M = do {
     c_assert (find_module (mod_name m) M = None \<and> length (mods_m M) < MAX_MODULE_TYPE);
     Some (M\<lparr>mods_m := mods_m M @ [m]\<rparr>) }"

definition skynet_module_init :: "string \<Rightarrow> modules" where
  "skynet_module_init path = \<lparr>mods_path = path, mods_m = []\<rparr>"

subsection \<open>The search meets its specification\<close>

text \<open>The pieces of the path, and the candidate a piece stands for.\<close>

function path_pieces :: "string \<Rightarrow> string list" where
  "path_pieces path =
     (let p = dropWhile (\<lambda>c. c = CHR '';'') path in
      if p = [] then []
      else takeWhile (\<lambda>c. c \<noteq> CHR '';'') p # path_pieces (dropWhile (\<lambda>c. c \<noteq> CHR '';'') p))"
  by pat_completeness auto
termination
proof (relation "measure length", goal_cases)
  case (2 path p)
  have "length p \<le> length path"
    using length_dropWhile_le [of "\<lambda>c. c = CHR '';''" path] 2(1) by simp
  moreover obtain a ps where p: "p = a # ps" using 2(2) by (cases p) simp_all
  have "a \<noteq> CHR '';''" using 2 hd_dropWhile [of "\<lambda>c. c = CHR '';''" path] p by (metis list.sel(1))
  then have "length (dropWhile (\<lambda>c. c \<noteq> CHR '';'') p) < length p"
    using length_dropWhile_le [of "\<lambda>c. c \<noteq> CHR '';''" ps] p by simp
  ultimately show ?case by simp
qed simp

declare path_pieces.simps [simp del]

definition candidate :: "string \<Rightarrow> string \<Rightarrow> string option" where
  "candidate name piece =
     (if CHR ''?'' \<in> set piece then
        Some (takeWhile (\<lambda>c. c \<noteq> CHR ''?'') piece @ name @ tl (dropWhile (\<lambda>c. c \<noteq> CHR ''?'') piece))
      else None)"

fun first_open :: "(string \<Rightarrow> ptr) \<Rightarrow> string option list \<Rightarrow> open_result" where
  "first_open dlopen [] = Opened 0"
| "first_open dlopen (None # fs) = Exited"
| "first_open dlopen (Some f # fs) = (if dlopen f = 0 then first_open dlopen fs else Opened (dlopen f))"

lemma buf_write_fits:
  "off + length bs \<le> sz \<Longrightarrow> length pre = off \<Longrightarrow>
    buf_write (pre @ replicate (sz - off) NUL) off bs = Some (pre @ bs @ replicate (sz - (off + length bs)) NUL)"
  by (simp add: buf_write_def)

lemma buf_string_padded: "NUL \<notin> set f \<Longrightarrow> 0 < k \<Longrightarrow> buf_string (f @ replicate k NUL) = Some f"
  by (cases k) (auto simp: buf_string_def takeWhile_append2 takeWhile_tail)

lemma drop_takeWhile_length: "drop (length (takeWhile P xs)) xs = dropWhile P xs"
  by (simp add: dropWhile_eq_drop)

lemma piece_split:
  "(length (takeWhile (\<lambda>c. c \<noteq> q) l) < length l) = (q \<in> set l)"
  "drop (Suc (length (takeWhile (\<lambda>c. c \<noteq> q) l))) l = tl (dropWhile (\<lambda>c. c \<noteq> q) l)"
  "take (length (takeWhile (\<lambda>c. c \<noteq> q) l)) l = takeWhile (\<lambda>c. c \<noteq> q) l"
  by (induction l) auto

lemma try_open_loop_spec:
  assumes "NUL \<notin> set path" "NUL \<notin> set name" "length path + length name \<le> sz"
  shows "try_open_loop dlopen sz name path = Some (first_open dlopen (map (candidate name) (path_pieces path)))"
  using assms
proof (induction path rule: path_pieces.induct)
  case (1 path)
  define p where "p = dropWhile (\<lambda>c. c = CHR '';'') path"
  define l where "l = takeWhile (\<lambda>c. c \<noteq> CHR '';'') p"
  define i where "i = length (takeWhile (\<lambda>c. c \<noteq> CHR ''?'') l)"
  have set_p: "set p \<subseteq> set path" by (auto simp: p_def dest: set_dropWhileD)
  have set_l: "set l \<subseteq> set p" by (auto simp: l_def dest: set_takeWhileD)
  have len: "length p \<le> length path" "length l \<le> length p" "i \<le> length l"
    by (simp_all add: p_def l_def i_def length_dropWhile_le length_takeWhile_le)
  show ?case
  proof (cases "p = []")
    case True
    then show ?thesis by (simp add: try_open_loop.simps [of dlopen] path_pieces.simps [of path] p_def)
  next
    case False
    have pre: "take i l = takeWhile (\<lambda>c. c \<noteq> CHR ''?'') l" "length (take i l) = i"
      using piece_split(3) [of "CHR ''?''" l] len(3) by (simp_all add: i_def)
    have w1: "buf_write (replicate sz NUL) 0 (take i l) = Some (take i l @ replicate (sz - i) NUL)"
      using buf_write_fits [of 0 "take i l" sz "[]"] pre(2) len "1.prems"(3) by simp
    have w2: "buf_write (take i l @ replicate (sz - i) NUL) i name =
        Some (take i l @ name @ replicate (sz - (i + length name)) NUL)"
      using buf_write_fits [of i name sz "take i l"] pre(2) len "1.prems"(3) by simp
    have IH: "try_open_loop dlopen sz name (dropWhile (\<lambda>c. c \<noteq> CHR '';'') p) =
        Some (first_open dlopen (map (candidate name) (path_pieces (dropWhile (\<lambda>c. c \<noteq> CHR '';'') p))))"
    proof (rule "1.IH" [OF p_def False])
      show "NUL \<notin> set (dropWhile (\<lambda>c. c \<noteq> CHR '';'') p)"
        using "1.prems"(1) set_p by (auto dest: set_dropWhileD)
      show "length (dropWhile (\<lambda>c. c \<noteq> CHR '';'') p) + length name \<le> sz"
        using "1.prems"(3) len(1) length_dropWhile_le [of "\<lambda>c. c \<noteq> CHR '';''" p] by simp
    qed (rule "1.prems")
    have pieces: "path_pieces path = l # path_pieces (dropWhile (\<lambda>c. c \<noteq> CHR '';'') p)"
      using False by (subst path_pieces.simps) (simp add: Let_def flip: p_def l_def)
    have rest: "drop (length l) p = dropWhile (\<lambda>c. c \<noteq> CHR '';'') p"
      by (simp add: l_def drop_takeWhile_length)
    have loop: "try_open_loop dlopen sz name path =
        (if i < length l then do {
           tmp3 \<leftarrow> buf_write (take i l @ name @ replicate (sz - (i + length name)) NUL) (i + length name) (drop (Suc i) l);
           file \<leftarrow> buf_string tmp3;
           if dlopen file = 0 then try_open_loop dlopen sz name (dropWhile (\<lambda>c. c \<noteq> CHR '';'') p)
           else Some (Opened (dlopen file)) }
         else Some Exited)"
      using False w1 w2
      by (subst try_open_loop.simps, unfold rest [symmetric]) (simp add: Let_def flip: p_def l_def i_def)
    show ?thesis
    proof (cases "i < length l")
      case False
      then have "candidate name l = None"
        using piece_split(1) [of "CHR ''?''" l] by (simp add: candidate_def i_def)
      with False loop pieces show ?thesis by simp
    next
      case True
      let ?f = "take i l @ name @ drop (Suc i) l"
      have fits: "i + length name + length (drop (Suc i) l) < sz"
        using True len "1.prems"(3) by simp
      have w3: "buf_write (take i l @ name @ replicate (sz - (i + length name)) NUL) (i + length name) (drop (Suc i) l)
          = Some (?f @ replicate (sz - (i + length name + length (drop (Suc i) l))) NUL)"
        using buf_write_fits [of "i + length name" "drop (Suc i) l" sz "take i l @ name"] pre(2) fits by simp
      have "NUL \<notin> set ?f"
        using "1.prems"(1,2) set_p set_l by (auto dest: in_set_takeD in_set_dropD)
      then have fname: "buf_string (?f @ replicate (sz - (i + length name + length (drop (Suc i) l))) NUL) = Some ?f"
        using fits by (intro buf_string_padded) simp_all
      have "candidate name l = Some ?f"
        using True piece_split [of "CHR ''?''" l] by (simp add: candidate_def i_def)
      with True loop pieces w3 fname IH show ?thesis by simp
    qed
  qed
qed

text \<open>
  The search for a service module writes only inside its buffer and always terminates the
  file name it composes, and it returns what the specification says: the candidates of the
  pieces of the path are opened from left to right until one succeeds, and a piece without a
  question mark ends the process.
\<close>

theorem module_search_correct:
  assumes "NUL \<notin> set path" "NUL \<notin> set name"
  shows "try_open dlopen path name = Some (first_open dlopen (map (candidate name) (path_pieces path)))"
  using try_open_loop_spec [OF assms] by (simp add: try_open_def)

theorem module_search_correct_witness:
  "try_open (\<lambda>f. if f = ''./b/snlua.so'' then 7 else 0) '';./a/?.so;;./b/?.so;x'' ''snlua'' = Some (Opened 7)"
proof -
  have "path_pieces '';./a/?.so;;./b/?.so;x'' = [''./a/?.so'', ''./b/?.so'', ''x'']"
    by (simp add: path_pieces.simps)
  moreover have "NUL \<notin> set '';./a/?.so;;./b/?.so;x''" "NUL \<notin> set ''snlua''"
    by (simp_all add: NUL_def)
  ultimately show ?thesis
    using module_search_correct [of "'';./a/?.so;;./b/?.so;x''" "''snlua''"] by (simp add: candidate_def)
qed

text \<open>
  The table keeps at most \<open>MAX_MODULE_TYPE\<close> modules with distinct names, each with an
  \<open>init\<close> function.
\<close>

definition modules_ok :: "modules \<Rightarrow> bool" where
  "modules_ok M \<longleftrightarrow> length (mods_m M) \<le> MAX_MODULE_TYPE \<and> distinct (map mod_name (mods_m M)) \<and>
     (\<forall>m \<in> set (mods_m M). mod_init m \<noteq> 0)"

lemma find_module_None: "find_module name M = None \<longleftrightarrow> name \<notin> mod_name ` set (mods_m M)"
  by (auto simp: find_module_def find_None_iff strcmp_0_iff)

lemma modules_ok_init: "modules_ok (skynet_module_init path)"
  by (simp add: modules_ok_def skynet_module_init_def)

lemma module_query_ok:
  assumes "modules_ok M" "skynet_module_query dlopen dlsym name M = Some (r, M')"
  shows "modules_ok M'"
  using assms find_module_None [of name M]
  by (auto simp: skynet_module_query_def modules_ok_def open_sym_def Let_def
      split: option.splits if_splits open_result.splits)

lemma module_query_found:
  assumes "modules_ok M" "skynet_module_query dlopen dlsym name M = Some (Some m, M')"
  shows "mod_name m = name" "mod_init m \<noteq> 0" "m \<in> set (mods_m M')"
proof -
  have "mod_name m = name \<and> mod_init m \<noteq> 0 \<and> m \<in> set (mods_m M')"
  proof (cases "find_module name M")
    case (Some x)
    then have "x \<in> set (mods_m M)" "mod_name x = name"
      by (auto simp: find_module_def find_Some_iff strcmp_0_iff)
    with Some assms show ?thesis by (auto simp: skynet_module_query_def modules_ok_def)
  next
    case None
    with assms show ?thesis
      by (auto simp: skynet_module_query_def open_sym_def Let_def
          split: if_splits option.splits open_result.splits)
  qed
  then show "mod_name m = name" "mod_init m \<noteq> 0" "m \<in> set (mods_m M')" by simp_all
qed

text \<open>A second query finds the entry that the first one made, without opening anything.\<close>

lemma module_query_again:
  assumes "modules_ok M" "skynet_module_query dlopen dlsym name M = Some (Some m, M')"
  shows "skynet_module_query dlopen' dlsym' name M' = Some (Some m, M')"
proof -
  have d: "distinct (map mod_name (mods_m M'))"
    using module_query_ok [OF assms] by (simp add: modules_ok_def)
  have m: "m \<in> set (mods_m M')" "mod_name m = name" using module_query_found [OF assms] by simp_all
  then obtain x where x: "find_module name M' = Some x" using find_module_None [of name M'] by fastforce
  then have "x \<in> set (mods_m M')" "mod_name x = name"
    by (auto simp: find_module_def find_Some_iff strcmp_0_iff)
  with d m have "x = m" by (metis distinct_map inj_on_contraD)
  with x show ?thesis by (simp add: skynet_module_query_def)
qed

end
