(* ===== verification/World.thy ===== *)
theory World
  imports Mqueue Handle Timer Module
begin

section \<open>The state of a node, and the services it is built on\<close>

text \<open>
  One record holds what the C files keep in static variables and on the heap: the mailboxes
  (\<open>Q\<close> of skynet_mq.c), the registry (\<open>H\<close> of skynet_handle.c), the service contexts, the blocks of
  \<open>skynet_malloc\<close>, the node (\<open>G_NODE\<close> of skynet_server.c), the timer (\<open>TI\<close>), the environment (\<open>E\<close>), the
  module table (\<open>M\<close>), the harbor (\<open>REMOTE\<close>, \<open>HARBOR\<close>) and the log files.

  Freeing a block that is not allocated, using a context after \<open>delete_context\<close> and every
  failed \<open>assert\<close> is \<open>None\<close>. The functions of the loaded service modules, which are not part of
  the core, and the system calls are the parameter \<open>services\<close>.

  This theory has the definitions of skynet_env.c, skynet_harbor.c, skynet_error.c, skynet_log.c and
  skynet_monitor.c, with the first half of skynet_server.c on which they depend.
\<close>

record skynet_context =
  ctx_instance :: ptr
  ctx_mod :: skynet_module
  ctx_cb_ud :: ptr
  ctx_cb :: ptr
  ctx_queue :: qid
  ctx_logfile :: ptr
  ctx_cpu_cost :: u64
  ctx_cpu_start :: u64
  ctx_result :: string
  ctx_handle :: u32
  ctx_session_id :: u32
  ctx_ref :: int
  ctx_message_count :: u32
  ctx_init :: bool
  ctx_endless :: bool
  ctx_profile :: bool

record node =
  nd_total :: int
  nd_monitor_exit :: u32
  nd_profile :: bool

record remote_message =
  rm_name :: string
  rm_handle :: u32
  rm_message :: ptr
  rm_sz :: u64
  rm_type :: u32

record skynet_socket_message =
  sk_type :: u32
  sk_id :: u32
  sk_ud :: u32
  sk_buffer :: ptr

text \<open>What an allocated block holds: bytes, or one of the structures that travel as messages.\<close>

datatype block = Bytes string | Remote remote_message | Sock skynet_socket_message string

record world =
  w_mq :: mq_state
  w_handles :: handle_storage
  w_ctxs :: "ctx \<Rightarrow> skynet_context option"
  w_ctx_fresh :: ctx
  w_heap :: "ptr \<Rightarrow> block option"
  w_fresh :: ptr
  w_node :: node
  w_timer :: timer
  w_env :: "string \<Rightarrow> string option"
  w_mods :: modules
  w_remote :: "ctx option"
  w_harbor :: u32
  w_logger :: u32
  w_current :: u32
  w_files :: "ptr \<Rightarrow> string option"

text \<open>
  The code outside the core: the functions of a module, called through the addresses that
  \<open>dlsym\<close> returned, the callback of a service, and the system calls.
\<close>

record services =
  sv_create :: "ptr \<Rightarrow> world \<Rightarrow> (ptr \<times> world) option"
  sv_init :: "ptr \<Rightarrow> ptr \<Rightarrow> ctx \<Rightarrow> string option \<Rightarrow> world \<Rightarrow> (u32 \<times> world) option"
  sv_release :: "ptr \<Rightarrow> ptr \<Rightarrow> world \<Rightarrow> world option"
  sv_signal :: "ptr \<Rightarrow> ptr \<Rightarrow> u32 \<Rightarrow> world \<Rightarrow> world option"
  sv_cb :: "ptr \<Rightarrow> ctx \<Rightarrow> ptr \<Rightarrow> u32 \<Rightarrow> u32 \<Rightarrow> u32 \<Rightarrow> ptr \<Rightarrow> u64 \<Rightarrow> world \<Rightarrow> (u32 \<times> world) option"
  sv_dlopen :: "string \<Rightarrow> ptr"
  sv_dlsym :: "ptr \<Rightarrow> string \<Rightarrow> ptr"
  sv_fopen :: "string \<Rightarrow> ptr"
  sv_ctime :: "u64 \<Rightarrow> string"
  sv_thread_time :: "world \<Rightarrow> u64"
  sv_seconds :: "u64 \<Rightarrow> string"

subsection \<open>Memory\<close>

definition skynet_malloc :: "block \<Rightarrow> world \<Rightarrow> ptr \<times> world" where
  "skynet_malloc b w = (w_fresh w, w\<lparr>w_heap := (w_heap w)(w_fresh w \<mapsto> b), w_fresh := Suc (w_fresh w)\<rparr>)"

definition skynet_free :: "ptr \<Rightarrow> world \<Rightarrow> world option" where
  "skynet_free p w =
     (if p = 0 then Some w
      else case w_heap w p of None \<Rightarrow> None | Some _ \<Rightarrow> Some (w\<lparr>w_heap := (w_heap w)(p := None)\<rparr>))"

text \<open>\<open>n\<close> bytes from the start of a block.\<close>

definition mem_read :: "ptr \<Rightarrow> nat \<Rightarrow> world \<Rightarrow> string option" where
  "mem_read p n w =
     (case w_heap w p of Some (Bytes bs) \<Rightarrow> if n \<le> length bs then Some (take n bs) else None | _ \<Rightarrow> None)"

subsection \<open>Contexts and their references (skynet_server.c)\<close>

definition hc :: "world \<Rightarrow> ctx \<Rightarrow> u32" where
  "hc w c = (case w_ctxs w c of Some x \<Rightarrow> ctx_handle x | None \<Rightarrow> 0)"

definition upd_ctx :: "ctx \<Rightarrow> (skynet_context \<Rightarrow> skynet_context) \<Rightarrow> world \<Rightarrow> world option" where
  "upd_ctx c f w = do { x \<leftarrow> w_ctxs w c; Some (w\<lparr>w_ctxs := (w_ctxs w)(c \<mapsto> f x)\<rparr>) }"

definition set_mq :: "mq_state \<Rightarrow> world \<Rightarrow> world" where
  "set_mq s w = w\<lparr>w_mq := s\<rparr>"

definition add_total :: "int \<Rightarrow> world \<Rightarrow> world" where
  "add_total d w = w\<lparr>w_node := (w_node w)\<lparr>nd_total := nd_total (w_node w) + d\<rparr>\<rparr>"

definition context_inc :: "world \<Rightarrow> world" where "context_inc w = add_total 1 w"
definition context_dec :: "world \<Rightarrow> world" where "context_dec w = add_total (- 1) w"

definition skynet_context_total :: "world \<Rightarrow> int" where
  "skynet_context_total w = nd_total (w_node w)"

definition skynet_context_grab :: "ctx \<Rightarrow> world \<Rightarrow> world option" where
  "skynet_context_grab c w = upd_ctx c (\<lambda>x. x\<lparr>ctx_ref := ctx_ref x + 1\<rparr>) w"

definition skynet_context_reserve :: "ctx \<Rightarrow> world \<Rightarrow> world option" where
  "skynet_context_reserve c w = map_option context_dec (skynet_context_grab c w)"

definition fclose :: "ptr \<Rightarrow> world \<Rightarrow> world option" where
  "fclose f w = (case w_files w f of None \<Rightarrow> None | Some _ \<Rightarrow> Some (w\<lparr>w_files := (w_files w)(f := None)\<rparr>))"

definition skynet_module_instance_release :: "services \<Rightarrow> skynet_module \<Rightarrow> ptr \<Rightarrow> world \<Rightarrow> world option" where
  "skynet_module_instance_release sv m inst w =
     (if mod_release m \<noteq> 0 then sv_release sv (mod_release m) inst w else Some w)"

definition delete_context :: "services \<Rightarrow> ctx \<Rightarrow> world \<Rightarrow> world option" where
  "delete_context sv c w = do {
     x \<leftarrow> w_ctxs w c;
     w1 \<leftarrow> (if ctx_logfile x \<noteq> 0 then fclose (ctx_logfile x) w else Some w);
     w2 \<leftarrow> skynet_module_instance_release sv (ctx_mod x) (ctx_instance x) w1;
     s \<leftarrow> skynet_mq_mark_release (ctx_queue x) (w_mq w2);
     let w3 = set_mq s w2;
     Some (context_dec (w3\<lparr>w_ctxs := (w_ctxs w3)(c := None)\<rparr>)) }"

definition skynet_context_release :: "services \<Rightarrow> ctx \<Rightarrow> world \<Rightarrow> (ctx option \<times> world) option" where
  "skynet_context_release sv c w = do {
     x \<leftarrow> w_ctxs w c;
     w1 \<leftarrow> upd_ctx c (\<lambda>x. x\<lparr>ctx_ref := ctx_ref x - 1\<rparr>) w;
     if ctx_ref x = 1 then do { w2 \<leftarrow> delete_context sv c w1; Some (None, w2) }
     else Some (Some c, w1) }"

text \<open>\<open>skynet_handle_grab\<close> takes the reference inside the read lock.\<close>

definition handle_grab :: "u32 \<Rightarrow> world \<Rightarrow> (ctx option \<times> world) option" where
  "handle_grab handle w =
     (case skynet_handle_grab (hc w) handle (w_handles w) of
        None \<Rightarrow> Some (None, w)
      | Some c \<Rightarrow> do { w1 \<leftarrow> skynet_context_grab c w; Some (Some c, w1) })"

definition skynet_context_push :: "services \<Rightarrow> u32 \<Rightarrow> skynet_message \<Rightarrow> world \<Rightarrow> (u32 \<times> world) option" where
  "skynet_context_push sv handle message w = do {
     (r, w1) \<leftarrow> handle_grab handle w;
     case r of
       None \<Rightarrow> Some (- 1, w1)
     | Some c \<Rightarrow> do {
         x \<leftarrow> w_ctxs w1 c;
         s \<leftarrow> skynet_mq_push (ctx_queue x) message (w_mq w1);
         (_, w2) \<leftarrow> skynet_context_release sv c (set_mq s w1);
         Some (0, w2) } }"

definition skynet_context_endless :: "services \<Rightarrow> u32 \<Rightarrow> world \<Rightarrow> world option" where
  "skynet_context_endless sv handle w = do {
     (r, w1) \<leftarrow> handle_grab handle w;
     case r of
       None \<Rightarrow> Some w1
     | Some c \<Rightarrow> do {
         w2 \<leftarrow> upd_ctx c (\<lambda>x. x\<lparr>ctx_endless := True\<rparr>) w1;
         (_, w3) \<leftarrow> skynet_context_release sv c w2;
         Some w3 } }"

text \<open>\<open>session\<close> is a C \<open>int\<close>: past the largest one it starts again at 1.\<close>

definition skynet_context_newsession :: "ctx \<Rightarrow> world \<Rightarrow> (u32 \<times> world) option" where
  "skynet_context_newsession c w = do {
     x \<leftarrow> w_ctxs w c;
     let session = ctx_session_id x + 1;
     let session' = (if sint session \<le> 0 then 1 else session);
     w1 \<leftarrow> upd_ctx c (\<lambda>x. x\<lparr>ctx_session_id := session'\<rparr>) w;
     Some (session', w1) }"

text \<open>\<open>ctx == NULL\<close> is \<open>None\<close>; reading its handle is then a failure.\<close>

definition skynet_context_handle :: "ctx option \<Rightarrow> world \<Rightarrow> u32 option" where
  "skynet_context_handle context w = do { c \<leftarrow> context; x \<leftarrow> w_ctxs w c; Some (ctx_handle x) }"

definition skynet_callback :: "ctx \<Rightarrow> ptr \<Rightarrow> ptr \<Rightarrow> world \<Rightarrow> world option" where
  "skynet_callback c ud cb w = upd_ctx c (\<lambda>x. x\<lparr>ctx_cb := cb, ctx_cb_ud := ud\<rparr>) w"

definition PTYPE_TEXT :: u64 where "PTYPE_TEXT = 0"
definition PTYPE_CLIENT :: u64 where "PTYPE_CLIENT = 3"
definition PTYPE_SYSTEM :: u64 where "PTYPE_SYSTEM = 4"
definition PTYPE_HARBOR :: u64 where "PTYPE_HARBOR = 5"
definition PTYPE_SOCKET :: u64 where "PTYPE_SOCKET = 6"
definition PTYPE_ERROR :: u64 where "PTYPE_ERROR = 7"

text \<open>\<open>skynet_context_send\<close> puts a message into the mailbox directly, without a reference.\<close>

definition skynet_context_send ::
  "ctx \<Rightarrow> ptr \<Rightarrow> u64 \<Rightarrow> u32 \<Rightarrow> u64 \<Rightarrow> u32 \<Rightarrow> world \<Rightarrow> world option" where
  "skynet_context_send c msg sz source type session w = do {
     x \<leftarrow> w_ctxs w c;
     s \<leftarrow> skynet_mq_push (ctx_queue x)
       \<lparr>msg_source = source, msg_session = session, msg_data = msg,
        msg_sz = sz OR push_bit MESSAGE_TYPE_SHIFT type\<rparr> (w_mq w);
     Some (set_mq s w) }"

subsection \<open>Logging (skynet_error.c)\<close>

text \<open>
  \<open>text\<close> is the formatted message. The handle of the logger is looked up once and kept; a
  text that fits the stack buffer is duplicated, a longer one is printed into blocks of
  doubling size until it fits.
\<close>

definition LOG_MESSAGE_SIZE :: nat where "LOG_MESSAGE_SIZE = 256"

partial_function (option) error_format :: "string \<Rightarrow> nat \<Rightarrow> world \<Rightarrow> (ptr \<times> world) option" where
  "error_format text max_size w =
     (let max_size = max_size * 2;
          (data, w1) = skynet_malloc (Bytes (take (max_size - 1) text @ [NUL])) w in
      if length text < max_size then Some (data, w1)
      else do { w2 \<leftarrow> skynet_free data w1; error_format text max_size w2 })"

definition skynet_error :: "services \<Rightarrow> ctx option \<Rightarrow> string \<Rightarrow> world \<Rightarrow> world option" where
  "skynet_error sv context text w = do {
     logger \<leftarrow> (if w_logger w = 0 then skynet_handle_findname ''logger'' (w_handles w) else Some (w_logger w));
     let w = w\<lparr>w_logger := logger\<rparr>;
     if logger = 0 then Some w
     else do {
       (data, w1) \<leftarrow> (if length text < LOG_MESSAGE_SIZE then Some (skynet_malloc (Bytes (text @ [NUL])) w)
                     else error_format text LOG_MESSAGE_SIZE w);
       source \<leftarrow> (if context = None then Some 0 else skynet_context_handle context w1);
       (_, w2) \<leftarrow> skynet_context_push sv logger
         \<lparr>msg_source = source, msg_session = 0, msg_data = data,
          msg_sz = word_of_nat (length text) OR push_bit MESSAGE_TYPE_SHIFT PTYPE_TEXT\<rparr> w1;
       Some w2 } }"

subsection \<open>The environment (skynet_env.c)\<close>

definition skynet_getenv :: "string \<Rightarrow> world \<Rightarrow> string option" where
  "skynet_getenv key w = w_env w key"

definition skynet_setenv :: "string \<Rightarrow> string \<Rightarrow> world \<Rightarrow> world option" where
  "skynet_setenv key value w = do {
     c_assert (w_env w key = None);
     Some (w\<lparr>w_env := (w_env w)(key \<mapsto> value)\<rparr>) }"

subsection \<open>Handles of other nodes (skynet_harbor.c)\<close>

definition GLOBALNAME_LENGTH :: nat where "GLOBALNAME_LENGTH = 16"

definition invalid_type :: "u64 \<Rightarrow> bool" where
  "invalid_type type \<longleftrightarrow> type \<noteq> PTYPE_SYSTEM \<and> type \<noteq> PTYPE_HARBOR"

definition skynet_harbor_init :: "u32 \<Rightarrow> world \<Rightarrow> world" where
  "skynet_harbor_init harbor w = w\<lparr>w_harbor := push_bit HANDLE_REMOTE_SHIFT harbor\<rparr>"

definition skynet_harbor_message_isremote :: "u32 \<Rightarrow> world \<Rightarrow> bool option" where
  "skynet_harbor_message_isremote handle w = do {
     c_assert (w_harbor w \<noteq> - 1);
     let h = handle AND NOT HANDLE_MASK;
     Some (h \<noteq> w_harbor w \<and> h \<noteq> 0) }"

definition sizeof_remote_message :: u64 where "sizeof_remote_message = 48"

text \<open>The message is handed over as a pointer; \<open>rmsg\<close> is its block.\<close>

definition skynet_harbor_send :: "ptr \<Rightarrow> u32 \<Rightarrow> u32 \<Rightarrow> world \<Rightarrow> world option" where
  "skynet_harbor_send rmsg source session w =
     (case w_heap w rmsg of
        Some (Remote r) \<Rightarrow> do {
          c_assert (invalid_type (ucast (rm_type r)) \<and> w_remote w \<noteq> None);
          c \<leftarrow> w_remote w;
          skynet_context_send c rmsg sizeof_remote_message source PTYPE_SYSTEM session w }
      | _ \<Rightarrow> None)"

definition skynet_harbor_start :: "ctx \<Rightarrow> world \<Rightarrow> world option" where
  "skynet_harbor_start c w = do { w1 \<leftarrow> skynet_context_reserve c w; Some (w1\<lparr>w_remote := Some c\<rparr>) }"

definition skynet_harbor_exit :: "services \<Rightarrow> world \<Rightarrow> world option" where
  "skynet_harbor_exit sv w =
     (let w1 = w\<lparr>w_remote := None\<rparr> in
      case w_remote w of
        None \<Rightarrow> Some w1
      | Some c \<Rightarrow> map_option snd (skynet_context_release sv c w1))"

subsection \<open>The monitor of a worker thread (skynet_monitor.c)\<close>

record skynet_monitor =
  sm_version :: u32
  sm_check_version :: u32
  sm_source :: u32
  sm_destination :: u32

definition skynet_monitor_new :: skynet_monitor where
  "skynet_monitor_new = \<lparr>sm_version = 0, sm_check_version = 0, sm_source = 0, sm_destination = 0\<rparr>"

definition skynet_monitor_trigger :: "u32 \<Rightarrow> u32 \<Rightarrow> skynet_monitor \<Rightarrow> skynet_monitor" where
  "skynet_monitor_trigger source destination sm =
     sm\<lparr>sm_source := source, sm_destination := destination, sm_version := sm_version sm + 1\<rparr>"

definition skynet_monitor_check ::
  "services \<Rightarrow> skynet_monitor \<Rightarrow> world \<Rightarrow> (skynet_monitor \<times> world) option" where
  "skynet_monitor_check sv sm w =
     (if sm_version sm = sm_check_version sm then
        (if sm_destination sm \<noteq> 0 then do {
           w1 \<leftarrow> skynet_context_endless sv (sm_destination sm) w;
           w2 \<leftarrow> skynet_error sv None (''A message from [ :'' @ sprintf_08x (sm_source sm) @ '' ] to [ :'' @
             sprintf_08x (sm_destination sm) @ '' ] maybe in an endless loop (version = '' @
             sprintf_d (sm_version sm) @ '')'') w1;
           Some (sm, w2) }
         else Some (sm, w))
      else Some (sm\<lparr>sm_check_version := sm_version sm\<rparr>, w))"

subsection \<open>Message logs (skynet_log.c)\<close>

definition fprintf :: "ptr \<Rightarrow> string \<Rightarrow> world \<Rightarrow> world option" where
  "fprintf f text w = do { out \<leftarrow> w_files w f; Some (w\<lparr>w_files := (w_files w)(f \<mapsto> out @ text)\<rparr>) }"

definition skynet_starttime :: "world \<Rightarrow> u32" where
  "skynet_starttime w = t_starttime (w_timer w)"

definition skynet_now :: "world \<Rightarrow> u64" where
  "skynet_now w = t_current (w_timer w)"

definition skynet_log_open :: "services \<Rightarrow> ctx \<Rightarrow> u32 \<Rightarrow> world \<Rightarrow> (ptr \<times> world) option" where
  "skynet_log_open sv c handle w =
     (case skynet_getenv ''logpath'' w of
        None \<Rightarrow> Some (0, w)
      | Some logpath \<Rightarrow> do {
          let tmp = logpath @ ''/'' @ sprintf_08x handle @ ''.log'';
          let f = sv_fopen sv tmp;
          if f \<noteq> 0 then do {
            let w1 = w\<lparr>w_files := (w_files w)(f \<mapsto> [])\<rparr>;
            let currenttime = skynet_now w1;
            let ti = ucast (skynet_starttime w1) + currenttime div 100;
            w2 \<leftarrow> skynet_error sv (Some c) (''Open log file '' @ tmp) w1;
            w3 \<leftarrow> fprintf f (''open time: '' @ sprintf_u (ucast currenttime) @ '' '' @ sv_ctime sv ti) w2;
            Some (f, w3) }
          else do {
            w1 \<leftarrow> skynet_error sv (Some c) (''Open log file '' @ tmp @ '' fail'') w;
            Some (0, w1) } })"

definition skynet_log_close :: "services \<Rightarrow> ctx \<Rightarrow> ptr \<Rightarrow> u32 \<Rightarrow> world \<Rightarrow> world option" where
  "skynet_log_close sv c f handle w = do {
     w1 \<leftarrow> skynet_error sv (Some c) (''Close log file :'' @ sprintf_08x handle) w;
     w2 \<leftarrow> fprintf f (''close time: '' @ sprintf_u (ucast (skynet_now w1)) @ [CHR 0x0A]) w1;
     fclose f w2 }"

definition log_blob :: "string \<Rightarrow> string" where
  "log_blob bs = concat (map (\<lambda>c. map hex_char (digits_of 16 2 (of_char c))) bs)"

text \<open>
  The conversion \<open>%*s\<close> takes the number as the minimal width: the string is printed up to its
  terminating zero, wherever that is. A block without one is read past its end.
\<close>

definition print_star_s :: "nat \<Rightarrow> string \<Rightarrow> string option" where
  "print_star_s width buffer = do {
     s \<leftarrow> buf_string buffer;
     Some (replicate (width - length s) CHR '' '' @ s) }"

definition sizeof_socket_message :: u64 where "sizeof_socket_message = 24"

definition log_socket :: "ptr \<Rightarrow> ptr \<Rightarrow> u64 \<Rightarrow> world \<Rightarrow> world option" where
  "log_socket f message sz w =
     (case w_heap w message of
        Some (Sock m buffer) \<Rightarrow> do {
          w1 \<leftarrow> fprintf f (''[socket] '' @ sprintf_d (sk_type m) @ '' '' @ sprintf_d (sk_id m) @ '' '' @
            sprintf_d (sk_ud m) @ '' '') w;
          w2 \<leftarrow> (if sk_buffer m = 0 then do {
                  let n = unat (sz - sizeof_socket_message);
                  c_assert (n \<le> length buffer);
                  let eol = length (takeWhile (\<lambda>c. c \<noteq> NUL) (take n buffer));
                  text \<leftarrow> print_star_s eol buffer;
                  fprintf f (''['' @ text @ '']'') w1 }
                else do {
                  bs \<leftarrow> mem_read (sk_buffer m) (unat (scast (sk_ud m) :: u64)) w1;
                  fprintf f (log_blob bs) w1 });
          fprintf f [CHR 0x0A] w2 }
      | _ \<Rightarrow> None)"

definition skynet_log_output ::
  "ptr \<Rightarrow> u32 \<Rightarrow> u64 \<Rightarrow> u32 \<Rightarrow> ptr \<Rightarrow> u64 \<Rightarrow> world \<Rightarrow> world option" where
  "skynet_log_output f source type session buffer sz w =
     (if type = PTYPE_SOCKET then log_socket f buffer sz w
      else do {
        bs \<leftarrow> (if sz = 0 then Some [] else mem_read buffer (unat sz) w);
        fprintf f ('':'' @ sprintf_08x source @ '' '' @ sprintf_d (ucast type) @ '' '' @ sprintf_d session @ '' '' @
          sprintf_u (ucast (skynet_now w)) @ '' '' @ log_blob bs @ [CHR 0x0A]) w })"

subsection \<open>Events of the socket thread (skynet_socket.c)\<close>

text \<open>
  The socket server reports a \<open>socket_message\<close>; its \<open>data\<close> is a block, or for the events with
  text (\<open>padding\<close>) a C string that is copied behind the structure, at most 128 bytes of it
  and without its terminating zero.
\<close>

record socket_message =
  sr_id :: u32
  sr_opaque :: u64
  sr_ud :: u32
  sr_data :: ptr
  sr_text :: "string option"

definition forward_message :: "services \<Rightarrow> u32 \<Rightarrow> bool \<Rightarrow> socket_message \<Rightarrow> world \<Rightarrow> world option" where
  "forward_message sv type padding result w = do {
     let text = (if padding then (case sr_text result of Some t \<Rightarrow> take 128 t | None \<Rightarrow> []) else []);
     let buffer = (if padding then 0 else sr_data result);
     let sz = sizeof_socket_message + word_of_nat (length text);
     let (sm, w1) = skynet_malloc
       (Sock \<lparr>sk_type = type, sk_id = sr_id result, sk_ud = sr_ud result, sk_buffer = buffer\<rparr> text) w;
     (r, w2) \<leftarrow> skynet_context_push sv (ucast (sr_opaque result))
       \<lparr>msg_source = 0, msg_session = 0, msg_data = sm,
        msg_sz = sz OR push_bit MESSAGE_TYPE_SHIFT PTYPE_SOCKET\<rparr> w1;
     if r \<noteq> 0 then do { w3 \<leftarrow> skynet_free buffer w2; skynet_free sm w3 }
     else Some w2 }"

end
