(* ===== verification/Server.thy ===== *)
theory Server
  imports World
begin

section \<open>Services, messages and commands (skynet_server.c)\<close>

text \<open>
  Creating and retiring services, sending and dispatching messages, and the text commands of
  \<open>skynet_command\<close>. The definitions follow the C functions statement by statement over the
  \<open>world\<close> of theory \<open>World\<close>; the C result codes stay (\<open>- 1\<close>, \<open>- 2\<close> and the session numbers are
  32-bit words).
\<close>

subsection \<open>Sending\<close>

definition PTYPE_TAG_DONTCOPY :: u32 where "PTYPE_TAG_DONTCOPY = 0x10000"
definition PTYPE_TAG_ALLOCSESSION :: u32 where "PTYPE_TAG_ALLOCSESSION = 0x20000"

definition filter_args ::
  "ctx option \<Rightarrow> u32 \<Rightarrow> u32 \<Rightarrow> ptr \<Rightarrow> u64 \<Rightarrow> world \<Rightarrow> (u32 \<times> ptr \<times> u64 \<times> world) option" where
  "filter_args context type session data sz w = do {
     let needcopy = (type AND PTYPE_TAG_DONTCOPY = 0);
     let allocsession = (type AND PTYPE_TAG_ALLOCSESSION \<noteq> 0);
     (session, w1) \<leftarrow> (if allocsession then do {
         c_assert (session = 0);
         c \<leftarrow> context;
         skynet_context_newsession c w }
       else Some (session, w));
     (data, w2) \<leftarrow> (if needcopy \<and> data \<noteq> 0 then do {
         bs \<leftarrow> mem_read data (unat sz) w1;
         Some (skynet_malloc (Bytes (bs @ [NUL])) w1) }
       else Some (data, w1));
     Some (session, data, sz OR push_bit MESSAGE_TYPE_SHIFT (ucast (type AND 0xff)), w2) }"

definition skynet_send ::
  "services \<Rightarrow> ctx option \<Rightarrow> u32 \<Rightarrow> u32 \<Rightarrow> u32 \<Rightarrow> u32 \<Rightarrow> ptr \<Rightarrow> u64 \<Rightarrow> world \<Rightarrow> (u32 \<times> world) option" where
  "skynet_send sv context source destination type session data sz w =
     (if sz AND MESSAGE_TYPE_MASK \<noteq> sz then do {
        w1 \<leftarrow> skynet_error sv context (''The message to '' @ sprintf_x destination @ '' is too large'') w;
        w2 \<leftarrow> (if type AND PTYPE_TAG_DONTCOPY \<noteq> 0 then skynet_free data w1 else Some w1);
        Some (- 2, w2) }
      else do {
        (session, data, sz, w1) \<leftarrow> filter_args context type session data sz w;
        source \<leftarrow> (if source = 0 then skynet_context_handle context w1 else Some source);
        if destination = 0 then
          (if data \<noteq> 0 then do {
             w2 \<leftarrow> skynet_error sv context ''Destination address can't be 0'' w1;
             w3 \<leftarrow> skynet_free data w2;
             Some (- 1, w3) }
           else Some (session, w1))
        else do {
          remote \<leftarrow> skynet_harbor_message_isremote destination w1;
          if remote then do {
            let (rmsg, w2) = skynet_malloc (Remote \<lparr>rm_name = [], rm_handle = destination, rm_message = data,
              rm_sz = sz AND MESSAGE_TYPE_MASK, rm_type = ucast (drop_bit MESSAGE_TYPE_SHIFT sz)\<rparr>) w1;
            w3 \<leftarrow> skynet_harbor_send rmsg source session w2;
            Some (session, w3) }
          else do {
            (r, w2) \<leftarrow> skynet_context_push sv destination
              \<lparr>msg_source = source, msg_session = session, msg_data = data, msg_sz = sz\<rparr> w1;
            if r \<noteq> 0 then do { w3 \<leftarrow> skynet_free data w2; Some (- 1, w3) }
            else Some (session, w2) } } })"

text \<open>\<open>copy_name\<close> fills the 16 characters with zeros behind the name, or cuts it off.\<close>

definition copy_name :: "string \<Rightarrow> string" where
  "copy_name addr = take GLOBALNAME_LENGTH addr @ replicate (GLOBALNAME_LENGTH - length addr) NUL"

definition skynet_sendname ::
  "services \<Rightarrow> ctx option \<Rightarrow> u32 \<Rightarrow> string \<Rightarrow> u32 \<Rightarrow> u32 \<Rightarrow> ptr \<Rightarrow> u64 \<Rightarrow> world \<Rightarrow> (u32 \<times> world) option" where
  "skynet_sendname sv context source addr type session data sz w = do {
     source \<leftarrow> (if source = 0 then skynet_context_handle context w else Some source);
     case addr of
       CHR '':'' # a \<Rightarrow> skynet_send sv context source (strtoul16_u32 a) type session data sz w
     | CHR ''.'' # a \<Rightarrow> do {
         des \<leftarrow> skynet_handle_findname a (w_handles w);
         if des = 0 then do {
           w1 \<leftarrow> (if type AND PTYPE_TAG_DONTCOPY \<noteq> 0 then skynet_free data w else Some w);
           Some (- 1, w1) }
         else skynet_send sv context source des type session data sz w }
     | _ \<Rightarrow>
         if sz AND MESSAGE_TYPE_MASK \<noteq> sz then do {
           w1 \<leftarrow> skynet_error sv context (''The message to '' @ addr @ '' is too large'') w;
           w2 \<leftarrow> (if type AND PTYPE_TAG_DONTCOPY \<noteq> 0 then skynet_free data w1 else Some w1);
           Some (- 2, w2) }
         else do {
           (session, data, sz, w1) \<leftarrow> filter_args context type session data sz w;
           let (rmsg, w2) = skynet_malloc (Remote \<lparr>rm_name = copy_name addr, rm_handle = 0, rm_message = data,
             rm_sz = sz AND MESSAGE_TYPE_MASK, rm_type = ucast (drop_bit MESSAGE_TYPE_SHIFT sz)\<rparr>) w1;
           w3 \<leftarrow> skynet_harbor_send rmsg source session w2;
           Some (session, w3) } }"

definition skynet_isremote :: "u32 \<Rightarrow> world \<Rightarrow> (bool \<times> u32) option" where
  "skynet_isremote handle w = do {
     ret \<leftarrow> skynet_harbor_message_isremote handle w;
     Some (ret, drop_bit HANDLE_REMOTE_SHIFT handle) }"

text \<open>The callback for the messages of a mailbox that is thrown away: the sender is told.\<close>

definition drop_message :: "services \<Rightarrow> u32 \<Rightarrow> skynet_message \<Rightarrow> world \<Rightarrow> world option" where
  "drop_message sv handle msg w = do {
     w1 \<leftarrow> skynet_free (msg_data msg) w;
     c_assert (handle \<noteq> 0);
     (_, w2) \<leftarrow> skynet_send sv None handle (msg_source msg) (ucast PTYPE_ERROR) 0 0 0 w1;
     Some w2 }"

abbreviation mq_release_drop :: "services \<Rightarrow> u32 \<Rightarrow> qid \<Rightarrow> world \<Rightarrow> world option" where
  "mq_release_drop sv handle \<equiv> skynet_mq_release w_mq set_mq (drop_message sv handle)"

text \<open>\<open>skynet_timeout\<close> (skynet_timer.c): no delay means a message at once.\<close>

definition skynet_timeout :: "services \<Rightarrow> u32 \<Rightarrow> u32 \<Rightarrow> u32 \<Rightarrow> world \<Rightarrow> (u32 \<times> world) option" where
  "skynet_timeout sv handle time session w =
     (if sint time \<le> 0 then do {
        (r, w1) \<leftarrow> skynet_context_push sv handle (timer_message session) w;
        Some (if r \<noteq> 0 then - 1 else session, w1) }
      else do {
        T \<leftarrow> timer_add handle session time (w_timer w);
        Some (session, w\<lparr>w_timer := T\<rparr>) })"

text \<open>\<open>dispatch_list\<close> (skynet_timer.c), over the nodes in the order in which they expired.\<close>

fun dispatch_list :: "services \<Rightarrow> timer_node list \<Rightarrow> world \<Rightarrow> world option" where
  "dispatch_list sv [] w = Some w"
| "dispatch_list sv (n # ns) w = do {
     (_, w1) \<leftarrow> skynet_context_push sv (tn_handle n) (timer_message (tn_session n)) w;
     dispatch_list sv ns w1 }"

subsection \<open>Retiring and creating services\<close>

text \<open>\<open>skynet_handle_retire\<close> releases the reference of the registry after the lock.\<close>

definition handle_retire :: "services \<Rightarrow> u32 \<Rightarrow> world \<Rightarrow> (bool \<times> world) option" where
  "handle_retire sv handle w = do {
     (r, h) \<leftarrow> skynet_handle_retire (hc w) handle (w_handles w);
     let w1 = w\<lparr>w_handles := h\<rparr>;
     case r of
       None \<Rightarrow> Some (False, w1)
     | Some c \<Rightarrow> do { (_, w2) \<leftarrow> skynet_context_release sv c w1; Some (True, w2) } }"

text \<open>\<open>skynet_handle_retireall\<close> (skynet_handle.c): passes over the table until one retires nothing.\<close>

partial_function (option) retire_pass :: "services \<Rightarrow> nat \<Rightarrow> nat \<Rightarrow> world \<Rightarrow> (nat \<times> world) option" where
  "retire_pass sv i n w =
     (if i < slot_size (w_handles w) then do {
        let handle = (case slot (w_handles w) ! i of Some c \<Rightarrow> hc w c | None \<Rightarrow> 0);
        if handle \<noteq> 0 then do {
          (r, w1) \<leftarrow> handle_retire sv handle w;
          retire_pass sv (Suc i) (if r then Suc n else n) w1 }
        else retire_pass sv (Suc i) n w }
      else Some (n, w))"

partial_function (option) skynet_handle_retireall :: "services \<Rightarrow> world \<Rightarrow> world option" where
  "skynet_handle_retireall sv w = do {
     (n, w1) \<leftarrow> retire_pass sv 0 0 w;
     if n = 0 then Some w1 else skynet_handle_retireall sv w1 }"

definition skynet_module_instance_create :: "services \<Rightarrow> skynet_module \<Rightarrow> world \<Rightarrow> (ptr \<times> world) option" where
  "skynet_module_instance_create sv m w =
     (if mod_create m \<noteq> 0 then sv_create sv (mod_create m) w else Some (2 ^ 64 - 1, w))"

definition new_context :: "skynet_module \<Rightarrow> ptr \<Rightarrow> bool \<Rightarrow> skynet_context" where
  "new_context m inst profile = \<lparr>ctx_instance = inst, ctx_mod = m, ctx_cb_ud = 0, ctx_cb = 0, ctx_queue = 0,
     ctx_logfile = 0, ctx_cpu_cost = 0, ctx_cpu_start = 0, ctx_result = [], ctx_handle = 0,
     ctx_session_id = 0, ctx_ref = 2, ctx_message_count = 0, ctx_init = False, ctx_endless = False,
     ctx_profile = profile\<rparr>"

definition skynet_context_new ::
  "services \<Rightarrow> string \<Rightarrow> string option \<Rightarrow> world \<Rightarrow> (ctx option \<times> world) option" where
  "skynet_context_new sv name param w = do {
     (r, M) \<leftarrow> skynet_module_query (sv_dlopen sv) (sv_dlsym sv) name (w_mods w);
     let w1 = w\<lparr>w_mods := M\<rparr>;
     case r of
       None \<Rightarrow> Some (None, w1)
     | Some m \<Rightarrow> do {
         (inst, w2) \<leftarrow> skynet_module_instance_create sv m w1;
         if inst = 0 then Some (None, w2)
         else do {
           let c = w_ctx_fresh w2;
           let w3 = w2\<lparr>w_ctxs := (w_ctxs w2)(c \<mapsto> new_context m inst (nd_profile (w_node w2))),
                       w_ctx_fresh := Suc c\<rparr>;
           (handle, h) \<leftarrow> skynet_handle_register (hc w3) c (w_handles w3);
           let (queue, s) = skynet_mq_create handle (w_mq w3);
           w4 \<leftarrow> upd_ctx c (\<lambda>x. x\<lparr>ctx_handle := handle, ctx_queue := queue\<rparr>)
             (w3\<lparr>w_handles := h, w_mq := s\<rparr>);
           let w5 = context_inc w4;
           (r, w6) \<leftarrow> sv_init sv (mod_init m) inst c param w5;
           if r = 0 then do {
             (ret, w7) \<leftarrow> skynet_context_release sv c w6;
             w8 \<leftarrow> (if ret \<noteq> None then upd_ctx c (\<lambda>x. x\<lparr>ctx_init := True\<rparr>) w7 else Some w7);
             s \<leftarrow> skynet_globalmq_push queue (w_mq w8);
             let w9 = set_mq s w8;
             w10 \<leftarrow> (if ret \<noteq> None
                    then skynet_error sv ret (''LAUNCH '' @ name @ '' '' @ (case param of Some p \<Rightarrow> p | None \<Rightarrow> [])) w9
                    else Some w9);
             Some (ret, w10) }
           else do {
             w7 \<leftarrow> skynet_error sv (Some c) (''FAILED launch '' @ name) w6;
             x \<leftarrow> w_ctxs w7 c;
             (_, w8) \<leftarrow> skynet_context_release sv c w7;
             (_, w9) \<leftarrow> handle_retire sv (ctx_handle x) w8;
             w10 \<leftarrow> mq_release_drop sv (ctx_handle x) queue w9;
             Some (None, w10) } } } }"

subsection \<open>Dispatching\<close>

definition run_callback :: "services \<Rightarrow> ctx \<Rightarrow> skynet_message \<Rightarrow> world \<Rightarrow> (u32 \<times> world) option" where
  "run_callback sv c msg w = do {
     x \<leftarrow> w_ctxs w c;
     sv_cb sv (ctx_cb x) c (ctx_cb_ud x) (ucast (drop_bit MESSAGE_TYPE_SHIFT (msg_sz msg)))
       (msg_session msg) (msg_source msg) (msg_data msg) (msg_sz msg AND MESSAGE_TYPE_MASK) w }"

definition dispatch_message :: "services \<Rightarrow> ctx \<Rightarrow> skynet_message \<Rightarrow> world \<Rightarrow> world option" where
  "dispatch_message sv c msg w = do {
     x \<leftarrow> w_ctxs w c;
     c_assert (ctx_init x);
     let w1 = w\<lparr>w_current := ctx_handle x\<rparr>;
     let type = drop_bit MESSAGE_TYPE_SHIFT (msg_sz msg);
     let sz = msg_sz msg AND MESSAGE_TYPE_MASK;
     w2 \<leftarrow> (if ctx_logfile x \<noteq> 0
           then skynet_log_output (ctx_logfile x) (msg_source msg) type (msg_session msg) (msg_data msg) sz w1
           else Some w1);
     w3 \<leftarrow> upd_ctx c (\<lambda>x. x\<lparr>ctx_message_count := ctx_message_count x + 1\<rparr>) w2;
     (reserve_msg, w4) \<leftarrow> (if ctx_profile x then do {
         let start = sv_thread_time sv w3;
         w3' \<leftarrow> upd_ctx c (\<lambda>x. x\<lparr>ctx_cpu_start := start\<rparr>) w3;
         (res, w4) \<leftarrow> run_callback sv c msg w3';
         x' \<leftarrow> w_ctxs w4 c;
         let cost_time = sv_thread_time sv w4 - ctx_cpu_start x';
         w5 \<leftarrow> upd_ctx c (\<lambda>x. x\<lparr>ctx_cpu_cost := ctx_cpu_cost x + cost_time\<rparr>) w4;
         Some (res, w5) }
       else run_callback sv c msg w3);
     if reserve_msg = 0 then skynet_free (msg_data msg) w4 else Some w4 }"

partial_function (option) skynet_context_dispatchall :: "services \<Rightarrow> ctx \<Rightarrow> world \<Rightarrow> world option" where
  "skynet_context_dispatchall sv c w = do {
     x \<leftarrow> w_ctxs w c;
     (r, s) \<leftarrow> skynet_mq_pop (ctx_queue x) (w_mq w);
     case r of
       None \<Rightarrow> Some (set_mq s w)
     | Some msg \<Rightarrow> do { w1 \<leftarrow> dispatch_message sv c msg (set_mq s w); skynet_context_dispatchall sv c w1 } }"

definition globalmq_pop :: "world \<Rightarrow> (qid option \<times> world) option" where
  "globalmq_pop w = do { (q, s) \<leftarrow> skynet_globalmq_pop (w_mq w); Some (q, set_mq s w) }"

text \<open>
  The body of the loop of \<open>skynet_context_message_dispatch\<close> for one message, and the loop. The loop
  ends with \<open>True\<close> when the mailbox ran empty, in which case the function returns at once.
\<close>

definition dispatch_one ::
  "services \<Rightarrow> qid \<Rightarrow> ctx \<Rightarrow> u32 \<Rightarrow> skynet_message \<Rightarrow> skynet_monitor \<Rightarrow> world \<Rightarrow> (skynet_monitor \<times> world) option" where
  "dispatch_one sv q c handle msg sm w = do {
     m \<leftarrow> mqs (w_mq w) q;
     let (overload, m') = skynet_mq_overload m;
     let w1 = w\<lparr>w_mq := (w_mq w)\<lparr>mqs := (mqs (w_mq w))(q \<mapsto> m')\<rparr>\<rparr>;
     w2 \<leftarrow> (if overload \<noteq> 0
           then skynet_error sv (Some c) (''May overload, message queue length = '' @ sprintf_d (word_of_nat overload)) w1
           else Some w1);
     let sm1 = skynet_monitor_trigger (msg_source msg) handle sm;
     x \<leftarrow> w_ctxs w2 c;
     w3 \<leftarrow> (if ctx_cb x = 0 then skynet_free (msg_data msg) w2 else dispatch_message sv c msg w2);
     Some (skynet_monitor_trigger 0 0 sm1, w3) }"

partial_function (option) dispatch_loop ::
  "services \<Rightarrow> qid \<Rightarrow> ctx \<Rightarrow> u32 \<Rightarrow> int \<Rightarrow> nat \<Rightarrow> nat \<Rightarrow> skynet_monitor \<Rightarrow> world \<Rightarrow>
   (bool \<times> skynet_monitor \<times> world) option" where
  "dispatch_loop sv q c handle weight i n sm w =
     (if i < n then do {
        (r, s) \<leftarrow> skynet_mq_pop q (w_mq w);
        let w1 = set_mq s w;
        case r of
          None \<Rightarrow> Some (True, sm, w1)
        | Some msg \<Rightarrow> do {
            m \<leftarrow> mqs (w_mq w1) q;
            let n = (if i = 0 \<and> 0 \<le> weight then skynet_mq_length m div 2 ^ nat weight else n);
            (sm2, w2) \<leftarrow> dispatch_one sv q c handle msg sm w1;
            dispatch_loop sv q c handle weight (Suc i) n sm2 w2 } }
      else Some (False, sm, w))"

definition skynet_context_message_dispatch ::
  "services \<Rightarrow> skynet_monitor \<Rightarrow> qid option \<Rightarrow> int \<Rightarrow> world \<Rightarrow> (qid option \<times> skynet_monitor \<times> world) option" where
  "skynet_context_message_dispatch sv sm q weight w = do {
     (q, w) \<leftarrow> (if q = None then globalmq_pop w else Some (q, w));
     case q of
       None \<Rightarrow> Some (None, sm, w)
     | Some q \<Rightarrow> do {
         m \<leftarrow> mqs (w_mq w) q;
         let handle = mq_handle m;
         (r, w1) \<leftarrow> handle_grab handle w;
         case r of
           None \<Rightarrow> do {
             w2 \<leftarrow> mq_release_drop sv handle q w1;
             (q', w3) \<leftarrow> globalmq_pop w2;
             Some (q', sm, w3) }
         | Some c \<Rightarrow> do {
             (empty, sm2, w2) \<leftarrow> dispatch_loop sv q c handle weight 0 1 sm w1;
             if empty then do {
               (_, w3) \<leftarrow> skynet_context_release sv c w2;
               (q', w4) \<leftarrow> globalmq_pop w3;
               Some (q', sm2, w4) }
             else do {
               x \<leftarrow> w_ctxs w2 c;
               c_assert (q = ctx_queue x);
               (nq, w3) \<leftarrow> globalmq_pop w2;
               (q', w4) \<leftarrow> (case nq of
                   Some nq' \<Rightarrow> do { s \<leftarrow> skynet_globalmq_push q (w_mq w3); Some (nq', set_mq s w3) }
                 | None \<Rightarrow> Some (q, w3));
               (_, w5) \<leftarrow> skynet_context_release sv c w4;
               Some (Some q', sm2, w5) } } } }"

end
