(* ===== verification/Command.thy ===== *)
theory Command
  imports Server
begin

section \<open>The text commands (skynet_command in skynet_server.c)\<close>

text \<open>
  Every \<open>cmd_*\<close> function takes the context that issues the command and a parameter string, which
  may be \<open>NULL\<close> (\<open>None\<close>). Their results are strings or \<open>NULL\<close>; the ones that are printed into
  \<open>context->result\<close>, 32 bytes, go through \<open>set_result\<close>, which checks that they fit.
\<close>

definition set_result :: "ctx \<Rightarrow> string \<Rightarrow> world \<Rightarrow> (string option \<times> world) option" where
  "set_result c s w = do {
     c_assert (length s < 32);
     w1 \<leftarrow> upd_ctx c (\<lambda>x. x\<lparr>ctx_result := s\<rparr>) w;
     Some (Some s, w1) }"

definition id_to_hex :: "u32 \<Rightarrow> string" where
  "id_to_hex h = CHR '':'' # map (\<lambda>i. HEX_char (unat (drop_bit ((7 - i) * 4) h AND 0xf))) [0..<8]"

text \<open>\<open>param[0]\<close>: a \<open>NULL\<close> parameter is a failure, the end of the string is a zero.\<close>

definition first_char :: "string \<Rightarrow> char" where
  "first_char s = (case s of [] \<Rightarrow> NUL | c # _ \<Rightarrow> c)"

subsection \<open>Handles and names\<close>

definition skynet_queryname :: "services \<Rightarrow> ctx \<Rightarrow> string \<Rightarrow> world \<Rightarrow> (u32 \<times> world) option" where
  "skynet_queryname sv c name w =
     (if first_char name = CHR '':'' then Some (strtoul16_u32 (tl name), w)
      else if first_char name = CHR ''.'' then do {
        h \<leftarrow> skynet_handle_findname (tl name) (w_handles w); Some (h, w) }
      else do {
        w1 \<leftarrow> skynet_error sv (Some c) (''Don't support query global name '' @ name) w;
        Some (0, w1) })"

definition tohandle :: "services \<Rightarrow> ctx \<Rightarrow> string \<Rightarrow> world \<Rightarrow> (u32 \<times> world) option" where
  "tohandle sv c param w =
     (if first_char param = CHR '':'' then Some (strtoul16_u32 (tl param), w)
      else if first_char param = CHR ''.'' then do {
        h \<leftarrow> skynet_handle_findname (tl param) (w_handles w); Some (h, w) }
      else do {
        w1 \<leftarrow> skynet_error sv (Some c) (''Can't convert '' @ param @ '' to handle'') w;
        Some (0, w1) })"

definition handle_exit :: "services \<Rightarrow> ctx \<Rightarrow> u32 \<Rightarrow> world \<Rightarrow> world option" where
  "handle_exit sv c handle w = do {
     x \<leftarrow> w_ctxs w c;
     (handle, w1) \<leftarrow> (if handle = 0
       then do { w1 \<leftarrow> skynet_error sv (Some c) ''KILL self'' w; Some (ctx_handle x, w1) }
       else do { w1 \<leftarrow> skynet_error sv (Some c) (''KILL :'' @ sprintf_x handle) w; Some (handle, w1) });
     w2 \<leftarrow> (if nd_monitor_exit (w_node w1) \<noteq> 0 then do {
             (_, w2) \<leftarrow> skynet_send sv (Some c) handle (nd_monitor_exit (w_node w1)) (ucast PTYPE_CLIENT) 0 0 0 w1;
             Some w2 }
           else Some w1);
     (_, w3) \<leftarrow> handle_retire sv handle w2;
     Some w3 }"

definition name_handle :: "u32 \<Rightarrow> string \<Rightarrow> world \<Rightarrow> (string option \<times> world) option" where
  "name_handle handle name w = do {
     (r, h) \<leftarrow> skynet_handle_namehandle handle name (w_handles w);
     Some (r, w\<lparr>w_handles := h\<rparr>) }"

definition cmd_timeout :: "services \<Rightarrow> ctx \<Rightarrow> string \<Rightarrow> world \<Rightarrow> (string option \<times> world) option" where
  "cmd_timeout sv c param w = do {
     (session, w1) \<leftarrow> skynet_context_newsession c w;
     x \<leftarrow> w_ctxs w1 c;
     (_, w2) \<leftarrow> skynet_timeout sv (ctx_handle x) (strtol10_int param) session w1;
     set_result c (sprintf_d session) w2 }"

definition cmd_reg :: "services \<Rightarrow> ctx \<Rightarrow> string option \<Rightarrow> world \<Rightarrow> (string option \<times> world) option" where
  "cmd_reg sv c param w = do {
     x \<leftarrow> w_ctxs w c;
     case param of
       None \<Rightarrow> set_result c (CHR '':'' # sprintf_x (ctx_handle x)) w
     | Some p \<Rightarrow>
         if p = [] then set_result c (CHR '':'' # sprintf_x (ctx_handle x)) w
         else if first_char p = CHR ''.'' then name_handle (ctx_handle x) (tl p) w
         else do {
           w1 \<leftarrow> skynet_error sv (Some c) (''Can't register global name '' @ p @ '' in C'') w;
           Some (None, w1) } }"

definition cmd_query :: "ctx \<Rightarrow> string \<Rightarrow> world \<Rightarrow> (string option \<times> world) option" where
  "cmd_query c param w =
     (if first_char param = CHR ''.'' then do {
        handle \<leftarrow> skynet_handle_findname (tl param) (w_handles w);
        if handle \<noteq> 0 then set_result c (CHR '':'' # sprintf_x handle) w else Some (None, w) }
      else Some (None, w))"

text \<open>
  \<open>sscanf(param, "%s %s", name, handle)\<close>: the two words of the parameter. The number of words
  read is not tested, so with fewer than two the code reads an uninitialised array: \<open>None\<close>.
\<close>

definition scan_word :: "string \<Rightarrow> (string \<times> string) option" where
  "scan_word s = (let t = skip_space s in
     if t = [] then None else Some (takeWhile (\<lambda>c. \<not> is_cspace c) t, dropWhile (\<lambda>c. \<not> is_cspace c) t))"

definition cmd_name :: "services \<Rightarrow> ctx \<Rightarrow> string \<Rightarrow> world \<Rightarrow> (string option \<times> world) option" where
  "cmd_name sv c param w = do {
     (name, rest) \<leftarrow> scan_word param;
     (handle, _) \<leftarrow> scan_word rest;
     if first_char handle \<noteq> CHR '':'' then Some (None, w)
     else do {
       let handle_id = strtoul16_u32 (tl handle);
       if handle_id = 0 then Some (None, w)
       else if first_char name = CHR ''.'' then name_handle handle_id (tl name) w
       else do {
         w1 \<leftarrow> skynet_error sv (Some c) (''Can't set global name '' @ name @ '' in C'') w;
         Some (None, w1) } } }"

definition cmd_exit :: "services \<Rightarrow> ctx \<Rightarrow> world \<Rightarrow> (string option \<times> world) option" where
  "cmd_exit sv c w = do { w1 \<leftarrow> handle_exit sv c 0 w; Some (None, w1) }"

definition cmd_kill :: "services \<Rightarrow> ctx \<Rightarrow> string \<Rightarrow> world \<Rightarrow> (string option \<times> world) option" where
  "cmd_kill sv c param w = do {
     (handle, w1) \<leftarrow> tohandle sv c param w;
     w2 \<leftarrow> (if handle \<noteq> 0 then handle_exit sv c handle w1 else Some w1);
     Some (None, w2) }"

definition cmd_launch :: "services \<Rightarrow> ctx \<Rightarrow> string \<Rightarrow> world \<Rightarrow> (string option \<times> world) option" where
  "cmd_launch sv c param w = do {
     let (m, rest) = strsep param [CHR '' '', CHR 0x09, CHR 0x0D, CHR 0x0A];
     let args = map_option (\<lambda>r. fst (strsep r [CHR 0x0D, CHR 0x0A])) rest;
     (inst, w1) \<leftarrow> skynet_context_new sv m args w;
     case inst of
       None \<Rightarrow> Some (None, w1)
     | Some i \<Rightarrow> do { x \<leftarrow> w_ctxs w1 i; set_result c (id_to_hex (ctx_handle x)) w1 } }"

subsection \<open>Environment, statistics, logging\<close>

definition cmd_getenv :: "ctx \<Rightarrow> string \<Rightarrow> world \<Rightarrow> (string option \<times> world) option" where
  "cmd_getenv c param w = Some (skynet_getenv param w, w)"

definition cmd_setenv :: "ctx \<Rightarrow> string \<Rightarrow> world \<Rightarrow> (string option \<times> world) option" where
  "cmd_setenv c param w =
     (let key = takeWhile (\<lambda>ch. ch \<noteq> CHR '' '') param; rest = dropWhile (\<lambda>ch. ch \<noteq> CHR '' '') param in
      if rest = [] then Some (None, w)
      else do { w1 \<leftarrow> skynet_setenv key (tl rest) w; Some (None, w1) })"

definition cmd_starttime :: "ctx \<Rightarrow> world \<Rightarrow> (string option \<times> world) option" where
  "cmd_starttime c w = set_result c (sprintf_u (skynet_starttime w)) w"

definition cmd_abort :: "services \<Rightarrow> world \<Rightarrow> (string option \<times> world) option" where
  "cmd_abort sv w = do { w1 \<leftarrow> skynet_handle_retireall sv w; Some (None, w1) }"

definition cmd_monitor :: "services \<Rightarrow> ctx \<Rightarrow> string option \<Rightarrow> world \<Rightarrow> (string option \<times> world) option" where
  "cmd_monitor sv c param w =
     (if param = None \<or> param = Some [] then
        (if nd_monitor_exit (w_node w) \<noteq> 0
         then set_result c (CHR '':'' # sprintf_x (nd_monitor_exit (w_node w))) w else Some (None, w))
      else do {
        p \<leftarrow> param;
        (handle, w1) \<leftarrow> tohandle sv c p w;
        Some (None, w1\<lparr>w_node := (w_node w1)\<lparr>nd_monitor_exit := handle\<rparr>\<rparr>) })"

text \<open>The two values in seconds are printed from a \<open>double\<close>; \<open>sv_seconds\<close> is that conversion.\<close>

definition cmd_stat :: "services \<Rightarrow> ctx \<Rightarrow> string \<Rightarrow> world \<Rightarrow> (string option \<times> world) option" where
  "cmd_stat sv c param w = do {
     x \<leftarrow> w_ctxs w c;
     if strcmp param ''mqlen'' = 0 then do {
       m \<leftarrow> mqs (w_mq w) (ctx_queue x);
       set_result c (sprintf_d (word_of_nat (skynet_mq_length m))) w }
     else if strcmp param ''endless'' = 0 then
       (if ctx_endless x then do {
          w1 \<leftarrow> upd_ctx c (\<lambda>x. x\<lparr>ctx_endless := False\<rparr>) w; set_result c ''1'' w1 }
        else set_result c ''0'' w)
     else if strcmp param ''cpu'' = 0 then set_result c (sv_seconds sv (ctx_cpu_cost x)) w
     else if strcmp param ''time'' = 0 then
       (if ctx_profile x then set_result c (sv_seconds sv (sv_thread_time sv w - ctx_cpu_start x)) w
        else set_result c ''0'' w)
     else if strcmp param ''message'' = 0 then set_result c (sprintf_d (ctx_message_count x)) w
     else set_result c [] w }"

text \<open>The three commands that act on another service through a reference.\<close>

definition with_service ::
  "services \<Rightarrow> ctx \<Rightarrow> string \<Rightarrow> (u32 \<Rightarrow> ctx \<Rightarrow> world \<Rightarrow> world option) \<Rightarrow> world \<Rightarrow> (string option \<times> world) option" where
  "with_service sv c param act w = do {
     (handle, w1) \<leftarrow> tohandle sv c param w;
     if handle = 0 then Some (None, w1)
     else do {
       (r, w2) \<leftarrow> handle_grab handle w1;
       case r of
         None \<Rightarrow> Some (None, w2)
       | Some t \<Rightarrow> do {
           w3 \<leftarrow> act handle t w2;
           (_, w4) \<leftarrow> skynet_context_release sv t w3;
           Some (None, w4) } } }"

definition cmd_logon :: "services \<Rightarrow> ctx \<Rightarrow> string \<Rightarrow> world \<Rightarrow> (string option \<times> world) option" where
  "cmd_logon sv c param = with_service sv c param (\<lambda>handle t w. do {
     x \<leftarrow> w_ctxs w t;
     if ctx_logfile x = 0 then do {
       (f, w1) \<leftarrow> skynet_log_open sv c handle w;
       if f \<noteq> 0 then upd_ctx t (\<lambda>x. x\<lparr>ctx_logfile := f\<rparr>) w1 else Some w1 }
     else Some w })"

definition cmd_logoff :: "services \<Rightarrow> ctx \<Rightarrow> string \<Rightarrow> world \<Rightarrow> (string option \<times> world) option" where
  "cmd_logoff sv c param = with_service sv c param (\<lambda>handle t w. do {
     x \<leftarrow> w_ctxs w t;
     if ctx_logfile x \<noteq> 0 then do {
       w1 \<leftarrow> upd_ctx t (\<lambda>x. x\<lparr>ctx_logfile := 0\<rparr>) w;
       skynet_log_close sv c (ctx_logfile x) handle w1 }
     else Some w })"

text \<open>\<open>strtol(s, NULL, 0)\<close> on digits: base 16 after \<open>0x\<close>, base 8 after \<open>0\<close>, else 10.\<close>

definition strtol0_int :: "string \<Rightarrow> u32" where
  "strtol0_int s = (let (neg, t) = take_sign (skip_space s);
     v = int (fst (if skip_0x t \<noteq> t then scan_digits 16 0 (skip_0x t)
                   else if first_char t = CHR ''0'' then scan_digits 8 0 t else scan_digits 10 0 t));
     w = (if neg then - v else v)
     in word_of_int (max (- (2 ^ 63)) (min (2 ^ 63 - 1) w)))"

definition cmd_signal :: "services \<Rightarrow> ctx \<Rightarrow> string \<Rightarrow> world \<Rightarrow> (string option \<times> world) option" where
  "cmd_signal sv c param = with_service sv c param (\<lambda>handle t w. do {
     x \<leftarrow> w_ctxs w t;
     let rest = dropWhile (\<lambda>ch. ch \<noteq> CHR '' '') param;
     let sig = (if rest = [] then 0 else strtol0_int rest);
     if mod_signal (ctx_mod x) \<noteq> 0 then sv_signal sv (mod_signal (ctx_mod x)) (ctx_instance x) sig w
     else Some w })"

subsection \<open>The command table\<close>

text \<open>
  The functions that do not test their parameter for \<open>NULL\<close> take the string itself; \<open>need\<close>
  is the dereference. \<open>EXIT\<close>, \<open>STARTTIME\<close> and \<open>ABORT\<close> ignore it.
\<close>

definition cmd_funcs ::
  "services \<Rightarrow> (string \<times> (ctx \<Rightarrow> string option \<Rightarrow> world \<Rightarrow> (string option \<times> world) option)) list" where
  "cmd_funcs sv =
     (let need = (\<lambda>f c param w. Option.bind param (\<lambda>p. f c p w)) in
      [(''TIMEOUT'', need (cmd_timeout sv)),
       (''REG'', cmd_reg sv),
       (''QUERY'', need cmd_query),
       (''NAME'', need (cmd_name sv)),
       (''EXIT'', \<lambda>c param. cmd_exit sv c),
       (''KILL'', need (cmd_kill sv)),
       (''LAUNCH'', need (cmd_launch sv)),
       (''GETENV'', need cmd_getenv),
       (''SETENV'', need cmd_setenv),
       (''STARTTIME'', \<lambda>c param. cmd_starttime c),
       (''ABORT'', \<lambda>c param. cmd_abort sv),
       (''MONITOR'', cmd_monitor sv),
       (''STAT'', need (cmd_stat sv)),
       (''LOGON'', need (cmd_logon sv)),
       (''LOGOFF'', need (cmd_logoff sv)),
       (''SIGNAL'', need (cmd_signal sv))])"

definition skynet_command ::
  "services \<Rightarrow> ctx \<Rightarrow> string \<Rightarrow> string option \<Rightarrow> world \<Rightarrow> (string option \<times> world) option" where
  "skynet_command sv c cmd param w =
     (case find (\<lambda>(name, _). strcmp cmd name = 0) (cmd_funcs sv) of
        Some (_, func) \<Rightarrow> func c param w
      | None \<Rightarrow> Some (None, w))"

end
