(* ===== verification/Delivery.thy ===== *)
theory Delivery
  imports Command Sched
begin

section \<open>What sending a message guarantees\<close>

text \<open>
  The invariant \<open>node_ok\<close> of a node between two operations, and what \<open>skynet_context_push\<close>,
  \<open>skynet_send\<close> and the callers that report failures do to the mailboxes, the references and the
  heap: a message arrives once, at the end of one mailbox, with the fields it was sent with, or the
  sender is told and the data is freed; nothing else changes.
\<close>

subsection \<open>Mailboxes\<close>

definition contents :: "mq_state \<Rightarrow> qid \<Rightarrow> skynet_message list" where
  "contents s q = (case mqs s q of Some m \<Rightarrow> map the (mq_abs m) | None \<Rightarrow> [])"

definition mq_meta :: "mq_state \<Rightarrow> qid \<Rightarrow> (u32 \<times> bool) option" where
  "mq_meta s q = map_option (\<lambda>m. (mq_handle m, mq_release m)) (mqs s q)"

definition mailboxes_ok :: "mq_state \<Rightarrow> bool" where
  "mailboxes_ok s \<longleftrightarrow> (\<exists>qs. gq_rep s qs \<and> (\<forall>q m. mqs s q = Some m \<longrightarrow> (\<exists>xs. mq_rep m xs) \<and>
     (q \<notin> set qs \<longrightarrow> mq_next m = None) \<and> (q \<in> set qs \<longrightarrow> mq_in_global m \<or> mq_release m)))"

lemma chain_unique: "chain m p xs \<Longrightarrow> chain m p ys \<Longrightarrow> xs = ys"
proof (induction xs arbitrary: p ys)
  case Nil
  then show ?case by (cases ys) auto
next
  case (Cons x xs)
  then obtain ys' y where "ys = x # ys'" "m x = Some y" "chain m (mq_next y) xs" "chain m (mq_next y) ys'"
    by (cases ys) auto
  with Cons.IH show ?case by blast
qed

lemma gq_rep_unique: "gq_rep s xs \<Longrightarrow> gq_rep s ys \<Longrightarrow> xs = ys"
  unfolding gq_rep_def using chain_unique by blast

definition linked :: "mq_state \<Rightarrow> qid \<Rightarrow> bool" where
  "linked s q \<longleftrightarrow> (\<exists>qs. gq_rep s qs \<and> q \<in> set qs)"

lemma linked_iff: "gq_rep s qs \<Longrightarrow> linked s q \<longleftrightarrow> q \<in> set qs"
  unfolding linked_def using gq_rep_unique by blast

lemma contents_rep: "mqs s q = Some m \<Longrightarrow> mq_rep m xs \<Longrightarrow> contents s q = xs"
  by (simp add: contents_def mq_rep_def o_def)

lemma same_but_next_contents: "same_but_next s s' \<Longrightarrow> contents s' = contents s"
proof
  fix q
  assume s: "same_but_next s s'"
  show "contents s' q = contents s q"
  proof (cases "mqs s q")
    case None
    with same_but_next_dom [OF s, of q] show ?thesis by (simp add: contents_def)
  next
    case (Some m)
    then obtain n where "mqs s' q = Some (m\<lparr>mq_next := n\<rparr>)" using same_but_nextD [OF s] by blast
    with Some show ?thesis by (simp add: contents_def mq_abs_def mq_len_def)
  qed
qed

lemma same_but_next_meta: "same_but_next s s' \<Longrightarrow> mq_meta s' = mq_meta s"
proof
  fix q
  assume s: "same_but_next s s'"
  show "mq_meta s' q = mq_meta s q"
  proof (cases "mqs s q")
    case None
    with same_but_next_dom [OF s, of q] show ?thesis by (simp add: mq_meta_def)
  next
    case (Some m)
    then obtain n where "mqs s' q = Some (m\<lparr>mq_next := n\<rparr>)" using same_but_nextD [OF s] by blast
    with Some show ?thesis by (simp add: mq_meta_def)
  qed
qed

text \<open>Replacing one mailbox by one with the same link.\<close>

lemma mailboxes_upd:
  assumes "gq_rep s qs" "\<And>q m. mqs s q = Some m \<Longrightarrow> (\<exists>xs. mq_rep m xs) \<and>
      (q \<notin> set qs \<longrightarrow> mq_next m = None) \<and> (q \<in> set qs \<longrightarrow> mq_in_global m \<or> mq_release m)"
    and "mqs s q = Some m" "mq_rep m' xs" "mq_next m' = mq_next m"
    and "q \<in> set qs \<Longrightarrow> mq_in_global m' \<or> mq_release m'"
  shows "gq_rep (s\<lparr>mqs := (mqs s)(q \<mapsto> m')\<rparr>) qs"
    "\<And>p x. ((mqs s)(q \<mapsto> m')) p = Some x \<Longrightarrow> (\<exists>xs. mq_rep x xs) \<and>
      (p \<notin> set qs \<longrightarrow> mq_next x = None) \<and> (p \<in> set qs \<longrightarrow> mq_in_global x \<or> mq_release x)"
  using gq_rep_upd [OF assms(1,3,5)] assms by (auto split: if_splits)

lemma mailboxes_link:
  assumes "gq_rep s qs" "q \<notin> set qs" "mqs s q = Some m" "mq_next m = None" "mq_in_global m \<or> mq_release m"
    and "\<And>p x. mqs s p = Some x \<Longrightarrow> (\<exists>xs. mq_rep x xs) \<and>
      (p \<notin> set qs \<longrightarrow> mq_next x = None) \<and> (p \<in> set qs \<longrightarrow> mq_in_global x \<or> mq_release x)"
  shows "\<exists>s'. skynet_globalmq_push q s = Some s' \<and> mailboxes_ok s' \<and> same_but_next s s' \<and> gq_rep s' (qs @ [q])"
proof -
  have "unlinked q s" using assms(3,4) by (simp add: unlinked_def)
  then obtain s' where s': "skynet_globalmq_push q s = Some s'" "gq_rep s' (qs @ [q])" "same_but_next s s'"
    "\<And>p. p \<notin> set qs \<Longrightarrow> mqs s' p = mqs s p"
    using globalmq_push_rep [OF assms(1,2)] by blast
  have "(\<exists>xs. mq_rep x xs) \<and> (p \<notin> set (qs @ [q]) \<longrightarrow> mq_next x = None) \<and>
      (p \<in> set (qs @ [q]) \<longrightarrow> mq_in_global x \<or> mq_release x)" if x: "mqs s' p = Some x" for p x
  proof -
    obtain y where y: "mqs s p = Some y" using same_but_next_dom [OF s'(3), of p] x by fastforce
    then obtain n where n: "x = y\<lparr>mq_next := n\<rparr>" using same_but_nextD [OF s'(3) y] x by auto
    show ?thesis
    proof (cases "p = q")
      case True
      with y assms(3,5) assms(6) [OF y] n show ?thesis by simp
    next
      case False
      have "p \<notin> set qs \<longrightarrow> x = y" using s'(4) x y by auto
      with False assms(6) [OF y] n show ?thesis by auto
    qed
  qed
  with s'(2) have "mailboxes_ok s'" unfolding mailboxes_ok_def by blast
  with s' show ?thesis by blast
qed

lemma mq_push_delivers:
  assumes "mailboxes_ok s" "mqs s q = Some m" "\<not> mq_release m"
  shows "\<exists>s'. skynet_mq_push q msg s = Some s' \<and> mailboxes_ok s' \<and>
    contents s' = (contents s)(q := contents s q @ [msg]) \<and> mq_meta s' = mq_meta s \<and>
    (\<forall>p. p \<noteq> q \<longrightarrow> linked s' p = linked s p)"
proof -
  obtain qs where qs: "gq_rep s qs" "\<And>q m. mqs s q = Some m \<Longrightarrow> (\<exists>xs. mq_rep m xs) \<and>
      (q \<notin> set qs \<longrightarrow> mq_next m = None) \<and> (q \<in> set qs \<longrightarrow> mq_in_global m \<or> mq_release m)"
    using assms(1) by (auto simp: mailboxes_ok_def)
  obtain xs where xs: "mq_rep m xs" using qs(2) [OF assms(2)] by blast
  obtain m1 where m1: "mq_push1 msg m = Some m1" "mq_rep m1 (xs @ [msg])" "mq_in_global m1 = mq_in_global m"
    "mq_next m1 = mq_next m" "mq_handle m1 = mq_handle m" "mq_release m1 = mq_release m"
    using mq_push1_rep [OF xs] by blast
  define m2 where "m2 = m1\<lparr>mq_in_global := True\<rparr>"
  define t where "t = s\<lparr>mqs := (mqs s)(q \<mapsto> m2)\<rparr>"
  have m2: "mq_rep m2 (xs @ [msg])" "mq_next m2 = mq_next m" "mq_in_global m2" "mq_release m2 = mq_release m"
    "mq_handle m2 = mq_handle m" using m1 by (simp_all add: m2_def)
  have t: "gq_rep t qs" "\<And>p x. mqs t p = Some x \<Longrightarrow> (\<exists>xs. mq_rep x xs) \<and>
      (p \<notin> set qs \<longrightarrow> mq_next x = None) \<and> (p \<in> set qs \<longrightarrow> mq_in_global x \<or> mq_release x)"
    using mailboxes_upd [OF qs assms(2) m2(1,2)] m2(3) by (simp_all add: t_def)
  have cont: "contents t = (contents s)(q := contents s q @ [msg])"
    using contents_rep [OF assms(2) xs] contents_rep [of t q m2, OF _ m2(1)]
    by (auto simp: t_def contents_def)
  have meta: "mq_meta t = mq_meta s"
    using assms(2) m2(4,5) by (auto simp: mq_meta_def t_def)
  show ?thesis
  proof (cases "mq_in_global m")
    case True
    then have "m1 = m2" using m1(3) by (simp add: m2_def)
    then have "skynet_mq_push q msg s = Some t"
      using assms(2) m1 True by (simp add: skynet_mq_push_def t_def)
    moreover have "mailboxes_ok t" using t unfolding mailboxes_ok_def by blast
    ultimately show ?thesis using cont meta linked_iff [OF t(1)] linked_iff [OF qs(1)] by auto
  next
    case False
    have q: "q \<notin> set qs" using qs(2) [OF assms(2)] False assms(3) by blast
    then have "mq_next m2 = None" using qs(2) [OF assms(2)] m2(2) by simp
    then obtain s' where s': "skynet_globalmq_push q t = Some s'" "mailboxes_ok s'" "same_but_next t s'"
      "gq_rep s' (qs @ [q])"
      using mailboxes_link [OF t(1) q, of m2] t(2) m2(3) by (auto simp: t_def)
    moreover have "skynet_mq_push q msg s = skynet_globalmq_push q t"
      using assms(2) m1 False by (simp add: skynet_mq_push_def t_def m2_def)
    ultimately show ?thesis
      using cont meta same_but_next_contents [OF s'(3)] same_but_next_meta [OF s'(3)]
        linked_iff [OF s'(4)] linked_iff [OF qs(1)] by auto
  qed
qed

subsection \<open>The invariant of the node\<close>

definition node_ok :: "world \<Rightarrow> bool" where
  "node_ok w \<longleftrightarrow> slots_ok (hc w) (w_handles w) \<and> (\<exists>ns. names_rep (w_handles w) ns) \<and>
     (\<forall>c. Some c \<in> set (slot (w_handles w)) \<longrightarrow> (\<exists>x. w_ctxs w c = Some x \<and> 1 \<le> ctx_ref x)) \<and>
     mailboxes_ok (w_mq w) \<and>
     (\<forall>c x. w_ctxs w c = Some x \<longrightarrow> mq_meta (w_mq w) (ctx_queue x) = Some (ctx_handle x, False)) \<and>
     w_heap w 0 = None \<and> 0 < w_fresh w \<and> (\<forall>p \<ge> w_fresh w. w_heap w p = None)"

lemma node_okD:
  assumes "node_ok w"
  shows "slots_ok (hc w) (w_handles w)" "\<exists>ns. names_rep (w_handles w) ns"
    "\<And>c. Some c \<in> set (slot (w_handles w)) \<Longrightarrow> \<exists>x. w_ctxs w c = Some x \<and> 1 \<le> ctx_ref x"
    "mailboxes_ok (w_mq w)"
    "\<And>c x. w_ctxs w c = Some x \<Longrightarrow> mq_meta (w_mq w) (ctx_queue x) = Some (ctx_handle x, False)"
    "w_heap w 0 = None" "0 < w_fresh w" "\<And>p. w_fresh w \<le> p \<Longrightarrow> w_heap w p = None"
  using assms unfolding node_ok_def by blast+

abbreviation grab_of :: "world \<Rightarrow> u32 \<Rightarrow> ctx option" where
  "grab_of w h \<equiv> skynet_handle_grab (hc w) h (w_handles w)"

lemma grab_live:
  assumes "node_ok w" "grab_of w h = Some c"
  shows "\<exists>x. w_ctxs w c = Some x \<and> 1 \<le> ctx_ref x \<and> ctx_handle x = h"
proof -
  have "Some c \<in> set (slot (w_handles w))" "hc w c = h"
    using assms(2) unfolding skynet_handle_grab_def
    by (auto simp: arr_get_def split: option.splits if_splits intro: nth_mem) (metis nth_mem)
  with node_okD(3) [OF assms(1), of c] show ?thesis by (auto simp: hc_def)
qed

text \<open>The mailbox of a live service.\<close>

definition queue_of :: "world \<Rightarrow> ctx \<Rightarrow> qid" where
  "queue_of w c = (case w_ctxs w c of Some x \<Rightarrow> ctx_queue x | None \<Rightarrow> 0)"

text \<open>
  \<open>delivered w q msg w'\<close>: \<open>w'\<close> is \<open>w\<close> with one more message at the end of mailbox \<open>q\<close>.
\<close>

definition delivered :: "world \<Rightarrow> qid \<Rightarrow> skynet_message \<Rightarrow> world \<Rightarrow> bool" where
  "delivered w q msg w' \<longleftrightarrow> w' = w\<lparr>w_mq := w_mq w'\<rparr> \<and>
     contents (w_mq w') = (contents (w_mq w))(q := contents (w_mq w) q @ [msg]) \<and>
     mq_meta (w_mq w') = mq_meta (w_mq w) \<and> (\<forall>p. p \<noteq> q \<longrightarrow> linked (w_mq w') p = linked (w_mq w) p)"

lemma set_mq_ok:
  assumes "node_ok w" "mailboxes_ok s" "mq_meta s = mq_meta (w_mq w)"
  shows "node_ok (set_mq s w)"
  using assms by (simp add: node_ok_def set_mq_def hc_def [abs_def])

lemma mq_push_world:
  assumes "node_ok w" "w_ctxs w c = Some x"
  shows "\<exists>s. skynet_mq_push (ctx_queue x) msg (w_mq w) = Some s \<and> node_ok (set_mq s w) \<and>
    delivered w (ctx_queue x) msg (set_mq s w)"
proof -
  have "mq_meta (w_mq w) (ctx_queue x) = Some (ctx_handle x, False)" using node_okD(5) [OF assms] .
  then obtain m where m: "mqs (w_mq w) (ctx_queue x) = Some m" "\<not> mq_release m"
    by (auto simp: mq_meta_def)
  from mq_push_delivers [OF node_okD(4) [OF assms(1)] m, of msg] obtain s where
    s: "skynet_mq_push (ctx_queue x) msg (w_mq w) = Some s" "mailboxes_ok s"
    "contents s = (contents (w_mq w))(ctx_queue x := contents (w_mq w) (ctx_queue x) @ [msg])"
    "mq_meta s = mq_meta (w_mq w)" "\<forall>p. p \<noteq> ctx_queue x \<longrightarrow> linked s p = linked (w_mq w) p" by blast
  then show ?thesis using set_mq_ok [OF assms(1) s(2,4)] by (auto simp: delivered_def set_mq_def)
qed

text \<open>
  \<open>skynet_context_push\<close>: no such service, and nothing happens; or the message is
  delivered, and the reference taken for it is given back.
\<close>

lemma context_push_spec:
  assumes "node_ok w"
  shows "case grab_of w h of
      None \<Rightarrow> skynet_context_push sv h msg w = Some (- 1, w)
    | Some c \<Rightarrow> \<exists>w'. skynet_context_push sv h msg w = Some (0, w') \<and> node_ok w' \<and>
        delivered w (queue_of w c) msg w'"
proof (cases "grab_of w h")
  case None
  then show ?thesis by (simp add: skynet_context_push_def handle_grab_def)
next
  case (Some c)
  obtain x where x: "w_ctxs w c = Some x" "1 \<le> ctx_ref x" using grab_live [OF assms Some] by blast
  obtain s where s: "skynet_mq_push (ctx_queue x) msg (w_mq w) = Some s" "node_ok (set_mq s w)"
    "delivered w (ctx_queue x) msg (set_mq s w)"
    using mq_push_world [OF assms x(1)] by blast
  have "skynet_context_push sv h msg w = Some (0, set_mq s w)"
    using x s(1) Some
    by (simp add: skynet_context_push_def handle_grab_def skynet_context_grab_def upd_ctx_def
        skynet_context_release_def set_mq_def fun_upd_idem)
  with s(2,3) Some x(1) show ?thesis by (auto simp: queue_of_def)
qed

subsection \<open>The arguments of a message\<close>

text \<open>The type in the top byte and the size in the rest of one word can be taken apart again.\<close>

lemma encode_sz:
  fixes sz v :: u64
  assumes "sz AND MESSAGE_TYPE_MASK = sz" "v AND 0xff = v"
  shows "drop_bit MESSAGE_TYPE_SHIFT (sz OR push_bit MESSAGE_TYPE_SHIFT v) = v"
    "(sz OR push_bit MESSAGE_TYPE_SHIFT v) AND MESSAGE_TYPE_MASK = sz"
proof -
  have m: "MESSAGE_TYPE_MASK = mask 56" "(0xff :: u64) = mask 8"
    by (simp_all add: MESSAGE_TYPE_MASK_def mask_eq_exp_minus_1)
  have sz: "\<not> bit sz n" if "56 \<le> n" for n
    using arg_cong [OF assms(1), of "\<lambda>w. bit w n"] that by (simp add: m bit_and_iff bit_mask_iff)
  have v: "\<not> bit v n" if "8 \<le> n" for n
    using arg_cong [OF assms(2), of "\<lambda>w. bit w n"] that by (simp add: m bit_and_iff bit_mask_iff)
  show "drop_bit MESSAGE_TYPE_SHIFT (sz OR push_bit MESSAGE_TYPE_SHIFT v) = v"
  proof (rule bit_word_eqI)
    fix n
    assume "n < LENGTH(64)"
    then show "bit (drop_bit MESSAGE_TYPE_SHIFT (sz OR push_bit MESSAGE_TYPE_SHIFT v)) n = bit v n"
      using sz [of "56 + n"] v [of n]
      by (cases "8 \<le> n") (auto simp: MESSAGE_TYPE_SHIFT_def bit_simps)
  qed
  show "(sz OR push_bit MESSAGE_TYPE_SHIFT v) AND MESSAGE_TYPE_MASK = sz"
  proof (rule bit_word_eqI)
    fix n
    assume "n < LENGTH(64)"
    then show "bit ((sz OR push_bit MESSAGE_TYPE_SHIFT v) AND MESSAGE_TYPE_MASK) n = bit sz n"
      using sz [of n] by (cases "56 \<le> n") (auto simp: m MESSAGE_TYPE_SHIFT_def bit_simps)
  qed
qed

lemma type_byte: "(ucast (type AND 0xff :: u32) :: u64) AND 0xff = ucast (type AND 0xff)"
proof -
  have "(0xff :: u64) = mask 8" "(0xff :: u32) = mask 8" by (simp_all add: mask_eq_exp_minus_1)
  then show ?thesis by (simp only:) (rule bit_word_eqI, auto simp: bit_simps)
qed

definition next_session :: "u32 \<Rightarrow> u32" where
  "next_session s = (if sint (s + 1) \<le> 0 then 1 else s + 1)"

lemma newsession_eq:
  "w_ctxs w c = Some x \<Longrightarrow> skynet_context_newsession c w = Some (next_session (ctx_session_id x),
     w\<lparr>w_ctxs := (w_ctxs w)(c \<mapsto> x\<lparr>ctx_session_id := next_session (ctx_session_id x)\<rparr>)\<rparr>)"
  by (simp add: skynet_context_newsession_def upd_ctx_def next_session_def Let_def)

text \<open>
  What \<open>filter_args\<close> may change besides the session counter of the sender: one new
  block. \<open>w \<approx> w1\<close> in everything that delivery looks at.
\<close>

definition same_services :: "world \<Rightarrow> world \<Rightarrow> bool" where
  "same_services w w1 \<longleftrightarrow> w_handles w1 = w_handles w \<and> hc w1 = hc w \<and> queue_of w1 = queue_of w \<and>
     w_mq w1 = w_mq w \<and> w_harbor w1 = w_harbor w \<and>
     (\<forall>c. map_option (ctx_session_id_update (\<lambda>_. 0)) (w_ctxs w1 c) =
          map_option (ctx_session_id_update (\<lambda>_. 0)) (w_ctxs w c))"

lemma session_same:
  assumes "w_ctxs w c = Some x"
  shows "same_services w (w\<lparr>w_ctxs := (w_ctxs w)(c \<mapsto> x\<lparr>ctx_session_id := v\<rparr>)\<rparr>)"
  using assms by (auto simp: same_services_def hc_def queue_of_def)

lemma session_ok:
  assumes "node_ok w" "w_ctxs w c = Some x"
  shows "node_ok (w\<lparr>w_ctxs := (w_ctxs w)(c \<mapsto> x\<lparr>ctx_session_id := v\<rparr>)\<rparr>)"
proof -
  have "hc (w\<lparr>w_ctxs := (w_ctxs w)(c \<mapsto> x\<lparr>ctx_session_id := v\<rparr>)\<rparr>) = hc w"
    using assms(2) by (auto simp: hc_def)
  with assms show ?thesis by (auto simp: node_ok_def)
qed

lemma malloc_ok:
  assumes "node_ok w" "skynet_malloc b w = (p, w1)"
  shows "node_ok w1" "same_services w w1" "w_ctxs w1 = w_ctxs w" "w_heap w p = None" "p \<noteq> 0"
    "w_heap w1 = (w_heap w)(p \<mapsto> b)"
  using assms by (auto simp: skynet_malloc_def node_ok_def same_services_def hc_def [abs_def] queue_of_def [abs_def])

lemma same_services_trans: "same_services w w1 \<Longrightarrow> same_services w1 w2 \<Longrightarrow> same_services w w2"
  by (simp add: same_services_def)

text \<open>The block that a message carries, and the heap then.\<close>

definition carried :: "world \<Rightarrow> u32 \<Rightarrow> ptr \<Rightarrow> u64 \<Rightarrow> ptr \<Rightarrow> (ptr \<Rightarrow> block option) \<Rightarrow> bool" where
  "carried w type data sz p heap \<longleftrightarrow>
     (if data = 0 \<or> type AND PTYPE_TAG_DONTCOPY \<noteq> 0 then p = data \<and> heap = w_heap w
      else \<exists>bs. mem_read data (unat sz) w = Some bs \<and> w_heap w p = None \<and> p \<noteq> 0 \<and>
        heap = (w_heap w)(p \<mapsto> Bytes (bs @ [NUL])))"

definition sendable :: "world \<Rightarrow> u32 \<Rightarrow> u32 \<Rightarrow> ptr \<Rightarrow> u64 \<Rightarrow> bool" where
  "sendable w type session data sz \<longleftrightarrow>
     sz AND MESSAGE_TYPE_MASK = sz \<and> (type AND PTYPE_TAG_ALLOCSESSION \<noteq> 0 \<longrightarrow> session = 0) \<and>
     (data \<noteq> 0 \<longrightarrow> (if type AND PTYPE_TAG_DONTCOPY = 0 then mem_read data (unat sz) w \<noteq> None
                       else w_heap w data \<noteq> None))"

definition sent_session :: "skynet_context \<Rightarrow> u32 \<Rightarrow> u32 \<Rightarrow> u32" where
  "sent_session x type session =
     (if type AND PTYPE_TAG_ALLOCSESSION \<noteq> 0 then next_session (ctx_session_id x) else session)"

lemma filter_args_spec:
  assumes "node_ok w" "w_ctxs w c = Some x" "sendable w type session data sz"
  shows "\<exists>p w1. filter_args (Some c) type session data sz w =
      Some (sent_session x type session, p, sz OR push_bit MESSAGE_TYPE_SHIFT (ucast (type AND 0xff)), w1) \<and>
    node_ok w1 \<and> same_services w w1 \<and> carried w type data sz p (w_heap w1)"
proof -
  define s where "s = sent_session x type session"
  define w0 where "w0 = (if type AND PTYPE_TAG_ALLOCSESSION \<noteq> 0
    then w\<lparr>w_ctxs := (w_ctxs w)(c \<mapsto> x\<lparr>ctx_session_id := s\<rparr>)\<rparr> else w)"
  have first: "(if type AND PTYPE_TAG_ALLOCSESSION \<noteq> 0 then do {
         c_assert (session = 0);
         c \<leftarrow> Some c;
         skynet_context_newsession c w }
       else Some (session, w)) = Some (s, w0)"
    using assms(2,3) newsession_eq [OF assms(2)]
    by (simp add: sendable_def s_def w0_def sent_session_def)
  have ok: "node_ok w0" "same_services w w0" "w_heap w0 = w_heap w"
    using assms(1) session_ok [OF assms(1,2)] session_same [OF assms(2)]
    by (simp_all add: w0_def same_services_def)
  have rd: "mem_read p n w0 = mem_read p n w" for p n using ok(3) by (simp add: mem_read_def)
  show ?thesis
  proof (cases "type AND PTYPE_TAG_DONTCOPY = 0 \<and> data \<noteq> 0")
    case False
    then have "carried w type data sz data (w_heap w0)" using ok(3) by (auto simp: carried_def)
    moreover have "filter_args (Some c) type session data sz w =
        Some (s, data, sz OR push_bit MESSAGE_TYPE_SHIFT (ucast (type AND 0xff)), w0)"
      using False unfolding filter_args_def first Let_def by auto
    ultimately show ?thesis using ok unfolding s_def by blast
  next
    case True
    then obtain bs where bs: "mem_read data (unat sz) w = Some bs" using assms(3) by (auto simp: sendable_def)
    obtain p w1 where m: "skynet_malloc (Bytes (bs @ [NUL])) w0 = (p, w1)" by fastforce
    note mo = malloc_ok [OF ok(1) m]
    have "filter_args (Some c) type session data sz w =
        Some (s, p, sz OR push_bit MESSAGE_TYPE_SHIFT (ucast (type AND 0xff)), w1)"
      using True unfolding filter_args_def first Let_def by (simp add: rd bs m)
    moreover have "carried w type data sz p (w_heap w1)"
      using True bs mo(4-6) ok(3) by (auto simp: carried_def)
    ultimately show ?thesis using mo(1,2) same_services_trans [OF ok(2) mo(2)] unfolding s_def by blast
  qed
qed

subsection \<open>Sending to a service of this node\<close>

lemma free_ok:
  assumes "node_ok w" "p = 0 \<or> w_heap w p \<noteq> None"
  shows "\<exists>w1. skynet_free p w = Some w1 \<and> node_ok w1 \<and> w_heap w1 = (w_heap w)(p := None) \<and> w_mq w1 = w_mq w"
proof (cases "p = 0")
  case True
  with assms node_okD(6) [OF assms(1)] show ?thesis by (auto simp: skynet_free_def fun_upd_idem)
next
  case False
  with assms obtain b where "w_heap w p = Some b" by blast
  with False assms(1) show ?thesis
    by (auto simp: skynet_free_def node_ok_def hc_def [abs_def])
qed

definition is_local :: "world \<Rightarrow> u32 \<Rightarrow> bool" where
  "is_local w h \<longleftrightarrow> skynet_harbor_message_isremote h w = Some False"

lemma send_local:
  assumes "node_ok w" "w_ctxs w c = Some x" "sendable w type session data sz"
    and "destination \<noteq> 0" "is_local w destination"
  shows "\<exists>r w'. skynet_send sv (Some c) source destination type session data sz w = Some (r, w') \<and> node_ok w' \<and>
    (case grab_of w destination of
       None \<Rightarrow> r = - 1 \<and> w_mq w' = w_mq w \<and>
         w_heap w' = (if type AND PTYPE_TAG_DONTCOPY \<noteq> 0 then (w_heap w)(data := None) else w_heap w)
     | Some d \<Rightarrow> r = sent_session x type session \<and> (\<exists>m.
         contents (w_mq w') = (contents (w_mq w))(queue_of w d := contents (w_mq w) (queue_of w d) @ [m]) \<and>
         msg_source m = (if source = 0 then ctx_handle x else source) \<and> msg_session m = r \<and>
         drop_bit MESSAGE_TYPE_SHIFT (msg_sz m) = ucast (type AND 0xff) \<and>
         msg_sz m AND MESSAGE_TYPE_MASK = sz \<and>
         carried w type data sz (msg_data m) (w_heap w')))"
proof -
  let ?sz = "sz OR push_bit MESSAGE_TYPE_SHIFT (ucast (type AND 0xff))"
  let ?src = "if source = 0 then ctx_handle x else source"
  obtain p w1 where a: "filter_args (Some c) type session data sz w = Some (sent_session x type session, p, ?sz, w1)"
    "node_ok w1" "same_services w w1" "carried w type data sz p (w_heap w1)"
    using filter_args_spec [OF assms(1-3)] by blast
  have szok: "sz AND MESSAGE_TYPE_MASK = sz" using assms(3) by (simp add: sendable_def)
  have same: "grab_of w1 destination = grab_of w destination" "queue_of w1 = queue_of w" "w_mq w1 = w_mq w"
    using a(3) by (simp_all add: same_services_def)
  have local: "skynet_harbor_message_isremote destination w1 = Some False"
    using assms(5) a(3) by (simp add: is_local_def same_services_def skynet_harbor_message_isremote_def)
  have "map_option (ctx_session_id_update (\<lambda>_. 0)) (w_ctxs w1 c) = Some (x\<lparr>ctx_session_id := 0\<rparr>)"
    using a(3) assms(2) by (simp add: same_services_def)
  then obtain x1 where x1: "w_ctxs w1 c = Some x1" "x1\<lparr>ctx_session_id := 0\<rparr> = x\<lparr>ctx_session_id := 0\<rparr>" by blast
  then have "ctx_handle x1 = ctx_handle x" by (metis skynet_context.select_convs(10) skynet_context.surjective skynet_context.update_convs(11))
  then have src: "(if source = 0 then skynet_context_handle (Some c) w1 else Some source) = Some ?src"
    using x1(1) by (simp add: skynet_context_handle_def)
  define m where "m = \<lparr>msg_source = ?src, msg_session = sent_session x type session, msg_data = p, msg_sz = ?sz\<rparr>"
  have send: "skynet_send sv (Some c) source destination type session data sz w = do {
      (r, w2) \<leftarrow> skynet_context_push sv destination m w1;
      if r \<noteq> 0 then do { w3 \<leftarrow> skynet_free p w2; Some (- 1, w3) } else Some (sent_session x type session, w2) }"
    using szok assms(4) by (simp add: skynet_send_def a(1) src local m_def)
  show ?thesis
  proof (cases "grab_of w destination")
    case None
    then have push: "skynet_context_push sv destination m w1 = Some (- 1, w1)"
      using context_push_spec [OF a(2), of sv destination m] same(1) by simp
    have "p = 0 \<or> w_heap w1 p \<noteq> None"
      using a(4) assms(3) by (auto simp: carried_def sendable_def split: if_splits)
    from free_ok [OF a(2) this] obtain w2 where w2: "skynet_free p w1 = Some w2" "node_ok w2"
      "w_heap w2 = (w_heap w1)(p := None)" "w_mq w2 = w_mq w1" by blast
    have "w_heap w2 = (if type AND PTYPE_TAG_DONTCOPY \<noteq> 0 then (w_heap w)(data := None) else w_heap w)"
      using w2(3) a(4) node_okD(6) [OF assms(1)] by (auto simp: carried_def fun_upd_idem split: if_splits)
    with None send push w2 same(3) show ?thesis by simp
  next
    case (Some d)
    then obtain w2 where w2: "skynet_context_push sv destination m w1 = Some (0, w2)" "node_ok w2"
      "delivered w1 (queue_of w d) m w2"
      using context_push_spec [OF a(2), of sv destination m] same(1,2) by auto
    have "w_heap w2 = w_heap w1" using w2(3) unfolding delivered_def by (metis world.ext_inject world.surjective world.update_convs(1))
    then have "carried w type data sz (msg_data m) (w_heap w2)" using a(4) by (simp add: m_def)
    moreover have "drop_bit MESSAGE_TYPE_SHIFT (msg_sz m) = ucast (type AND 0xff)" "msg_sz m AND MESSAGE_TYPE_MASK = sz"
      using encode_sz [OF szok type_byte] by (simp_all add: m_def)
    moreover have "contents (w_mq w2) = (contents (w_mq w))(queue_of w d := contents (w_mq w) (queue_of w d) @ [m])"
      using w2(3) same(3) by (simp add: delivered_def)
    moreover have "skynet_send sv (Some c) source destination type session data sz w = Some (sent_session x type session, w2)"
      using send w2(1) by simp
    ultimately show ?thesis using Some w2(2) by (auto simp: m_def)
  qed
qed

subsection \<open>Properties of sending\<close>

lemma int_unat_31: "int (unat (w :: u32)) < 2 ^ 31 \<longleftrightarrow> unat w < 2 ^ 31"
proof -
  have p: "(2 :: int) ^ 31 = int (2 ^ 31)" by simp
  show ?thesis unfolding p by (simp only: of_nat_less_iff)
qed

lemma sint32_small:
  assumes "unat (w :: u32) < 2 ^ 31"
  shows "sint w = int (unat w)"
proof -
  have u: "uint w = int (unat w)" by simp
  have "int (unat w) < 2 ^ 31" using assms by (simp only: int_unat_31)
  then have "uint w < 2 ^ 31" unfolding u .
  moreover have "- (2 ^ 31) \<le> (0 :: int)" "0 \<le> uint w" by simp_all
  then have "- (2 ^ 31) \<le> uint w" by (rule order_trans)
  ultimately have "- (2 ^ 31) \<le> uint w" "uint w < 2 ^ 31" by simp_all
  then have "signed_take_bit 31 (uint w) = uint w" by (rule signed_take_bit_int_eq_self)
  then show ?thesis by (simp add: sint_uint)
qed

lemma sint32_nonneg:
  assumes "0 \<le> sint (w :: u32)"
  shows "unat w < 2 ^ 31" "sint w = int (unat w)"
proof -
  have lt: "sint w < 2 ^ 31" using sint_lt [of w] by simp
  have "uint w = take_bit 32 (sint w)" using uint_sint [of w] by simp
  also have "\<dots> = sint w" using assms lt by (intro take_bit_int_eq_self) simp_all
  finally have u: "uint w = sint w" .
  then show eq: "sint w = int (unat w)" by simp
  show "unat w < 2 ^ 31" using lt unfolding eq by (simp only: int_unat_31)
qed

lemma next_session_pos: "0 < sint (next_session v)"
  by (simp add: next_session_def not_le)

lemma next_session_unat:
  assumes "0 \<le> sint v"
  shows "unat (next_session v) = unat v mod (2 ^ 31 - 1) + 1"
proof (cases "unat v = 2 ^ 31 - 1")
  case True
  then have "v = word_of_nat (2 ^ 31 - 1)" by (simp add: word_unat_eq_iff)
  then show ?thesis by (simp add: next_session_def)
next
  case False
  then have lt: "unat v + 1 < 2 ^ 31" using sint32_nonneg(1) [OF assms] by simp
  then have u: "unat (v + 1) = unat v + 1" by (subst unat_add_lem [THEN iffD1]) simp_all
  then have "sint (v + 1) = int (unat v + 1)" using sint32_small [of "v + 1"] lt by simp
  then have "0 < sint (v + 1)" by linarith
  then have "next_session v = v + 1" by (simp add: next_session_def)
  with u lt show ?thesis by simp
qed

text \<open>
  C13. A message to a live service of the same node arrives: \<open>skynet_send\<close> returns the session (a
  new one when it was asked for), the mailbox of the destination has exactly one message more, at its end,
  and no other mailbox changes; the message names the sender, and its type and
  size are read back from the packed word; its data is a copy of the sender's bytes in a block of
  its own, or, when the sender gives the block away, that block.
\<close>

theorem send_delivers:
  assumes "node_ok w" "w_ctxs w c = Some x" "sendable w type session data sz"
    and "destination \<noteq> 0" "is_local w destination" "grab_of w destination = Some d"
  shows "\<exists>w' m. skynet_send sv (Some c) source destination type session data sz w =
      Some (sent_session x type session, w') \<and> node_ok w' \<and>
    contents (w_mq w') = (contents (w_mq w))(queue_of w d := contents (w_mq w) (queue_of w d) @ [m]) \<and>
    msg_source m = (if source = 0 then ctx_handle x else source) \<and>
    msg_session m = sent_session x type session \<and>
    drop_bit MESSAGE_TYPE_SHIFT (msg_sz m) = ucast (type AND 0xff) \<and> msg_sz m AND MESSAGE_TYPE_MASK = sz \<and>
    carried w type data sz (msg_data m) (w_heap w')"
  using send_local [OF assms(1-5), of sv source] assms(6) by auto

text \<open>
  A message to a handle that names nobody is an error, \<open>- 1\<close>, and the data belongs to
  \<open>skynet_send\<close>: afterwards the heap is the old one without the block that was given away, and the copy
  made for a sender that keeps its block is freed again. No mailbox changes.
\<close>

theorem send_failed_frees:
  assumes "node_ok w" "w_ctxs w c = Some x" "sendable w type session data sz"
    and "destination \<noteq> 0" "is_local w destination" "grab_of w destination = None"
  shows "\<exists>w'. skynet_send sv (Some c) source destination type session data sz w = Some (- 1, w') \<and> node_ok w' \<and>
    w_mq w' = w_mq w \<and>
    w_heap w' = (if type AND PTYPE_TAG_DONTCOPY \<noteq> 0 then (w_heap w)(data := None) else w_heap w)"
  using send_local [OF assms(1-5), of sv source] assms(6) by auto

text \<open>
  Sessions are positive C integers and do not repeat before all \<open>2 ^ 31 - 1\<close> of them
  were used: each is the successor of the last one in a cycle of that length.
\<close>

theorem newsession_cycle:
  assumes "w_ctxs w c = Some x" "0 \<le> sint (ctx_session_id x)"
  shows "\<exists>s w'. skynet_context_newsession c w = Some (s, w') \<and> 0 < sint s \<and>
    unat s = unat (ctx_session_id x) mod (2 ^ 31 - 1) + 1 \<and>
    w_ctxs w' = (w_ctxs w)(c \<mapsto> x\<lparr>ctx_session_id := s\<rparr>)"
  using newsession_eq [OF assms(1)] next_session_pos next_session_unat [OF assms(2)] by auto

subsection \<open>Throwing a mailbox away\<close>

definition error_message :: "u32 \<Rightarrow> skynet_message" where
  "error_message handle = \<lparr>msg_source = handle, msg_session = 0, msg_data = 0,
     msg_sz = 0 OR push_bit MESSAGE_TYPE_SHIFT PTYPE_ERROR\<rparr>"

text \<open>The mailbox of the sender of a message, if it has one on this node.\<close>

definition sender_queue :: "world \<Rightarrow> skynet_message \<Rightarrow> qid option" where
  "sender_queue w m = (if msg_source m = 0 then None else map_option (queue_of w) (grab_of w (msg_source m)))"

definition droppable :: "world \<Rightarrow> skynet_message \<Rightarrow> bool" where
  "droppable w m \<longleftrightarrow> (msg_source m = 0 \<or> is_local w (msg_source m)) \<and>
     (msg_data m = 0 \<or> w_heap w (msg_data m) \<noteq> None)"

text \<open>Everything but the mailboxes and the heap.\<close>

definition frame :: "world \<Rightarrow> world \<Rightarrow> bool" where
  "frame w w' \<longleftrightarrow> w_handles w' = w_handles w \<and> w_ctxs w' = w_ctxs w \<and> w_ctx_fresh w' = w_ctx_fresh w \<and>
     w_fresh w' = w_fresh w \<and> w_node w' = w_node w \<and> w_timer w' = w_timer w \<and> w_env w' = w_env w \<and>
     w_mods w' = w_mods w \<and> w_remote w' = w_remote w \<and> w_harbor w' = w_harbor w \<and> w_logger w' = w_logger w \<and>
     w_current w' = w_current w \<and> w_files w' = w_files w"

lemma frame_simps:
  assumes "frame w w'"
  shows "grab_of w' h = grab_of w h" "queue_of w' = queue_of w" "is_local w' h = is_local w h"
    "sender_queue w' m = sender_queue w m"
  using assms by (simp_all add: frame_def hc_def [abs_def] queue_of_def [abs_def] is_local_def
      skynet_harbor_message_isremote_def sender_queue_def)

lemma frame_refl: "frame w w" by (simp add: frame_def)

lemma frame_trans: "frame w w1 \<Longrightarrow> frame w1 w2 \<Longrightarrow> frame w w2"
  by (simp add: frame_def)

lemma free_spec:
  assumes "node_ok w" "p = 0 \<or> w_heap w p \<noteq> None"
  shows "\<exists>w1. skynet_free p w = Some w1 \<and> node_ok w1 \<and> w_heap w1 = (w_heap w)(p := None) \<and> w_mq w1 = w_mq w \<and>
    frame w w1"
proof -
  obtain w1 where w1: "skynet_free p w = Some w1" "node_ok w1" "w_heap w1 = (w_heap w)(p := None)"
    "w_mq w1 = w_mq w"
    using free_ok [OF assms] by blast
  moreover have "frame w w1"
    using w1(1) by (auto simp: skynet_free_def frame_def split: if_splits option.splits)
  ultimately show ?thesis by blast
qed

lemma delivered_frame: "delivered w q m w' \<Longrightarrow> frame w w' \<and> w_heap w' = w_heap w"
proof -
  assume "delivered w q m w'"
  then obtain s where "w' = w\<lparr>w_mq := s\<rparr>" unfolding delivered_def by blast
  then show ?thesis by (simp add: frame_def)
qed

text \<open>One message: its data is freed and its sender hears of it.\<close>

lemma drop_message_spec:
  assumes "node_ok w" "handle \<noteq> 0" "droppable w m"
  shows "\<exists>w'. drop_message sv handle m w = Some w' \<and> node_ok w' \<and> frame w w' \<and>
    w_heap w' = (w_heap w)(msg_data m := None) \<and> mq_meta (w_mq w') = mq_meta (w_mq w) \<and>
    contents (w_mq w') = (case sender_queue w m of None \<Rightarrow> contents (w_mq w)
      | Some q \<Rightarrow> (contents (w_mq w))(q := contents (w_mq w) q @ [error_message handle])) \<and>
    (\<forall>p. sender_queue w m \<noteq> Some p \<longrightarrow> linked (w_mq w') p = linked (w_mq w) p)"
proof -
  obtain w1 where w1: "skynet_free (msg_data m) w = Some w1" "node_ok w1"
    "w_heap w1 = (w_heap w)(msg_data m := None)" "w_mq w1 = w_mq w" "frame w w1"
    using free_spec [OF assms(1)] assms(3) by (auto simp: droppable_def)
  have type: "ucast PTYPE_ERROR AND PTYPE_TAG_ALLOCSESSION = (0 :: u32)"
    "ucast ((ucast PTYPE_ERROR AND 0xff) :: u32) = PTYPE_ERROR"
    by (simp_all add: PTYPE_ERROR_def PTYPE_TAG_ALLOCSESSION_def)
  have send: "skynet_send sv None handle (msg_source m) (ucast PTYPE_ERROR) 0 0 0 w1 =
      (if msg_source m = 0 then Some (0, w1) else do {
        remote \<leftarrow> skynet_harbor_message_isremote (msg_source m) w1;
        if remote then do {
          let (rmsg, w2) = skynet_malloc (Remote \<lparr>rm_name = [], rm_handle = msg_source m, rm_message = 0,
            rm_sz = (0 OR push_bit MESSAGE_TYPE_SHIFT PTYPE_ERROR) AND MESSAGE_TYPE_MASK,
            rm_type = ucast (drop_bit MESSAGE_TYPE_SHIFT (0 OR push_bit MESSAGE_TYPE_SHIFT PTYPE_ERROR))\<rparr>) w1;
          w3 \<leftarrow> skynet_harbor_send rmsg handle 0 w2;
          Some (0, w3) }
        else do {
          (r, w2) \<leftarrow> skynet_context_push sv (msg_source m) (error_message handle) w1;
          if r \<noteq> 0 then do { w3 \<leftarrow> skynet_free 0 w2; Some (- 1, w3) } else Some (0, w2) } })"
    using assms(2) type by (simp add: skynet_send_def filter_args_def error_message_def cong: if_cong)
  show ?thesis
  proof (cases "msg_source m = 0")
    case True
    then show ?thesis
      using w1 send assms(2) by (simp add: drop_message_def sender_queue_def)
  next
    case False
    then have local: "skynet_harbor_message_isremote (msg_source m) w1 = Some False"
      using assms(3) frame_simps(3) [OF w1(5)] by (auto simp: droppable_def is_local_def)
    show ?thesis
    proof (cases "grab_of w (msg_source m)")
      case None
      then have "skynet_context_push sv (msg_source m) (error_message handle) w1 = Some (- 1, w1)"
        using context_push_spec [OF w1(2), of sv "msg_source m" "error_message handle"] frame_simps(1) [OF w1(5)]
        by simp
      with None False local w1 send assms(2) show ?thesis
        by (simp add: drop_message_def sender_queue_def skynet_free_def)
    next
      case (Some d)
      then obtain w2 where w2: "skynet_context_push sv (msg_source m) (error_message handle) w1 = Some (0, w2)"
        "node_ok w2" "delivered w1 (queue_of w d) (error_message handle) w2"
        using context_push_spec [OF w1(2), of sv "msg_source m" "error_message handle"] frame_simps(1,2) [OF w1(5)]
        by auto
      have "drop_message sv handle m w = Some w2"
        using False local w1(1) send assms(2) w2(1) by (simp add: drop_message_def)
      moreover have "frame w w2" "w_heap w2 = w_heap w1"
        using delivered_frame [OF w2(3)] frame_trans [OF w1(5)] by blast+
      ultimately show ?thesis
        using w1(3,4) w2(2,3) Some False by (auto simp: sender_queue_def delivered_def)
    qed
  qed
qed

lemma mq_pop_world:
  assumes "node_ok w" "mqs (w_mq w) q = Some m" "mq_rep m (x # xs)"
  shows "\<exists>m' s. skynet_mq_pop q (w_mq w) = Some (Some x, s) \<and> node_ok (set_mq s w) \<and>
    mqs s q = Some m' \<and> mq_rep m' xs \<and> mq_meta s = mq_meta (w_mq w) \<and>
    (\<forall>p. p \<noteq> q \<longrightarrow> contents s p = contents (w_mq w) p) \<and> linked s = linked (w_mq w)"
proof -
  obtain m' where m': "mq_pop1 m = Some (Some x, m')" "mq_rep m' xs" "mq_in_global m' = mq_in_global m"
    "mq_next m' = mq_next m" "mq_handle m' = mq_handle m" "mq_release m' = mq_release m"
    using mq_pop1_cons [OF assms(3)] by blast
  define s where "s = (w_mq w)\<lparr>mqs := (mqs (w_mq w))(q \<mapsto> m')\<rparr>"
  obtain qs where qs: "gq_rep (w_mq w) qs" "\<And>q m. mqs (w_mq w) q = Some m \<Longrightarrow> (\<exists>xs. mq_rep m xs) \<and>
      (q \<notin> set qs \<longrightarrow> mq_next m = None) \<and> (q \<in> set qs \<longrightarrow> mq_in_global m \<or> mq_release m)"
    using node_okD(4) [OF assms(1)] by (auto simp: mailboxes_ok_def)
  have glob: "q \<in> set qs \<Longrightarrow> mq_in_global m' \<or> mq_release m'" using qs(2) [OF assms(2)] m'(3,6) by simp
  have t: "gq_rep s qs" unfolding s_def by (rule gq_rep_upd [OF qs(1) assms(2) m'(4)])
  have "mailboxes_ok s"
    unfolding mailboxes_ok_def
  proof (rule exI [of _ qs], rule conjI, rule t, intro allI impI)
    fix p x
    assume "mqs s p = Some x"
    then have "(p = q \<and> x = m') \<or> mqs (w_mq w) p = Some x" by (auto simp: s_def split: if_splits)
    then show "(\<exists>xs. mq_rep x xs) \<and> (p \<notin> set qs \<longrightarrow> mq_next x = None) \<and>
        (p \<in> set qs \<longrightarrow> mq_in_global x \<or> mq_release x)"
    proof
      assume "p = q \<and> x = m'"
      with qs(2) [OF assms(2)] m'(2,4) glob show ?thesis by metis
    qed (rule qs(2))
  qed
  have meta: "mq_meta s = mq_meta (w_mq w)" using assms(2) m'(5,6) by (auto simp: mq_meta_def s_def)
  have "linked s = linked (w_mq w)"
    using linked_iff [OF t] linked_iff [OF qs(1)] by (auto simp: fun_eq_iff)
  then show ?thesis
    using set_mq_ok [OF assms(1) \<open>mailboxes_ok s\<close> meta] meta assms(2) m'(1,2)
    by (auto simp: skynet_mq_pop_def s_def contents_def)
qed

lemma mq_pop_empty_world:
  assumes "node_ok w" "mqs (w_mq w) q = Some m" "mq_rep m []" "mq_release m"
  shows "\<exists>m' s. skynet_mq_pop q (w_mq w) = Some (None, s) \<and> node_ok (set_mq s w) \<and> mqs s q = Some m' \<and>
    mq_release m' \<and> mq_meta s = mq_meta (w_mq w) \<and>
    (\<forall>p. p \<noteq> q \<longrightarrow> contents s p = contents (w_mq w) p) \<and> linked s = linked (w_mq w)"
proof -
  define m' where "m' = m\<lparr>mq_overload_threshold := MQ_OVERLOAD, mq_in_global := False\<rparr>"
  define s where "s = (w_mq w)\<lparr>mqs := (mqs (w_mq w))(q \<mapsto> m')\<rparr>"
  have m': "mq_rep m' []" "mq_next m' = mq_next m" "mq_release m'" "mq_handle m' = mq_handle m"
    using mq_pop1_nil(2) [OF assms(3)] assms(4) by (simp_all add: m'_def)
  obtain qs where qs: "gq_rep (w_mq w) qs" "\<And>q m. mqs (w_mq w) q = Some m \<Longrightarrow> (\<exists>xs. mq_rep m xs) \<and>
      (q \<notin> set qs \<longrightarrow> mq_next m = None) \<and> (q \<in> set qs \<longrightarrow> mq_in_global m \<or> mq_release m)"
    using node_okD(4) [OF assms(1)] by (auto simp: mailboxes_ok_def)
  have t: "gq_rep s qs" unfolding s_def by (rule gq_rep_upd [OF qs(1) assms(2) m'(2)])
  have ok: "mailboxes_ok s"
    unfolding mailboxes_ok_def
  proof (rule exI [of _ qs], rule conjI, rule t, intro allI impI)
    fix p x
    assume "mqs s p = Some x"
    then have "(p = q \<and> x = m') \<or> mqs (w_mq w) p = Some x" by (auto simp: s_def split: if_splits)
    then show "(\<exists>xs. mq_rep x xs) \<and> (p \<notin> set qs \<longrightarrow> mq_next x = None) \<and>
        (p \<in> set qs \<longrightarrow> mq_in_global x \<or> mq_release x)"
    proof
      assume "p = q \<and> x = m'"
      with qs(2) [OF assms(2)] m'(1-3) show ?thesis by metis
    qed (rule qs(2))
  qed
  have meta: "mq_meta s = mq_meta (w_mq w)" using assms(2,4) m'(3,4) by (auto simp: mq_meta_def s_def)
  have "linked s = linked (w_mq w)"
    using linked_iff [OF t] linked_iff [OF qs(1)] by (auto simp: fun_eq_iff)
  then show ?thesis
    using set_mq_ok [OF assms(1) ok meta] meta assms(2) mq_pop1_nil(1) [OF assms(3)] m'(3)
    by (auto simp: skynet_mq_pop_def s_def contents_def m'_def)
qed

lemma set_mq_frame [simp]: "frame w (set_mq s w)" "w_heap (set_mq s w) = w_heap w" "w_mq (set_mq s w) = s"
  by (simp_all add: frame_def set_mq_def)

text \<open>A mailbox that is marked belongs to no context, so no sender's mailbox is the one thrown away.\<close>

lemma sender_queue_live:
  assumes "node_ok w" "sender_queue w m = Some p"
  shows "\<exists>h. mq_meta (w_mq w) p = Some (h, False)"
proof -
  obtain d where d: "grab_of w (msg_source m) = Some d" "p = queue_of w d"
    using assms(2) by (auto simp: sender_queue_def split: if_splits)
  then obtain x where x: "w_ctxs w d = Some x" using grab_live [OF assms(1)] by blast
  with node_okD(5) [OF assms(1) x] d(2) show ?thesis by (simp add: queue_of_def)
qed

definition distinct_data :: "skynet_message list \<Rightarrow> bool" where
  "distinct_data xs \<longleftrightarrow> distinct (filter (\<lambda>p. p \<noteq> 0) (map msg_data xs))"

definition freed :: "skynet_message list \<Rightarrow> (ptr \<Rightarrow> block option) \<Rightarrow> ptr \<Rightarrow> block option" where
  "freed xs heap p = (if p \<in> msg_data ` set xs then None else heap p)"

lemma droppable_step:
  assumes "frame w w'" "w_heap w' = (w_heap w)(msg_data x := None)" "distinct_data (x # xs)"
    "y \<in> set xs" "droppable w y" "w_heap w 0 = None"
  shows "droppable w' y"
proof -
  have "msg_data y \<noteq> msg_data x" if nz: "msg_data y \<noteq> 0"
  proof
    assume eq: "msg_data y = msg_data x"
    then have "msg_data x \<in> msg_data ` set xs" using assms(4) by (metis imageI)
    with assms(3) nz eq show False by (simp add: distinct_data_def)
  qed
  then have "msg_data y = 0 \<or> w_heap w' (msg_data y) \<noteq> None"
    using assms(2,5) unfolding droppable_def by (metis fun_upd_other)
  with assms(5) frame_simps(3) [OF assms(1)] show ?thesis by (simp add: droppable_def)
qed

lemma drain_spec:
  assumes "handle \<noteq> 0"
  shows "node_ok w \<Longrightarrow> mqs (w_mq w) q = Some m \<Longrightarrow> mq_rep m xs \<Longrightarrow> mq_release m \<Longrightarrow>
    \<forall>x \<in> set xs. droppable w x \<Longrightarrow> distinct_data xs \<Longrightarrow>
    \<exists>w' m'. drain_queue w_mq set_mq (drop_message sv handle) q w = Some w' \<and> node_ok w' \<and> frame w w' \<and>
      mqs (w_mq w') q = Some m' \<and> mq_release m' \<and> linked (w_mq w') q = linked (w_mq w) q \<and>
      w_heap w' = freed xs (w_heap w) \<and>
      (\<forall>p. p \<noteq> q \<longrightarrow> contents (w_mq w') p = contents (w_mq w) p @
        map (\<lambda>_. error_message handle) (filter (\<lambda>x. sender_queue w x = Some p) xs))"
proof (induction xs arbitrary: w m)
  case Nil
  obtain m' s where s: "skynet_mq_pop q (w_mq w) = Some (None, s)" "node_ok (set_mq s w)" "mqs s q = Some m'"
    "mq_release m'" "\<forall>p. p \<noteq> q \<longrightarrow> contents s p = contents (w_mq w) p" "linked s = linked (w_mq w)"
    using mq_pop_empty_world [OF Nil(1-4)] by blast
  then show ?case
    by (subst drain_queue.simps) (auto simp: freed_def [abs_def])
next
  case (Cons x xs)
  obtain m1 s where s: "skynet_mq_pop q (w_mq w) = Some (Some x, s)" "node_ok (set_mq s w)" "mqs s q = Some m1"
    "mq_rep m1 xs" "mq_meta s = mq_meta (w_mq w)" "\<forall>p. p \<noteq> q \<longrightarrow> contents s p = contents (w_mq w) p"
    "linked s = linked (w_mq w)"
    using mq_pop_world [OF Cons.prems(1-3)] by blast
  let ?w1 = "set_mq s w"
  have fr1: "frame w ?w1" by simp
  have rel: "mq_meta (w_mq w) q = Some (mq_handle m, True)" using Cons.prems(2,4) by (simp add: mq_meta_def)
  have "droppable ?w1 x" using Cons.prems(5) frame_simps(3) [OF fr1] by (simp add: droppable_def)
  then obtain w2 where w2: "drop_message sv handle x ?w1 = Some w2" "node_ok w2" "frame ?w1 w2"
    "w_heap w2 = (w_heap ?w1)(msg_data x := None)" "mq_meta (w_mq w2) = mq_meta (w_mq ?w1)"
    "contents (w_mq w2) = (case sender_queue ?w1 x of None \<Rightarrow> contents (w_mq ?w1)
      | Some q \<Rightarrow> (contents (w_mq ?w1))(q := contents (w_mq ?w1) q @ [error_message handle]))"
    "\<forall>p. sender_queue ?w1 x \<noteq> Some p \<longrightarrow> linked (w_mq w2) p = linked (w_mq ?w1) p"
    using drop_message_spec [OF s(2) assms] by blast
  have fr: "frame w w2" using frame_trans [OF fr1 w2(3)] .
  have sq: "sender_queue w2 y = sender_queue w y" "sender_queue ?w1 y = sender_queue w y" for y
    using frame_simps(4) [OF fr] frame_simps(4) [OF fr1] by simp_all
  have notq: "sender_queue w y \<noteq> Some q" for y
    using sender_queue_live [OF Cons.prems(1), of y q] rel by auto
  have meta2: "mq_meta (w_mq w2) q = Some (mq_handle m, True)" using w2(5) s(5) rel by simp
  then obtain m2 where m2: "mqs (w_mq w2) q = Some m2" "mq_release m2" by (auto simp: mq_meta_def)
  have cq: "contents (w_mq w2) q = xs"
    using w2(6) sq(2) notq [of x] contents_rep [OF s(3,4)] by (auto split: option.splits)
  obtain ys where ys: "mq_rep m2 ys"
    using node_okD(4) [OF w2(2)] m2(1) unfolding mailboxes_ok_def by blast
  then have rep2: "mq_rep m2 xs" using contents_rep [OF m2(1) ys] cq by simp
  have d2: "\<forall>y \<in> set xs. droppable w2 y"
  proof
    fix y assume y: "y \<in> set xs"
    have "w_heap w2 = (w_heap w)(msg_data x := None)" using w2(4) by simp
    from droppable_step [OF fr this Cons.prems(6) y] show "droppable w2 y"
      using Cons.prems(5) y node_okD(6) [OF Cons.prems(1)] by simp
  qed
  have dd: "distinct_data xs" using Cons.prems(6) by (auto simp: distinct_data_def split: if_splits)
  obtain w' m' where w': "drain_queue w_mq set_mq (drop_message sv handle) q w2 = Some w'" "node_ok w'"
    "frame w2 w'" "mqs (w_mq w') q = Some m'" "mq_release m'" "linked (w_mq w') q = linked (w_mq w2) q"
    "w_heap w' = freed xs (w_heap w2)"
    "\<forall>p. p \<noteq> q \<longrightarrow> contents (w_mq w') p = contents (w_mq w2) p @
        map (\<lambda>_. error_message handle) (filter (\<lambda>x. sender_queue w2 x = Some p) xs)"
    using Cons.IH [OF w2(2) m2(1) rep2 m2(2) d2 dd] by blast
  have "drain_queue w_mq set_mq (drop_message sv handle) q w = Some w'"
    using s(1) w2(1) w'(1) by (subst drain_queue.simps) simp
  moreover have "linked (w_mq w') q = linked (w_mq w) q"
    using w'(6) w2(7) sq(2) notq s(7) by simp
  moreover have "w_heap w' = freed (x # xs) (w_heap w)"
    using w'(7) w2(4) by (auto simp: freed_def [abs_def] fun_eq_iff)
  moreover have "contents (w_mq w') p = contents (w_mq w) p @
        map (\<lambda>_. error_message handle) (filter (\<lambda>x. sender_queue w x = Some p) (x # xs))" if "p \<noteq> q" for p
    using w'(8) that w2(6) s(6) sq by (auto split: option.splits)
  ultimately show ?case using w'(2,4,5) frame_trans [OF fr w'(3)] by blast
qed


subsection \<open>A small node\<close>

text \<open>
  A node with one service, created by the operations themselves: the registry, one mailbox and
  one block that the service owns.
\<close>

definition no_services :: services where
  "no_services = \<lparr>sv_create = \<lambda>f w. Some (1, w), sv_init = \<lambda>f i c p w. Some (0, w), sv_release = \<lambda>f i w. Some w,
     sv_signal = \<lambda>f i s w. Some w, sv_cb = \<lambda>f c ud t s src d sz w. Some (0, w), sv_dlopen = \<lambda>f. 1,
     sv_dlsym = \<lambda>m s. 1, sv_fopen = \<lambda>f. 0, sv_ctime = \<lambda>t. [], sv_thread_time = \<lambda>w. 0, sv_seconds = \<lambda>t. []\<rparr>"

definition demo_ctx :: skynet_context where
  "demo_ctx = (new_context \<lparr>mod_name = ''snlua'', mod_module = 1, mod_create = 0, mod_init = 1, mod_release = 0,
     mod_signal = 0\<rparr> 5 False)\<lparr>ctx_handle := 0x01000001, ctx_queue := 1, ctx_ref := 1, ctx_init := True\<rparr>"

definition demo_world :: world where
  "demo_world = \<lparr>w_mq = snd (skynet_mq_create 0x01000001 skynet_mq_init),
     w_handles = (skynet_handle_init 1)\<lparr>slot := [None, Some 1, None, None], handle_index := 2\<rparr>,
     w_ctxs = [1 \<mapsto> demo_ctx], w_ctx_fresh = 2, w_heap = [1 \<mapsto> Bytes ''hi''], w_fresh = 2,
     w_node = \<lparr>nd_total = 1, nd_monitor_exit = 0, nd_profile = False\<rparr>, w_timer = skynet_timer_init 0 0 0,
     w_env = Map.empty, w_mods = skynet_module_init ''./cservice/?.so'', w_remote = None,
     w_harbor = 0x01000000, w_logger = 0, w_current = 0, w_files = Map.empty\<rparr>"

lemma demo_slots: "slots_ok (hc demo_world) (w_handles demo_world)"
proof -
  have k: "\<exists>k. (4::nat) = 2 ^ k \<and> 2 \<le> k \<and> k \<le> 24" by (rule exI [of _ 2]) simp
  have c: "c = 1 \<and> i = 1" if "i < 4" "[None, Some 1, None, None] ! i = Some c" for i and c :: ctx
    using that by (auto simp: less_Suc_eq numeral_eq_Suc)
  have d: "slot_size (w_handles demo_world) = 4" "slot (w_handles demo_world) = [None, Some 1, None, None]"
    "h_harbor (w_handles demo_world) = 0x01000000" "handle_index (w_handles demo_world) = 2"
    by (simp_all add: demo_world_def skynet_handle_init_def HANDLE_REMOTE_SHIFT_def)
  have "hash_slot 0x01000001 4 = 1" by (simp add: hash_slot_def)
  moreover have "\<exists>l. (0x01000001 :: u32) = l OR 0x01000000 \<and> 1 \<le> unat l \<and> unat l < 2 ^ 24"
    by (rule exI [of _ 1]) simp
  ultimately have one: "\<forall>i < 4. \<forall>c. [None, Some (1 :: ctx), None, None] ! i = Some c \<longrightarrow>
      hash_slot (hc demo_world c) 4 = i \<and>
      (\<exists>l. hc demo_world c = l OR 0x01000000 \<and> 1 \<le> unat l \<and> unat l < 2 ^ 24)"
    using c by (fastforce simp: hc_def demo_world_def demo_ctx_def)
  have "low 24 0x01000000 = 0" "1 \<le> unat (2 :: u32)" "unat (2 :: u32) \<le> 2 ^ 24" by (simp_all add: low_def)
  then show ?thesis unfolding slots_ok_def d(1) unfolding d(2-4) using k one by - (intro conjI, assumption+)
qed

lemma demo_ok: "node_ok demo_world"
proof -
  have "mailboxes_ok (w_mq demo_world)"
    unfolding mailboxes_ok_def
    by (rule exI [of _ "[]"])
      (auto simp: demo_world_def skynet_mq_create_def skynet_mq_init_def gq_rep_def mq_rep_new
        intro!: exI [of _ "[]"], simp add: new_queue_def)
  moreover have "names_rep (w_handles demo_world) []"
    by (simp add: names_rep_def arr_rep_def demo_world_def skynet_handle_init_def)
  ultimately show ?thesis
    using demo_slots unfolding node_ok_def
    by (auto simp: demo_world_def demo_ctx_def mq_meta_def skynet_mq_create_def skynet_mq_init_def new_queue_def
        skynet_handle_init_def)
qed

lemma demo_grab: "grab_of demo_world 0x01000001 = Some 1" "grab_of demo_world 0x01000002 = None"
  by (simp_all add: skynet_handle_grab_def hash_slot_def demo_world_def hc_def demo_ctx_def arr_get_def)

lemma demo_local: "is_local demo_world 0x01000001" "is_local demo_world 0x01000002"
  by (simp_all add: is_local_def skynet_harbor_message_isremote_def demo_world_def HANDLE_MASK_def)

lemma demo_live: "w_ctxs demo_world 1 = Some demo_ctx" "queue_of demo_world 1 = 1" "contents (w_mq demo_world) 1 = []"
  by (simp_all add: demo_world_def queue_of_def demo_ctx_def contents_def skynet_mq_create_def skynet_mq_init_def
      new_queue_def mq_abs_def mq_len_def ring_len_def)

lemma demo_sendable: "sendable demo_world (0x10000 OR 9) 0 1 2" "sendable demo_world (0x20000 OR 9) 0 1 2"
  by (simp_all add: sendable_def demo_world_def MESSAGE_TYPE_MASK_def PTYPE_TAG_ALLOCSESSION_def
      PTYPE_TAG_DONTCOPY_def mem_read_def)

theorem send_delivers_witness:
  "\<exists>w' m. skynet_send no_services (Some 1) 0 0x01000001 (0x20000 OR 9) 0 1 2 demo_world = Some (1, w') \<and>
    contents (w_mq w') 1 = [m] \<and> msg_source m = 0x01000001 \<and>
    w_heap w' (msg_data m) = Some (Bytes (''hi'' @ [NUL]))"
proof -
  have s: "sent_session demo_ctx (0x20000 OR 9) 0 = 1"
    by (simp add: sent_session_def PTYPE_TAG_ALLOCSESSION_def demo_ctx_def new_context_def next_session_def)
  show ?thesis
    using send_delivers [OF demo_ok demo_live(1) demo_sendable(2) _ demo_local(1) demo_grab(1), of no_services 0]
      demo_live(2,3) s
    by (fastforce simp: carried_def PTYPE_TAG_DONTCOPY_def mem_read_def demo_world_def demo_ctx_def)
qed

theorem send_failed_frees_witness:
  "\<exists>w'. skynet_send no_services (Some 1) 0 0x01000002 (0x10000 OR 9) 0 1 2 demo_world = Some (- 1, w') \<and>
    w_heap w' 1 = None"
  using send_failed_frees [OF demo_ok demo_live(1) demo_sendable(1) _ demo_local(2) demo_grab(2), of no_services 0]
  by (auto simp: PTYPE_TAG_DONTCOPY_def)

theorem newsession_cycle_witness:
  "\<exists>s w'. skynet_context_newsession 1 demo_world = Some (s, w') \<and> unat s = 1"
  using newsession_cycle [OF demo_live(1)] by (auto simp: demo_ctx_def new_context_def)

text \<open>The same node with the mailbox of a dead service, which holds one message of the live one.\<close>

definition dead_msg :: skynet_message where
  "dead_msg = \<lparr>msg_source = 0x01000001, msg_session = 3, msg_data = 1, msg_sz = 2\<rparr>"

definition dead_box :: message_queue where
  "dead_box = (new_queue 0x01000002)\<lparr>mq_release := True,
     mq_queue := (replicate DEFAULT_QUEUE_SIZE None)[0 := Some dead_msg], mq_tail := 1\<rparr>"

definition dead_world :: world where
  "dead_world = demo_world\<lparr>w_mq := (w_mq demo_world)\<lparr>mqs := (mqs (w_mq demo_world))(2 \<mapsto> dead_box), mq_fresh := 3\<rparr>\<rparr>"

lemma dead_rep: "mq_rep dead_box [dead_msg]"
proof -
  have "ring ((replicate 64 None)[0 := Some dead_msg]) 0 1 = [Some dead_msg]"
    by (simp add: ring_def)
  then show ?thesis
    by (simp add: mq_rep_def mq_wf_def mq_abs_def mq_len_def ring_len_def dead_box_def new_queue_def
        DEFAULT_QUEUE_SIZE_def MQ_OVERLOAD_def)
qed

lemma dead_gq: "gq_rep (w_mq dead_world) []"
  by (simp add: gq_rep_def dead_world_def demo_world_def skynet_mq_create_def skynet_mq_init_def)

lemma dead_ok: "node_ok dead_world"
proof -
  have "mailboxes_ok (w_mq dead_world)"
    unfolding mailboxes_ok_def
  proof (rule exI [of _ "[]"], rule conjI, rule dead_gq, intro allI impI)
    fix q m
    assume "mqs (w_mq dead_world) q = Some m"
    then have "m = dead_box \<or> m = new_queue 0x01000001"
      by (auto simp: dead_world_def demo_world_def skynet_mq_create_def skynet_mq_init_def split: if_splits)
    then show "(\<exists>xs. mq_rep m xs) \<and> (q \<notin> set [] \<longrightarrow> mq_next m = None) \<and>
        (q \<in> set [] \<longrightarrow> mq_in_global m \<or> mq_release m)"
    proof
      assume "m = dead_box"
      with dead_rep show ?thesis by (auto simp: dead_box_def new_queue_def)
    next
      assume "m = new_queue 0x01000001"
      with mq_rep_new show ?thesis by (auto simp: new_queue_def)
    qed
  qed
  moreover have "mq_meta (w_mq dead_world) (ctx_queue x) = Some (ctx_handle x, False)"
    if x: "w_ctxs demo_world c = Some x" for c x
  proof -
    have "mq_meta (w_mq demo_world) (ctx_queue x) = Some (ctx_handle x, False)" using node_okD(5) [OF demo_ok x] .
    moreover have "mq_meta (w_mq demo_world) 2 = None"
      by (simp add: mq_meta_def demo_world_def skynet_mq_create_def skynet_mq_init_def)
    ultimately show ?thesis by (auto simp: mq_meta_def dead_world_def)
  qed
  moreover have "hc dead_world = hc demo_world" "w_handles dead_world = w_handles demo_world"
    "w_ctxs dead_world = w_ctxs demo_world" "w_heap dead_world = w_heap demo_world" "w_fresh dead_world = w_fresh demo_world"
    by (simp_all add: hc_def [abs_def] dead_world_def)
  ultimately show ?thesis using node_okD [OF demo_ok] unfolding node_ok_def by metis
qed


end
