(* ===== verification/Service_Props.thy ===== *)
theory Service_Props
  imports Delivery
begin

section \<open>Commands, timeouts and reports\<close>

text \<open>
  What the text commands answer, what a timeout does to the timer, and three places
  where a report about something else goes wrong: the log of a socket event without data reads past the
  end of its block, a text for a logger that is gone is never freed, and the command \<open>NAME\<close>
  with one word reads an uninitialised buffer.
\<close>

subsection \<open>Handles in text form\<close>

lemma digits_of_nth: "digits_of base k n = map (\<lambda>i. n div base ^ (k - 1 - i) mod base) [0..<k]"
proof (induction k arbitrary: n)
  case (Suc k)
  have "n div base div base ^ (k - 1 - i) = n div base ^ (k - i)" if "i < k" for i
  proof -
    have "base * base ^ (k - 1 - i) = base ^ Suc (k - 1 - i)" by simp
    also have "Suc (k - 1 - i) = k - i" using that by simp
    finally show ?thesis by (metis div_mult2_eq)
  qed
  then have "digits_of base k (n div base) = map (\<lambda>i. n div base ^ (k - i) mod base) [0..<k]"
    unfolding Suc.IH by (intro map_cong) simp_all
  then show ?case by simp
qed simp

lemma nibble: "unat (drop_bit k (h :: u32) AND 0xf) = unat h div 2 ^ k mod 16"
proof -
  have m: "(0xf :: u32) = mask 4" by (simp add: mask_eq_exp_minus_1)
  have "unat (drop_bit k h AND mask 4) = unat (drop_bit k h) mod 2 ^ 4"
    by (simp only: unat_take_bit flip: take_bit_eq_mask)
  then show ?thesis by (simp only: m unat_drop_bit) simp
qed

lemma id_to_hex_digits: "id_to_hex h = CHR '':'' # map HEX_char (digits_of 16 8 (unat h))"
proof -
  have "(2 :: nat) ^ ((7 - i) * 4) = 16 ^ (8 - 1 - i)" for i
    using power_mult [of "2 :: nat" 4 "7 - i"] by (simp add: mult.commute)
  then show ?thesis by (simp only: id_to_hex_def nibble digits_of_nth map_map o_def)
qed

lemma HEX_char_plain:
  assumes "d < 16"
  shows "\<not> is_cspace (HEX_char d)" "HEX_char d \<noteq> CHR ''-''" "HEX_char d \<noteq> CHR ''+''"
    "HEX_char d \<noteq> CHR ''x''" "HEX_char d \<noteq> CHR ''X''"
proof -
  have "list_all (\<lambda>d. \<not> is_cspace (HEX_char d) \<and> HEX_char d \<noteq> CHR ''-'' \<and> HEX_char d \<noteq> CHR ''+'' \<and>
      HEX_char d \<noteq> CHR ''x'' \<and> HEX_char d \<noteq> CHR ''X'') [0..<16]"
    by code_simp
  then show "\<not> is_cspace (HEX_char d)" "HEX_char d \<noteq> CHR ''-''" "HEX_char d \<noteq> CHR ''+''"
    "HEX_char d \<noteq> CHR ''x''" "HEX_char d \<noteq> CHR ''X''"
    using assms by (auto simp only: list_all_iff set_upt atLeastLessThan_iff)
qed

lemma strtoul_HEX: "strtoul16_u32 (map HEX_char (digits_of 16 8 (unat h))) = h"
proof -
  let ?s = "map HEX_char (digits_of 16 8 (unat h))"
  have lt: "unat h < 2 ^ 32" by (rule unat32_less)
  have d16: "d < 16" if "d \<in> set (digits_of 16 8 (unat h))" for d using digits_of_less [OF _ that] by simp
  obtain d es where ds: "digits_of 16 8 (unat h) = d # es"
    using length_digits_of [of 16 8 "unat h"] by (cases "digits_of 16 8 (unat h)") auto
  note d = HEX_char_plain [OF d16 [of d, unfolded ds, simplified]]
  have sp: "skip_space ?s = ?s" using d(1) by (simp add: skip_space_def ds)
  have sg: "take_sign ?s = (False, ?s)" using d by (simp add: take_sign_def ds)
  have x: "skip_0x ?s = ?s"
    using HEX_char_plain(4,5) [OF d16] ds by (auto simp: skip_0x_def split: list.splits)
  have "scan_digits 16 0 ?s = (unat h mod 16 ^ 8, [])"
    using scan_digits_of [of 16 HEX_char 0 8 "unat h"] digit_val_HEX_char by simp
  moreover have "unat h mod 16 ^ 8 = unat h" using lt by (intro mod_less) simp
  ultimately have sc: "scan_digits 16 0 ?s = (unat h, [])" by simp
  have "strtoul16 ?s = word_of_nat (unat h)" using sp sg x sc lt by (simp add: strtoul16_def)
  then show ?thesis by (simp add: strtoul16_u32_def)
qed

text \<open>
  The texts in which commands hand out a service, eight upper-case digits from
  \<open>LAUNCH\<close> and \<open>%x\<close> from \<open>REG\<close>, \<open>QUERY\<close> and \<open>MONITOR\<close>, are both read back by the commands that take a service as
  exactly the handle they were printed from, and the former fills nine characters.
\<close>

theorem handle_text_roundtrip:
  "tohandle sv c (id_to_hex h) w = Some (h, w) \<and> tohandle sv c (CHR '':'' # sprintf_x h) w = Some (h, w) \<and>
   length (id_to_hex h) = 9"
  using strtoul_HEX [of h] strtoul_sprintf_x [of h]
  by (simp add: tohandle_def id_to_hex_digits first_char_def)

subsection \<open>Timeouts\<close>

lemma ndigits_le: "ndigits base k n \<le> Suc k"
  by (induction k arbitrary: n) auto

lemma length_sprintf_d: "length (sprintf_d v) < 32"
proof -
  have "ndigits 10 10 n < 31" for n using ndigits_le [of 10 10 n] by simp
  then have "ndigits 10 10 n < 32" for n by (rule less_trans) simp
  with \<open>\<And>n. ndigits 10 10 n < 31\<close> show ?thesis by (simp add: sprintf_d_def Let_def)
qed

text \<open>
  \<open>TIMEOUT\<close> with a positive number of ticks takes the next session of the service, answers
  with it in decimal, and arms exactly one more timer, for the service's handle and that
  session, to expire after that many ticks.
\<close>

theorem timeout_command_arms:
  assumes "w_ctxs w c = Some x" "timer_reach (w_timer w)" "0 < sint (strtol10_int param)"
  shows "\<exists>w'. cmd_timeout sv c param w = Some (Some (sprintf_d (next_session (ctx_session_id x))), w') \<and>
    timer_reach (w_timer w') \<and> w_mq w' = w_mq w \<and>
    pending (w_timer w') = add_mset \<lparr>tn_expire = strtol10_int param + t_time (w_timer w),
      tn_handle = ctx_handle x, tn_session = next_session (ctx_session_id x)\<rparr> (pending (w_timer w))"
proof -
  let ?t = "strtol10_int param" let ?s = "next_session (ctx_session_id x)"
  have t: "unat ?t < 2 ^ 31" "sint ?t = int (unat ?t)" using sint32_nonneg [of ?t] assms(3) by simp_all
  have "0 < int (unat ?t)" using assms(3) unfolding t(2) .
  then have "0 < unat ?t" by (simp only: of_nat_0_less_iff)
  then have pos: "0 < ?t" by (simp add: word_less_nat_alt)
  have lt: "?t < 2 ^ 31" using t(1) by (simp add: word_less_nat_alt)
  obtain T where T: "timer_add (ctx_handle x) ?s ?t (w_timer w) = Some T"
    "pending T = add_mset \<lparr>tn_expire = ?t + t_time (w_timer w), tn_handle = ctx_handle x, tn_session = ?s\<rparr>
      (pending (w_timer w))"
    using timer_add_spec [OF timer_reach_ok [OF assms(2)] pos lt] by blast
  have reach: "timer_reach T" by (rule timer_reach.add [OF assms(2) pos lt T(1)])
  have "\<not> sint ?t \<le> 0" using assms(3) by simp
  then show ?thesis
    using assms(1) T reach length_sprintf_d
    by (simp add: cmd_timeout_def newsession_eq [OF assms(1)] skynet_timeout_def set_result_def upd_ctx_def)
qed

theorem timeout_command_arms_witness:
  "\<exists>w'. cmd_timeout no_services 1 ''100'' demo_world = Some (Some ''1'', w') \<and>
    pending (w_timer w') = {#\<lparr>tn_expire = 100, tn_handle = 0x01000001, tn_session = 1\<rparr>#}"
proof -
  have t: "strtol10_int ''100'' = 100"
    by code_simp
  have "pending (w_timer demo_world) = {#}" "timer_reach (w_timer demo_world)"
    using timer_init_ok(2) timer_reach.init by (simp_all add: demo_world_def)
  moreover have "next_session (ctx_session_id demo_ctx) = 1" "ctx_handle demo_ctx = 0x01000001"
    by (simp_all add: demo_ctx_def new_context_def next_session_def)
  moreover have "sprintf_d 1 = ''1''" by code_simp
  moreover have "t_time (w_timer demo_world) = 0"
    by (simp add: demo_world_def skynet_timer_init_def timer_create_timer_def)
  ultimately show ?thesis
    using timeout_command_arms [OF demo_live(1), of "''100''" no_services] t by auto
qed

subsection \<open>Reports that go wrong\<close>

lemma log_socket_unterminated:
  assumes "w_heap w p = Some (Sock m text)" "sk_buffer m = 0" "NUL \<notin> set text"
  shows "skynet_log_output f source PTYPE_SOCKET session p sz w = None"
proof -
  have "buf_string text = None" using assms(3) by (simp add: buf_string_def)
  then show ?thesis
    using assms(1,2) by (auto simp: skynet_log_output_def log_socket_def print_star_s_def fprintf_def Let_def
        split: option.splits)
qed

text \<open>
  Every socket event without a data buffer (a connection that was closed, opened, accepted
  or failed) that reaches a service whose log is on makes the log read past the end of the message:
  the block has no terminating zero and \<open>%*s\<close> does not bound the read.
\<close>

theorem socket_event_log_overread:
  assumes "node_ok w" "grab_of w (ucast (sr_opaque ev)) = Some c"
    and "padding \<or> sr_data ev = 0" "\<forall>t. sr_text ev = Some t \<longrightarrow> NUL \<notin> set t"
  shows "\<exists>w' m. forward_message sv type padding ev w = Some w' \<and>
    contents (w_mq w') (queue_of w c) = contents (w_mq w) (queue_of w c) @ [m] \<and>
    (\<forall>f. skynet_log_output f (msg_source m) PTYPE_SOCKET (msg_session m) (msg_data m)
       (msg_sz m AND MESSAGE_TYPE_MASK) w' = None)"
proof -
  define extra where "extra = (if padding then (case sr_text ev of Some t \<Rightarrow> take 128 t | None \<Rightarrow> []) else [])"
  define m where "m = \<lparr>sk_type = type, sk_id = sr_id ev, sk_ud = sr_ud ev,
    sk_buffer = (if padding then 0 else sr_data ev)\<rparr>"
  obtain p w1 where p: "skynet_malloc (Sock m extra) w = (p, w1)" by fastforce
  note mo = malloc_ok [OF assms(1) p]
  define msg where "msg = \<lparr>msg_source = 0, msg_session = 0, msg_data = p,
    msg_sz = (sizeof_socket_message + word_of_nat (length extra)) OR push_bit MESSAGE_TYPE_SHIFT PTYPE_SOCKET\<rparr>"
  have "grab_of w1 (ucast (sr_opaque ev)) = Some c" "queue_of w1 = queue_of w" "w_mq w1 = w_mq w"
    using mo(2) assms(2) by (simp_all add: same_services_def)
  then obtain w2 where w2: "skynet_context_push sv (ucast (sr_opaque ev)) msg w1 = Some (0, w2)"
    "delivered w1 (queue_of w c) msg w2"
    using context_push_spec [OF mo(1), of sv "ucast (sr_opaque ev)" msg] by auto
  have "forward_message sv type padding ev w = Some w2"
  proof -
    have "forward_message sv type padding ev w =
        (case skynet_malloc (Sock m extra) w of (sm, w1) \<Rightarrow> do {
          (r, w2) \<leftarrow> skynet_context_push sv (ucast (sr_opaque ev)) (msg\<lparr>msg_data := sm\<rparr>) w1;
          if r \<noteq> 0 then do { w3 \<leftarrow> skynet_free (if padding then 0 else sr_data ev) w2; skynet_free sm w3 } else Some w2 })"
      unfolding forward_message_def Let_def extra_def m_def msg_def by simp
    moreover have "msg\<lparr>msg_data := p\<rparr> = msg" by (simp add: msg_def)
    ultimately show ?thesis using p w2(1) by simp
  qed
  moreover have "w_heap w2 p = Some (Sock m extra)"
    using delivered_frame [OF w2(2)] mo(6) by simp
  moreover have "NUL \<notin> set extra"
  proof (cases "sr_text ev")
    case (Some t)
    then have "NUL \<notin> set t" using assms(4) by simp
    then have "NUL \<notin> set (take 128 t)" using set_take_subset [of 128 t] by blast
    then show ?thesis unfolding extra_def Some option.case by (cases padding) simp_all
  next
    case None
    then show ?thesis unfolding extra_def None option.case by (cases padding) simp_all
  qed
  moreover have "sk_buffer m = 0" using assms(3) by (auto simp: m_def)
  ultimately show ?thesis
    using log_socket_unterminated w2(2) \<open>w_mq w1 = w_mq w\<close>
    by (auto simp: delivered_def msg_def)
qed

theorem socket_event_log_overread_witness:
  "\<exists>w' m. forward_message no_services 3 False \<lparr>sr_id = 7, sr_opaque = 0x01000001, sr_ud = 0, sr_data = 0,
      sr_text = None\<rparr> demo_world = Some w' \<and>
    contents (w_mq w') 1 = [m] \<and>
    skynet_log_output 9 (msg_source m) PTYPE_SOCKET (msg_session m) (msg_data m)
      (msg_sz m AND MESSAGE_TYPE_MASK) w' = None"
  using socket_event_log_overread [OF demo_ok, of "\<lparr>sr_id = 7, sr_opaque = 0x01000001, sr_ud = 0, sr_data = 0,
      sr_text = None\<rparr>" 1 False no_services 3] demo_grab(1) demo_live(2,3)
  by fastforce

text \<open>
  When the service that was looked up as the logger is gone, every report leaks: the text is
  copied into a new block, nobody receives it and it stays allocated.
\<close>

theorem error_report_leaks:
  assumes "node_ok w" "w_logger w \<noteq> 0" "grab_of w (w_logger w) = None" "length text < LOG_MESSAGE_SIZE"
  shows "\<exists>p w'. skynet_error sv None text w = Some w' \<and> w_heap w p = None \<and>
    w_heap w' = (w_heap w)(p \<mapsto> Bytes (text @ [NUL])) \<and> w_mq w' = w_mq w"
proof -
  obtain p w1 where p: "skynet_malloc (Bytes (text @ [NUL])) w = (p, w1)" by fastforce
  note mo = malloc_ok [OF assms(1) p]
  have "grab_of w1 (w_logger w) = None" using mo(2) assms(3) by (simp add: same_services_def)
  then have push: "skynet_context_push sv (w_logger w) m w1 = Some (- 1, w1)" for m
    using context_push_spec [OF mo(1), of sv "w_logger w" m] by simp
  have "w\<lparr>w_logger := w_logger w\<rparr> = w" by simp
  with assms(2,4) p push have "skynet_error sv None text w = Some w1"
    by (simp add: skynet_error_def Let_def)
  with mo show ?thesis by (auto simp: same_services_def)
qed

theorem error_report_leaks_witness:
  "\<exists>p w'. skynet_error no_services None ''hello'' (demo_world\<lparr>w_logger := 0x01000002\<rparr>) = Some w' \<and>
    w_heap demo_world p = None \<and> w_heap w' p = Some (Bytes (''hello'' @ [NUL]))"
proof -
  let ?w = "demo_world\<lparr>w_logger := 0x01000002\<rparr>"
  have hc: "hc ?w = hc demo_world" by (simp add: hc_def [abs_def])
  have "node_ok ?w" using demo_ok by (simp add: node_ok_def hc)
  then show ?thesis
    using error_report_leaks [of ?w "''hello''" no_services] demo_grab(2) by (fastforce simp: hc LOG_MESSAGE_SIZE_def)
qed

text \<open>
  The command \<open>NAME\<close> does not test how many words it was given: with a name
  and no handle it reads the first byte of a buffer that nothing was written to.
\<close>

theorem name_command_uninitialised:
  assumes "\<forall>ch \<in> set param. \<not> is_cspace ch"
  shows "skynet_command sv c ''NAME'' (Some param) w = None"
proof -
  have t: "takeWhile (\<lambda>c. \<not> is_cspace c) param = param" "dropWhile (\<lambda>c. \<not> is_cspace c) param = []"
    using assms by simp_all
  have "dropWhile is_cspace param = param" using assms by (cases param) auto
  then have "cmd_name sv c param w = None"
    using t by (auto simp: cmd_name_def scan_word_def skip_space_def Let_def simp del: dropWhile_eq_Nil_conv)
  then show ?thesis by (simp add: skynet_command_def cmd_funcs_def strcmp_0_iff)
qed

theorem name_command_uninitialised_witness:
  "skynet_command no_services 1 ''NAME'' (Some ''.launcher'') demo_world = None"
  by (rule name_command_uninitialised) (simp add: is_cspace_def char_of_def)

end
