(* ===== verification/Hashid.thy ===== *)
theory Hashid
  imports Prelude
begin

section \<open>The connection table of the gate (service-src/hashid.h)\<close>

text \<open>
  A fixed array of nodes, one per connection, and a hash table of chains through the nodes: it maps the
  id of a socket to the index of its node, which is also the index of its connection. Links are
  indices into the array, ids are C integers, \<open>- 1\<close> marks a free node. The lemmas show that it is a finite
  map with at most \<open>cap\<close> entries whose values are distinct indices.
\<close>

unbundle bit_operations_syntax

record hashid_node =
  hd_id :: int
  hd_next :: "nat option"

record hashid =
  hi_hashmod :: int
  hi_cap :: nat
  hi_count :: nat
  hi_id :: "hashid_node list"
  hi_hash :: "nat option list"

text \<open>\<open>while (hashcap < max) hashcap *= 2;\<close>\<close>

partial_function (option) hashcap_loop :: "nat \<Rightarrow> nat \<Rightarrow> nat option" where
  "hashcap_loop hashcap limit = (if hashcap < limit then hashcap_loop (hashcap * 2) limit else Some hashcap)"

definition hashid_init :: "nat \<Rightarrow> hashid option" where
  "hashid_init limit = do {
     hashcap \<leftarrow> hashcap_loop 16 limit;
     Some \<lparr>hi_hashmod = int hashcap - 1, hi_cap = limit, hi_count = 0,
       hi_id = replicate limit \<lparr>hd_id = - 1, hd_next = None\<rparr>, hi_hash = replicate hashcap None\<rparr> }"

definition hashid_clear :: "hashid \<Rightarrow> hashid" where
  "hashid_clear hi = hi\<lparr>hi_id := [], hi_hash := [], hi_hashmod := 1, hi_cap := 0, hi_count := 0\<rparr>"

partial_function (option) lookup_loop :: "hashid_node list \<Rightarrow> int \<Rightarrow> nat option \<Rightarrow> int option" where
  "lookup_loop ns x c =
     (case c of
        None \<Rightarrow> Some (- 1)
      | Some i \<Rightarrow> do {
          n \<leftarrow> arr_get ns i;
          if hd_id n = x then Some (int i) else lookup_loop ns x (hd_next n) })"

definition hashid_lookup :: "hashid \<Rightarrow> int \<Rightarrow> int option" where
  "hashid_lookup hi x = do {
     c \<leftarrow> arr_get (hi_hash hi) (nat (x AND hi_hashmod hi));
     lookup_loop (hi_id hi) x c }"

text \<open>
  The loop of \<open>hashid_remove\<close> behind the first node of a chain: it unlinks the successor with the
  id and returns it.
\<close>

partial_function (option) remove_loop ::
  "hashid_node list \<Rightarrow> int \<Rightarrow> nat \<Rightarrow> ((nat \<times> hashid_node list) option) option" where
  "remove_loop ns x c = do {
     n \<leftarrow> arr_get ns c;
     case hd_next n of
       None \<Rightarrow> Some None
     | Some t \<Rightarrow> do {
         tn \<leftarrow> arr_get ns t;
         if hd_id tn = x then Some (Some (t, ns[c := n\<lparr>hd_next := hd_next tn\<rparr>]))
         else remove_loop ns x t } }"

definition clear_node :: "nat \<Rightarrow> hashid_node list \<Rightarrow> hashid_node list" where
  "clear_node i ns = ns[i := \<lparr>hd_id = - 1, hd_next = None\<rparr>]"

definition hashid_remove :: "hashid \<Rightarrow> int \<Rightarrow> (int \<times> hashid) option" where
  "hashid_remove hi x = do {
     let h = nat (x AND hi_hashmod hi);
     c \<leftarrow> arr_get (hi_hash hi) h;
     case c of
       None \<Rightarrow> Some (- 1, hi)
     | Some i \<Rightarrow> do {
         n \<leftarrow> arr_get (hi_id hi) i;
         if hd_id n = x then
           Some (int i, hi\<lparr>hi_hash := (hi_hash hi)[h := hd_next n], hi_id := clear_node i (hi_id hi),
             hi_count := hi_count hi - 1\<rparr>)
         else do {
           r \<leftarrow> remove_loop (hi_id hi) x i;
           case r of
             None \<Rightarrow> Some (- 1, hi)
           | Some (t, ns) \<Rightarrow>
               Some (int t, hi\<lparr>hi_id := clear_node t ns, hi_count := hi_count hi - 1\<rparr>) } } }"

text \<open>
  The first free node from index \<open>id % cap\<close> on, around the array. The sum is a C \<open>int\<close>, which
  wraps to a negative one, and the remainder has the sign of its first operand: a negative index is
  outside the array.
\<close>

definition wrap32 :: "int \<Rightarrow> int" where
  "wrap32 v = (v + 2 ^ 31) mod 2 ^ 32 - 2 ^ 31"

definition c_rem :: "int \<Rightarrow> int \<Rightarrow> int" where
  "c_rem a b = (if 0 \<le> a then a mod b else - ((- a) mod b))"

fun insert_scan :: "hashid_node list \<Rightarrow> nat \<Rightarrow> int \<Rightarrow> nat \<Rightarrow> nat \<Rightarrow> nat option" where
  "insert_scan ns cap x i 0 = None"
| "insert_scan ns cap x i (Suc k) =
     (let index = c_rem (wrap32 (int i + x)) (int cap) in
      if index < 0 then None
      else if hd_id (ns ! nat index) = - 1 then Some (nat index) else insert_scan ns cap x (Suc i) k)"

definition hashid_insert :: "hashid \<Rightarrow> int \<Rightarrow> (int \<times> hashid) option" where
  "hashid_insert hi x = do {
     c \<leftarrow> insert_scan (hi_id hi) (hi_cap hi) x 0 (hi_cap hi);
     n \<leftarrow> arr_get (hi_id hi) c;
     c_assert (hd_next n = None);
     let h = nat (x AND hi_hashmod hi);
     first \<leftarrow> arr_get (hi_hash hi) h;
     Some (int c, hi\<lparr>hi_count := Suc (hi_count hi),
       hi_id := (hi_id hi)[c := \<lparr>hd_id = x, hd_next = first\<rparr>], hi_hash := (hi_hash hi)[h := Some c]\<rparr>) }"

definition hashid_full :: "hashid \<Rightarrow> bool" where
  "hashid_full hi \<longleftrightarrow> hi_count hi = hi_cap hi"

subsection \<open>Chains\<close>

fun links :: "hashid_node list \<Rightarrow> nat option \<Rightarrow> nat list \<Rightarrow> bool" where
  "links ns p [] \<longleftrightarrow> p = None"
| "links ns p (i # xs) \<longleftrightarrow> p = Some i \<and> i < length ns \<and> links ns (hd_next (ns ! i)) xs"

lemma links_upd [simp]: "i \<notin> set xs \<Longrightarrow> links (ns[i := v]) p xs = links ns p xs"
  by (induction xs arbitrary: p) auto

lemma links_in: "links ns p xs \<Longrightarrow> i \<in> set xs \<Longrightarrow> i < length ns"
  by (induction xs arbitrary: p) auto

lemma lookup_loop_spec:
  "links ns p xs \<Longrightarrow> lookup_loop ns x p =
     Some (case find (\<lambda>i. hd_id (ns ! i) = x) xs of Some i \<Rightarrow> int i | None \<Rightarrow> - 1)"
  by (induction xs arbitrary: p) (subst lookup_loop.simps, auto)+

lemma remove_loop_spec:
  "links ns (Some c) (c # xs) \<Longrightarrow> distinct (c # xs) \<Longrightarrow>
   (case find (\<lambda>i. hd_id (ns ! i) = x) xs of
      None \<Rightarrow> remove_loop ns x c = Some None
    | Some t \<Rightarrow> \<exists>ns'. remove_loop ns x c = Some (Some (t, ns')) \<and> length ns' = length ns \<and>
        links ns' (Some c) (c # remove1 t xs) \<and> t \<in> set xs \<and>
        (\<forall>i. hd_id (ns' ! i) = hd_id (ns ! i)) \<and> (\<forall>i. i \<notin> set (c # xs) \<longrightarrow> ns' ! i = ns ! i))"
proof (induction xs arbitrary: c)
  case Nil
  then show ?case by (subst remove_loop.simps) simp
next
  case (Cons t xs)
  have c: "c < length ns" "hd_next (ns ! c) = Some t" "t < length ns" "links ns (hd_next (ns ! t)) xs"
    "c \<noteq> t" "c \<notin> set xs" "t \<notin> set xs" "distinct xs"
    using Cons.prems by auto
  show ?case
  proof (cases "hd_id (ns ! t) = x")
    case True
    let ?ns = "ns[c := (ns ! c)\<lparr>hd_next := hd_next (ns ! t)\<rparr>]"
    have "remove_loop ns x c = Some (Some (t, ?ns))"
      using c True by (subst remove_loop.simps) simp
    moreover have "links ?ns (Some c) (c # xs)" using c by simp
    moreover have "hd_id (?ns ! i) = hd_id (ns ! i)" for i using c(1) by (cases "i = c") auto
    ultimately show ?thesis using True c by simp
  next
    case False
    have step: "remove_loop ns x c = remove_loop ns x t"
      using c False by (subst remove_loop.simps) simp
    have "links ns (Some t) (t # xs)" "distinct (t # xs)" using c by auto
    note IH = Cons.IH [OF this]
    show ?thesis
    proof (cases "find (\<lambda>i. hd_id (ns ! i) = x) xs")
      case None
      with IH False step show ?thesis by simp
    next
      case (Some s)
      then obtain ns' where ns': "remove_loop ns x t = Some (Some (s, ns'))" "length ns' = length ns"
        "links ns' (Some t) (t # remove1 s xs)" "s \<in> set xs" "\<forall>i. hd_id (ns' ! i) = hd_id (ns ! i)"
        "\<forall>i. i \<notin> set (t # xs) \<longrightarrow> ns' ! i = ns ! i"
        using IH by auto
      have "ns' ! c = ns ! c" using ns'(6) c by simp
      with ns' c have "links ns' (Some c) (c # t # remove1 s xs)" by simp
      moreover have "s \<noteq> t" using ns'(4) c(7) by auto
      ultimately show ?thesis using ns' Some False step by auto
    qed
  qed
qed

subsection \<open>The table is a finite map\<close>

definition hash_of :: "nat \<Rightarrow> int \<Rightarrow> nat" where
  "hash_of k x = nat x mod 2 ^ k"

lemma and_hashmod: "0 \<le> x \<Longrightarrow> nat (x AND (2 ^ k - 1)) = hash_of k x"
proof -
  assume x: "0 \<le> x"
  have "x AND (2 ^ k - 1) = x mod 2 ^ k"
    by (simp add: take_bit_eq_mod flip: mask_eq_exp_minus_1 take_bit_eq_mask)
  then show ?thesis using x by (simp add: hash_of_def nat_mod_distrib nat_power_eq)
qed

definition used :: "hashid \<Rightarrow> nat set" where
  "used hi = {i. i < hi_cap hi \<and> hd_id (hi_id hi ! i) \<noteq> - 1}"

definition hashid_rep :: "hashid \<Rightarrow> nat \<Rightarrow> (nat \<Rightarrow> nat list) \<Rightarrow> bool" where
  "hashid_rep hi k ch \<longleftrightarrow> length (hi_id hi) = hi_cap hi \<and> length (hi_hash hi) = 2 ^ k \<and>
     hi_hashmod hi = 2 ^ k - 1 \<and>
     (\<forall>h < 2 ^ k. links (hi_id hi) (hi_hash hi ! h) (ch h) \<and> distinct (ch h) \<and>
        (\<forall>i \<in> set (ch h). 0 \<le> hd_id (hi_id hi ! i) \<and> hash_of k (hd_id (hi_id hi ! i)) = h)) \<and>
     (\<forall>i < hi_cap hi. if hd_id (hi_id hi ! i) = - 1 then hd_next (hi_id hi ! i) = None
        else i \<in> set (ch (hash_of k (hd_id (hi_id hi ! i))))) \<and>
     (\<forall>i \<in> used hi. \<forall>j \<in> used hi. hd_id (hi_id hi ! i) = hd_id (hi_id hi ! j) \<longrightarrow> i = j) \<and>
     hi_count hi = card (used hi)"

definition hashid_ok :: "hashid \<Rightarrow> bool" where
  "hashid_ok hi \<longleftrightarrow> (\<exists>k ch. hashid_rep hi k ch)"

text \<open>The map: the node that holds an id.\<close>

definition hid_map :: "hashid \<Rightarrow> int \<Rightarrow> nat option" where
  "hid_map hi x = find (\<lambda>i. hd_id (hi_id hi ! i) = x) [0..<hi_cap hi]"

lemma find_upt_Some: "find P [0..<n] = Some i \<Longrightarrow> i < n \<and> P i"
  by (auto simp: find_Some_iff)

lemma hid_map_iff:
  assumes "hashid_rep hi k ch" "0 \<le> x"
  shows "hid_map hi x = Some i \<longleftrightarrow> i < hi_cap hi \<and> hd_id (hi_id hi ! i) = x"
proof
  assume "hid_map hi x = Some i"
  then show "i < hi_cap hi \<and> hd_id (hi_id hi ! i) = x" unfolding hid_map_def by (rule find_upt_Some)
next
  assume i: "i < hi_cap hi \<and> hd_id (hi_id hi ! i) = x"
  then have "hid_map hi x \<noteq> None" by (auto simp: hid_map_def find_None_iff)
  then obtain j where j: "hid_map hi x = Some j" by blast
  then have "j < hi_cap hi" "hd_id (hi_id hi ! j) = x" unfolding hid_map_def by (auto dest: find_upt_Some)
  moreover have "\<forall>i \<in> used hi. \<forall>j \<in> used hi. hd_id (hi_id hi ! i) = hd_id (hi_id hi ! j) \<longrightarrow> i = j"
    using assms(1) by (simp add: hashid_rep_def)
  ultimately have "j = i" using i assms(2) by (auto simp: used_def)
  with j show "hid_map hi x = Some i" by simp
qed

lemma find_chain:
  assumes "hashid_rep hi k ch" "0 \<le> x"
  shows "find (\<lambda>i. hd_id (hi_id hi ! i) = x) (ch (hash_of k x)) = hid_map hi x"
proof -
  have h: "hash_of k x < 2 ^ k" by (simp add: hash_of_def)
  have l: "links (hi_id hi) (hi_hash hi ! hash_of k x) (ch (hash_of k x))" "length (hi_id hi) = hi_cap hi"
    using assms(1) h by (auto simp: hashid_rep_def)
  show ?thesis
  proof (cases "find (\<lambda>i. hd_id (hi_id hi ! i) = x) (ch (hash_of k x))")
    case None
    have "hid_map hi x \<noteq> Some i" for i
    proof
      assume "hid_map hi x = Some i"
      then have i: "i < hi_cap hi" "hd_id (hi_id hi ! i) = x" using hid_map_iff [OF assms] by simp_all
      with assms have "i \<in> set (ch (hash_of k x))" by (auto simp: hashid_rep_def)
      with None i show False by (auto simp: find_None_iff)
    qed
    with None show ?thesis by (cases "hid_map hi x") auto
  next
    case (Some i)
    then have "i \<in> set (ch (hash_of k x))" "hd_id (hi_id hi ! i) = x"
      by (auto simp: find_Some_iff)
    with links_in [OF l(1)] l(2) have "hid_map hi x = Some i" using hid_map_iff [OF assms] by simp
    with Some show ?thesis by simp
  qed
qed

lemma lookup_spec:
  assumes "hashid_ok hi" "0 \<le> x"
  shows "hashid_lookup hi x = Some (case hid_map hi x of Some i \<Rightarrow> int i | None \<Rightarrow> - 1)"
proof -
  obtain k ch where rep: "hashid_rep hi k ch" using assms(1) by (auto simp: hashid_ok_def)
  have h: "hash_of k x < 2 ^ k" by (simp add: hash_of_def)
  have l: "links (hi_id hi) (hi_hash hi ! hash_of k x) (ch (hash_of k x))" "length (hi_hash hi) = 2 ^ k"
    "hi_hashmod hi = 2 ^ k - 1"
    using rep h by (auto simp: hashid_rep_def)
  then show ?thesis
    using h and_hashmod [OF assms(2), of k] lookup_loop_spec [OF l(1), of x] find_chain [OF rep assms(2)]
    by (simp add: hashid_lookup_def)
qed

lemma hashid_repD:
  assumes "hashid_rep hi k ch"
  shows "length (hi_id hi) = hi_cap hi" "length (hi_hash hi) = 2 ^ k" "hi_hashmod hi = 2 ^ k - 1"
    "\<And>h. h < 2 ^ k \<Longrightarrow> links (hi_id hi) (hi_hash hi ! h) (ch h)" "\<And>h. h < 2 ^ k \<Longrightarrow> distinct (ch h)"
    "\<And>h i. h < 2 ^ k \<Longrightarrow> i \<in> set (ch h) \<Longrightarrow> 0 \<le> hd_id (hi_id hi ! i) \<and> hash_of k (hd_id (hi_id hi ! i)) = h"
    "\<And>i. i < hi_cap hi \<Longrightarrow> hd_id (hi_id hi ! i) = - 1 \<Longrightarrow> hd_next (hi_id hi ! i) = None"
    "\<And>i. i < hi_cap hi \<Longrightarrow> hd_id (hi_id hi ! i) \<noteq> - 1 \<Longrightarrow> i \<in> set (ch (hash_of k (hd_id (hi_id hi ! i))))"
    "\<And>i j. i \<in> used hi \<Longrightarrow> j \<in> used hi \<Longrightarrow> hd_id (hi_id hi ! i) = hd_id (hi_id hi ! j) \<Longrightarrow> i = j"
    "hi_count hi = card (used hi)"
  using assms unfolding hashid_rep_def by (auto split: if_splits)

lemma hash_of_less [simp]: "hash_of k x < 2 ^ k"
  by (simp add: hash_of_def)

lemma finite_used [simp]: "finite (used hi)"
  by (simp add: used_def)

lemma wrap32_id: "0 \<le> v \<Longrightarrow> v < 2 ^ 31 \<Longrightarrow> wrap32 v = v"
  by (simp add: wrap32_def)

lemma insert_scan_spec:
  assumes "0 < cap" "0 \<le> x"
  shows "x + int (i + k) \<le> 2 ^ 31 \<Longrightarrow> case insert_scan ns cap x i k of
      Some c \<Rightarrow> c < cap \<and> hd_id (ns ! c) = - 1
    | None \<Rightarrow> \<forall>j < k. hd_id (ns ! ((nat x + (i + j)) mod cap)) \<noteq> - 1"
proof (induction k arbitrary: i)
  case (Suc k)
  have "wrap32 (int i + x) = int i + x" using Suc.prems assms(2) by (intro wrap32_id) simp_all
  then have "c_rem (wrap32 (int i + x)) (int cap) = (int i + x) mod int cap"
    using assms(2) by (simp add: c_rem_def)
  also have "\<dots> = int ((nat x + i) mod cap)"
    using assms by (simp add: zmod_int add.commute)
  finally have idx: "c_rem (wrap32 (int i + x)) (int cap) = int ((nat x + i) mod cap)" .
  have bound: "x + int (Suc i + k) \<le> 2 ^ 31" using Suc.prems by simp
  show ?case
  proof (cases "hd_id (ns ! ((nat x + i) mod cap)) = - 1")
    case True
    with assms idx show ?thesis by (simp add: Let_def)
  next
    case False
    then have step: "insert_scan ns cap x i (Suc k) = insert_scan ns cap x (Suc i) k"
      by (simp add: idx Let_def)
    show ?thesis
    proof (cases "insert_scan ns cap x (Suc i) k")
      case (Some c)
      with Suc.IH [OF bound] step show ?thesis by simp
    next
      case None
      then have rest: "\<forall>j < k. hd_id (ns ! ((nat x + (Suc i + j)) mod cap)) \<noteq> - 1"
        using Suc.IH [OF bound] by simp
      have "hd_id (ns ! ((nat x + (i + j)) mod cap)) \<noteq> - 1" if "j < Suc k" for j
        using rest False that by (cases j) auto
      with None step show ?thesis by simp
    qed
  qed
qed simp

lemma insert_scan_free:
  assumes "f < cap" "hd_id (ns ! f) = - 1" "0 \<le> x" "x + int cap \<le> 2 ^ 31"
  shows "\<exists>c. insert_scan ns cap x 0 cap = Some c \<and> c < cap \<and> hd_id (ns ! c) = - 1"
proof -
  obtain j where j: "j < cap" "(nat x + j) mod cap = f" using residue_cover assms(1) by blast
  from insert_scan_spec [where cap = cap and x = x and ns = ns and i = 0 and k = cap] j assms show ?thesis
    by (auto split: option.splits)
qed

lemma not_full_free:
  assumes "hashid_rep hi k ch" "\<not> hashid_full hi"
  shows "\<exists>f < hi_cap hi. hd_id (hi_id hi ! f) = - 1"
proof (rule ccontr)
  assume "\<not> ?thesis"
  then have "used hi = {..<hi_cap hi}" by (auto simp: used_def)
  then show False using hashid_repD(10) [OF assms(1)] assms(2) by (simp add: hashid_full_def)
qed

lemma insert_spec:
  assumes "hashid_ok hi" "0 \<le> x" "hid_map hi x = None" "\<not> hashid_full hi" "x + int (hi_cap hi) \<le> 2 ^ 31"
  shows "\<exists>i hi'. hashid_insert hi x = Some (int i, hi') \<and> hashid_ok hi' \<and> i < hi_cap hi \<and> hi_cap hi' = hi_cap hi \<and>
    (\<forall>y \<ge> 0. hid_map hi y \<noteq> Some i) \<and> (\<forall>y \<ge> 0. hid_map hi' y = (if y = x then Some i else hid_map hi y)) \<and>
    hi_count hi' = Suc (hi_count hi)"
proof -
  obtain k ch where rep: "hashid_rep hi k ch" using assms(1) by (auto simp: hashid_ok_def)
  note d = hashid_repD [OF rep]
  let ?h = "hash_of k x"
  obtain i where i: "insert_scan (hi_id hi) (hi_cap hi) x 0 (hi_cap hi) = Some i" "i < hi_cap hi"
    "hd_id (hi_id hi ! i) = - 1"
    using not_full_free [OF rep assms(4)] insert_scan_free assms(2,5) by blast
  have free: "i \<notin> set (ch h)" if "h < 2 ^ k" for h using d(6) [OF that, of i] i(3) by auto
  define ns where "ns = (hi_id hi)[i := \<lparr>hd_id = x, hd_next = hi_hash hi ! ?h\<rparr>]"
  define hi' where "hi' = hi\<lparr>hi_count := Suc (hi_count hi), hi_id := ns, hi_hash := (hi_hash hi)[?h := Some i]\<rparr>"
  define ch' where "ch' = ch(?h := i # ch ?h)"
  have ins: "hashid_insert hi x = Some (int i, hi')"
    using i d(1-3,7) and_hashmod [OF assms(2), of k] by (simp add: hashid_insert_def hi'_def ns_def Let_def)
  have ns: "length ns = hi_cap hi" "\<And>j. j \<noteq> i \<Longrightarrow> ns ! j = hi_id hi ! j" "hd_id (ns ! i) = x"
    "hd_next (ns ! i) = hi_hash hi ! ?h"
    using d(1) i(2) by (simp_all add: ns_def)
  have fresh: "hd_id (hi_id hi ! j) \<noteq> x" if "j < hi_cap hi" for j
    using assms(3) hid_map_iff [OF rep assms(2), of j] that by auto
  have u: "used hi' = insert i (used hi)"
  proof (rule set_eqI)
    fix j
    show "j \<in> used hi' \<longleftrightarrow> j \<in> insert i (used hi)"
      using i(2) ns(2) [of j] ns(3) assms(2) by (cases "j = i") (simp_all add: used_def hi'_def)
  qed
  have "hashid_rep hi' k ch'"
    unfolding hashid_rep_def
  proof (intro conjI)
    show "length (hi_id hi') = hi_cap hi'" "length (hi_hash hi') = 2 ^ k" "hi_hashmod hi' = 2 ^ k - 1"
      using ns(1) d(2,3) by (simp_all add: hi'_def)
    show "hi_count hi' = card (used hi')"
      using u i(3) d(10) by (simp add: hi'_def used_def)
    show "\<forall>a \<in> used hi'. \<forall>b \<in> used hi'. hd_id (hi_id hi' ! a) = hd_id (hi_id hi' ! b) \<longrightarrow> a = b"
    proof (intro ballI impI)
      fix a b
      assume ab: "a \<in> used hi'" "b \<in> used hi'" "hd_id (hi_id hi' ! a) = hd_id (hi_id hi' ! b)"
      have eq: "hd_id (ns ! a) = hd_id (ns ! b)" using ab(3) by (simp add: hi'_def)
      have other: "j \<in> used hi \<and> hd_id (ns ! j) = hd_id (hi_id hi ! j) \<and> hd_id (ns ! j) \<noteq> x"
        if "j \<in> used hi'" "j \<noteq> i" for j
      proof -
        have "j \<in> used hi" using that u by simp
        moreover from this have "j < hi_cap hi" by (simp add: used_def)
        ultimately show ?thesis using fresh ns(2) [OF that(2)] by simp
      qed
      show "a = b"
      proof (cases "a = i"; cases "b = i")
        assume "a = i" "b \<noteq> i"
        with other [OF ab(2)] eq ns(3) show ?thesis by simp
      next
        assume "a \<noteq> i" "b = i"
        with other [OF ab(1)] eq ns(3) show ?thesis by simp
      next
        assume "a \<noteq> i" "b \<noteq> i"
        with other [OF ab(1)] other [OF ab(2)] eq d(9) [of a b] show ?thesis by simp
      qed simp
    qed
    show "\<forall>j < hi_cap hi'. if hd_id (hi_id hi' ! j) = - 1 then hd_next (hi_id hi' ! j) = None
        else j \<in> set (ch' (hash_of k (hd_id (hi_id hi' ! j))))"
    proof (intro allI impI)
      fix j
      assume "j < hi_cap hi'"
      then have j: "j < hi_cap hi" by (simp add: hi'_def)
      show "if hd_id (hi_id hi' ! j) = - 1 then hd_next (hi_id hi' ! j) = None
        else j \<in> set (ch' (hash_of k (hd_id (hi_id hi' ! j))))"
        using j ns assms(2) d(7,8) [OF j] by (cases "j = i") (auto simp: hi'_def ch'_def)
    qed
    show "\<forall>h < 2 ^ k. links (hi_id hi') (hi_hash hi' ! h) (ch' h) \<and> distinct (ch' h) \<and>
        (\<forall>j \<in> set (ch' h). 0 \<le> hd_id (hi_id hi' ! j) \<and> hash_of k (hd_id (hi_id hi' ! j)) = h)"
    proof (intro allI impI)
      fix h :: nat
      assume h: "h < 2 ^ k"
      have old: "links ns (hi_hash hi ! h) (ch h)" using d(4) [OF h] free [OF h] by (simp add: ns_def)
      have ids: "0 \<le> hd_id (ns ! j) \<and> hash_of k (hd_id (ns ! j)) = h" if "j \<in> set (ch h)" for j
      proof -
        have "j \<noteq> i" using that free [OF h] by blast
        with d(6) [OF h that] ns(2) [of j] show ?thesis by simp
      qed
      show "links (hi_id hi') (hi_hash hi' ! h) (ch' h) \<and> distinct (ch' h) \<and>
        (\<forall>j \<in> set (ch' h). 0 \<le> hd_id (hi_id hi' ! j) \<and> hash_of k (hd_id (hi_id hi' ! j)) = h)"
      proof (cases "h = ?h")
        case True
        then show ?thesis
          using old ids ns i(2) d(2,5) h free assms(2) by (auto simp: hi'_def ch'_def)
      next
        case False
        then show ?thesis using old ids d(2,5) h by (simp add: hi'_def ch'_def)
      qed
    qed
  qed
  then have ok: "hashid_ok hi'" and rep': "hashid_rep hi' k ch'" by (auto simp: hashid_ok_def)
  have map: "hid_map hi' y = (if y = x then Some i else hid_map hi y)" if y: "0 \<le> y" for y
  proof (cases "y = x")
    case True
    then show ?thesis using hid_map_iff [OF rep' y, of i] i(2) ns(3) by (simp add: hi'_def)
  next
    case False
    have "hid_map hi' y = Some j \<longleftrightarrow> hid_map hi y = Some j" for j
      using hid_map_iff [OF rep' y, of j] hid_map_iff [OF rep y, of j] ns False i(3) y
      by (cases "j = i") (auto simp: hi'_def)
    then show ?thesis using False by (cases "hid_map hi y"; cases "hid_map hi' y") auto
  qed
  have "hid_map hi y \<noteq> Some i" if "0 \<le> y" for y
    using hid_map_iff [OF rep that, of i] i(3) that by auto
  then show ?thesis using ins ok map i(2) by (auto simp: hi'_def)
qed

lemma remove_rep:
  assumes rep: "hashid_rep hi k ch" and t: "t < hi_cap hi" "hd_id (hi_id hi ! t) = x" "0 \<le> x"
    and ns: "length ns = hi_cap hi" "\<And>i. hd_id (ns ! i) = hd_id (hi_id hi ! i)"
      "\<And>i. i \<notin> set (ch (hash_of k x)) \<Longrightarrow> ns ! i = hi_id hi ! i"
    and hash: "length hash = 2 ^ k" "\<And>h. h \<noteq> hash_of k x \<Longrightarrow> hash ! h = hi_hash hi ! h"
    and lk: "links ns (hash ! hash_of k x) (remove1 t (ch (hash_of k x)))"
  shows "hashid_rep (hi\<lparr>hi_hash := hash, hi_id := clear_node t ns, hi_count := hi_count hi - 1\<rparr>) k
    (ch(hash_of k x := remove1 t (ch (hash_of k x))))"
    (is "hashid_rep ?hi k ?ch")
proof -
  note d = hashid_repD [OF rep]
  let ?h = "hash_of k x"
  have tin: "t \<in> set (ch ?h)" using d(8) [OF t(1)] t by auto
  have dist: "distinct (ch h)" if "h < 2 ^ k" for h using d(5) that .
  have clr: "clear_node t ns ! j = (if j = t then \<lparr>hd_id = - 1, hd_next = None\<rparr> else ns ! j)" for j
    using t(1) ns(1) by (simp add: clear_node_def)
  have tother: "t \<notin> set (ch h)" if "h < 2 ^ k" "h \<noteq> ?h" for h using d(6) [OF that(1), of t] t(2) that(2) by auto
  have u: "used ?hi = used hi - {t}" using clr ns(2) by (auto simp: used_def)
  have tu: "t \<in> used hi" using t by (auto simp: used_def)
  show ?thesis
    unfolding hashid_rep_def
  proof (intro conjI)
    show "length (hi_id ?hi) = hi_cap ?hi" "length (hi_hash ?hi) = 2 ^ k" "hi_hashmod ?hi = 2 ^ k - 1"
      using ns(1) hash(1) d(3) by (simp_all add: clear_node_def)
    show "hi_count ?hi = card (used ?hi)" using u tu d(10) by simp
    show "\<forall>a \<in> used ?hi. \<forall>b \<in> used ?hi. hd_id (hi_id ?hi ! a) = hd_id (hi_id ?hi ! b) \<longrightarrow> a = b"
      unfolding u using d(9) clr ns(2) by auto
    show "\<forall>j < hi_cap ?hi. if hd_id (hi_id ?hi ! j) = - 1 then hd_next (hi_id ?hi ! j) = None
        else j \<in> set (?ch (hash_of k (hd_id (hi_id ?hi ! j))))"
    proof (intro allI impI)
      fix j
      assume "j < hi_cap ?hi"
      then have j: "j < hi_cap hi" by simp
      show "if hd_id (hi_id ?hi ! j) = - 1 then hd_next (hi_id ?hi ! j) = None
        else j \<in> set (?ch (hash_of k (hd_id (hi_id ?hi ! j))))"
      proof (cases "j = t \<or> hd_id (hi_id hi ! j) \<noteq> - 1")
        case True
        then show ?thesis
          using clr ns(2) d(8) [OF j] dist [of ?h] by (auto simp: in_set_remove1)
      next
        case False
        then have "j \<notin> set (ch ?h)" using d(6) [of ?h j] by auto
        then have "ns ! j = hi_id hi ! j" by (rule ns(3))
        with False d(7) [OF j] clr show ?thesis by simp
      qed
    qed
    show "\<forall>h < 2 ^ k. links (hi_id ?hi) (hi_hash ?hi ! h) (?ch h) \<and> distinct (?ch h) \<and>
        (\<forall>j \<in> set (?ch h). 0 \<le> hd_id (hi_id ?hi ! j) \<and> hash_of k (hd_id (hi_id ?hi ! j)) = h)"
    proof (intro allI impI)
      fix h :: nat
      assume h: "h < 2 ^ k"
      show "links (hi_id ?hi) (hi_hash ?hi ! h) (?ch h) \<and> distinct (?ch h) \<and>
        (\<forall>j \<in> set (?ch h). 0 \<le> hd_id (hi_id ?hi ! j) \<and> hash_of k (hd_id (hi_id ?hi ! j)) = h)"
      proof (cases "h = ?h")
        case True
        have "t \<notin> set (remove1 t (ch ?h))" using dist [of ?h] by simp
        then have "links (clear_node t ns) (hash ! ?h) (remove1 t (ch ?h))"
          using lk by (simp add: clear_node_def)
        moreover have "0 \<le> hd_id (clear_node t ns ! j) \<and> hash_of k (hd_id (clear_node t ns ! j)) = ?h"
          if "j \<in> set (remove1 t (ch ?h))" for j
          using that dist [of ?h] d(6) [of ?h j] clr [of j] ns(2) by auto
        ultimately show ?thesis using True dist [of ?h] by simp
      next
        case False
        have eq: "links ns p xs = links (hi_id hi) p xs" if "\<forall>i \<in> set xs. ns ! i = hi_id hi ! i" for p xs
          using that by (induction xs arbitrary: p) (auto simp: ns(1) d(1))
        have "ns ! i = hi_id hi ! i" if "i \<in> set (ch h)" for i
          using d(6) [OF h that] False d(6) [of ?h i] by (intro ns(3)) auto
        then have "links (clear_node t ns) (hash ! h) (ch h)"
          using d(4) [OF h] eq [of "ch h"] tother [OF h False] hash(2) [OF False] by (simp add: clear_node_def)
        moreover have "0 \<le> hd_id (clear_node t ns ! j) \<and> hash_of k (hd_id (clear_node t ns ! j)) = h"
          if "j \<in> set (ch h)" for j
          using d(6) [OF h that] clr [of j] ns(2) tother [OF h False] that by auto
        ultimately show ?thesis using False dist [OF h] by simp
      qed
    qed
  qed
qed

lemma remove_spec:
  assumes "hashid_ok hi" "0 \<le> x"
  shows "case hid_map hi x of
      None \<Rightarrow> hashid_remove hi x = Some (- 1, hi)
    | Some t \<Rightarrow> \<exists>hi'. hashid_remove hi x = Some (int t, hi') \<and> hashid_ok hi' \<and> hi_cap hi' = hi_cap hi \<and>
        (\<forall>y \<ge> 0. hid_map hi' y = (if y = x then None else hid_map hi y)) \<and> hi_count hi' = hi_count hi - 1"
proof -
  obtain k ch where rep: "hashid_rep hi k ch" using assms(1) by (auto simp: hashid_ok_def)
  note d = hashid_repD [OF rep]
  let ?h = "hash_of k x"
  have lk: "links (hi_id hi) (hi_hash hi ! ?h) (ch ?h)" using d(4) by simp
  have h: "nat (x AND hi_hashmod hi) = ?h" "?h < length (hi_hash hi)"
    using and_hashmod [OF assms(2), of k] d(2,3) by simp_all
  note fc = find_chain [OF rep assms(2)]
  have unlink: "\<exists>hi'. hi' = hi\<lparr>hi_hash := hash, hi_id := clear_node t ns, hi_count := hi_count hi - 1\<rparr> \<and>
      hashid_ok hi' \<and> hi_cap hi' = hi_cap hi \<and>
      (\<forall>y \<ge> 0. hid_map hi' y = (if y = x then None else hid_map hi y)) \<and> hi_count hi' = hi_count hi - 1"
    if t: "hid_map hi x = Some t" and ns: "length ns = hi_cap hi" "\<forall>i. hd_id (ns ! i) = hd_id (hi_id hi ! i)"
      "\<forall>i. i \<notin> set (ch ?h) \<longrightarrow> ns ! i = hi_id hi ! i"
      and hash: "length hash = 2 ^ k" "\<forall>h. h \<noteq> ?h \<longrightarrow> hash ! h = hi_hash hi ! h"
      "links ns (hash ! ?h) (remove1 t (ch ?h))" for t ns hash
  proof -
    let ?hi = "hi\<lparr>hi_hash := hash, hi_id := clear_node t ns, hi_count := hi_count hi - 1\<rparr>"
    have tx: "t < hi_cap hi" "hd_id (hi_id hi ! t) = x" using hid_map_iff [OF rep assms(2), of t] t by simp_all
    have rep': "hashid_rep ?hi k (ch(?h := remove1 t (ch ?h)))"
      using remove_rep [OF rep tx assms(2) ns(1) _ _ hash(1) _ hash(3)] ns(2,3) hash(2) by blast
    have clr: "hd_id (clear_node t ns ! j) = (if j = t then - 1 else hd_id (hi_id hi ! j))" for j
      using tx(1) ns by (simp add: clear_node_def)
    have "hid_map ?hi y = (if y = x then None else hid_map hi y)" if y: "0 \<le> y" for y
    proof -
      have "hid_map ?hi y = Some j \<longleftrightarrow> y \<noteq> x \<and> hid_map hi y = Some j" for j
        using hid_map_iff [OF rep' y, of j] hid_map_iff [OF rep y, of j] clr [of j] tx y
          hid_map_iff [OF rep assms(2), of j] t by auto
      then show ?thesis by (cases "hid_map ?hi y"; cases "hid_map hi y") auto
    qed
    with rep' show ?thesis by (auto simp: hashid_ok_def)
  qed
  show ?thesis
  proof (cases "ch ?h")
    case Nil
    with lk fc h show ?thesis by (simp add: hashid_remove_def)
  next
    case (Cons c xs)
    have c: "hi_hash hi ! ?h = Some c" "c < length (hi_id hi)" "links (hi_id hi) (hd_next (hi_id hi ! c)) xs"
      "links (hi_id hi) (Some c) (c # xs)" "distinct (c # xs)"
      using lk Cons d(5) [of ?h] by simp_all
    show ?thesis
    proof (cases "hd_id (hi_id hi ! c) = x")
      case True
      then have t: "hid_map hi x = Some c" using fc Cons by simp
      let ?hash = "(hi_hash hi)[?h := hd_next (hi_id hi ! c)]"
      have "links (hi_id hi) (?hash ! ?h) (remove1 c (ch ?h))" using c(3) Cons h(2) by simp
      from unlink [OF t d(1) _ _ _ _ this] True t c(1,2) h show ?thesis
        using d(2) by (simp add: hashid_remove_def)
    next
      case False
      then have f: "find (\<lambda>i. hd_id (hi_id hi ! i) = x) xs = hid_map hi x" using fc Cons by simp
      show ?thesis
      proof (cases "hid_map hi x")
        case None
        with remove_loop_spec [OF c(4,5), of x] f False c(1,2) h show ?thesis
          by (simp add: hashid_remove_def)
      next
        case (Some t)
        then obtain ns where ns: "remove_loop (hi_id hi) x c = Some (Some (t, ns))" "length ns = length (hi_id hi)"
          "links ns (Some c) (c # remove1 t xs)" "t \<in> set xs" "\<forall>i. hd_id (ns ! i) = hd_id (hi_id hi ! i)"
          "\<forall>i. i \<notin> set (c # xs) \<longrightarrow> ns ! i = hi_id hi ! i"
          using remove_loop_spec [OF c(4,5), of x] f by auto
        have "c \<noteq> t" using c(5) ns(4) by auto
        then have "links ns (hi_hash hi ! ?h) (remove1 t (ch ?h))" using ns(3) Cons c(1) by simp
        from unlink [OF Some _ ns(5) _ d(2) _ this] ns Some False c(1,2) h Cons d(1) show ?thesis
          by (simp add: hashid_remove_def)
      qed
    qed
  qed
qed

lemma hashcap_loop_spec: "0 < c \<Longrightarrow> \<exists>j. hashcap_loop c m = Some (c * 2 ^ j) \<and> m \<le> c * 2 ^ j"
proof (induction "m - c" arbitrary: c rule: less_induct)
  case less
  show ?case
  proof (cases "c < m")
    case True
    with less.prems have "m - c * 2 < m - c" by simp
    with less.hyps [of "c * 2"] less.prems obtain j where
      "hashcap_loop (c * 2) m = Some (c * 2 * 2 ^ j)" "m \<le> c * 2 * 2 ^ j" by auto
    with True show ?thesis by (subst hashcap_loop.simps) (auto intro!: exI [of _ "Suc j"])
  next
    case False
    then show ?thesis by (subst hashcap_loop.simps) (auto intro!: exI [of _ 0])
  qed
qed

lemma init_spec: "\<exists>hi. hashid_init m = Some hi \<and> hashid_ok hi \<and> hi_cap hi = m \<and> hi_count hi = 0 \<and>
    (\<forall>x \<ge> 0. hid_map hi x = None)"
proof -
  obtain j where j: "hashcap_loop 16 m = Some (16 * 2 ^ j)" using hashcap_loop_spec [of 16 m] by auto
  define hi where "hi = \<lparr>hi_hashmod = int (16 * 2 ^ j) - 1, hi_cap = m, hi_count = 0,
    hi_id = replicate m \<lparr>hd_id = - 1, hd_next = None\<rparr>, hi_hash = replicate (16 * 2 ^ j) None\<rparr>"
  have p: "(16 :: nat) * 2 ^ j = 2 ^ (j + 4)" by (simp add: power_add)
  have u: "used hi = {}" by (auto simp: used_def hi_def)
  have f: "hi_id hi = replicate m \<lparr>hd_id = - 1, hd_next = None\<rparr>" "hi_hash hi = replicate (2 ^ (j + 4)) None"
    "hi_hashmod hi = 2 ^ (j + 4) - 1" "hi_cap hi = m" "hi_count hi = 0"
    by (simp_all add: hi_def p)
  then have "hashid_rep hi (j + 4) (\<lambda>_. [])" unfolding hashid_rep_def u f by simp
  moreover have "hid_map hi x = None" if "0 \<le> x" for x
    using that by (auto simp: hid_map_def hi_def find_None_iff)
  moreover have "hashid_init m = Some hi" using j by (simp add: hashid_init_def hi_def)
  ultimately show ?thesis by (auto simp: hashid_ok_def hi_def)
qed

subsection \<open>Properties\<close>

text \<open>The operations on the table, and what they do to the map.\<close>

text \<open>
  C22. The connection table is a finite map from socket ids to distinct node indices below its
  capacity, for ids up to \<open>2 ^ 31 - cap\<close>: in every well-formed table a look-up returns the index or \<open>- 1\<close>, an insertion of a new id
  into a table that is not full takes an index nobody has, and a removal forgets exactly that id; all
  leave a well-formed table and a count that matches.
\<close>

theorem hashid_finite_map:
  assumes "hashid_ok hi" "0 \<le> x" "x + int (hi_cap hi) \<le> 2 ^ 31"
  shows "hashid_lookup hi x = Some (case hid_map hi x of Some i \<Rightarrow> int i | None \<Rightarrow> - 1) \<and>
    (hid_map hi x = None \<and> \<not> hashid_full hi \<longrightarrow> (\<exists>i hi'. hashid_insert hi x = Some (int i, hi') \<and> hashid_ok hi' \<and>
       i < hi_cap hi \<and> (\<forall>y \<ge> 0. hid_map hi y \<noteq> Some i) \<and>
       (\<forall>y \<ge> 0. hid_map hi' y = (if y = x then Some i else hid_map hi y)) \<and> hi_count hi' = Suc (hi_count hi))) \<and>
    (\<exists>hi'. hashid_remove hi x = Some (case hid_map hi x of Some i \<Rightarrow> int i | None \<Rightarrow> - 1, hi') \<and> hashid_ok hi' \<and>
       (\<forall>y \<ge> 0. hid_map hi' y = (if y = x then None else hid_map hi y)))"
proof (intro conjI impI)
  show "hashid_lookup hi x = Some (case hid_map hi x of Some i \<Rightarrow> int i | None \<Rightarrow> - 1)"
    by (rule lookup_spec [OF assms(1,2)])
  show "\<exists>hi'. hashid_remove hi x = Some (case hid_map hi x of Some i \<Rightarrow> int i | None \<Rightarrow> - 1, hi') \<and> hashid_ok hi' \<and>
       (\<forall>y \<ge> 0. hid_map hi' y = (if y = x then None else hid_map hi y))"
    using remove_spec [OF assms(1,2)] assms(1) by (auto split: option.splits)
qed (use insert_spec [OF assms(1,2)] assms(3) in blast)

theorem hashid_finite_map_witness:
  "\<exists>hi i hi'. hashid_init 8 = Some hi \<and> hashid_insert hi 7 = Some (int i, hi') \<and> hid_map hi' 7 = Some i"
proof -
  obtain hi where hi: "hashid_init 8 = Some hi" "hashid_ok hi" "hi_cap hi = 8" "hi_count hi = 0"
    "\<forall>x \<ge> 0. hid_map hi x = None"
    using init_spec [of 8] by blast
  then have "\<not> hashid_full hi" by (simp add: hashid_full_def)
  with hashid_finite_map [OF hi(2), of 7] hi(1,3,5) show ?thesis by fastforce
qed

text \<open>
  Above that bound the probe can overflow: with three connections, the node of index 1 taken, the
  largest id is sent to index \<open>- 2\<close>.
\<close>

lemma hashid_insert_overflow:
  "hashid_insert \<lparr>hi_hashmod = 15, hi_cap = 3, hi_count = 1,
     hi_id = [\<lparr>hd_id = - 1, hd_next = None\<rparr>, \<lparr>hd_id = 4, hd_next = None\<rparr>, \<lparr>hd_id = - 1, hd_next = None\<rparr>],
     hi_hash = replicate 16 None\<rparr> (2 ^ 31 - 1) = None"
proof -
  have "insert_scan [\<lparr>hd_id = - 1, hd_next = None\<rparr>, \<lparr>hd_id = 4, hd_next = None\<rparr>, \<lparr>hd_id = - 1, hd_next = None\<rparr>]
      3 (2 ^ 31 - 1) 0 n = None" if "n = Suc (Suc (Suc 0))" for n
    unfolding that by (simp add: c_rem_def wrap32_def Let_def)
  from this [of 3] show ?thesis by (simp add: hashid_insert_def)
qed

end
