(* ===== verification/Wire.thy ===== *)
theory Wire
  imports CString
begin

section \<open>Bytes, texts and network events shared by the services\<close>

text \<open>
  The services work on blocks of bytes, print numbers into texts, read them back with \<open>sscanf\<close>, and get
  the events of skynet_socket.h as messages. Numbers go over the wire with the high byte first.
\<close>

unbundle bit_operations_syntax

type_synonym bytes = "u8 list"

definition to_bytes :: "string \<Rightarrow> bytes" where
  "to_bytes s = map of_char s"

definition dec :: "int \<Rightarrow> string" where
  "dec i = sprintf_d (word_of_int i)"

text \<open>One conversion \<open>%d\<close> or \<open>%u\<close> of \<open>sscanf\<close>: the value and the rest, or nothing when no digit follows.\<close>

definition is_digit :: "char \<Rightarrow> bool" where
  "is_digit c = (case digit_val c of Some d \<Rightarrow> d < 10 | None \<Rightarrow> False)"

definition scan_num :: "(string \<Rightarrow> u32) \<Rightarrow> string \<Rightarrow> (u32 \<times> string) option" where
  "scan_num conv s = (let (neg, t) = take_sign (skip_space s) in
     case t of
       [] \<Rightarrow> None
     | c # _ \<Rightarrow> if is_digit c then Some (conv s, snd (scan_digits 10 0 t)) else None)"

definition strtoul10_u32 :: "string \<Rightarrow> u32" where
  "strtoul10_u32 s = (let (neg, t) = take_sign (skip_space s); v = int (fst (scan_digits 10 0 t));
     w = (if 2 ^ 64 \<le> v then - 1 else word_of_int v) in if neg \<and> v < 2 ^ 64 then - w else w)"

text \<open>\<open>sscanf(s, "%d %d", &a, &b)\<close> with both variables 0 before, and the same with \<open>%u\<close> for the second.\<close>

definition scan_two :: "(string \<Rightarrow> u32) \<Rightarrow> string \<Rightarrow> u32 \<times> u32" where
  "scan_two conv2 s =
     (case scan_num strtol10_int s of
        None \<Rightarrow> (0, 0)
      | Some (a, r) \<Rightarrow> (a, case scan_num conv2 r of None \<Rightarrow> 0 | Some (b, _) \<Rightarrow> b))"

text \<open>The events of skynet_socket.h, with the block or the text behind the structure.\<close>

datatype socket_event =
    EvData int ptr bytes
  | EvConnect int
  | EvClose int
  | EvError int
  | EvAccept int int string
  | EvWarning int int
  | EvUdp int

subsection \<open>Big-endian words\<close>

definition to_bigendian :: "u32 \<Rightarrow> bytes" where
  "to_bigendian n = [ucast (drop_bit 24 n AND 0xff), ucast (drop_bit 16 n AND 0xff),
     ucast (drop_bit 8 n AND 0xff), ucast (n AND 0xff)]"

definition from_bigendian :: "bytes \<Rightarrow> u32" where
  "from_bigendian b = push_bit 24 (ucast (b ! 0)) OR push_bit 16 (ucast (b ! 1)) OR
     push_bit 8 (ucast (b ! 2)) OR ucast (b ! 3)"

lemma length_to_bigendian [simp]: "length (to_bigendian n) = 4"
  by (simp add: to_bigendian_def)

lemma bit_0xff: "bit (0xff :: u32) i \<longleftrightarrow> i < 8"
proof -
  have "(0xff :: u32) = mask 8" by (simp add: mask_eq_exp_minus_1)
  then show ?thesis by (simp only: bit_mask_iff) auto
qed

lemma bit_byte_0: "bit (ucast (n AND 0xff) :: u8) i \<longleftrightarrow> i < 8 \<and> bit (n :: u32) i"
  by (simp only: bit_ucast_iff bit_and_iff bit_0xff) auto

lemma bit_placed: "bit (push_bit k (ucast (b :: u8)) :: u32) i \<longleftrightarrow> k \<le> i \<and> i < 32 \<and> bit b (i - k)"
  by (auto simp: bit_push_bit_iff bit_ucast_iff dest: bit_imp_le_length)

lemma bit_placed_0: "bit (ucast (b :: u8) :: u32) i \<longleftrightarrow> i < 32 \<and> bit b i"
  by (auto simp: bit_ucast_iff)

lemma from_bigendian_Cons: "from_bigendian (a # b # c # d # r) =
    push_bit 24 (ucast a) OR push_bit 16 (ucast b) OR push_bit 8 (ucast c) OR ucast d"
  by (simp add: from_bigendian_def)

lemma from_to_bigendian [simp]: "from_bigendian (to_bigendian n @ r) = n"
proof (rule bit_word_eqI)
  fix i :: nat
  assume "i < LENGTH(32)"
  then have i: "i < 32" by simp
  have b: "bit (from_bigendian (to_bigendian n @ r)) i \<longleftrightarrow>
      24 \<le> i \<and> i - 24 < 8 \<and> bit n (24 + (i - 24)) \<or> 16 \<le> i \<and> i - 16 < 8 \<and> bit n (16 + (i - 16)) \<or>
      8 \<le> i \<and> i - 8 < 8 \<and> bit n (8 + (i - 8)) \<or> i < 8 \<and> bit n i"
    using i
    by (simp only: to_bigendian_def append_Cons append_Nil from_bigendian_Cons bit_or_iff bit_placed bit_placed_0
        bit_byte_0 bit_drop_bit_eq comp_def) blast
  consider "i < 8" | "8 \<le> i" "i < 16" | "16 \<le> i" "i < 24" | "24 \<le> i" by linarith
  then show "bit (from_bigendian (to_bigendian n @ r)) i = bit n i"
    unfolding b using i by cases auto
qed

end
