(* ===== verification/Databuffer.thy ===== *)
theory Databuffer
  imports Wire
begin

section \<open>The reassembly buffer of the gate (service-src/databuffer.h)\<close>

text \<open>
  The blocks of a connection are queued as they arrive and read across their boundaries; used
  up blocks are freed and their list nodes go back to a pool. A message is its block and the
  block's bytes; of the pool only the numbers of arrays and of free nodes matter. \<open>mp_freed\<close>
  records the blocks given to \<open>skynet_free\<close>, in order.

  The lemmas show that the buffer is a byte queue: what is read is the prefix of the
  concatenation of what was pushed, whatever the block boundaries, and each block is freed once, when its
  last byte is read.
\<close>

record db_message =
  bm_buffer :: ptr
  bm_data :: bytes

record databuffer =
  db_header :: int
  db_offset :: nat
  db_size :: nat
  db_msgs :: "db_message list"

record messagepool =
  mp_pool :: nat
  mp_freelist :: nat
  mp_freed :: "ptr list"

definition MESSAGEPOOL :: nat where "MESSAGEPOOL = 1023"

definition databuffer_new :: databuffer where
  "databuffer_new = \<lparr>db_header = 0, db_offset = 0, db_size = 0, db_msgs = []\<rparr>"

definition messagepool_free :: "messagepool \<Rightarrow> messagepool" where
  "messagepool_free mp = mp\<lparr>mp_pool := 0, mp_freelist := 0\<rparr>"

text \<open>\<open>_return_message\<close> drops the first message.\<close>

definition return_message :: "databuffer \<Rightarrow> messagepool \<Rightarrow> (databuffer \<times> messagepool) option" where
  "return_message db mp =
     (case db_msgs db of
        [] \<Rightarrow> None
      | m # ms \<Rightarrow> Some (db\<lparr>db_msgs := ms\<rparr>,
          mp\<lparr>mp_freelist := Suc (mp_freelist mp), mp_freed := mp_freed mp @ [bm_buffer m]\<rparr>))"

text \<open>The loop of \<open>databuffer_read\<close>; it returns the bytes it copied.\<close>

partial_function (option) read_loop ::
  "nat \<Rightarrow> databuffer \<Rightarrow> messagepool \<Rightarrow> (bytes \<times> databuffer \<times> messagepool) option" where
  "read_loop sz db mp =
     (case db_msgs db of
        [] \<Rightarrow> None
      | current # _ \<Rightarrow> do {
          c_assert (db_offset db \<le> length (bm_data current));
          let bsz = length (bm_data current) - db_offset db;
          if sz < bsz then
            Some (take sz (drop (db_offset db) (bm_data current)), db\<lparr>db_offset := db_offset db + sz\<rparr>, mp)
          else if bsz = sz then do {
            (db', mp') \<leftarrow> return_message (db\<lparr>db_offset := 0\<rparr>) mp;
            Some (take sz (drop (db_offset db) (bm_data current)), db', mp') }
          else do {
            (db1, mp1) \<leftarrow> return_message db mp;
            (bs, db', mp') \<leftarrow> read_loop (sz - bsz) (db1\<lparr>db_offset := 0\<rparr>) mp1;
            Some (take bsz (drop (db_offset db) (bm_data current)) @ bs, db', mp') } })"

definition databuffer_read ::
  "nat \<Rightarrow> databuffer \<Rightarrow> messagepool \<Rightarrow> (bytes \<times> databuffer \<times> messagepool) option" where
  "databuffer_read sz db mp = do {
     c_assert (sz \<le> db_size db);
     read_loop sz (db\<lparr>db_size := db_size db - sz\<rparr>) mp }"

text \<open>The pool hands out a free node, or allocates an array of them and keeps all but the first.\<close>

definition databuffer_push :: "ptr \<Rightarrow> bytes \<Rightarrow> databuffer \<Rightarrow> messagepool \<Rightarrow> databuffer \<times> messagepool" where
  "databuffer_push p data db mp =
     (db\<lparr>db_size := db_size db + length data, db_msgs := db_msgs db @ [\<lparr>bm_buffer = p, bm_data = data\<rparr>]\<rparr>,
      if 0 < mp_freelist mp then mp\<lparr>mp_freelist := mp_freelist mp - 1\<rparr>
      else mp\<lparr>mp_pool := Suc (mp_pool mp), mp_freelist := MESSAGEPOOL - 1\<rparr>)"

text \<open>The big-endian number in the header, as the C expressions compute it (a signed \<open>int\<close>).\<close>

definition be_header :: "bytes \<Rightarrow> int" where
  "be_header plen =
     (if length plen = 2 then int (unat (plen ! 0) * 256 + unat (plen ! 1))
      else sint (word_of_nat (unat (plen ! 0) * 2 ^ 24 + unat (plen ! 1) * 2 ^ 16 +
        unat (plen ! 2) * 2 ^ 8 + unat (plen ! 3)) :: u32))"

definition databuffer_readheader ::
  "nat \<Rightarrow> databuffer \<Rightarrow> messagepool \<Rightarrow> (int \<times> databuffer \<times> messagepool) option" where
  "databuffer_readheader header_size db mp =
     (if db_header db = 0 then
        if db_size db < header_size then Some (- 1, db, mp)
        else do {
          (plen, db1, mp1) \<leftarrow> databuffer_read header_size db mp;
          let db2 = db1\<lparr>db_header := be_header plen\<rparr>;
          Some (if int (db_size db2) < db_header db2 then - 1 else db_header db2, db2, mp1) }
      else Some (if int (db_size db) < db_header db then - 1 else db_header db, db, mp))"

definition databuffer_reset :: "databuffer \<Rightarrow> databuffer" where
  "databuffer_reset db = db\<lparr>db_header := 0\<rparr>"

text \<open>Everything that is queued is freed.\<close>

definition databuffer_clear :: "databuffer \<Rightarrow> messagepool \<Rightarrow> databuffer \<times> messagepool" where
  "databuffer_clear db mp = (databuffer_new,
     mp\<lparr>mp_freelist := mp_freelist mp + length (db_msgs db), mp_freed := mp_freed mp @ map bm_buffer (db_msgs db)\<rparr>)"

subsection \<open>The buffer is a byte queue\<close>

definition db_bytes :: "databuffer \<Rightarrow> bytes" where
  "db_bytes db = drop (db_offset db) (concat (map bm_data (db_msgs db)))"

definition db_ok :: "databuffer \<Rightarrow> bool" where
  "db_ok db \<longleftrightarrow> db_size db = length (db_bytes db) \<and>
     (case db_msgs db of [] \<Rightarrow> db_offset db = 0 | m # _ \<Rightarrow> db_offset db \<le> length (bm_data m))"

lemma db_ok_new [simp]: "db_ok databuffer_new" "db_bytes databuffer_new = []" "db_header databuffer_new = 0"
  by (simp_all add: db_ok_def db_bytes_def databuffer_new_def)

lemma db_ok_header [simp]: "db_ok (db\<lparr>db_header := h\<rparr>) = db_ok db" "db_bytes (db\<lparr>db_header := h\<rparr>) = db_bytes db"
  by (simp_all add: db_ok_def db_bytes_def cong: list.case_cong)

lemma db_bytes_size [simp]: "db_bytes (db\<lparr>db_size := n\<rparr>) = db_bytes db"
  by (simp add: db_bytes_def)

lemma read_loop_spec:
  assumes "0 < sz" "sz \<le> length (db_bytes db)" "db_size db = length (db_bytes db) - sz"
    and "case db_msgs db of [] \<Rightarrow> db_offset db = 0 | m # _ \<Rightarrow> db_offset db \<le> length (bm_data m)"
  shows "\<exists>db' mp'. read_loop sz db mp = Some (take sz (db_bytes db), db', mp') \<and> db_ok db' \<and>
    db_bytes db' = drop sz (db_bytes db) \<and> db_header db' = db_header db \<and>
    mp_freed mp' @ map bm_buffer (db_msgs db') = mp_freed mp @ map bm_buffer (db_msgs db)"
  using assms
proof (induction "length (db_msgs db)" arbitrary: db mp sz rule: less_induct)
  case less
  show ?case
  proof (cases "db_msgs db")
    case Nil
    with less.prems show ?thesis by (simp add: db_bytes_def)
  next
    case (Cons m ms)
    let ?off = "db_offset db" let ?bsz = "length (bm_data m) - ?off"
    have off: "?off \<le> length (bm_data m)" using less.prems(4) Cons by simp
    have bytes: "db_bytes db = drop ?off (bm_data m) @ concat (map bm_data ms)"
      using off Cons by (simp add: db_bytes_def)
    consider (lt) "sz < ?bsz" | (eq) "sz = ?bsz" | (gt) "?bsz < sz" by linarith
    then show ?thesis
    proof cases
      case lt
      let ?db = "db\<lparr>db_offset := ?off + sz\<rparr>"
      have "read_loop sz db mp = Some (take sz (drop ?off (bm_data m)), ?db, mp)"
        using lt off Cons by (subst read_loop.simps) simp
      moreover have "take sz (db_bytes db) = take sz (drop ?off (bm_data m))" using lt bytes by simp
      moreover have "db_bytes ?db = drop sz (db_bytes db)"
        using lt Cons bytes off by (simp add: db_bytes_def add.commute)
      moreover have "db_ok ?db"
        using less.prems(3) calculation(3) lt Cons by (simp add: db_ok_def)
      ultimately show ?thesis by auto
    next
      case eq
      let ?db = "db\<lparr>db_offset := 0, db_msgs := ms\<rparr>"
      let ?mp = "mp\<lparr>mp_freelist := Suc (mp_freelist mp), mp_freed := mp_freed mp @ [bm_buffer m]\<rparr>"
      have "read_loop sz db mp = Some (take sz (drop ?off (bm_data m)), ?db, ?mp)"
        using eq off Cons by (subst read_loop.simps) (simp add: return_message_def Let_def)
      moreover have "take sz (db_bytes db) = take sz (drop ?off (bm_data m))" using eq bytes by simp
      moreover have b: "db_bytes ?db = drop sz (db_bytes db)"
        using eq bytes by (simp add: db_bytes_def)
      moreover have "db_ok ?db"
        using less.prems(3) b by (simp add: db_ok_def split: list.split)
      ultimately show ?thesis using Cons by auto
    next
      case gt
      let ?db = "db\<lparr>db_msgs := ms, db_offset := 0\<rparr>"
      let ?mp = "mp\<lparr>mp_freelist := Suc (mp_freelist mp), mp_freed := mp_freed mp @ [bm_buffer m]\<rparr>"
      have b: "db_bytes ?db = concat (map bm_data ms)" by (simp add: db_bytes_def)
      have len: "length (db_bytes db) = ?bsz + length (db_bytes ?db)" using bytes b by simp
      have p: "length (db_msgs ?db) < length (db_msgs db)" "0 < sz - ?bsz" "sz - ?bsz \<le> length (db_bytes ?db)"
        "db_size ?db = length (db_bytes ?db) - (sz - ?bsz)"
        "case db_msgs ?db of [] \<Rightarrow> db_offset ?db = 0 | m # _ \<Rightarrow> db_offset ?db \<le> length (bm_data m)"
        using gt less.prems(2,3) len Cons by (auto split: list.split)
      obtain db' mp' where r: "read_loop (sz - ?bsz) ?db ?mp = Some (take (sz - ?bsz) (db_bytes ?db), db', mp')"
        "db_ok db'" "db_bytes db' = drop (sz - ?bsz) (db_bytes ?db)" "db_header db' = db_header ?db"
        "mp_freed mp' @ map bm_buffer (db_msgs db') = mp_freed ?mp @ map bm_buffer (db_msgs ?db)"
        using less.hyps [OF p] by blast
      have "read_loop sz db mp = Some (take ?bsz (drop ?off (bm_data m)) @ take (sz - ?bsz) (db_bytes ?db), db', mp')"
        using gt off Cons r(1) by (subst read_loop.simps) (simp add: return_message_def Let_def)
      moreover have "take ?bsz (drop ?off (bm_data m)) @ take (sz - ?bsz) (db_bytes ?db) = take sz (db_bytes db)"
        using gt bytes b by simp
      moreover have "db_bytes db' = drop sz (db_bytes db)" using gt bytes b r(3) by simp
      ultimately show ?thesis using r(2,4,5) Cons by auto
    qed
  qed
qed

lemma databuffer_read_spec:
  assumes "db_ok db" "0 < sz" "sz \<le> length (db_bytes db)"
  shows "\<exists>db' mp'. databuffer_read sz db mp = Some (take sz (db_bytes db), db', mp') \<and> db_ok db' \<and>
    db_bytes db' = drop sz (db_bytes db) \<and> db_header db' = db_header db \<and>
    mp_freed mp' @ map bm_buffer (db_msgs db') = mp_freed mp @ map bm_buffer (db_msgs db)"
proof -
  let ?db = "db\<lparr>db_size := db_size db - sz\<rparr>"
  have b: "db_bytes ?db = db_bytes db" by (simp add: db_bytes_def)
  have sz: "db_size db = length (db_bytes db)" using assms(1) by (simp add: db_ok_def)
  have "case db_msgs ?db of [] \<Rightarrow> db_offset ?db = 0 | m # _ \<Rightarrow> db_offset ?db \<le> length (bm_data m)"
    using assms(1) by (cases "db_msgs db") (simp_all add: db_ok_def)
  moreover have "sz \<le> length (db_bytes ?db)" "db_size ?db = length (db_bytes ?db) - sz" using assms(3) b sz by simp_all
  ultimately have "\<exists>db' mp'. read_loop sz ?db mp = Some (take sz (db_bytes ?db), db', mp') \<and> db_ok db' \<and>
      db_bytes db' = drop sz (db_bytes ?db) \<and> db_header db' = db_header ?db \<and>
      mp_freed mp' @ map bm_buffer (db_msgs db') = mp_freed mp @ map bm_buffer (db_msgs ?db)"
    using read_loop_spec [OF assms(2), of ?db mp] by blast
  then show ?thesis using assms(3) sz by (auto simp: databuffer_read_def b)
qed

lemma databuffer_push_spec:
  assumes "db_ok db" "databuffer_push p data db mp = (db', mp')"
  shows "db_ok db'" "db_bytes db' = db_bytes db @ data" "db_header db' = db_header db"
    "mp_freed mp' = mp_freed mp" "map bm_buffer (db_msgs db') = map bm_buffer (db_msgs db) @ [p]"
proof -
  have off: "db_offset db \<le> length (concat (map bm_data (db_msgs db)))"
    using assms(1) by (auto simp: db_ok_def split: list.splits)
  then show b: "db_bytes db' = db_bytes db @ data"
    using assms(2) by (auto simp: databuffer_push_def db_bytes_def)
  show "db_header db' = db_header db" "mp_freed mp' = mp_freed mp"
    "map bm_buffer (db_msgs db') = map bm_buffer (db_msgs db) @ [p]"
    using assms(2) by (auto simp: databuffer_push_def)
  show "db_ok db'"
    using assms b by (auto simp: databuffer_push_def db_ok_def split: list.splits)
qed

end
