(* ===== verification/Gate.thy ===== *)
theory Gate
  imports Hashid Databuffer
begin

section \<open>The gate service (service-src/service_gate.c)\<close>

text \<open>
  The gate accepts connections and cuts their byte streams into packages: a big-endian
  length of two or four bytes, then the body. It forwards each body to a broker, to the agent of the
  connection or to a watchdog. The calls it makes into the core are recorded in order in
  \<open>gt_calls\<close>; the answers of \<open>skynet_queryname\<close> and \<open>skynet_socket_listen\<close> are the parameter
  \<open>gate_env\<close>.

  The main lemma is that the packages depend only on the concatenation of the blocks that
  arrive, not on how the network cut them.
\<close>

unbundle bit_operations_syntax

datatype gate_call =
    SocketClose int
  | SocketStart int
  | SocketSend int bytes
  | SocketListen string int
  | Send u32 u32 u32 int bytes
  | Log string
  | Callback
  | FreeBuffer ptr

record gate_env =
  ge_query :: "string \<Rightarrow> u32"
  ge_listen :: "string \<Rightarrow> int \<Rightarrow> int"

record connection =
  cn_id :: int
  cn_agent :: u32
  cn_client :: u32
  cn_remote_name :: string
  cn_buffer :: databuffer

record gate =
  gt_listen_id :: int
  gt_watchdog :: u32
  gt_broker :: u32
  gt_client_tag :: u32
  gt_header_size :: nat
  gt_max_connection :: nat
  gt_hash :: hashid
  gt_conn :: "connection list"
  gt_mp :: messagepool
  gt_calls :: "gate_call list"

definition BACKLOG :: int where "BACKLOG = 128"

definition gate_text :: u32 where "gate_text = 0"
definition gate_client :: u32 where "gate_client = 3"
definition gate_dontcopy :: u32 where "gate_dontcopy = 0x10000"

definition call :: "gate_call \<Rightarrow> gate \<Rightarrow> gate" where
  "call c g = g\<lparr>gt_calls := gt_calls g @ [c]\<rparr>"

definition gate_create :: gate where
  "gate_create = \<lparr>gt_listen_id = - 1, gt_watchdog = 0, gt_broker = 0, gt_client_tag = 0, gt_header_size = 0,
     gt_max_connection = 0, gt_hash = \<lparr>hi_hashmod = 0, hi_cap = 0, hi_count = 0, hi_id = [], hi_hash = []\<rparr>,
     gt_conn = [], gt_mp = \<lparr>mp_pool = 0, mp_freelist = 0, mp_freed = []\<rparr>, gt_calls = []\<rparr>"

definition gate_release :: "gate \<Rightarrow> gate" where
  "gate_release g =
     (let g1 = fold (\<lambda>c g. if 0 \<le> cn_id c then call (SocketClose (cn_id c)) g else g) (gt_conn g) g;
          g2 = (if 0 \<le> gt_listen_id g1 then call (SocketClose (gt_listen_id g1)) g1 else g1)
      in g2\<lparr>gt_mp := messagepool_free (gt_mp g2), gt_hash := hashid_clear (gt_hash g2), gt_conn := []\<rparr>)"

subsection \<open>Control messages\<close>

text \<open>\<open>_parm\<close>: the command word and the spaces behind it are removed.\<close>

definition parm :: "string \<Rightarrow> nat \<Rightarrow> string" where
  "parm msg command_sz = dropWhile (\<lambda>c. c = CHR '' '') (drop command_sz msg)"

text \<open>
  \<open>memcmp(command, lit, i) == 0\<close>. Beyond the end of the literal there is nothing to compare
  with; a command that is equal up to there is read against foreign memory.
\<close>

definition memcmp_eq :: "string \<Rightarrow> string \<Rightarrow> nat \<Rightarrow> bool option" where
  "memcmp_eq command lit i =
     (if i \<le> Suc (length lit) then Some (take i command = take i (lit @ [CHR 0x00]))
      else if take (Suc (length lit)) command = lit @ [CHR 0x00] then None else Some False)"

definition forward_agent :: "gate \<Rightarrow> int \<Rightarrow> u32 \<Rightarrow> u32 \<Rightarrow> gate option" where
  "forward_agent g fd agentaddr clientaddr = do {
     i \<leftarrow> hashid_lookup (gt_hash g) fd;
     if 0 \<le> i then do {
       c \<leftarrow> arr_get (gt_conn g) (nat i);
       cs \<leftarrow> arr_set (gt_conn g) (nat i) (c\<lparr>cn_agent := agentaddr, cn_client := clientaddr\<rparr>);
       Some (g\<lparr>gt_conn := cs\<rparr>) }
     else Some g }"

text \<open>
  The fields are pointers into one buffer, so that \<open>agent+1\<close> of an empty field is the next field, and
  \<open>client+1\<close> of an empty one is what \<open>_parm\<close> left behind the new end of the text, \<open>stale\<close>.
\<close>

definition ctrl_forward :: "gate \<Rightarrow> string \<Rightarrow> string \<Rightarrow> gate option" where
  "ctrl_forward g tmp stale =
     (let (idstr, client) = strsep tmp '' '' in
      case client of
        None \<Rightarrow> Some g
      | Some rest \<Rightarrow>
          (let (agent, client) = strsep rest '' '' in
           case client of
             None \<Rightarrow> Some g
           | Some cl \<Rightarrow>
               let client_arg = tl (cl @ CHR 0x00 # stale); agent_arg = tl (agent @ CHR 0x00 # cl @ CHR 0x00 # stale) in
               forward_agent g (sint (strtol10_int idstr)) (strtoul16_u32 agent_arg) (strtoul16_u32 client_arg)))"

definition ctrl :: "gate_env \<Rightarrow> string \<Rightarrow> gate \<Rightarrow> gate option" where
  "ctrl ge msg g =
     (if msg = [] then Some g
      else let i = length (takeWhile (\<lambda>c. c \<noteq> CHR '' '') msg); tmp = parm msg i;
               uid = sint (strtol10_int tmp) in do {
        kick \<leftarrow> memcmp_eq msg ''kick'' i;
        if kick then do {
          r \<leftarrow> hashid_lookup (gt_hash g) uid;
          Some (if 0 \<le> r then call (SocketClose uid) g else g) }
        else do {
          fwd \<leftarrow> memcmp_eq msg ''forward'' i;
          if fwd then ctrl_forward g tmp (drop (Suc (length tmp)) (msg @ [CHR 0x00]))
          else do {
            broker \<leftarrow> memcmp_eq msg ''broker'' i;
            if broker then Some (g\<lparr>gt_broker := ge_query ge tmp\<rparr>)
            else do {
              start \<leftarrow> memcmp_eq msg ''start'' i;
              if start then do {
                r \<leftarrow> hashid_lookup (gt_hash g) uid;
                Some (if 0 \<le> r then call (SocketStart uid) g else g) }
              else do {
                close \<leftarrow> memcmp_eq msg ''close'' i;
                if close then
                  Some (if 0 \<le> gt_listen_id g
                    then (call (SocketClose (gt_listen_id g)) g)\<lparr>gt_listen_id := - 1\<rparr> else g)
                else Some (call (Log (''[gate] Unkown command : '' @ msg)) g) } } } } })"

subsection \<open>Data\<close>

definition report :: "string \<Rightarrow> gate \<Rightarrow> gate" where
  "report data g =
     (if gt_watchdog g = 0 then g
      else call (Send 0 (gt_watchdog g) gate_text 0 (to_bytes (take 1023 data))) g)"

text \<open>
  \<open>_forward\<close>: the body is read from the buffer only on the three paths that send it.
\<close>

definition set_conn :: "nat \<Rightarrow> databuffer \<Rightarrow> messagepool \<Rightarrow> gate \<Rightarrow> gate option" where
  "set_conn i db mp g = do {
     c \<leftarrow> arr_get (gt_conn g) i;
     cs \<leftarrow> arr_set (gt_conn g) i (c\<lparr>cn_buffer := db\<rparr>);
     Some (g\<lparr>gt_conn := cs, gt_mp := mp\<rparr>) }"

definition forward :: "nat \<Rightarrow> nat \<Rightarrow> gate \<Rightarrow> gate option" where
  "forward i sz g = do {
     c \<leftarrow> arr_get (gt_conn g) i;
     let fd = cn_id c;
     if fd \<le> 0 then Some g
     else if gt_broker g \<noteq> 0 then do {
       (temp, db, mp) \<leftarrow> databuffer_read sz (cn_buffer c) (gt_mp g);
       g1 \<leftarrow> set_conn i db mp g;
       Some (call (Send 0 (gt_broker g) (gt_client_tag g OR gate_dontcopy) fd temp) g1) }
     else if cn_agent c \<noteq> 0 then do {
       (temp, db, mp) \<leftarrow> databuffer_read sz (cn_buffer c) (gt_mp g);
       g1 \<leftarrow> set_conn i db mp g;
       Some (call (Send (cn_client c) (cn_agent c) (gt_client_tag g OR gate_dontcopy) fd temp) g1) }
     else if gt_watchdog g \<noteq> 0 then do {
       (temp, db, mp) \<leftarrow> databuffer_read sz (cn_buffer c) (gt_mp g);
       g1 \<leftarrow> set_conn i db mp g;
       Some (call (Send 0 (gt_watchdog g) (gate_text OR gate_dontcopy) fd (to_bytes (dec fd @ '' data '') @ temp)) g1) }
     else Some g }"

partial_function (option) frame_loop :: "nat \<Rightarrow> int \<Rightarrow> gate \<Rightarrow> gate option" where
  "frame_loop i fd g = do {
     c \<leftarrow> arr_get (gt_conn g) i;
     (sz, db, mp) \<leftarrow> databuffer_readheader (gt_header_size g) (cn_buffer c) (gt_mp g);
     g1 \<leftarrow> set_conn i db mp g;
     if sz < 0 then Some g1
     else if 0 < sz then
       if 0x1000000 \<le> sz then do {
         let (db', mp') = databuffer_clear db mp;
         g2 \<leftarrow> set_conn i db' mp' g1;
         Some (call (Log ''Recv socket message > 16M'') (call (SocketClose fd) g2)) }
       else do {
         g2 \<leftarrow> forward i (nat sz) g1;
         c2 \<leftarrow> arr_get (gt_conn g2) i;
         g3 \<leftarrow> set_conn i (databuffer_reset (cn_buffer c2)) (gt_mp g2) g2;
         frame_loop i fd g3 }
     else frame_loop i fd g1 }"

definition gate_dispatch_message :: "nat \<Rightarrow> int \<Rightarrow> ptr \<Rightarrow> bytes \<Rightarrow> gate \<Rightarrow> gate option" where
  "gate_dispatch_message i fd p data g = do {
     c \<leftarrow> arr_get (gt_conn g) i;
     let (db, mp) = databuffer_push p data (cn_buffer c) (gt_mp g);
     g1 \<leftarrow> set_conn i db mp g;
     frame_loop i fd g1 }"

subsection \<open>Socket events and the callback\<close>

definition empty_conn :: connection where
  "empty_conn = \<lparr>cn_id = - 1, cn_agent = 0, cn_client = 0, cn_remote_name = [], cn_buffer = databuffer_new\<rparr>"

definition close_connection :: "int \<Rightarrow> gate \<Rightarrow> gate option" where
  "close_connection fd g = do {
     (i, hash) \<leftarrow> hashid_remove (gt_hash g) fd;
     if 0 \<le> i then do {
       c \<leftarrow> arr_get (gt_conn g) (nat i);
       cs \<leftarrow> arr_set (gt_conn g) (nat i) empty_conn;
       Some (report (dec fd @ '' close'') (g\<lparr>gt_hash := hash, gt_conn := cs,
         gt_mp := snd (databuffer_clear (cn_buffer c) (gt_mp g))\<rparr>)) }
     else Some (g\<lparr>gt_hash := hash\<rparr>) }"

definition accept_connection :: "int \<Rightarrow> string \<Rightarrow> gate \<Rightarrow> gate option" where
  "accept_connection fd name g =
     (if hashid_full (gt_hash g) then Some (call (SocketClose fd) g)
      else do {
        (i, hash) \<leftarrow> hashid_insert (gt_hash g) fd;
        c \<leftarrow> arr_get (gt_conn g) (nat i);
        let name = take 31 name;
        cs \<leftarrow> arr_set (gt_conn g) (nat i) (c\<lparr>cn_id := fd, cn_remote_name := name\<rparr>);
        Some (call (Log (''socket open: '' @ sprintf_x (word_of_int fd)))
          (report (dec fd @ '' open '' @ dec fd @ '' '' @ name @ '':0'') (g\<lparr>gt_hash := hash, gt_conn := cs\<rparr>))) })"

definition dispatch_socket_message :: "socket_event \<Rightarrow> gate \<Rightarrow> gate option" where
  "dispatch_socket_message ev g =
     (case ev of
        EvData fd p data \<Rightarrow> do {
          i \<leftarrow> hashid_lookup (gt_hash g) fd;
          if 0 \<le> i then gate_dispatch_message (nat i) fd p data g
          else Some (call (FreeBuffer p) (call (SocketClose fd)
            (call (Log (''Drop unknown connection '' @ dec fd @ '' message'')) g))) }
      | EvConnect fd \<Rightarrow>
          if fd = gt_listen_id g then Some g
          else do {
            i \<leftarrow> hashid_lookup (gt_hash g) fd;
            if i < 0 then Some (call (SocketClose fd) (call (Log (''Close unknown connection '' @ dec fd)) g))
            else Some g }
      | EvClose fd \<Rightarrow> close_connection fd g
      | EvError fd \<Rightarrow> close_connection fd g
      | EvAccept lid fd name \<Rightarrow> do { c_assert (gt_listen_id g = lid); accept_connection fd name g }
      | EvWarning fd sz \<Rightarrow> Some (call (Log (''fd ('' @ dec fd @ '') send buffer ('' @ dec sz @ '')K'')) g)
      | EvUdp _ \<Rightarrow> Some g)"

datatype gate_msg = Text string | Client u32 bytes | Socket socket_event | Other

text \<open>The result is the return value of the callback: 1 keeps the message from being freed.\<close>

definition cb :: "gate_env \<Rightarrow> gate_msg \<Rightarrow> gate \<Rightarrow> (nat \<times> gate) option" where
  "cb ge msg g =
     (case msg of
        Text s \<Rightarrow> do { g1 \<leftarrow> ctrl ge s g; Some (0, g1) }
      | Client source m \<Rightarrow>
          if length m \<le> 4 then Some (0, call (Log (''Invalid client message from '' @ sprintf_x source)) g)
          else do {
            let idbuf = drop (length m - 4) m;
            let uid = sint (word_of_nat (unat (idbuf ! 0) + unat (idbuf ! 1) * 2 ^ 8 + unat (idbuf ! 2) * 2 ^ 16 +
              unat (idbuf ! 3) * 2 ^ 24) :: u32);
            i \<leftarrow> hashid_lookup (gt_hash g) uid;
            if 0 \<le> i then Some (1, call (SocketSend uid (take (length m - 4) m)) g)
            else Some (0, call (Log (''Invalid client id '' @ dec uid @ '' from '' @ sprintf_x source)) g) }
      | Socket ev \<Rightarrow> do { g1 \<leftarrow> dispatch_socket_message ev g; Some (0, g1) }
      | Other \<Rightarrow> Some (0, g))"

subsection \<open>Start\<close>

text \<open>The address is \<open>host:port\<close> or a port; the last colon separates them.\<close>

definition start_listen :: "gate_env \<Rightarrow> string \<Rightarrow> gate \<Rightarrow> nat \<times> gate" where
  "start_listen ge listen_addr g =
     (let tail = rev (takeWhile (\<lambda>c. c \<noteq> CHR '':'') (rev listen_addr));
          has_colon = (CHR '':'' \<in> set listen_addr);
          host = (if has_colon then take (length listen_addr - length tail - 1) listen_addr else []);
          port = sint (strtol10_int (if has_colon then tail else listen_addr)) in
      if port \<le> 0 then (1, call (Log (''Invalid gate address '' @ listen_addr)) g)
      else
        let lid = ge_listen ge host port; g1 = (call (SocketListen host port) g)\<lparr>gt_listen_id := lid\<rparr> in
        if lid < 0 then (1, g1) else (0, call (SocketStart lid) g1))"

text \<open>
  \<open>gate_init\<close> after \<open>sscanf\<close> has read at least four fields: the header style, the watchdog, the
  binding, the client tag and the maximal number of connections (0 when there is no fifth).
\<close>

definition gate_init ::
  "gate_env \<Rightarrow> char \<Rightarrow> string \<Rightarrow> string \<Rightarrow> u32 \<Rightarrow> int \<Rightarrow> gate \<Rightarrow> (nat \<times> gate) option" where
  "gate_init ge header watchdog binding client_tag limit g =
     (if limit \<le> 0 then Some (1, call (Log ''Need max connection'') g)
      else if header \<noteq> CHR ''S'' \<and> header \<noteq> CHR ''L'' then Some (1, call (Log ''Invalid data header style'') g)
      else
        let client_tag = (if client_tag = 0 then gate_client else client_tag);
            wd = (case watchdog of [] \<Rightarrow> ge_query ge watchdog | c # _ \<Rightarrow> if c = CHR ''!'' then 0 else ge_query ge watchdog);
            off = (case watchdog of [] \<Rightarrow> False | c # _ \<Rightarrow> c = CHR ''!'');
            g0 = g\<lparr>gt_watchdog := wd\<rparr> in
        if \<not> off \<and> wd = 0 then Some (1, call (Log (''Invalid watchdog '' @ watchdog)) g0)
        else do {
          hash \<leftarrow> hashid_init (nat limit);
          Some (start_listen ge binding (call Callback (g0\<lparr>gt_hash := hash,
            gt_conn := replicate (nat limit) empty_conn, gt_max_connection := nat limit,
            gt_client_tag := client_tag, gt_header_size := (if header = CHR ''S'' then 2 else 4)\<rparr>))) })"

subsection \<open>Packages are cut independently of the blocks\<close>

text \<open>The specification: the packages in a byte stream, and what is left of it.\<close>

function frames :: "nat \<Rightarrow> bytes \<Rightarrow> bytes list \<times> bytes" where
  "frames hs bs =
     (if hs = 0 \<or> length bs < hs then ([], bs)
      else let n = nat (be_header (take hs bs)); rest = drop hs bs in
        if length rest < n then ([], bs)
        else let (fs, r) = frames hs (drop n rest) in (if n = 0 then fs else take n rest # fs, r))"
  by pat_completeness auto
termination
  by (relation "measure (\<lambda>(hs, bs). length bs)") auto

declare frames.simps [simp del]

text \<open>All lengths in the stream are below the limit of 16 megabytes.\<close>

function headers_ok :: "nat \<Rightarrow> bytes \<Rightarrow> bool" where
  "headers_ok hs bs =
     (if hs = 0 \<or> length bs < hs then True
      else let h = be_header (take hs bs); rest = drop hs bs in
        0 \<le> h \<and> h < 2 ^ 24 \<and> (if length rest < nat h then True else headers_ok hs (drop (nat h) rest)))"
  by pat_completeness auto
termination
  by (relation "measure (\<lambda>(hs, bs). length bs)") auto

declare headers_ok.simps [simp del]

lemma frames_step:
  assumes "0 < hs" "length plen = hs" "nat (be_header plen) \<le> length bs"
  shows "frames hs (plen @ bs) = (let (fs, r) = frames hs (drop (nat (be_header plen)) bs) in
    (if nat (be_header plen) = 0 then fs else take (nat (be_header plen)) bs # fs, r))"
  using assms by (subst frames.simps) (simp add: Let_def)

lemma frames_wait:
  assumes "length bs < hs \<or> (\<exists>plen b. bs = plen @ b \<and> length plen = hs \<and> length b < nat (be_header plen))"
  shows "frames hs bs = ([], bs)"
  using assms by (subst frames.simps) (auto simp: Let_def)

lemma headers_step:
  assumes "0 < hs" "length plen = hs" "headers_ok hs (plen @ bs)"
  shows "0 \<le> be_header plen" "be_header plen < 2 ^ 24"
    "nat (be_header plen) \<le> length bs \<Longrightarrow> headers_ok hs (drop (nat (be_header plen)) bs)"
  using assms headers_ok.simps [of hs "plen @ bs"] by (auto simp: Let_def)

text \<open>The stream a connection has received and not yet cut.\<close>

definition stream_of :: "nat \<Rightarrow> databuffer \<Rightarrow> bytes \<Rightarrow> bool" where
  "stream_of hs db s \<longleftrightarrow> (db_header db = 0 \<and> s = db_bytes db) \<or>
     (0 < db_header db \<and> (\<exists>plen. length plen = hs \<and> be_header plen = db_header db \<and> s = plen @ db_bytes db))"

lemma readheader_spec:
  assumes "db_ok db" "stream_of hs db s" "headers_ok hs s" "0 < hs"
  shows "\<exists>sz db' mp'. databuffer_readheader hs db mp = Some (sz, db', mp') \<and> db_ok db' \<and>
    (sz < 0 \<and> frames hs s = ([], s) \<and> stream_of hs db' s \<or>
     0 \<le> sz \<and> sz < 2 ^ 24 \<and> db_header db' = sz \<and> nat sz \<le> length (db_bytes db') \<and>
     (\<exists>plen. length plen = hs \<and> be_header plen = sz \<and> s = plen @ db_bytes db'))"
proof (cases "db_header db = 0")
  case True
  then have s: "s = db_bytes db" using assms(2) by (auto simp: stream_of_def)
  have size: "db_size db = length s" using assms(1) s by (simp add: db_ok_def)
  show ?thesis
  proof (cases "length s < hs")
    case short: True
    then have "frames hs s = ([], s)" by (intro frames_wait) simp
    with short size True assms(1,2) show ?thesis by (simp add: databuffer_readheader_def)
  next
    case False
    then obtain db1 mp1 where r: "databuffer_read hs db mp = Some (take hs s, db1, mp1)" "db_ok db1"
      "db_bytes db1 = drop hs s"
      using databuffer_read_spec [OF assms(1,4)] s by force
    let ?plen = "take hs s" let ?h = "be_header ?plen"
    have plen: "length ?plen = hs" "s = ?plen @ drop hs s" using False by simp_all
    have h: "0 \<le> ?h" "?h < 2 ^ 24" using headers_step [OF assms(4) plen(1), of "drop hs s"] assms(3) plen(2) by auto
    define db2 where "db2 = db1\<lparr>db_header := ?h\<rparr>"
    have db2: "db_ok db2" "db_bytes db2 = drop hs s" "db_header db2 = ?h"
      using r(2,3) by (simp_all add: db2_def)
    have size2: "db_size db2 = length (drop hs s)" using db2(1,2) by (simp add: db_ok_def)
    have rh: "databuffer_readheader hs db mp =
        Some (if int (length (drop hs s)) < ?h then - 1 else ?h, db2, mp1)"
      using True False size r(1) size2 by (simp add: databuffer_readheader_def db2_def Let_def)
    show ?thesis
    proof (cases "int (length (drop hs s)) < ?h")
      case wait: True
      have "length (drop hs s) < nat ?h" using wait by linarith
      then have "frames hs s = ([], s)"
        using plen by (intro frames_wait disjI2 exI [of _ ?plen] exI [of _ "drop hs s"]) simp
      moreover have "stream_of hs db2 s"
        using db2(2,3) wait plen by (auto simp: stream_of_def intro!: exI [of _ ?plen])
      ultimately show ?thesis using rh wait db2(1) by simp
    next
      case False
      then have "nat ?h \<le> length (db_bytes db2)" unfolding db2(2) by linarith
      moreover have "\<exists>p. length p = hs \<and> be_header p = ?h \<and> s = p @ db_bytes db2"
        using plen db2(2) by (intro exI [of _ ?plen]) simp
      ultimately show ?thesis using rh False db2(1,3) h by auto
    qed
  qed
next
  case False
  then obtain plen where p: "0 < db_header db" "length plen = hs" "be_header plen = db_header db" "s = plen @ db_bytes db"
    using assms(2) by (auto simp: stream_of_def)
  have size: "db_size db = length (db_bytes db)" using assms(1) by (simp add: db_ok_def)
  have h: "db_header db < 2 ^ 24" using headers_step(2) [OF assms(4) p(2)] assms(3) p(3,4) by simp
  show ?thesis
  proof (cases "int (db_size db) < db_header db")
    case True
    then have "length (db_bytes db) < nat (be_header plen)" using size p(3) by linarith
    then have "frames hs s = ([], s)"
      using p by (intro frames_wait disjI2 exI [of _ plen] exI [of _ "db_bytes db"]) simp
    with True False assms(1,2) show ?thesis by (simp add: databuffer_readheader_def)
  next
    case enough: False
    then have "nat (db_header db) \<le> length (db_bytes db)" using size by linarith
    with enough False assms(1) p h show ?thesis by (auto simp: databuffer_readheader_def)
  qed
qed

text \<open>The call that forwards one body.\<close>

definition forward_call :: "gate \<Rightarrow> connection \<Rightarrow> bytes \<Rightarrow> gate_call" where
  "forward_call g c body =
     (if gt_broker g \<noteq> 0 then Send 0 (gt_broker g) (gt_client_tag g OR gate_dontcopy) (cn_id c) body
      else if cn_agent c \<noteq> 0 then Send (cn_client c) (cn_agent c) (gt_client_tag g OR gate_dontcopy) (cn_id c) body
      else Send 0 (gt_watchdog g) (gate_text OR gate_dontcopy) (cn_id c)
        (to_bytes (dec (cn_id c) @ '' data '') @ body))"

definition can_forward :: "gate \<Rightarrow> connection \<Rightarrow> bool" where
  "can_forward g c \<longleftrightarrow> 0 < cn_id c \<and> (gt_broker g \<noteq> 0 \<or> cn_agent c \<noteq> 0 \<or> gt_watchdog g \<noteq> 0)"

text \<open>Only connection \<open>i\<close>'s buffer, the pool and the calls differ.\<close>

definition gate_step :: "gate \<Rightarrow> nat \<Rightarrow> databuffer \<Rightarrow> gate_call list \<Rightarrow> gate \<Rightarrow> bool" where
  "gate_step g i db calls g' \<longleftrightarrow>
     g' = g\<lparr>gt_conn := (gt_conn g)[i := (gt_conn g ! i)\<lparr>cn_buffer := db\<rparr>], gt_mp := gt_mp g', gt_calls := gt_calls g @ calls\<rparr>"

lemma set_conn_step:
  assumes "i < length (gt_conn g)"
  shows "\<exists>g'. set_conn i db mp g = Some g' \<and> gate_step g i db [] g' \<and> gt_mp g' = mp"
  using assms by (simp add: set_conn_def gate_step_def)

lemma gate_step_D:
  assumes "gate_step g i db calls g'" "i < length (gt_conn g)"
  shows "gt_conn g' ! i = (gt_conn g ! i)\<lparr>cn_buffer := db\<rparr>" "length (gt_conn g') = length (gt_conn g)"
    "gt_header_size g' = gt_header_size g" "can_forward g' c = can_forward g c" "forward_call g' c b = forward_call g c b"
    "gt_calls g' = gt_calls g @ calls"
proof -
  obtain mp where g': "g' = g\<lparr>gt_conn := (gt_conn g)[i := (gt_conn g ! i)\<lparr>cn_buffer := db\<rparr>], gt_mp := mp,
      gt_calls := gt_calls g @ calls\<rparr>"
    using assms(1) unfolding gate_step_def by blast
  show "gt_conn g' ! i = (gt_conn g ! i)\<lparr>cn_buffer := db\<rparr>" "length (gt_conn g') = length (gt_conn g)"
    "gt_header_size g' = gt_header_size g" "can_forward g' c = can_forward g c" "forward_call g' c b = forward_call g c b"
    "gt_calls g' = gt_calls g @ calls"
    using assms(2) unfolding g' by (simp_all add: can_forward_def forward_call_def)
qed

lemma gate_step_trans:
  assumes "gate_step g i db c g1" "gate_step g1 i db' c' g2" "i < length (gt_conn g)"
  shows "gate_step g i db' (c @ c') g2"
proof -
  obtain m1 where g1: "g1 = g\<lparr>gt_conn := (gt_conn g)[i := (gt_conn g ! i)\<lparr>cn_buffer := db\<rparr>], gt_mp := m1,
      gt_calls := gt_calls g @ c\<rparr>"
    using assms(1) unfolding gate_step_def by blast
  obtain m2 where g2: "g2 = g1\<lparr>gt_conn := (gt_conn g1)[i := (gt_conn g1 ! i)\<lparr>cn_buffer := db'\<rparr>], gt_mp := m2,
      gt_calls := gt_calls g1 @ c'\<rparr>"
    using assms(2) unfolding gate_step_def by blast
  show ?thesis unfolding gate_step_def g2 unfolding g1 using assms(3) by simp
qed

lemma forward_spec:
  assumes "i < length (gt_conn g)" "can_forward g (gt_conn g ! i)" "db_ok (cn_buffer (gt_conn g ! i))"
    and "0 < sz" "sz \<le> length (db_bytes (cn_buffer (gt_conn g ! i)))"
  shows "\<exists>db g'. forward i sz g = Some g' \<and> db_ok db \<and>
    db_bytes db = drop sz (db_bytes (cn_buffer (gt_conn g ! i))) \<and>
    gate_step g i db [forward_call g (gt_conn g ! i) (take sz (db_bytes (cn_buffer (gt_conn g ! i))))] g'"
proof -
  let ?c = "gt_conn g ! i"
  obtain db mp where r: "databuffer_read sz (cn_buffer ?c) (gt_mp g) = Some (take sz (db_bytes (cn_buffer ?c)), db, mp)"
    "db_ok db" "db_bytes db = drop sz (db_bytes (cn_buffer ?c))"
    using databuffer_read_spec [OF assms(3-5)] by blast
  have g: "arr_get (gt_conn g) i = Some ?c" using assms(1) by simp
  let ?g = "g\<lparr>gt_conn := (gt_conn g)[i := ?c\<lparr>cn_buffer := db\<rparr>], gt_mp := mp,
    gt_calls := gt_calls g @ [forward_call g ?c (take sz (db_bytes (cn_buffer ?c)))]\<rparr>"
  have "forward i sz g = Some ?g"
    using r assms(1,2) g by (simp add: forward_def can_forward_def set_conn_def forward_call_def call_def not_le Let_def)
  moreover have "gate_step g i db [forward_call g ?c (take sz (db_bytes (cn_buffer ?c)))] ?g"
    by (simp add: gate_step_def)
  ultimately show ?thesis using r(2,3) by blast
qed

lemma frame_loop_spec:
  assumes "0 < hs"
  shows "i < length (gt_conn g) \<Longrightarrow> gt_header_size g = hs \<Longrightarrow> can_forward g (gt_conn g ! i) \<Longrightarrow>
    db_ok (cn_buffer (gt_conn g ! i)) \<Longrightarrow> stream_of hs (cn_buffer (gt_conn g ! i)) s \<Longrightarrow> headers_ok hs s \<Longrightarrow>
    \<exists>db g'. frame_loop i fd g = Some g' \<and> db_ok db \<and> stream_of hs db (snd (frames hs s)) \<and>
      gate_step g i db (map (forward_call g (gt_conn g ! i)) (fst (frames hs s))) g'"
proof (induction "length s" arbitrary: s g rule: less_induct)
  case less
  let ?c = "gt_conn g ! i"
  obtain sz db mp where rh: "databuffer_readheader hs (cn_buffer ?c) (gt_mp g) = Some (sz, db, mp)" "db_ok db"
    "sz < 0 \<and> frames hs s = ([], s) \<and> stream_of hs db s \<or>
     0 \<le> sz \<and> sz < 2 ^ 24 \<and> db_header db = sz \<and> nat sz \<le> length (db_bytes db) \<and>
     (\<exists>plen. length plen = hs \<and> be_header plen = sz \<and> s = plen @ db_bytes db)"
    using readheader_spec [OF less.prems(4,5,6) assms] by blast
  obtain g1 where g1: "set_conn i db mp g = Some g1" "gate_step g i db [] g1"
    using set_conn_step [OF less.prems(1)] by blast
  note d1 = gate_step_D [OF g1(2) less.prems(1)]
  have c: "arr_get (gt_conn g) i = Some ?c" using less.prems(1) by simp
  have i1: "i < length (gt_conn g1)" using d1(2) less.prems(1) by simp
  have unf: "frame_loop i fd g = (if sz < 0 then Some g1 else if 0 < sz then
       if 0x1000000 \<le> sz then do {
         let (db', mp') = databuffer_clear db mp;
         g2 \<leftarrow> set_conn i db' mp' g1;
         Some (call (Log ''Recv socket message > 16M'') (call (SocketClose fd) g2)) }
       else do {
         g2 \<leftarrow> forward i (nat sz) g1;
         c2 \<leftarrow> arr_get (gt_conn g2) i;
         g3 \<leftarrow> set_conn i (databuffer_reset (cn_buffer c2)) (gt_mp g2) g2;
         frame_loop i fd g3 }
     else frame_loop i fd g1)"
    by (subst frame_loop.simps) (simp add: c less.prems(2) rh(1) g1(1))
  show ?case
  proof (cases "sz < 0")
    case True
    then have "frames hs s = ([], s)" "stream_of hs db s" using rh(3) by auto
    then have "stream_of hs db (snd (frames hs s)) \<and>
        gate_step g i db (map (forward_call g ?c) (fst (frames hs s))) g1" using g1(2) by simp
    moreover have "frame_loop i fd g = Some g1" using unf True by simp
    ultimately show ?thesis using rh(2) by blast
  next
    case False
    then obtain plen where p: "0 \<le> sz" "sz < 2 ^ 24" "db_header db = sz" "nat sz \<le> length (db_bytes db)"
      "length plen = hs" "be_header plen = sz" "s = plen @ db_bytes db"
      using rh(3) by auto
    let ?s = "drop (nat sz) (db_bytes db)"
    have fr: "frames hs s = (let (fs, r) = frames hs ?s in
        (if nat sz = 0 then fs else take (nat sz) (db_bytes db) # fs, r))"
      using frames_step [OF assms p(5), of "db_bytes db", unfolded p(6)] p(4) unfolding p(7) by simp
    have hd: "headers_ok hs ?s" using headers_step(3) [OF assms p(5)] less.prems(6) p(4,6,7) by simp
    have shorter: "length ?s < length s" using p(5,7) assms by simp
    have c1: "gt_conn g1 ! i = ?c\<lparr>cn_buffer := db\<rparr>" using d1(1) .
    have "can_forward g (gt_conn g1 ! i)" using less.prems(3) c1 by (simp add: can_forward_def)
    then have cf: "can_forward g1 (gt_conn g1 ! i)" by (simp only: d1(4))
    have fc: "forward_call g1 (gt_conn g1 ! i) b = forward_call g ?c b" for b
      using d1(5) c1 by (simp add: forward_call_def)
    show ?thesis
    proof (cases "sz = 0")
      case True
      then have st: "stream_of hs (cn_buffer (gt_conn g1 ! i)) ?s" using c1 p(3) by (simp add: stream_of_def)
      obtain db' g' where r: "frame_loop i fd g1 = Some g'" "db_ok db'" "stream_of hs db' (snd (frames hs ?s))"
        "gate_step g1 i db' (map (forward_call g1 (gt_conn g1 ! i)) (fst (frames hs ?s))) g'"
        using less.hyps [OF shorter i1 _ cf _ st hd] d1(3) less.prems(2) c1 rh(2) by auto
      have "frame_loop i fd g = Some g'" using unf True r(1) by simp
      moreover have "frames hs s = frames hs ?s" using fr True by (simp add: case_prod_unfold Let_def)
      moreover have "gate_step g i db' (map (forward_call g ?c) (fst (frames hs ?s))) g'"
        using gate_step_trans [OF g1(2) r(4) less.prems(1)] fc by (simp cong: map_cong)
      ultimately show ?thesis using r(2,3) by auto
    next
      case False
      then have pos: "0 < nat sz" using p(1) by simp
      have b: "db_ok (cn_buffer (gt_conn g1 ! i))" "nat sz \<le> length (db_bytes (cn_buffer (gt_conn g1 ! i)))"
        using c1 rh(2) p(4) by simp_all
      obtain db2 g2 where g2: "forward i (nat sz) g1 = Some g2" "db_ok db2" "db_bytes db2 = ?s"
        "gate_step g1 i db2 [forward_call g1 (gt_conn g1 ! i) (take (nat sz) (db_bytes db))] g2"
        using forward_spec [OF i1 cf b(1) pos b(2)] c1 by auto
      note d2 = gate_step_D [OF g2(4) i1]
      have i2: "i < length (gt_conn g2)" using d2(2) i1 by simp
      let ?db3 = "databuffer_reset (cn_buffer (gt_conn g2 ! i))"
      obtain g3 where g3: "set_conn i ?db3 (gt_mp g2) g2 = Some g3" "gate_step g2 i ?db3 [] g3"
        using set_conn_step [OF i2] by blast
      note d3 = gate_step_D [OF g3(2) i2]
      have i3: "i < length (gt_conn g3)" using d3(2) i2 by simp
      have c3: "gt_conn g3 ! i = ?c\<lparr>cn_buffer := ?db3\<rparr>" using d3(1) d2(1) c1 by simp
      have "can_forward g (gt_conn g3 ! i)" using less.prems(3) c3 by (simp add: can_forward_def)
      then have cf3: "can_forward g3 (gt_conn g3 ! i)" by (simp only: d3(4) d2(4) d1(4))
      have db3: "db_ok ?db3" "db_bytes ?db3 = ?s" "db_header ?db3 = 0"
        using d2(1) g2(2,3) by (simp_all add: databuffer_reset_def)
      then have st: "stream_of hs (cn_buffer (gt_conn g3 ! i)) ?s" using c3 by (simp add: stream_of_def)
      obtain db' g' where r: "frame_loop i fd g3 = Some g'" "db_ok db'" "stream_of hs db' (snd (frames hs ?s))"
        "gate_step g3 i db' (map (forward_call g3 (gt_conn g3 ! i)) (fst (frames hs ?s))) g'"
        using less.hyps [OF shorter i3 _ cf3 _ st hd] d3(3) d2(3) d1(3) less.prems(2) c3 db3(1) by auto
      have fc3: "forward_call g3 (gt_conn g3 ! i) b = forward_call g ?c b" for b
        using d3(5) d2(5) d1(5) c3 by (simp add: forward_call_def)
      have "frame_loop i fd g = Some g'"
        using unf False p(1,2) g2(1) i2 g3(1) r(1) by simp
      moreover have "gate_step g i db' (([] @ [forward_call g1 (gt_conn g1 ! i) (take (nat sz) (db_bytes db))] @ []) @
          map (forward_call g3 (gt_conn g3 ! i)) (fst (frames hs ?s))) g'"
        using gate_step_trans [OF gate_step_trans [OF gate_step_trans [OF g1(2) g2(4) less.prems(1)] g3(2) less.prems(1)]
            r(4) less.prems(1)] by simp
      ultimately show ?thesis using r(2,3) fr pos fc fc3 by (auto simp: case_prod_unfold Let_def cong: map_cong)
    qed
  qed
qed

lemma frames_append:
  "frames hs (s @ t) = (fst (frames hs s) @ fst (frames hs (snd (frames hs s) @ t)), snd (frames hs (snd (frames hs s) @ t)))"
proof (induction "length s" arbitrary: s rule: less_induct)
  case less
  show ?case
  proof (cases "hs = 0 \<or> length s < hs")
    case True
    then have "frames hs s = ([], s)" by (subst frames.simps) simp
    then show ?thesis by simp
  next
    case False
    let ?plen = "take hs s" let ?b = "drop hs s" let ?n = "nat (be_header ?plen)"
    have p: "0 < hs" "length ?plen = hs" "s = ?plen @ ?b" using False by simp_all
    show ?thesis
    proof (cases "?n \<le> length ?b")
      case False
      then have "frames hs s = ([], s)"
        using p by (intro frames_wait disjI2 exI [of _ ?plen] exI [of _ ?b]) simp
      then show ?thesis by simp
    next
      case True
      let ?r = "drop ?n ?b"
      have shorter: "length ?r < length s" using p(1) \<open>\<not> (hs = 0 \<or> length s < hs)\<close> by simp
      have f1: "frames hs s = (if ?n = 0 then fst (frames hs ?r) else take ?n ?b # fst (frames hs ?r), snd (frames hs ?r))"
        using frames_step [OF p(1,2) True] by (simp add: case_prod_unfold Let_def del: drop_drop)
      have "?n \<le> length (?b @ t)" using True by simp
      from frames_step [OF p(1,2) this]
      have f2: "frames hs (s @ t) =
          (if ?n = 0 then fst (frames hs (?r @ t)) else take ?n ?b # fst (frames hs (?r @ t)), snd (frames hs (?r @ t)))"
        using True p(3) by (simp add: case_prod_unfold Let_def append_assoc [symmetric] del: append_assoc drop_drop)
      show ?thesis unfolding f1 f2 less.hyps [OF shorter] by (simp del: drop_drop)
    qed
  qed
qed

lemma headers_append:
  "headers_ok hs (s @ t) \<Longrightarrow> headers_ok hs s \<and> headers_ok hs (snd (frames hs s) @ t)"
proof (induction "length s" arbitrary: s rule: less_induct)
  case less
  show ?case
  proof (cases "hs = 0 \<or> length s < hs")
    case True
    then have "frames hs s = ([], s)" "headers_ok hs s" by (subst frames.simps headers_ok.simps; simp)+
    with less.prems show ?thesis by simp
  next
    case False
    let ?plen = "take hs s" let ?b = "drop hs s" let ?n = "nat (be_header ?plen)"
    have p: "0 < hs" "length ?plen = hs" "s = ?plen @ ?b" using False by simp_all
    have st: "headers_ok hs (?plen @ (?b @ t))" using less.prems p(3) by (metis append_assoc)
    note h = headers_step [OF p(1,2) st]
    have unf: "headers_ok hs s = (length ?b < ?n \<or> headers_ok hs (drop ?n ?b))"
      using False h(1,2) by (subst headers_ok.simps) (auto simp: Let_def)
    show ?thesis
    proof (cases "?n \<le> length ?b")
      case False
      then have "frames hs s = ([], s)"
        using p by (intro frames_wait disjI2 exI [of _ ?plen] exI [of _ ?b]) simp
      with False less.prems unf show ?thesis by simp
    next
      case True
      let ?r = "drop ?n ?b"
      have shorter: "length ?r < length s" using p(1) \<open>\<not> (hs = 0 \<or> length s < hs)\<close> by simp
      have "headers_ok hs (?r @ t)" using h(3) True by simp
      from less.hyps [OF shorter this] unf
      have "headers_ok hs s" "headers_ok hs (snd (frames hs ?r) @ t)" by simp_all
      moreover have "snd (frames hs s) = snd (frames hs ?r)"
        using frames_step [OF p(1,2) True] by (simp add: case_prod_unfold Let_def)
      ultimately show ?thesis by simp
    qed
  qed
qed

text \<open>The blocks of one connection, as the socket thread delivers them.\<close>

fun feed :: "nat \<Rightarrow> int \<Rightarrow> (ptr \<times> bytes) list \<Rightarrow> gate \<Rightarrow> gate option" where
  "feed i fd [] g = Some g"
| "feed i fd ((p, data) # cs) g = do { g1 \<leftarrow> gate_dispatch_message i fd p data g; feed i fd cs g1 }"

lemma dispatch_spec:
  assumes "i < length (gt_conn g)" "gt_header_size g = hs" "0 < hs" "can_forward g (gt_conn g ! i)"
    and "db_ok (cn_buffer (gt_conn g ! i))" "stream_of hs (cn_buffer (gt_conn g ! i)) s" "headers_ok hs (s @ data)"
  shows "\<exists>db g'. gate_dispatch_message i fd p data g = Some g' \<and> db_ok db \<and>
    stream_of hs db (snd (frames hs (s @ data))) \<and>
    gate_step g i db (map (forward_call g (gt_conn g ! i)) (fst (frames hs (s @ data)))) g'"
proof -
  let ?c = "gt_conn g ! i"
  obtain db mp where push: "databuffer_push p data (cn_buffer ?c) (gt_mp g) = (db, mp)" by fastforce
  note ps = databuffer_push_spec [OF assms(5) push]
  obtain g1 where g1: "set_conn i db mp g = Some g1" "gate_step g i db [] g1"
    using set_conn_step [OF assms(1)] by blast
  note d1 = gate_step_D [OF g1(2) assms(1)]
  have i1: "i < length (gt_conn g1)" using d1(2) assms(1) by simp
  have "can_forward g (gt_conn g1 ! i)" using assms(4) d1(1) by (simp add: can_forward_def)
  then have cf: "can_forward g1 (gt_conn g1 ! i)" by (simp only: d1(4))
  have fc: "forward_call g1 (gt_conn g1 ! i) b = forward_call g ?c b" for b
    using d1(1,5) by (simp add: forward_call_def)
  have st: "stream_of hs db (s @ data)"
    using assms(6) ps(2,3) by (auto simp: stream_of_def)
  then have st1: "stream_of hs (cn_buffer (gt_conn g1 ! i)) (s @ data)" using d1(1) by simp
  have h1: "gt_header_size g1 = hs" and o1: "db_ok (cn_buffer (gt_conn g1 ! i))" using d1(1,3) assms(2) ps(1) by simp_all
  obtain db' g' where r: "frame_loop i fd g1 = Some g'" "db_ok db'" "stream_of hs db' (snd (frames hs (s @ data)))"
    "gate_step g1 i db' (map (forward_call g1 (gt_conn g1 ! i)) (fst (frames hs (s @ data)))) g'"
    using frame_loop_spec [OF assms(3) i1 h1 cf o1 st1 assms(7)] by blast
  have "gate_dispatch_message i fd p data g = Some g'"
    using assms(1) push g1(1) r(1) by (simp add: gate_dispatch_message_def)
  moreover have "gate_step g i db' (map (forward_call g ?c) (fst (frames hs (s @ data)))) g'"
    using gate_step_trans [OF g1(2) r(4) assms(1)] fc by (simp cong: map_cong)
  ultimately show ?thesis using r(2,3) by blast
qed

lemma feed_spec:
  assumes "0 < hs"
  shows "i < length (gt_conn g) \<Longrightarrow> gt_header_size g = hs \<Longrightarrow> can_forward g (gt_conn g ! i) \<Longrightarrow>
    db_ok (cn_buffer (gt_conn g ! i)) \<Longrightarrow> stream_of hs (cn_buffer (gt_conn g ! i)) s \<Longrightarrow>
    frames hs s = ([], s) \<Longrightarrow> headers_ok hs (s @ concat (map snd chunks)) \<Longrightarrow>
    \<exists>g'. feed i fd chunks g = Some g' \<and> gt_calls g' = gt_calls g @
      map (forward_call g (gt_conn g ! i)) (fst (frames hs (s @ concat (map snd chunks))))"
proof (induction chunks arbitrary: g s)
  case Nil
  then show ?case by simp
next
  case (Cons pd chunks)
  obtain p data where pd: "pd = (p, data)" by fastforce
  let ?c = "gt_conn g ! i"
  have "headers_ok hs ((s @ data) @ concat (map snd chunks))" using Cons.prems(7) pd by simp
  from headers_append [OF this]
  have h: "headers_ok hs (s @ data)" "headers_ok hs (snd (frames hs (s @ data)) @ concat (map snd chunks))" by simp_all
  obtain db g1 where g1: "gate_dispatch_message i fd p data g = Some g1" "db_ok db"
    "stream_of hs db (snd (frames hs (s @ data)))"
    "gate_step g i db (map (forward_call g ?c) (fst (frames hs (s @ data)))) g1"
    using dispatch_spec [OF Cons.prems(1,2) assms Cons.prems(3,4,5) h(1)] by blast
  note d1 = gate_step_D [OF g1(4) Cons.prems(1)]
  let ?r = "snd (frames hs (s @ data))"
  have rr: "frames hs ?r = ([], ?r)" using frames_append [of hs "s @ data" "[]"]
    by (metis append.right_neutral append_self_conv2 fst_conv prod.collapse same_append_eq snd_conv)
  have i1: "i < length (gt_conn g1)" using d1(2) Cons.prems(1) by simp
  have "can_forward g (gt_conn g1 ! i)" using Cons.prems(3) d1(1) by (simp add: can_forward_def)
  then have cf: "can_forward g1 (gt_conn g1 ! i)" by (simp only: d1(4))
  have fc: "forward_call g1 (gt_conn g1 ! i) = forward_call g ?c"
  proof
    fix b
    show "forward_call g1 (gt_conn g1 ! i) b = forward_call g ?c b" using d1(1,5) by (simp add: forward_call_def)
  qed
  obtain g' where g': "feed i fd chunks g1 = Some g'" "gt_calls g' = gt_calls g1 @
      map (forward_call g ?c) (fst (frames hs (?r @ concat (map snd chunks))))"
    using Cons.IH [OF i1 _ cf _ _ rr h(2)] d1(1,3) g1(2,3) Cons.prems(2) unfolding fc by auto
  have "gt_calls g' = gt_calls g @ map (forward_call g ?c) (fst (frames hs ((s @ data) @ concat (map snd chunks))))"
    using g'(2) d1(6) frames_append [of hs "s @ data" "concat (map snd chunks)"] by simp
  then show ?case using pd g1(1) g'(1) by simp
qed

lemma be_header_2: "length plen = 2 \<Longrightarrow> 0 \<le> be_header plen \<and> be_header plen < 2 ^ 16"
  using uint_lt2p [of "plen ! 0"] uint_lt2p [of "plen ! Suc 0"] uint_ge_0 [of "plen ! 0"] uint_ge_0 [of "plen ! Suc 0"]
  by (simp add: be_header_def)

text \<open>Two-byte lengths are never too long.\<close>

lemma headers_ok_2: "headers_ok 2 bs"
proof (induction "length bs" arbitrary: bs rule: less_induct)
  case less
  show ?case
  proof (cases "length bs < 2")
    case False
    then have "0 \<le> be_header (take 2 bs)" "be_header (take 2 bs) < 2 ^ 16" using be_header_2 [of "take 2 bs"] by simp_all
    moreover have "headers_ok 2 (drop n (drop 2 bs))" for n using False by (intro less) simp
    ultimately show ?thesis by (subst headers_ok.simps) (simp add: Let_def del: drop_drop)
  qed (subst headers_ok.simps, simp)
qed

text \<open>
  C23. The packages that the gate forwards from a new connection are those of the concatenation of the
  blocks it received, in order, each as one message to the broker, the agent or the watchdog; neither the
  sizes of the blocks nor the places where they were cut matter, and the gate does not fail, for headers of
  two bytes always and for headers of four bytes as long as no package exceeds the limit.
\<close>

theorem gate_reassembles:
  assumes "i < length (gt_conn g)" "0 < gt_header_size g" "can_forward g (gt_conn g ! i)"
    and "cn_buffer (gt_conn g ! i) = databuffer_new"
    and "gt_header_size g = 2 \<or> headers_ok (gt_header_size g) (concat (map snd chunks))"
  shows "\<exists>g'. feed i fd chunks g = Some g' \<and> gt_calls g' = gt_calls g @
    map (forward_call g (gt_conn g ! i)) (fst (frames (gt_header_size g) (concat (map snd chunks))))"
proof -
  have "headers_ok (gt_header_size g) (concat (map snd chunks))" using assms(5) headers_ok_2 by auto
  moreover have "frames (gt_header_size g) [] = ([], [])" using assms(2) by (subst frames.simps) simp
  ultimately show ?thesis
    using feed_spec [OF assms(2,1) refl assms(3), of "[]" chunks fd] assms(4) by (simp add: stream_of_def)
qed

definition demo_gate :: gate where
  "demo_gate = gate_create\<lparr>gt_watchdog := 9, gt_header_size := 2, gt_conn := [empty_conn\<lparr>cn_id := 5\<rparr>]\<rparr>"

theorem gate_reassembles_witness:
  "\<exists>g'. feed 0 5 [(1, [0]), (2, [3, 7, 8]), (3, [9, 0])] demo_gate = Some g' \<and>
    gt_calls g' = [Send 0 9 0x10000 5 (to_bytes ''5 data '' @ [7, 8, 9])]"
proof -
  have c: "gt_conn demo_gate ! 0 = empty_conn\<lparr>cn_id := 5\<rparr>" "gt_header_size demo_gate = 2" "gt_calls demo_gate = []"
    by (simp_all add: demo_gate_def gate_create_def)
  have "frames 2 [0 :: u8] = ([], [0])" by (subst frames.simps) simp
  then have f: "frames 2 [0 :: u8, 3, 7, 8, 9, 0] = ([[7, 8, 9]], [0])"
    by (subst frames.simps) (simp add: be_header_def)
  have d: "dec 5 = ''5''" unfolding dec_def by code_simp
  have "forward_call demo_gate (gt_conn demo_gate ! 0) [7, 8, 9] = Send 0 9 0x10000 5 (to_bytes ''5 data '' @ [7, 8, 9])"
    by (simp add: forward_call_def demo_gate_def gate_create_def empty_conn_def gate_text_def gate_dontcopy_def d)
  with gate_reassembles [of 0 demo_gate "[(1, [0]), (2, [3, 7, 8]), (3, [9, 0])]" 5] c f show ?thesis
    by (simp add: can_forward_def empty_conn_def demo_gate_def)
qed

subsection \<open>Streams that the gate does not get right\<close>

text \<open>
  Without a broker, an agent and a watchdog nothing reads the body of a package, but
  the length before it is forgotten: the body stays in the buffer and is taken for the next header.
\<close>

theorem gate_body_taken_for_header:
  assumes "i < length (gt_conn g)" "gt_header_size g = 2" "cn_buffer (gt_conn g ! i) = databuffer_new"
    and "gt_broker g = 0" "cn_agent (gt_conn g ! i) = 0" "gt_watchdog g = 0"
  shows "\<exists>g'. gate_dispatch_message i fd p [0, 1, b] g = Some g' \<and> gt_calls g' = gt_calls g \<and>
    stream_of 2 (cn_buffer (gt_conn g' ! i)) [b] \<and> frames 2 [0, 1, b] = ([[b]], [])"
proof -
  let ?c = "gt_conn g ! i"
  obtain db mp where push: "databuffer_push p [0, 1, b] (cn_buffer ?c) (gt_mp g) = (db, mp)" by fastforce
  have "db_ok (cn_buffer ?c)" "db_bytes (cn_buffer ?c) = []" "db_header (cn_buffer ?c) = 0" using assms(3) by simp_all
  with databuffer_push_spec [OF _ push] have db: "db_ok db" "db_bytes db = [0, 1, b]" "db_header db = 0" by simp_all
  obtain db1 mp1 where r: "databuffer_read 2 db mp = Some ([0, 1], db1, mp1)" "db_ok db1" "db_bytes db1 = [b]"
    using databuffer_read_spec [OF db(1), of 2 mp] db(2) by auto
  have sz: "db_size db = 3" "db_size db1 = 1" using db(1,2) r(2,3) by (simp_all add: db_ok_def)
  define c1 where "c1 = ?c\<lparr>cn_buffer := db1\<lparr>db_header := 0\<rparr>\<rparr>"
  define g1 where "g1 = g\<lparr>gt_mp := mp1, gt_conn := (gt_conn g)[i := c1]\<rparr>"
  have rh: "databuffer_readheader 2 db mp = Some (1, db1\<lparr>db_header := 1\<rparr>, mp1)"
    using db(3) sz r(1) by (simp add: databuffer_readheader_def be_header_def Let_def)
  have rh1: "databuffer_readheader 2 (db1\<lparr>db_header := 0\<rparr>) mp1 = Some (- 1, db1\<lparr>db_header := 0\<rparr>, mp1)"
    using sz by (simp add: databuffer_readheader_def)
  have last: "frame_loop i fd g1 = Some g1"
    using assms(1,2) rh1 by (subst frame_loop.simps) (simp add: g1_def c1_def set_conn_def)
  have "gate_dispatch_message i fd p [0, 1, b] g = frame_loop i fd g1"
    using assms push rh
    by (simp add: gate_dispatch_message_def set_conn_def)
      (subst frame_loop.simps, simp add: set_conn_def forward_def databuffer_reset_def Let_def g1_def c1_def)
  moreover have "frames 2 [0, 1, b] = ([[b]], [])"
  proof -
    have "frames 2 ([] :: bytes) = ([], [])" by (subst frames.simps) simp
    then show ?thesis by (subst frames.simps) (simp add: be_header_def)
  qed
  ultimately show ?thesis
    using last assms(1) r(3) by (simp add: g1_def c1_def stream_of_def)
qed

theorem gate_body_taken_for_header_witness:
  "\<exists>g'. gate_dispatch_message 0 5 1 [0, 1, 77] (demo_gate\<lparr>gt_watchdog := 0\<rparr>) = Some g' \<and>
    stream_of 2 (cn_buffer (gt_conn g' ! 0)) [77]"
  using gate_body_taken_for_header [of 0 "demo_gate\<lparr>gt_watchdog := 0\<rparr>" 5 1 77]
  by (auto simp: demo_gate_def gate_create_def empty_conn_def)

lemma readheader_negative:
  assumes "db_header db < 0"
  shows "databuffer_readheader hs db mp = Some (db_header db, db, mp)"
  using assms by (simp add: databuffer_readheader_def)

text \<open>
  A four-byte length with the top bit set is a negative number in C. The gate neither
  closes the connection, as it does above 16 megabytes, nor forwards anything: it only collects what
  arrives, for ever.
\<close>

theorem gate_negative_length_stalls:
  assumes "i < length (gt_conn g)" "db_ok (cn_buffer (gt_conn g ! i))" "db_header (cn_buffer (gt_conn g ! i)) < 0"
  shows "\<exists>g'. feed i fd chunks g = Some g' \<and> gt_calls g' = gt_calls g \<and>
    db_bytes (cn_buffer (gt_conn g' ! i)) = db_bytes (cn_buffer (gt_conn g ! i)) @ concat (map snd chunks)"
  using assms
proof (induction chunks arbitrary: g)
  case (Cons pd chunks)
  obtain p data where pd: "pd = (p, data)" by fastforce
  let ?c = "gt_conn g ! i"
  obtain db mp where push: "databuffer_push p data (cn_buffer ?c) (gt_mp g) = (db, mp)" by fastforce
  note ps = databuffer_push_spec [OF Cons.prems(2) push]
  let ?g = "g\<lparr>gt_conn := (gt_conn g)[i := ?c\<lparr>cn_buffer := db\<rparr>], gt_mp := mp\<rparr>"
  have neg: "db_header db < 0" using ps(3) Cons.prems(3) by simp
  have "gate_dispatch_message i fd p data g = Some ?g"
    using Cons.prems(1) push readheader_negative [OF neg] neg
    by (simp add: gate_dispatch_message_def set_conn_def) (subst frame_loop.simps, simp add: set_conn_def)
  moreover obtain g' where "feed i fd chunks ?g = Some g'" "gt_calls g' = gt_calls g"
    "db_bytes (cn_buffer (gt_conn g' ! i)) = db_bytes db @ concat (map snd chunks)"
    using Cons.IH [of ?g] Cons.prems(1) ps(1) neg by auto
  ultimately show ?case using pd ps(2) by auto
qed simp

theorem gate_negative_length_stalls_witness:
  "\<exists>g'. feed 0 5 [(1, [1, 2]), (2, [3])] (demo_gate\<lparr>gt_conn := [empty_conn\<lparr>cn_id := 5,
      cn_buffer := databuffer_new\<lparr>db_header := be_header [0x80, 0, 0, 0]\<rparr>\<rparr>]\<rparr>) = Some g' \<and>
    gt_calls g' = [] \<and> db_bytes (cn_buffer (gt_conn g' ! 0)) = [1, 2, 3]"
proof -
  have "be_header [0x80, 0, 0, 0] < 0" by (simp add: be_header_def)
  then show ?thesis
    using gate_negative_length_stalls [of 0 "demo_gate\<lparr>gt_conn := [empty_conn\<lparr>cn_id := 5,
      cn_buffer := databuffer_new\<lparr>db_header := be_header [0x80, 0, 0, 0]\<rparr>\<rparr>]\<rparr>" 5 "[(1, [1, 2]), (2, [3])]"]
    by (simp add: demo_gate_def gate_create_def)
qed

end
