(* ===== verification/Framing.thy ===== *)
theory Framing
  imports Wire
begin

section \<open>Cutting a byte stream into packets\<close>

text \<open>
  Three parts of the program cut what arrives on a connection into packets: a header of fixed size that gives
  the length of the body, then the body. \<open>cut hs len\<close> is what they have to compute; \<open>heads_ok\<close> says
  that every header which is reached while cutting is acceptable. The lemmas let a stream be cut
  piece by piece.
\<close>

function cut :: "nat \<Rightarrow> (bytes \<Rightarrow> nat) \<Rightarrow> bytes \<Rightarrow> bytes list \<times> bytes" where
  "cut hs len bs =
     (if hs = 0 \<or> length bs < hs then ([], bs)
      else let n = len (take hs bs); rest = drop hs bs in
        if length rest < n then ([], bs)
        else (take n rest # fst (cut hs len (drop n rest)), snd (cut hs len (drop n rest))))"
  by pat_completeness auto
termination
  by (relation "measure (\<lambda>(hs, len, bs). length bs)") auto

declare cut.simps [simp del]

function heads_ok :: "nat \<Rightarrow> (bytes \<Rightarrow> nat) \<Rightarrow> (bytes \<Rightarrow> bool) \<Rightarrow> bytes \<Rightarrow> bool" where
  "heads_ok hs len P bs =
     (if hs = 0 \<or> length bs < hs then True
      else let n = len (take hs bs); rest = drop hs bs in
        P (take hs bs) \<and> (length rest < n \<or> heads_ok hs len P (drop n rest)))"
  by pat_completeness auto
termination
  by (relation "measure (\<lambda>(hs, len, P, bs). length bs)") auto

declare heads_ok.simps [simp del]

lemma cut_short: "length bs < hs \<Longrightarrow> cut hs len bs = ([], bs)"
  by (subst cut.simps) simp

lemma cut_wait: "length h = hs \<Longrightarrow> length b < len h \<Longrightarrow> cut hs len (h @ b) = ([], h @ b)"
  by (subst cut.simps) (auto simp: Let_def)

lemma cut_step:
  assumes "0 < hs" "length h = hs" "len h \<le> length b"
  shows "cut hs len (h @ b) =
    (take (len h) b # fst (cut hs len (drop (len h) b)), snd (cut hs len (drop (len h) b)))"
  using assms by (subst cut.simps) (simp add: Let_def)

lemma heads_step:
  assumes "0 < hs" "length h = hs" "heads_ok hs len P (h @ b)"
  shows "P h" "len h \<le> length b \<Longrightarrow> heads_ok hs len P (drop (len h) b)"
  using assms by (subst (asm) heads_ok.simps, simp add: Let_def)+

text \<open>A stream that is not used up yet is short or an incomplete packet.\<close>

lemma split_cases:
  obtains (short) "hs = 0 \<or> length (s :: bytes) < hs"
  | (wait) h b where "s = h @ b" "0 < hs" "length h = hs" "length b < (len :: bytes \<Rightarrow> nat) h"
  | (full) h b where "s = h @ b" "0 < hs" "length h = hs" "len h \<le> length b"
proof (cases "hs = 0 \<or> length s < hs")
  case True
  then show thesis by (rule short)
next
  case False
  then have "s = take hs s @ drop hs s" "0 < hs" "length (take hs s) = hs" by auto
  then show thesis using wait [of "take hs s" "drop hs s"] full [of "take hs s" "drop hs s"] by (metis not_le)
qed

lemma cut_append:
  "cut hs len (s @ t) = (fst (cut hs len s) @ fst (cut hs len (snd (cut hs len s) @ t)),
     snd (cut hs len (snd (cut hs len s) @ t)))"
proof (induction "length s" arbitrary: s rule: less_induct)
  case less
  show ?case
  proof (cases rule: split_cases [where hs = hs and s = s and len = len])
    case short
    then have "cut hs len s = ([], s)" by (subst cut.simps) simp
    then show ?thesis by simp
  next
    case (wait h b)
    then show ?thesis by (simp add: cut_wait)
  next
    case (full h b)
    let ?r = "drop (len h) b"
    have "length ?r < length s" using full by simp
    from less.hyps [OF this] full cut_step [of hs h len b, OF full(2-4)] cut_step [OF full(2,3), of len "b @ t"]
    show ?thesis by simp
  qed
qed

lemma heads_append:
  "heads_ok hs len P (s @ t) \<Longrightarrow> heads_ok hs len P s \<and> heads_ok hs len P (snd (cut hs len s) @ t)"
proof (induction "length s" arbitrary: s rule: less_induct)
  case less
  show ?case
  proof (cases rule: split_cases [where hs = hs and s = s and len = len])
    case short
    then have "cut hs len s = ([], s)" "heads_ok hs len P s" by (subst cut.simps heads_ok.simps; simp)+
    with less.prems show ?thesis by simp
  next
    case (wait h b)
    have "heads_ok hs len P (h @ (b @ t))" using less.prems wait(1) by simp
    then have "heads_ok hs len P s"
      using heads_step(1) [OF wait(2,3)] wait by (subst heads_ok.simps) (auto simp: Let_def)
    with less.prems wait show ?thesis by (simp add: cut_wait)
  next
    case (full h b)
    let ?r = "drop (len h) b"
    have "heads_ok hs len P (h @ (b @ t))" using less.prems full(1) by simp
    from heads_step [OF full(2,3) this] full have p: "P h" "heads_ok hs len P (?r @ t)" by simp_all
    have "length ?r < length s" using full by simp
    from less.hyps [OF this p(2)] p(1) full cut_step [of hs h len b, OF full(2-4)] show ?thesis
      by (subst heads_ok.simps) (simp add: Let_def)
  qed
qed

text \<open>What a sequence of packets is cut into.\<close>

lemma cut_packets:
  assumes "0 < hs" "\<And>p. p \<in> set ps \<Longrightarrow> length (fst p) = hs \<and> len (fst p) = length (snd p)"
  shows "cut hs len (concat (map (\<lambda>p. fst p @ snd p) ps)) = (map snd ps, [])"
  using assms(2)
proof (induction ps)
  case Nil
  show ?case using assms(1) by (simp add: cut_short)
next
  case (Cons p ps)
  then have "length (fst p) = hs" "len (fst p) = length (snd p)" by simp_all
  with Cons cut_step [OF assms(1), of "fst p" len "snd p @ concat (map (\<lambda>p. fst p @ snd p) ps)"]
  show ?case by simp
qed

lemma heads_packets:
  assumes "0 < hs" "\<And>p. p \<in> set ps \<Longrightarrow> length (fst p) = hs \<and> len (fst p) = length (snd p) \<and> P (fst p)"
  shows "heads_ok hs len P (concat (map (\<lambda>p. fst p @ snd p) ps))"
  using assms(2)
proof (induction ps)
  case Nil
  show ?case using assms(1) by (subst heads_ok.simps) simp
next
  case (Cons p ps)
  then have "length (fst p) = hs" "len (fst p) = length (snd p)" "P (fst p)" by simp_all
  with Cons show ?case by (subst heads_ok.simps) (simp add: Let_def)
qed

end
