(* ===== verification/Harbor.thy ===== *)
theory Harbor
  imports Framing
begin

section \<open>The harbor service (service-src/service_harbor.c)\<close>

text \<open>
  The harbor service of a node carries messages to the other nodes over one connection each. A message to a
  node that is not connected waits in the queue of its slot, a message to a global name that is not known
  waits in the queue of the name. On the wire a message is its length (four bytes, of which the first must
  be 0), its body, and a header of twelve bytes behind the body.

  The calls into the core are recorded in order in \<open>hb_calls\<close>. Whether \<open>skynet_send\<close> fails is the
  parameter \<open>refused\<close>: it sees all calls so far and the one that is made.
\<close>

unbundle bit_operations_syntax

definition HASH_SIZE :: nat where "HASH_SIZE = 4096"
definition HQ_DEFAULT_SIZE :: nat where "HQ_DEFAULT_SIZE = 1024"
definition HEADER_COOKIE_LENGTH :: nat where "HEADER_COOKIE_LENGTH = 12"
definition REMOTE_MAX :: nat where "REMOTE_MAX = 256"
definition NAME_LENGTH :: nat where "NAME_LENGTH = 16"
definition HB_MASK :: u32 where "HB_MASK = 0xffffff"
definition HB_DONTCOPY :: u32 where "HB_DONTCOPY = 0x10000"
definition TYPE_ERROR :: u32 where "TYPE_ERROR = 7"
definition TYPE_TEXT :: u32 where "TYPE_TEXT = 0"

datatype harbor_call =
    HSend u32 u32 u32 u32 bytes
  | HSendBuffer int bytes
  | HSocketClose int
  | HSocketStart int
  | HFree ptr
  | HLog string
  | HCallback
  | HStart

type_synonym send_fails = "harbor_call list \<Rightarrow> harbor_call \<Rightarrow> bool"

text \<open>Every destination lives: no \<open>skynet_send\<close> fails.\<close>

definition accepts_all :: send_fails where
  "accepts_all cs c = False"

record remote_message_header =
  rh_source :: u32
  rh_destination :: u32
  rh_session :: u32

text \<open>A message in a queue: its header, the address of its block and the bytes of the block.\<close>

record harbor_msg =
  hm_header :: remote_message_header
  hm_buffer :: ptr
  hm_data :: bytes

record harbor_msg_queue =
  hq_size :: nat
  hq_head :: nat
  hq_tail :: nat
  hq_data :: "harbor_msg option list"

record keyvalue =
  kv_key :: bytes
  kv_hash :: u32
  kv_value :: u32
  kv_queue :: "harbor_msg_queue option"

text \<open>The chains of the hash map, newest node first.\<close>

type_synonym hashmap = "keyvalue list list"

datatype status = Wait | Handshake | Header | Content | Down

text \<open>\<open>sl_recv\<close> is the part of the receive buffer that has been written.\<close>

record slave =
  sl_fd :: int
  sl_queue :: "harbor_msg_queue option"
  sl_status :: status
  sl_length :: nat
  sl_read :: nat
  sl_size :: bytes
  sl_recv :: bytes

record harbor =
  hb_id :: int
  hb_slave :: u32
  hb_map :: hashmap
  hb_s :: "slave list"
  hb_calls :: "harbor_call list"

definition hcall :: "harbor_call \<Rightarrow> harbor \<Rightarrow> harbor" where
  "hcall c h = h\<lparr>hb_calls := hb_calls h @ [c]\<rparr>"

subsection \<open>Queues of messages\<close>

definition push_queue_msg :: "harbor_msg \<Rightarrow> harbor_msg_queue \<Rightarrow> harbor_msg_queue option" where
  "push_queue_msg m q = do {
     let q1 = (if Suc (hq_tail q) mod hq_size q = hq_head q then
         q\<lparr>hq_data := map (\<lambda>i. hq_data q ! ((i + hq_head q) mod hq_size q)) [0..<hq_size q - 1]
              @ replicate (hq_size q + 1) None,
           hq_head := 0, hq_tail := hq_size q - 1, hq_size := hq_size q * 2\<rparr>
       else q);
     a \<leftarrow> arr_set (hq_data q1) (hq_tail q1) (Some m);
     Some (q1\<lparr>hq_data := a, hq_tail := Suc (hq_tail q1) mod hq_size q1\<rparr>) }"

definition push_queue :: "ptr \<Rightarrow> bytes \<Rightarrow> remote_message_header \<Rightarrow> harbor_msg_queue \<Rightarrow> harbor_msg_queue option" where
  "push_queue buffer data header q = push_queue_msg \<lparr>hm_header = header, hm_buffer = buffer, hm_data = data\<rparr> q"

definition pop_queue :: "harbor_msg_queue \<Rightarrow> (harbor_msg option \<times> harbor_msg_queue) option" where
  "pop_queue q =
     (if hq_head q = hq_tail q then Some (None, q)
      else do {
        slot \<leftarrow> arr_get (hq_data q) (hq_head q);
        m \<leftarrow> slot;
        Some (Some m, q\<lparr>hq_head := Suc (hq_head q) mod hq_size q\<rparr>) })"

definition hq_new :: harbor_msg_queue where
  "hq_new = \<lparr>hq_size = HQ_DEFAULT_SIZE, hq_head = 0, hq_tail = 0, hq_data = replicate HQ_DEFAULT_SIZE None\<rparr>"

text \<open>\<open>while ((m = pop_queue(queue)) != NULL)\<close> with the body \<open>f\<close> on the rest of the state.\<close>

partial_function (option) pop_loop ::
  "(harbor_msg \<Rightarrow> 'w \<Rightarrow> 'w option) \<Rightarrow> harbor_msg_queue \<Rightarrow> 'w \<Rightarrow> (harbor_msg_queue \<times> 'w) option" where
  "pop_loop f q w = do {
     (r, q1) \<leftarrow> pop_queue q;
     case r of
       None \<Rightarrow> Some (q1, w)
     | Some m \<Rightarrow> do { w1 \<leftarrow> f m w; pop_loop f q1 w1 } }"

definition release_queue :: "harbor_msg_queue option \<Rightarrow> harbor \<Rightarrow> harbor option" where
  "release_queue oq h =
     (case oq of
        None \<Rightarrow> Some h
      | Some q \<Rightarrow> do {
          (_, h1) \<leftarrow> pop_loop (\<lambda>m h. Some (hcall (HFree (hm_buffer m)) h)) q h;
          Some h1 })"

subsection \<open>The map of global names\<close>

text \<open>The four words of a name, low byte first, as a little-endian machine reads them.\<close>

definition le_word :: "bytes \<Rightarrow> nat \<Rightarrow> u32" where
  "le_word name i = word_of_nat (unat (name ! i) + unat (name ! (i + 1)) * 2 ^ 8 + unat (name ! (i + 2)) * 2 ^ 16 +
     unat (name ! (i + 3)) * 2 ^ 24)"

definition name_hash :: "bytes \<Rightarrow> u32" where
  "name_hash name = le_word name 0 XOR le_word name 4 XOR le_word name 8 XOR le_word name 12"

text \<open>\<open>strncmp(a, b, GLOBALNAME_LENGTH) == 0\<close>\<close>

definition name_eq :: "bytes \<Rightarrow> bytes \<Rightarrow> bool" where
  "name_eq a b \<longleftrightarrow> takeWhile (\<lambda>c. c \<noteq> 0) (take NAME_LENGTH a) = takeWhile (\<lambda>c. c \<noteq> 0) (take NAME_LENGTH b)"

definition bucket :: "bytes \<Rightarrow> nat" where
  "bucket name = unat (name_hash name) mod HASH_SIZE"

text \<open>A node is found by its place: the chain and the position in it.\<close>

fun chain_search :: "keyvalue list \<Rightarrow> u32 \<Rightarrow> bytes \<Rightarrow> nat \<Rightarrow> nat option" where
  "chain_search [] hash name i = None"
| "chain_search (node # ns) hash name i =
     (if kv_hash node = hash \<and> name_eq (kv_key node) name then Some i else chain_search ns hash name (Suc i))"

definition hash_search :: "hashmap \<Rightarrow> bytes \<Rightarrow> (nat \<times> nat) option" where
  "hash_search hm name =
     (case chain_search (hm ! bucket name) (name_hash name) name 0 of
        None \<Rightarrow> None
      | Some i \<Rightarrow> Some (bucket name, i))"

definition hash_insert :: "hashmap \<Rightarrow> bytes \<Rightarrow> (nat \<times> nat) \<times> hashmap" where
  "hash_insert hm name =
     (let b = bucket name;
          node = \<lparr>kv_key = name, kv_hash = name_hash name, kv_value = 0, kv_queue = None\<rparr> in
      ((b, 0), hm[b := node # hm ! b]))"

definition hash_new :: hashmap where
  "hash_new = replicate HASH_SIZE []"

definition node_at :: "nat \<times> nat \<Rightarrow> hashmap \<Rightarrow> keyvalue option" where
  "node_at p hm = do { ns \<leftarrow> arr_get hm (fst p); arr_get ns (snd p) }"

definition node_put :: "nat \<times> nat \<Rightarrow> keyvalue \<Rightarrow> hashmap \<Rightarrow> hashmap option" where
  "node_put p node hm = do {
     ns \<leftarrow> arr_get hm (fst p);
     ns' \<leftarrow> arr_set ns (snd p) node;
     arr_set hm (fst p) ns' }"

text \<open>\<open>hash_delete\<close>: the queues of all nodes, chain by chain.\<close>

fun release_nodes :: "keyvalue list \<Rightarrow> harbor \<Rightarrow> harbor option" where
  "release_nodes [] h = Some h"
| "release_nodes (node # ns) h = do { h1 \<leftarrow> release_queue (kv_queue node) h; release_nodes ns h1 }"

definition hash_delete :: "harbor \<Rightarrow> harbor option" where
  "hash_delete h = do { h1 \<leftarrow> release_nodes (concat (hb_map h)) h; Some (h1\<lparr>hb_map := []\<rparr>) }"

subsection \<open>Connections\<close>

definition get_slave :: "nat \<Rightarrow> harbor \<Rightarrow> slave option" where
  "get_slave i h = arr_get (hb_s h) i"

definition put_slave :: "nat \<Rightarrow> slave \<Rightarrow> harbor \<Rightarrow> harbor option" where
  "put_slave i s h = do { a \<leftarrow> arr_set (hb_s h) i s; Some (h\<lparr>hb_s := a\<rparr>) }"

definition close_harbor :: "nat \<Rightarrow> harbor \<Rightarrow> harbor option" where
  "close_harbor i h = do {
     s \<leftarrow> get_slave i h;
     h1 \<leftarrow> put_slave i (s\<lparr>sl_status := Down\<rparr>) h;
     let h2 = (if sl_fd s \<noteq> 0 then hcall (HSocketClose (sl_fd s)) h1 else h1);
     if sl_queue s \<noteq> None then do {
       h3 \<leftarrow> release_queue (sl_queue s) h2;
       put_slave i (s\<lparr>sl_status := Down, sl_queue := None\<rparr>) h3 }
     else Some h2 }"

definition report_harbor_down :: "nat \<Rightarrow> harbor \<Rightarrow> harbor" where
  "report_harbor_down i h = hcall (HSend 0 (hb_slave h) TYPE_TEXT 0 (to_bytes (''D '' @ dec (int i)))) h"

definition empty_slave :: slave where
  "empty_slave = \<lparr>sl_fd = 0, sl_queue = None, sl_status = Wait, sl_length = 0, sl_read = 0,
     sl_size = replicate 4 0, sl_recv = []\<rparr>"

definition harbor_create :: harbor where
  "harbor_create = \<lparr>hb_id = 0, hb_slave = 0, hb_map = hash_new, hb_s = replicate REMOTE_MAX empty_slave, hb_calls = []\<rparr>"

fun close_all :: "nat list \<Rightarrow> harbor \<Rightarrow> harbor option" where
  "close_all [] h = Some h"
| "close_all (i # is) h = do {
     s \<leftarrow> get_slave i h;
     h1 \<leftarrow> (if sl_fd s \<noteq> 0 \<and> sl_status s \<noteq> Down then close_harbor i h else Some h);
     close_all is h1 }"

definition harbor_release :: "harbor \<Rightarrow> harbor option" where
  "harbor_release h = do { h1 \<leftarrow> close_all [1..<REMOTE_MAX] h; hash_delete h1 }"

definition header_to_message :: "remote_message_header \<Rightarrow> bytes" where
  "header_to_message header =
     to_bigendian (rh_source header) @ to_bigendian (rh_destination header) @ to_bigendian (rh_session header)"

definition message_to_header :: "bytes \<Rightarrow> remote_message_header" where
  "message_to_header message = \<lparr>rh_source = from_bigendian message, rh_destination = from_bigendian (drop 4 message),
     rh_session = from_bigendian (drop 8 message)\<rparr>"

text \<open>
  \<open>skynet_send\<close> with its answer: \<open>True\<close> when it returned a negative number.
\<close>

definition hsend :: "send_fails \<Rightarrow> u32 \<Rightarrow> u32 \<Rightarrow> u32 \<Rightarrow> u32 \<Rightarrow> bytes \<Rightarrow> harbor \<Rightarrow> bool \<times> harbor" where
  "hsend refused source destination type session data h =
     (let c = HSend source destination type session data in (refused (hb_calls h) c, hcall c h))"

text \<open>The header is read from the end of the block; a shorter block is read before its start.\<close>

definition forward_local_message :: "send_fails \<Rightarrow> bytes \<Rightarrow> harbor \<Rightarrow> harbor option" where
  "forward_local_message refused msg h = do {
     c_assert (HEADER_COOKIE_LENGTH \<le> length msg);
     let sz = length msg - HEADER_COOKIE_LENGTH;
     let header = message_to_header (drop sz msg);
     let type = drop_bit 24 (rh_destination header);
     let destination = (rh_destination header AND HB_MASK) OR push_bit 24 (word_of_int (hb_id h));
     let (failed, h1) = hsend refused (rh_source header) destination (type OR HB_DONTCOPY) (rh_session header) (take sz msg) h;
     Some (if failed then
         let h2 = (if type \<noteq> TYPE_ERROR then snd (hsend refused destination (rh_source header) TYPE_ERROR (rh_session header) [] h1)
                   else h1) in
         hcall (HLog (''Unknown destination :'' @ sprintf_x destination @ '' from :'' @ sprintf_x (rh_source header) @
           '' type('' @ sprintf_d type @ '')'')) h2
       else h1) }"

definition send_remote :: "int \<Rightarrow> bytes \<Rightarrow> remote_message_header \<Rightarrow> harbor \<Rightarrow> harbor" where
  "send_remote fd data cookie h =
     (let sz_header = length data + 12 in
      if 2 ^ 32 - 1 < sz_header then
        hcall (HLog (''remote message from :'' @ sprintf_08x (rh_source cookie) @ '' to :'' @
          sprintf_08x (rh_destination cookie) @ '' is too large.'')) h
      else hcall (HSendBuffer fd (to_bigendian (word_of_nat sz_header) @ data @ header_to_message cookie)) h)"

definition harbor_of :: "u32 \<Rightarrow> nat" where
  "harbor_of handle = unat (drop_bit 24 handle)"

text \<open>The queue of a slot, sent to a service of this node.\<close>

definition local_queue :: "send_fails \<Rightarrow> nat \<Rightarrow> u32 \<Rightarrow> harbor \<Rightarrow> harbor option" where
  "local_queue refused i handle h = do {
     s \<leftarrow> get_slave i h;
     sq \<leftarrow> sl_queue s;
     (sq', h1) \<leftarrow> pop_loop (\<lambda>m h. Some (snd (hsend refused (rh_source (hm_header m)) handle
       (drop_bit 24 (rh_destination (hm_header m)) OR HB_DONTCOPY) (rh_session (hm_header m)) (hm_data m) h))) sq h;
     h2 \<leftarrow> release_queue (Some sq') h1;
     put_slave i (s\<lparr>sl_queue := None\<rparr>) h2 }"

text \<open>
  The queue of a name whose handle has become known. Without a connection it moves to the slot of the harbor,
  or is sent locally when the harbor is this node's own.
\<close>

definition dispatch_name_queue :: "send_fails \<Rightarrow> nat \<times> nat \<Rightarrow> harbor \<Rightarrow> harbor option" where
  "dispatch_name_queue refused p h = do {
     node \<leftarrow> node_at p (hb_map h);
     queue \<leftarrow> kv_queue node;
     let handle = kv_value node;
     let i = harbor_of handle;
     s \<leftarrow> get_slave i h;
     if sl_fd s = 0 then
       if sl_status s = Down then
         Some (hcall (HLog (''Drop message to '' @ map (\<lambda>c. char_of (unat c)) (takeWhile (\<lambda>c. c \<noteq> 0) (kv_key node)) @
           '' (in harbor '' @ dec (int i) @ '')'')) h)
       else do {
         h1 \<leftarrow> (case sl_queue s of
             None \<Rightarrow> do {
               m \<leftarrow> node_put p (node\<lparr>kv_queue := None\<rparr>) (hb_map h);
               put_slave i (s\<lparr>sl_queue := Some queue\<rparr>) (h\<lparr>hb_map := m\<rparr>) }
           | Some sq \<Rightarrow> do {
               (queue', sq') \<leftarrow> pop_loop push_queue_msg queue sq;
               m \<leftarrow> node_put p (node\<lparr>kv_queue := Some queue'\<rparr>) (hb_map h);
               put_slave i (s\<lparr>sl_queue := Some sq'\<rparr>) (h\<lparr>hb_map := m\<rparr>) });
         if i = harbor_of (hb_slave h) then local_queue refused i handle h1
         else Some h1 }
     else do {
       (queue', h1) \<leftarrow> pop_loop (\<lambda>m h. Some (hcall (HFree (hm_buffer m)) (send_remote (sl_fd s) (hm_data m)
         ((hm_header m)\<lparr>rh_destination := rh_destination (hm_header m) OR (handle AND HB_MASK)\<rparr>) h))) queue h;
       m \<leftarrow> node_put p (node\<lparr>kv_queue := Some queue'\<rparr>) (hb_map h1);
       Some (h1\<lparr>hb_map := m\<rparr>) } }"

definition dispatch_queue :: "nat \<Rightarrow> harbor \<Rightarrow> harbor option" where
  "dispatch_queue i h = do {
     s \<leftarrow> get_slave i h;
     c_assert (sl_fd s \<noteq> 0);
     case sl_queue s of
       None \<Rightarrow> Some h
     | Some queue \<Rightarrow> do {
         (queue', h1) \<leftarrow> pop_loop (\<lambda>m h. Some (hcall (HFree (hm_buffer m))
           (send_remote (sl_fd s) (hm_data m) (hm_header m) h))) queue h;
         h2 \<leftarrow> release_queue (Some queue') h1;
         put_slave i (s\<lparr>sl_queue := None\<rparr>) h2 } }"

subsection \<open>Data from a connection\<close>

text \<open>
  One round of the loop of \<open>push_socket_data\<close>: \<open>None\<close> beside the new state is a return, otherwise the
  rest of the block goes into the next round. Where a case of the source falls through to the next one, the next
  round does the same, since the status is already the new one.
\<close>

definition recv_handshake :: "int \<Rightarrow> nat \<Rightarrow> bytes \<Rightarrow> harbor \<Rightarrow> (bytes option \<times> harbor) option" where
  "recv_handshake fd i buffer h =
     (case buffer of
        [] \<Rightarrow> None
      | remote_id # rest \<Rightarrow>
          if unat remote_id \<noteq> i then do {
            h1 \<leftarrow> close_harbor i (hcall (HLog (''Invalid shakehand id ('' @ dec (int i) @ '') from fd = '' @ dec fd @
              '' , harbor = '' @ dec (uint remote_id))) h);
            Some (None, h1) }
          else do {
            s \<leftarrow> get_slave i h;
            h1 \<leftarrow> put_slave i (s\<lparr>sl_status := Header\<rparr>) h;
            h2 \<leftarrow> dispatch_queue i h1;
            Some (Some rest, h2) })"

definition recv_header :: "nat \<Rightarrow> bytes \<Rightarrow> harbor \<Rightarrow> (bytes option \<times> harbor) option" where
  "recv_header i buffer h = do {
     s \<leftarrow> get_slave i h;
     c_assert (sl_read s \<le> 4);
     let need = 4 - sl_read s;
     if length buffer < need then do {
       h1 \<leftarrow> put_slave i (s\<lparr>sl_size := take (sl_read s) (sl_size s) @ buffer @ drop (sl_read s + length buffer) (sl_size s),
         sl_read := sl_read s + length buffer\<rparr>) h;
       Some (None, h1) }
     else do {
       let size = take (sl_read s) (sl_size s) @ take need buffer;
       if size ! 0 \<noteq> 0 then do {
         h0 \<leftarrow> put_slave i (s\<lparr>sl_size := size\<rparr>) h;
         h1 \<leftarrow> close_harbor i (hcall (HLog (''Message is too long from harbor '' @ dec (int i))) h0);
         Some (None, h1) }
       else do {
         h1 \<leftarrow> put_slave i (s\<lparr>sl_size := size,
           sl_length := unat (size ! 1) * 2 ^ 16 + unat (size ! 2) * 2 ^ 8 + unat (size ! 3),
           sl_read := 0, sl_recv := [], sl_status := Content\<rparr>) h;
         Some (if length buffer = need then None else Some (drop need buffer), h1) } } }"

definition recv_content :: "send_fails \<Rightarrow> nat \<Rightarrow> bytes \<Rightarrow> harbor \<Rightarrow> (bytes option \<times> harbor) option" where
  "recv_content refused i buffer h = do {
     s \<leftarrow> get_slave i h;
     c_assert (sl_read s \<le> sl_length s);
     let need = sl_length s - sl_read s;
     if length buffer < need then do {
       h1 \<leftarrow> put_slave i (s\<lparr>sl_recv := take (sl_read s) (sl_recv s) @ buffer, sl_read := sl_read s + length buffer\<rparr>) h;
       Some (None, h1) }
     else do {
       h1 \<leftarrow> forward_local_message refused (take (sl_read s) (sl_recv s) @ take need buffer) h;
       h2 \<leftarrow> put_slave i (s\<lparr>sl_length := 0, sl_read := 0, sl_recv := [], sl_status := Header\<rparr>) h1;
       Some (if length buffer = need then None else Some (drop need buffer), h2) } }"

definition recv_step :: "send_fails \<Rightarrow> int \<Rightarrow> nat \<Rightarrow> bytes \<Rightarrow> harbor \<Rightarrow> (bytes option \<times> harbor) option" where
  "recv_step refused fd i buffer h = do {
     s \<leftarrow> get_slave i h;
     case sl_status s of
       Handshake \<Rightarrow> recv_handshake fd i buffer h
     | Header \<Rightarrow> recv_header i buffer h
     | Content \<Rightarrow> recv_content refused i buffer h
     | _ \<Rightarrow> Some (None, h) }"

partial_function (option) recv_loop :: "send_fails \<Rightarrow> int \<Rightarrow> nat \<Rightarrow> bytes \<Rightarrow> harbor \<Rightarrow> harbor option" where
  "recv_loop refused fd i buffer h = do {
     (r, h1) \<leftarrow> recv_step refused fd i buffer h;
     case r of None \<Rightarrow> Some h1 | Some rest \<Rightarrow> recv_loop refused fd i rest h1 }"

text \<open>The first slot from 1 on with the descriptor, 0 when there is none.\<close>

definition find_fd :: "int \<Rightarrow> harbor \<Rightarrow> nat" where
  "find_fd fd h = (case filter (\<lambda>i. sl_fd (hb_s h ! i) = fd) [1..<length (hb_s h)] of [] \<Rightarrow> 0 | i # _ \<Rightarrow> i)"

definition push_socket_data :: "send_fails \<Rightarrow> int \<Rightarrow> bytes \<Rightarrow> harbor \<Rightarrow> harbor option" where
  "push_socket_data refused fd buffer h =
     (let i = find_fd fd h in
      if i = 0 then Some (hcall (HLog (''Invalid socket fd ('' @ dec fd @ '') data'')) h)
      else recv_loop refused fd i buffer h)"

subsection \<open>Messages to other nodes\<close>

text \<open>\<open>hash_search\<close>, or \<open>hash_insert\<close> when the name is new.\<close>

definition find_or_insert :: "bytes \<Rightarrow> harbor \<Rightarrow> (nat \<times> nat) \<times> harbor" where
  "find_or_insert name h =
     (case hash_search (hb_map h) name of
        Some p \<Rightarrow> (p, h)
      | None \<Rightarrow> (let (p, m) = hash_insert (hb_map h) name in (p, h\<lparr>hb_map := m\<rparr>)))"

definition update_name :: "send_fails \<Rightarrow> bytes \<Rightarrow> u32 \<Rightarrow> harbor \<Rightarrow> harbor option" where
  "update_name refused name handle h = do {
     let (p, h1) = find_or_insert name h;
     node \<leftarrow> node_at p (hb_map h1);
     m \<leftarrow> node_put p (node\<lparr>kv_value := handle\<rparr>) (hb_map h1);
     let h2 = h1\<lparr>hb_map := m\<rparr>;
     if kv_queue node \<noteq> None then do {
       h3 \<leftarrow> dispatch_name_queue refused p h2;
       node' \<leftarrow> node_at p (hb_map h3);
       h4 \<leftarrow> release_queue (kv_queue node') h3;
       m' \<leftarrow> node_put p (node'\<lparr>kv_queue := None\<rparr>) (hb_map h4);
       Some (h4\<lparr>hb_map := m'\<rparr>) }
     else Some h2 }"

text \<open>The first result is 1 when the block is kept or was given away, 0 when the caller frees it.\<close>

definition remote_send_handle ::
  "send_fails \<Rightarrow> u32 \<Rightarrow> u32 \<Rightarrow> u32 \<Rightarrow> u32 \<Rightarrow> ptr \<Rightarrow> bytes \<Rightarrow> harbor \<Rightarrow> (nat \<times> harbor) option" where
  "remote_send_handle refused source destination type session msg data h =
     (let i = harbor_of destination in
      if int i = hb_id h then Some (1, snd (hsend refused source destination (type OR HB_DONTCOPY) session data h))
      else do {
        s \<leftarrow> get_slave i h;
        if sl_fd s = 0 \<or> sl_status s = Handshake then
          if sl_status s = Down then
            Some (0, hcall (HLog (''Drop message to harbor '' @ dec (int i) @ '' from '' @ sprintf_x source @ '' to '' @
              sprintf_x destination @ '' (session = '' @ sprintf_d session @ '', msgsz = '' @ dec (int (length data)) @ '')''))
              (snd (hsend refused destination source TYPE_ERROR 0 [] h)))
          else do {
            let queue = (case sl_queue s of None \<Rightarrow> hq_new | Some q \<Rightarrow> q);
            q1 \<leftarrow> push_queue msg data \<lparr>rh_source = source, rh_destination = push_bit 24 type OR (destination AND HB_MASK),
              rh_session = session\<rparr> queue;
            h1 \<leftarrow> put_slave i (s\<lparr>sl_queue := Some q1\<rparr>) h;
            Some (1, h1) }
        else Some (0, send_remote (sl_fd s) data \<lparr>rh_source = source,
          rh_destination = (destination AND HB_MASK) OR push_bit 24 type, rh_session = session\<rparr> h) })"

definition remote_send_name ::
  "send_fails \<Rightarrow> u32 \<Rightarrow> bytes \<Rightarrow> u32 \<Rightarrow> u32 \<Rightarrow> ptr \<Rightarrow> bytes \<Rightarrow> harbor \<Rightarrow> (nat \<times> harbor) option" where
  "remote_send_name refused source name type session msg data h = do {
     let (p, h1) = find_or_insert name h;
     node \<leftarrow> node_at p (hb_map h1);
     if kv_value node = 0 then do {
       let queue = (case kv_queue node of None \<Rightarrow> hq_new | Some q \<Rightarrow> q);
       q1 \<leftarrow> push_queue msg data \<lparr>rh_source = source, rh_destination = push_bit 24 type, rh_session = session\<rparr> queue;
       m \<leftarrow> node_put p (node\<lparr>kv_queue := Some q1\<rparr>) (hb_map h1);
       Some (1, snd (hsend refused 0 (hb_slave h1) TYPE_TEXT 0 (to_bytes ''Q '' @ takeWhile (\<lambda>c. c \<noteq> 0) (take NAME_LENGTH name))
         (h1\<lparr>hb_map := m\<rparr>))) }
     else remote_send_handle refused source (kv_value node) type session msg data h1 }"

definition handshake :: "nat \<Rightarrow> harbor \<Rightarrow> harbor option" where
  "handshake i h = do { s \<leftarrow> get_slave i h; Some (hcall (HSendBuffer (sl_fd s) [word_of_int (hb_id h)]) h) }"

text \<open>
  The commands of the slave service. The text behind the first two bytes is a name or two numbers.
\<close>

definition harbor_connect :: "bool \<Rightarrow> string \<Rightarrow> harbor \<Rightarrow> harbor option" where
  "harbor_connect active buffer h =
     (let (wfd, wid) = scan_two strtol10_int buffer; fd = sint wfd; i = sint wid in
      if fd = 0 \<or> i \<le> 0 \<or> int REMOTE_MAX \<le> i then
        Some (hcall (HLog (''Invalid command '' @ (if active then ''S '' else ''A '') @ buffer)) h)
      else do {
        s \<leftarrow> get_slave (nat i) h;
        if sl_fd s \<noteq> 0 then Some (hcall (HLog (''Harbor '' @ dec i @ '' alreay exist'')) h)
        else do {
          h1 \<leftarrow> put_slave (nat i) (s\<lparr>sl_fd := fd\<rparr>) h;
          h2 \<leftarrow> handshake (nat i) (hcall (HSocketStart fd) h1);
          if active then put_slave (nat i) (s\<lparr>sl_fd := fd, sl_status := Handshake\<rparr>) h2
          else do {
            h3 \<leftarrow> put_slave (nat i) (s\<lparr>sl_fd := fd, sl_status := Header\<rparr>) h2;
            dispatch_queue (nat i) h3 } } })"

definition harbor_command :: "send_fails \<Rightarrow> string \<Rightarrow> u32 \<Rightarrow> harbor \<Rightarrow> harbor option" where
  "harbor_command refused msg source h =
     (case msg of
        [] \<Rightarrow> None
      | c # _ \<Rightarrow>
          let name = drop 2 msg in
          if c = CHR ''N'' then
            if length msg < 2 then None
            else if name = [] \<or> NAME_LENGTH \<le> length name then Some (hcall (HLog (''Invalid global name '' @ name)) h)
            else update_name refused (to_bytes name @ replicate (NAME_LENGTH - length name) 0) source h
          else if c = CHR ''S'' \<or> c = CHR ''A'' then
            if length msg < 2 then None else harbor_connect (c = CHR ''S'') name h
          else Some (hcall (HLog (''Unknown command '' @ msg)) h))"

definition harbor_id :: "int \<Rightarrow> harbor \<Rightarrow> nat" where
  "harbor_id fd h = find_fd fd h"

definition socket_closed :: "int \<Rightarrow> harbor \<Rightarrow> harbor" where
  "socket_closed fd h =
     (let i = harbor_id fd h in
      if i \<noteq> 0 then report_harbor_down i h else hcall (HLog (''Unkown fd ('' @ dec fd @ '') closed'')) h)"

text \<open>A message to the harbor service, by its type.\<close>

datatype harbor_input =
    Net socket_event
  | Command string
  | Remote_handle u32 u32 ptr bytes
  | Remote_name bytes u32 ptr bytes
  | Unexpected u32

definition mainloop :: "send_fails \<Rightarrow> harbor_input \<Rightarrow> u32 \<Rightarrow> u32 \<Rightarrow> harbor \<Rightarrow> harbor option" where
  "mainloop refused inp session source h =
     (case inp of
        Net (EvData fd p data) \<Rightarrow> do { h1 \<leftarrow> push_socket_data refused fd data h; Some (hcall (HFree p) h1) }
      | Net (EvError fd) \<Rightarrow> Some (socket_closed fd h)
      | Net (EvClose fd) \<Rightarrow> Some (socket_closed fd h)
      | Net (EvConnect fd) \<Rightarrow> Some h
      | Net (EvWarning fd sz) \<Rightarrow>
          (let i = harbor_id fd h in
           Some (if i \<noteq> 0 then hcall (HLog (''message havn't send to Harbor ('' @ dec (int i) @ '') reach '' @ dec sz @ '' K'')) h
             else h))
      | Net _ \<Rightarrow> Some (hcall (HLog ''recv invalid socket message type 6'') h)
      | Command msg \<Rightarrow> harbor_command refused msg source h
      | Remote_name name type p data \<Rightarrow> do {
          (r, h1) \<leftarrow> remote_send_name refused source name type session p data h;
          Some (if r \<noteq> 0 then h1 else hcall (HFree p) h1) }
      | Remote_handle destination type p data \<Rightarrow> do {
          (r, h1) \<leftarrow> remote_send_handle refused source destination type session p data h;
          Some (if r \<noteq> 0 then h1 else hcall (HFree p) h1) }
      | Unexpected type \<Rightarrow>
          (let h1 = hcall (HLog (''recv invalid message from '' @ sprintf_x source @ '',  type = '' @ sprintf_d type)) h in
           Some (if session \<noteq> 0 \<and> type \<noteq> TYPE_ERROR then snd (hsend refused 0 source TYPE_ERROR session [] h1) else h1)))"

definition harbor_init :: "string \<Rightarrow> harbor \<Rightarrow> nat \<times> harbor" where
  "harbor_init args h =
     (let (hid, slave) = scan_two strtoul10_u32 args in
      if slave = 0 then (1, h) else (0, hcall HStart (hcall HCallback (h\<lparr>hb_id := sint hid, hb_slave := slave\<rparr>))))"

subsection \<open>The ring implements a list\<close>

definition hq_rep :: "harbor_msg_queue \<Rightarrow> harbor_msg list \<Rightarrow> bool" where
  "hq_rep q xs \<longleftrightarrow> hq_head q < hq_size q \<and> hq_tail q < hq_size q \<and> length (hq_data q) = hq_size q \<and>
     ring_len (hq_size q) (hq_head q) (hq_tail q) = length xs \<and> ring (hq_data q) (hq_head q) (length xs) = map Some xs"

lemma hq_rep_new: "hq_rep hq_new []"
  by (simp add: hq_rep_def hq_new_def HQ_DEFAULT_SIZE_def ring_len_def)

lemma hq_rep_ring: "hq_rep q xs \<longleftrightarrow> ring_rep (hq_data q) (hq_size q) (hq_head q) (hq_tail q) xs"
  by (auto simp: hq_rep_def ring_rep_def)

lemma push_room:
  assumes "hq_rep q xs" "Suc (hq_tail q) mod hq_size q \<noteq> hq_head q"
  shows "hq_rep (q\<lparr>hq_data := (hq_data q)[hq_tail q := Some m], hq_tail := Suc (hq_tail q) mod hq_size q\<rparr>) (xs @ [m])"
  using assms ring_rep_push by (simp add: hq_rep_ring)

lemma push_queue_msg_rep:
  assumes "hq_rep q xs"
  shows "\<exists>q'. push_queue_msg m q = Some q' \<and> hq_rep q' (xs @ [m])"
proof (cases "Suc (hq_tail q) mod hq_size q = hq_head q")
  case False
  from push_room [OF assms this] False assms show ?thesis by (simp add: push_queue_msg_def hq_rep_def)
next
  case True
  note r = ring_repD [OF assms [unfolded hq_rep_ring]]
  have full: "hq_size q - 1 = length xs" "length xs < hq_size q * 2" using ring_len_full [OF r(1,2) True] r(4) by simp_all
  let ?a = "map (\<lambda>i. hq_data q ! ((i + hq_head q) mod hq_size q)) [0..<hq_size q - 1] @ replicate (hq_size q + 1) None"
  let ?q = "q\<lparr>hq_data := ?a, hq_head := 0, hq_tail := hq_size q - 1, hq_size := hq_size q * 2\<rparr>"
  have "?a = map Some xs @ replicate (hq_size q + 1) None"
    using r(3,5) full by (simp add: ring_def add.commute)
  moreover have "length (replicate (hq_size q + 1) None) = hq_size q * 2 - length xs" using full r(1) by simp
  ultimately have "ring_rep ?a (hq_size q * 2) 0 (hq_size q - 1) xs" using ring_rep_front [OF full(2)] full(1) by (simp only:)
  then have "hq_rep ?q xs" by (simp add: hq_rep_ring)
  moreover have "Suc (hq_tail ?q) mod hq_size ?q \<noteq> hq_head ?q" using r(1) by simp
  ultimately have "hq_rep (?q\<lparr>hq_data := (hq_data ?q)[hq_tail ?q := Some m], hq_tail := Suc (hq_tail ?q) mod hq_size ?q\<rparr>) (xs @ [m])"
    by (rule push_room)
  moreover have "hq_tail ?q < length (hq_data ?q)" using r(1) by simp
  ultimately show ?thesis using True by (simp add: push_queue_msg_def Let_def)
qed

lemma pop_queue_Nil: "hq_rep q [] \<Longrightarrow> pop_queue q = Some (None, q)"
  using ring_repD(6) [of "hq_data q"] by (auto simp: pop_queue_def hq_rep_ring)

lemma pop_queue_Cons:
  assumes "hq_rep q (x # xs)"
  shows "\<exists>q'. pop_queue q = Some (Some x, q') \<and> hq_rep q' xs"
  using ring_rep_pop [OF assms [unfolded hq_rep_ring]] ring_repD [OF assms [unfolded hq_rep_ring]]
  by (simp add: pop_queue_def hq_rep_ring)

interpretation hq: total_fifo push_queue_msg pop_queue hq_rep
proof unfold_locales
  show "\<exists>q'. push_queue_msg x q = Some q' \<and> hq_rep q' (xs @ [x])" if "hq_rep q xs" for q xs x
    using push_queue_msg_rep [OF that] .
  show "\<exists>q'. pop_queue q = Some (None, q') \<and> hq_rep q' []" if "hq_rep q []" for q
    using pop_queue_Nil [OF that] that by auto
  show "\<exists>q'. pop_queue q = Some (Some x, q') \<and> hq_rep q' xs" if "hq_rep q (x # xs)" for q x xs
    using pop_queue_Cons [OF that] .
qed simp

text \<open>A loop over a queue visits its elements in order and leaves it empty.\<close>

lemma pop_loop_each:
  "hq_rep q ms \<Longrightarrow> \<exists>q'. hq_rep q' [] \<and> (\<forall>w. pop_loop f q w = do { w' \<leftarrow> each f ms w; Some (q', w') })"
proof (induction ms arbitrary: q)
  case Nil
  then show ?case by (subst pop_loop.simps) (auto simp: pop_queue_Nil)
next
  case (Cons m ms)
  obtain q1 where q1: "pop_queue q = Some (Some m, q1)" "hq_rep q1 ms" using pop_queue_Cons [OF Cons.prems] by blast
  obtain q' where q': "hq_rep q' []" "\<forall>w. pop_loop f q1 w = do { w' \<leftarrow> each f ms w; Some (q', w') }"
    using Cons.IH [OF q1(2)] by blast
  have "pop_loop f q1 = (\<lambda>w. do { w' \<leftarrow> each f ms w; Some (q', w') })" using q'(2) by auto
  then have "pop_loop f q w = do { w' \<leftarrow> each f (m # ms) w; Some (q', w') }" for w
    using q1(1) by (subst pop_loop.simps) (simp add: Option.bind_assoc)
  with q'(1) show ?case by blast
qed

lemma pop_loop_fold:
  assumes "hq_rep q ms"
  obtains q' where "hq_rep q' []" "\<And>w. pop_loop (\<lambda>m w. Some (g m w)) q w = Some (q', fold g ms w)"
  using pop_loop_each [OF assms, of "\<lambda>m w. Some (g m w)"] each_total [of ms "\<lambda>m w. Some (g m w)" g] by auto

lemma release_queue_spec:
  "hq_rep q ms \<Longrightarrow> release_queue (Some q) h = Some (fold (\<lambda>m. hcall (HFree (hm_buffer m))) ms h)"
  using pop_loop_fold [of q ms "\<lambda>m. hcall (HFree (hm_buffer m))"] by (force simp: release_queue_def)

lemma release_queue_None [simp]: "release_queue None h = Some h"
  by (simp add: release_queue_def)

lemma fold_hcall: "fold (\<lambda>m. hcall (c m)) ms h = h\<lparr>hb_calls := hb_calls h @ map c ms\<rparr>"
  by (induction ms arbitrary: h) (simp_all add: hcall_def)

end
