(* ===== verification/Harbor_Link.thy ===== *)
theory Harbor_Link
  imports Harbor
begin

section \<open>The link between two nodes\<close>

text \<open>
  What \<open>send_remote\<close> writes on one node, \<open>push_socket_data\<close> reads on the other. The receiver keeps the bytes
  of an incomplete packet in its slot; \<open>pend\<close> is this part of the stream. The main lemma says that it delivers the
  packets of the stream, however it was cut into blocks.
\<close>

unbundle bit_operations_syntax

definition wire_len :: "bytes \<Rightarrow> nat" where
  "wire_len sz = unat (sz ! 1) * 2 ^ 16 + unat (sz ! 2) * 2 ^ 8 + unat (sz ! 3)"

definition head_good :: "bytes \<Rightarrow> bool" where
  "head_good sz \<longleftrightarrow> sz ! 0 = 0 \<and> HEADER_COOKIE_LENGTH \<le> wire_len sz"

definition pend :: "slave \<Rightarrow> bytes" where
  "pend s = (case sl_status s of
     Header \<Rightarrow> take (sl_read s) (sl_size s)
   | Content \<Rightarrow> sl_size s @ take (sl_read s) (sl_recv s)
   | _ \<Rightarrow> [])"

definition recv_ok :: "slave \<Rightarrow> bool" where
  "recv_ok s \<longleftrightarrow> length (sl_size s) = 4 \<and>
     (sl_status s = Header \<and> sl_read s < 4 \<or>
      sl_status s = Content \<and> sl_length s = wire_len (sl_size s) \<and> sl_read s \<le> sl_length s \<and>
        sl_read s \<le> length (sl_recv s))"

subsection \<open>Delivery of one packet\<close>

definition deliver :: "send_fails \<Rightarrow> bytes \<Rightarrow> harbor \<Rightarrow> harbor" where
  "deliver refused msg h = the (forward_local_message refused msg h)"

lemma forward_local_total:
  "HEADER_COOKIE_LENGTH \<le> length msg \<Longrightarrow> forward_local_message refused msg h = Some (deliver refused msg h)"
  by (simp add: deliver_def forward_local_message_def case_prod_unfold Let_def)

lemma deliver_slaves:
  assumes "HEADER_COOKIE_LENGTH \<le> length msg"
  shows "deliver refused msg (h\<lparr>hb_s := a\<rparr>) = (deliver refused msg h)\<lparr>hb_s := a\<rparr>" "hb_s (deliver refused msg h) = hb_s h"
  using assms by (simp_all add: deliver_def forward_local_message_def case_prod_unfold Let_def hsend_def hcall_def)

lemma deliver_fold:
  "\<forall>p \<in> set ps. HEADER_COOKIE_LENGTH \<le> length p \<Longrightarrow>
     fold (deliver refused) ps (h\<lparr>hb_s := a\<rparr>) = (fold (deliver refused) ps h)\<lparr>hb_s := a\<rparr>"
  by (induction ps arbitrary: h) (simp_all add: deliver_slaves)

text \<open>The receiver after the packets \<open>ps\<close>, with slot \<open>i\<close> in the state \<open>s\<close>.\<close>

definition received :: "send_fails \<Rightarrow> nat \<Rightarrow> bytes list \<Rightarrow> slave \<Rightarrow> harbor \<Rightarrow> harbor" where
  "received refused i ps s h = (fold (deliver refused) ps h)\<lparr>hb_s := (hb_s h)[i := s]\<rparr>"

lemma received_Nil: "received refused i [] s h = h\<lparr>hb_s := (hb_s h)[i := s]\<rparr>"
  by (simp add: received_def)

lemma received_received:
  assumes "\<forall>p \<in> set qs. HEADER_COOKIE_LENGTH \<le> length p"
  shows "received refused i qs s' (received refused i ps s h) = received refused i (ps @ qs) s' h"
  using deliver_fold [OF assms] by (simp add: received_def)

lemma get_received: "i < length (hb_s h) \<Longrightarrow> get_slave i (received refused i ps s h) = Some s"
  by (simp add: received_def get_slave_def)

lemma length_received [simp]: "length (hb_s (received refused i ps s h)) = length (hb_s h)"
  by (simp add: received_def)

subsection \<open>One round\<close>

lemma recv_header_short:
  assumes "get_slave i h = Some s" "recv_ok s" "sl_status s = Header" "length (pend s @ buffer) < 4"
  shows "\<exists>s'. recv_header i buffer h = Some (None, received refused i [] s' h) \<and> recv_ok s' \<and> pend s' = pend s @ buffer \<and>
    sl_fd s' = sl_fd s"
proof -
  let ?s = "s\<lparr>sl_size := take (sl_read s) (sl_size s) @ buffer @ drop (sl_read s + length buffer) (sl_size s),
    sl_read := sl_read s + length buffer\<rparr>"
  have i: "i < length (hb_s h)" using assms(1) by (simp add: get_slave_def arr_get_Some_iff)
  have l: "length (sl_size s) = 4" "sl_read s < 4" "sl_read s + length buffer < 4"
    "length buffer < 4 - sl_read s"
    using assms(2,3,4) by (auto simp: recv_ok_def pend_def)
  have "recv_header i buffer h = Some (None, received refused i [] ?s h)"
    using assms(1) l i by (simp add: recv_header_def put_slave_def received_Nil Let_def)
  moreover have "recv_ok ?s" "pend ?s = pend s @ buffer" using l assms(3) by (simp_all add: recv_ok_def pend_def)
  ultimately show ?thesis by (intro exI [of _ ?s]) simp
qed

lemma recv_header_full:
  assumes "get_slave i h = Some s" "recv_ok s" "sl_status s = Header" "4 \<le> length (pend s @ buffer)"
    and "(take 4 (pend s @ buffer)) ! 0 = 0"
  shows "\<exists>s' rest. recv_header i buffer h = Some (if rest = [] then None else Some rest, received refused i [] s' h) \<and>
    recv_ok s' \<and> sl_status s' = Content \<and> pend s' = sl_size s' \<and> pend s' @ rest = pend s @ buffer \<and> length rest < length buffer \<and> sl_fd s' = sl_fd s"
proof -
  let ?n = "4 - sl_read s"
  let ?size = "take (sl_read s) (sl_size s) @ take ?n buffer"
  let ?s = "s\<lparr>sl_size := ?size, sl_length := wire_len ?size, sl_read := 0, sl_recv := [], sl_status := Content\<rparr>"
  have i: "i < length (hb_s h)" using assms(1) by (simp add: get_slave_def arr_get_Some_iff)
  have l: "length (sl_size s) = 4" "sl_read s < 4" "?n \<le> length buffer"
    using assms(2,3,4) by (auto simp: recv_ok_def pend_def)
  have p: "take 4 (pend s @ buffer) = ?size" using l assms(3) by (simp add: pend_def)
  have "recv_header i buffer h = Some (if drop ?n buffer = [] then None else Some (drop ?n buffer), received refused i [] ?s h)"
    using assms(1,5) l i unfolding p by (simp add: recv_header_def put_slave_def received_Nil wire_len_def Let_def)
  moreover have "recv_ok ?s" "pend ?s = sl_size ?s" "pend ?s @ drop ?n buffer = pend s @ buffer" using l assms(3) by (simp_all add: recv_ok_def pend_def)
  moreover have "length (drop ?n buffer) < length buffer" using l by simp
  ultimately show ?thesis by (intro exI [of _ ?s] exI [of _ "drop ?n buffer"]) simp
qed

lemma recv_content_short:
  assumes "get_slave i h = Some s" "recv_ok s" "sl_status s = Content" "length (pend s @ buffer) < 4 + sl_length s"
  shows "\<exists>s'. recv_content refused i buffer h = Some (None, received refused i [] s' h) \<and> recv_ok s' \<and>
    pend s' = pend s @ buffer \<and> sl_fd s' = sl_fd s"
proof -
  let ?s = "s\<lparr>sl_recv := take (sl_read s) (sl_recv s) @ buffer, sl_read := sl_read s + length buffer\<rparr>"
  have i: "i < length (hb_s h)" using assms(1) by (simp add: get_slave_def arr_get_Some_iff)
  have l: "length (sl_size s) = 4" "sl_read s \<le> sl_length s" "sl_read s \<le> length (sl_recv s)"
    "sl_read s + length buffer < sl_length s" "length buffer < sl_length s - sl_read s"
    using assms(2,3,4) by (auto simp: recv_ok_def pend_def)
  have "recv_content refused i buffer h = Some (None, received refused i [] ?s h)"
    using assms(1) l i by (simp add: recv_content_def put_slave_def received_Nil Let_def)
  moreover have "recv_ok ?s" "pend ?s = pend s @ buffer" using l assms(2,3) by (auto simp: recv_ok_def pend_def)
  ultimately show ?thesis by (intro exI [of _ ?s]) simp
qed

lemma recv_content_full:
  assumes "get_slave i h = Some s" "recv_ok s" "sl_status s = Content" "4 + sl_length s \<le> length (pend s @ buffer)"
    and "HEADER_COOKIE_LENGTH \<le> sl_length s"
  shows "\<exists>s' rest p. recv_content refused i buffer h = Some (if rest = [] then None else Some rest, received refused i [p] s' h) \<and>
    recv_ok s' \<and> sl_status s' = Header \<and> pend s' = [] \<and> length rest \<le> length buffer \<and> sl_fd s' = sl_fd s \<and>
    pend s @ buffer = sl_size s @ p @ rest \<and> length p = sl_length s"
proof -
  let ?n = "sl_length s - sl_read s"
  let ?p = "take (sl_read s) (sl_recv s) @ take ?n buffer"
  let ?s = "s\<lparr>sl_length := 0, sl_read := 0, sl_recv := [], sl_status := Header\<rparr>"
  have i: "i < length (hb_s h)" using assms(1) by (simp add: get_slave_def arr_get_Some_iff)
  have l: "length (sl_size s) = 4" "sl_read s \<le> sl_length s" "sl_read s \<le> length (sl_recv s)" "?n \<le> length buffer"
    using assms(2,3,4) by (auto simp: recv_ok_def pend_def)
  have lp: "length ?p = sl_length s" using l by simp
  have "recv_content refused i buffer h =
      Some (if drop ?n buffer = [] then None else Some (drop ?n buffer), received refused i [?p] ?s h)"
    using assms(1,5) l i lp by (simp add: recv_content_def put_slave_def received_def forward_local_total deliver_slaves Let_def)
  moreover have "recv_ok ?s" "pend ?s = []" "pend s @ buffer = sl_size s @ ?p @ drop ?n buffer"
    using l assms(3) by (simp_all add: recv_ok_def pend_def)
  ultimately show ?thesis using lp
    by (intro exI [of _ ?s] exI [of _ "drop ?n buffer"] exI [of _ ?p]) simp
qed

subsection \<open>Any blocks\<close>

abbreviation "packets \<equiv> cut 4 wire_len"
abbreviation "stream_ok \<equiv> heads_ok 4 wire_len head_good"

definition work_left :: "slave \<Rightarrow> bytes \<Rightarrow> nat" where
  "work_left s buffer = 2 * length buffer + (if sl_status s = Content then 1 else 0)"

lemma packets_long:
  assumes "stream_ok bs" "p \<in> set (fst (packets bs))"
  shows "HEADER_COOKIE_LENGTH \<le> length p"
  using assms
proof (induction "length bs" arbitrary: bs rule: less_induct)
  case less
  show ?case
  proof (cases rule: split_cases [where hs = 4 and s = bs and len = wire_len])
    case short
    with less.prems(2) show ?thesis by (subst (asm) cut.simps) simp
  next
    case (wait h b)
    with less.prems(2) show ?thesis by (simp add: cut_wait)
  next
    case (full h b)
    have "head_good h" "stream_ok (drop (wire_len h) b)"
      using heads_step [OF full(2,3)] less.prems(1) full by blast+
    moreover have "p = take (wire_len h) b \<or> p \<in> set (fst (packets (drop (wire_len h) b)))"
      using less.prems(2) full cut_step [OF full(2,3), of wire_len b] by auto
    moreover have "length (drop (wire_len h) b) < length bs" using full by simp
    ultimately show ?thesis using less.hyps [of "drop (wire_len h) b"] full(4) by (auto simp: head_good_def)
  qed
qed

lemma recv_loop_unfold:
  assumes "recv_step refused fd i buffer h = Some (if rest = [] then None else Some rest, h1)"
  shows "recv_loop refused fd i buffer h = (if rest = [] then Some h1 else recv_loop refused fd i rest h1)"
  using assms by (subst recv_loop.simps) simp

lemma header_round:
  assumes "get_slave i h = Some s" "recv_ok s" "sl_status s = Header" "stream_ok (pend s @ buffer)"
  shows "(\<exists>s'. recv_step refused fd i buffer h = Some (None, received refused i (fst (packets (pend s @ buffer))) s' h) \<and>
      recv_ok s' \<and> pend s' = snd (packets (pend s @ buffer)) \<and> sl_fd s' = sl_fd s) \<or>
    (\<exists>s' rest. recv_step refused fd i buffer h = Some (Some rest, received refused i [] s' h) \<and> recv_ok s' \<and>
      work_left s' rest < work_left s buffer \<and> pend s' @ rest = pend s @ buffer \<and> sl_fd s' = sl_fd s)"
proof -
  have st: "recv_step refused fd i buffer h = recv_header i buffer h" using assms(1,3) by (simp add: recv_step_def)
  show ?thesis
  proof (cases "length (pend s @ buffer) < 4")
    case True
    from recv_header_short [OF assms(1,2,3) this, of refused] st cut_short [OF True, of wire_len] show ?thesis by auto
  next
    case False
    let ?x = "pend s @ buffer"
    have "stream_ok (take 4 ?x @ drop 4 ?x)" "length (take 4 ?x) = 4"
      using False assms(4) by (simp_all only: append_take_drop_id length_take not_less min_absorb2)
    then have g: "head_good (take 4 ?x)" using heads_step(1) [of 4 "take 4 ?x" wire_len head_good "drop 4 ?x"] by simp
    have long: "4 \<le> length (pend s @ buffer)" and g0: "take 4 (pend s @ buffer) ! 0 = 0"
      using False g by (simp_all only: not_less head_good_def)
    obtain s' rest where r: "recv_header i buffer h = Some (if rest = [] then None else Some rest, received refused i [] s' h)"
      "recv_ok s'" "sl_status s' = Content" "pend s' = sl_size s'" "pend s' @ rest = pend s @ buffer"
      "length rest < length buffer" "sl_fd s' = sl_fd s"
      using recv_header_full [OF assms(1,2,3) long g0, of refused] by blast
    show ?thesis
    proof (cases "rest = []")
      case True
      have "length (sl_size s') = 4" using r(2) by (simp add: recv_ok_def)
      moreover have "0 < wire_len (sl_size s')"
        using g r(4) calculation unfolding r(5) [symmetric] by (simp add: True head_good_def HEADER_COOKIE_LENGTH_def)
      ultimately have "packets (pend s @ buffer) = ([], pend s @ buffer)"
        using cut_wait [of "sl_size s'" 4 "[]" wire_len] r(4,5) True by simp
      with r True st show ?thesis by auto
    next
      case False
      with r st assms(3) show ?thesis by (auto simp: work_left_def)
    qed
  qed
qed

lemma content_round:
  assumes "get_slave i h = Some s" "recv_ok s" "sl_status s = Content" "stream_ok (pend s @ buffer)"
  shows "(\<exists>s'. recv_step refused fd i buffer h = Some (None, received refused i (fst (packets (pend s @ buffer))) s' h) \<and>
      recv_ok s' \<and> pend s' = snd (packets (pend s @ buffer)) \<and> sl_fd s' = sl_fd s) \<or>
    (\<exists>s' rest p. recv_step refused fd i buffer h = Some (Some rest, received refused i [p] s' h) \<and> recv_ok s' \<and>
      work_left s' rest < work_left s buffer \<and> pend s' = [] \<and> stream_ok rest \<and>
      packets (pend s @ buffer) = (p # fst (packets rest), snd (packets rest)) \<and> sl_fd s' = sl_fd s)"
proof -
  have st: "recv_step refused fd i buffer h = recv_content refused i buffer h" using assms(1,3) by (simp add: recv_step_def)
  have sz: "length (sl_size s) = 4" "sl_length s = wire_len (sl_size s)" using assms(2,3) by (simp_all add: recv_ok_def)
  have hd: "pend s @ buffer = sl_size s @ (take (sl_read s) (sl_recv s) @ buffer)" using assms(3) by (simp add: pend_def)
  have g: "HEADER_COOKIE_LENGTH \<le> sl_length s"
    using heads_step(1) [OF _ sz(1) assms(4) [unfolded hd]] sz(2) by (simp add: head_good_def)
  show ?thesis
  proof (cases "length (pend s @ buffer) < 4 + sl_length s")
    case True
    then have "packets (pend s @ buffer) = ([], pend s @ buffer)"
      unfolding hd using sz by (intro cut_wait) simp_all
    with recv_content_short [OF assms(1,2,3) True, of refused] st show ?thesis by auto
  next
    case False
    obtain s' rest p where r: "recv_content refused i buffer h = Some (if rest = [] then None else Some rest, received refused i [p] s' h)"
      "recv_ok s'" "sl_status s' = Header" "pend s' = []" "length rest \<le> length buffer" "sl_fd s' = sl_fd s"
      "pend s @ buffer = sl_size s @ p @ rest" "length p = sl_length s"
      using recv_content_full [OF assms(1,2,3) _ g, of buffer refused] False by (auto simp: not_less)
    have pk: "packets (pend s @ buffer) = (p # fst (packets rest), snd (packets rest))"
      unfolding r(7) using cut_step [of 4 "sl_size s" wire_len "p @ rest"] sz r(8) by simp
    have ok: "stream_ok rest" using heads_step(2) [OF _ sz(1), of wire_len head_good "p @ rest"] assms(4) r(7,8) sz by simp
    show ?thesis
    proof (cases "rest = []")
      case True
      with pk cut_short [of "[]" 4 wire_len] have "packets (pend s @ buffer) = ([p], [])" by simp
      with r True st show ?thesis by auto
    next
      case False
      with r st pk ok assms(3) show ?thesis by (auto simp: work_left_def)
    qed
  qed
qed

lemma recv_loop_spec:
  assumes "get_slave i h = Some s" "recv_ok s" "stream_ok (pend s @ buffer)"
  shows "\<exists>s'. recv_loop refused fd i buffer h = Some (received refused i (fst (packets (pend s @ buffer))) s' h) \<and>
    recv_ok s' \<and> pend s' = snd (packets (pend s @ buffer)) \<and> sl_fd s' = sl_fd s"
  using assms
proof (induction "work_left s buffer" arbitrary: s buffer h rule: less_induct)
  case less
  have i: "i < length (hb_s h)" using less.prems(1) by (simp add: get_slave_def arr_get_Some_iff)
  consider "sl_status s = Header" | "sl_status s = Content" using less.prems(2) by (auto simp: recv_ok_def)
  then show ?case
  proof cases
    case 1
    from header_round [OF less.prems(1,2) 1 less.prems(3), of refused fd] show ?thesis
    proof (elim disjE exE conjE)
      fix s' rest
      assume r: "recv_step refused fd i buffer h = Some (Some rest, received refused i [] s' h)" "recv_ok s'"
        "work_left s' rest < work_left s buffer" "pend s' @ rest = pend s @ buffer" "sl_fd s' = sl_fd s"
      from less.hyps [OF r(3) get_received [OF i] r(2)] less.prems(3) r(4)
      obtain s2 where s2: "recv_loop refused fd i rest (received refused i [] s' h) =
          Some (received refused i (fst (packets (pend s @ buffer))) s2 (received refused i [] s' h))"
        "recv_ok s2" "pend s2 = snd (packets (pend s @ buffer))" "sl_fd s2 = sl_fd s'" by auto
      have "\<forall>p \<in> set (fst (packets (pend s @ buffer))). HEADER_COOKIE_LENGTH \<le> length p"
        using packets_long [OF less.prems(3)] by blast
      from received_received [OF this, of refused i s2 "[]" s' h] s2 r(1,5) show ?thesis
        by (subst recv_loop.simps) auto
    qed (subst recv_loop.simps, auto)
  next
    case 2
    from content_round [OF less.prems(1,2) 2 less.prems(3), of refused fd] show ?thesis
    proof (elim disjE exE conjE)
      fix s' rest p
      assume r: "recv_step refused fd i buffer h = Some (Some rest, received refused i [p] s' h)" "recv_ok s'"
        "work_left s' rest < work_left s buffer" "pend s' = []" "stream_ok rest"
        "packets (pend s @ buffer) = (p # fst (packets rest), snd (packets rest))" "sl_fd s' = sl_fd s"
      from less.hyps [OF r(3) get_received [OF i] r(2)] r(4,5)
      obtain s2 where s2: "recv_loop refused fd i rest (received refused i [p] s' h) =
          Some (received refused i (fst (packets rest)) s2 (received refused i [p] s' h))"
        "recv_ok s2" "pend s2 = snd (packets rest)" "sl_fd s2 = sl_fd s'" by auto
      have "\<forall>p \<in> set (fst (packets rest)). HEADER_COOKIE_LENGTH \<le> length p" using packets_long [OF r(5)] by blast
      from received_received [OF this, of refused i s2 "[p]" s' h] s2 r(1,6,7) show ?thesis
        by (subst recv_loop.simps) auto
    qed (subst recv_loop.simps, auto)
  qed
qed

subsection \<open>From node to node\<close>

fun recv_all :: "send_fails \<Rightarrow> int \<Rightarrow> bytes list \<Rightarrow> harbor \<Rightarrow> harbor option" where
  "recv_all refused fd [] h = Some h"
| "recv_all refused fd (b # bs) h = do { h1 \<leftarrow> push_socket_data refused fd b h; recv_all refused fd bs h1 }"

text \<open>Slot \<open>i\<close> is the first one with the descriptor.\<close>

definition owns :: "int \<Rightarrow> nat \<Rightarrow> harbor \<Rightarrow> bool" where
  "owns fd i h \<longleftrightarrow> 0 < i \<and> i < length (hb_s h) \<and> sl_fd (hb_s h ! i) = fd \<and> (\<forall>j. 0 < j \<and> j < i \<longrightarrow> sl_fd (hb_s h ! j) \<noteq> fd)"

lemma find_fd_owns:
  assumes "owns fd i h"
  shows "find_fd fd h = i"
proof -
  have "[1..<length (hb_s h)] = [1..<i] @ i # [Suc i..<length (hb_s h)]"
    using assms upt_add_eq_append [of 1 i "length (hb_s h) - i"] by (simp add: owns_def upt_conv_Cons)
  moreover have "filter (\<lambda>j. sl_fd (hb_s h ! j) = fd) [1..<i] = []"
    using assms by (auto simp: owns_def filter_empty_conv)
  ultimately show ?thesis using assms by (simp add: find_fd_def owns_def)
qed

lemma owns_received: "owns fd i h \<Longrightarrow> sl_fd s = fd \<Longrightarrow> owns fd i (received refused i ps s h)"
  by (auto simp: owns_def received_def nth_list_update)

lemma recv_all_spec:
  "owns fd i h \<Longrightarrow> get_slave i h = Some s \<Longrightarrow> recv_ok s \<Longrightarrow> stream_ok (pend s @ concat chunks) \<Longrightarrow> packets (pend s) = ([], pend s) \<Longrightarrow>
   \<exists>s'. recv_all refused fd chunks h = Some (received refused i (fst (packets (pend s @ concat chunks))) s' h)"
proof (induction chunks arbitrary: h s)
  case Nil
  then have "hb_s h ! i = s" "i < length (hb_s h)" by (simp_all add: get_slave_def arr_get_Some_iff)
  then have "received refused i [] s h = h" by (auto simp: received_Nil)
  with Nil show ?case by (intro exI [of _ s]) simp
next
  case (Cons b chunks)
  have i: "i < length (hb_s h)" "sl_fd s = fd" using Cons.prems(1,2) by (auto simp: owns_def get_slave_def arr_get_Some_iff)
  have "stream_ok ((pend s @ b) @ concat chunks)" using Cons.prems(4) by simp
  from heads_append [OF this]
  have ok: "stream_ok (pend s @ b)" "stream_ok (snd (packets (pend s @ b)) @ concat chunks)" by simp_all
  obtain s1 where s1: "recv_loop refused fd i b h = Some (received refused i (fst (packets (pend s @ b))) s1 h)"
    "recv_ok s1" "pend s1 = snd (packets (pend s @ b))" "sl_fd s1 = sl_fd s"
    using recv_loop_spec [OF Cons.prems(2,3) ok(1)] by blast
  let ?h1 = "received refused i (fst (packets (pend s @ b))) s1 h"
  have idem: "packets (pend s1) = ([], pend s1)"
    using cut_append [of 4 wire_len "pend s @ b" "[]"] unfolding s1(3) by (metis append.right_neutral append_self_conv fst_conv prod.collapse snd_conv)
  have "owns fd i ?h1" using owns_received [OF Cons.prems(1)] s1(4) i(2) by simp
  from Cons.IH [OF this get_received [OF i(1)] s1(2) _ idem] ok(2) s1(3)
  obtain s2 where s2: "recv_all refused fd chunks ?h1 =
      Some (received refused i (fst (packets (pend s1 @ concat chunks))) s2 ?h1)" by auto
  have "push_socket_data refused fd b h = Some ?h1"
    using find_fd_owns [OF Cons.prems(1)] Cons.prems(1) s1(1) by (simp add: push_socket_data_def owns_def)
  moreover have "\<forall>p \<in> set (fst (packets (pend s1 @ concat chunks))). HEADER_COOKIE_LENGTH \<le> length p"
    using packets_long ok(2) s1(3) by simp
  ultimately show ?case
    using s2 received_received [of "fst (packets (pend s1 @ concat chunks))" refused i s2 _ s1 h] s1(3)
      cut_append [of 4 wire_len "pend s @ b" "concat chunks"] by auto
qed

text \<open>A message as a service hands it to its harbor service.\<close>

record outgoing =
  om_source :: u32
  om_dest :: u32
  om_type :: u32
  om_session :: u32
  om_buffer :: ptr
  om_data :: bytes

fun send_all :: "send_fails \<Rightarrow> outgoing list \<Rightarrow> harbor \<Rightarrow> harbor option" where
  "send_all refused [] h = Some h"
| "send_all refused (m # ms) h = do {
     (_, h1) \<leftarrow> remote_send_handle refused (om_source m) (om_dest m) (om_type m) (om_session m) (om_buffer m) (om_data m) h;
     send_all refused ms h1 }"

definition out_header :: "outgoing \<Rightarrow> remote_message_header" where
  "out_header m = \<lparr>rh_source = om_source m, rh_destination = (om_dest m AND HB_MASK) OR push_bit 24 (om_type m), rh_session = om_session m\<rparr>"

definition out_body :: "outgoing \<Rightarrow> bytes" where
  "out_body m = om_data m @ header_to_message (out_header m)"

definition out_wire :: "outgoing \<Rightarrow> bytes" where
  "out_wire m = to_bigendian (word_of_nat (length (om_data m) + 12)) @ out_body m"

definition fits :: "nat \<Rightarrow> outgoing \<Rightarrow> bool" where
  "fits i m \<longleftrightarrow> harbor_of (om_dest m) = i \<and> om_type m < 256 \<and> length (om_data m) + 12 < 2 ^ 24"

lemma length_header_to_message [simp]: "length (header_to_message hdr) = 12"
  by (simp add: header_to_message_def)

lemma message_to_header_inverse [simp]: "message_to_header (header_to_message hdr) = hdr"
  using from_to_bigendian [of "rh_session hdr" "[]"] by (cases hdr) (simp add: message_to_header_def header_to_message_def)

lemma send_all_spec:
  assumes "get_slave i h = Some s" "sl_fd s \<noteq> 0" "sl_status s \<noteq> Handshake" "int i \<noteq> hb_id h" "\<forall>m \<in> set ms. fits i m"
  shows "send_all refused ms h = Some (h\<lparr>hb_calls := hb_calls h @ map (\<lambda>m. HSendBuffer (sl_fd s) (out_wire m)) ms\<rparr>)"
  using assms
proof (induction ms arbitrary: h)
  case (Cons m ms)
  let ?h1 = "h\<lparr>hb_calls := hb_calls h @ [HSendBuffer (sl_fd s) (out_wire m)]\<rparr>"
  have "remote_send_handle refused (om_source m) (om_dest m) (om_type m) (om_session m) (om_buffer m) (om_data m) h = Some (0, ?h1)"
    using Cons.prems
    by (simp add: remote_send_handle_def fits_def send_remote_def hcall_def out_wire_def out_body_def out_header_def)
  moreover have "get_slave i ?h1 = Some s" "int i \<noteq> hb_id ?h1" using Cons.prems(1,4) by (simp_all add: get_slave_def)
  ultimately show ?case using Cons.IH [of ?h1] Cons.prems(2,3,5) by simp
qed simp

lemma wire_len_Cons: "wire_len (a # b # c # d # r) = unat b * 2 ^ 16 + unat c * 2 ^ 8 + unat d"
  by (simp add: wire_len_def)

lemma wire_len_bigendian:
  assumes "n < 2 ^ 24"
  shows "to_bigendian (word_of_nat n) ! 0 = 0" "wire_len (to_bigendian (word_of_nat n)) = n"
proof -
  let ?w = "word_of_nat n :: u32"
  have u: "unat ?w = n" using assms by (simp add: unat_of_nat)
  have b: "unat (ucast (drop_bit k ?w AND 0xff) :: u8) = n div 2 ^ k mod 256" for k
  proof -
    have "drop_bit k ?w AND 0xff = take_bit 8 (drop_bit k ?w)"
      by (rule bit_word_eqI) (simp only: bit_and_iff bit_0xff bit_take_bit_iff conj_commute)
    moreover have "unat (drop_bit k ?w) = n div 2 ^ k" unfolding unat_drop_bit_eq u by (rule drop_bit_eq_div)
    ultimately have "unat (drop_bit k ?w AND 0xff) = n div 2 ^ k mod 256" by (simp add: unat_take_bit)
    moreover have "unat (ucast x :: u8) = unat x mod 256" for x :: u32 by (simp add: unsigned_ucast_eq take_bit_eq_mod)
    ultimately show ?thesis by (simp only:) simp
  qed
  have b0: "unat (ucast (?w AND 0xff) :: u8) = n mod 256" using b [of 0] by (simp only: drop_bit_0 id_apply power_0 div_by_1)
  have "unat (to_bigendian ?w ! 0) = n div 2 ^ 24 mod 256" unfolding b [symmetric] by (simp add: to_bigendian_def)
  then have "unat (to_bigendian ?w ! 0) = 0" using assms by simp
  then show "to_bigendian ?w ! 0 = 0" by (metis unat_eq_zero)
  have "n div 2 ^ 16 mod 256 = n div 256 div 256" using assms by (simp flip: div_mult2_eq)
  moreover have "q * 2 ^ 16 + r * 2 ^ 8 + m = (q * 256 + r) * 256 + m" for q r m :: nat by simp
  moreover have "n div 2 ^ 8 = n div 256" by simp
  ultimately have "n div 2 ^ 16 mod 256 * 2 ^ 16 + n div 2 ^ 8 mod 256 * 2 ^ 8 + n mod 256 =
      (n div 256 div 256 * 256 + n div 256 mod 256) * 256 + n mod 256" by metis
  also have "\<dots> = n" by (simp only: div_mult_mod_eq)
  finally have "n div 2 ^ 16 mod 256 * 2 ^ 16 + n div 2 ^ 8 mod 256 * 2 ^ 8 + n mod 256 = n" .
  then show "wire_len (to_bigendian ?w) = n" unfolding to_bigendian_def wire_len_Cons b b0 .
qed

text \<open>The handle that the header carries, with the number of the node put back.\<close>

lemma handle_rebuilt:
  "type < 256 \<Longrightarrow> drop_bit 24 ((dest AND HB_MASK) OR push_bit 24 type) = (type :: u32)"
  "type < 256 \<Longrightarrow> (((dest AND HB_MASK) OR push_bit 24 type) AND HB_MASK) OR push_bit 24 (word_of_int (int (harbor_of dest))) = dest"
proof -
  have m: "bit HB_MASK n \<longleftrightarrow> n < 24" for n
  proof -
    have e: "HB_MASK = mask 24" by (simp add: HB_MASK_def mask_eq_exp_minus_1)
    show ?thesis unfolding e bit_mask_iff by auto
  qed
  assume "type < 256"
  then have "unat (take_bit 8 type) = unat type" by (simp add: unat_take_bit word_less_nat_alt)
  then have "type = take_bit 8 type" by (metis unsigned_word_eqI)
  then have t: "bit type n \<Longrightarrow> n < 8" for n by (metis bit_take_bit_iff)
  show "drop_bit 24 ((dest AND HB_MASK) OR push_bit 24 type) = type"
    by (rule bit_word_eqI) (auto simp: bit_drop_bit_eq bit_or_iff bit_and_iff bit_push_bit_iff m dest: t)
  have h: "(word_of_int (int (harbor_of dest)) :: u32) = drop_bit 24 dest" by (simp add: harbor_of_def)
  show "(((dest AND HB_MASK) OR push_bit 24 type) AND HB_MASK) OR push_bit 24 (word_of_int (int (harbor_of dest))) = dest"
    unfolding h
  proof (rule bit_word_eqI)
    fix n :: nat
    assume "n < LENGTH(32)"
    then show "bit (((dest AND HB_MASK) OR push_bit 24 type) AND HB_MASK OR push_bit 24 (drop_bit 24 dest)) n = bit dest n"
      by (cases "n < 24") (auto simp: bit_drop_bit_eq bit_or_iff bit_and_iff bit_push_bit_iff m)
  qed
qed

lemma deliver_out:
  assumes "fits i m" "hb_id h = int i"
  shows "deliver accepts_all (out_body m) h =
    h\<lparr>hb_calls := hb_calls h @ [HSend (om_source m) (om_dest m) (om_type m OR HB_DONTCOPY) (om_session m) (om_data m)]\<rparr>"
  using assms handle_rebuilt [of "om_type m" "om_dest m"]
  by (simp add: deliver_def forward_local_message_def out_body_def out_header_def hsend_def hcall_def HEADER_COOKIE_LENGTH_def
      fits_def accepts_all_def Let_def)

lemma deliver_all_out:
  assumes "\<forall>m \<in> set ms. fits i m" "hb_id h = int i"
  shows "fold (deliver accepts_all) (map out_body ms) h = h\<lparr>hb_calls := hb_calls h @
    map (\<lambda>m. HSend (om_source m) (om_dest m) (om_type m OR HB_DONTCOPY) (om_session m) (om_data m)) ms\<rparr>"
  using assms
proof (induction ms arbitrary: h)
  case (Cons m ms)
  from Cons deliver_out [of i m h] show ?case by simp
qed simp

lemma packets_out:
  assumes "\<forall>m \<in> set ms. fits i m"
  shows "packets (concat (map out_wire ms)) = (map out_body ms, [])" "stream_ok (concat (map out_wire ms))"
proof -
  let ?ps = "map (\<lambda>m. (to_bigendian (word_of_nat (length (om_data m) + 12)), out_body m)) ms"
  have w: "concat (map out_wire ms) = concat (map (\<lambda>p. fst p @ snd p) ?ps)"
    by (induction ms) (simp_all add: out_wire_def)
  have p: "length (fst p) = 4 \<and> wire_len (fst p) = length (snd p) \<and> head_good (fst p)" if "p \<in> set ?ps" for p
  proof -
    from that obtain m where m: "m \<in> set ms" "p = (to_bigendian (word_of_nat (length (om_data m) + 12)), out_body m)" by auto
    with assms have "length (om_data m) + 12 < 2 ^ 24" by (simp add: fits_def)
    from wire_len_bigendian [OF this] m(2) show ?thesis by (simp add: head_good_def out_body_def HEADER_COOKIE_LENGTH_def)
  qed
  show "packets (concat (map out_wire ms)) = (map out_body ms, [])"
  proof -
    have "packets (concat (map (\<lambda>p. fst p @ snd p) ?ps)) = (map snd ?ps, [])" by (rule cut_packets) (simp, use p in blast)
    then show ?thesis unfolding w [symmetric] by (simp add: comp_def)
  qed
  show "stream_ok (concat (map out_wire ms))" unfolding w using p by (intro heads_packets) auto
qed

text \<open>
  A packet that is shorter than its header makes the receiver read before the start of the block.
\<close>

lemma short_packet_underrun:
  assumes "owns fd i h" "recv_ok (hb_s h ! i)" "pend (hb_s h ! i) = []" "sl_status (hb_s h ! i) = Header"
    and "length hdr = 4" "hdr ! 0 = 0" "wire_len hdr = length body" "0 < length body" "length body < HEADER_COOKIE_LENGTH"
  shows "push_socket_data refused fd (hdr @ body) h = None"
proof -
  let ?s = "hb_s h ! i"
  have i: "i < length (hb_s h)" "get_slave i h = Some ?s" using assms(1) by (simp_all add: owns_def get_slave_def)
  obtain s' rest where r: "recv_header i (hdr @ body) h = Some (if rest = [] then None else Some rest, received refused i [] s' h)"
    "recv_ok s'" "sl_status s' = Content" "pend s' = sl_size s'" "pend s' @ rest = hdr @ body"
    using recv_header_full [OF i(2) assms(2,4), of "hdr @ body" refused] assms(3,5,6) by auto
  have "length (sl_size s') = 4" using r(2) by (simp add: recv_ok_def)
  with r(4,5) assms(5) have sz: "sl_size s' = hdr" "rest = body" by (metis append_eq_append_conv)+
  then have len: "sl_length s' = length body" "sl_read s' = 0"
  proof -
    show "sl_length s' = length body" using r(2,3) sz assms(7) by (simp add: recv_ok_def)
    have "take (sl_read s') (sl_recv s') = []" "sl_read s' \<le> length (sl_recv s')"
      using r(2,3,4) by (auto simp: pend_def recv_ok_def)
    then show "sl_read s' = 0" by auto
  qed
  have "recv_content refused i body (received refused i [] s' h) = None"
    using len assms(9) get_received [OF i(1)] by (simp add: recv_content_def forward_local_message_def Let_def c_assert_def)
  then have "recv_step refused fd i body (received refused i [] s' h) = None"
    using get_received [OF i(1)] r(3) by (simp add: recv_step_def)
  then have "recv_loop refused fd i body (received refused i [] s' h) = None" by (subst recv_loop.simps) simp
  moreover have "recv_step refused fd i (hdr @ body) h = Some (Some body, received refused i [] s' h)"
    using r(1) sz assms(8) i(2) assms(4) by (auto simp: recv_step_def)
  ultimately have "recv_loop refused fd i (hdr @ body) h = None" by (subst recv_loop.simps) simp
  then show ?thesis using find_fd_owns [OF assms(1)] assms(1) by (simp add: push_socket_data_def owns_def)
qed

definition idle :: "slave \<Rightarrow> bool" where
  "idle s \<longleftrightarrow> sl_status s = Header \<and> sl_read s = 0 \<and> length (sl_size s) = 4"

text \<open>
  C26. The link between two nodes. Messages for services of another node, of at most \<open>2 ^ 24 - 13\<close> bytes, are
  written to a connected slot; whatever blocks the network makes of the written bytes, the other node hands
  every message to the core, once and in order, with the source, the destination, the type, the session and
  the data it was sent with.
\<close>

theorem harbor_transport:
  assumes "get_slave i A = Some s" "sl_fd s \<noteq> 0" "sl_status s \<noteq> Handshake" "int i \<noteq> hb_id A"
    and "\<forall>m \<in> set ms. fits i m"
    and "owns fd k B" "idle (hb_s B ! k)" "hb_id B = int i"
  shows "\<exists>A' bs. send_all refused ms A = Some A' \<and> hb_calls A' = hb_calls A @ map (HSendBuffer (sl_fd s)) bs \<and>
    (\<forall>chunks. concat chunks = concat bs \<longrightarrow> (\<exists>B'. recv_all accepts_all fd chunks B = Some B' \<and> hb_calls B' = hb_calls B @
       map (\<lambda>m. HSend (om_source m) (om_dest m) (om_type m OR HB_DONTCOPY) (om_session m) (om_data m)) ms))"
proof -
  let ?A = "A\<lparr>hb_calls := hb_calls A @ map (\<lambda>m. HSendBuffer (sl_fd s) (out_wire m)) ms\<rparr>"
  have a: "send_all refused ms A = Some ?A" by (rule send_all_spec [OF assms(1-5)])
  have "\<exists>B'. recv_all accepts_all fd chunks B = Some B' \<and> hb_calls B' = hb_calls B @
      map (\<lambda>m. HSend (om_source m) (om_dest m) (om_type m OR HB_DONTCOPY) (om_session m) (om_data m)) ms"
    if c: "concat chunks = concat (map out_wire ms)" for chunks
  proof -
    let ?t = "hb_s B ! k"
    have t: "get_slave k B = Some ?t" "recv_ok ?t" "pend ?t = []"
      using assms(6,7) by (auto simp: owns_def get_slave_def idle_def recv_ok_def pend_def)
    have "stream_ok (pend ?t @ concat chunks)" "packets (pend ?t) = ([], pend ?t)"
      using t(3) packets_out(2) [OF assms(5)] c by (simp_all add: cut_short)
    from recv_all_spec [OF assms(6) t(1,2) this, of accepts_all]
    obtain s' where r: "recv_all accepts_all fd chunks B = Some (received accepts_all k (map out_body ms) s' B)"
      using t(3) c packets_out(1) [OF assms(5)] by auto
    then show ?thesis using deliver_all_out [OF assms(5,8)] by (simp add: received_def)
  qed
  with a show ?thesis by (intro exI [of _ ?A] exI [of _ "map out_wire ms"]) simp
qed

definition demo_node :: "int \<Rightarrow> nat \<Rightarrow> harbor" where
  "demo_node me i = harbor_create\<lparr>hb_id := me,
     hb_s := (hb_s harbor_create)[i := empty_slave\<lparr>sl_fd := 7, sl_status := Header\<rparr>]\<rparr>"

lemma demo_node:
  assumes "0 < i" "i < 256"
  shows "get_slave i (demo_node me i) = Some (empty_slave\<lparr>sl_fd := 7, sl_status := Header\<rparr>)" "owns 7 i (demo_node me i)"
    "idle (hb_s (demo_node me i) ! i)" "hb_id (demo_node me i) = me" "hb_calls (demo_node me i) = []"
  using assms by (auto simp: demo_node_def harbor_create_def get_slave_def owns_def idle_def empty_slave_def REMOTE_MAX_def)

definition demo_out :: outgoing where
  "demo_out = \<lparr>om_source = 0x01000008, om_dest = 0x02000009, om_type = 10, om_session = 3, om_buffer = 1, om_data = [1, 2]\<rparr>"

theorem harbor_transport_witness:
  "\<exists>A' bs. send_all accepts_all [demo_out] (demo_node 1 2) = Some A' \<and> hb_calls A' = map (HSendBuffer 7) bs \<and>
    (\<forall>chunks. concat chunks = concat bs \<longrightarrow> (\<exists>B'. recv_all accepts_all 7 chunks (demo_node 2 1) = Some B' \<and>
       hb_calls B' = [HSend 0x01000008 0x02000009 (10 OR HB_DONTCOPY) 3 [1, 2]]))"
proof -
  have f: "fits 2 demo_out" by (simp add: fits_def demo_out_def harbor_of_def)
  note a = demo_node [of 2 1] and b = demo_node [of 1 2]
  show ?thesis
    using harbor_transport [of 2 "demo_node 1 2" "empty_slave\<lparr>sl_fd := 7, sl_status := Header\<rparr>" "[demo_out]" 7 1 "demo_node 2 1" accepts_all]
      a b f by (simp add: demo_out_def)
qed

end
