(* ===== verification/Harbor_Names.thy ===== *)
theory Harbor_Names
  imports Harbor_Link
begin

section \<open>Harbors that are not connected\<close>

text \<open>
  Two behaviours of the harbor service around missing connections: what happens to a message for a global name
  that becomes known before its harbor is connected, and to messages for a harbor whose connection was closed.
\<close>

unbundle bit_operations_syntax

subsection \<open>Places in the map\<close>

lemma node_put_at:
  assumes "node_at p m = Some n"
  shows "\<exists>m'. node_put p n' m = Some m' \<and> node_at p m' = Some n' \<and> length m' = length m"
  using assms by (cases p) (auto simp: node_at_def node_put_def arr_get_Some_iff split: Option.bind_splits)

lemma hash_search_insert:
  assumes "length m = HASH_SIZE"
  shows "\<exists>m'. hash_insert m name = ((bucket name, 0), m') \<and> length m' = HASH_SIZE \<and>
    node_at (bucket name, 0) m' = Some \<lparr>kv_key = name, kv_hash = name_hash name, kv_value = 0, kv_queue = None\<rparr>"
proof -
  have "bucket name < length m" using assms by (simp add: bucket_def HASH_SIZE_def)
  then show ?thesis using assms by (simp add: hash_insert_def node_at_def Let_def)
qed

lemma hash_search_first:
  assumes "node_at (bucket name, 0) m = Some n" "kv_hash n = name_hash name" "kv_key n = name"
  shows "hash_search m name = Some (bucket name, 0)"
proof -
  have "m ! bucket name \<noteq> []" "m ! bucket name ! 0 = n"
    using assms(1) by (auto simp: node_at_def arr_get_Some_iff split: Option.bind_splits)
  with assms(2,3) show ?thesis by (cases "m ! bucket name") (simp_all add: hash_search_def name_eq_def)
qed

subsection \<open>A name that is known too early\<close>

definition late_header :: "u32 \<Rightarrow> u32 \<Rightarrow> u32 \<Rightarrow> remote_message_header" where
  "late_header source type session = \<lparr>rh_source = source, rh_destination = push_bit 24 type, rh_session = session\<rparr>"

definition late_queue :: "ptr \<Rightarrow> bytes \<Rightarrow> remote_message_header \<Rightarrow> harbor_msg_queue" where
  "late_queue p data hdr = the (push_queue p data hdr hq_new)"

lemma late_queue:
  "push_queue p data hdr hq_new = Some (late_queue p data hdr)"
  "hq_rep (late_queue p data hdr) [\<lparr>hm_header = hdr, hm_buffer = p, hm_data = data\<rparr>]"
  using push_queue_msg_rep [OF hq_rep_new, of "\<lparr>hm_header = hdr, hm_buffer = p, hm_data = data\<rparr>"]
  by (auto simp: late_queue_def push_queue_def)

text \<open>The message waits in the queue of the name.\<close>

lemma name_queued:
  assumes "hash_search (hb_map h) name = None" "length (hb_map h) = HASH_SIZE"
  shows "\<exists>h1 n. remote_send_name refused source name type session p data h = Some (1, h1) \<and>
    hash_search (hb_map h1) name = Some (bucket name, 0) \<and> node_at (bucket name, 0) (hb_map h1) = Some n \<and>
    kv_queue n = Some (late_queue p data (late_header source type session)) \<and> hb_s h1 = hb_s h \<and> hb_id h1 = hb_id h \<and>
    hb_slave h1 = hb_slave h \<and> (\<exists>query. hb_calls h1 = hb_calls h @ [HSend 0 (hb_slave h) TYPE_TEXT 0 query])"
proof -
  let ?n = "\<lparr>kv_key = name, kv_hash = name_hash name, kv_value = 0, kv_queue = None\<rparr>"
  let ?q = "late_queue p data (late_header source type session)"
  obtain m1 where m1: "hash_insert (hb_map h) name = ((bucket name, 0), m1)" "node_at (bucket name, 0) m1 = Some ?n"
    using hash_search_insert [OF assms(2)] by blast
  obtain m2 where m2: "node_put (bucket name, 0) (?n\<lparr>kv_queue := Some ?q\<rparr>) m1 = Some m2"
    "node_at (bucket name, 0) m2 = Some (?n\<lparr>kv_queue := Some ?q\<rparr>)"
    using node_put_at [OF m1(2)] by blast
  have "hash_search m2 name = Some (bucket name, 0)" using hash_search_first [OF m2(2)] by simp
  with assms(1) m1 m2 late_queue(1) [of p data "late_header source type session"] show ?thesis
    by (simp add: remote_send_name_def find_or_insert_def hsend_def hcall_def late_header_def Let_def)
qed

text \<open>The handle of the name arrives: the queue moves to the slot of its harbor, as it is.\<close>

lemma name_resolved:
  assumes "hash_search (hb_map h) name = Some p" "node_at p (hb_map h) = Some n" "kv_queue n = Some q"
    and "get_slave i h = Some s" "harbor_of handle = i" "sl_fd s = 0" "sl_status s = Wait" "sl_queue s = None"
    and "i \<noteq> harbor_of (hb_slave h)"
  shows "\<exists>h1. update_name refused name handle h = Some h1 \<and> get_slave i h1 = Some (s\<lparr>sl_queue := Some q\<rparr>) \<and>
    hb_calls h1 = hb_calls h \<and> hb_id h1 = hb_id h"
proof -
  let ?n1 = "n\<lparr>kv_value := handle\<rparr>"
  obtain m1 where m1: "node_put p ?n1 (hb_map h) = Some m1" "node_at p m1 = Some ?n1" using node_put_at [OF assms(2)] by blast
  obtain m2 where m2: "node_put p (?n1\<lparr>kv_queue := None\<rparr>) m1 = Some m2" "node_at p m2 = Some (?n1\<lparr>kv_queue := None\<rparr>)"
    using node_put_at [OF m1(2)] by blast
  obtain m3 where m3: "node_put p (?n1\<lparr>kv_queue := None\<rparr>) m2 = Some m3" using node_put_at [OF m2(2)] by blast
  have i: "i < length (hb_s h)" "hb_s h ! i = s" using assms(4) by (simp_all add: get_slave_def arr_get_Some_iff)
  let ?h2 = "h\<lparr>hb_map := m2, hb_s := (hb_s h)[i := s\<lparr>sl_queue := Some q\<rparr>]\<rparr>"
  have "dispatch_name_queue refused p (h\<lparr>hb_map := m1\<rparr>) = Some ?h2"
    using assms(3-9) m1(2) m2(1) i by (simp add: dispatch_name_queue_def get_slave_def put_slave_def)
  then have "update_name refused name handle h = Some (?h2\<lparr>hb_map := m3\<rparr>)"
    using assms(1,2,3) m1(1) m2(2) m3 by (simp add: update_name_def find_or_insert_def)
  then show ?thesis using i by (simp add: get_slave_def)
qed

text \<open>The harbor connects: the queue is sent.\<close>

lemma slaves_commute:
  "hcall c (h\<lparr>hb_s := a\<rparr>) = (hcall c h)\<lparr>hb_s := a\<rparr>"
  "send_remote fd data hdr (h\<lparr>hb_s := a\<rparr>) = (send_remote fd data hdr h)\<lparr>hb_s := a\<rparr>"
  by (simp_all add: hcall_def send_remote_def Let_def)

lemma slaves_same [simp]:
  "hb_s (hcall c h) = hb_s h" "hb_s (send_remote fd data hdr h) = hb_s h"
  by (simp_all add: hcall_def send_remote_def Let_def)

lemma connect_sends:
  assumes "get_slave i h = Some s" "sl_fd s = 0" "sl_queue s = Some q" "hq_rep q ms" "0 < i" "i < REMOTE_MAX"
    and "scan_two strtol10_int args = (wfd, word_of_nat i)" "sint wfd \<noteq> 0"
  shows "\<exists>h1. harbor_connect False args h = Some h1 \<and>
    hb_calls h1 = hb_calls (fold (\<lambda>m h. hcall (HFree (hm_buffer m)) (send_remote (sint wfd) (hm_data m) (hm_header m) h)) ms
      (hcall (HSendBuffer (sint wfd) [word_of_int (hb_id h)]) (hcall (HSocketStart (sint wfd)) h)))"
proof -
  have i: "i < length (hb_s h)" "hb_s h ! i = s" using assms(1) by (simp_all add: get_slave_def arr_get_Some_iff)
  have wi: "sint (word_of_nat i :: u32) = int i"
    using assms(5,6) by (simp add: REMOTE_MAX_def sint_uint uint_nat signed_take_bit_eq_if_positive unat_of_nat bit_iff_odd take_bit_int_eq_self)
  let ?g = "\<lambda>m h. hcall (HFree (hm_buffer m)) (send_remote (sint wfd) (hm_data m) (hm_header m) h)"
  obtain q' where q': "hq_rep q' []" "\<And>w. pop_loop (\<lambda>m w. Some (?g m w)) q w = Some (q', fold ?g ms w)"
    using pop_loop_fold [OF assms(4), of ?g] by blast
  have s: "hb_s (fold ?g ms w) = hb_s w" for w
    by (induction ms arbitrary: w) simp_all
  have calls: "fold ?g ms (w\<lparr>hb_s := a\<rparr>) = (fold ?g ms w)\<lparr>hb_s := a\<rparr>" for w a
    by (induction ms arbitrary: w) (simp_all add: slaves_commute)
  have "harbor_connect False args h = dispatch_queue i ((hcall (HSendBuffer (sint wfd) [word_of_int (hb_id h)])
      (hcall (HSocketStart (sint wfd)) h))\<lparr>hb_s := (hb_s h)[i := s\<lparr>sl_fd := sint wfd, sl_status := Header\<rparr>]\<rparr>)"
    using assms i wi by (simp add: harbor_connect_def get_slave_def put_slave_def handshake_def hcall_def REMOTE_MAX_def Let_def)
  moreover have "release_queue (Some q') w = Some w" for w using release_queue_spec [OF q'(1)] by simp
  ultimately show ?thesis
    using assms(3,8) i q'(2) s calls by (simp add: dispatch_queue_def get_slave_def put_slave_def)
qed

text \<open>
  C27. The handle of a name must be put into the header of every message that waited for it. The code does this only
  when the harbor of the handle is connected. When the name becomes known before the connection, the message is sent
  with handle 0 in its destination once the connection is there, whatever the name stands for.
\<close>

theorem late_name_lost:
  assumes "hash_search (hb_map h) name = None" "length (hb_map h) = HASH_SIZE"
    and "harbor_of handle = i" "0 < i" "i \<noteq> harbor_of (hb_slave h)"
    and "get_slave i h = Some s" "sl_fd s = 0" "sl_status s = Wait" "sl_queue s = None"
    and "scan_two strtol10_int args = (wfd, word_of_nat i)" "sint wfd \<noteq> 0" "length data + 12 < 2 ^ 32"
  shows "\<exists>h1 h2 h3 before. remote_send_name refused source name type session p data h = Some (1, h1) \<and>
    update_name refused name handle h1 = Some h2 \<and> harbor_connect False args h2 = Some h3 \<and>
    hb_calls h3 = before @ [HSendBuffer (sint wfd) (to_bigendian (word_of_nat (length data + 12)) @ data @
      header_to_message \<lparr>rh_source = source, rh_destination = push_bit 24 type, rh_session = session\<rparr>), HFree p]"
proof -
  let ?hdr = "late_header source type session" let ?q = "late_queue p data ?hdr"
  obtain h1 n where h1: "remote_send_name refused source name type session p data h = Some (1, h1)"
    "hash_search (hb_map h1) name = Some (bucket name, 0)" "node_at (bucket name, 0) (hb_map h1) = Some n" "kv_queue n = Some ?q"
    "hb_s h1 = hb_s h" "hb_slave h1 = hb_slave h"
    using name_queued [OF assms(1,2), of refused source type session p data] by blast
  have g: "get_slave i h1 = Some s" using assms(6) h1(5) by (simp add: get_slave_def)
  obtain h2 where h2: "update_name refused name handle h1 = Some h2" "get_slave i h2 = Some (s\<lparr>sl_queue := Some ?q\<rparr>)"
    using name_resolved [OF h1(2,3,4) g assms(3,7,8,9)] assms(5) h1(6) by auto
  have "unat (drop_bit 24 handle) = unat handle div 2 ^ 24" unfolding unat_drop_bit_eq by (rule drop_bit_eq_div)
  then have "unat (drop_bit 24 handle) < 256" using unat32_less [of handle] by simp
  then have "i < REMOTE_MAX" using assms(3) by (simp add: harbor_of_def REMOTE_MAX_def)
  moreover have "sl_fd (s\<lparr>sl_queue := Some ?q\<rparr>) = 0" "sl_queue (s\<lparr>sl_queue := Some ?q\<rparr>) = Some ?q" using assms(7) by simp_all
  ultimately have "\<exists>h3. harbor_connect False args h2 = Some h3 \<and>
      hb_calls h3 = hb_calls (hcall (HFree p) (send_remote (sint wfd) data ?hdr
        (hcall (HSendBuffer (sint wfd) [word_of_int (hb_id h2)]) (hcall (HSocketStart (sint wfd)) h2))))"
    using connect_sends [OF h2(2) _ _ late_queue(2) assms(4) _ assms(10,11), of p data ?hdr] by simp
  then
  obtain h3 where h3: "harbor_connect False args h2 = Some h3"
    "hb_calls h3 = hb_calls (hcall (HFree p) (send_remote (sint wfd) data ?hdr
      (hcall (HSendBuffer (sint wfd) [word_of_int (hb_id h2)]) (hcall (HSocketStart (sint wfd)) h2))))" by blast
  have "\<not> 2 ^ 32 - 1 < length data + 12" using assms(12) by simp
  then have "hb_calls h3 = (hb_calls h2 @ [HSocketStart (sint wfd), HSendBuffer (sint wfd) [word_of_int (hb_id h2)]]) @
      [HSendBuffer (sint wfd) (to_bigendian (word_of_nat (length data + 12)) @ data @ header_to_message ?hdr), HFree p]"
    unfolding h3(2) by (simp only: send_remote_def Let_def if_False hcall_def) simp
  with h1(1) h2(1) h3(1) show ?thesis unfolding late_header_def by blast
qed

definition late_demo :: harbor where
  "late_demo = harbor_create\<lparr>hb_id := 1, hb_slave := 0x01000005\<rparr>"

theorem late_name_lost_witness:
  "\<exists>h1 h2 h3 before. remote_send_name accepts_all 0x01000008 (to_bytes ''db'' @ replicate 14 0) 10 3 1 [42] late_demo = Some (1, h1) \<and>
    update_name accepts_all (to_bytes ''db'' @ replicate 14 0) 0x02000009 h1 = Some h2 \<and> harbor_connect False ''7 2'' h2 = Some h3 \<and>
    hb_calls h3 = before @ [HSendBuffer 7 ([0, 0, 0, 13, 42] @ [1, 0, 0, 8, 10, 0, 0, 0, 0, 0, 0, 3]), HFree 1]"
proof -
  have t: "scan_two strtol10_int ''7 2'' = (7, 2)" by code_simp
  have "hash_search (hb_map late_demo) name = None" for name
    by (simp add: late_demo_def harbor_create_def hash_new_def hash_search_def bucket_def HASH_SIZE_def)
  moreover have "length (hb_map late_demo) = HASH_SIZE" by (simp add: late_demo_def harbor_create_def hash_new_def)
  moreover have "get_slave 2 late_demo = Some empty_slave"
    by (simp add: late_demo_def harbor_create_def get_slave_def REMOTE_MAX_def)
  moreover have "harbor_of 0x02000009 = 2" "harbor_of (hb_slave late_demo) = 1" by (simp_all add: harbor_of_def late_demo_def)
  moreover have "to_bigendian 13 = [0, 0, 0, 13]" "to_bigendian 0x01000008 = [1, 0, 0, 8]" "to_bigendian 0x0a000000 = [10, 0, 0, 0]"
    "to_bigendian 3 = [0, 0, 0, 3]" by (simp_all add: to_bigendian_def)
  ultimately show ?thesis
    using late_name_lost [where h = late_demo and name = "to_bytes ''db'' @ replicate 14 0" and handle = "0x02000009" and i = 2
        and s = empty_slave and args = "''7 2''" and wfd = 7 and data = "[42]" and refused = accepts_all and source = "0x01000008"
        and type = 10 and session = 3 and p = 1] t
    by (simp add: empty_slave_def header_to_message_def)
qed

subsection \<open>A connection that was closed\<close>

text \<open>The states of a harbor service, from its start on.\<close>

inductive harbor_reach :: "send_fails \<Rightarrow> harbor \<Rightarrow> bool" for refused where
  start: "harbor_init args harbor_create = (0, h) \<Longrightarrow> harbor_reach refused h"
| message: "harbor_reach refused h \<Longrightarrow> mainloop refused inp session source h = Some h' \<Longrightarrow> harbor_reach refused h'"

text \<open>A slot leaves the status \<open>Wait\<close> only with a descriptor, and never loses it.\<close>

definition slot_ok :: "slave \<Rightarrow> bool" where
  "slot_ok s \<longleftrightarrow> (sl_status s \<noteq> Wait \<longrightarrow> sl_fd s \<noteq> 0)"

definition slots_open :: "harbor \<Rightarrow> bool" where
  "slots_open h \<longleftrightarrow> (\<forall>s \<in> set (hb_s h). slot_ok s)"

named_theorems keeps_open \<open>operations that keep \<open>slots_open\<close>\<close>

lemma slots_open_same: "hb_s h' = hb_s h \<Longrightarrow> slots_open h \<Longrightarrow> slots_open h'"
  by (simp add: slots_open_def)

lemma get_open: "get_slave i h = Some s \<Longrightarrow> slots_open h \<Longrightarrow> slot_ok s"
  by (auto simp: get_slave_def arr_get_Some_iff slots_open_def)

lemma put_open: "put_slave i s h = Some h' \<Longrightarrow> slots_open h \<Longrightarrow> slot_ok s \<Longrightarrow> slots_open h'"
  by (auto simp: put_slave_def slots_open_def arr_set_Some_iff split: Option.bind_splits dest!: set_update_subset_insert [THEN subsetD])

lemma open_calls [simp]:
  "slots_open (hcall c h) = slots_open h" "slots_open (send_remote fd data hdr h) = slots_open h"
  "slots_open (snd (hsend refused a b c' d e h)) = slots_open h" "slots_open (h\<lparr>hb_map := m\<rparr>) = slots_open h"
  by (simp_all add: slots_open_def hsend_def Let_def)

lemma pop_loop_keeps:
  assumes "pop_loop f q w = Some r" and P: "\<And>m w w'. f m w = Some w' \<Longrightarrow> P w \<Longrightarrow> P w'" "P w"
  shows "P (snd r)"
proof -
  have "(\<forall>m w w'. f m w = Some w' \<longrightarrow> P w \<longrightarrow> P w') \<longrightarrow> P w \<longrightarrow> P (snd r)"
    using assms(1)
  proof (induction rule: pop_loop.raw_induct [rotated, consumes 1, case_names round])
    case (round loop f q w r)
    then show ?case by (auto split: Option.bind_splits option.splits prod.splits)
  qed
  with P show ?thesis by blast
qed

lemma release_queue_same: "release_queue oq h = Some h' \<Longrightarrow> hb_s h' = hb_s h"
proof (cases oq)
  case (Some q)
  assume "release_queue oq h = Some h'"
  then obtain q' where "pop_loop (\<lambda>m h. Some (hcall (HFree (hm_buffer m)) h)) q h = Some (q', h')"
    using Some by (auto simp: release_queue_def split: Option.bind_splits)
  from pop_loop_keeps [OF this, of "\<lambda>g. hb_s g = hb_s h"] show ?thesis by auto
qed simp

lemma release_open: "release_queue oq h = Some h' \<Longrightarrow> slots_open h \<Longrightarrow> slots_open h'"
  using release_queue_same slots_open_same by blast

lemma close_open:
  assumes "close_harbor i h = Some h'" "slots_open h" "get_slave i h = Some s" "sl_status s \<noteq> Wait"
  shows "slots_open h'"
proof -
  let ?s = "s\<lparr>sl_status := Down\<rparr>" let ?s' = "s\<lparr>sl_status := Down, sl_queue := None\<rparr>"
  have ok: "slot_ok ?s" "slot_ok ?s'" using get_open [OF assms(3,2)] assms(4) by (simp_all add: slot_ok_def)
  obtain h1 where h1: "put_slave i ?s h = Some h1" using assms(1,3) by (auto simp: close_harbor_def split: Option.bind_splits)
  let ?h2 = "if sl_fd s \<noteq> 0 then hcall (HSocketClose (sl_fd s)) h1 else h1"
  have "slots_open ?h2" using put_open [OF h1 assms(2) ok(1)] by simp
  moreover have "(if sl_queue s \<noteq> None then do { h3 \<leftarrow> release_queue (sl_queue s) ?h2; put_slave i ?s' h3 } else Some ?h2) = Some h'"
    using assms(1,3) h1 by (simp add: close_harbor_def Let_def)
  ultimately show ?thesis
    using ok(2) put_open release_open
    by (cases "sl_queue s") (auto split: Option.bind_split_asm simp del: open_calls)
qed

lemma dispatch_queue_open:
  assumes "dispatch_queue i h = Some h'" "slots_open h"
  shows "slots_open h'"
proof -
  obtain s where s: "get_slave i h = Some s" using assms(1) by (auto simp: dispatch_queue_def split: Option.bind_splits)
  show ?thesis
  proof (cases "sl_queue s")
    case None
    with assms s show ?thesis by (auto simp: dispatch_queue_def split: Option.bind_splits)
  next
    case (Some q)
    then obtain q' h1 h2 where h: "pop_loop (\<lambda>m h. Some (hcall (HFree (hm_buffer m)) (send_remote (sl_fd s) (hm_data m) (hm_header m) h))) q h
        = Some (q', h1)" "release_queue (Some q') h1 = Some h2" "put_slave i (s\<lparr>sl_queue := None\<rparr>) h2 = Some h'"
      using assms(1) s by (auto simp: dispatch_queue_def split: Option.bind_splits)
    have "slots_open h1" using pop_loop_keeps [OF h(1), of slots_open] assms(2) by auto
    then show ?thesis using put_open [OF h(3)] release_open [OF h(2)] get_open [OF s assms(2)] by (simp add: slot_ok_def)
  qed
qed

lemma forward_local_same: "forward_local_message refused msg h = Some h' \<Longrightarrow> hb_s h' = hb_s h"
  by (auto simp: forward_local_message_def case_prod_unfold Let_def hsend_def split: if_splits)

lemma recv_step_open:
  assumes "recv_step refused fd i buffer h = Some (r, h')" "slots_open h"
  shows "slots_open h'"
proof -
  obtain s where s: "get_slave i h = Some s" using assms(1) by (auto simp: recv_step_def split: Option.bind_splits)
  have P: "slot_ok s" by (rule get_open [OF s assms(2)])
  show ?thesis
  proof (cases "sl_status s")
    case Handshake
    then have fd: "sl_fd s \<noteq> 0" using P by (simp add: slot_ok_def)
    have st: "recv_handshake fd i buffer h = Some (r, h')" using assms(1) s Handshake by (simp add: recv_step_def)
    then obtain b rest where b: "buffer = b # rest" by (auto simp: recv_handshake_def split: list.splits)
    show ?thesis
    proof (cases "unat b \<noteq> i")
      case True
      then have "close_harbor i (hcall (HLog (''Invalid shakehand id ('' @ dec (int i) @ '') from fd = '' @ dec fd @
              '' , harbor = '' @ dec (uint b))) h) = Some h'"
        using st b by (auto simp: recv_handshake_def split: Option.bind_splits)
      from close_open [OF this] s Handshake assms(2) show ?thesis by (simp add: get_slave_def)
    next
      case False
      then obtain h1 where "put_slave i (s\<lparr>sl_status := Header\<rparr>) h = Some h1" "dispatch_queue i h1 = Some h'"
        using st b s by (auto simp: recv_handshake_def split: Option.bind_splits)
      with put_open [OF this(1) assms(2)] fd dispatch_queue_open show ?thesis by (simp add: slot_ok_def)
    qed
  next
    case Header
    then have fd: "sl_fd s \<noteq> 0" using P by (simp add: slot_ok_def)
    have st: "recv_header i buffer h = Some (r, h')" using assms(1) s Header by (simp add: recv_step_def)
    have put: "slots_open h1" if "put_slave i t h = Some h1" "sl_fd t = sl_fd s" for t h1
      using put_open [OF that(1) assms(2)] that(2) fd by (simp add: slot_ok_def)
    have close: "slots_open h2" if "put_slave i t h = Some h1" "sl_fd t = sl_fd s" "sl_status t \<noteq> Wait" "close_harbor i (hcall c h1) = Some h2" for t h1 h2 c
    proof -
      have "get_slave i (hcall c h1) = Some t" using that(1) by (auto simp: put_slave_def get_slave_def arr_set_Some_iff split: Option.bind_splits)
      from close_open [OF that(4) _ this that(3)] put [OF that(1,2)] show ?thesis by simp
    qed
    from st s Header show ?thesis
      by (auto simp: recv_header_def Let_def split: Option.bind_splits if_splits intro: put close)
  next
    case Content
    then have fd: "sl_fd s \<noteq> 0" using P by (simp add: slot_ok_def)
    have st: "recv_content refused i buffer h = Some (r, h')" using assms(1) s Content by (simp add: recv_step_def)
    have put: "slots_open h1" if "put_slave i t g = Some h1" "sl_fd t = sl_fd s" "hb_s g = hb_s h" for t h1 g
      using put_open [OF that(1)] slots_open_same [OF that(3)] assms(2) that(2) fd by (simp add: slot_ok_def)
    from st s show ?thesis
      by (auto simp: recv_content_def Let_def split: Option.bind_splits if_splits intro: put dest: forward_local_same)
  qed (use assms s in \<open>auto simp: recv_step_def split: Option.bind_splits\<close>)
qed

lemma recv_loop_open:
  assumes "recv_loop refused fd i buffer h = Some h'" "slots_open h"
  shows "slots_open h'"
  using assms
proof (induction rule: recv_loop.raw_induct [rotated, consumes 1, case_names round])
  case (round loop buffer h h')
  then show ?case by (auto split: Option.bind_splits option.splits prod.splits dest: recv_step_open)
qed

lemma local_queue_open:
  assumes "local_queue refused i handle g = Some g4" "slots_open g"
  shows "slots_open g4"
proof -
  let ?f = "\<lambda>m h. Some (snd (hsend refused (rh_source (hm_header m)) handle
    (drop_bit 24 (rh_destination (hm_header m)) OR HB_DONTCOPY) (rh_session (hm_header m)) (hm_data m) h))"
  obtain t sq sq' g2 g3 where l: "get_slave i g = Some t" "pop_loop ?f sq g = Some (sq', g2)" "release_queue (Some sq') g2 = Some g3"
    "put_slave i (t\<lparr>sl_queue := None\<rparr>) g3 = Some g4"
    using assms(1) by (auto simp: local_queue_def split: Option.bind_splits)
  have "slots_open g2" using pop_loop_keeps [OF l(2), of slots_open] assms(2) by auto
  with release_open [OF l(3)] put_open [OF l(4)] get_open [OF l(1) assms(2)] show ?thesis by (simp add: slot_ok_def)
qed

lemma dispatch_name_queue_open:
  assumes "dispatch_name_queue refused p h = Some h'" "slots_open h"
  shows "slots_open h'"
proof -
  obtain n queue s where n: "node_at p (hb_map h) = Some n" "kv_queue n = Some queue"
    "get_slave (harbor_of (kv_value n)) h = Some s"
    using assms(1) by (auto simp: dispatch_name_queue_def Let_def split: Option.bind_splits)
  let ?i = "harbor_of (kv_value n)"
  have P: "slot_ok (s\<lparr>sl_queue := q\<rparr>)" for q using get_open [OF n(3) assms(2)] by (simp add: slot_ok_def)
  have put: "slots_open g'" if "put_slave i (s\<lparr>sl_queue := q\<rparr>) (h\<lparr>hb_map := m\<rparr>) = Some g'" for i q m g'
    using put_open [OF that] P assms(2) by simp
  have remote: "slots_open g1" if "pop_loop (\<lambda>m h. Some (hcall (HFree (hm_buffer m)) (send_remote (sl_fd s) (hm_data m)
         ((hm_header m)\<lparr>rh_destination := rh_destination (hm_header m) OR (kv_value n AND HB_MASK)\<rparr>) h))) queue h = Some (q', g1)" for q' g1
    using pop_loop_keeps [OF that, of slots_open] assms(2) by auto
  show ?thesis
  proof (cases "sl_fd s = 0")
    case False
    with assms(1) n show ?thesis
      by (auto simp: dispatch_name_queue_def Let_def split: Option.bind_splits) (erule remote)
  next
    case fd: True
    show ?thesis
    proof (cases "sl_status s = Down")
      case True
      with fd assms n show ?thesis by (auto simp: dispatch_name_queue_def Let_def)
    next
      case False
      from assms(1) n fd False show ?thesis
        by (cases "sl_queue s")
          (auto simp: dispatch_name_queue_def Let_def split: Option.bind_splits if_splits intro: put dest!: put local_queue_open)
    qed
  qed
qed

lemma find_or_insert_same: "find_or_insert name h = (p, h') \<Longrightarrow> hb_s h' = hb_s h"
  by (auto simp: find_or_insert_def hash_insert_def Let_def split: option.splits)

lemma update_name_open:
  assumes "update_name refused name handle h = Some h'" "slots_open h"
  shows "slots_open h'"
proof -
  obtain p h1 where f: "find_or_insert name h = (p, h1)" by fastforce
  have "slots_open h1" using find_or_insert_same [OF f] slots_open_same assms(2) by blast
  with assms(1) f show ?thesis
    by (auto simp: update_name_def Let_def split: Option.bind_splits if_splits
        dest!: dispatch_name_queue_open release_open)
qed

lemma remote_send_handle_open:
  assumes "remote_send_handle refused source destination type session p data h = Some (r, h')" "slots_open h"
  shows "slots_open h'"
proof -
  have put: "slots_open g" if "put_slave i (s\<lparr>sl_queue := q\<rparr>) h = Some g" "get_slave i h = Some s" for i s q g
    using put_open [OF that(1) assms(2)] get_open [OF that(2) assms(2)] by (simp add: slot_ok_def)
  from assms show ?thesis
    by (auto simp: remote_send_handle_def Let_def split: Option.bind_splits if_splits intro: put)
qed

lemma remote_send_name_open:
  assumes "remote_send_name refused source name type session p data h = Some (r, h')" "slots_open h"
  shows "slots_open h'"
proof -
  obtain q h1 where f: "find_or_insert name h = (q, h1)" by fastforce
  have "slots_open h1" using find_or_insert_same [OF f] slots_open_same assms(2) by blast
  with assms(1) f show ?thesis
    by (auto simp: remote_send_name_def Let_def split: Option.bind_splits if_splits dest!: remote_send_handle_open)
qed

lemma harbor_connect_open:
  assumes "harbor_connect active args h = Some h'" "slots_open h"
  shows "slots_open h'"
proof -
  have put: "slots_open g'" if "put_slave i (s\<lparr>sl_fd := fd, sl_status := st\<rparr>) g = Some g'" "slots_open g" "fd \<noteq> 0" for i s fd st g g'
    using put_open [OF that(1,2)] that(3) by (simp add: slot_ok_def)
  have put0: "slots_open g'" if "put_slave i (s\<lparr>sl_fd := fd\<rparr>) g = Some g'" "slots_open g" "fd \<noteq> 0" for i s fd g g'
    using put_open [OF that(1,2)] that(3) by (simp add: slot_ok_def)
  have hs: "slots_open g'" if "handshake i g = Some g'" "slots_open g" for i g g'
    using that by (auto simp: handshake_def split: Option.bind_splits)
  from assms show ?thesis
    by (auto simp: harbor_connect_def Let_def case_prod_unfold split: Option.bind_splits if_splits
        dest!: put0 hs dest: put dispatch_queue_open)
qed

lemma mainloop_open:
  assumes "mainloop refused inp session source h = Some h'" "slots_open h"
  shows "slots_open h'"
  using assms
  by (auto simp: mainloop_def push_socket_data_def socket_closed_def report_harbor_down_def harbor_command_def Let_def
      split: harbor_input.splits socket_event.splits Option.bind_splits if_splits list.splits prod.splits
      dest: recv_loop_open harbor_connect_open update_name_open remote_send_handle_open remote_send_name_open)

lemma reach_open: "harbor_reach refused h \<Longrightarrow> slots_open h"
proof (induction rule: harbor_reach.induct)
  case (start args h)
  then have "hb_s h = hb_s harbor_create" by (auto simp: harbor_init_def hcall_def case_prod_unfold Let_def split: if_splits)
  then show ?case by (simp add: slots_open_def harbor_create_def slot_ok_def empty_slave_def)
next
  case message
  then show ?case using mainloop_open by blast
qed

text \<open>
  C28. Messages to a harbor whose connection was closed. In every reachable state of the service a slot in the status
  \<open>Down\<close> still has its descriptor, so that the branch which answers the sender with an error cannot be reached:
  the message is written to the closed connection and nobody is told. For the same reason the slot cannot be connected
  again.
\<close>

theorem closed_harbor_silent:
  assumes "harbor_reach refused h" "get_slave i h = Some s" "sl_status s = Down" "harbor_of destination = i" "int i \<noteq> hb_id h"
    and "length data + 12 < 2 ^ 32"
    and "scan_two strtol10_int args = (wfd, word_of_nat i)" "sint wfd \<noteq> 0" "0 < i" "i < REMOTE_MAX"
  shows "(\<exists>bs. remote_send_handle refused source destination type session p data h = Some (0, hcall (HSendBuffer (sl_fd s) bs) h)) \<and>
    harbor_connect active args h = Some (hcall (HLog (''Harbor '' @ dec (int i) @ '' alreay exist'')) h)"
proof -
  have fd: "sl_fd s \<noteq> 0" using get_open [OF assms(2) reach_open [OF assms(1)]] assms(3) by (simp add: slot_ok_def)
  with assms(2-6) have "\<exists>bs. remote_send_handle refused source destination type session p data h = Some (0, hcall (HSendBuffer (sl_fd s) bs) h)"
    by (simp add: remote_send_handle_def send_remote_def Let_def) blast
  moreover have wi: "sint (word_of_nat i :: u32) = int i"
    using assms(9,10) by (simp add: REMOTE_MAX_def sint_uint uint_nat signed_take_bit_eq_if_positive unat_of_nat bit_iff_odd take_bit_int_eq_self)
  then have "harbor_connect active args h = Some (hcall (HLog (''Harbor '' @ dec (int i) @ '' alreay exist'')) h)"
    using assms(2,7-10) fd by (simp add: harbor_connect_def Let_def REMOTE_MAX_def)
  ultimately show ?thesis by blast
qed

text \<open>A harbor whose peer sent a length above 16 megabytes.\<close>

lemma connect_fresh:
  assumes "get_slave i h = Some s" "sl_fd s = 0" "sl_queue s = None" "scan_two strtol10_int args = (wfd, wi)"
    "sint wfd \<noteq> 0" "sint wi = int i" "0 < i" "i < REMOTE_MAX"
  shows "\<exists>h1. harbor_connect False args h = Some h1 \<and> hb_id h1 = hb_id h \<and>
    hb_s h1 = (hb_s h)[i := s\<lparr>sl_fd := sint wfd, sl_status := Header\<rparr>]"
proof -
  have "i < length (hb_s h)" using assms(1) by (simp add: get_slave_def arr_get_Some_iff)
  with assms show ?thesis
    by (simp add: harbor_connect_def Let_def get_slave_def put_slave_def handshake_def dispatch_queue_def hcall_def)
qed

lemma overlong_closes:
  assumes "get_slave i h = Some s" "sl_status s = Header" "sl_read s = 0" "sl_queue s = None" "b \<noteq> 0"
  shows "\<exists>h1 s1. recv_loop refused fd i [b, x, y, z] h = Some h1 \<and> hb_id h1 = hb_id h \<and> get_slave i h1 = Some s1 \<and> sl_status s1 = Down"
proof -
  have "i < length (hb_s h)" using assms(1) by (simp add: get_slave_def arr_get_Some_iff)
  with assms show ?thesis
    by (subst recv_loop.simps)
      (simp add: recv_step_def recv_header_def close_harbor_def put_slave_def get_slave_def Let_def hcall_def)
qed

lemma down_reachable:
  "\<exists>h s. harbor_reach accepts_all h \<and> get_slave 2 h = Some s \<and> sl_status s = Down \<and> hb_id h = 1"
proof -
  have n: "scan_two strtoul10_u32 ''1 5'' = (1, 5)" and c: "scan_two strtol10_int ''7 2'' = (7, 2)" by code_simp+
  define h0 where "h0 = snd (harbor_init ''1 5'' harbor_create)"
  have h0: "harbor_init ''1 5'' harbor_create = (0, h0)" by (simp add: h0_def harbor_init_def n)
  have r0: "harbor_reach accepts_all h0" by (rule harbor_reach.start [OF h0])
  have id0: "hb_id h0 = 1" and sl: "hb_s h0 = replicate REMOTE_MAX empty_slave"
    by (simp_all add: h0_def harbor_init_def n hcall_def harbor_create_def)
  have all: "i < REMOTE_MAX \<Longrightarrow> hb_s h0 ! i = empty_slave" for i by (simp only: sl nth_replicate)
  have len: "length (hb_s h0) = 256" by (simp only: sl length_replicate REMOTE_MAX_def)
  have "get_slave 2 h0 = Some empty_slave" using all [of 2] len by (simp add: get_slave_def REMOTE_MAX_def)
  from connect_fresh [OF this _ _ c] obtain h1 where h1: "harbor_connect False ''7 2'' h0 = Some h1" "hb_id h1 = 1"
    "hb_s h1 = (hb_s h0)[2 := empty_slave\<lparr>sl_fd := 7, sl_status := Header\<rparr>]" using id0 by (auto simp: empty_slave_def REMOTE_MAX_def)
  have "mainloop accepts_all (Command ''A 7 2'') 0 0 h0 = Some h1" using h1(1) by (simp add: mainloop_def harbor_command_def)
  then have r1: "harbor_reach accepts_all h1" by (rule harbor_reach.message [OF r0])
  have g1: "get_slave 2 h1 = Some (empty_slave\<lparr>sl_fd := 7, sl_status := Header\<rparr>)" using h1(3) len by (simp add: get_slave_def)
  have one: "hb_s h1 ! 1 = empty_slave" using h1(3) all [of 1] by (simp add: REMOTE_MAX_def)
  have "sl_fd (hb_s h1 ! j) \<noteq> 7" if "0 < j" "j < 2" for j
  proof -
    have "j = 1" using that by simp
    with one show ?thesis by (simp add: empty_slave_def)
  qed
  with h1(3) len have "owns 7 2 h1" by (simp add: owns_def)
  then have f: "find_fd 7 h1 = 2" by (rule find_fd_owns)
  from overlong_closes [OF g1, of 1 accepts_all 7 0 0 0] obtain h2 s2 where h2: "recv_loop accepts_all 7 2 [1, 0, 0, 0] h1 = Some h2"
    "hb_id h2 = 1" "get_slave 2 h2 = Some s2" "sl_status s2 = Down" using h1(2) by (auto simp: empty_slave_def)
  have "mainloop accepts_all (Net (EvData 7 1 [1, 0, 0, 0])) 0 0 h1 = Some (hcall (HFree 1) h2)"
    using f h2(1) by (simp add: mainloop_def push_socket_data_def)
  then have "harbor_reach accepts_all (hcall (HFree 1) h2)" by (rule harbor_reach.message [OF r1])
  with h2 show ?thesis by (auto simp: get_slave_def hcall_def)
qed

theorem closed_harbor_silent_witness:
  "\<exists>h s. harbor_reach accepts_all h \<and> get_slave 2 h = Some s \<and>
    (\<exists>bs. remote_send_handle accepts_all 0x01000008 0x02000009 10 3 1 [42] h = Some (0, hcall (HSendBuffer (sl_fd s) bs) h)) \<and>
    harbor_connect True ''8 2'' h = Some (hcall (HLog (''Harbor '' @ dec 2 @ '' alreay exist'')) h)"
proof -
  obtain h s where h: "harbor_reach accepts_all h" "get_slave 2 h = Some s" "sl_status s = Down" "hb_id h = 1"
    using down_reachable by blast
  have "scan_two strtol10_int ''8 2'' = (8, word_of_nat 2)" by code_simp
  with closed_harbor_silent [OF h(1,2,3), where destination = "0x02000009" and data = "[42]" and args = "''8 2''" and wfd = 8
      and source = "0x01000008" and type = 10 and session = 3 and p = 1 and active = True] h show ?thesis
    by (auto simp: harbor_of_def REMOTE_MAX_def)
qed

end
