(* ===== verification/Locks.thy ===== *)
theory Locks
  imports Prelude
begin

section \<open>Locks (skynet-src/spinlock.h, rwlock.h, atomic.h)\<close>

text \<open>
  The other theories treat an operation under a lock as one step. Here the locks themselves are programs
  of several atomic steps, run by a list of threads in any interleaving. \<open>Mqueue\<close>, \<open>Timer\<close>, \<open>Module\<close> and the
  environment rest on the spin lock, \<open>Handle\<close> on the read-write lock.

  The read-write lock is modelled for both definitions of \<open>ATOM_CAS\<close> in atomic.h: \<open>__sync_bool_compare_and_swap\<close>,
  which leaves the expected value alone, and \<open>atomic_compare_exchange_weak\<close>, which on failure writes the value
  it found into it and may fail spuriously. With the first the lock excludes, with the second it does not.
\<close>

subsection \<open>Threads\<close>

text \<open>
  \<open>next c l p\<close> is the step of a thread at place \<open>p\<close> when the lock is in state \<open>l\<close>; \<open>c\<close> is what the thread wants, when
  it has a choice.
\<close>

inductive threads_reach ::
  "('c \<Rightarrow> 'l \<Rightarrow> 'p \<Rightarrow> 'l \<times> 'p) \<Rightarrow> 'l \<Rightarrow> 'p \<Rightarrow> nat \<Rightarrow> 'l \<Rightarrow> 'p list \<Rightarrow> bool" for nxt start idle n where
  threads_start: "threads_reach nxt start idle n start (replicate n idle)"
| threads_step: "threads_reach nxt start idle n l ps \<Longrightarrow> t < length ps \<Longrightarrow> nxt c l (ps ! t) = (l', p') \<Longrightarrow>
    threads_reach nxt start idle n l' (ps[t := p'])"

locale threads_invariant =
  fixes nxt :: "'c \<Rightarrow> 'l \<Rightarrow> 'p \<Rightarrow> 'l \<times> 'p" and start :: 'l and idle :: 'p and inv :: "'l \<Rightarrow> 'p list \<Rightarrow> bool"
  assumes inv_start: "inv start (replicate n idle)"
    and inv_step: "inv l ps \<Longrightarrow> t < length ps \<Longrightarrow> nxt c l (ps ! t) = (l', p') \<Longrightarrow> inv l' (ps[t := p'])"
begin

lemma reach_inv: "threads_reach nxt start idle n l ps \<Longrightarrow> inv l ps"
proof (induction rule: threads_reach.induct)
  case threads_start
  show ?case by (rule inv_start)
next
  case threads_step
  then show ?case by (blast intro: inv_step)
qed

end

text \<open>The number of threads at places in a set, after one of them has moved.\<close>

definition at :: "'p set \<Rightarrow> 'p list \<Rightarrow> nat" where
  "at S ps = length (filter (\<lambda>p. p \<in> S) ps)"

lemma at_update:
  "t < length ps \<Longrightarrow> at S (ps[t := p]) + (if ps ! t \<in> S then 1 else 0) = at S ps + (if p \<in> S then 1 else 0)"
proof (induction ps arbitrary: t)
  case (Cons q ps)
  then show ?case by (cases t) (auto simp: at_def)
qed simp

lemma at_replicate [simp]: "at S (replicate n p) = (if p \<in> S then n else 0)"
  by (induction n) (auto simp: at_def)

lemma at_0_iff: "at S ps = 0 \<longleftrightarrow> set ps \<inter> S = {}"
  by (auto simp: at_def filter_empty_conv)

lemma at_mono: "S \<subseteq> T \<Longrightarrow> at S ps \<le> at T ps"
  unfolding at_def by (induction ps) auto

subsection \<open>The spin lock\<close>

text \<open>\<open>sp_lock\<close> is the flag. \<open>SpTry\<close> is in front of the exchange, \<open>SpWait\<close> in the inner loop.\<close>

datatype spin_place = SpIdle | SpTry | SpWait | SpHeld | SpTryLoad | SpTryOnce

text \<open>A thread without the lock calls \<open>spinlock_lock\<close> or \<open>spinlock_trylock\<close>.\<close>

datatype spin_choice = Lock | Trylock

definition spinlock_init :: int where
  "spinlock_init = 0"

fun spinlock_lock :: "spin_place \<Rightarrow> int \<Rightarrow> int \<times> spin_place" where
  "spinlock_lock SpTry l = (1, if l = 0 then SpHeld else SpWait)"
| "spinlock_lock SpWait l = (l, if l = 0 then SpTry else SpWait)"
| "spinlock_lock p l = (l, p)"

fun spinlock_trylock :: "spin_place \<Rightarrow> int \<Rightarrow> int \<times> spin_place" where
  "spinlock_trylock SpTryLoad l = (l, if l = 0 then SpTryOnce else SpIdle)"
| "spinlock_trylock SpTryOnce l = (1, if l = 0 then SpHeld else SpIdle)"
| "spinlock_trylock p l = (l, p)"

definition spinlock_unlock :: "int \<Rightarrow> int" where
  "spinlock_unlock l = 0"

fun spin_next :: "spin_choice \<Rightarrow> int \<Rightarrow> spin_place \<Rightarrow> int \<times> spin_place" where
  "spin_next Lock l SpIdle = (l, SpTry)"
| "spin_next Trylock l SpIdle = (l, SpTryLoad)"
| "spin_next c l SpHeld = (spinlock_unlock l, SpIdle)"
| "spin_next c l SpTry = spinlock_lock SpTry l"
| "spin_next c l SpWait = spinlock_lock SpWait l"
| "spin_next c l SpTryLoad = spinlock_trylock SpTryLoad l"
| "spin_next c l SpTryOnce = spinlock_trylock SpTryOnce l"

definition spin_inv :: "int \<Rightarrow> spin_place list \<Rightarrow> bool" where
  "spin_inv l ps \<longleftrightarrow> (l = 0 \<or> l = 1) \<and> int (at {SpHeld} ps) = l"

interpretation spin: threads_invariant spin_next spinlock_init SpIdle spin_inv
proof unfold_locales
  show "spin_inv spinlock_init (replicate n SpIdle)" for n by (simp add: spin_inv_def spinlock_init_def)
  show "spin_inv l' (ps[t := p'])" if "spin_inv l ps" "t < length ps" "spin_next c l (ps ! t) = (l', p')" for l ps t c l' p'
    using that at_update [OF that(2), of "{SpHeld}" p']
    by (cases "ps ! t"; cases c) (auto simp: spin_inv_def spinlock_unlock_def split: if_splits)
qed

lemma spinlock_exclusive: "threads_reach spin_next spinlock_init SpIdle n l ps \<Longrightarrow> at {SpHeld} ps \<le> 1"
  using spin.reach_inv by (fastforce simp: spin_inv_def)

subsection \<open>The read-write lock\<close>

record rwlock =
  rw_write :: int
  rw_read :: int

text \<open>
  The places: a reader waits for the writer (\<open>RSpin\<close>), announces itself (\<open>RInc\<close>), looks again (\<open>RCheck\<close>), steps back
  (\<open>RDec\<close>) or reads; a writer takes the flag (\<open>WCas\<close>, with its variable \<open>clear\<close>), waits for the readers and writes.
\<close>

datatype rw_place = RwIdle | RSpin | RInc | RCheck | RDec | RHeld | WCas int | WWait | WHeld

datatype rw_choice = Read | Write | Spurious

definition rwlock_init :: rwlock where
  "rwlock_init = \<lparr>rw_write = 0, rw_read = 0\<rparr>"

fun rwlock_rlock :: "rw_place \<Rightarrow> rwlock \<Rightarrow> rwlock \<times> rw_place" where
  "rwlock_rlock RSpin l = (l, if rw_write l \<noteq> 0 then RSpin else RInc)"
| "rwlock_rlock RInc l = (l\<lparr>rw_read := rw_read l + 1\<rparr>, RCheck)"
| "rwlock_rlock RCheck l = (l, if rw_write l \<noteq> 0 then RDec else RHeld)"
| "rwlock_rlock RDec l = (l\<lparr>rw_read := rw_read l - 1\<rparr>, RSpin)"
| "rwlock_rlock p l = (l, p)"

text \<open>
  One \<open>ATOM_CAS(ptr, oval, nval)\<close>: the result, the new value of the variable and the new value of \<open>oval\<close>. \<open>c11\<close> selects the
  definition.
\<close>

definition ATOM_CAS :: "bool \<Rightarrow> bool \<Rightarrow> int \<Rightarrow> int \<Rightarrow> int \<Rightarrow> bool \<times> int \<times> int" where
  "ATOM_CAS c11 spurious v oval nval =
     (if v = oval \<and> \<not> (c11 \<and> spurious) then (True, nval, oval) else (False, v, if c11 then v else oval))"

fun rwlock_wlock :: "bool \<Rightarrow> bool \<Rightarrow> rw_place \<Rightarrow> rwlock \<Rightarrow> rwlock \<times> rw_place" where
  "rwlock_wlock c11 spurious (WCas clear) l =
     (let (r, w, clear') = ATOM_CAS c11 spurious (rw_write l) clear 1 in
      (l\<lparr>rw_write := w\<rparr>, if r then WWait else WCas clear'))"
| "rwlock_wlock c11 spurious WWait l = (l, if rw_read l \<noteq> 0 then WWait else WHeld)"
| "rwlock_wlock c11 spurious p l = (l, p)"

definition rwlock_wunlock :: "rwlock \<Rightarrow> rwlock" where
  "rwlock_wunlock l = l\<lparr>rw_write := 0\<rparr>"

definition rwlock_runlock :: "rwlock \<Rightarrow> rwlock" where
  "rwlock_runlock l = l\<lparr>rw_read := rw_read l - 1\<rparr>"

fun rw_next :: "bool \<Rightarrow> rw_choice \<Rightarrow> rwlock \<Rightarrow> rw_place \<Rightarrow> rwlock \<times> rw_place" where
  "rw_next c11 c l RwIdle = (l, if c = Write then WCas 0 else RSpin)"
| "rw_next c11 c l RHeld = (rwlock_runlock l, RwIdle)"
| "rw_next c11 c l WHeld = (rwlock_wunlock l, RwIdle)"
| "rw_next c11 c l (WCas clear) = rwlock_wlock c11 (c = Spurious) (WCas clear) l"
| "rw_next c11 c l WWait = rwlock_wlock c11 (c = Spurious) WWait l"
| "rw_next c11 c l p = rwlock_rlock p l"

abbreviation "readers \<equiv> {RCheck, RDec, RHeld}"
abbreviation "writers \<equiv> {WWait, WHeld}"

definition rw_inv :: "rwlock \<Rightarrow> rw_place list \<Rightarrow> bool" where
  "rw_inv l ps \<longleftrightarrow> (\<forall>v. WCas v \<in> set ps \<longrightarrow> v = 0) \<and> rw_read l = int (at readers ps) \<and> rw_write l = int (at writers ps) \<and>
     at writers ps \<le> 1 \<and> (at {WHeld} ps = 0 \<or> at {RHeld} ps = 0)"

lemma clear_kept:
  "t < length ps \<Longrightarrow> \<forall>v. WCas v \<in> set ps \<longrightarrow> v = 0 \<Longrightarrow> (\<And>v. p = WCas v \<Longrightarrow> v = 0) \<Longrightarrow> \<forall>v. WCas v \<in> set (ps[t := p]) \<longrightarrow> v = 0"
  by (auto dest!: set_update_subset_insert [THEN subsetD])

lemma rw_inv_step:
  assumes inv: "rw_inv l ps" and t: "t < length ps" and st: "rw_next False c l (ps ! t) = (l', p')"
  shows "rw_inv l' (ps[t := p'])"
proof -
  note u = at_update [OF t, of readers p'] at_update [OF t, of writers p'] at_update [OF t, of "{WHeld}" p'] at_update [OF t, of "{RHeld}" p']
  have sub: "at {WHeld} ps \<le> at writers ps" "at {RHeld} ps \<le> at readers ps"
    "at {WHeld} (ps[t := p']) \<le> at writers (ps[t := p'])" "at {RHeld} (ps[t := p']) \<le> at readers (ps[t := p'])"
    by (rule at_mono; simp)+
  have cl: "ps ! t = WCas v \<Longrightarrow> v = 0" for v using inv t nth_mem by (fastforce simp: rw_inv_def)
  have "p' = WCas v \<Longrightarrow> v = 0" for v
    using st cl by (cases "ps ! t") (auto simp: ATOM_CAS_def split: if_splits prod.splits)
  then have "\<forall>v. WCas v \<in> set (ps[t := p']) \<longrightarrow> v = 0" using clear_kept [OF t, of p'] inv by (simp add: rw_inv_def)
  moreover have "rw_read l' = int (at readers (ps[t := p'])) \<and> rw_write l' = int (at writers (ps[t := p'])) \<and>
     at writers (ps[t := p']) \<le> 1 \<and> (at {WHeld} (ps[t := p']) = 0 \<or> at {RHeld} (ps[t := p']) = 0)"
    using inv st u sub cl
    by (cases "ps ! t") (auto simp: rw_inv_def ATOM_CAS_def rwlock_runlock_def rwlock_wunlock_def Let_def split: if_splits prod.splits)
  ultimately show ?thesis by (simp add: rw_inv_def)
qed

interpretation rw: threads_invariant "rw_next False" rwlock_init RwIdle rw_inv
proof unfold_locales
  show "rw_inv rwlock_init (replicate n RwIdle)" for n by (auto simp: rw_inv_def rwlock_init_def)
qed (rule rw_inv_step)

text \<open>
  C29. Exclusion. Whatever the threads do, under the spin lock at most one thread holds it, and under the read-write lock
  over a compare-and-swap that leaves the expected value alone at most one writer holds it and no reader holds it
  together with a writer.
\<close>

theorem locks_exclude:
  assumes "threads_reach spin_next spinlock_init SpIdle n l ps" "threads_reach (rw_next False) rwlock_init RwIdle k r rs"
  shows "at {SpHeld} ps \<le> 1 \<and> at {WHeld} rs \<le> 1 \<and> (WHeld \<in> set rs \<longrightarrow> RHeld \<notin> set rs)"
proof -
  have "at {WHeld} rs \<le> at writers rs" by (rule at_mono) simp
  moreover have "rw_inv r rs" by (rule rw.reach_inv [OF assms(2)])
  ultimately show ?thesis using spinlock_exclusive [OF assms(1)] by (auto simp: rw_inv_def at_0_iff)
qed

theorem locks_exclude_witness:
  "\<exists>l ps r rs. threads_reach spin_next spinlock_init SpIdle 2 l ps \<and> at {SpHeld} ps = 1 \<and> at {SpHeld} ps \<le> 1 \<and>
    threads_reach (rw_next False) rwlock_init RwIdle 2 r rs \<and> WHeld \<in> set rs \<and> RHeld \<notin> set rs"
proof -
  have "threads_reach spin_next spinlock_init SpIdle 2 0 [SpIdle, SpIdle]"
    using threads_start [of spin_next spinlock_init SpIdle 2] by (simp add: spinlock_init_def numeral_2_eq_2)
  from threads_step [OF this, of 0 Lock 0 SpTry] have "threads_reach spin_next spinlock_init SpIdle 2 0 [SpTry, SpIdle]" by simp
  from threads_step [OF this, of 0 Lock 1 SpHeld] have s: "threads_reach spin_next spinlock_init SpIdle 2 1 [SpHeld, SpIdle]" by simp
  let ?l0 = "\<lparr>rw_write = 0, rw_read = 0\<rparr>" let ?l1 = "\<lparr>rw_write = 1, rw_read = 0\<rparr>"
  have "threads_reach (rw_next False) rwlock_init RwIdle 2 ?l0 [RwIdle, RwIdle]"
    using threads_start [of "rw_next False" rwlock_init RwIdle 2] by (simp add: rwlock_init_def numeral_2_eq_2)
  from threads_step [OF this, of 0 Write ?l0 "WCas 0"] have "threads_reach (rw_next False) rwlock_init RwIdle 2 ?l0 [WCas 0, RwIdle]" by simp
  from threads_step [OF this, of 0 Write ?l1 WWait] have "threads_reach (rw_next False) rwlock_init RwIdle 2 ?l1 [WWait, RwIdle]"
    by (simp add: ATOM_CAS_def)
  from threads_step [OF this, of 0 Write ?l1 WHeld] have r: "threads_reach (rw_next False) rwlock_init RwIdle 2 ?l1 [WHeld, RwIdle]" by simp
  from locks_exclude [OF s r] s r show ?thesis
    by (intro exI [of _ 1] exI [of _ "[SpHeld, SpIdle]"] exI [of _ ?l1] exI [of _ "[WHeld, RwIdle]"]) (simp add: at_def)
qed

text \<open>
  C30. With the C11 definition of \<open>ATOM_CAS\<close>, which is the one compiled unless \<open>__STDC_NO_ATOMICS__\<close> is set, the read-write
  lock does not exclude: the failed exchange of a second writer stores 1 in its variable \<open>clear\<close>, which is not reset, and
  the next exchange, of 1 for 1, succeeds. Two threads can write at once, and when one of them leaves, a thread can
  read while the other still writes. All operations on the registry of handles rest on this lock.
\<close>

theorem rwlock_c11_broken:
  "(\<exists>l. threads_reach (rw_next True) rwlock_init RwIdle 2 l [WHeld, WHeld]) \<and>
   (\<exists>l. threads_reach (rw_next True) rwlock_init RwIdle 2 l [WHeld, RHeld])"
proof -
  let ?R = "threads_reach (rw_next True) rwlock_init RwIdle 2"
  let ?l0 = "\<lparr>rw_write = 0, rw_read = 0\<rparr>" let ?l1 = "\<lparr>rw_write = 1, rw_read = 0\<rparr>" let ?l2 = "\<lparr>rw_write = 0, rw_read = 1\<rparr>"
  have "?R ?l0 [RwIdle, RwIdle]"
    using threads_start [of "rw_next True" rwlock_init RwIdle 2] by (simp add: rwlock_init_def numeral_2_eq_2)
  from threads_step [OF this, of 0 Write ?l0 "WCas 0"] have "?R ?l0 [WCas 0, RwIdle]" by simp
  from threads_step [OF this, of 0 Write ?l1 WWait] have "?R ?l1 [WWait, RwIdle]" by (simp add: ATOM_CAS_def)
  from threads_step [OF this, of 0 Write ?l1 WHeld] have "?R ?l1 [WHeld, RwIdle]" by simp
  from threads_step [OF this, of 1 Write ?l1 "WCas 0"] have "?R ?l1 [WHeld, WCas 0]" by simp
  from threads_step [OF this, of 1 Write ?l1 "WCas 1"] have "?R ?l1 [WHeld, WCas 1]" by (simp add: ATOM_CAS_def)
  from threads_step [OF this, of 1 Write ?l1 WWait] have "?R ?l1 [WHeld, WWait]" by (simp add: ATOM_CAS_def)
  from threads_step [OF this, of 1 Write ?l1 WHeld] have two: "?R ?l1 [WHeld, WHeld]" by simp
  from threads_step [OF this, of 1 Read ?l0 RwIdle] have "?R ?l0 [WHeld, RwIdle]" by (simp add: rwlock_wunlock_def)
  from threads_step [OF this, of 1 Read ?l0 RSpin] have "?R ?l0 [WHeld, RSpin]" by simp
  from threads_step [OF this, of 1 Read ?l0 RInc] have "?R ?l0 [WHeld, RInc]" by simp
  from threads_step [OF this, of 1 Read ?l2 RCheck] have "?R ?l2 [WHeld, RCheck]" by simp
  from threads_step [OF this, of 1 Read ?l2 RHeld] have "?R ?l2 [WHeld, RHeld]" by simp
  with two show ?thesis by blast
qed

end
