(* ===== verification/Stm.thy ===== *)
theory Stm
  imports Prelude "HOL-Library.Multiset"
begin

section \<open>Shared messages (lualib-src/lua-stm.c)\<close>

text \<open>
  A writer publishes versions of a message, readers in other services take the latest one. Object and versions carry
  reference counts: the object counts the writer, the readers and the pointers that were handed out and have not become
  readers yet; a version counts the object while it is the current one and the readers that look at it. Every operation runs
  under the read-write lock of the object and is one step here.

  A version is an index into \<open>st_copies\<close>, where freed versions stay as dead entries; \<open>st_freed\<close> lists the
  blocks given to \<open>skynet_free\<close>. The theorem is that nothing is used after it was freed and that everything is freed
  exactly once, when nobody holds it any more.
\<close>

record stm_copy =
  cp_reference :: int
  cp_sz :: u32
  cp_msg :: ptr
  cp_alive :: bool

record stm_object =
  ob_reference :: int
  ob_copy :: "nat option"

record stm =
  st_copies :: "stm_copy list"
  st_obj :: "stm_object option"
  st_freed :: "ptr list"

definition stm_newcopy :: "ptr \<Rightarrow> u32 \<Rightarrow> stm \<Rightarrow> nat \<times> stm" where
  "stm_newcopy msg sz st = (length (st_copies st),
     st\<lparr>st_copies := st_copies st @ [\<lparr>cp_reference = 1, cp_sz = sz, cp_msg = msg, cp_alive = True\<rparr>]\<rparr>)"

definition stm_new :: "ptr \<Rightarrow> u32 \<Rightarrow> stm \<Rightarrow> stm" where
  "stm_new msg sz st = (let (c, st1) = stm_newcopy msg sz st in st1\<lparr>st_obj := Some \<lparr>ob_reference = 1, ob_copy = Some c\<rparr>\<rparr>)"

text \<open>Access to a version that was freed is undefined.\<close>

definition live_copy :: "nat \<Rightarrow> stm \<Rightarrow> stm_copy option" where
  "live_copy c st = do { x \<leftarrow> arr_get (st_copies st) c; c_assert (cp_alive x); Some x }"

definition stm_releasecopy :: "nat option \<Rightarrow> stm \<Rightarrow> stm option" where
  "stm_releasecopy oc st =
     (case oc of
        None \<Rightarrow> Some st
      | Some c \<Rightarrow> do {
          x \<leftarrow> live_copy c st;
          let x' = x\<lparr>cp_reference := cp_reference x - 1\<rparr>;
          Some (if cp_reference x \<le> 1
            then st\<lparr>st_copies := (st_copies st)[c := x'\<lparr>cp_alive := False\<rparr>], st_freed := st_freed st @ [cp_msg x]\<rparr>
            else st\<lparr>st_copies := (st_copies st)[c := x']\<rparr>) })"

definition stm_release :: "stm \<Rightarrow> stm option" where
  "stm_release st = do {
     ob \<leftarrow> st_obj st;
     c_assert (ob_copy ob \<noteq> None);
     st1 \<leftarrow> stm_releasecopy (ob_copy ob) st;
     Some (if 1 < ob_reference ob
       then st1\<lparr>st_obj := Some (ob\<lparr>ob_copy := None, ob_reference := ob_reference ob - 1\<rparr>)\<rparr>
       else st1\<lparr>st_obj := None\<rparr>) }"

definition stm_releasereader :: "stm \<Rightarrow> stm option" where
  "stm_releasereader st = do {
     ob \<leftarrow> st_obj st;
     if ob_reference ob = 1 then do {
       c_assert (ob_copy ob = None);
       Some (st\<lparr>st_obj := None\<rparr>) }
     else Some (st\<lparr>st_obj := Some (ob\<lparr>ob_reference := ob_reference ob - 1\<rparr>)\<rparr>) }"

definition stm_grab :: "stm \<Rightarrow> stm option" where
  "stm_grab st = do {
     ob \<leftarrow> st_obj st;
     c_assert (0 < ob_reference ob);
     Some (st\<lparr>st_obj := Some (ob\<lparr>ob_reference := ob_reference ob + 1\<rparr>)\<rparr>) }"

definition stm_copy_obj :: "stm \<Rightarrow> (nat option \<times> stm) option" where
  "stm_copy_obj st = do {
     ob \<leftarrow> st_obj st;
     case ob_copy ob of
       None \<Rightarrow> Some (None, st)
     | Some c \<Rightarrow> do {
         x \<leftarrow> live_copy c st;
         c_assert (0 < cp_reference x);
         Some (Some c, st\<lparr>st_copies := (st_copies st)[c := x\<lparr>cp_reference := cp_reference x + 1\<rparr>]\<rparr>) } }"

definition stm_update :: "ptr \<Rightarrow> u32 \<Rightarrow> stm \<Rightarrow> stm option" where
  "stm_update msg sz st = do {
     let (c, st1) = stm_newcopy msg sz st;
     ob \<leftarrow> st_obj st1;
     stm_releasecopy (ob_copy ob) (st1\<lparr>st_obj := Some (ob\<lparr>ob_copy := Some c\<rparr>)\<rparr>) }"

text \<open>\<open>lread\<close> of a reader with the version \<open>last\<close>: whether there is something new, and the version it holds now.\<close>

definition lread :: "nat option \<Rightarrow> stm \<Rightarrow> (bool \<times> nat option \<times> stm) option" where
  "lread lst st = do {
     (copy, st1) \<leftarrow> stm_copy_obj st;
     if copy = lst then do { st2 \<leftarrow> stm_releasecopy copy st1; Some (False, lst, st2) }
     else do { st2 \<leftarrow> stm_releasecopy lst st1; Some (copy \<noteq> None, copy, st2) } }"

definition ldeletereader :: "nat option \<Rightarrow> stm \<Rightarrow> stm option" where
  "ldeletereader lst st = do { st1 \<leftarrow> stm_releasereader st; stm_releasecopy lst st1 }"

subsection \<open>The services around one object\<close>

text \<open>Whether the writer lives, how many pointers are on their way to a reader, and the versions of the readers.\<close>

record stm_world =
  sw_stm :: stm
  sw_writer :: bool
  sw_grabs :: nat
  sw_readers :: "nat option list"

datatype stm_op = Grab | NewReader | Update ptr u32 | ReadBy nat | DeleteReader nat | DeleteWriter

fun stm_allowed :: "stm_op \<Rightarrow> stm_world \<Rightarrow> bool" where
  "stm_allowed Grab w = sw_writer w"
| "stm_allowed NewReader w = (0 < sw_grabs w)"
| "stm_allowed (Update msg sz) w = sw_writer w"
| "stm_allowed (ReadBy i) w = (i < length (sw_readers w))"
| "stm_allowed (DeleteReader i) w = (i < length (sw_readers w))"
| "stm_allowed DeleteWriter w = sw_writer w"

definition remove_nth :: "nat \<Rightarrow> 'a list \<Rightarrow> 'a list" where
  "remove_nth i xs = take i xs @ drop (Suc i) xs"

fun stm_do :: "stm_op \<Rightarrow> stm_world \<Rightarrow> stm_world option" where
  "stm_do Grab w = do { s \<leftarrow> stm_grab (sw_stm w); Some (w\<lparr>sw_stm := s, sw_grabs := Suc (sw_grabs w)\<rparr>) }"
| "stm_do NewReader w = Some (w\<lparr>sw_grabs := sw_grabs w - 1, sw_readers := sw_readers w @ [None]\<rparr>)"
| "stm_do (Update msg sz) w = do { s \<leftarrow> stm_update msg sz (sw_stm w); Some (w\<lparr>sw_stm := s\<rparr>) }"
| "stm_do (ReadBy i) w = do {
     (_, c, s) \<leftarrow> lread (sw_readers w ! i) (sw_stm w);
     Some (w\<lparr>sw_stm := s, sw_readers := (sw_readers w)[i := c]\<rparr>) }"
| "stm_do (DeleteReader i) w = do {
     s \<leftarrow> ldeletereader (sw_readers w ! i) (sw_stm w);
     Some (w\<lparr>sw_stm := s, sw_readers := remove_nth i (sw_readers w)\<rparr>) }"
| "stm_do DeleteWriter w = do { s \<leftarrow> stm_release (sw_stm w); Some (w\<lparr>sw_stm := s, sw_writer := False\<rparr>) }"

definition stm_start :: "ptr \<Rightarrow> u32 \<Rightarrow> stm_world" where
  "stm_start msg sz = \<lparr>sw_stm = stm_new msg sz \<lparr>st_copies = [], st_obj = None, st_freed = []\<rparr>,
     sw_writer = True, sw_grabs = 0, sw_readers = []\<rparr>"

inductive stm_reach :: "stm_world \<Rightarrow> bool" where
  stm_begin: "stm_reach (stm_start msg sz)"
| stm_step: "stm_reach w \<Longrightarrow> stm_allowed a w \<Longrightarrow> stm_do a w = Some w' \<Longrightarrow> stm_reach w'"

subsection \<open>The counts are right\<close>

definition current :: "stm \<Rightarrow> nat option" where
  "current st = (case st_obj st of None \<Rightarrow> None | Some ob \<Rightarrow> ob_copy ob)"

text \<open>The number of references to version \<open>c\<close> when the object holds \<open>cur\<close> and the readers hold \<open>rs\<close>.\<close>

definition holders :: "nat option list \<Rightarrow> nat \<Rightarrow> nat" where
  "holders rs c = count (mset rs) (Some c)"

definition copies_ok :: "stm \<Rightarrow> nat option list \<Rightarrow> bool" where
  "copies_ok st hs \<longleftrightarrow>
     (\<forall>c < length (st_copies st). cp_alive (st_copies st ! c) = (0 < holders hs c) \<and>
        (0 < holders hs c \<longrightarrow> cp_reference (st_copies st ! c) = int (holders hs c))) \<and>
     (\<forall>c. Some c \<in> set hs \<longrightarrow> c < length (st_copies st)) \<and>
     mset (st_freed st) = mset (map cp_msg (filter (\<lambda>x. \<not> cp_alive x) (st_copies st)))"

definition stm_inv :: "stm_world \<Rightarrow> bool" where
  "stm_inv w \<longleftrightarrow> copies_ok (sw_stm w) (current (sw_stm w) # sw_readers w) \<and>
     (case st_obj (sw_stm w) of
        None \<Rightarrow> \<not> sw_writer w \<and> sw_grabs w = 0 \<and> sw_readers w = []
      | Some ob \<Rightarrow> ob_reference ob = int ((if sw_writer w then 1 else 0) + sw_grabs w + length (sw_readers w)) \<and>
          0 < ob_reference ob \<and> (sw_writer w \<longleftrightarrow> ob_copy ob \<noteq> None))"

lemma copies_ok_cong: "mset hs = mset hs' \<Longrightarrow> copies_ok st hs = copies_ok st hs'"
  by (simp add: copies_ok_def holders_def flip: set_mset_mset)

lemma copies_ok_obj [simp]: "copies_ok (st\<lparr>st_obj := ob\<rparr>) hs = copies_ok st hs"
  by (simp add: copies_ok_def)

lemma copies_ok_None [simp]: "copies_ok st (None # hs) = copies_ok st hs"
  by (simp add: copies_ok_def holders_def)

lemma live_copy_ok:
  assumes "copies_ok st hs" "Some c \<in> set hs"
  shows "c < length (st_copies st)" "live_copy c st = Some (st_copies st ! c)" "cp_alive (st_copies st ! c)"
    "cp_reference (st_copies st ! c) = int (holders hs c)" "0 < holders hs c"
proof -
  show l: "c < length (st_copies st)" using assms by (simp add: copies_ok_def)
  show h: "0 < holders hs c" using assms(2) by (simp add: holders_def)
  with l assms(1) show a: "cp_alive (st_copies st ! c)" "cp_reference (st_copies st ! c) = int (holders hs c)"
    by (simp_all add: copies_ok_def)
  with l show "live_copy c st = Some (st_copies st ! c)" by (simp add: live_copy_def)
qed

lemma dead_update:
  assumes "c < length xs" "\<not> P (xs ! c)" "P y" "f y = f (xs ! c)"
  shows "mset (map f (filter P (xs[c := y]))) = mset (map f (filter P xs)) + {#f (xs ! c)#}"
  using assms
proof (induction xs arbitrary: c)
  case (Cons x xs)
  then show ?case by (cases c) auto
qed simp

lemma alive_update:
  assumes "c < length xs" "\<not> P (xs ! c)" "\<not> P y"
  shows "filter P (xs[c := y]) = filter P xs"
  using assms
proof (induction xs arbitrary: c)
  case (Cons x xs)
  then show ?case by (cases c) auto
qed simp

text \<open>Giving back one reference.\<close>

lemma releasecopy_ok:
  assumes "copies_ok st (oc # hs)"
  shows "\<exists>st'. stm_releasecopy oc st = Some st' \<and> copies_ok st' hs \<and> st_obj st' = st_obj st"
proof (cases oc)
  case None
  with assms show ?thesis by (simp add: stm_releasecopy_def)
next
  case (Some c)
  have "Some c \<in> set (oc # hs)" using Some by simp
  note l = live_copy_ok [OF assms this]
  let ?x = "st_copies st ! c"
  have h: "holders (oc # hs) c = Suc (holders hs c)" "d \<noteq> c \<Longrightarrow> holders (oc # hs) d = holders hs d" for d
    using Some by (simp_all add: holders_def)
  show ?thesis
  proof (cases "cp_reference ?x \<le> 1")
    case True
    then have z: "holders hs c = 0" using l(4) h(1) Some by simp
    let ?y = "?x\<lparr>cp_reference := cp_reference ?x - 1, cp_alive := False\<rparr>"
    let ?st = "st\<lparr>st_copies := (st_copies st)[c := ?y], st_freed := st_freed st @ [cp_msg ?x]\<rparr>"
    have "mset (st_freed ?st) = mset (map cp_msg (filter (\<lambda>x. \<not> cp_alive x) (st_copies ?st)))"
      using assms l dead_update [OF l(1), where P = "\<lambda>x. \<not> cp_alive x" and y = ?y and f = cp_msg] by (simp add: copies_ok_def)
    moreover have "cp_alive (st_copies ?st ! d) = (0 < holders hs d) \<and>
        (0 < holders hs d \<longrightarrow> cp_reference (st_copies ?st ! d) = int (holders hs d))" if "d < length (st_copies ?st)" for d
      using that assms h(2) [of d] z by (cases "d = c") (auto simp: copies_ok_def)
    ultimately have "copies_ok ?st hs" using assms by (simp add: copies_ok_def)
    with True l Some show ?thesis by (simp add: stm_releasecopy_def Let_def)
  next
    case False
    then have z: "0 < holders hs c" using l(4) h(1) Some by simp
    let ?y = "?x\<lparr>cp_reference := cp_reference ?x - 1\<rparr>"
    let ?st = "st\<lparr>st_copies := (st_copies st)[c := ?y]\<rparr>"
    have "mset (st_freed ?st) = mset (map cp_msg (filter (\<lambda>x. \<not> cp_alive x) (st_copies ?st)))"
      using assms l alive_update [OF l(1), of "\<lambda>x. \<not> cp_alive x" ?y] by (simp add: copies_ok_def)
    moreover have "cp_alive (st_copies ?st ! d) = (0 < holders hs d) \<and>
        (0 < holders hs d \<longrightarrow> cp_reference (st_copies ?st ! d) = int (holders hs d))" if "d < length (st_copies ?st)" for d
      using that assms h(1) h(2) [of d] z l by (cases "d = c") (auto simp: copies_ok_def)
    ultimately have "copies_ok ?st hs" using assms by (simp add: copies_ok_def)
    with False l Some show ?thesis by (simp add: stm_releasecopy_def Let_def)
  qed
qed

text \<open>Taking one reference more to a version that somebody holds.\<close>

lemma take_ok:
  assumes "copies_ok st hs" "Some c \<in> set hs"
  shows "copies_ok (st\<lparr>st_copies := (st_copies st)[c := (st_copies st ! c)\<lparr>cp_reference := cp_reference (st_copies st ! c) + 1\<rparr>]\<rparr>)
    (Some c # hs)"
proof -
  note l = live_copy_ok [OF assms]
  have h: "holders (Some c # hs) c = Suc (holders hs c)" "d \<noteq> c \<Longrightarrow> holders (Some c # hs) d = holders hs d" for d
    by (simp_all add: holders_def)
  let ?y = "(st_copies st ! c)\<lparr>cp_reference := cp_reference (st_copies st ! c) + 1\<rparr>"
  let ?st = "st\<lparr>st_copies := (st_copies st)[c := ?y]\<rparr>"
  have "cp_alive (st_copies ?st ! d) = (0 < holders (Some c # hs) d) \<and>
      (0 < holders (Some c # hs) d \<longrightarrow> cp_reference (st_copies ?st ! d) = int (holders (Some c # hs) d))"
    if "d < length (st_copies ?st)" for d
    using that assms(1) h l by (cases "d = c") (auto simp: copies_ok_def)
  moreover have "mset (st_freed ?st) = mset (map cp_msg (filter (\<lambda>x. \<not> cp_alive x) (st_copies ?st)))"
    using assms(1) l alive_update [OF l(1), of "\<lambda>x. \<not> cp_alive x" ?y] by (simp add: copies_ok_def)
  ultimately show ?thesis using assms(1) l(1) by (simp add: copies_ok_def)
qed

text \<open>A new version, held by the object.\<close>

lemma newcopy_ok:
  assumes "copies_ok st hs" "stm_newcopy msg sz st = (c, st')"
  shows "copies_ok st' (Some c # hs)" "st_obj st' = st_obj st" "c = length (st_copies st)"
proof -
  show c: "c = length (st_copies st)" "st_obj st' = st_obj st" using assms(2) by (auto simp: stm_newcopy_def)
  have "Some (length (st_copies st)) \<notin> set hs" using assms(1) by (auto simp: copies_ok_def)
  then have "holders hs (length (st_copies st)) = 0" by (simp add: holders_def)
  then show "copies_ok st' (Some c # hs)"
    using assms c by (auto simp: copies_ok_def stm_newcopy_def holders_def nth_append less_Suc_eq)
qed


subsection \<open>Every operation keeps the counts right\<close>

lemma copies_ok_swap: "copies_ok st (a # b # hs) = copies_ok st (b # a # hs)"
  by (rule copies_ok_cong) simp

lemma mset_update_front: "i < length rs \<Longrightarrow> mset (y # rs) = mset (rs ! i # rs[i := y])"
  by (simp add: mset_update nth_mem_mset)

lemma mset_remove_nth: "i < length rs \<Longrightarrow> mset (rs ! i # remove_nth i rs) = mset rs"
  using id_take_nth_drop [of i rs] by (metis remove_nth_def mset.simps(2) mset_append union_mset_add_mset_right)

lemma length_remove_nth: "i < length rs \<Longrightarrow> Suc (length (remove_nth i rs)) = length rs"
  by (simp add: remove_nth_def)

lemma copy_obj_ok:
  assumes "copies_ok st (current st # rs)" "st_obj st = Some ob"
  shows "\<exists>st'. stm_copy_obj st = Some (ob_copy ob, st') \<and> copies_ok st' (ob_copy ob # current st' # rs) \<and> st_obj st' = Some ob"
proof (cases "ob_copy ob")
  case None
  with assms show ?thesis by (simp add: stm_copy_obj_def current_def)
next
  case (Some c)
  then have c: "Some c \<in> set (current st # rs)" using assms(2) by (simp add: current_def)
  from live_copy_ok [OF assms(1) c] take_ok [OF assms(1) c] assms(2) Some show ?thesis
    by (simp add: stm_copy_obj_def current_def)
qed

lemma lread_ok:
  assumes "copies_ok st (current st # rs)" "st_obj st = Some ob" "i < length rs"
  shows "\<exists>n c st'. lread (rs ! i) st = Some (n, c, st') \<and> copies_ok st' (current st' # rs[i := c]) \<and> st_obj st' = Some ob"
proof -
  from copy_obj_ok [OF assms(1,2)] obtain st1 where
    st1: "stm_copy_obj st = Some (ob_copy ob, st1)" "copies_ok st1 (ob_copy ob # current st1 # rs)" "st_obj st1 = Some ob" by blast
  show ?thesis
  proof (cases "ob_copy ob = rs ! i")
    case True
    from releasecopy_ok [OF st1(2)] obtain st2 where
      "stm_releasecopy (ob_copy ob) st1 = Some st2" "copies_ok st2 (current st1 # rs)" "st_obj st2 = Some ob" using st1(3) by auto
    with True st1 assms(3) show ?thesis by (auto simp: lread_def current_def)
  next
    case False
    have "mset (ob_copy ob # current st1 # rs) = mset (rs ! i # current st1 # rs[i := ob_copy ob])"
      using mset_update_front [OF assms(3), of "ob_copy ob"] by simp
    from releasecopy_ok [OF iffD1 [OF copies_ok_cong [OF this] st1(2)]] obtain st2 where
      "stm_releasecopy (rs ! i) st1 = Some st2" "copies_ok st2 (current st1 # rs[i := ob_copy ob])" "st_obj st2 = Some ob"
      using st1(3) by auto
    with False st1 show ?thesis by (auto simp: lread_def current_def)
  qed
qed

lemma update_ok:
  assumes "copies_ok st (current st # rs)" "st_obj st = Some ob"
  shows "\<exists>st' c. stm_update msg sz st = Some st' \<and> copies_ok st' (current st' # rs) \<and> st_obj st' = Some (ob\<lparr>ob_copy := Some c\<rparr>)"
proof -
  obtain c st1 where n: "stm_newcopy msg sz st = (c, st1)" by fastforce
  note k = newcopy_ok [OF assms(1) n]
  have "copies_ok (st1\<lparr>st_obj := Some (ob\<lparr>ob_copy := Some c\<rparr>)\<rparr>) (ob_copy ob # Some c # rs)"
    using k(1) assms(2) by (simp add: current_def copies_ok_swap)
  from releasecopy_ok [OF this] obtain st2 where "stm_releasecopy (ob_copy ob) (st1\<lparr>st_obj := Some (ob\<lparr>ob_copy := Some c\<rparr>)\<rparr>) = Some st2"
    "copies_ok st2 (Some c # rs)" "st_obj st2 = Some (ob\<lparr>ob_copy := Some c\<rparr>)" by auto
  with n k(2) assms(2) show ?thesis by (auto simp: stm_update_def current_def)
qed

lemma release_ok:
  assumes "copies_ok st (current st # rs)" "st_obj st = Some ob" "ob_copy ob \<noteq> None"
  shows "\<exists>st'. stm_release st = Some st' \<and> copies_ok st' (current st' # rs) \<and>
    st_obj st' = (if 1 < ob_reference ob then Some (ob\<lparr>ob_copy := None, ob_reference := ob_reference ob - 1\<rparr>) else None)"
proof -
  from assms(1,2) have "copies_ok st (ob_copy ob # rs)" by (simp add: current_def)
  from releasecopy_ok [OF this] obtain st' where "stm_releasecopy (ob_copy ob) st = Some st'" "copies_ok st' rs" by blast
  with assms show ?thesis by (auto simp: stm_release_def current_def)
qed

lemma deletereader_ok:
  assumes "copies_ok st (current st # rs)" "st_obj st = Some ob" "i < length rs" "ob_reference ob = 1 \<Longrightarrow> ob_copy ob = None"
  shows "\<exists>st'. ldeletereader (rs ! i) st = Some st' \<and> copies_ok st' (current st' # remove_nth i rs) \<and>
    st_obj st' = (if ob_reference ob = 1 then None else Some (ob\<lparr>ob_reference := ob_reference ob - 1\<rparr>))"
proof -
  let ?ob = "if ob_reference ob = 1 then None else Some (ob\<lparr>ob_reference := ob_reference ob - 1\<rparr>)"
  let ?st = "st\<lparr>st_obj := ?ob\<rparr>"
  have "stm_releasereader st = Some ?st" using assms(2,4) by (simp add: stm_releasereader_def)
  moreover have "current ?st = current st" using assms(2,4) by (simp add: current_def)
  moreover have "copies_ok ?st (rs ! i # current st # remove_nth i rs)"
    using assms(1) iffD1 [OF copies_ok_cong, of "current st # rs" "rs ! i # current st # remove_nth i rs"]
      mset_remove_nth [OF assms(3)] by simp
  ultimately show ?thesis using releasecopy_ok [of ?st "rs ! i" "current st # remove_nth i rs"]
    by (auto simp: ldeletereader_def current_def)
qed

lemma stm_inv_obj:
  assumes "stm_inv w" "sw_writer w \<or> 0 < sw_grabs w \<or> sw_readers w \<noteq> []"
  obtains ob where "st_obj (sw_stm w) = Some ob" "copies_ok (sw_stm w) (current (sw_stm w) # sw_readers w)"
    "ob_reference ob = int ((if sw_writer w then 1 else 0) + sw_grabs w + length (sw_readers w))"
    "sw_writer w \<longleftrightarrow> ob_copy ob \<noteq> None"
  using assms by (auto simp: stm_inv_def split: option.splits)

lemma stm_do_inv:
  assumes "stm_inv w" "stm_allowed a w"
  shows "\<exists>w'. stm_do a w = Some w' \<and> stm_inv w'"
proof -
  have "sw_writer w \<or> 0 < sw_grabs w \<or> sw_readers w \<noteq> []" using assms(2) by (cases a) auto
  from stm_inv_obj [OF assms(1) this] obtain ob where ob: "st_obj (sw_stm w) = Some ob"
    "copies_ok (sw_stm w) (current (sw_stm w) # sw_readers w)"
    "ob_reference ob = int ((if sw_writer w then 1 else 0) + sw_grabs w + length (sw_readers w))"
    "sw_writer w \<longleftrightarrow> ob_copy ob \<noteq> None" by metis
  show ?thesis
  proof (cases a)
    case Grab
    with ob assms(2) show ?thesis by (auto simp: stm_grab_def stm_inv_def current_def)
  next
    case NewReader
    have "copies_ok (sw_stm w) (current (sw_stm w) # sw_readers w @ [None])"
      using ob(2) copies_ok_cong [of "None # current (sw_stm w) # sw_readers w" "current (sw_stm w) # sw_readers w @ [None]"] by simp
    with NewReader ob assms(2) show ?thesis by (auto simp: stm_inv_def)
  next
    case (Update msg sz)
    obtain st' c where "stm_update msg sz (sw_stm w) = Some st'" "copies_ok st' (current st' # sw_readers w)"
      "st_obj st' = Some (ob\<lparr>ob_copy := Some c\<rparr>)" using update_ok [OF ob(2,1), of msg sz] by blast
    with Update ob assms(2) show ?thesis by (auto simp: stm_inv_def)
  next
    case (ReadBy i)
    then have "i < length (sw_readers w)" using assms(2) by simp
    from lread_ok [OF ob(2,1) this] obtain n c st' where "lread (sw_readers w ! i) (sw_stm w) = Some (n, c, st')"
      "copies_ok st' (current st' # (sw_readers w)[i := c])" "st_obj st' = Some ob" by blast
    with ReadBy ob(1,3,4) \<open>i < length (sw_readers w)\<close> show ?thesis by (auto simp: stm_inv_def)
  next
    case (DeleteReader i)
    then have i: "i < length (sw_readers w)" using assms(2) by simp
    then have l: "length (sw_readers w) = Suc (length (remove_nth i (sw_readers w)))" by (simp add: length_remove_nth)
    then have "ob_reference ob = 1 \<Longrightarrow> ob_copy ob = None" using ob(3,4) by (simp split: if_splits)
    from deletereader_ok [OF ob(2,1) i this] obtain st' where st': "ldeletereader (sw_readers w ! i) (sw_stm w) = Some st'"
      "copies_ok st' (current st' # remove_nth i (sw_readers w))"
      "st_obj st' = (if ob_reference ob = 1 then None else Some (ob\<lparr>ob_reference := ob_reference ob - 1\<rparr>))" by blast
    have "stm_inv (w\<lparr>sw_stm := st', sw_readers := remove_nth i (sw_readers w)\<rparr>)"
    proof (cases "ob_reference ob = 1")
      case True
      with ob(3) l have w: "\<not> sw_writer w" and n: "int (sw_grabs w) + int (length (remove_nth i (sw_readers w))) = 0"
        by (simp_all split: if_splits)
      from n have "sw_grabs w = 0" "length (remove_nth i (sw_readers w)) = 0" by linarith+
      with True st' w show ?thesis by (simp add: stm_inv_def)
    next
      case False
      with ob(3,4) l st' show ?thesis by (auto simp: stm_inv_def)
    qed
    with DeleteReader st'(1) show ?thesis by simp
  next
    case DeleteWriter
    then have "ob_copy ob \<noteq> None" using ob assms(2) by simp
    from release_ok [OF ob(2,1) this] obtain st' where st': "stm_release (sw_stm w) = Some st'"
      "copies_ok st' (current st' # sw_readers w)"
      "st_obj st' = (if 1 < ob_reference ob then Some (ob\<lparr>ob_copy := None, ob_reference := ob_reference ob - 1\<rparr>) else None)" by blast
    have "sw_writer w" using DeleteWriter assms(2) by simp
    with ob(3) have r: "ob_reference ob = 1 + (int (sw_grabs w) + int (length (sw_readers w)))" by simp
    have "stm_inv (w\<lparr>sw_stm := st', sw_writer := False\<rparr>)"
    proof (cases "1 < ob_reference ob")
      case True
      with r st' show ?thesis by (simp add: stm_inv_def)
    next
      case False
      with r have "sw_grabs w = 0" "length (sw_readers w) = 0" by linarith+
      with False st' show ?thesis by (simp add: stm_inv_def)
    qed
    with DeleteWriter st'(1) show ?thesis by simp
  qed
qed

lemma stm_start_inv: "stm_inv (stm_start msg sz)"
  by (simp add: stm_start_def stm_inv_def stm_new_def stm_newcopy_def current_def copies_ok_def holders_def)

lemma stm_reach_inv: "stm_reach w \<Longrightarrow> stm_inv w"
proof (induction rule: stm_reach.induct)
  case stm_begin
  show ?case by (rule stm_start_inv)
next
  case (stm_step w a w')
  with stm_do_inv show ?case by force
qed

text \<open>Nobody left: the object and all versions are gone.\<close>

lemma stm_all_freed:
  assumes "stm_inv w" "\<not> sw_writer w" "sw_grabs w = 0" "sw_readers w = []"
  shows "st_obj (sw_stm w) = None" "mset (st_freed (sw_stm w)) = mset (map cp_msg (st_copies (sw_stm w)))"
proof -
  show n: "st_obj (sw_stm w) = None" using assms by (auto simp: stm_inv_def split: option.splits)
  then have k: "copies_ok (sw_stm w) []" using assms by (simp add: stm_inv_def current_def)
  then have "filter (\<lambda>x. \<not> cp_alive x) (st_copies (sw_stm w)) = st_copies (sw_stm w)"
    by (simp add: copies_ok_def holders_def filter_id_conv all_set_conv_all_nth)
  with k show "mset (st_freed (sw_stm w)) = mset (map cp_msg (st_copies (sw_stm w)))" by (simp add: copies_ok_def)
qed


text \<open>A reader reads the first version; the second is published and the writer leaves; the reader reads it never and leaves.\<close>

lemma stm_example:
  "\<exists>w. stm_reach w \<and> \<not> sw_writer w \<and> sw_grabs w = 0 \<and> sw_readers w = [] \<and> st_freed (sw_stm w) = [20, 10]"
proof -
  note d = stm_start_def stm_new_def stm_newcopy_def stm_grab_def lread_def stm_copy_obj_def live_copy_def stm_releasecopy_def
    stm_update_def stm_release_def ldeletereader_def stm_releasereader_def remove_nth_def
  have s: "stm_reach w \<Longrightarrow> stm_allowed a w \<Longrightarrow> stm_reach (the (stm_do a w))" for a w
    using stm_do_inv [OF stm_reach_inv] stm_step by fastforce
  have 0: "stm_reach (stm_start 10 1)" by (rule stm_begin)
  have 1: "stm_reach (the (stm_do Grab (stm_start 10 1)))" (is "stm_reach ?w1") by (rule s [OF 0]) (simp add: d)
  have 2: "stm_reach (the (stm_do NewReader ?w1))" (is "stm_reach ?w2") by (rule s [OF 1]) (simp add: d)
  have 3: "stm_reach (the (stm_do (ReadBy 0) ?w2))" (is "stm_reach ?w3") by (rule s [OF 2]) (simp add: d)
  have 4: "stm_reach (the (stm_do (Update 20 1) ?w3))" (is "stm_reach ?w4") by (rule s [OF 3]) (simp add: d)
  have 5: "stm_reach (the (stm_do DeleteWriter ?w4))" (is "stm_reach ?w5") by (rule s [OF 4]) (simp add: d)
  have 6: "stm_reach (the (stm_do (DeleteReader 0) ?w5))" (is "stm_reach ?w6") by (rule s [OF 5]) (simp add: d)
  from 6 show ?thesis by (intro exI [of _ ?w6]) (simp add: d)
qed


end
