(* ===== verification/Netpack.thy ===== *)
theory Netpack
  imports Framing
begin

section \<open>Packages with a 16-bit length (lualib-src/lua-netpack.c)\<close>

text \<open>
  The filter of a gate written in Lua: blocks of many connections arrive in any order and are cut into packages. An incomplete
  package waits in a hash table under its connection, complete ones go into a growing ring or, when a block ends
  with its only package, directly to the caller.

  Blocks and packages are values here. The cells of a package that have not been filled are \<open>None\<close>. The Lua stack of \<open>filter\<close>
  and \<open>pop\<close> is the queue in its first slot, which is nil at first. The chains of the table are lists.
\<close>

definition QUEUESIZE :: nat where "QUEUESIZE = 1024"
definition HASHSIZE :: nat where "HASHSIZE = 4096"

record netpack =
  np_id :: u32
  np_size :: nat
  np_buffer :: "u8 option list"

record uncomplete =
  un_pack :: netpack
  un_read :: int
  un_header :: int

record npqueue =
  nq_cap :: nat
  nq_head :: nat
  nq_tail :: nat
  nq_hash :: "uncomplete list list"
  nq_queue :: "netpack option list"

subsection \<open>The table of incomplete packages\<close>

definition hash_fd :: "u32 \<Rightarrow> nat" where
  "hash_fd fd = unat (signed_drop_bit 24 fd + signed_drop_bit 12 fd + fd) mod HASHSIZE"

fun unlink :: "u32 \<Rightarrow> uncomplete list \<Rightarrow> uncomplete option \<times> uncomplete list" where
  "unlink fd [] = (None, [])"
| "unlink fd (uc # us) = (if np_id (un_pack uc) = fd then (Some uc, us) else let (r, us') = unlink fd us in (r, uc # us'))"

definition find_uncomplete :: "npqueue option \<Rightarrow> u32 \<Rightarrow> (uncomplete option \<times> npqueue option) option" where
  "find_uncomplete st fd =
     (case st of
        None \<Rightarrow> Some (None, None)
      | Some q \<Rightarrow> do {
          us \<leftarrow> arr_get (nq_hash q) (hash_fd fd);
          let (r, us') = unlink fd us;
          Some (r, Some (q\<lparr>nq_hash := (nq_hash q)[hash_fd fd := us']\<rparr>)) })"

definition get_queue :: "npqueue option \<Rightarrow> npqueue" where
  "get_queue st =
     (case st of
        Some q \<Rightarrow> q
      | None \<Rightarrow> \<lparr>nq_cap = QUEUESIZE, nq_head = 0, nq_tail = 0, nq_hash = replicate HASHSIZE [], nq_queue = replicate QUEUESIZE None\<rparr>)"

definition link_uncomplete :: "uncomplete \<Rightarrow> npqueue \<Rightarrow> npqueue option" where
  "link_uncomplete uc q = do {
     let h = hash_fd (np_id (un_pack uc));
     us \<leftarrow> arr_get (nq_hash q) h;
     Some (q\<lparr>nq_hash := (nq_hash q)[h := uc # us]\<rparr>) }"

text \<open>\<open>save_uncomplete\<close> with the fields the caller sets.\<close>

definition save_uncomplete :: "npqueue option \<Rightarrow> u32 \<Rightarrow> int \<Rightarrow> int \<Rightarrow> nat \<Rightarrow> u8 option list \<Rightarrow> npqueue option option" where
  "save_uncomplete st fd rd header sz buffer =
     map_option Some (link_uncomplete \<lparr>un_pack = \<lparr>np_id = fd, np_size = sz, np_buffer = buffer\<rparr>, un_read = rd, un_header = header\<rparr>
       (get_queue st))"

subsection \<open>The ring of complete packages\<close>

definition np_expand_queue :: "npqueue \<Rightarrow> npqueue" where
  "np_expand_queue q = \<lparr>nq_cap = nq_cap q + QUEUESIZE, nq_head = 0, nq_tail = nq_cap q, nq_hash = nq_hash q,
     nq_queue = map (\<lambda>i. nq_queue q ! ((nq_head q + i) mod nq_cap q)) [0..<nq_cap q] @ replicate QUEUESIZE None\<rparr>"

definition push_pack :: "netpack \<Rightarrow> npqueue option \<Rightarrow> npqueue option option" where
  "push_pack np st = do {
     let q = get_queue st;
     a \<leftarrow> arr_set (nq_queue q) (nq_tail q) (Some np);
     let t = Suc (nq_tail q);
     let t' = (if nq_cap q \<le> t then t - nq_cap q else t);
     let q1 = q\<lparr>nq_queue := a, nq_tail := t'\<rparr>;
     Some (Some (if nq_head q1 = nq_tail q1 then np_expand_queue q1 else q1)) }"

definition push_data :: "npqueue option \<Rightarrow> u32 \<Rightarrow> u8 option list \<Rightarrow> nat \<Rightarrow> npqueue option option" where
  "push_data st fd buffer sz = push_pack \<lparr>np_id = fd, np_size = sz, np_buffer = buffer\<rparr> st"

definition lpop :: "npqueue option \<Rightarrow> (netpack option \<times> npqueue option) option" where
  "lpop st =
     (case st of
        None \<Rightarrow> Some (None, None)
      | Some q \<Rightarrow>
          if nq_head q = nq_tail q then Some (None, Some q)
          else do {
            cell \<leftarrow> arr_get (nq_queue q) (nq_head q);
            np \<leftarrow> cell;
            let h = Suc (nq_head q);
            Some (Some np, Some (q\<lparr>nq_head := (if nq_cap q \<le> h then 0 else h)\<rparr>)) })"

subsection \<open>Cutting the blocks\<close>

definition read_size :: "bytes \<Rightarrow> nat option" where
  "read_size b = do { x \<leftarrow> arr_get b 0; y \<leftarrow> arr_get b 1; Some (nat (push_bit 8 (uint x) OR uint y)) }"

definition memcpy_at :: "nat \<Rightarrow> bytes \<Rightarrow> u8 option list \<Rightarrow> u8 option list option" where
  "memcpy_at off src dst = do {
     c_assert (off + length src \<le> length dst);
     Some (take off dst @ map Some src @ drop (off + length src) dst) }"

function push_more :: "u32 \<Rightarrow> bytes \<Rightarrow> npqueue option \<Rightarrow> npqueue option option" where
  "push_more fd buffer st =
     (if length buffer = 1 then save_uncomplete st fd (- 1) (uint (hd buffer)) 0 []
      else do {
        pack_size \<leftarrow> read_size buffer;
        let b = drop 2 buffer;
        if length b < pack_size then do {
          m \<leftarrow> memcpy_at 0 b (replicate pack_size None);
          save_uncomplete st fd (int (length b)) 0 pack_size m }
        else do {
          st1 \<leftarrow> push_data st fd (map Some (take pack_size b)) pack_size;
          let b' = drop pack_size b;
          if b' \<noteq> [] then push_more fd b' st1 else Some st1 } })"
  by pat_completeness auto
termination
  by (relation "measure (\<lambda>(fd, buffer, st). length buffer)") (auto simp: read_size_def arr_get_def split: if_splits)

declare push_more.simps [simp del]

definition close_uncomplete :: "npqueue option \<Rightarrow> u32 \<Rightarrow> npqueue option option" where
  "close_uncomplete st fd = do { (uc, st1) \<leftarrow> find_uncomplete st fd; Some st1 }"

datatype np_result =
    NpNothing
  | NpData u32 "u8 option list" nat
  | NpMore
  | NpError u32 string
  | NpOpen u32 string
  | NpClose u32
  | NpWarning u32 u32

definition un_start :: "uncomplete \<Rightarrow> bytes \<Rightarrow> (uncomplete \<times> bytes) option" where
  "un_start uc buffer =
     (if un_read uc < 0 then do {
        c_assert (un_read uc = - 1);
        b \<leftarrow> arr_get buffer 0;
        let pack_size = nat (uint b OR push_bit 8 (un_header uc));
        Some (uc\<lparr>un_pack := (un_pack uc)\<lparr>np_size := pack_size, np_buffer := replicate pack_size None\<rparr>, un_read := 0\<rparr>, drop 1 buffer) }
      else Some (uc, buffer))"

definition fill_uncomplete :: "u32 \<Rightarrow> uncomplete \<Rightarrow> bytes \<Rightarrow> npqueue option \<Rightarrow> (np_result \<times> npqueue option) option" where
  "fill_uncomplete fd uc0 buffer0 st = do {
     (uc, buffer) \<leftarrow> un_start uc0 buffer0;
     let need = int (np_size (un_pack uc)) - un_read uc;
     if int (length buffer) < need then do {
       m \<leftarrow> memcpy_at (nat (un_read uc)) buffer (np_buffer (un_pack uc));
       q \<leftarrow> st;
       q1 \<leftarrow> link_uncomplete (uc\<lparr>un_pack := (un_pack uc)\<lparr>np_buffer := m\<rparr>, un_read := un_read uc + int (length buffer)\<rparr>) q;
       Some (NpNothing, Some q1) }
     else do {
       m \<leftarrow> memcpy_at (nat (un_read uc)) (take (nat need) buffer) (np_buffer (un_pack uc));
       let rest = drop (nat need) buffer;
       if rest = [] then Some (NpData fd m (np_size (un_pack uc)), st)
       else do {
         st1 \<leftarrow> push_data st fd m (np_size (un_pack uc));
         st2 \<leftarrow> push_more fd rest st1;
         Some (NpMore, st2) } } }"

definition filter_data1 :: "npqueue option \<Rightarrow> u32 \<Rightarrow> bytes \<Rightarrow> (np_result \<times> npqueue option) option" where
  "filter_data1 st0 fd buffer = do {
     (r, st) \<leftarrow> find_uncomplete st0 fd;
     case r of
       Some uc \<Rightarrow> fill_uncomplete fd uc buffer st
     | None \<Rightarrow>
         if length buffer = 1 then do {
           st1 \<leftarrow> save_uncomplete st fd (- 1) (uint (hd buffer)) 0 [];
           Some (NpNothing, st1) }
         else do {
           pack_size \<leftarrow> read_size buffer;
           let b = drop 2 buffer;
           if length b < pack_size then do {
             m \<leftarrow> memcpy_at 0 b (replicate pack_size None);
             st1 \<leftarrow> save_uncomplete st fd (int (length b)) 0 pack_size m;
             Some (NpNothing, st1) }
           else if length b = pack_size then Some (NpData fd (map Some b) pack_size, st)
           else do {
             st1 \<leftarrow> push_data st fd (map Some (take pack_size b)) pack_size;
             st2 \<leftarrow> push_more fd (drop pack_size b) st1;
             Some (NpMore, st2) } } }"

subsection \<open>The interface to Lua\<close>

datatype np_type = NT_DATA | NT_CONNECT | NT_CLOSE | NT_ACCEPT | NT_ERROR | NT_UDP | NT_WARNING

text \<open>A socket message: its block, or the text behind the structure when there is none.\<close>

record np_message =
  nm_type :: np_type
  nm_id :: u32
  nm_ud :: u32
  nm_buffer :: "bytes option"
  nm_text :: string

text \<open>A block that comes with a text would be pushed with the length -1.\<close>

definition pushstring :: "np_message \<Rightarrow> string option" where
  "pushstring m = do { c_assert (nm_buffer m = None); Some (nm_text m) }"

definition lfilter :: "npqueue option \<Rightarrow> np_message \<Rightarrow> (np_result \<times> npqueue option) option" where
  "lfilter st m =
     (case nm_type m of
        NT_DATA \<Rightarrow> do {
          b \<leftarrow> nm_buffer m;
          c_assert (unat (nm_ud m) \<le> length b);
          filter_data1 st (nm_id m) (take (unat (nm_ud m)) b) }
      | NT_CONNECT \<Rightarrow> Some (NpNothing, st)
      | NT_CLOSE \<Rightarrow> do { st1 \<leftarrow> close_uncomplete st (nm_id m); Some (NpClose (nm_id m), st1) }
      | NT_ACCEPT \<Rightarrow> do { t \<leftarrow> pushstring m; Some (NpOpen (nm_ud m) t, st) }
      | NT_ERROR \<Rightarrow> do { st1 \<leftarrow> close_uncomplete st (nm_id m); t \<leftarrow> pushstring m; Some (NpError (nm_id m) t, st1) }
      | NT_WARNING \<Rightarrow> Some (NpWarning (nm_id m) (nm_ud m), st)
      | NT_UDP \<Rightarrow> Some (NpNothing, st))"

text \<open>\<open>lclear\<close>: the packages that are freed, and the empty queue.\<close>

definition lclear :: "npqueue option \<Rightarrow> (netpack list \<times> npqueue option) option" where
  "lclear st =
     (case st of
        None \<Rightarrow> Some ([], None)
      | Some q \<Rightarrow> do {
          let tail = (if nq_tail q < nq_head q then nq_tail q + nq_cap q else nq_tail q);
          nps \<leftarrow> those (map (\<lambda>i. do { cell \<leftarrow> arr_get (nq_queue q) (i mod nq_cap q); cell }) [nq_head q..<tail]);
          Some (map un_pack (concat (nq_hash q)) @ nps,
            Some (q\<lparr>nq_hash := replicate HASHSIZE [], nq_head := 0, nq_tail := 0\<rparr>)) })"

definition write_size :: "nat \<Rightarrow> bytes" where
  "write_size len = [word_of_int (drop_bit 8 (int len) AND 0xff), word_of_int (int len AND 0xff)]"

definition lpack :: "bytes \<Rightarrow> bytes option" where
  "lpack p = (if 0x10000 \<le> length p then None else Some (write_size (length p) @ p))"


subsection \<open>The length in front of a package\<close>

definition be16 :: "bytes \<Rightarrow> nat" where
  "be16 h = nat (push_bit 8 (uint (h ! 0)) OR uint (h ! 1))"

lemma read_size_be16: "2 \<le> length b \<Longrightarrow> read_size b = Some (be16 (take 2 b))"
  by (cases "0 < length b") (auto simp: read_size_def be16_def)

lemma be16_write_size:
  assumes "n < 0x10000"
  shows "be16 (write_size n) = n" "length (write_size n) = 2"
proof -
  have "push_bit 8 (uint (word_of_int (drop_bit 8 (int n) AND 0xff) :: u8)) OR uint (word_of_int (int n AND 0xff) :: u8) = int n"
  proof (rule bit_eqI)
    fix i
    have m: "(0xff :: int) = mask 8" by (simp add: mask_eq_exp_minus_1)
    have "take_bit 16 (int n) = int n" using assms by (intro take_bit_int_eq_self) simp_all
    then have "bit (int n) i \<Longrightarrow> i < 16" by (metis bit_take_bit_iff)
    then show "bit (push_bit 8 (uint (word_of_int (drop_bit 8 (int n) AND 0xff) :: u8)) OR uint (word_of_int (int n AND 0xff) :: u8)) i =
        bit (int n) i"
      by (auto simp: m bit_or_iff bit_push_bit_iff bit_uint_iff bit_and_iff bit_mask_iff bit_drop_bit_eq bit_word_of_int_iff)
  qed
  then show "be16 (write_size n) = n" by (simp add: be16_def write_size_def)
qed (simp add: write_size_def)

subsection \<open>The table is a map\<close>

definition tab :: "npqueue \<Rightarrow> u32 \<Rightarrow> uncomplete option" where
  "tab q fd = find (\<lambda>uc. np_id (un_pack uc) = fd) (nq_hash q ! hash_fd fd)"

definition tab_ok :: "npqueue \<Rightarrow> bool" where
  "tab_ok q \<longleftrightarrow> length (nq_hash q) = HASHSIZE \<and>
     (\<forall>us \<in> set (nq_hash q). distinct (map (np_id \<circ> un_pack) us))"

lemma hash_fd_less: "hash_fd fd < HASHSIZE"
  by (simp add: hash_fd_def HASHSIZE_def)

lemma find_absent: "fd \<notin> set (map (np_id \<circ> un_pack) us) \<Longrightarrow> find (\<lambda>uc. np_id (un_pack uc) = fd) us = None"
  by (induction us) auto

lemma unlink_filter:
  assumes "distinct (map (np_id \<circ> un_pack) us)"
  shows "unlink fd us = (find (\<lambda>uc. np_id (un_pack uc) = fd) us, filter (\<lambda>uc. np_id (un_pack uc) \<noteq> fd) us)"
  using assms
proof (induction us)
  case (Cons u us)
  then have "np_id (un_pack u) = fd \<Longrightarrow> filter (\<lambda>uc. np_id (un_pack uc) \<noteq> fd) us = us"
    by (auto simp: filter_id_conv) (metis imageI)
  with Cons show ?case by simp
qed simp

lemma find_filter: "find P (filter Q us) = find (\<lambda>u. Q u \<and> P u) us"
  by (induction us) auto

lemma unlink_spec:
  assumes "unlink fd us = (r, us')" "distinct (map (np_id \<circ> un_pack) us)"
  shows "r = find (\<lambda>uc. np_id (un_pack uc) = fd) us" "distinct (map (np_id \<circ> un_pack) us')"
    "find (\<lambda>uc. np_id (un_pack uc) = x) us' = (if x = fd then None else find (\<lambda>uc. np_id (un_pack uc) = x) us)"
proof -
  from assms have u: "r = find (\<lambda>uc. np_id (un_pack uc) = fd) us" "us' = filter (\<lambda>uc. np_id (un_pack uc) \<noteq> fd) us"
    by (simp_all add: unlink_filter)
  show "r = find (\<lambda>uc. np_id (un_pack uc) = fd) us" by (rule u(1))
  show "distinct (map (np_id \<circ> un_pack) us')" using assms(2) by (simp add: u(2) distinct_map_filter)
  show "find (\<lambda>uc. np_id (un_pack uc) = x) us' = (if x = fd then None else find (\<lambda>uc. np_id (un_pack uc) = x) us)"
    unfolding u(2) find_filter by (cases "x = fd") (auto simp: find_None_iff intro: find_cong)
qed

lemma find_uncomplete_spec:
  assumes "tab_ok q"
  shows "\<exists>q'. find_uncomplete (Some q) fd = Some (tab q fd, Some q') \<and> tab_ok q' \<and> tab q' = (tab q)(fd := None) \<and>
    nq_cap q' = nq_cap q \<and> nq_head q' = nq_head q \<and> nq_tail q' = nq_tail q \<and> nq_queue q' = nq_queue q"
proof -
  have h: "hash_fd fd < length (nq_hash q)" using assms hash_fd_less by (simp add: tab_ok_def)
  obtain r us' where u: "unlink fd (nq_hash q ! hash_fd fd) = (r, us')" by fastforce
  have d: "distinct (map (np_id \<circ> un_pack) (nq_hash q ! hash_fd fd))" using assms h nth_mem unfolding tab_ok_def by blast
  note s = unlink_spec [OF u d]
  let ?q = "q\<lparr>nq_hash := (nq_hash q)[hash_fd fd := us']\<rparr>"
  have "tab_ok ?q" using assms s(2) set_update_subset_insert [of "nq_hash q" "hash_fd fd" us'] by (auto simp: tab_ok_def)
  moreover have "tab ?q x = ((tab q)(fd := None)) x" for x
    using s(3) [of x] h by (cases "hash_fd x = hash_fd fd") (auto simp: tab_def)
  ultimately show ?thesis using u h s(1) by (auto simp: find_uncomplete_def tab_def)
qed

lemma link_uncomplete_spec:
  assumes "tab_ok q" "tab q (np_id (un_pack uc)) = None"
  shows "\<exists>q'. link_uncomplete uc q = Some q' \<and> tab_ok q' \<and> tab q' = (tab q)(np_id (un_pack uc) \<mapsto> uc) \<and>
    nq_cap q' = nq_cap q \<and> nq_head q' = nq_head q \<and> nq_tail q' = nq_tail q \<and> nq_queue q' = nq_queue q"
proof -
  let ?h = "hash_fd (np_id (un_pack uc))"
  have h: "?h < length (nq_hash q)" using assms hash_fd_less by (simp add: tab_ok_def)
  let ?us = "uc # nq_hash q ! ?h"
  let ?q = "q\<lparr>nq_hash := (nq_hash q)[?h := ?us]\<rparr>"
  have "distinct (map (np_id \<circ> un_pack) (nq_hash q ! ?h))" using assms h nth_mem unfolding tab_ok_def by blast
  moreover have "np_id (un_pack uc) \<notin> set (map (np_id \<circ> un_pack) (nq_hash q ! ?h))"
    using assms(2) by (auto simp: tab_def find_None_iff)
  ultimately have "tab_ok ?q" using assms(1) set_update_subset_insert [of "nq_hash q" ?h ?us] by (auto simp: tab_ok_def)
  moreover have "tab ?q x = ((tab q)(np_id (un_pack uc) \<mapsto> uc)) x" for x
    using h by (cases "hash_fd x = ?h") (auto simp: tab_def)
  ultimately show ?thesis using h by (auto simp: link_uncomplete_def Let_def)
qed

subsection \<open>What the queue stands for\<close>

text \<open>\<open>un_holds fd uc bs\<close>: the bytes of the connection that wait in \<open>uc\<close>.\<close>

definition un_filled :: "u32 \<Rightarrow> uncomplete \<Rightarrow> bytes \<Rightarrow> bytes \<Rightarrow> bool" where
  "un_filled fd uc h b \<longleftrightarrow> length h = 2 \<and> length b \<le> be16 h \<and> un_read uc = int (length b) \<and>
     un_pack uc = \<lparr>np_id = fd, np_size = be16 h, np_buffer = map Some b @ replicate (be16 h - length b) None\<rparr>"

definition un_holds :: "u32 \<Rightarrow> uncomplete \<Rightarrow> bytes \<Rightarrow> bool" where
  "un_holds fd uc bs \<longleftrightarrow> np_id (un_pack uc) = fd \<and>
     (un_read uc = - 1 \<and> (\<exists>x. bs = [x] \<and> un_header uc = uint x) \<or>
      (\<exists>h b. bs = h @ b \<and> un_filled fd uc h b \<and> length b < be16 h))"

fun tab_holds :: "u32 \<Rightarrow> uncomplete option \<Rightarrow> bytes \<Rightarrow> bool" where
  "tab_holds fd None bs = (bs = [])"
| "tab_holds fd (Some uc) bs = un_holds fd uc bs"

definition np_rep :: "(u32 \<Rightarrow> bytes) \<Rightarrow> npqueue option \<Rightarrow> netpack list \<Rightarrow> bool" where
  "np_rep r st xs \<longleftrightarrow>
     (case st of
        None \<Rightarrow> xs = [] \<and> r = (\<lambda>fd. [])
      | Some q \<Rightarrow> ring_rep (nq_queue q) (nq_cap q) (nq_head q) (nq_tail q) xs \<and> tab_ok q \<and>
          (\<forall>fd. tab_holds fd (tab q fd) (r fd)))"

lemma np_rep_Some: "np_rep r (Some q) xs \<longleftrightarrow> ring_rep (nq_queue q) (nq_cap q) (nq_head q) (nq_tail q) xs \<and> tab_ok q \<and>
    (\<forall>fd. tab_holds fd (tab q fd) (r fd))"
  by (simp add: np_rep_def)

lemma tab_same [simp]: "tab (q\<lparr>nq_queue := a\<rparr>) = tab q" "tab (q\<lparr>nq_tail := t\<rparr>) = tab q" "tab (q\<lparr>nq_head := h\<rparr>) = tab q"
  "tab_ok (q\<lparr>nq_queue := a\<rparr>) = tab_ok q" "tab_ok (q\<lparr>nq_tail := t\<rparr>) = tab_ok q" "tab_ok (q\<lparr>nq_head := h\<rparr>) = tab_ok q"
  by (auto simp: tab_def tab_ok_def)

lemma get_queue_rep: "np_rep r st xs \<Longrightarrow> np_rep r (Some (get_queue st)) xs"
proof (cases st)
  case None
  assume "np_rep r st xs"
  moreover have "tab (get_queue None) fd = None" for fd
    using hash_fd_less by (simp add: tab_def get_queue_def)
  moreover have "tab_ok (get_queue None)" by (simp add: tab_ok_def get_queue_def)
  moreover have "ring_rep (replicate QUEUESIZE None) QUEUESIZE 0 0 []" by (rule ring_rep_empty) (simp_all add: QUEUESIZE_def)
  ultimately show ?thesis using None by (simp add: np_rep_def) (simp add: get_queue_def)
qed (simp add: get_queue_def)

lemma un_holds_ne: "un_holds fd uc bs \<Longrightarrow> bs \<noteq> []"
  by (auto simp: un_holds_def un_filled_def)

lemma push_pack_rep:
  assumes "np_rep r st xs"
  shows "\<exists>st'. push_pack np st = Some st' \<and> np_rep r st' (xs @ [np])"
proof -
  let ?q = "get_queue st"
  from get_queue_rep [OF assms] have k: "ring_rep (nq_queue ?q) (nq_cap ?q) (nq_head ?q) (nq_tail ?q) xs" "tab_ok ?q"
    "\<forall>fd. tab_holds fd (tab ?q fd) (r fd)" by (simp_all add: np_rep_Some)
  note d = ring_repD [OF k(1)]
  let ?t = "Suc (nq_tail ?q) mod nq_cap ?q"
  let ?q1 = "?q\<lparr>nq_queue := (nq_queue ?q)[nq_tail ?q := Some np], nq_tail := ?t\<rparr>"
  have t: "(if nq_cap ?q \<le> Suc (nq_tail ?q) then Suc (nq_tail ?q) - nq_cap ?q else Suc (nq_tail ?q)) = ?t"
    using d(2) by (cases "Suc (nq_tail ?q) = nq_cap ?q") auto
  have p: "push_pack np st = Some (Some (if nq_head ?q = ?t then np_expand_queue ?q1 else ?q1))"
    using d(2,3) t by (simp add: push_pack_def Let_def)
  show ?thesis
  proof (cases "nq_head ?q = ?t")
    case False
    then have "np_rep r (Some ?q1) (xs @ [np])" using k ring_rep_push [OF k(1), of np] by (simp add: np_rep_Some)
    with False p show ?thesis by simp
  next
    case True
    then have full: "Suc (length xs) = nq_cap ?q" using ring_len_full [OF d(1,2)] d(4) by simp
    have "map (\<lambda>i. nq_queue ?q1 ! ((nq_head ?q1 + i) mod nq_cap ?q1)) [0..<nq_cap ?q1] = map Some (xs @ [np])"
      using ring_rep_store [OF k(1), of np] full d(3) by (simp add: ring_def)
    moreover have "ring_rep (map Some (xs @ [np]) @ replicate QUEUESIZE None) (nq_cap ?q + QUEUESIZE) 0 (nq_cap ?q) (xs @ [np])"
      using ring_rep_front [of "xs @ [np]" "nq_cap ?q + QUEUESIZE" "replicate QUEUESIZE None"] full by (simp add: QUEUESIZE_def)
    moreover have "tab (np_expand_queue ?q1) = tab ?q" "tab_ok (np_expand_queue ?q1)" using k(2)
      by (auto simp: tab_def tab_ok_def np_expand_queue_def)
    ultimately have "np_rep r (Some (np_expand_queue ?q1)) (xs @ [np])" using k(3)
      by (simp add: np_rep_Some) (simp add: np_expand_queue_def)
    with True p show ?thesis by simp
  qed
qed

lemma lpop_Nil: "np_rep r st [] \<Longrightarrow> lpop st = Some (None, st)"
  by (auto simp: lpop_def np_rep_def dest!: ring_repD(6) split: option.splits)

lemma lpop_Cons:
  assumes "np_rep r st (x # xs)"
  shows "\<exists>st'. lpop st = Some (Some x, st') \<and> np_rep r st' xs"
proof (cases st)
  case (Some q)
  with assms have k: "ring_rep (nq_queue q) (nq_cap q) (nq_head q) (nq_tail q) (x # xs)" by (simp add: np_rep_Some)
  note d = ring_repD [OF k] ring_rep_pop [OF k]
  have "(if nq_cap q \<le> Suc (nq_head q) then 0 else Suc (nq_head q)) = Suc (nq_head q) mod nq_cap q"
    using d(1) by (rule Suc_mod_wrap)
  with d assms Some show ?thesis by (simp add: lpop_def np_rep_Some Let_def)
qed (use assms in \<open>simp add: np_rep_def\<close>)

interpretation nq: total_fifo push_pack lpop "np_rep r" for r
proof unfold_locales
  show "\<exists>q'. push_pack x q = Some q' \<and> np_rep r q' (xs @ [x])" if "np_rep r q xs" for q xs x
    using push_pack_rep [OF that] .
  show "\<exists>q'. lpop q = Some (None, q') \<and> np_rep r q' []" if "np_rep r q []" for q
    using lpop_Nil [OF that] that by simp
  show "\<exists>q'. lpop q = Some (Some x, q') \<and> np_rep r q' xs" if "np_rep r q (x # xs)" for q x xs
    using lpop_Cons [OF that] .
qed simp

text \<open>Taking and storing an incomplete package.\<close>

lemma find_rep:
  assumes "np_rep r st xs"
  shows "\<exists>uc st'. find_uncomplete st fd = Some (uc, st') \<and> np_rep (r(fd := [])) st' xs \<and>
    (case uc of None \<Rightarrow> r fd = [] | Some u \<Rightarrow> un_holds fd u (r fd) \<and> st' \<noteq> None)"
proof (cases st)
  case None
  with assms show ?thesis by (auto simp: find_uncomplete_def np_rep_def)
next
  case (Some q)
  with assms have k: "ring_rep (nq_queue q) (nq_cap q) (nq_head q) (nq_tail q) xs" "tab_ok q"
    "\<forall>fd. tab_holds fd (tab q fd) (r fd)" by (simp_all add: np_rep_Some)
  from find_uncomplete_spec [OF k(2), of fd] obtain q' where q': "find_uncomplete (Some q) fd = Some (tab q fd, Some q')"
    "tab_ok q'" "tab q' = (tab q)(fd := None)" "nq_cap q' = nq_cap q" "nq_head q' = nq_head q" "nq_tail q' = nq_tail q"
    "nq_queue q' = nq_queue q" by blast
  from k q' have "np_rep (r(fd := [])) (Some q') xs" by (simp add: np_rep_Some)
  moreover have "tab_holds fd (tab q fd) (r fd)" using k(3) by blast
  ultimately show ?thesis using q'(1) Some by (cases "tab q fd") auto
qed

lemma link_rep:
  assumes "np_rep r (Some q) xs" "un_holds fd uc bs" "r fd = []"
  shows "\<exists>q'. link_uncomplete uc q = Some q' \<and> np_rep (r(fd := bs)) (Some q') xs"
proof -
  have i: "np_id (un_pack uc) = fd" using assms(2) by (simp add: un_holds_def)
  from assms(1) have k: "tab_ok q" "\<And>x. tab_holds x (tab q x) (r x)" by (auto simp: np_rep_Some)
  from k(2) [of fd] assms(3) un_holds_ne have "tab q fd = None" by (cases "tab q fd") auto
  with link_uncomplete_spec [of q uc] k(1) i obtain q' where "link_uncomplete uc q = Some q'" "tab_ok q'" "tab q' = (tab q)(fd \<mapsto> uc)"
    "nq_cap q' = nq_cap q" "nq_head q' = nq_head q" "nq_tail q' = nq_tail q" "nq_queue q' = nq_queue q" by auto
  with assms show ?thesis by (simp add: np_rep_Some)
qed

lemma save_rep:
  assumes "np_rep r st xs" "un_holds fd \<lparr>un_pack = \<lparr>np_id = fd, np_size = sz, np_buffer = m\<rparr>, un_read = rd, un_header = hdr\<rparr> bs" "r fd = []"
  shows "\<exists>st'. save_uncomplete st fd rd hdr sz m = Some st' \<and> np_rep (r(fd := bs)) st' xs"
  using link_rep [OF get_queue_rep [OF assms(1)] assms(2,3)] by (auto simp: save_uncomplete_def)

subsection \<open>The blocks are cut into packages\<close>

abbreviation "cut16 \<equiv> cut 2 be16"

definition pack :: "u32 \<Rightarrow> bytes \<Rightarrow> netpack" where
  "pack fd b = \<lparr>np_id = fd, np_size = length b, np_buffer = map Some b\<rparr>"

lemma memcpy_prefix:
  "length b + length c \<le> n \<Longrightarrow> memcpy_at (length b) c (map Some b @ replicate (n - length b) None) =
     Some (map Some (b @ c) @ replicate (n - length (b @ c)) None)"
  by (simp add: memcpy_at_def)

lemma un_holds_one: "un_holds fd \<lparr>un_pack = \<lparr>np_id = fd, np_size = n, np_buffer = m\<rparr>, un_read = - 1, un_header = uint x\<rparr> [x]"
  by (simp add: un_holds_def)

lemma cut16_one: "length b = 1 \<Longrightarrow> cut16 b = ([], b)"
  by (rule cut_short) simp

lemma cut16_cases:
  assumes "length b \<noteq> 1" "b \<noteq> []"
  shows "read_size b = Some (be16 (take 2 b))" "length (take 2 b) = 2"
    "length (drop 2 b) < be16 (take 2 b) \<Longrightarrow> cut16 b = ([], b)"
    "be16 (take 2 b) \<le> length (drop 2 b) \<Longrightarrow> cut16 b = (take (be16 (take 2 b)) (drop 2 b) # fst (cut16 (drop (be16 (take 2 b)) (drop 2 b))),
       snd (cut16 (drop (be16 (take 2 b)) (drop 2 b))))"
proof -
  have l: "2 \<le> length b" using assms by (cases b rule: list.exhaust; cases "tl b") auto
  then show t: "length (take 2 b) = 2" by simp
  show "read_size b = Some (be16 (take 2 b))" using l by (rule read_size_be16)
  show "cut16 b = ([], b)" if "length (drop 2 b) < be16 (take 2 b)"
    using cut_wait [where h = "take 2 b" and b = "drop 2 b" and hs = 2 and len = be16, OF t that] by simp
  show "cut16 b = (take (be16 (take 2 b)) (drop 2 b) # fst (cut16 (drop (be16 (take 2 b)) (drop 2 b))),
       snd (cut16 (drop (be16 (take 2 b)) (drop 2 b))))" if "be16 (take 2 b) \<le> length (drop 2 b)"
    using cut_step [where h = "take 2 b" and b = "drop 2 b" and hs = 2 and len = be16, OF _ t that] by simp
qed

lemma un_filled_holds: "un_filled fd uc h b \<Longrightarrow> length b < be16 h \<Longrightarrow> un_holds fd uc (h @ b)"
  by (unfold un_holds_def, rule conjI) (simp add: un_filled_def, blast)

lemma save_wait:
  assumes "np_rep r st xs" "r fd = []" "length h = 2" "length b < be16 h"
  shows "\<exists>m st'. memcpy_at 0 b (replicate (be16 h) None) = Some m \<and> save_uncomplete st fd (int (length b)) 0 (be16 h) m = Some st' \<and>
    np_rep (r(fd := h @ b)) st' xs"
proof -
  let ?m = "map Some b @ replicate (be16 h - length b) None"
  have "un_holds fd \<lparr>un_pack = \<lparr>np_id = fd, np_size = be16 h, np_buffer = ?m\<rparr>, un_read = int (length b), un_header = 0\<rparr> (h @ b)"
    using assms(3,4) by (intro un_filled_holds) (simp_all add: un_filled_def)
  from save_rep [OF assms(1) this assms(2)] memcpy_prefix [of "[]" b "be16 h"] assms(4) show ?thesis by auto
qed

lemma push_data_rep:
  "np_rep r st xs \<Longrightarrow> length b = n \<Longrightarrow> \<exists>st'. push_data st fd (map Some b) n = Some st' \<and> np_rep r st' (xs @ [pack fd b])"
  using push_pack_rep [of r st xs "pack fd b"] by (simp add: push_data_def pack_def)

lemma push_more_rep:
  assumes "np_rep r st xs" "r fd = []" "b \<noteq> []"
  shows "\<exists>st'. push_more fd b st = Some st' \<and> np_rep (r(fd := snd (cut16 b))) st' (xs @ map (pack fd) (fst (cut16 b)))"
  using assms(1,3)
proof (induction "length b" arbitrary: b st xs rule: less_induct)
  case less
  show ?case
  proof (cases "length b = 1")
    case True
    then obtain x where b: "b = [x]" by (cases b) auto
    with save_rep [OF less.prems(1) un_holds_one assms(2)] cut16_one [of b] show ?thesis
      by (subst push_more.simps) auto
  next
    case False
    note c = cut16_cases [OF False less.prems(2)]
    let ?h = "take 2 b" let ?b = "drop 2 b"
    show ?thesis
    proof (cases "length ?b < be16 ?h")
      case True
      with save_wait [OF less.prems(1) assms(2) c(2) True] c(1,3) False show ?thesis
        by (subst push_more.simps) (auto simp: Let_def)
    next
      case full: False
      from push_data_rep [OF less.prems(1), of "take (be16 ?h) ?b" "be16 ?h" fd] full obtain st1 where
        st1: "push_data st fd (map Some (take (be16 ?h) ?b)) (be16 ?h) = Some st1"
        "np_rep r st1 (xs @ [pack fd (take (be16 ?h) ?b)])" by auto
      let ?r = "drop (be16 ?h) ?b"
      have m: "push_more fd b st = (if ?r \<noteq> [] then push_more fd ?r st1 else Some st1)"
        using False full c(1) st1(1) by (subst push_more.simps) (simp add: Let_def)
      show ?thesis
      proof (cases "?r = []")
        case True
        have e: "cut16 [] = ([], [])" by (rule cut_short) simp
        have "r(fd := []) = r" using assms(2) by auto
        with m st1(2) True c(4) full e show ?thesis by (simp del: drop_eq_Nil)
      next
        case ne: False
        have "length ?r < length b" using False less.prems(2) by (cases b) auto
        from less.hyps [OF this st1(2) ne] m ne c(4) full show ?thesis by (auto simp del: drop_eq_Nil)
      qed
    qed
  qed
qed

text \<open>What a call of \<open>filter\<close> with a block amounts to: the packages \<open>ps\<close> are complete now and \<open>rest\<close> waits.\<close>

definition np_outcome :: "u32 \<Rightarrow> (u32 \<Rightarrow> bytes) \<Rightarrow> netpack list \<Rightarrow> bytes list \<times> bytes \<Rightarrow> np_result \<Rightarrow> npqueue option \<Rightarrow> bool" where
  "np_outcome fd r xs c res st \<longleftrightarrow>
     (res = NpNothing \<and> fst c = [] \<and> np_rep (r(fd := snd c)) st xs \<or>
      (\<exists>p. res = NpData fd (map Some p) (length p) \<and> fst c = [p] \<and> np_rep (r(fd := snd c)) st xs) \<or>
      res = NpMore \<and> np_rep (r(fd := snd c)) st (xs @ map (pack fd) (fst c)))"

lemma more_outcome:
  assumes "np_rep r st xs" "r fd = []" "length p = n" "b \<noteq> []"
  shows "\<exists>st1 st2. push_data st fd (map Some p) n = Some st1 \<and> push_more fd b st1 = Some st2 \<and>
    np_outcome fd r xs (p # fst (cut16 b), snd (cut16 b)) NpMore st2"
proof -
  from push_data_rep [OF assms(1,3)] obtain st1 where st1: "push_data st fd (map Some p) n = Some st1" "np_rep r st1 (xs @ [pack fd p])"
    by blast
  from push_more_rep [OF st1(2) assms(2,4)] st1(1) show ?thesis by (auto simp: np_outcome_def)
qed

lemma fill_filled:
  assumes "un_filled fd uc h b" "un_start uc0 buffer0 = Some (uc, buffer)" "np_rep r (Some q) xs" "r fd = []"
  shows "\<exists>res st'. fill_uncomplete fd uc0 buffer0 (Some q) = Some (res, st') \<and> np_outcome fd r xs (cut16 (h @ b @ buffer)) res st'"
proof -
  from assms(1) have u: "length h = 2" "length b \<le> be16 h" "un_read uc = int (length b)"
    "un_pack uc = \<lparr>np_id = fd, np_size = be16 h, np_buffer = map Some b @ replicate (be16 h - length b) None\<rparr>"
    by (simp_all add: un_filled_def)
  let ?need = "be16 h - length b"
  have need: "int (np_size (un_pack uc)) - un_read uc = int ?need" using u by simp
  show ?thesis
  proof (cases "length buffer < ?need")
    case True
    let ?m = "map Some (b @ buffer) @ replicate (be16 h - length (b @ buffer)) None"
    let ?uc = "uc\<lparr>un_pack := (un_pack uc)\<lparr>np_buffer := ?m\<rparr>, un_read := un_read uc + int (length buffer)\<rparr>"
    have "un_filled fd ?uc h (b @ buffer)" using u True by (simp add: un_filled_def)
    then have h: "un_holds fd ?uc (h @ b @ buffer)" using un_filled_holds [of fd ?uc h "b @ buffer"] True u(2) by simp
    from link_rep [OF assms(3) h assms(4)] obtain q' where "link_uncomplete ?uc q = Some q'" "np_rep (r(fd := h @ b @ buffer)) (Some q') xs"
      by blast
    moreover have "cut16 (h @ b @ buffer) = ([], h @ b @ buffer)" using True u cut_wait [of h 2 "b @ buffer" be16] by simp
    moreover have "int (length buffer) < int (be16 h) - int (length b)" using True by linarith
    ultimately show ?thesis
      using memcpy_prefix [of b buffer "be16 h"] True u assms(2) by (simp add: fill_uncomplete_def np_outcome_def Let_def)
  next
    case False
    let ?p = "b @ take ?need buffer" and ?rest = "drop ?need buffer"
    have m: "memcpy_at (length b) (take ?need buffer) (map Some b @ replicate (be16 h - length b) None) = Some (map Some ?p)"
      using memcpy_prefix [of b "take ?need buffer" "be16 h"] False u(2) by simp
    have c: "cut16 (h @ b @ buffer) = (?p # fst (cut16 ?rest), snd (cut16 ?rest))"
      using cut_step [of 2 h be16 "b @ buffer"] False u by simp
    have lp: "length ?p = be16 h" using False u(2) by simp
    have ni: "\<not> int (length buffer) < int (be16 h) - int (length b)" "nat (int (be16 h) - int (length b)) = ?need"
      using False by linarith+
    show ?thesis
    proof (cases "?rest = []")
      case True
      have "cut16 [] = ([], [])" by (rule cut_short) simp
      moreover have "r(fd := []) = r" using assms(4) by auto
      ultimately have "np_outcome fd r xs (cut16 (h @ b @ buffer)) (NpData fd (map Some ?p) (be16 h)) (Some q)"
        using c True assms(3) lp by (simp add: np_outcome_def del: drop_eq_Nil)
      with m True ni u assms(2) show ?thesis by (simp add: fill_uncomplete_def Let_def del: drop_eq_Nil)
    next
      case ne: False
      from more_outcome [OF assms(3,4) lp ne] c m ne ni u assms(2) show ?thesis
        by (auto simp add: fill_uncomplete_def Let_def simp del: drop_eq_Nil)
    qed
  qed
qed

lemma filter_block:
  assumes "np_rep r st xs" "b \<noteq> []"
  shows "\<exists>res st'. filter_data1 st fd b = Some (res, st') \<and> np_outcome fd r xs (cut16 (r fd @ b)) res st'"
proof -
  from find_rep [OF assms(1), of fd] obtain uc st1 where f: "find_uncomplete st fd = Some (uc, st1)" "np_rep (r(fd := [])) st1 xs"
    "case uc of None \<Rightarrow> r fd = [] | Some u \<Rightarrow> un_holds fd u (r fd) \<and> st1 \<noteq> None" by blast
  have oc: "np_outcome fd (r(fd := [])) xs c res st' = np_outcome fd r xs c res st'" for c res st' by (simp add: np_outcome_def)
  show ?thesis
  proof (cases uc)
    case (Some u)
    with f obtain q where q: "st1 = Some q" "un_holds fd u (r fd)" by auto
    have "\<exists>h c u' b'. un_filled fd u' h c \<and> un_start u b = Some (u', b') \<and> r fd @ b = h @ c @ b'"
    proof (cases "un_read u = - 1")
      case True
      then obtain x where x: "r fd = [x]" "un_header u = uint x" "np_id (un_pack u) = fd" using q(2) by (auto simp: un_holds_def un_filled_def)
      obtain y b' where y: "b = y # b'" using assms(2) by (cases b) auto
      have b: "nat (uint y OR push_bit 8 (uint x)) = be16 [x, y]" by (simp add: be16_def or.commute)
      let ?u = "u\<lparr>un_pack := (un_pack u)\<lparr>np_size := be16 [x, y], np_buffer := replicate (be16 [x, y]) None\<rparr>, un_read := 0\<rparr>"
      have "un_filled fd ?u [x, y] []" using x(3) by (simp add: un_filled_def)
      moreover have "un_start u b = Some (?u, b')" using True x(2) y b by (simp add: un_start_def Let_def)
      moreover have "r fd @ b = [x, y] @ [] @ b'" using x(1) y by simp
      ultimately show ?thesis by blast
    next
      case False
      then obtain h c where "r fd = h @ c" "un_filled fd u h c" using q(2) by (auto simp: un_holds_def)
      then show ?thesis by (intro exI [of _ h] exI [of _ c] exI [of _ u] exI [of _ b]) (simp add: un_start_def un_filled_def)
    qed
    then obtain h c u' b' where "un_filled fd u' h c" "un_start u b = Some (u', b')" "r fd @ b = h @ c @ b'" by blast
    with fill_filled [of fd u' h c u b b' "r(fd := [])" q xs] f q Some show ?thesis by (simp add: filter_data1_def oc)
  next
    case None
    then have r: "r fd = []" "np_rep r st1 xs" using f by (auto simp: fun_upd_idem)
    show ?thesis
    proof (cases "length b = 1")
      case True
      then obtain x where b: "b = [x]" by (cases b) auto
      from save_rep [OF r(2) un_holds_one r(1)] obtain st2 where
        "save_uncomplete st1 fd (- 1) (uint x) 0 [] = Some st2" "np_rep (r(fd := [x])) st2 xs" by blast
      with b cut16_one [of b] None f(1) r(1) show ?thesis by (simp add: filter_data1_def np_outcome_def)
    next
      case False
      note c = cut16_cases [OF False assms(2)]
      let ?h = "take 2 b" let ?b = "drop 2 b"
      consider "length ?b < be16 ?h" | "length ?b = be16 ?h" | "be16 ?h < length ?b" by linarith
      then show ?thesis
      proof cases
        case 1
        with save_wait [OF r(2,1) c(2) 1] c(1,3) False None f(1) r(1) show ?thesis
          by (auto simp: filter_data1_def np_outcome_def Let_def)
      next
        case 2
        have "cut16 [] = ([], [])" by (rule cut_short) simp
        moreover have "r(fd := []) = r" using r(1) by auto
        ultimately have "np_outcome fd r xs (cut16 (r fd @ b)) (NpData fd (map Some ?b) (be16 ?h)) st1"
          using 2 c(4) r by (simp add: np_outcome_def)
        with 2 c(1) False None f(1) show ?thesis by (auto simp: filter_data1_def Let_def)
      next
        case 3
        then have "length (take (be16 ?h) ?b) = be16 ?h" "drop (be16 ?h) ?b \<noteq> []" by simp_all
        from more_outcome [OF r(2,1) this] 3 c(1,4) False None f(1) r(1) show ?thesis
          by (auto simp: filter_data1_def Let_def)
      qed
    qed
  qed
qed

subsection \<open>A gate over the filter\<close>

text \<open>
  The loop of a gate: every socket message goes through \<open>filter\<close>, and when there is more than one package, they are popped until
  the queue is empty. Reading a cell of a package that was not filled is undefined.
\<close>

datatype np_event =
    Package u32 bytes
  | Opened u32 string
  | Closed u32
  | Failed u32 string
  | Warned u32 u32

definition read_package :: "u32 \<Rightarrow> u8 option list \<Rightarrow> nat \<Rightarrow> np_event option" where
  "read_package fd buffer n = do { c_assert (n \<le> length buffer); b \<leftarrow> those (take n buffer); Some (Package fd b) }"

definition np_deliver :: "np_message \<Rightarrow> npqueue option \<Rightarrow> (np_event list \<times> npqueue option) option" where
  "np_deliver m st = do {
     (res, st1) \<leftarrow> lfilter st m;
     case res of
       NpNothing \<Rightarrow> Some ([], st1)
     | NpData fd buffer n \<Rightarrow> do { e \<leftarrow> read_package fd buffer n; Some ([e], st1) }
     | NpMore \<Rightarrow> do {
         (nps, st2) \<leftarrow> deq_all lpop st1;
         es \<leftarrow> those (map (\<lambda>np. read_package (np_id np) (np_buffer np) (np_size np)) nps);
         Some (es, st2) }
     | NpError fd t \<Rightarrow> Some ([Failed fd t], st1)
     | NpOpen fd t \<Rightarrow> Some ([Opened fd t], st1)
     | NpClose fd \<Rightarrow> Some ([Closed fd], st1)
     | NpWarning fd k \<Rightarrow> Some ([Warned fd k], st1) }"

fun np_run :: "np_message list \<Rightarrow> npqueue option \<Rightarrow> (np_event list \<times> npqueue option) option" where
  "np_run [] st = Some ([], st)"
| "np_run (m # ms) st = do { (es, st1) \<leftarrow> np_deliver m st; (es', st2) \<leftarrow> np_run ms st1; Some (es @ es', st2) }"

text \<open>What the socket layer sends: a block that is not empty, or a text behind the structure.\<close>

definition msg_ok :: "np_message \<Rightarrow> bool" where
  "msg_ok m \<longleftrightarrow>
     (case nm_type m of
        NT_DATA \<Rightarrow> (\<exists>b. nm_buffer m = Some b \<and> unat (nm_ud m) = length b \<and> b \<noteq> [])
      | NT_ACCEPT \<Rightarrow> nm_buffer m = None
      | NT_ERROR \<Rightarrow> nm_buffer m = None
      | _ \<Rightarrow> True)"

text \<open>The contract: each connection has a stream, of which the bytes that are no complete package yet are kept.\<close>

definition np_spec :: "np_message \<Rightarrow> (u32 \<Rightarrow> bytes) \<Rightarrow> np_event list \<times> (u32 \<Rightarrow> bytes)" where
  "np_spec m r =
     (case nm_type m of
        NT_DATA \<Rightarrow> (let c = cut16 (r (nm_id m) @ the (nm_buffer m)) in (map (Package (nm_id m)) (fst c), r(nm_id m := snd c)))
      | NT_CLOSE \<Rightarrow> ([Closed (nm_id m)], r(nm_id m := []))
      | NT_ERROR \<Rightarrow> ([Failed (nm_id m) (nm_text m)], r(nm_id m := []))
      | NT_ACCEPT \<Rightarrow> ([Opened (nm_ud m) (nm_text m)], r)
      | NT_WARNING \<Rightarrow> ([Warned (nm_id m) (nm_ud m)], r)
      | NT_CONNECT \<Rightarrow> ([], r)
      | NT_UDP \<Rightarrow> ([], r))"

fun np_specs :: "np_message list \<Rightarrow> (u32 \<Rightarrow> bytes) \<Rightarrow> np_event list" where
  "np_specs [] r = []"
| "np_specs (m # ms) r = fst (np_spec m r) @ np_specs ms (snd (np_spec m r))"

lemma those_Some [simp]: "those (map (\<lambda>x. Some (f x)) xs) = Some (map f xs)"
  by (induction xs) auto

lemma those_Some_id [simp]: "those (map Some xs) = Some xs"
  using those_Some [of id xs] by (simp del: those_Some)

lemma read_package_pack [simp]: "read_package fd (map Some b) (length b) = Some (Package fd b)"
  by (simp add: read_package_def)

lemma read_pack [simp]: "read_package (np_id (pack fd b)) (np_buffer (pack fd b)) (np_size (pack fd b)) = Some (Package fd b)"
  by (simp add: pack_def)

lemma close_rep:
  assumes "np_rep r st xs"
  shows "\<exists>st'. close_uncomplete st fd = Some st' \<and> np_rep (r(fd := [])) st' xs"
  using find_rep [OF assms, of fd] by (auto simp: close_uncomplete_def)

lemma np_deliver_spec:
  assumes "np_rep r st []" "msg_ok m"
  shows "\<exists>st'. np_deliver m st = Some (fst (np_spec m r), st') \<and> np_rep (snd (np_spec m r)) st' []"
proof (cases "nm_type m")
  case NT_DATA
  let ?fd = "nm_id m" let ?c = "cut16 (r ?fd @ the (nm_buffer m))"
  from assms(2) NT_DATA obtain b where b: "nm_buffer m = Some b" "unat (nm_ud m) = length b" "b \<noteq> []" by (auto simp: msg_ok_def)
  from filter_block [OF assms(1) b(3), of ?fd] obtain res st1 where f: "filter_data1 st ?fd b = Some (res, st1)"
    "np_outcome ?fd r [] ?c res st1" using b(1) by auto
  have l: "lfilter st m = Some (res, st1)" using NT_DATA b f(1) by (simp add: lfilter_def)
  have sp: "np_spec m r = (map (Package ?fd) (fst ?c), r(?fd := snd ?c))" using NT_DATA by (simp add: np_spec_def Let_def)
  from f(2) consider "res = NpNothing" "fst ?c = []" "np_rep (r(?fd := snd ?c)) st1 []"
    | p where "res = NpData ?fd (map Some p) (length p)" "fst ?c = [p]" "np_rep (r(?fd := snd ?c)) st1 []"
    | "res = NpMore" "np_rep (r(?fd := snd ?c)) st1 (map (pack ?fd) (fst ?c))" unfolding np_outcome_def by auto
  then show ?thesis
  proof cases
    case 3
    from nq.deq_all_rep [OF 3(2)] obtain st2 where "deq_all lpop st1 = Some (map (pack ?fd) (fst ?c), st2)"
      "np_rep (r(?fd := snd ?c)) st2 []" by blast
    with 3 l sp show ?thesis by (simp add: np_deliver_def comp_def)
  qed (use l sp in \<open>simp_all add: np_deliver_def\<close>)
next
  case NT_CLOSE
  with close_rep [OF assms(1), of "nm_id m"] show ?thesis by (auto simp: np_deliver_def lfilter_def np_spec_def)
next
  case NT_ERROR
  with close_rep [OF assms(1), of "nm_id m"] assms(2) show ?thesis
    by (auto simp: np_deliver_def lfilter_def np_spec_def pushstring_def msg_ok_def)
qed (use assms in \<open>auto simp: np_deliver_def lfilter_def np_spec_def pushstring_def msg_ok_def\<close>)

lemma np_run_spec:
  "np_rep r st [] \<Longrightarrow> \<forall>m \<in> set ms. msg_ok m \<Longrightarrow> \<exists>st'. np_run ms st = Some (np_specs ms r, st')"
proof (induction ms arbitrary: r st)
  case (Cons m ms)
  then obtain st1 where "np_deliver m st = Some (fst (np_spec m r), st1)" "np_rep (snd (np_spec m r)) st1 []"
    using np_deliver_spec by fastforce
  with Cons.IH [of "snd (np_spec m r)" st1] Cons.prems(2) show ?case by auto
qed simp

lemma np_rep_nil: "np_rep (\<lambda>fd. []) None []"
  by (simp add: np_rep_def)

text \<open>
  C32. The filter refines the cutting of streams. For every sequence of socket messages, with the blocks of any number of connections
  in any order, the gate gets, without a failure, exactly the events of the contract: for a block the packages it completes, in order, and nothing
  of a connection survives its close or failure.
\<close>

theorem netpack_refines:
  assumes "\<forall>m \<in> set ms. msg_ok m"
  shows "\<exists>st. np_run ms None = Some (np_specs ms (\<lambda>fd. []), st)"
  using np_run_spec [OF np_rep_nil assms] .

definition data_msg :: "u32 \<Rightarrow> bytes \<Rightarrow> np_message" where
  "data_msg fd b = \<lparr>nm_type = NT_DATA, nm_id = fd, nm_ud = word_of_nat (length b), nm_buffer = Some b, nm_text = []\<rparr>"

text \<open>Two connections whose package arrives in two pieces each, the second one with a package more.\<close>

definition two_streams :: "np_message list" where
  "two_streams = [data_msg 1 [0], data_msg 2 [0, 2, 7], data_msg 1 [1, 5], data_msg 2 [8, 0, 1, 9]]"

lemma two_streams_ok: "\<forall>m \<in> set two_streams. msg_ok m"
  by (simp add: two_streams_def data_msg_def msg_ok_def)

lemma be16_simps [simp]: "be16 (x # y # zs) = nat (push_bit 8 (uint x) OR uint y)"
  by (simp add: be16_def)

theorem netpack_refines_witness:
  "\<exists>st. np_run two_streams None = Some ([Package 1 [5], Package 2 [7, 8], Package 2 [9]], st)"
proof -
  have "np_specs two_streams (\<lambda>fd. []) = [Package 1 [5], Package 2 [7, 8], Package 2 [9]]"
    by (simp add: two_streams_def data_msg_def np_spec_def cut.simps [of 2] Let_def)
  with netpack_refines [OF two_streams_ok] show ?thesis by simp
qed

subsection \<open>Packing and cutting\<close>

text \<open>The blocks of a connection in a sequence of messages, and its packages in a sequence of events.\<close>

definition blocks_of :: "u32 \<Rightarrow> np_message list \<Rightarrow> bytes list" where
  "blocks_of fd ms = map (the \<circ> nm_buffer) (filter (\<lambda>m. nm_type m = NT_DATA \<and> nm_id m = fd) ms)"

fun packages_of :: "u32 \<Rightarrow> np_event list \<Rightarrow> bytes list" where
  "packages_of fd [] = []"
| "packages_of fd (Package fd' b # es) = (if fd' = fd then b # packages_of fd es else packages_of fd es)"
| "packages_of fd (e # es) = packages_of fd es"

definition stays_open :: "u32 \<Rightarrow> np_message list \<Rightarrow> bool" where
  "stays_open fd ms \<longleftrightarrow> (\<forall>m \<in> set ms. nm_id m = fd \<longrightarrow> nm_type m \<noteq> NT_CLOSE \<and> nm_type m \<noteq> NT_ERROR)"

lemma packages_of_append [simp]: "packages_of fd (es @ es') = packages_of fd es @ packages_of fd es'"
proof (induction es)
  case (Cons e es)
  then show ?case by (cases e) simp_all
qed simp

lemma packages_of_map [simp]: "packages_of fd (map (Package fd') bs) = (if fd' = fd then bs else [])"
  by (induction bs) auto

lemma cut_rest: "cut hs len (snd (cut hs len s)) = ([], snd (cut hs len s))"
  using cut_append [of hs len s "[]"] by (auto simp: prod_eq_iff)

lemma np_specs_packages:
  "stays_open fd ms \<Longrightarrow> cut16 (r fd) = ([], r fd) \<Longrightarrow>
   packages_of fd (np_specs ms r) = fst (cut16 (r fd @ concat (blocks_of fd ms)))"
proof (induction ms arbitrary: r)
  case Nil
  then show ?case by (simp add: blocks_of_def)
next
  case (Cons m ms)
  let ?r = "snd (np_spec m r)"
  have open_ms: "stays_open fd ms" using Cons.prems(1) by (simp add: stays_open_def)
  show ?case
  proof (cases "nm_type m = NT_DATA \<and> nm_id m = fd")
    case True
    let ?s = "r fd @ the (nm_buffer m)"
    have r: "?r fd = snd (cut16 ?s)" "packages_of fd (fst (np_spec m r)) = fst (cut16 ?s)"
      using True by (simp_all add: np_spec_def Let_def)
    have b: "blocks_of fd (m # ms) = the (nm_buffer m) # blocks_of fd ms" using True by (simp add: blocks_of_def)
    from Cons.IH [OF open_ms, of ?r] r cut_append [of 2 be16 ?s "concat (blocks_of fd ms)"] show ?thesis
      by (simp add: b cut_rest)
  next
    case False
    then have b: "blocks_of fd (m # ms) = blocks_of fd ms" by (auto simp: blocks_of_def)
    have "?r fd = r fd" "packages_of fd (fst (np_spec m r)) = []"
      using False Cons.prems(1) by (auto simp: np_spec_def Let_def stays_open_def split: np_type.split)
    with Cons.IH [OF open_ms, of ?r] Cons.prems(2) b show ?thesis by simp
  qed
qed

lemma lpack_cut:
  assumes "those (map lpack ps) = Some ws"
  shows "cut16 (concat ws) = (ps, [])"
proof -
  let ?qs = "map (\<lambda>p. (write_size (length p), p)) ps"
  have "(\<forall>p \<in> set ps. length p < 0x10000) \<and> ws = map (\<lambda>q. fst q @ snd q) ?qs"
    using assms
  proof (induction ps arbitrary: ws)
    case (Cons p ps)
    have l: "length p < 0x10000" using Cons.prems by (simp add: lpack_def split: if_splits)
    then have "lpack p = Some (write_size (length p) @ p)" by (simp add: lpack_def)
    with Cons.prems obtain vs where "those (map lpack ps) = Some vs" "ws = (write_size (length p) @ p) # vs" by auto
    with Cons.IH l show ?case by simp
  qed simp
  moreover have "cut16 (concat (map (\<lambda>q. fst q @ snd q) ?qs)) = (map snd ?qs, [])" if "\<forall>p \<in> set ps. length p < 0x10000"
    by (rule cut_packets) (use that be16_write_size in auto)
  ultimately show ?thesis by (simp add: comp_def)
qed

text \<open>
  C33. Round trip. Packages that one side packs, joined and sent over a connection, come out at the gate of the other side as they went
  in, however the stream is divided into blocks and whatever arrives on other connections in between.
\<close>

theorem netpack_roundtrip:
  assumes "\<forall>m \<in> set ms. msg_ok m" "stays_open fd ms" "those (map lpack ps) = Some ws" "concat (blocks_of fd ms) = concat ws"
  shows "\<exists>es st. np_run ms None = Some (es, st) \<and> packages_of fd es = ps"
proof -
  have "cut16 [] = ([], [])" by (rule cut_short) simp
  with np_specs_packages [OF assms(2), of "\<lambda>fd. []"] lpack_cut [OF assms(3)] assms(4)
  have "packages_of fd (np_specs ms (\<lambda>fd. [])) = ps" by simp
  with np_run_spec [OF np_rep_nil assms(1)] show ?thesis by blast
qed

theorem netpack_roundtrip_witness:
  "\<exists>es st. np_run two_streams None = Some (es, st) \<and> packages_of 2 es = [[7, 8], [9]]"
proof (rule netpack_roundtrip [OF two_streams_ok])
  show "stays_open 2 two_streams" by (simp add: stays_open_def two_streams_def data_msg_def)
  show "those (map lpack [[7, 8], [9]]) = Some [[0, 2, 7, 8], [0, 1, 9]]" by (simp add: lpack_def write_size_def)
  show "concat (blocks_of 2 two_streams) = concat [[0, 2, 7, 8], [0, 1, 9]]" by (simp add: blocks_of_def two_streams_def data_msg_def)
qed

text \<open>\<open>clear\<close> gives back everything that waits, and leaves an empty queue.\<close>

lemma lclear_spec:
  assumes "np_rep r st xs"
  shows "\<exists>inc st'. lclear st = Some (inc @ xs, st') \<and> np_rep (\<lambda>fd. []) st' []"
proof (cases st)
  case None
  with assms show ?thesis by (simp add: np_rep_def lclear_def)
next
  case (Some q)
  with assms have k: "ring_rep (nq_queue q) (nq_cap q) (nq_head q) (nq_tail q) xs" by (simp add: np_rep_Some)
  note d = ring_repD [OF k]
  let ?t = "if nq_tail q < nq_head q then nq_tail q + nq_cap q else nq_tail q"
  have "?t = length xs + nq_head q" using d(1,2,4) by (auto simp: ring_len_def split: if_splits)
  then have t: "[nq_head q..<?t] = map (\<lambda>i. nq_head q + i) [0..<length xs]"
    using map_add_upt [of "nq_head q" "length xs"] by (simp add: add.commute)
  have "map (\<lambda>i. do { cell \<leftarrow> arr_get (nq_queue q) (i mod nq_cap q); cell }) [nq_head q..<?t] = ring (nq_queue q) (nq_head q) (length xs)"
    unfolding t ring_def using d(1,3) by (simp add: comp_def arr_get_def)
  with d(5) have "those (map (\<lambda>i. do { cell \<leftarrow> arr_get (nq_queue q) (i mod nq_cap q); cell }) [nq_head q..<?t]) = Some xs" by simp
  moreover have "np_rep (\<lambda>fd. []) (Some (q\<lparr>nq_hash := replicate HASHSIZE [], nq_head := 0, nq_tail := 0\<rparr>)) []"
    using ring_rep_empty [of "nq_cap q" "nq_queue q" 0] d(1,3) hash_fd_less by (simp add: np_rep_Some tab_def tab_ok_def)
  ultimately show ?thesis using Some by (simp add: lclear_def Let_def)
qed

end
