(* ===== verification/Seri.thy ===== *)
theory Seri
  imports Wire "HOL-Library.Multiset"
begin

section \<open>Serialization of Lua values (lualib-src/lua-seri.c)\<close>

text \<open>
  Every message between Lua services is packed by \<open>luaseri_pack\<close> and unpacked by \<open>luaseri_unpack\<close>. Values are written into a chain
  of blocks of 128 bytes, which \<open>seri\<close> copies into one buffer.

  A Lua value is a datatype: integers, floats and pointers are their 64 bits, a table is the list of its entries in the order of
  \<open>lua_next\<close>, a table with \<open>__pairs\<close> is the list of what that iterator gives. \<open>lua_rawlen\<close> may be any border of a table, so it is the
  parameter \<open>rl\<close>. A Lua error is \<open>None\<close>. The read block is the bytes that are not read yet.
\<close>

datatype lua_value =
    LNil
  | LBoolean bool
  | LInteger u64
  | LReal u64
  | LPointer u64
  | LString bytes
  | LTable "(lua_value \<times> lua_value) list"
  | LPairs "(lua_value \<times> lua_value) list"
  | LOther

type_synonym lua_entries = "(lua_value \<times> lua_value) list"

definition MAX_COOKIE :: nat where "MAX_COOKIE = 32"
definition BLOCK_SIZE :: nat where "BLOCK_SIZE = 128"
definition MAX_DEPTH :: nat where "MAX_DEPTH = 32"

definition COMBINE_TYPE :: "nat \<Rightarrow> nat \<Rightarrow> u8" where
  "COMBINE_TYPE t v = word_of_nat t OR push_bit 3 (word_of_nat v)"

subsection \<open>Tables\<close>

text \<open>Two keys that are the same slot of a table. A table as a key is a new one whenever it was unpacked.\<close>

fun key_eq :: "lua_value \<Rightarrow> lua_value \<Rightarrow> bool" where
  "key_eq (LTable _) _ = False"
| "key_eq (LPairs _) _ = False"
| "key_eq k k' = (k = k')"

text \<open>The integer a float is equal to, if there is one: sign, exponent and mantissa of the IEEE format.\<close>

definition flt_to_int :: "u64 \<Rightarrow> u64 option" where
  "flt_to_int w = (let e = unat (take_bit 11 (drop_bit 52 w)); m = unat (take_bit 52 w);
     sgn = (if bit w 63 then - 1 else 1 :: int); full = 2 ^ 52 + m in
     if e = 0 then (if m = 0 then Some 0 else None)
     else if e < 1023 \<or> 1023 + 63 < e then None
     else if e \<le> 1075 then (if full mod 2 ^ (1075 - e) = 0 then Some (word_of_int (sgn * int (full div 2 ^ (1075 - e)))) else None)
     else (let v = sgn * int (full * 2 ^ (e - 1075)) in if - (2 ^ 63) \<le> v \<and> v < 2 ^ 63 then Some (word_of_int v) else None))"

definition is_nan :: "u64 \<Rightarrow> bool" where
  "is_nan w \<longleftrightarrow> take_bit 11 (drop_bit 52 w) = 0x7ff \<and> take_bit 52 w \<noteq> 0"

text \<open>The key under which an entry is stored: nil and NaN are errors, a float with an integer value becomes that integer.\<close>

definition norm_key :: "lua_value \<Rightarrow> lua_value option" where
  "norm_key k =
     (case k of
        LNil \<Rightarrow> None
      | LReal w \<Rightarrow> if is_nan w then None else (case flt_to_int w of Some i \<Rightarrow> Some (LInteger i) | None \<Rightarrow> Some k)
      | _ \<Rightarrow> Some k)"

fun entry_set :: "lua_value \<Rightarrow> lua_value \<Rightarrow> lua_entries \<Rightarrow> lua_entries" where
  "entry_set k v [] = [(k, v)]"
| "entry_set k v ((k', v') # es) = (if key_eq k' k then (k', v) # es else (k', v') # entry_set k v es)"

definition lua_rawset :: "lua_value \<Rightarrow> lua_value \<Rightarrow> lua_entries \<Rightarrow> lua_entries option" where
  "lua_rawset k v es = do {
     k' \<leftarrow> norm_key k;
     Some (if v = LNil then filter (\<lambda>e. \<not> key_eq (fst e) k') es else entry_set k' v es) }"

definition lua_rawgeti :: "lua_entries \<Rightarrow> int \<Rightarrow> lua_value" where
  "lua_rawgeti es i = (case find (\<lambda>e. fst e = LInteger (word_of_int i)) es of None \<Rightarrow> LNil | Some e \<Rightarrow> snd e)"

subsection \<open>The chain of blocks\<close>

record write_block =
  wb_blocks :: "u8 option list list"
  wb_len :: nat
  wb_ptr :: nat

definition blk_alloc :: "u8 option list" where
  "blk_alloc = replicate BLOCK_SIZE None"

definition wb_init :: write_block where
  "wb_init = \<lparr>wb_blocks = [blk_alloc], wb_len = 0, wb_ptr = 0\<rparr>"

text \<open>\<open>memcpy\<close> to the place \<open>ptr\<close> of the current block, which is the last one.\<close>

definition wb_copy :: "bytes \<Rightarrow> write_block \<Rightarrow> write_block" where
  "wb_copy buf b = (let c = last (wb_blocks b); p = wb_ptr b in
     b\<lparr>wb_blocks := butlast (wb_blocks b) @ [take p c @ map Some buf @ drop (p + length buf) c], wb_len := wb_len b + length buf\<rparr>)"

definition wb_next :: "write_block \<Rightarrow> write_block" where
  "wb_next b = b\<lparr>wb_blocks := wb_blocks b @ [blk_alloc], wb_ptr := 0\<rparr>"

function wb_put :: "bytes \<Rightarrow> write_block \<Rightarrow> write_block" where
  "wb_put buf b =
     (if wb_ptr b + length buf \<le> BLOCK_SIZE then (wb_copy buf b)\<lparr>wb_ptr := wb_ptr b + length buf\<rparr>
      else let copy = BLOCK_SIZE - wb_ptr b in wb_put (drop copy buf) (wb_next (wb_copy (take copy buf) b)))"
  by pat_completeness auto
termination
  by (relation "measure (\<lambda>(buf, b). 2 * length buf + (if BLOCK_SIZE \<le> wb_ptr b then 1 else 0))")
    (auto simp: wb_next_def BLOCK_SIZE_def)

declare wb_put.simps [simp del]

definition wb_push :: "bytes \<Rightarrow> write_block \<Rightarrow> write_block" where
  "wb_push buf b = wb_put buf (if wb_ptr b = BLOCK_SIZE then wb_next b else b)"

text \<open>\<open>seri\<close>: the first \<open>len\<close> bytes of the chain.\<close>

fun seri :: "u8 option list list \<Rightarrow> nat \<Rightarrow> u8 option list option" where
  "seri bs 0 = Some []"
| "seri [] (Suc n) = None"
| "seri (b # bs) (Suc n) =
     (if BLOCK_SIZE \<le> Suc n then map_option ((@) (take BLOCK_SIZE b)) (seri bs (Suc n - BLOCK_SIZE)) else Some (take (Suc n) b))"

subsection \<open>Packing\<close>

text \<open>The bytes of an integer in the memory of the machine, low byte first.\<close>

fun le_bytes :: "nat \<Rightarrow> u64 \<Rightarrow> bytes" where
  "le_bytes 0 w = []"
| "le_bytes (Suc n) w = ucast w # le_bytes n (drop_bit 8 w)"

definition int32 :: "u64 \<Rightarrow> u64" where
  "int32 w = signed_take_bit 31 w"

definition wb_nil :: "write_block \<Rightarrow> write_block" where
  "wb_nil b = wb_push [COMBINE_TYPE 0 0] b"

definition wb_boolean :: "bool \<Rightarrow> write_block \<Rightarrow> write_block" where
  "wb_boolean x b = wb_push [COMBINE_TYPE 1 (if x then 1 else 0)] b"

definition wb_integer :: "u64 \<Rightarrow> write_block \<Rightarrow> write_block" where
  "wb_integer v b =
     (if v = 0 then wb_push [COMBINE_TYPE 2 0] b
      else if v \<noteq> int32 v then wb_push (le_bytes 8 v) (wb_push [COMBINE_TYPE 2 6] b)
      else if sint v < 0 then wb_push (le_bytes 4 v) (wb_push [COMBINE_TYPE 2 4] b)
      else if sint v < 0x100 then wb_push (le_bytes 1 v) (wb_push [COMBINE_TYPE 2 1] b)
      else if sint v < 0x10000 then wb_push (le_bytes 2 v) (wb_push [COMBINE_TYPE 2 2] b)
      else wb_push (le_bytes 4 v) (wb_push [COMBINE_TYPE 2 4] b))"

definition wb_real :: "u64 \<Rightarrow> write_block \<Rightarrow> write_block" where
  "wb_real v b = wb_push (le_bytes 8 v) (wb_push [COMBINE_TYPE 2 8] b)"

definition wb_pointer :: "u64 \<Rightarrow> write_block \<Rightarrow> write_block" where
  "wb_pointer v b = wb_push (le_bytes 8 v) (wb_push [word_of_nat 3] b)"

text \<open>The conversion of a \<open>size_t\<close> to \<open>int\<close>.\<close>

definition to_int :: "nat \<Rightarrow> int" where
  "to_int n = sint (word_of_nat n :: u32)"

definition wb_string :: "bytes \<Rightarrow> write_block \<Rightarrow> write_block" where
  "wb_string str b = (let len = to_int (length str) in
     if len < int MAX_COOKIE then
       (let b1 = wb_push [word_of_nat 4 OR push_bit 3 (word_of_int len)] b in if 0 < len then wb_push str b1 else b1)
     else if len < 0x10000 then wb_push str (wb_push (le_bytes 2 (word_of_int len)) (wb_push [COMBINE_TYPE 5 2] b))
     else wb_push str (wb_push (le_bytes 4 (word_of_int len)) (wb_push [COMBINE_TYPE 5 4] b)))"

text \<open>The head of a table with \<open>array_size\<close> elements in front.\<close>

definition wb_array_size :: "int \<Rightarrow> write_block \<Rightarrow> write_block" where
  "wb_array_size array_size b =
     (if int MAX_COOKIE - 1 \<le> array_size then wb_integer (word_of_int array_size) (wb_push [COMBINE_TYPE 6 (MAX_COOKIE - 1)] b)
      else wb_push [word_of_nat 6 OR push_bit 3 (word_of_int array_size)] b)"

definition in_array :: "int \<Rightarrow> lua_value \<Rightarrow> bool" where
  "in_array array_size k = (case k of LInteger x \<Rightarrow> 0 < sint x \<and> sint x \<le> array_size | _ \<Rightarrow> False)"

lemma rawgeti_size: "lua_rawgeti es i \<noteq> LNil \<Longrightarrow> size (lua_rawgeti es i) < Suc (size_list (size_prod size size) es)"
  by (induction es) (auto simp: lua_rawgeti_def split: if_splits)

lemma entry_size: "(k, v) \<in> set es \<Longrightarrow> size k < Suc (size_list (size_prod size size) es) \<and> size v < Suc (size_list (size_prod size size) es)"
  by (induction es) auto

lemma size_rawgeti_less: "x \<in> set (map (lua_rawgeti es) is) \<Longrightarrow> size x < Suc (size_list (size_prod size size) es)"
  using rawgeti_size by (cases "x = LNil") auto

function pack_one :: "(lua_entries \<Rightarrow> nat) \<Rightarrow> lua_value \<Rightarrow> nat \<Rightarrow> write_block \<Rightarrow> write_block option" where
  "pack_one rl v depth b =
     (if MAX_DEPTH < depth then None
      else case v of
        LNil \<Rightarrow> Some (wb_nil b)
      | LInteger x \<Rightarrow> Some (wb_integer x b)
      | LReal x \<Rightarrow> Some (wb_real x b)
      | LBoolean x \<Rightarrow> Some (wb_boolean x b)
      | LString str \<Rightarrow> Some (wb_string str b)
      | LPointer x \<Rightarrow> Some (wb_pointer x b)
      | LTable es \<Rightarrow> do {
          let array_size = to_int (rl es);
          b1 \<leftarrow> each (\<lambda>x b. pack_one rl x (depth + 1) b) (map (lua_rawgeti es) [1..array_size]) (wb_array_size array_size b);
          b2 \<leftarrow> each (\<lambda>x b. pack_one rl x (depth + 1) b)
             (concat (map (\<lambda>(k, v). [k, v]) (filter (\<lambda>e. \<not> in_array array_size (fst e)) es))) b1;
          Some (wb_nil b2) }
      | LPairs es \<Rightarrow> do {
          b1 \<leftarrow> each (\<lambda>x b. pack_one rl x (depth + 1) b) (concat (map (\<lambda>(k, v). [k, v]) es)) (wb_push [COMBINE_TYPE 6 0] b);
          Some (wb_nil b1) }
      | LOther \<Rightarrow> None)"
  by pat_completeness auto
termination
proof (relation "measure (\<lambda>(rl, v, depth, b). size v)", goal_cases)
  case (2 rl v depth b es n x c)
  then show ?case using size_rawgeti_less [of x es "[1..n]"] by simp
next
  case (3 rl v depth b es n b1 x c)
  then show ?case using entry_size by fastforce
next
  case (4 rl v depth b es x c)
  then show ?case using entry_size by fastforce
qed simp

declare pack_one.simps [simp del]

definition luaseri_pack :: "(lua_entries \<Rightarrow> nat) \<Rightarrow> lua_value list \<Rightarrow> bytes option" where
  "luaseri_pack rl vs = do {
     wb \<leftarrow> each (\<lambda>v b. pack_one rl v 0 b) vs wb_init;
     buffer \<leftarrow> seri (wb_blocks wb) (wb_len wb);
     those buffer }"

subsection \<open>Unpacking\<close>

definition rb_read :: "nat \<Rightarrow> bytes \<Rightarrow> (bytes \<times> bytes) option" where
  "rb_read sz rb = (if length rb < sz then None else Some (take sz rb, drop sz rb))"

fun from_le :: "bytes \<Rightarrow> u64" where
  "from_le [] = 0"
| "from_le (b # bs) = ucast b OR push_bit 8 (from_le bs)"

definition get_integer :: "nat \<Rightarrow> bytes \<Rightarrow> (u64 \<times> bytes) option" where
  "get_integer cookie rb =
     (if cookie = 0 then Some (0, rb)
      else if cookie = 1 then do { (n, r) \<leftarrow> rb_read 1 rb; Some (from_le n, r) }
      else if cookie = 2 then do { (n, r) \<leftarrow> rb_read 2 rb; Some (from_le n, r) }
      else if cookie = 4 then do { (n, r) \<leftarrow> rb_read 4 rb; Some (int32 (from_le n), r) }
      else if cookie = 6 then do { (n, r) \<leftarrow> rb_read 8 rb; Some (from_le n, r) }
      else None)"

definition get_real :: "bytes \<Rightarrow> (u64 \<times> bytes) option" where
  "get_real rb = do { (n, r) \<leftarrow> rb_read 8 rb; Some (from_le n, r) }"

definition get_pointer :: "bytes \<Rightarrow> (u64 \<times> bytes) option" where
  "get_pointer rb = do { (n, r) \<leftarrow> rb_read 8 rb; Some (from_le n, r) }"

text \<open>A negative length passes \<open>rb_read\<close>; Lua then refuses to make a string of that size.\<close>

definition get_buffer :: "int \<Rightarrow> bytes \<Rightarrow> (bytes \<times> bytes) option" where
  "get_buffer len rb = (if len < 0 then None else rb_read (nat len) rb)"

definition table_size :: "nat \<Rightarrow> bytes \<Rightarrow> (int \<times> bytes) option" where
  "table_size array_size rb =
     (if array_size = MAX_COOKIE - 1 then do {
        (t, r) \<leftarrow> rb_read 1 rb;
        let cookie = unat (drop_bit 3 (hd t));
        c_assert (hd t AND 7 = 2 \<and> cookie \<noteq> 8);
        (n, r1) \<leftarrow> get_integer cookie r;
        Some (sint (ucast n :: u32), r1) }
      else Some (int array_size, rb))"

text \<open>
  The recursion is bounded by fuel. Every call of \<open>unpack_one\<close> uses up a byte, so that more than the number of bytes is never used
  up (\<open>unpack_fuel\<close>). \<open>u\<close> is \<open>unpack_one\<close> with the fuel that is left.
\<close>

type_synonym unpacker = "bytes \<Rightarrow> (lua_value \<times> bytes) option"

primrec unpack_array :: "unpacker \<Rightarrow> nat \<Rightarrow> int \<Rightarrow> int \<Rightarrow> lua_entries \<Rightarrow> bytes \<Rightarrow> (lua_entries \<times> bytes) option" where
  "unpack_array u 0 i array_size es rb = None"
| "unpack_array u (Suc f) i array_size es rb =
     (if i \<le> array_size then do {
        (v, r) \<leftarrow> u rb;
        es' \<leftarrow> lua_rawset (LInteger (word_of_int i)) v es;
        unpack_array u f (i + 1) array_size es' r }
      else Some (es, rb))"

primrec unpack_pairs :: "unpacker \<Rightarrow> nat \<Rightarrow> lua_entries \<Rightarrow> bytes \<Rightarrow> (lua_entries \<times> bytes) option" where
  "unpack_pairs u 0 es rb = None"
| "unpack_pairs u (Suc f) es rb = do {
     (k, r) \<leftarrow> u rb;
     if k = LNil then Some (es, r)
     else do {
       (v, r1) \<leftarrow> u r;
       es' \<leftarrow> lua_rawset k v es;
       unpack_pairs u f es' r1 } }"

definition unpack_table :: "unpacker \<Rightarrow> nat \<Rightarrow> nat \<Rightarrow> bytes \<Rightarrow> (lua_entries \<times> bytes) option" where
  "unpack_table u f cookie rb = do {
     (array_size, r) \<leftarrow> table_size cookie rb;
     (es, r1) \<leftarrow> unpack_array u f 1 array_size [] r;
     unpack_pairs u f es r1 }"

definition push_value :: "unpacker \<Rightarrow> nat \<Rightarrow> nat \<Rightarrow> nat \<Rightarrow> bytes \<Rightarrow> (lua_value \<times> bytes) option" where
  "push_value u f type cookie rb =
     (if type = 0 then Some (LNil, rb)
      else if type = 1 then Some (LBoolean (cookie \<noteq> 0), rb)
      else if type = 2 then
        (if cookie = 8 then do { (x, r) \<leftarrow> get_real rb; Some (LReal x, r) }
         else do { (x, r) \<leftarrow> get_integer cookie rb; Some (LInteger x, r) })
      else if type = 3 then do { (x, r) \<leftarrow> get_pointer rb; Some (LPointer x, r) }
      else if type = 4 then do { (s, r) \<leftarrow> get_buffer (int cookie) rb; Some (LString s, r) }
      else if type = 5 then do {
        c_assert (cookie = 2 \<or> cookie = 4);
        (n, r) \<leftarrow> rb_read cookie rb;
        (s, r1) \<leftarrow> get_buffer (if cookie = 2 then uint (from_le n) else sint (ucast (from_le n) :: u32)) r;
        Some (LString s, r1) }
      else if type = 6 then do { (es, r) \<leftarrow> unpack_table u f cookie rb; Some (LTable es, r) }
      else None)"

definition type_of :: "u8 \<Rightarrow> nat" where
  "type_of t = unat (t AND 7)"

definition cookie_of :: "u8 \<Rightarrow> nat" where
  "cookie_of t = unat (drop_bit 3 t)"

primrec unpack_one :: "nat \<Rightarrow> unpacker" where
  "unpack_one 0 = (\<lambda>rb. None)"
| "unpack_one (Suc f) = (\<lambda>rb. do {
     (t, r) \<leftarrow> rb_read 1 rb;
     push_value (unpack_one f) f (type_of (hd t)) (cookie_of (hd t)) r })"

primrec unpack_all :: "nat \<Rightarrow> bytes \<Rightarrow> lua_value list option" where
  "unpack_all 0 rb = None"
| "unpack_all (Suc f) rb =
     (case rb_read 1 rb of
        None \<Rightarrow> Some []
      | Some (t, r) \<Rightarrow> do {
          (v, r1) \<leftarrow> push_value (unpack_one f) f (type_of (hd t)) (cookie_of (hd t)) r;
          vs \<leftarrow> unpack_all f r1;
          Some (v # vs) })"

definition luaseri_unpack :: "bytes \<Rightarrow> lua_value list option" where
  "luaseri_unpack buffer = unpack_all (Suc (length buffer)) buffer"

subsection \<open>The chain of blocks is a list of bytes\<close>

definition wb_holds :: "write_block \<Rightarrow> bytes \<Rightarrow> bool" where
  "wb_holds b bs \<longleftrightarrow> wb_blocks b \<noteq> [] \<and> (\<forall>c \<in> set (wb_blocks b). length c = BLOCK_SIZE) \<and> wb_ptr b \<le> BLOCK_SIZE \<and>
     wb_len b = length bs \<and> concat (butlast (wb_blocks b)) @ take (wb_ptr b) (last (wb_blocks b)) = map Some bs"

lemma wb_holds_init: "wb_holds wb_init []"
  by (simp add: wb_holds_def wb_init_def blk_alloc_def)

lemma wb_holds_next: "wb_holds b bs \<Longrightarrow> wb_ptr b = BLOCK_SIZE \<Longrightarrow> wb_holds (wb_next b) bs"
  unfolding wb_holds_def wb_next_def blk_alloc_def
  by (cases "wb_blocks b" rule: rev_cases) (auto simp: butlast_append)

lemma wb_holds_copy:
  assumes "wb_holds b bs" "wb_ptr b + length buf \<le> BLOCK_SIZE"
  shows "wb_holds ((wb_copy buf b)\<lparr>wb_ptr := wb_ptr b + length buf\<rparr>) (bs @ buf)"
proof -
  obtain bl c where b: "wb_blocks b = bl @ [c]" using assms(1) by (cases "wb_blocks b" rule: rev_cases) (auto simp: wb_holds_def)
  then show ?thesis using assms by (auto simp: wb_holds_def wb_copy_def Let_def)
qed

lemma wb_put_holds: "wb_holds b bs \<Longrightarrow> wb_holds (wb_put buf b) (bs @ buf)"
proof (induction buf b arbitrary: bs rule: wb_put.induct)
  case (1 buf b)
  show ?case
  proof (cases "wb_ptr b + length buf \<le> BLOCK_SIZE")
    case True
    then show ?thesis using wb_holds_copy [OF 1(2) True] by (subst wb_put.simps) simp
  next
    case False
    let ?n = "BLOCK_SIZE - wb_ptr b"
    have p: "wb_ptr b \<le> BLOCK_SIZE" using 1(2) by (simp add: wb_holds_def)
    have "wb_next (wb_copy (take ?n buf) b) = wb_next ((wb_copy (take ?n buf) b)\<lparr>wb_ptr := BLOCK_SIZE\<rparr>)"
      by (simp add: wb_next_def)
    moreover have "wb_holds ((wb_copy (take ?n buf) b)\<lparr>wb_ptr := BLOCK_SIZE\<rparr>) (bs @ take ?n buf)"
      using wb_holds_copy [OF 1(2), of "take ?n buf"] p False by simp
    ultimately have "wb_holds (wb_next (wb_copy (take ?n buf) b)) (bs @ take ?n buf)" using wb_holds_next by simp
    from 1(1) [OF False refl this] have "wb_holds (wb_put (drop ?n buf) (wb_next (wb_copy (take ?n buf) b))) (bs @ buf)" by simp
    then show ?thesis using False by (subst wb_put.simps) (simp add: Let_def)
  qed
qed

lemma wb_push_holds: "wb_holds b bs \<Longrightarrow> wb_holds (wb_push buf b) (bs @ buf)"
  using wb_put_holds wb_holds_next by (simp add: wb_push_def)

lemma seri_full:
  "(\<forall>c \<in> set bl. length c = BLOCK_SIZE) \<Longrightarrow> seri (bl @ cs) (BLOCK_SIZE * length bl + n) = map_option ((@) (concat bl)) (seri cs n)"
proof (induction bl)
  case Nil
  show ?case by (cases "seri cs n") auto
next
  case (Cons b bl)
  obtain k where k: "BLOCK_SIZE * length (b # bl) + n = Suc k" "BLOCK_SIZE \<le> Suc k" "Suc k - BLOCK_SIZE = BLOCK_SIZE * length bl + n"
    by (cases "BLOCK_SIZE * length (b # bl) + n") (auto simp: BLOCK_SIZE_def)
  from Cons have "seri (bl @ cs) (Suc k - BLOCK_SIZE) = map_option ((@) (concat bl)) (seri cs n)" using k(3) by simp
  with k(1,2) Cons.prems show ?case by (simp add: option.map_comp comp_def)
qed

lemma concat_length: "(\<forall>c \<in> set bl. length c = n) \<Longrightarrow> length (concat bl) = n * length bl"
  by (induction bl) auto

lemma seri_last:
  assumes "n \<le> BLOCK_SIZE"
  shows "seri [c] n = Some (take n c)"
proof (cases n)
  case (Suc m)
  show ?thesis
  proof (cases "BLOCK_SIZE \<le> Suc m")
    case True
    with assms Suc have "Suc m - BLOCK_SIZE = 0" "take BLOCK_SIZE c = take (Suc m) c" by simp_all
    with True show ?thesis unfolding Suc seri.simps(3) by (simp only: if_True seri.simps(1)) simp
  next
    case False
    then show ?thesis unfolding Suc by (simp only: seri.simps if_False)
  qed
qed simp

lemma seri_holds:
  assumes "wb_holds b bs"
  shows "seri (wb_blocks b) (wb_len b) = Some (map Some bs)"
proof -
  obtain bl c where b: "wb_blocks b = bl @ [c]" using assms by (cases "wb_blocks b" rule: rev_cases) (auto simp: wb_holds_def)
  have k: "\<forall>c \<in> set bl. length c = BLOCK_SIZE" "length c = BLOCK_SIZE" "wb_ptr b \<le> BLOCK_SIZE" "wb_len b = length bs"
    "concat bl @ take (wb_ptr b) c = map Some bs" using assms b by (auto simp: wb_holds_def)
  have "length bs = BLOCK_SIZE * length bl + wb_ptr b"
    using arg_cong [OF k(5), of length] concat_length [OF k(1)] k(2,3) by simp
  then have "seri (wb_blocks b) (wb_len b) = map_option ((@) (concat bl)) (seri [c] (wb_ptr b))"
    unfolding b k(4) using seri_full [OF k(1)] by simp
  moreover have "seri [c] (wb_ptr b) = Some (take (wb_ptr b) c)" using k(3) by (rule seri_last)
  ultimately show ?thesis using k(5) by simp
qed

subsection \<open>Integers in memory\<close>

lemma length_le_bytes [simp]: "length (le_bytes n w) = n"
  by (induction n arbitrary: w) simp_all

lemma from_le_bytes: "from_le (le_bytes n w) = take_bit (8 * n) w"
proof (induction n arbitrary: w)
  case (Suc n)
  have "from_le (le_bytes (Suc n) w) = ucast (ucast w :: u8) OR push_bit 8 (take_bit (8 * n) (drop_bit 8 w))" using Suc by simp
  also have "\<dots> = take_bit (8 * Suc n) w"
  proof (rule bit_word_eqI)
    fix i
    assume "i < LENGTH(64)"
    then show "bit (ucast (ucast w :: u8) OR push_bit 8 (take_bit (8 * n) (drop_bit 8 w))) i = bit (take_bit (8 * Suc n) w) i"
      by (cases "i < 8") (auto simp: bit_or_iff bit_push_bit_iff bit_take_bit_iff bit_drop_bit_eq bit_ucast_iff)
  qed
  finally show ?case .
qed simp

lemma from_le_8 [simp]: "from_le (le_bytes 8 w) = w"
  using from_le_bytes [of 8 w] take_bit_word_eq_self [of 64 w] by simp

lemma take_bit_small: 
  assumes "0 \<le> sint w" "sint w < 2 ^ n"
  shows "take_bit n (w :: u64) = w"
proof (rule bit_word_eqI)
  fix i
  assume i: "i < LENGTH(64)"
  have "take_bit n (sint w) = sint w" using assms by (rule take_bit_int_eq_self)
  then have "bit (sint w) i \<Longrightarrow> i < n" by (metis bit_take_bit_iff)
  moreover have "bit (sint w) i = bit w i" using i by (auto simp: bit_sint_iff min_def less_Suc_eq)
  ultimately show "bit (take_bit n w) i = bit w i" by (auto simp: bit_take_bit_iff)
qed

lemma int32_take [simp]: "int32 (take_bit 32 w) = int32 w"
  by (rule bit_word_eqI) (auto simp: int32_def bit_signed_take_bit_iff bit_take_bit_iff min_def)

subsection \<open>What is written is read back\<close>

definition writes :: "(write_block \<Rightarrow> write_block) \<Rightarrow> bytes \<Rightarrow> bool" where
  "writes g e \<longleftrightarrow> (\<forall>b bs. wb_holds b bs \<longrightarrow> wb_holds (g b) (bs @ e))"

lemma writes_push: "writes (wb_push e) e"
  by (simp add: writes_def wb_push_holds)

lemma writes_then: "writes g e1 \<Longrightarrow> writes (\<lambda>b. wb_push e2 (g b)) (e1 @ e2)"
  unfolding writes_def append_assoc [symmetric] by (blast intro: wb_push_holds)

lemmas writes_push2 = writes_then [OF writes_push]

lemma bit_word_nat: "bit (word_of_nat n :: 'a::len word) i \<longleftrightarrow> i < LENGTH('a) \<and> bit n i"
proof -
  have "(word_of_nat n :: 'a word) = word_of_int (int n)" by simp
  then show ?thesis by (simp only: bit_word_of_int_iff bit_of_nat_iff_bit)
qed

lemma bit_less:
  assumes "(n::nat) < 2 ^ k" "bit n i"
  shows "i < k"
  using assms take_bit_nat_eq_self [of n k] by (metis bit_take_bit_iff)

lemma rb_read_append: "length x = n \<Longrightarrow> rb_read n (x @ r) = Some (x, r)"
  by (auto simp: rb_read_def)

lemma rb_read_1 [simp]: "rb_read 1 (x # r) = Some ([x], r)" "rb_read (Suc 0) (x # r) = Some ([x], r)"
  by (simp_all add: rb_read_def)

definition decodes :: "bytes \<Rightarrow> lua_value \<Rightarrow> bool" where
  "decodes e v \<longleftrightarrow> e \<noteq> [] \<and> (\<forall>f rest. length e \<le> f \<longrightarrow> unpack_one f (e @ rest) = Some (v, rest))"

lemma decodesI:
  assumes "\<And>f rest. length p \<le> f \<Longrightarrow> push_value (unpack_one f) f (type_of t) (cookie_of t) (p @ rest) = Some (v, rest)"
  shows "decodes (t # p) v"
  unfolding decodes_def
proof (intro conjI allI impI)
  fix f rest
  assume "length (t # p) \<le> f"
  then obtain g where "f = Suc g" "length p \<le> g" by (cases f) auto
  with assms show "unpack_one f ((t # p) @ rest) = Some (v, rest)" by simp
qed simp

lemma byte_of_type:
  assumes "t < 8" "n < 32"
  shows "type_of (word_of_nat t OR push_bit 3 (word_of_nat n)) = t" "cookie_of (word_of_nat t OR push_bit 3 (word_of_nat n)) = n"
proof -
  let ?w = "word_of_nat t OR push_bit 3 (word_of_nat n) :: u8"
  have t: "bit t i \<Longrightarrow> i < 3" for i using bit_less [of t 3 i] assms(1) by simp
  have n: "bit n i \<Longrightarrow> i < 5" for i using bit_less [of n 5 i] assms(2) by simp
  have 7: "bit (7 :: u8) i \<longleftrightarrow> i < 3" for i
  proof -
    have "(7 :: u8) = mask 3" by (simp add: mask_eq_exp_minus_1)
    then show ?thesis by (simp only: bit_mask_iff) auto
  qed
  have "?w AND 7 = word_of_nat t"
    by (rule bit_word_eqI) (simp only: bit_and_iff 7 bit_or_iff bit_push_bit_iff bit_word_nat, use t in auto)
  then show "type_of ?w = t" using assms(1) by (simp add: type_of_def unat_of_nat)
  have "drop_bit 3 ?w = word_of_nat n"
    using t n by (intro bit_word_eqI) (auto simp: bit_drop_bit_eq bit_or_iff bit_push_bit_iff bit_word_nat dest!: t)
  then show "cookie_of ?w = n" using assms(2) by (simp add: cookie_of_def unat_of_nat)
qed

lemma combine_type:
  assumes "t < 8" "n < 32"
  shows "type_of (COMBINE_TYPE t n) = t" "cookie_of (COMBINE_TYPE t n) = n"
  unfolding COMBINE_TYPE_def by (rule byte_of_type [OF assms])+

lemma writes_integer:
  "\<exists>c p. writes (wb_integer v) (COMBINE_TYPE 2 c # p) \<and> c < 8 \<and> (\<forall>rest. get_integer c (p @ rest) = Some (v, rest))"
proof -
  have w: "writes (\<lambda>b. wb_push p (wb_push [COMBINE_TYPE 2 c] b)) (COMBINE_TYPE 2 c # p)" for c p
    using writes_push2 [of p "[COMBINE_TYPE 2 c]"] by simp
  have d: "get_integer 4 (le_bytes 4 v @ rest) = Some (v, rest)" if "v = int32 v" for rest
    using that rb_read_append [of "le_bytes 4 v" 4 rest] by (simp add: get_integer_def from_le_bytes)
  have s: "take_bit 8 v = v" if "\<not> sint v < 0" "sint v < 0x100" using take_bit_small [of v 8] that by simp
  have t: "take_bit 16 v = v" if "\<not> sint v < 0" "sint v < 0x10000" using take_bit_small [of v 16] that by simp
  consider "v = 0" | "v \<noteq> 0" "v \<noteq> int32 v" | "v \<noteq> 0" "v = int32 v" "sint v < 0 \<or> 0x10000 \<le> sint v"
    | "v \<noteq> 0" "v = int32 v" "\<not> sint v < 0" "sint v < 0x100" | "v \<noteq> 0" "v = int32 v" "\<not> sint v < 0" "0x100 \<le> sint v" "sint v < 0x10000"
    by linarith
  then show ?thesis
  proof cases
    case 1
    then have "wb_integer v = wb_push [COMBINE_TYPE 2 0]" by (simp add: wb_integer_def fun_eq_iff)
    with 1 show ?thesis using writes_push by (intro exI [of _ 0] exI [of _ "[]"]) (simp add: get_integer_def)
  next
    case 2
    then have "wb_integer v = (\<lambda>b. wb_push (le_bytes 8 v) (wb_push [COMBINE_TYPE 2 6] b))" by (simp add: wb_integer_def fun_eq_iff)
    then show ?thesis using w [of "le_bytes 8 v" 6]
      by (intro exI [of _ 6] exI [of _ "le_bytes 8 v"]) (simp add: get_integer_def rb_read_append)
  next
    case 3
    then have "wb_integer v = (\<lambda>b. wb_push (le_bytes 4 v) (wb_push [COMBINE_TYPE 2 4] b))" by (auto simp: wb_integer_def fun_eq_iff)
    then show ?thesis using w [of "le_bytes 4 v" 4] d 3
      by (intro exI [of _ 4] exI [of _ "le_bytes 4 v"]) simp
  next
    case 4
    then have "wb_integer v = (\<lambda>b. wb_push (le_bytes 1 v) (wb_push [COMBINE_TYPE 2 1] b))" by (auto simp: wb_integer_def fun_eq_iff)
    then show ?thesis using w [of "le_bytes 1 v" 1] s 4
      by (intro exI [of _ 1] exI [of _ "le_bytes 1 v"]) (simp add: get_integer_def rb_read_append from_le_bytes del: le_bytes.simps)
  next
    case 5
    then have "wb_integer v = (\<lambda>b. wb_push (le_bytes 2 v) (wb_push [COMBINE_TYPE 2 2] b))" by (auto simp: wb_integer_def fun_eq_iff)
    then show ?thesis using w [of "le_bytes 2 v" 2] t 5
      by (intro exI [of _ 2] exI [of _ "le_bytes 2 v"]) (simp add: get_integer_def rb_read_append from_le_bytes)
  qed
qed

lemma to_int_small: "n < 2 ^ 31 \<Longrightarrow> to_int n = int n"
  unfolding to_int_def signed_of_nat by (simp add: signed_take_bit_int_eq_self)

lemma length_read_back:
  assumes "n < 2 ^ 31"
  shows "sint (ucast (from_le (le_bytes 4 (word_of_int (int n)))) :: u32) = int n" "sint (ucast (word_of_int (int n) :: u64) :: u32) = int n"
    "n < 0x10000 \<Longrightarrow> unat (from_le (le_bytes 2 (word_of_int (int n)))) = n"
proof -
  have "(ucast (take_bit 32 (word_of_int (int n) :: u64)) :: u32) = word_of_nat n" "(ucast (word_of_int (int n) :: u64) :: u32) = word_of_nat n"
    by (rule bit_word_eqI; auto simp: bit_ucast_iff bit_take_bit_iff bit_word_of_int_iff bit_word_nat)+
  with to_int_small [OF assms] show "sint (ucast (from_le (le_bytes 4 (word_of_int (int n)))) :: u32) = int n"
    "sint (ucast (word_of_int (int n) :: u64) :: u32) = int n" by (simp_all add: from_le_bytes to_int_def)
  assume "n < 0x10000"
  then have "take_bit 16 n = n" "take_bit 64 n = n" by (intro take_bit_nat_eq_self; simp)+
  then show "unat (from_le (le_bytes 2 (word_of_int (int n)))) = n"
    by (simp add: from_le_bytes unsigned_take_bit_eq unsigned_of_nat)
qed

lemma writes_string:
  assumes "length s < 2 ^ 31"
  shows "\<exists>e. writes (wb_string s) e \<and> decodes e (LString s)"
proof -
  have l: "to_int (length s) = int (length s)" using assms by (rule to_int_small)
  consider "length s < 32" | "32 \<le> length s" "length s < 0x10000" | "32 \<le> length s" "0x10000 \<le> length s" by linarith
  then show ?thesis
  proof cases
    case 1
    let ?t = "word_of_nat 4 OR push_bit 3 (word_of_nat (length s)) :: u8"
    have "writes (wb_string s) (?t # s)"
    proof (cases "s = []")
      case True
      then have "wb_string s = wb_push [?t]" using l 1 by (simp add: wb_string_def MAX_COOKIE_def fun_eq_iff)
      with True show ?thesis using writes_push by simp
    next
      case False
      then have "wb_string s = (\<lambda>b. wb_push s (wb_push [?t] b))" using l 1 by (simp add: wb_string_def MAX_COOKIE_def fun_eq_iff)
      then show ?thesis using writes_push2 [of s "[?t]"] by simp
    qed
    moreover have "decodes (?t # s) (LString s)"
      using byte_of_type [of 4 "length s"] 1 by (intro decodesI) (simp add: push_value_def get_buffer_def rb_read_append)
    ultimately show ?thesis by blast
  next
    case 2
    let ?p = "le_bytes 2 (word_of_int (int (length s)))"
    have "wb_string s = (\<lambda>b. wb_push s (wb_push ?p (wb_push [COMBINE_TYPE 5 2] b)))"
      using l 2 by (simp add: wb_string_def MAX_COOKIE_def fun_eq_iff)
    then have "writes (wb_string s) (COMBINE_TYPE 5 2 # ?p @ s)"
      using writes_then [OF writes_push2 [of ?p "[COMBINE_TYPE 5 2]"], of s] by simp
    moreover have "decodes (COMBINE_TYPE 5 2 # ?p @ s) (LString s)"
      using combine_type [of 5 2] 2 length_read_back(3) [OF assms] rb_read_append [of ?p 2]
      by (intro decodesI) (simp add: push_value_def get_buffer_def rb_read_append)
    ultimately show ?thesis by blast
  next
    case 3
    let ?p = "le_bytes 4 (word_of_int (int (length s)))"
    have "wb_string s = (\<lambda>b. wb_push s (wb_push ?p (wb_push [COMBINE_TYPE 5 4] b)))"
      using l 3 by (simp add: wb_string_def MAX_COOKIE_def fun_eq_iff)
    then have "writes (wb_string s) (COMBINE_TYPE 5 4 # ?p @ s)"
      using writes_then [OF writes_push2 [of ?p "[COMBINE_TYPE 5 4]"], of s] by simp
    moreover have "decodes (COMBINE_TYPE 5 4 # ?p @ s) (LString s)"
      using combine_type [of 5 4] 3 length_read_back(1) [OF assms] rb_read_append [of ?p 4]
      by (intro decodesI) (simp add: push_value_def get_buffer_def rb_read_append)
    ultimately show ?thesis by blast
  qed
qed

subsection \<open>Tables are read back\<close>

text \<open>What holds of every table of Lua: keys are normal and different from each other, values are not nil.\<close>

definition entries_ok :: "lua_entries \<Rightarrow> bool" where
  "entries_ok es \<longleftrightarrow> (\<forall>e \<in> set es. norm_key (fst e) = Some (fst e) \<and> snd e \<noteq> LNil) \<and>
     sorted_wrt (\<lambda>a b. \<not> key_eq (fst a) (fst b)) es"

text \<open>Equality of Lua values up to the order of entries and the identity of tables; \<open>__pairs\<close> becomes a plain table.\<close>

inductive same :: "lua_value \<Rightarrow> lua_value \<Rightarrow> bool" where
  same_plain: "(\<And>es. v \<noteq> LTable es) \<Longrightarrow> (\<And>es. v \<noteq> LPairs es) \<Longrightarrow> v \<noteq> LOther \<Longrightarrow> same v v"
| same_table: "mset zs = mset es \<Longrightarrow> list_all2 (\<lambda>a b. same (fst a) (fst b) \<and> same (snd a) (snd b)) zs es' \<Longrightarrow>
    same (LTable es) (LTable es')"
| same_pairs: "list_all2 (\<lambda>a b. same (fst a) (fst b) \<and> same (snd a) (snd b)) es es' \<Longrightarrow> same (LPairs es) (LTable es')"

inductive_cases same_NilE: "same v LNil"
inductive_cases same_nilE: "same LNil v"

abbreviation "same_entry a b \<equiv> same (fst a) (fst b) \<and> same (snd a) (snd b)"

lemma same_nil_iff: "same v v' \<Longrightarrow> v' = LNil \<longleftrightarrow> v = LNil"
  by (auto elim: same_NilE same_nilE)

lemma same_norm: "same k k' \<Longrightarrow> norm_key k = Some k \<Longrightarrow> norm_key k' = Some k'"
  by (erule same.cases) (auto simp: norm_key_def)

lemma same_cases: "same a a' \<Longrightarrow> a = a' \<or> (\<exists>es. a' = LTable es)"
  by (erule same.cases) auto

lemma key_eq_plain: "key_eq a b \<Longrightarrow> a = b \<and> (\<forall>es. a \<noteq> LTable es)"
  by (cases a) auto

lemma same_key_eq: "same a a' \<Longrightarrow> same b b' \<Longrightarrow> key_eq a' b' \<Longrightarrow> key_eq a b"
proof -
  assume s: "same a a'" "same b b'" and k: "key_eq a' b'"
  from key_eq_plain [OF k] have "a' = b'" "\<forall>es. a' \<noteq> LTable es" by auto
  with same_cases [OF s(1)] same_cases [OF s(2)] have "a = a'" "b = b'" by auto
  with k show "key_eq a b" by simp
qed

lemma entries_ok_same:
  assumes "list_all2 same_entry es es'" "entries_ok es"
  shows "entries_ok es'"
  using assms
proof (induction es es' rule: list_all2_induct)
  case Nil
  show ?case by (simp add: entries_ok_def)
next
  case (Cons x xs y ys)
  from Cons.prems have x: "norm_key (fst x) = Some (fst x)" "snd x \<noteq> LNil" "\<And>a. a \<in> set xs \<Longrightarrow> \<not> key_eq (fst x) (fst a)"
    "entries_ok xs" by (simp_all add: entries_ok_def)
  from Cons.hyps(1) have xy: "same (fst x) (fst y)" "same (snd x) (snd y)" by simp_all
  have "\<not> key_eq (fst y) (fst b)" if "b \<in> set ys" for b
  proof -
    from that obtain i where "i < length ys" "b = ys ! i" by (auto simp: in_set_conv_nth)
    with Cons.hyps(2) have "xs ! i \<in> set xs" "same (fst (xs ! i)) (fst b)" by (auto simp: list_all2_conv_all_nth)
    with same_key_eq [OF xy(1)] x(3) show ?thesis by blast
  qed
  moreover have "entries_ok ys" by (rule Cons.IH [OF x(4)])
  moreover have "norm_key (fst y) = Some (fst y)" by (rule same_norm [OF xy(1) x(1)])
  moreover have "snd y \<noteq> LNil" using same_nil_iff [OF xy(2)] x(2) by simp
  ultimately show ?case by (simp add: entries_ok_def)
qed

lemma entry_set_new: "\<forall>e \<in> set es. \<not> key_eq (fst e) k \<Longrightarrow> entry_set k v es = es @ [(k, v)]"
  by (induction k v es rule: entry_set.induct) auto

lemma rawset_new:
  "norm_key k = Some k \<Longrightarrow> v \<noteq> LNil \<Longrightarrow> \<forall>e \<in> set es. \<not> key_eq (fst e) k \<Longrightarrow> lua_rawset k v es = Some (es @ [(k, v)])"
  by (simp add: lua_rawset_def entry_set_new)

lemma rawset_nil: "norm_key k = Some k \<Longrightarrow> \<forall>e \<in> set es. \<not> key_eq (fst e) k \<Longrightarrow> lua_rawset k LNil es = Some es"
  by (simp add: lua_rawset_def filter_id_conv)

text \<open>The pairs of a table, keys and values in turn.\<close>

abbreviation "flat es \<equiv> concat (map (\<lambda>(k, v). [k, v]) es)"

lemma decodesD: "decodes e v \<Longrightarrow> length e \<le> f \<Longrightarrow> unpack_one f (e @ rest) = Some (v, rest)"
  by (simp add: decodes_def)

lemma decodes_length: "decodes e v \<Longrightarrow> 0 < length e"
  by (simp add: decodes_def)

lemma decodes_nil: "decodes [COMBINE_TYPE 0 0] LNil"
  using combine_type [of 0 0] by (intro decodesI) (simp add: push_value_def)

lemma norm_key_nil: "norm_key LNil = None"
  by (simp add: norm_key_def)

lemma unpack_pairs_flat:
  assumes "list_all2 decodes encs (flat es')" "entries_ok (es @ es')" "length (concat encs) < g" "length encs < f"
  shows "unpack_pairs (unpack_one g) f es (concat encs @ COMBINE_TYPE 0 0 # rest) = Some (es @ es', rest)"
  using assms
proof (induction es' arbitrary: encs es f)
  case Nil
  then obtain h where "f = Suc h" by (cases f) auto
  with Nil decodesD [OF decodes_nil, of g rest] show ?case by simp
next
  case (Cons e es')
  obtain k v where e: "e = (k, v)" by (cases e)
  from Cons.prems(1) obtain x y zs where z: "encs = x # y # zs" "decodes x k" "decodes y v" "list_all2 decodes zs (flat es')"
    by (auto simp: e list_all2_Cons2)
  obtain h where h: "f = Suc h" using Cons.prems(4) by (cases f) auto
  have ok: "norm_key k = Some k" "k \<noteq> LNil" "v \<noteq> LNil" "\<forall>e \<in> set es. \<not> key_eq (fst e) k"
    using Cons.prems(2) norm_key_nil by (auto simp: entries_ok_def e sorted_wrt_append)
  have "unpack_pairs (unpack_one g) h (es @ [(k, v)]) (concat zs @ COMBINE_TYPE 0 0 # rest) = Some ((es @ [(k, v)]) @ es', rest)"
    using Cons.IH [OF z(4), of "es @ [(k, v)]" h] Cons.prems h z(1) by (simp add: e)
  moreover have "unpack_one g (x @ y @ concat zs @ COMBINE_TYPE 0 0 # rest) = Some (k, y @ concat zs @ COMBINE_TYPE 0 0 # rest)"
    "unpack_one g (y @ concat zs @ COMBINE_TYPE 0 0 # rest) = Some (v, concat zs @ COMBINE_TYPE 0 0 # rest)"
    using decodesD [OF z(2)] decodesD [OF z(3)] Cons.prems(3) z(1) by simp_all
  ultimately show ?case using z(1) h ok rawset_new [OF ok(1,3,4)] by (simp add: e)
qed

text \<open>The elements of the array part that are not nil.\<close>

definition array_entries :: "int \<Rightarrow> lua_value list \<Rightarrow> lua_entries" where
  "array_entries i vs = filter (\<lambda>e. snd e \<noteq> LNil) (map (\<lambda>j. (LInteger (word_of_int (i + int j)), vs ! j)) [0..<length vs])"

lemma array_entries_Nil [simp]: "array_entries i [] = []"
  by (simp add: array_entries_def)

lemma array_entries_Cons:
  "array_entries i (v # vs) = (if v = LNil then [] else [(LInteger (word_of_int i), v)]) @ array_entries (i + 1) vs"
proof -
  have "map (\<lambda>j. (LInteger (word_of_int (i + int j)), (v # vs) ! j)) [0..<length (v # vs)] =
    (LInteger (word_of_int i), v) # map (\<lambda>j. (LInteger (word_of_int (i + 1 + int j)), vs ! j)) [0..<length vs]"
    by (simp add: map_upt_Suc add.assoc del: upt_Suc)
  then show ?thesis by (simp add: array_entries_def)
qed

lemma word_of_int_less:
  assumes "0 < i" "i < 2 ^ 31" "0 < j" "j < 2 ^ 31"
  shows "(word_of_int i :: u64) = word_of_int j \<longleftrightarrow> i = j" "sint (word_of_int i :: u64) = i"
proof -
  have s: "sint (word_of_int i :: u64) = i" if "0 < i" "i < 2 ^ 31" for i
    unfolding signed_of_int using that by (simp add: signed_take_bit_int_eq_self)
  from s [OF assms(1,2)] s [OF assms(3,4)] show "(word_of_int i :: u64) = word_of_int j \<longleftrightarrow> i = j" by metis
  show "sint (word_of_int i :: u64) = i" by (rule s [OF assms(1,2)])
qed

lemma unpack_array_spec:
  assumes "list_all2 decodes encs vs" "0 < i" "i + int (length vs) = n + 1" "n < 2 ^ 31"
    "\<forall>e \<in> set es. \<exists>j. fst e = LInteger (word_of_int j) \<and> 0 < j \<and> j < i" "length (concat encs) \<le> g" "length encs < f"
  shows "unpack_array (unpack_one g) f i n es (concat encs @ rest) = Some (es @ array_entries i vs, rest)"
  using assms
proof (induction vs arbitrary: encs i es f rule: list.induct)
  case Nil
  then obtain h where "f = Suc h" by (cases f) auto
  moreover have "encs = []" using Nil.prems(1) by simp
  ultimately show ?case using Nil by simp
next
  case (Cons v vs)
  from Cons.prems(1) obtain x zs where z: "encs = x # zs" "decodes x v" "list_all2 decodes zs vs" by (auto simp: list_all2_Cons2)
  obtain h where h: "f = Suc h" using Cons.prems(7) by (cases f) auto
  let ?k = "LInteger (word_of_int i)"
  let ?es = "es @ (if v = LNil then [] else [(?k, v)])"
  have "\<forall>e \<in> set es. \<not> key_eq (fst e) ?k"
  proof
    fix e
    assume "e \<in> set es"
    then obtain j where "fst e = LInteger (word_of_int j)" "0 < j" "j < i" using Cons.prems(5) by blast
    with word_of_int_less(1) [of j i] Cons.prems(2-4) show "\<not> key_eq (fst e) ?k" by simp
  qed
  then have "lua_rawset ?k v es = Some ?es" using rawset_new [of ?k v es] rawset_nil [of ?k es] by (simp add: norm_key_def)
  moreover have "\<forall>e \<in> set ?es. \<exists>j. fst e = LInteger (word_of_int j) \<and> 0 < j \<and> j < i + 1"
    using Cons.prems(2,5) by (fastforce split: if_splits)
  then have "unpack_array (unpack_one g) h (i + 1) n ?es (concat zs @ rest) = Some (?es @ array_entries (i + 1) vs, rest)"
    using Cons.IH [OF z(3), of "i + 1" ?es h] Cons.prems z(1) h by simp
  moreover have "unpack_one g (x @ concat zs @ rest) = Some (v, concat zs @ rest)"
    using decodesD [OF z(2)] Cons.prems(6) z(1) by simp
  moreover have "i \<le> n" using Cons.prems(3) by simp
  ultimately show ?case using z(1) h by (simp add: array_entries_Cons)
qed

lemma array_entries_same:
  "list_all2 same vs vs' \<Longrightarrow> list_all2 same_entry (array_entries i vs) (array_entries i vs')"
proof (induction vs vs' arbitrary: i rule: list_all2_induct)
  case (Cons v vs v' vs')
  then have "same (LInteger (word_of_int i)) (LInteger (word_of_int i))" "v' = LNil \<longleftrightarrow> v = LNil"
    by (auto intro: same_plain simp: same_nil_iff)
  with Cons show ?case by (simp add: array_entries_Cons)
qed simp

lemma flat_same:
  "list_all2 same (flat es) vs \<Longrightarrow> \<exists>es'. vs = flat es' \<and> list_all2 same_entry es es'"
proof (induction es arbitrary: vs)
  case (Cons e es)
  obtain k v where e: "e = (k, v)" by (cases e)
  with Cons.prems obtain k' v' ws where w: "vs = k' # v' # ws" "same k k'" "same v v'" "list_all2 same (flat es) ws"
    by (auto simp: list_all2_Cons1)
  from Cons.IH [OF w(4)] obtain es' where "ws = flat es'" "list_all2 same_entry es es'" by blast
  with w e show ?case by (intro exI [of _ "(k', v') # es'"]) simp
qed simp

lemma decodes_count: "list_all2 decodes encs vs \<Longrightarrow> length encs \<le> length (concat encs)"
proof (induction encs vs rule: list_all2_induct)
  case (Cons e es v vs)
  have "0 < length e" using Cons.hyps(1) by (rule decodes_length)
  with Cons.IH show ?case by (simp del: length_greater_0_conv)
qed simp

text \<open>The condition on keys does not depend on the order of the entries.\<close>

definition plain_key :: "lua_value \<Rightarrow> bool" where
  "plain_key k \<longleftrightarrow> (\<forall>es. k \<noteq> LTable es) \<and> (\<forall>es. k \<noteq> LPairs es)"

lemma key_eq_iff: "key_eq a b \<longleftrightarrow> a = b \<and> plain_key a"
  by (cases a) (auto simp: plain_key_def)

lemma keys_distinct:
  "sorted_wrt (\<lambda>a b. \<not> key_eq (fst a) (fst b)) es \<longleftrightarrow> distinct (map fst (filter (\<lambda>e. plain_key (fst e)) es))"
  by (induction es) (auto simp: key_eq_iff)

lemma entries_ok_mset: "mset zs = mset es \<Longrightarrow> entries_ok es \<Longrightarrow> entries_ok zs"
proof -
  assume m: "mset zs = mset es" and ok: "entries_ok es"
  have "mset (map fst (filter (\<lambda>e. plain_key (fst e)) zs)) = mset (map fst (filter (\<lambda>e. plain_key (fst e)) es))"
    using m by simp
  then have "distinct (map fst (filter (\<lambda>e. plain_key (fst e)) zs)) = distinct (map fst (filter (\<lambda>e. plain_key (fst e)) es))"
    by (rule mset_eq_imp_distinct_iff)
  moreover have "set zs = set es" using m by (rule mset_eq_setD)
  ultimately show ?thesis using ok by (simp add: entries_ok_def keys_distinct)
qed

lemma rawgeti_mem:
  assumes "entries_ok es" "v \<noteq> LNil"
  shows "lua_rawgeti es i = v \<longleftrightarrow> (LInteger (word_of_int i), v) \<in> set es"
proof -
  let ?k = "LInteger (word_of_int i)"
  have "distinct (map fst (filter (\<lambda>e. plain_key (fst e)) es))" using assms(1) by (simp add: entries_ok_def keys_distinct)
  then show ?thesis
  proof (induction es)
    case Nil
    then show ?case using assms(2) by (simp add: lua_rawgeti_def)
  next
    case (Cons e es)
    obtain k w where e: "e = (k, w)" by (cases e)
    show ?case
    proof (cases "k = ?k")
      case True
      then have "plain_key k" by (simp add: plain_key_def)
      with Cons.prems True have "(?k, v) \<notin> set es" by (force simp: e)
      with True show ?thesis by (auto simp: lua_rawgeti_def e)
    next
      case False
      have "distinct (map fst (filter (\<lambda>e. plain_key (fst e)) es))" using Cons.prems by (simp split: if_splits)
      from Cons.IH [OF this] False show ?thesis by (simp add: lua_rawgeti_def e)
    qed
  qed
qed

lemma array_part:
  assumes "entries_ok es" "n < 2 ^ 31"
  shows "mset (array_entries 1 (map (lua_rawgeti es) [1..int n])) = mset (filter (\<lambda>e. in_array (int n) (fst e)) es)"
proof -
  let ?a = "array_entries 1 (map (lua_rawgeti es) [1..int n])" and ?b = "filter (\<lambda>e. in_array (int n) (fst e)) es"
  have a: "?a = filter (\<lambda>e. snd e \<noteq> LNil) (map (\<lambda>j. (LInteger (word_of_int (1 + int j)), lua_rawgeti es (1 + int j))) [0..<n])"
    unfolding array_entries_def by (rule arg_cong [of _ _ "filter _"]) (simp add: list_eq_iff_nth_eq)
  have w: "0 < sint x \<and> sint x \<le> int n \<longleftrightarrow> (\<exists>j < n. x = word_of_int (1 + int j))" for x :: u64
  proof
    assume x: "0 < sint x \<and> sint x \<le> int n"
    then have "x = word_of_int (1 + int (nat (sint x - 1)))" "nat (sint x - 1) < n" by auto
    then show "\<exists>j < n. x = word_of_int (1 + int j)" by blast
  next
    assume "\<exists>j < n. x = word_of_int (1 + int j)"
    then obtain j where "j < n" "x = word_of_int (1 + int j)" by blast
    with word_of_int_less(2) [of "1 + int j" 1] assms(2) show "0 < sint x \<and> sint x \<le> int n" by simp
  qed
  have "inj_on (\<lambda>j. LInteger (word_of_int (1 + int j))) {..<n}"
  proof (rule inj_onI)
    fix x y
    assume "x \<in> {..<n}" "y \<in> {..<n}" "LInteger (word_of_int (1 + int x)) = LInteger (word_of_int (1 + int y))"
    with word_of_int_less(1) [of "1 + int x" "1 + int y"] assms(2) show "x = y" by simp
  qed
  then have "distinct ?a" unfolding a by (auto simp: distinct_map inj_on_def intro: distinct_filter)
  moreover have "distinct ?b"
  proof -
    have "?b = filter (\<lambda>e. in_array (int n) (fst e)) (filter (\<lambda>e. plain_key (fst e)) es)"
      by (auto simp: in_array_def plain_key_def split: lua_value.splits intro!: filter_cong)
    moreover have "distinct (filter (\<lambda>e. plain_key (fst e)) es)"
      using assms(1) by (simp add: entries_ok_def keys_distinct distinct_map)
    ultimately show ?thesis by (metis distinct_filter)
  qed
  moreover have "set ?a = set ?b"
  proof (rule set_eqI)
    fix e :: "lua_value \<times> lua_value"
    obtain k v where e: "e = (k, v)" by (cases e)
    have "e \<in> set ?a \<longleftrightarrow> v \<noteq> LNil \<and> (\<exists>j < n. k = LInteger (word_of_int (1 + int j)) \<and> lua_rawgeti es (1 + int j) = v)"
      unfolding a e by auto
    also have "\<dots> \<longleftrightarrow> v \<noteq> LNil \<and> (\<exists>j < n. k = LInteger (word_of_int (1 + int j))) \<and> (k, v) \<in> set es"
      using rawgeti_mem [OF assms(1)] by blast
    also have "\<dots> \<longleftrightarrow> e \<in> set ?b"
      using assms(1) w by (auto simp: e in_array_def entries_ok_def split: lua_value.splits)
    finally show "e \<in> set ?a \<longleftrightarrow> e \<in> set ?b" .
  qed
  ultimately show ?thesis using set_eq_iff_mset_eq_distinct by blast
qed

subsection \<open>Packing and unpacking\<close>

text \<open>
  The values of Lua that a message can hold: strings and array parts shorter than \<open>2 ^ 31\<close>, since the code
  keeps lengths in \<open>int\<close>, and tables in which keys differ.
\<close>

function lua_wf :: "(lua_entries \<Rightarrow> nat) \<Rightarrow> lua_value \<Rightarrow> bool" where
  "lua_wf rl v =
     (case v of
        LString s \<Rightarrow> length s < 2 ^ 31
      | LTable es \<Rightarrow> rl es < 2 ^ 31 \<and> entries_ok es \<and> (\<forall>e \<in> set es. lua_wf rl (fst e) \<and> lua_wf rl (snd e))
      | LPairs es \<Rightarrow> entries_ok es \<and> (\<forall>e \<in> set es. lua_wf rl (fst e) \<and> lua_wf rl (snd e))
      | _ \<Rightarrow> True)"
  by pat_completeness auto
termination
  by (relation "measure (\<lambda>(rl, v). size v)") (use entry_size in \<open>fastforce+\<close>)

declare lua_wf.simps [simp del]

definition packs :: "(lua_entries \<Rightarrow> nat) \<Rightarrow> lua_value \<Rightarrow> bool" where
  "packs rl v \<longleftrightarrow> (\<forall>d b b' bs. pack_one rl v d b = Some b' \<longrightarrow> wb_holds b bs \<longrightarrow>
     (\<exists>e v'. wb_holds b' (bs @ e) \<and> decodes e v' \<and> same v v'))"

lemma packsI_writes:
  assumes "\<And>d b b'. pack_one rl v d b = Some b' \<Longrightarrow> b' = g b" "writes g e" "decodes e v" "same v v"
  shows "packs rl v"
  using assms by (fastforce simp: packs_def writes_def)

lemma packs_each:
  "\<forall>x \<in> set xs. packs rl x \<Longrightarrow> each (\<lambda>x b. pack_one rl x d b) xs b = Some b' \<Longrightarrow> wb_holds b bs \<Longrightarrow>
   \<exists>encs vs. wb_holds b' (bs @ concat encs) \<and> list_all2 decodes encs vs \<and> list_all2 same xs vs"
proof (induction xs arbitrary: b bs)
  case Nil
  then show ?case by (intro exI [of _ "[]"]) simp
next
  case (Cons x xs)
  from Cons.prems(2) obtain b1 where b1: "pack_one rl x d b = Some b1" "each (\<lambda>x b. pack_one rl x d b) xs b1 = Some b'"
    by (auto simp: bind_eq_Some_conv)
  from Cons.prems(1) have "packs rl x" by simp
  with b1(1) Cons.prems(3) obtain e v where e: "wb_holds b1 (bs @ e)" "decodes e v" "same x v" unfolding packs_def by blast
  from Cons.IH [OF _ b1(2) e(1)] Cons.prems(1) obtain encs vs where
    "wb_holds b' ((bs @ e) @ concat encs)" "list_all2 decodes encs vs" "list_all2 same xs vs" by auto
  with e show ?case by (intro exI [of _ "e # encs"] exI [of _ "v # vs"]) simp
qed

lemma writes_array_size:
  assumes "n < 2 ^ 31"
  shows "\<exists>t p. writes (wb_array_size (int n)) (t # p) \<and> type_of t = 6 \<and> (\<forall>rest. table_size (cookie_of t) (p @ rest) = Some (int n, rest))"
proof (cases "n < 31")
  case True
  let ?t = "word_of_nat 6 OR push_bit 3 (word_of_nat n) :: u8"
  have "wb_array_size (int n) = wb_push [?t]" using True by (simp add: wb_array_size_def MAX_COOKIE_def fun_eq_iff)
  then have "writes (wb_array_size (int n)) (?t # [])" using writes_push by simp
  with True byte_of_type [of 6 n] show ?thesis
    by (intro exI [of _ ?t] exI [of _ "[]"]) (simp add: table_size_def MAX_COOKIE_def)
next
  case False
  let ?v = "word_of_int (int n) :: u64"
  obtain c p where p: "writes (wb_integer ?v) (COMBINE_TYPE 2 c # p)" "c < 8" "\<forall>rest. get_integer c (p @ rest) = Some (?v, rest)"
    using writes_integer by blast
  have "wb_array_size (int n) = (\<lambda>b. wb_integer ?v (wb_push [COMBINE_TYPE 6 31] b))"
    using False by (simp add: wb_array_size_def MAX_COOKIE_def fun_eq_iff)
  moreover have "wb_holds (wb_integer ?v (wb_push [COMBINE_TYPE 6 31] b)) (bs @ COMBINE_TYPE 6 31 # COMBINE_TYPE 2 c # p)"
    if "wb_holds b bs" for b bs
    using p(1) [unfolded writes_def, rule_format, OF wb_push_holds [OF that], of "[COMBINE_TYPE 6 31]"] by simp
  ultimately have "writes (wb_array_size (int n)) (COMBINE_TYPE 6 31 # COMBINE_TYPE 2 c # p)" by (simp add: writes_def)
  moreover have "unat (COMBINE_TYPE 2 c AND 7) = unat (2 :: u8)" using combine_type(1) [of 2 c] p(2) by (simp add: type_of_def)
  then have "COMBINE_TYPE 2 c AND 7 = 2" by (rule unsigned_word_eqI)
  then have "table_size 31 ((COMBINE_TYPE 2 c # p) @ rest) = Some (int n, rest)" for rest
    using combine_type(2) [of 2 c] p(2,3) length_read_back(2) [OF assms] by (simp add: table_size_def MAX_COOKIE_def cookie_of_def Let_def)
  ultimately show ?thesis using combine_type [of 6 31] by (intro exI [of _ "COMBINE_TYPE 6 31"] exI [of _ "COMBINE_TYPE 2 c # p"]) simp
qed

lemma packs_plain:
  assumes "\<And>es. v \<noteq> LTable es" "\<And>es. v \<noteq> LPairs es" "lua_wf rl v"
  shows "packs rl v"
proof -
  have nl: "writes wb_nil [COMBINE_TYPE 0 0]" using writes_push by (simp add: wb_nil_def [abs_def])
  have bt: "byte_of = word_of_nat 3 \<Longrightarrow> type_of byte_of = 3" for byte_of :: u8 using byte_of_type [of 3 0] by simp
  have real: "decodes (COMBINE_TYPE 2 8 # le_bytes 8 x) (LReal x)" for x
    using combine_type [of 2 8] by (intro decodesI) (simp add: push_value_def get_real_def rb_read_append)
  have ptr: "decodes (word_of_nat 3 # le_bytes 8 x) (LPointer x)" for x
    using bt by (intro decodesI) (simp add: push_value_def get_pointer_def rb_read_append)
  have bool: "decodes [COMBINE_TYPE 1 (if x then 1 else 0)] (LBoolean x)" for x
    using combine_type [of 1 0] combine_type [of 1 1] by (intro decodesI) (simp add: push_value_def)
  have int: "\<exists>e. writes (wb_integer x) e \<and> decodes e (LInteger x)" for x
  proof -
    obtain c p where p: "writes (wb_integer x) (COMBINE_TYPE 2 c # p)" "c < 8" "\<forall>rest. get_integer c (p @ rest) = Some (x, rest)"
      using writes_integer by blast
    then have "decodes (COMBINE_TYPE 2 c # p) (LInteger x)"
      using combine_type [of 2 c] by (intro decodesI) (simp add: push_value_def)
    with p(1) show ?thesis by blast
  qed
  have i: "packs rl v" if "\<And>d b b'. pack_one rl v d b = Some b' \<Longrightarrow> b' = g b" "writes g e" "decodes e v" "v \<noteq> LOther" for g e
    by (rule packsI_writes [where g = g and e = e, OF _ that(2,3) same_plain [OF assms(1,2) that(4)]]) (rule that(1))
  note one = pack_one.simps [of rl v]
  show ?thesis
  proof (cases v)
    case LNil
    show ?thesis by (rule i [of wb_nil]) (use LNil one nl decodes_nil in \<open>auto split: if_splits\<close>)
  next
    case (LBoolean x)
    show ?thesis by (rule i [of "wb_boolean x" "[COMBINE_TYPE 1 (if x then 1 else 0)]"])
      (use LBoolean one writes_push bool in \<open>auto simp: wb_boolean_def [abs_def] simp del: One_nat_def split: if_splits\<close>)
  next
    case (LInteger x)
    obtain e where "writes (wb_integer x) e" "decodes e (LInteger x)" using int by blast
    then show ?thesis by (intro i [of "wb_integer x" e]) (use LInteger one in \<open>auto split: if_splits\<close>)
  next
    case (LReal x)
    show ?thesis by (rule i [of "wb_real x" "[COMBINE_TYPE 2 8] @ le_bytes 8 x"])
      (use LReal one writes_push2 [of "le_bytes 8 x" "[COMBINE_TYPE 2 8]"] real in \<open>auto simp: wb_real_def [abs_def] split: if_splits\<close>)
  next
    case (LPointer x)
    show ?thesis by (rule i [of "wb_pointer x" "[word_of_nat 3] @ le_bytes 8 x"])
      (use LPointer one writes_push2 [of "le_bytes 8 x" "[word_of_nat 3]"] ptr in \<open>auto simp: wb_pointer_def [abs_def] split: if_splits\<close>)
  next
    case (LString str)
    then have "length str < 2 ^ 31" using assms(3) by (simp add: lua_wf.simps)
    from writes_string [OF this] obtain e where "writes (wb_string str) e" "decodes e (LString str)" by blast
    then show ?thesis by (intro i [of "wb_string str" e]) (use LString one in \<open>auto split: if_splits\<close>)
  next
    case LOther
    with one show ?thesis by (simp add: packs_def)
  qed (use assms in auto)
qed

lemma unpack_table_spec:
  assumes "list_all2 decodes encs1 vs1" "list_all2 decodes encs2 (flat es2)" "entries_ok (array_entries 1 vs1 @ es2)"
    "length vs1 < 2 ^ 31" "type_of t = 6" "\<And>rest. table_size (cookie_of t) (p @ rest) = Some (int (length vs1), rest)"
  shows "decodes (t # p @ concat encs1 @ concat encs2 @ [COMBINE_TYPE 0 0]) (LTable (array_entries 1 vs1 @ es2))"
proof (rule decodesI)
  fix f rest
  assume f: "length (p @ concat encs1 @ concat encs2 @ [COMBINE_TYPE 0 0]) \<le> f"
  have "unpack_array (unpack_one f) f 1 (int (length vs1)) [] (concat encs1 @ concat encs2 @ COMBINE_TYPE 0 0 # rest) =
      Some ([] @ array_entries 1 vs1, concat encs2 @ COMBINE_TYPE 0 0 # rest)"
    by (rule unpack_array_spec [OF assms(1)]) (use f assms(4) decodes_count [OF assms(1)] in auto)
  moreover have "unpack_pairs (unpack_one f) f (array_entries 1 vs1) (concat encs2 @ COMBINE_TYPE 0 0 # rest) =
      Some (array_entries 1 vs1 @ es2, rest)"
    by (rule unpack_pairs_flat [OF assms(2,3)]) (use f decodes_count [OF assms(2)] in auto)
  ultimately show "push_value (unpack_one f) f (type_of t) (cookie_of t)
      ((p @ concat encs1 @ concat encs2 @ [COMBINE_TYPE 0 0]) @ rest) = Some (LTable (array_entries 1 vs1 @ es2), rest)"
    using assms(5,6) by (simp add: push_value_def unpack_table_def)
qed

lemma wb_holds_nil: "wb_holds b bs \<Longrightarrow> wb_holds (wb_nil b) (bs @ [COMBINE_TYPE 0 0])"
  by (simp add: wb_nil_def wb_push_holds)

lemma rawgeti_in: "lua_rawgeti es i = LNil \<or> lua_rawgeti es i \<in> snd ` set es"
  by (induction es) (auto simp: lua_rawgeti_def)

lemma packs_table:
  assumes "\<forall>e \<in> set es. packs rl (fst e) \<and> packs rl (snd e)" "entries_ok es" "rl es < 2 ^ 31"
  shows "packs rl (LTable es)"
  unfolding packs_def
proof (intro allI impI)
  fix d b b' bs
  let ?n = "rl es"
  let ?xs = "map (lua_rawgeti es) [1..int ?n]"
  let ?rest = "filter (\<lambda>e. \<not> in_array (int ?n) (fst e)) es"
  assume pk: "pack_one rl (LTable es) d b = Some b'" and h: "wb_holds b bs"
  from writes_array_size [OF assms(3)] obtain t p where t: "writes (wb_array_size (int ?n)) (t # p)" "type_of t = 6"
    "\<forall>rest. table_size (cookie_of t) (p @ rest) = Some (int ?n, rest)" by blast
  let ?b0 = "wb_array_size (int ?n) b"
  have h0: "wb_holds ?b0 (bs @ t # p)" using t(1) h by (simp add: writes_def)
  from pk to_int_small [OF assms(3)] obtain b1 b2 where b1: "each (\<lambda>x b. pack_one rl x (d + 1) b) ?xs ?b0 = Some b1"
    and b2: "each (\<lambda>x b. pack_one rl x (d + 1) b) (flat ?rest) b1 = Some b2" and b': "b' = wb_nil b2"
    by (auto simp: pack_one.simps [of rl "LTable es"] bind_eq_Some_conv Let_def split: if_splits)
  have nl: "packs rl LNil" by (rule packs_plain) (simp_all add: lua_wf.simps)
  have "packs rl (lua_rawgeti es i)" for i
    using rawgeti_in [of es i] nl assms(1) by auto
  then have "\<forall>x \<in> set ?xs. packs rl x" by simp
  from packs_each [OF this b1 h0] obtain encs1 vs1 where e1: "wb_holds b1 ((bs @ t # p) @ concat encs1)"
    "list_all2 decodes encs1 vs1" "list_all2 same ?xs vs1" by blast
  have "\<forall>x \<in> set (flat ?rest). packs rl x" using assms(1) by force
  from packs_each [OF this b2 e1(1)] obtain encs2 vs2 where e2: "wb_holds b2 (((bs @ t # p) @ concat encs1) @ concat encs2)"
    "list_all2 decodes encs2 vs2" "list_all2 same (flat ?rest) vs2" by blast
  from flat_same [OF e2(3)] obtain es2 where es2: "vs2 = flat es2" "list_all2 same_entry ?rest es2" by blast
  let ?zs = "array_entries 1 ?xs @ ?rest" and ?es' = "array_entries 1 vs1 @ es2"
  have "mset es = filter_mset (\<lambda>e. in_array (int ?n) (fst e)) (mset es) + filter_mset (\<lambda>e. \<not> in_array (int ?n) (fst e)) (mset es)"
    by (rule multiset_partition)
  then have m: "mset ?zs = mset es" using array_part [OF assms(2,3)] by simp
  have s: "list_all2 same_entry ?zs ?es'" by (intro list_all2_appendI array_entries_same e1(3) es2(2))
  have l: "length vs1 = ?n" using list_all2_lengthD [OF e1(3)] by simp
  have "entries_ok ?es'" by (rule entries_ok_same [OF s entries_ok_mset [OF m assms(2)]])
  with unpack_table_spec [OF e1(2), of encs2 es2 t p] e2(2) es2(1) t(2,3) assms(3) l
  have "decodes (t # p @ concat encs1 @ concat encs2 @ [COMBINE_TYPE 0 0]) (LTable ?es')" by simp
  moreover have "wb_holds b' (bs @ t # p @ concat encs1 @ concat encs2 @ [COMBINE_TYPE 0 0])"
    using wb_holds_nil [OF e2(1)] b' by simp
  ultimately show "\<exists>e v'. wb_holds b' (bs @ e) \<and> decodes e v' \<and> same (LTable es) v'"
    using same_table [OF m s] by blast
qed

lemma packs_pairs:
  assumes "\<forall>e \<in> set es. packs rl (fst e) \<and> packs rl (snd e)" "entries_ok es"
  shows "packs rl (LPairs es)"
  unfolding packs_def
proof (intro allI impI)
  fix d b b' bs
  assume pk: "pack_one rl (LPairs es) d b = Some b'" and h: "wb_holds b bs"
  let ?b0 = "wb_push [COMBINE_TYPE 6 0] b"
  from pk obtain b2 where b2: "each (\<lambda>x b. pack_one rl x (d + 1) b) (flat es) ?b0 = Some b2" and b': "b' = wb_nil b2"
    by (auto simp: pack_one.simps [of rl "LPairs es"] bind_eq_Some_conv split: if_splits)
  have "\<forall>x \<in> set (flat es). packs rl x" using assms(1) by force
  from packs_each [OF this b2 wb_push_holds [OF h]] obtain encs2 vs2 where
    e2: "wb_holds b2 ((bs @ [COMBINE_TYPE 6 0]) @ concat encs2)" "list_all2 decodes encs2 vs2" "list_all2 same (flat es) vs2" by blast
  from flat_same [OF e2(3)] obtain es2 where es2: "vs2 = flat es2" "list_all2 same_entry es es2" by blast
  have "entries_ok (array_entries 1 [] @ es2)" using entries_ok_same [OF es2(2) assms(2)] by simp
  moreover have "table_size (cookie_of (COMBINE_TYPE 6 0)) ([] @ rest) = Some (int (length []), rest)" for rest
    using combine_type(2) [of 6 0] by (simp add: table_size_def MAX_COOKIE_def)
  ultimately have "decodes (COMBINE_TYPE 6 0 # [] @ concat [] @ concat encs2 @ [COMBINE_TYPE 0 0]) (LTable (array_entries 1 [] @ es2))"
    by (intro unpack_table_spec) (use e2(2) es2(1) combine_type(1) [of 6 0] in simp_all)
  moreover have "wb_holds b' (bs @ COMBINE_TYPE 6 0 # [] @ concat [] @ concat encs2 @ [COMBINE_TYPE 0 0])"
    using wb_holds_nil [OF e2(1)] b' by simp
  ultimately show "\<exists>e v'. wb_holds b' (bs @ e) \<and> decodes e v' \<and> same (LPairs es) v'"
    using same_pairs [OF es2(2)] by fastforce
qed

lemma packs_all: "lua_wf rl v \<Longrightarrow> packs rl v"
proof (induction "size v" arbitrary: v rule: less_induct)
  case less
  have e: "\<forall>e \<in> set es. packs rl (fst e) \<and> packs rl (snd e)"
    if "\<forall>e \<in> set es. lua_wf rl (fst e) \<and> lua_wf rl (snd e)" "size v = Suc (size_list (size_prod size size) es)" for es
    using that entry_size less.hyps by (metis prod.collapse)
  show ?case
  proof (cases v)
    case (LTable es)
    with less.prems e [of es] show ?thesis by (simp add: lua_wf.simps [of rl "LTable es"] packs_table)
  next
    case (LPairs es)
    with less.prems e [of es] show ?thesis by (simp add: lua_wf.simps [of rl "LPairs es"] packs_pairs)
  qed (rule packs_plain; use less.prems in simp)+
qed

lemma unpack_all_spec:
  "list_all2 decodes encs vs \<Longrightarrow> length (concat encs) < f \<Longrightarrow> unpack_all f (concat encs) = Some vs"
proof (induction encs vs arbitrary: f rule: list_all2_induct)
  case Nil
  then obtain g where "f = Suc g" by (cases f) auto
  then show ?case by (simp add: rb_read_def)
next
  case (Cons e encs v vs)
  obtain g where g: "f = Suc g" using Cons.prems by (cases f) auto
  obtain t p where e: "e = t # p" using decodes_length [OF Cons.hyps(1)] by (cases e) auto
  have "unpack_one (Suc g) (e @ concat encs) = Some (v, concat encs)"
    by (rule decodesD [OF Cons.hyps(1)]) (use Cons.prems g in simp)
  then have "push_value (unpack_one g) g (type_of t) (cookie_of t) (p @ concat encs) = Some (v, concat encs)" by (simp add: e)
  moreover have "unpack_all g (concat encs) = Some vs" by (rule Cons.IH) (use Cons.prems g e in simp)
  ultimately show ?case by (simp add: g e)
qed

text \<open>What can be packed: tables nested up to \<open>MAX_DEPTH\<close>, and no functions, threads or full userdata.\<close>

function packable :: "nat \<Rightarrow> lua_value \<Rightarrow> bool" where
  "packable d v =
     (d \<le> MAX_DEPTH \<and>
      (case v of
         LTable es \<Rightarrow> \<forall>e \<in> set es. packable (Suc d) (fst e) \<and> packable (Suc d) (snd e)
       | LPairs es \<Rightarrow> \<forall>e \<in> set es. packable (Suc d) (fst e) \<and> packable (Suc d) (snd e)
       | LOther \<Rightarrow> False
       | _ \<Rightarrow> True))"
  by pat_completeness auto
termination
  by (relation "measure (\<lambda>(d, v). size v)") (use entry_size in \<open>fastforce+\<close>)

declare packable.simps [simp del]

text \<open>Documented behaviour of \<open>lua_rawlen\<close>: the length of a table is 0 or the index of an element.\<close>

definition is_rawlen :: "(lua_entries \<Rightarrow> nat) \<Rightarrow> bool" where
  "is_rawlen rl \<longleftrightarrow> (\<forall>es. rl es < 2 ^ 31 \<and> (rl es = 0 \<or> lua_rawgeti es (int (rl es)) \<noteq> LNil))"

lemma each_total_iff:
  "\<forall>x \<in> set xs. \<forall>w. (f x w \<noteq> None) = P x \<Longrightarrow> (each f xs w \<noteq> None) = (\<forall>x \<in> set xs. P x)"
proof (induction xs arbitrary: w)
  case (Cons x xs)
  then have "(f x w \<noteq> None) = P x" by simp
  with Cons show ?case by (cases "f x w") simp_all
qed simp

lemma flat_set: "x \<in> set (flat es) \<longleftrightarrow> (\<exists>e \<in> set es. x = fst e \<or> x = snd e)"
  by (induction es) auto

lemma packable_depth: "packable d v \<Longrightarrow> d \<le> MAX_DEPTH"
  by (simp add: packable.simps)

lemma packable_parts:
  assumes "entries_ok es" "n = 0 \<or> lua_rawgeti es (int n) \<noteq> LNil" "n < 2 ^ 31"
  shows "(\<forall>x \<in> set (map (lua_rawgeti es) [1..int n]). packable d x) \<and> (\<forall>x \<in> set (flat (filter (\<lambda>e. \<not> in_array (int n) (fst e)) es)). packable d x)
    \<longleftrightarrow> (\<forall>e \<in> set es. packable d (fst e) \<and> packable d (snd e))" (is "?l \<longleftrightarrow> ?r")
proof
  assume l: ?l
  show ?r
  proof
    fix e
    assume e: "e \<in> set es"
    show "packable d (fst e) \<and> packable d (snd e)"
    proof (cases "in_array (int n) (fst e)")
      case False
      with e have "fst e \<in> set (flat (filter (\<lambda>e. \<not> in_array (int n) (fst e)) es))" "snd e \<in> set (flat (filter (\<lambda>e. \<not> in_array (int n) (fst e)) es))"
        unfolding flat_set by (metis (mono_tags, lifting) mem_Collect_eq set_filter)+
      with l show ?thesis by blast
    next
      case True
      then obtain x where x: "fst e = LInteger x" "0 < sint x" "sint x \<le> int n" by (auto simp: in_array_def split: lua_value.splits)
      have v: "snd e \<noteq> LNil" using assms(1) e by (simp add: entries_ok_def)
      have "(LInteger (word_of_int (sint x)), snd e) = e" using x(1) by (simp add: prod_eq_iff)
      then have "lua_rawgeti es (sint x) = snd e" using rawgeti_mem [OF assms(1) v] e by metis
      then have "snd e \<in> set (map (lua_rawgeti es) [1..int n])"
        using x(2,3) by (metis (no_types, lifting) atLeastAtMost_iff image_eqI image_set set_upto int_one_le_iff_zero_less)
      with l have "packable d (snd e)" by blast
      moreover from packable_depth [OF this] have "packable d (fst e)" by (simp add: x(1) packable.simps)
      ultimately show ?thesis by blast
    qed
  qed
next
  assume r: ?r
  have "packable d x" if "x \<in> set (map (lua_rawgeti es) [1..int n])" for x
  proof (cases "x = LNil")
    case True
    from that have "n \<noteq> 0" by auto
    then have "lua_rawgeti es (int n) \<in> snd ` set es" using assms(2) rawgeti_in [of es "int n"] by auto
    then have "d \<le> MAX_DEPTH" using r packable_depth by fastforce
    with True show ?thesis by (simp add: packable.simps)
  next
    case False
    with that rawgeti_in [of es] have "x \<in> snd ` set es" by force
    with r show ?thesis by fastforce
  qed
  moreover have "packable d x" if "x \<in> set (flat (filter (\<lambda>e. \<not> in_array (int n) (fst e)) es))" for x
    using that r by (auto simp: flat_set)
  ultimately show ?l by blast
qed

lemma pack_one_total:
  "is_rawlen rl \<Longrightarrow> lua_wf rl v \<Longrightarrow> (pack_one rl v d b \<noteq> None) = packable d v"
proof (induction "size v" arbitrary: v d b rule: less_induct)
  case less
  let ?f = "\<lambda>d x b. pack_one rl x d b"
  have e: "\<forall>w. (?f d' (fst e) w \<noteq> None) = packable d' (fst e)" "\<forall>w. (?f d' (snd e) w \<noteq> None) = packable d' (snd e)"
    if "e \<in> set es" "size v = Suc (size_list (size_prod size size) es)" "\<forall>e \<in> set es. lua_wf rl (fst e) \<and> lua_wf rl (snd e)" for e es d'
    using less.hyps [OF _ less.prems(1)] entry_size [of "fst e" "snd e" es] that by auto
  have nil: "\<forall>w. (?f d' LNil w \<noteq> None) = packable d' LNil" for d' by (simp add: pack_one.simps packable.simps)
  show ?case
  proof (cases v)
    case (LTable es)
    let ?n = "rl es"
    let ?xs = "map (lua_rawgeti es) [1..int ?n]" and ?ys = "flat (filter (\<lambda>e. \<not> in_array (int ?n) (fst e)) es)"
    from less.prems(2) LTable have wf: "entries_ok es" "\<forall>e \<in> set es. lua_wf rl (fst e) \<and> lua_wf rl (snd e)"
      by (simp_all add: lua_wf.simps [of rl "LTable es"])
    have n: "to_int ?n = int ?n" "?n = 0 \<or> lua_rawgeti es (int ?n) \<noteq> LNil" "?n < 2 ^ 31"
      using less.prems(1) to_int_small by (auto simp: is_rawlen_def)
    note e' = e [OF _ _ wf(2), of _ "Suc d", unfolded LTable, simplified]
    have xs: "\<forall>x \<in> set ?xs. \<forall>w. (?f (Suc d) x w \<noteq> None) = packable (Suc d) x"
    proof
      fix x
      assume "x \<in> set ?xs"
      with rawgeti_in [of es] consider "x = LNil" | e where "e \<in> set es" "x = snd e" by force
      then show "\<forall>w. (?f (Suc d) x w \<noteq> None) = packable (Suc d) x" using nil e' by cases auto
    qed
    have ys: "\<forall>x \<in> set ?ys. \<forall>w. (?f (Suc d) x w \<noteq> None) = packable (Suc d) x"
    proof
      fix x
      assume "x \<in> set ?ys"
      then obtain e where "e \<in> set es" "x = fst e \<or> x = snd e" unfolding flat_set by auto
      then show "\<forall>w. (?f (Suc d) x w \<noteq> None) = packable (Suc d) x" using e' by (elim disjE) simp_all
    qed
    let ?b = "wb_array_size (int ?n) b"
    have "(pack_one rl v d b \<noteq> None) = (d \<le> MAX_DEPTH \<and> each (?f (Suc d)) ?xs ?b \<bind> each (?f (Suc d)) ?ys \<noteq> None)"
      unfolding LTable by (auto simp: pack_one.simps [of rl "LTable es"] n(1) Let_def bind_eq_Some_conv split: if_splits)
    also have "\<dots> = (d \<le> MAX_DEPTH \<and> (\<forall>x \<in> set ?xs. packable (Suc d) x) \<and> (\<forall>x \<in> set ?ys. packable (Suc d) x))"
      using each_total_iff [OF xs, of ?b] each_total_iff [OF ys] by (cases "each (?f (Suc d)) ?xs ?b") auto
    also have "\<dots> = packable d v"
      using packable_parts [OF wf(1) n(2,3), of "Suc d"] unfolding LTable by (simp add: packable.simps [of d "LTable es"])
    finally show ?thesis .
  next
    case (LPairs es)
    from less.prems(2) LPairs have wf: "\<forall>e \<in> set es. lua_wf rl (fst e) \<and> lua_wf rl (snd e)"
      by (simp add: lua_wf.simps [of rl "LPairs es"])
    have ys: "\<forall>x \<in> set (flat es). \<forall>w. (?f (Suc d) x w \<noteq> None) = packable (Suc d) x"
    proof
      fix x
      assume "x \<in> set (flat es)"
      then obtain e where "e \<in> set es" "x = fst e \<or> x = snd e" unfolding flat_set by auto
      then show "\<forall>w. (?f (Suc d) x w \<noteq> None) = packable (Suc d) x" using e [OF _ _ wf, of e "Suc d"] LPairs by (elim disjE) simp_all
    qed
    have "(pack_one rl v d b \<noteq> None) = (d \<le> MAX_DEPTH \<and> each (?f (Suc d)) (flat es) (wb_push [COMBINE_TYPE 6 0] b) \<noteq> None)"
      unfolding LPairs by (auto simp: pack_one.simps [of rl "LPairs es"] bind_eq_Some_conv split: if_splits)
    also have "\<dots> = packable d v" using each_total_iff [OF ys] unfolding LPairs by (auto simp: packable.simps [of d "LPairs es"] flat_set)
    finally show ?thesis .
  qed (auto simp: pack_one.simps packable.simps)
qed


text \<open>A message with a nested table, whose array part has a hole.\<close>

definition sample :: lua_value where
  "sample = LTable [(LInteger 1, LInteger 300), (LInteger 3, LString [104, 105]), (LString [120], LTable [(LInteger 1, LBoolean True)])]"

definition sample_len :: "lua_entries \<Rightarrow> nat" where
  "sample_len es = (if length es = 3 then 3 else 1)"

lemma sample_wf: "lua_wf sample_len sample"
  by (simp add: sample_def sample_len_def lua_wf.simps entries_ok_def norm_key_def)

lemma pack_total:
  assumes "is_rawlen rl" "\<forall>v \<in> set vs. lua_wf rl v"
  shows "(luaseri_pack rl vs \<noteq> None) = (\<forall>v \<in> set vs. packable 0 v)"
proof -
  have "(each (\<lambda>v b. pack_one rl v 0 b) vs wb_init \<noteq> None) = (\<forall>v \<in> set vs. packable 0 v)"
    by (rule each_total_iff) (use pack_one_total [OF assms(1)] assms(2) in auto)
  moreover have "luaseri_pack rl vs \<noteq> None" if "each (\<lambda>v b. pack_one rl v 0 b) vs wb_init = Some b" for b
  proof -
    have "\<forall>x \<in> set vs. packs rl x" using assms(2) packs_all by blast
    from packs_each [OF this that wb_holds_init] obtain encs where "wb_holds b (concat encs)" by auto
    moreover have "those (map Some xs) = Some xs" for xs :: bytes by (induction xs) auto
    ultimately show ?thesis using seri_holds that by (simp add: luaseri_pack_def)
  qed
  ultimately show ?thesis by (cases "each (\<lambda>v b. pack_one rl v 0 b) vs wb_init") (auto simp: luaseri_pack_def)
qed

text \<open>A length function for the sample, and for any other table.\<close>

definition border :: "lua_entries \<Rightarrow> nat" where
  "border es = min (2 ^ 31 - 1) (length (takeWhile (\<lambda>i. lua_rawgeti es i \<noteq> LNil) [1..int (length es)]))"

lemma border_rawlen: "is_rawlen border"
  unfolding is_rawlen_def
proof (intro allI conjI)
  fix es :: lua_entries
  let ?w = "takeWhile (\<lambda>i. lua_rawgeti es i \<noteq> LNil) [1..int (length es)]"
  show "border es < 2 ^ 31" by (simp add: border_def)
  show "border es = 0 \<or> lua_rawgeti es (int (border es)) \<noteq> LNil"
  proof (cases "border es")
    case (Suc k)
    then have k: "k < length ?w" by (simp add: border_def)
    then have "?w ! k \<in> set ?w" by (rule nth_mem)
    then have "lua_rawgeti es (?w ! k) \<noteq> LNil" using set_takeWhileD by fastforce
    moreover have "?w ! k = 1 + int k" using k length_takeWhile_le [of "\<lambda>i. lua_rawgeti es i \<noteq> LNil" "[1..int (length es)]"]
      by (simp add: takeWhile_nth nth_upto)
    ultimately show ?thesis using Suc by (simp add: add.commute)
  qed simp
qed

lemma border_sample: "lua_wf border sample"
  using border_rawlen by (simp add: sample_def lua_wf.simps entries_ok_def norm_key_def is_rawlen_def)

lemma packable_sample: "packable 0 sample"
  by (simp add: sample_def packable.simps MAX_DEPTH_def)




subsection \<open>Unpacking any bytes ends\<close>

definition consumes :: "unpacker \<Rightarrow> bool" where
  "consumes u \<longleftrightarrow> (\<forall>rb v r. u rb = Some (v, r) \<longrightarrow> length r < length rb)"

lemma rb_read_length: "rb_read n rb = Some (x, r) \<Longrightarrow> length r + n = length rb"
  by (auto simp: rb_read_def split: if_splits)

lemma get_integer_length: "get_integer c rb = Some (x, r) \<Longrightarrow> length r \<le> length rb"
  by (auto simp: get_integer_def bind_eq_Some_conv dest: rb_read_length split: if_splits)

lemma table_size_length: "table_size c rb = Some (n, r) \<Longrightarrow> length r \<le> length rb"
  by (fastforce simp: table_size_def bind_eq_Some_conv Let_def dest: rb_read_length get_integer_length split: if_splits)

lemma array_length:
  "consumes u \<Longrightarrow> unpack_array u f i n es rb = Some (es', r) \<Longrightarrow> length r \<le> length rb"
proof (induction f arbitrary: i es rb)
  case (Suc f)
  then show ?case by (fastforce simp: bind_eq_Some_conv consumes_def split: if_splits)
qed simp

lemma pairs_length:
  "consumes u \<Longrightarrow> unpack_pairs u f es rb = Some (es', r) \<Longrightarrow> length r \<le> length rb"
proof (induction f arbitrary: es rb)
  case (Suc f)
  from Suc.prems(2) obtain k r1 where k: "u rb = Some (k, r1)" "k = LNil \<and> r = r1 \<or> k \<noteq> LNil" by (auto simp: bind_eq_Some_conv split: if_splits)
  then have l: "length r1 < length rb" using Suc.prems(1) by (simp add: consumes_def)
  show ?case
  proof (cases "k = LNil")
    case True
    with k l show ?thesis by simp
  next
    case False
    with Suc.prems(2) k(1) obtain v r2 es2 where "u r1 = Some (v, r2)" "unpack_pairs u f es2 r2 = Some (es', r)"
      by (auto simp: bind_eq_Some_conv)
    with Suc l show ?thesis by (fastforce simp: consumes_def)
  qed
qed simp

lemma push_length:
  assumes "consumes u" "push_value u f t c rb = Some (v, r)"
  shows "length r \<le> length rb"
  using assms(2)
  by (auto simp: push_value_def get_real_def get_pointer_def get_buffer_def unpack_table_def bind_eq_Some_conv
      dest!: rb_read_length get_integer_length table_size_length array_length [OF assms(1)] pairs_length [OF assms(1)] split: if_splits)

lemma unpack_one_consumes: "consumes (unpack_one f)"
proof (induction f)
  case (Suc f)
  from push_length [OF Suc] show ?case
    by (fastforce simp: consumes_def bind_eq_Some_conv dest!: rb_read_length)
qed (simp add: consumes_def)

text \<open>Two readers that agree on everything up to a length.\<close>

definition agree :: "unpacker \<Rightarrow> unpacker \<Rightarrow> nat \<Rightarrow> bool" where
  "agree u u' n \<longleftrightarrow> (\<forall>rb. length rb \<le> n \<longrightarrow> u rb = u' rb)"

lemma agree_mono: "agree u u' n \<Longrightarrow> m \<le> n \<Longrightarrow> agree u u' m"
  by (simp add: agree_def)

lemma array_agree:
  "agree u u' (length rb) \<Longrightarrow> consumes u' \<Longrightarrow> length rb < f \<Longrightarrow> length rb < f' \<Longrightarrow>
   unpack_array u f i n es rb = unpack_array u' f' i n es rb"
proof (induction f arbitrary: f' i es rb)
  case (Suc f)
  obtain g where g: "f' = Suc g" using Suc.prems(4) by (cases f') auto
  have u: "u rb = u' rb" using Suc.prems(1) by (simp add: agree_def)
  show ?case
  proof (cases "u' rb")
    case None
    with u g show ?thesis by simp
  next
    case (Some p)
    obtain v r where p: "p = (v, r)" by (cases p)
    with Some Suc.prems(2) have l: "length r < length rb" by (simp add: consumes_def)
    have "unpack_array u f i' n es' r = unpack_array u' g i' n es' r" for i' es'
      using Suc.IH [of r g i' es'] agree_mono [OF Suc.prems(1), of "length r"] Suc.prems l g by simp
    with u g Some p show ?thesis by simp
  qed
qed simp

lemma pairs_agree:
  "agree u u' (length rb) \<Longrightarrow> consumes u' \<Longrightarrow> length rb < f \<Longrightarrow> length rb < f' \<Longrightarrow>
   unpack_pairs u f es rb = unpack_pairs u' f' es rb"
proof (induction f arbitrary: f' es rb)
  case (Suc f)
  obtain g where g: "f' = Suc g" using Suc.prems(4) by (cases f') auto
  have u: "u rb = u' rb" using Suc.prems(1) by (simp add: agree_def)
  show ?case
  proof (cases "u' rb")
    case None
    with u g show ?thesis by simp
  next
    case (Some p)
    obtain v r where p: "p = (v, r)" by (cases p)
    with Some Suc.prems(2) have l: "length r < length rb" by (simp add: consumes_def)
    have u2: "u r = u' r" using Suc.prems(1) l by (simp add: agree_def)
    have "unpack_pairs u f es' r2 = unpack_pairs u' g es' r2" if "u' r = Some (w, r2)" for es' w r2
    proof -
      from that Suc.prems(2) have "length r2 < length r" by (simp add: consumes_def)
      with Suc.IH [of r2 g es'] agree_mono [OF Suc.prems(1), of "length r2"] Suc.prems l g show ?thesis by simp
    qed
    with u u2 g Some p show ?thesis by (cases "u' r") auto
  qed
qed simp

lemma push_agree:
  assumes "agree u u' (length rb)" "consumes u" "consumes u'" "length rb < f" "length rb < f'"
  shows "push_value u f t c rb = push_value u' f' t c rb"
proof -
  have "unpack_table u f c rb = unpack_table u' f' c rb"
  proof (cases "table_size c rb")
    case None
    then show ?thesis by (simp add: unpack_table_def)
  next
    case (Some p)
    obtain n r where p: "p = (n, r)" by (cases p)
    with Some table_size_length have r: "length r \<le> length rb" by blast
    have a: "unpack_array u f 1 n [] r = unpack_array u' f' 1 n [] r"
      by (rule array_agree) (use assms r agree_mono in auto)
    show ?thesis
    proof (cases "unpack_array u' f' 1 n [] r")
      case None
      with Some p a show ?thesis by (simp add: unpack_table_def)
    next
      case (Some q)
      obtain es r1 where q: "q = (es, r1)" by (cases q)
      with Some array_length [OF assms(3)] r have "length r1 \<le> length rb" by fastforce
      then have "unpack_pairs u f es r1 = unpack_pairs u' f' es r1"
        by (intro pairs_agree) (use assms agree_mono in auto)
      with \<open>table_size c rb = Some p\<close> Some p q a show ?thesis by (simp add: unpack_table_def)
    qed
  qed
  then show ?thesis by (simp add: push_value_def)
qed

lemma unpack_one_agree: "n < f \<Longrightarrow> n < f' \<Longrightarrow> agree (unpack_one f) (unpack_one f') n"
proof (induction n arbitrary: f f')
  case 0
  then obtain g g' where "f = Suc g" "f' = Suc g'" by (cases f; cases f') auto
  then show ?case by (auto simp: agree_def rb_read_def)
next
  case (Suc n)
  then obtain g g' where g: "f = Suc g" "f' = Suc g'" "n < g" "n < g'" by (cases f; cases f') auto
  show ?case
    unfolding agree_def
  proof (intro allI impI)
    fix rb :: bytes
    assume "length rb \<le> Suc n"
    then show "unpack_one f rb = unpack_one f' rb"
    proof (cases rb)
      case (Cons t r)
      with \<open>length rb \<le> Suc n\<close> have "length r \<le> n" by simp
      then have "push_value (unpack_one g) g (type_of t) (cookie_of t) r = push_value (unpack_one g') g' (type_of t) (cookie_of t) r"
        using Suc.IH [OF g(3,4)] g unpack_one_consumes by (intro push_agree) (auto intro: agree_mono)
      with Cons g show ?thesis by simp
    qed (simp add: g rb_read_def)
  qed
qed

lemma unpack_fuel: "length rb < f \<Longrightarrow> length rb < f' \<Longrightarrow> unpack_all f rb = unpack_all f' rb"
proof (induction f arbitrary: f' rb)
  case (Suc f)
  obtain g where g: "f' = Suc g" using Suc.prems by (cases f') auto
  show ?case
  proof (cases rb)
    case Nil
    then show ?thesis by (simp add: g rb_read_def)
  next
    case (Cons t r)
    have p: "push_value (unpack_one f) f (type_of t) (cookie_of t) r = push_value (unpack_one g) g (type_of t) (cookie_of t) r"
      using Suc.prems g Cons unpack_one_consumes by (intro push_agree unpack_one_agree) auto
    show ?thesis
    proof (cases "push_value (unpack_one g) g (type_of t) (cookie_of t) r")
      case None
      with p Cons g show ?thesis by simp
    next
      case (Some q)
      obtain v r1 where q: "q = (v, r1)" by (cases q)
      with Some push_length [OF unpack_one_consumes] have "length r1 \<le> length r" by blast
      then have "unpack_all f r1 = unpack_all g r1" using Suc.IH [of r1 g] Suc.prems g Cons by simp
      with p Cons g Some q show ?thesis by simp
    qed
  qed
qed simp



end
