(* ===== verification/Socket_Server.thy ===== *)
theory Socket_Server
  imports Wire
begin

section \<open>The socket server (skynet-src/socket_server.c)\<close>

text \<open>
  One thread polls all sockets; the other threads talk to it through a pipe of requests, and may write to a socket directly
  when nothing waits for it. \<open>server\<close> has the slots, the pipe and the events of the last \<open>sp_wait\<close> that are left
  (\<open>ev[event_index]\<close> and on).

  The system is outside: \<open>ss_sys\<close> is the list of the results of the system calls to come, a negative one being an error,
  \<open>ss_waits\<close> are the results of \<open>sp_wait\<close> to come, and \<open>ss_log\<close> records the calls with their data. A block to send is a value with the pointer that owns it, and \<open>ss_freed\<close>
  lists the pointers that were given back. The linked lists of write buffers are lists. The lock of a socket is a flag: only a
  direct writer holds it beyond one operation. Unix errors of \<open>strerror\<close> are numbers, and addresses as texts are left out.

  \<open>None\<close> is a failed assertion, a read outside a block, a wait for a lock, or a list of results that is too short.
\<close>

definition MAX_SOCKET :: nat where "MAX_SOCKET = 65536"
definition MIN_READ_BUFFER :: int where "MIN_READ_BUFFER = 64"
definition WARNING_SIZE :: int where "WARNING_SIZE = 1024 * 1024"
definition PROTOCOL_TCP :: nat where "PROTOCOL_TCP = 0"
definition PROTOCOL_UDP :: nat where "PROTOCOL_UDP = 1"
definition PROTOCOL_UDPv6 :: nat where "PROTOCOL_UDPv6 = 2"
definition PROTOCOL_UNKNOWN :: nat where "PROTOCOL_UNKNOWN = 255"
definition UDP_ADDRESS_SIZE :: nat where "UDP_ADDRESS_SIZE = 19"

definition HASH_ID :: "u32 \<Rightarrow> nat" where
  "HASH_ID sid = unat sid mod MAX_SOCKET"

definition ID_TAG16 :: "u32 \<Rightarrow> nat" where
  "ID_TAG16 sid = unat (signed_drop_bit 16 sid AND 0xffff)"

datatype socket_type =
    TY_INVALID | TY_RESERVE | TY_PLISTEN | TY_LISTEN | TY_CONNECTING | TY_CONNECTED
  | TY_HALFCLOSE_READ | TY_HALFCLOSE_WRITE | TY_PACCEPT | TY_BIND

datatype priority = HIGH | LOW

text \<open>
  A pointer to send: a block, or an object of the interface \<open>soi\<close>, with the bytes it stands for and the address of these
  bytes, which for a block is the pointer itself.
\<close>

record blob =
  bl_ptr :: ptr
  bl_addr :: ptr
  bl_user :: bool
  bl_data :: bytes

text \<open>A write buffer with the offset of \<open>ptr\<close> into its data; for a \<open>write_buffer_udp\<close> also the address behind it.\<close>

record write_buffer =
  wr_blob :: blob
  wr_done :: nat
  wr_udp :: "bytes option"

definition wr_sz :: "write_buffer \<Rightarrow> nat" where
  "wr_sz w = length (bl_data (wr_blob w)) - wr_done w"

record socket =
  sk_opaque :: u64
  sk_high :: "write_buffer list"
  sk_low :: "write_buffer list"
  sk_wb_size :: int
  sk_rtime :: u64
  sk_wtime :: u64
  sk_read :: int
  sk_write :: int
  sk_sending :: nat
  sk_fd :: int
  sk_id :: u32
  sk_type :: socket_type
  sk_protocol :: nat
  sk_reading :: bool
  sk_writing :: bool
  sk_closing :: bool
  sk_udpconnecting :: int
  sk_warn_size :: int
  sk_size :: int
  sk_udp_address :: bytes
  sk_locked :: bool
  sk_dw :: "(blob \<times> nat) option"

datatype syscall =
    SWrite int bytes | SSendto int bytes bytes | SClose int | SShutdown int bool
  | SpAdd int | SpDel int | SpEnable int bool bool | SSetopt int int int

datatype sysret = Ret int | Got bytes bytes

datatype request =
    RResume u32 u64
  | RPause u32 u64
  | RBind u32 int u64
  | RListen u32 int u64
  | RClose u32 bool u64
  | ROpen u32 u64 string int
  | RExit
  | RTrigger u32
  | RSend priority u32 blob
  | RSendUdp u32 blob bytes
  | RSetUdp u32 bytes
  | RSetopt u32 int int
  | RUdp u32 int bool u64

record event =
  ev_s :: "nat option"
  ev_read :: bool
  ev_write :: bool
  ev_error :: bool
  ev_eof :: bool

record server =
  ss_time :: u64
  ss_alloc_id :: u32
  ss_checkctrl :: bool
  ss_ev :: "event list"
  ss_waits :: "event list list"
  ss_slot :: "nat \<Rightarrow> socket"
  ss_pipe :: "request list"
  ss_sys :: "sysret list"
  ss_log :: "syscall list"
  ss_freed :: "ptr list"
  ss_fresh :: ptr

datatype mdata = NoData | Text string | Errno int | Address | Block bytes

record smessage =
  sm_id :: u32
  sm_opaque :: u64
  sm_ud :: int
  sm_data :: mdata

datatype event_type =
    SOCKET_DATA | SOCKET_CLOSE | SOCKET_OPEN | SOCKET_ACCEPT | SOCKET_ERR | SOCKET_EXIT
  | SOCKET_UDP | SOCKET_WARNING | SOCKET_RST | SOCKET_MORE

text \<open>What an operation of the socket thread reports; \<open>None\<close> is -1, nothing.\<close>

type_synonym report = "(event_type \<times> smessage) option"

subsection \<open>The system\<close>

definition E_INTR :: int where "E_INTR = - 1"
definition E_AGAIN :: int where "E_AGAIN = - 2"
definition E_INPROGRESS :: int where "E_INPROGRESS = - 3"
definition E_MFILE :: int where "E_MFILE = - 4"

definition sys :: "server \<Rightarrow> (int \<times> server) option" where
  "sys ss = (case ss_sys ss of Ret r # rs \<Rightarrow> Some (r, ss\<lparr>ss_sys := rs\<rparr>) | _ \<Rightarrow> None)"

definition sys_data :: "server \<Rightarrow> (sysret \<times> server) option" where
  "sys_data ss = (case ss_sys ss of r # rs \<Rightarrow> Some (r, ss\<lparr>ss_sys := rs\<rparr>) | [] \<Rightarrow> None)"

definition call :: "syscall \<Rightarrow> server \<Rightarrow> server" where
  "call c ss = ss\<lparr>ss_log := ss_log ss @ [c]\<rparr>"

definition upd :: "nat \<Rightarrow> (socket \<Rightarrow> socket) \<Rightarrow> server \<Rightarrow> server" where
  "upd i f ss = ss\<lparr>ss_slot := (ss_slot ss)(i := f (ss_slot ss i))\<rparr>"

definition free_blob :: "blob \<Rightarrow> server \<Rightarrow> server" where
  "free_blob b ss = ss\<lparr>ss_freed := ss_freed ss @ [bl_ptr b]\<rparr>"

lemma upd_slot [simp]: "ss_slot (upd i f ss) j = (if j = i then f (ss_slot ss i) else ss_slot ss j)"
  by (simp add: upd_def)

lemma upd_fields [simp]: "ss_pipe (upd i f ss) = ss_pipe ss" "ss_log (upd i f ss) = ss_log ss" "ss_ev (upd i f ss) = ss_ev ss"
  "ss_freed (upd i f ss) = ss_freed ss" "ss_waits (upd i f ss) = ss_waits ss" "ss_alloc_id (upd i f ss) = ss_alloc_id ss"
  "ss_time (upd i f ss) = ss_time ss"
  by (simp_all add: upd_def)

lemma call_fields [simp]: "ss_slot (call c ss) = ss_slot ss" "ss_pipe (call c ss) = ss_pipe ss" "ss_log (call c ss) = ss_log ss @ [c]"
  by (simp_all add: call_def)

lemma sys_Cons [simp]: "ss_sys ss = Ret n # rs \<Longrightarrow> sys ss = Some (n, ss\<lparr>ss_sys := rs\<rparr>)"
  by (simp add: sys_def)

subsection \<open>Identifiers and slots\<close>

definition socket_invalid :: "socket \<Rightarrow> u32 \<Rightarrow> bool" where
  "socket_invalid s sid \<longleftrightarrow> sk_id s \<noteq> sid \<or> sk_type s = TY_INVALID"

text \<open>
  The loop of \<open>reserve_id\<close>, with the number of rounds that are left. \<open>id < 0\<close> is the sign bit of the word. The compare-and-swap
  does not fail, as nothing runs between the load and the exchange.
\<close>

fun reserve_loop :: "nat \<Rightarrow> server \<Rightarrow> u32 option \<times> server" where
  "reserve_loop 0 ss = (None, ss)"
| "reserve_loop (Suc n) ss =
     (let id0 = ss_alloc_id ss + 1;
          sid = (if id0 <s 0 then id0 AND 0x7fffffff else id0);
          ss1 = ss\<lparr>ss_alloc_id := sid\<rparr>; i = HASH_ID sid in
      if sk_type (ss_slot ss1 i) = TY_INVALID then
        (Some sid, upd i (\<lambda>s. s\<lparr>sk_type := TY_RESERVE, sk_id := sid, sk_protocol := PROTOCOL_UNKNOWN, sk_udpconnecting := 0, sk_fd := - 1\<rparr>) ss1)
      else reserve_loop n ss1)"

definition reserve_id :: "server \<Rightarrow> u32 option \<times> server" where
  "reserve_id ss = reserve_loop MAX_SOCKET ss"

definition socket_0 :: socket where
  "socket_0 = \<lparr>sk_opaque = 0, sk_high = [], sk_low = [], sk_wb_size = 0, sk_rtime = 0, sk_wtime = 0, sk_read = 0, sk_write = 0,
     sk_sending = 0, sk_fd = 0, sk_id = 0, sk_type = TY_INVALID, sk_protocol = 0, sk_reading = False, sk_writing = False,
     sk_closing = False, sk_udpconnecting = 0, sk_warn_size = 0, sk_size = 0, sk_udp_address = [], sk_locked = False, sk_dw = None\<rparr>"

definition socket_server_create :: "u64 \<Rightarrow> sysret list \<Rightarrow> server" where
  "socket_server_create time sr = \<lparr>ss_time = time, ss_alloc_id = 0, ss_checkctrl = True, ss_ev = [], ss_waits = [], ss_slot = (\<lambda>i. socket_0),
     ss_pipe = [], ss_sys = sr, ss_log = [], ss_freed = [], ss_fresh = 1\<rparr>"

definition socket_server_updatetime :: "u64 \<Rightarrow> server \<Rightarrow> server" where
  "socket_server_updatetime time ss = ss\<lparr>ss_time := time\<rparr>"

subsection \<open>Buffers\<close>

definition write_buffer_free :: "write_buffer \<Rightarrow> server \<Rightarrow> server" where
  "write_buffer_free w ss = free_blob (wr_blob w) ss"

definition free_list :: "write_buffer list \<Rightarrow> server \<Rightarrow> server" where
  "free_list ws ss = fold write_buffer_free ws ss"

datatype buffer_type = SOCKET_BUFFER_MEMORY | SOCKET_BUFFER_OBJECT | SOCKET_BUFFER_RAWPOINTER

record sendbuffer =
  sb_id :: u32
  sb_type :: buffer_type
  sb_buffer :: ptr
  sb_addr :: ptr
  sb_data :: bytes

definition free_buffer :: "sendbuffer \<Rightarrow> server \<Rightarrow> server" where
  "free_buffer b ss =
     (case sb_type b of
        SOCKET_BUFFER_MEMORY \<Rightarrow> ss\<lparr>ss_freed := ss_freed ss @ [sb_buffer b]\<rparr>
      | SOCKET_BUFFER_OBJECT \<Rightarrow> ss\<lparr>ss_freed := ss_freed ss @ [sb_buffer b]\<rparr>
      | SOCKET_BUFFER_RAWPOINTER \<Rightarrow> ss)"

definition clone_buffer :: "sendbuffer \<Rightarrow> server \<Rightarrow> blob \<times> server" where
  "clone_buffer b ss =
     (case sb_type b of
        SOCKET_BUFFER_MEMORY \<Rightarrow> (\<lparr>bl_ptr = sb_buffer b, bl_addr = sb_buffer b, bl_user = False, bl_data = sb_data b\<rparr>, ss)
      | SOCKET_BUFFER_OBJECT \<Rightarrow> (\<lparr>bl_ptr = sb_buffer b, bl_addr = sb_addr b, bl_user = True, bl_data = sb_data b\<rparr>, ss)
      | SOCKET_BUFFER_RAWPOINTER \<Rightarrow> (\<lparr>bl_ptr = ss_fresh ss, bl_addr = ss_fresh ss, bl_user = False, bl_data = sb_data b\<rparr>, ss\<lparr>ss_fresh := Suc (ss_fresh ss)\<rparr>))"

lemma clone_fields:
  assumes "clone_buffer b ss = (c, ss1)"
  shows "ss_slot ss1 = ss_slot ss" "ss_pipe ss1 = ss_pipe ss" "ss_sys ss1 = ss_sys ss" "ss_log ss1 = ss_log ss"
    "bl_data c = sb_data b"
  using assms by (auto simp: clone_buffer_def split: buffer_type.splits)

subsection \<open>Opening and closing\<close>

definition enable_write :: "nat \<Rightarrow> bool \<Rightarrow> server \<Rightarrow> (bool \<times> server) option" where
  "enable_write i enable ss = (let s = ss_slot ss i in
     if sk_writing s \<noteq> enable then do {
       (r, ss1) \<leftarrow> sys (call (SpEnable (sk_fd s) (sk_reading s) enable) (upd i (\<lambda>s. s\<lparr>sk_writing := enable\<rparr>) ss));
       Some (r \<noteq> 0, ss1) }
     else Some (False, ss))"

definition enable_read :: "nat \<Rightarrow> bool \<Rightarrow> server \<Rightarrow> (bool \<times> server) option" where
  "enable_read i enable ss = (let s = ss_slot ss i in
     if sk_reading s \<noteq> enable then do {
       (r, ss1) \<leftarrow> sys (call (SpEnable (sk_fd s) enable (sk_writing s)) (upd i (\<lambda>s. s\<lparr>sk_reading := enable\<rparr>) ss));
       Some (r \<noteq> 0, ss1) }
     else Some (False, ss))"

definition message_of :: "socket \<Rightarrow> mdata \<Rightarrow> smessage" where
  "message_of s d = \<lparr>sm_id = sk_id s, sm_opaque = sk_opaque s, sm_ud = 0, sm_data = d\<rparr>"

text \<open>\<open>force_close\<close> takes the lock to close: while a direct write holds it, the step is not possible.\<close>

definition force_close :: "nat \<Rightarrow> server \<Rightarrow> (smessage \<times> server) option" where
  "force_close i ss = (let s = ss_slot ss i; result = message_of s NoData in
     if sk_type s = TY_INVALID then Some (result, ss)
     else do {
       c_assert (sk_type s \<noteq> TY_RESERVE);
       c_assert (\<not> sk_locked s);
       let ss1 = call (SpDel (sk_fd s)) (free_list (sk_low s) (free_list (sk_high s) ss));
       let ss2 = (if sk_type s \<noteq> TY_BIND then call (SClose (sk_fd s)) ss1 else ss1);
       let ss3 = (case sk_dw s of None \<Rightarrow> ss2 | Some (b, off) \<Rightarrow> free_blob b ss2);
       Some (result, upd i (\<lambda>s. s\<lparr>sk_high := [], sk_low := [], sk_type := TY_INVALID, sk_dw := None\<rparr>) ss3) })"

fun release_loop :: "nat \<Rightarrow> server \<Rightarrow> server option" where
  "release_loop 0 ss = Some ss"
| "release_loop (Suc n) ss = do {
     ss1 \<leftarrow> release_loop n ss;
     if sk_type (ss_slot ss1 n) \<noteq> TY_RESERVE then do { (_, ss2) \<leftarrow> force_close n ss1; Some ss2 } else Some ss1 }"

definition socket_server_release :: "server \<Rightarrow> server option" where
  "socket_server_release ss = release_loop MAX_SOCKET ss"

text \<open>The fields that \<open>new_fd\<close> sets.\<close>

definition new_socket :: "u32 \<Rightarrow> int \<Rightarrow> nat \<Rightarrow> u64 \<Rightarrow> socket \<Rightarrow> socket" where
  "new_socket sid fd protocol opaque s = s\<lparr>sk_id := sid, sk_fd := fd, sk_reading := True, sk_writing := False, sk_closing := False,
     sk_sending := ID_TAG16 sid * 2 ^ 16, sk_protocol := protocol, sk_size := MIN_READ_BUFFER, sk_opaque := opaque,
     sk_wb_size := 0, sk_warn_size := 0, sk_dw := None, sk_rtime := 0, sk_wtime := 0, sk_read := 0, sk_write := 0\<rparr>"

text \<open>\<open>new_fd\<close>: the slot, or nothing when the poll refuses the descriptor.\<close>

definition new_fd :: "u32 \<Rightarrow> int \<Rightarrow> nat \<Rightarrow> u64 \<Rightarrow> bool \<Rightarrow> server \<Rightarrow> (nat option \<times> server) option" where
  "new_fd sid fd protocol opaque reading ss = (let i = HASH_ID sid in do {
     c_assert (sk_type (ss_slot ss i) = TY_RESERVE);
     (r, ss1) \<leftarrow> sys (call (SpAdd fd) ss);
     if r \<noteq> 0 then Some (None, upd i (\<lambda>s. s\<lparr>sk_type := TY_INVALID\<rparr>) ss1)
     else do {
       c_assert (sk_high (ss_slot ss1 i) = [] \<and> sk_low (ss_slot ss1 i) = []);
       let ss2 = upd i (new_socket sid fd protocol opaque) ss1;
       (e, ss3) \<leftarrow> enable_read i reading ss2;
       if e then Some (None, upd i (\<lambda>s. s\<lparr>sk_type := TY_INVALID\<rparr>) ss3)
       else Some (Some i, ss3) } })"

definition stat_read :: "nat \<Rightarrow> int \<Rightarrow> server \<Rightarrow> server" where
  "stat_read i n ss = upd i (\<lambda>s. s\<lparr>sk_read := sk_read s + n, sk_rtime := ss_time ss\<rparr>) ss"

definition stat_write :: "nat \<Rightarrow> int \<Rightarrow> server \<Rightarrow> server" where
  "stat_write i n ss = upd i (\<lambda>s. s\<lparr>sk_write := sk_write s + n, sk_wtime := ss_time ss\<rparr>) ss"

definition report_error :: "nat \<Rightarrow> mdata \<Rightarrow> server \<Rightarrow> report \<times> server" where
  "report_error i err ss = (Some (SOCKET_ERR, message_of (ss_slot ss i) err), ss)"

definition close_write :: "nat \<Rightarrow> int \<Rightarrow> server \<Rightarrow> (report \<times> server) option" where
  "close_write i err ss = (let s = ss_slot ss i in
     if sk_closing s \<or> sk_type s = TY_HALFCLOSE_READ then do {
       (m, ss1) \<leftarrow> force_close i ss;
       Some (Some (SOCKET_RST, m), ss1) }
     else if sk_type s = TY_HALFCLOSE_WRITE then Some (Some (SOCKET_RST, message_of s NoData), ss)
     else do {
       (_, ss1) \<leftarrow> enable_write i False (call (SShutdown (sk_fd s) True) (upd i (\<lambda>s. s\<lparr>sk_type := TY_HALFCLOSE_WRITE\<rparr>) ss));
       Some (report_error i (Errno err) ss1) })"

subsection \<open>Writing\<close>

definition get_list :: "priority \<Rightarrow> socket \<Rightarrow> write_buffer list" where
  "get_list p s = (case p of HIGH \<Rightarrow> sk_high s | LOW \<Rightarrow> sk_low s)"

definition set_list :: "priority \<Rightarrow> write_buffer list \<Rightarrow> socket \<Rightarrow> socket" where
  "set_list p ws s = (case p of HIGH \<Rightarrow> s\<lparr>sk_high := ws\<rparr> | LOW \<Rightarrow> s\<lparr>sk_low := ws\<rparr>)"

lemma sys_shorter: "sys ss = Some (r, ss1) \<Longrightarrow> length (ss_sys ss1) < length (ss_sys ss)"
  by (auto simp: sys_def split: list.splits sysret.splits)

lemma ss_sys_simps [simp]: "ss_sys (upd i f ss) = ss_sys ss" "ss_sys (call c ss) = ss_sys ss" "ss_sys (stat_write i n ss) = ss_sys ss"
  "ss_sys (write_buffer_free w ss) = ss_sys ss"
  by (simp_all add: upd_def call_def stat_write_def write_buffer_free_def free_blob_def)

text \<open>The system never takes more than it is given.\<close>

function send_list_tcp :: "nat \<Rightarrow> priority \<Rightarrow> server \<Rightarrow> (report \<times> server) option" where
  "send_list_tcp i p ss =
     (case get_list p (ss_slot ss i) of
        [] \<Rightarrow> Some (None, ss)
      | w # ws \<Rightarrow> do {
          (n, ss1) \<leftarrow> sys ss;
          if n < 0 then
            (if n = E_INTR then send_list_tcp i p ss1
             else if n = E_AGAIN then Some (None, ss1)
             else close_write i n ss1)
          else do {
            c_assert (n \<le> int (wr_sz w));
            let ss2 = call (SWrite (sk_fd (ss_slot ss1 i)) (take (nat n) (drop (wr_done w) (bl_data (wr_blob w))))) ss1;
            let ss3 = upd i (\<lambda>s. s\<lparr>sk_wb_size := sk_wb_size s - n\<rparr>) (stat_write i n ss2);
            if nat n \<noteq> wr_sz w then Some (None, upd i (set_list p (w\<lparr>wr_done := wr_done w + nat n\<rparr> # ws)) ss3)
            else send_list_tcp i p (write_buffer_free w (upd i (set_list p ws) ss3)) } })"
  by pat_completeness auto
termination
  by (relation "measure (\<lambda>(i, p, ss). length (ss_sys ss))") (auto dest: sys_shorter)

declare send_list_tcp.simps [simp del]

text \<open>The address fits the socket. Reading the 4 or 16 bytes of the address goes up to \<open>UDP_ADDRESS_SIZE\<close>.\<close>

definition udp_socket_address :: "socket \<Rightarrow> bytes \<Rightarrow> bool option" where
  "udp_socket_address s addr = do {
     t \<leftarrow> arr_get addr 0;
     if unat t \<noteq> sk_protocol s then Some False
     else if sk_protocol s = PROTOCOL_UDP then do { c_assert (7 \<le> length addr); Some True }
     else if sk_protocol s = PROTOCOL_UDPv6 then do { c_assert (19 \<le> length addr); Some True }
     else Some False }"

definition drop_udp :: "nat \<Rightarrow> priority \<Rightarrow> write_buffer \<Rightarrow> write_buffer list \<Rightarrow> server \<Rightarrow> server" where
  "drop_udp i p w ws ss = write_buffer_free w (upd i (\<lambda>s. set_list p ws (s\<lparr>sk_wb_size := sk_wb_size s - int (wr_sz w)\<rparr>)) ss)"

text \<open>A buffer that is no \<open>write_buffer_udp\<close> has no address: reading it goes beyond the block.\<close>

function send_list_udp :: "nat \<Rightarrow> priority \<Rightarrow> server \<Rightarrow> (report \<times> server) option" where
  "send_list_udp i p ss =
     (case get_list p (ss_slot ss i) of
        [] \<Rightarrow> Some (None, ss)
      | w # ws \<Rightarrow> do {
          addr \<leftarrow> wr_udp w;
          ok \<leftarrow> udp_socket_address (ss_slot ss i) addr;
          if \<not> ok then Some (None, drop_udp i p w ws ss)
          else do {
            (n, ss1) \<leftarrow> sys ss;
            if n < 0 then
              (if n = E_INTR \<or> n = E_AGAIN then Some (None, ss1) else Some (None, drop_udp i p w ws ss1))
            else
              (let ss2 = call (SSendto (sk_fd (ss_slot ss1 i)) (drop (wr_done w) (bl_data (wr_blob w))) addr) ss1 in
               send_list_udp i p (drop_udp i p w ws (stat_write i (int (wr_sz w)) ss2))) } })"
  by pat_completeness auto
termination
  by (relation "measure (\<lambda>(i, p, ss). length (ss_sys ss))") (auto simp: drop_udp_def dest: sys_shorter)

declare send_list_udp.simps [simp del]

definition send_list :: "nat \<Rightarrow> priority \<Rightarrow> server \<Rightarrow> (report \<times> server) option" where
  "send_list i p ss = (if sk_protocol (ss_slot ss i) = PROTOCOL_TCP then send_list_tcp i p ss else send_list_udp i p ss)"

text \<open>The test compares \<open>ptr\<close> with \<open>buffer\<close>, which is the object and not its bytes for a user object.\<close>

definition list_uncomplete :: "write_buffer list \<Rightarrow> bool" where
  "list_uncomplete ws = (case ws of [] \<Rightarrow> False | w # _ \<Rightarrow> bl_addr (wr_blob w) + wr_done w \<noteq> bl_ptr (wr_blob w))"

definition raise_uncomplete :: "nat \<Rightarrow> server \<Rightarrow> server option" where
  "raise_uncomplete i ss = (let s = ss_slot ss i in
     case sk_low s of
       [] \<Rightarrow> None
     | w # ws \<Rightarrow> do {
         c_assert (sk_high s = []);
         Some (upd i (\<lambda>s. s\<lparr>sk_low := ws, sk_high := [w]\<rparr>) ss) })"

definition send_buffer_empty :: "socket \<Rightarrow> bool" where
  "send_buffer_empty s \<longleftrightarrow> sk_high s = [] \<and> sk_low s = []"

text \<open>The end of \<open>send_buffer_\<close>, when both lists are empty.\<close>

definition send_finished :: "nat \<Rightarrow> server \<Rightarrow> (report \<times> server) option" where
  "send_finished i ss = (let s = ss_slot ss i in do {
     c_assert (send_buffer_empty s \<and> sk_wb_size s = 0);
     if sk_closing s then do { (_, ss1) \<leftarrow> force_close i ss; Some (None, ss1) }
     else do {
       (err, ss1) \<leftarrow> enable_write i False ss;
       if err then Some (report_error i (Text ''disable write failed'') ss1)
       else if sk_warn_size s > 0 then
         Some (Some (SOCKET_WARNING, message_of s NoData), upd i (\<lambda>s. s\<lparr>sk_warn_size := 0\<rparr>) ss1)
       else Some (None, ss1) } })"

definition send_low :: "nat \<Rightarrow> server \<Rightarrow> (report \<times> server) option" where
  "send_low i ss = do {
     (r, ss1) \<leftarrow> send_list i LOW ss;
     case r of
       Some (SOCKET_ERR, m) \<Rightarrow> Some (r, ss1)
     | Some _ \<Rightarrow> Some (None, ss1)
     | None \<Rightarrow>
         if list_uncomplete (sk_low (ss_slot ss1 i)) then do { ss2 \<leftarrow> raise_uncomplete i ss1; Some (None, ss2) }
         else if sk_low (ss_slot ss1 i) \<noteq> [] then Some (None, ss1)
         else send_finished i ss1 }"

definition send_buffer1 :: "nat \<Rightarrow> server \<Rightarrow> (report \<times> server) option" where
  "send_buffer1 i ss = do {
     c_assert (\<not> list_uncomplete (sk_low (ss_slot ss i)));
     (r, ss1) \<leftarrow> send_list i HIGH ss;
     case r of
       Some (SOCKET_ERR, m) \<Rightarrow> Some (r, ss1)
     | Some _ \<Rightarrow> Some (None, ss1)
     | None \<Rightarrow>
         if sk_high (ss_slot ss1 i) = [] then
           (if sk_low (ss_slot ss1 i) \<noteq> [] then send_low i ss1 else send_finished i ss1)
         else Some (None, ss1) }"

text \<open>The rest of a direct write goes in front of the list, as a plain \<open>write_buffer\<close>.\<close>

definition take_direct :: "nat \<Rightarrow> server \<Rightarrow> server" where
  "take_direct i ss =
     (case sk_dw (ss_slot ss i) of
        None \<Rightarrow> ss
      | Some (b, off) \<Rightarrow>
          (let w = \<lparr>wr_blob = b, wr_done = off, wr_udp = None\<rparr> in
           upd i (\<lambda>s. s\<lparr>sk_wb_size := sk_wb_size s + int (wr_sz w), sk_high := w # sk_high s, sk_dw := None\<rparr>) ss))"

definition send_buffer :: "nat \<Rightarrow> server \<Rightarrow> (report \<times> server) option" where
  "send_buffer i ss = (if sk_locked (ss_slot ss i) then Some (None, ss) else send_buffer1 i (take_direct i ss))"

subsection \<open>Requests to the socket thread\<close>

definition append_sendbuffer :: "nat \<Rightarrow> priority \<Rightarrow> blob \<Rightarrow> bytes option \<Rightarrow> server \<Rightarrow> server" where
  "append_sendbuffer i p b addr ss = (let w = \<lparr>wr_blob = b, wr_done = 0, wr_udp = addr\<rparr> in
     upd i (\<lambda>s. set_list p (get_list p s @ [w]) (s\<lparr>sk_wb_size := sk_wb_size s + int (wr_sz w)\<rparr>)) ss)"

definition trigger_write :: "u32 \<Rightarrow> server \<Rightarrow> (report \<times> server) option" where
  "trigger_write sid ss = (let i = HASH_ID sid in
     if socket_invalid (ss_slot ss i) sid then Some (None, ss)
     else do {
       (err, ss1) \<leftarrow> enable_write i True ss;
       if err then Some (report_error i (Text ''enable write failed'') ss1) else Some (None, ss1) })"

text \<open>The warning about a long queue at the end of \<open>send_socket\<close>.\<close>

definition warn_queue :: "nat \<Rightarrow> server \<Rightarrow> report \<times> server" where
  "warn_queue i ss = (let s = ss_slot ss i; n = sk_wb_size s in
     if WARNING_SIZE \<le> n \<and> sk_warn_size s \<le> n then
       (Some (SOCKET_WARNING, (message_of s NoData)\<lparr>sm_ud := (if n mod 1024 = 0 then n div 1024 else n div 1024 + 1)\<rparr>),
        upd i (\<lambda>s. s\<lparr>sk_warn_size := (if sk_warn_size s = 0 then WARNING_SIZE * 2 else sk_warn_size s * 2)\<rparr>) ss)
     else (None, ss))"

definition send_socket :: "priority \<Rightarrow> u32 \<Rightarrow> blob \<Rightarrow> bytes option \<Rightarrow> server \<Rightarrow> (report \<times> server) option" where
  "send_socket p sid b udp ss = (let i = HASH_ID sid; s = ss_slot ss i in
     if sk_type s = TY_INVALID \<or> sk_id s \<noteq> sid \<or> sk_type s = TY_HALFCLOSE_WRITE \<or> sk_type s = TY_PACCEPT \<or> sk_closing s
     then Some (None, free_blob b ss)
     else if sk_type s = TY_PLISTEN \<or> sk_type s = TY_LISTEN then Some (None, free_blob b ss)
     else if send_buffer_empty s then do {
       (queued, ss1) \<leftarrow>
         (if sk_protocol s = PROTOCOL_TCP then Some (True, append_sendbuffer i HIGH b None ss)
          else do {
            let addr = (case udp of None \<Rightarrow> sk_udp_address s | Some a \<Rightarrow> a);
            ok \<leftarrow> udp_socket_address s addr;
            if \<not> ok then Some (False, free_blob b ss)
            else do {
              (n, ss1) \<leftarrow> sys ss;
              if n \<noteq> int (length (bl_data b)) then Some (True, append_sendbuffer i p b (Some addr) ss1)
              else Some (False, free_blob b (stat_write i n (call (SSendto (sk_fd s) (bl_data b) addr) ss1))) } });
       if queued then do {
         (err, ss2) \<leftarrow> enable_write i True ss1;
         if err then Some (report_error i (Text ''enable write failed'') ss2) else Some (warn_queue i ss2) }
       else Some (None, ss1) }
     else
       Some (warn_queue i
         (if sk_protocol s = PROTOCOL_TCP then append_sendbuffer i p b None ss
          else append_sendbuffer i p b (Some (case udp of None \<Rightarrow> sk_udp_address s | Some a \<Rightarrow> a)) ss)))"

definition failed_slot :: "u32 \<Rightarrow> u64 \<Rightarrow> mdata \<Rightarrow> server \<Rightarrow> report \<times> server" where
  "failed_slot sid opaque d ss =
     (Some (SOCKET_ERR, \<lparr>sm_id = sid, sm_opaque = opaque, sm_ud = 0, sm_data = d\<rparr>), upd (HASH_ID sid) (\<lambda>s. s\<lparr>sk_type := TY_INVALID\<rparr>) ss)"

abbreviation "socket_limit \<equiv> Text ''reach skynet socket number limit''"

definition listen_socket :: "u32 \<Rightarrow> int \<Rightarrow> u64 \<Rightarrow> server \<Rightarrow> (report \<times> server) option" where
  "listen_socket sid fd opaque ss = do {
     (r, ss1) \<leftarrow> new_fd sid fd PROTOCOL_TCP opaque False ss;
     case r of
       None \<Rightarrow> Some (failed_slot sid opaque socket_limit (call (SClose fd) ss1))
     | Some i \<Rightarrow> Some (None, upd i (\<lambda>s. s\<lparr>sk_type := TY_PLISTEN\<rparr>) ss1) }"

definition nomore_sending_data :: "socket \<Rightarrow> bool" where
  "nomore_sending_data s \<longleftrightarrow>
     (send_buffer_empty s \<and> sk_dw s = None \<and> sk_sending s mod 2 ^ 16 = 0) \<or> sk_type s = TY_HALFCLOSE_WRITE"

definition close_read :: "nat \<Rightarrow> server \<Rightarrow> (smessage \<times> server) option" where
  "close_read i ss = do {
     (_, ss1) \<leftarrow> enable_read i False (upd i (\<lambda>s. s\<lparr>sk_type := TY_HALFCLOSE_READ\<rparr>) ss);
     Some (message_of (ss_slot ss1 i) NoData, call (SShutdown (sk_fd (ss_slot ss1 i)) False) ss1) }"

definition halfclose_read :: "socket \<Rightarrow> bool" where
  "halfclose_read s \<longleftrightarrow> sk_type s = TY_HALFCLOSE_READ"

definition close_socket :: "u32 \<Rightarrow> bool \<Rightarrow> server \<Rightarrow> (report \<times> server) option" where
  "close_socket sid shut ss = (let i = HASH_ID sid; s = ss_slot ss i in
     if socket_invalid s sid then Some (None, ss)
     else if shut \<or> nomore_sending_data s then do {
       (m, ss1) \<leftarrow> force_close i ss;
       Some (if halfclose_read s then None else Some (SOCKET_CLOSE, m), ss1) }
     else do {
       let ss1 = upd i (\<lambda>s. s\<lparr>sk_closing := True\<rparr>) ss;
       if \<not> halfclose_read s then do { (m, ss2) \<leftarrow> close_read i ss1; Some (Some (SOCKET_CLOSE, m), ss2) }
       else Some (None, ss1) })"

definition bind_socket :: "u32 \<Rightarrow> int \<Rightarrow> u64 \<Rightarrow> server \<Rightarrow> (report \<times> server) option" where
  "bind_socket sid fd opaque ss = do {
     (r, ss1) \<leftarrow> new_fd sid fd PROTOCOL_TCP opaque True ss;
     let m = \<lparr>sm_id = sid, sm_opaque = opaque, sm_ud = 0, sm_data = NoData\<rparr>;
     case r of
       None \<Rightarrow> Some (Some (SOCKET_ERR, m\<lparr>sm_data := socket_limit\<rparr>), ss1)
     | Some i \<Rightarrow> Some (Some (SOCKET_OPEN, m\<lparr>sm_data := Text ''binding''\<rparr>), upd i (\<lambda>s. s\<lparr>sk_type := TY_BIND\<rparr>) ss1) }"

definition resume_socket :: "u32 \<Rightarrow> u64 \<Rightarrow> server \<Rightarrow> (report \<times> server) option" where
  "resume_socket sid opaque ss = (let i = HASH_ID sid; s = ss_slot ss i;
       m = \<lambda>t. \<lparr>sm_id = sid, sm_opaque = opaque, sm_ud = 0, sm_data = Text t\<rparr> in
     if socket_invalid s sid then Some (Some (SOCKET_ERR, m ''invalid socket''), ss)
     else if halfclose_read s then Some (Some (SOCKET_ERR, m ''socket closed''), ss)
     else do {
       (err, ss1) \<leftarrow> enable_read i True ss;
       if err then Some (Some (SOCKET_ERR, m ''enable read failed''), ss1)
       else if sk_type s = TY_PACCEPT \<or> sk_type s = TY_PLISTEN then
         Some (Some (SOCKET_OPEN, m ''start''),
           upd i (\<lambda>s. s\<lparr>sk_type := (if sk_type s = TY_PACCEPT then TY_CONNECTED else TY_LISTEN), sk_opaque := opaque\<rparr>) ss1)
       else if sk_type s = TY_CONNECTED then Some (Some (SOCKET_OPEN, m ''transfer''), upd i (\<lambda>s. s\<lparr>sk_opaque := opaque\<rparr>) ss1)
       else Some (None, ss1) })"

definition pause_socket :: "u32 \<Rightarrow> server \<Rightarrow> (report \<times> server) option" where
  "pause_socket sid ss = (let i = HASH_ID sid in
     if socket_invalid (ss_slot ss i) sid then Some (None, ss)
     else do {
       (err, ss1) \<leftarrow> enable_read i False ss;
       if err then Some (report_error i (Text ''enable read failed'') ss1) else Some (None, ss1) })"

definition setopt_socket :: "u32 \<Rightarrow> int \<Rightarrow> int \<Rightarrow> server \<Rightarrow> server" where
  "setopt_socket sid what value ss = (let i = HASH_ID sid in
     if socket_invalid (ss_slot ss i) sid then ss else call (SSetopt (sk_fd (ss_slot ss i)) what value) ss)"

definition add_udp_socket :: "u32 \<Rightarrow> int \<Rightarrow> bool \<Rightarrow> u64 \<Rightarrow> server \<Rightarrow> server option" where
  "add_udp_socket sid fd v6 opaque ss = do {
     (r, ss1) \<leftarrow> new_fd sid fd (if v6 then PROTOCOL_UDPv6 else PROTOCOL_UDP) opaque True ss;
     case r of
       None \<Rightarrow> Some (upd (HASH_ID sid) (\<lambda>s. s\<lparr>sk_type := TY_INVALID\<rparr>) (call (SClose fd) ss1))
     | Some i \<Rightarrow> Some (upd i (\<lambda>s. s\<lparr>sk_type := TY_CONNECTED, sk_udp_address := replicate UDP_ADDRESS_SIZE 0\<rparr>) ss1) }"

definition set_udp_address :: "u32 \<Rightarrow> bytes \<Rightarrow> server \<Rightarrow> (report \<times> server) option" where
  "set_udp_address sid addr ss = (let i = HASH_ID sid; s = ss_slot ss i in
     if socket_invalid s sid then Some (None, ss)
     else do {
       t \<leftarrow> arr_get addr 0;
       if unat t \<noteq> sk_protocol s then Some (report_error i (Text ''protocol mismatch'') ss)
       else do {
         let n = (if unat t = PROTOCOL_UDP then 7 else 19);
         c_assert (n \<le> length addr);
         Some (None, upd i (\<lambda>s. s\<lparr>sk_udp_address := take n addr @ drop n (sk_udp_address s), sk_udpconnecting := sk_udpconnecting s - 1\<rparr>) ss) } })"

text \<open>
  \<open>inc_sending_ref\<close> waits while the count is at its limit, and then is no step; \<open>None\<close> is the wait. The count is in the low
  16 bits, the tag of the id above it.
\<close>

definition inc_sending_ref :: "u32 \<Rightarrow> server \<Rightarrow> server option" where
  "inc_sending_ref sid ss = (let i = HASH_ID sid; s = ss_slot ss i in
     if sk_protocol s \<noteq> PROTOCOL_TCP then Some ss
     else if sk_sending s div 2 ^ 16 = ID_TAG16 sid then
       (if sk_sending s mod 2 ^ 16 = 0xffff then None else Some (upd i (\<lambda>s. s\<lparr>sk_sending := sk_sending s + 1\<rparr>) ss))
     else Some ss)"

definition dec_sending_ref :: "u32 \<Rightarrow> server \<Rightarrow> server option" where
  "dec_sending_ref sid ss = (let i = HASH_ID sid; s = ss_slot ss i in
     if sk_id s = sid \<and> sk_protocol s = PROTOCOL_TCP then do {
       c_assert (sk_sending s mod 2 ^ 16 \<noteq> 0);
       Some (upd i (\<lambda>s. s\<lparr>sk_sending := sk_sending s - 1\<rparr>) ss) }
     else Some ss)"

text \<open>
  \<open>open_socket\<close> tries the addresses of the host one after the other: \<open>connect_loop\<close> gives the socket and whether it is connected
  at once. The number of addresses is the result of \<open>getaddrinfo\<close>.
\<close>

fun connect_loop :: "nat \<Rightarrow> server \<Rightarrow> ((int \<times> bool) option \<times> server) option" where
  "connect_loop 0 ss = Some (None, ss)"
| "connect_loop (Suc n) ss = do {
     (fd, ss1) \<leftarrow> sys ss;
     if fd < 0 then connect_loop n ss1
     else do {
       (st, ss2) \<leftarrow> sys ss1;
       if st \<noteq> 0 \<and> st \<noteq> E_INPROGRESS then connect_loop n (call (SClose fd) ss2)
       else Some (Some (fd, st = 0), ss2) } }"

text \<open>The socket that was found, and whether it is connected already.\<close>

definition open_fd :: "u32 \<Rightarrow> u64 \<Rightarrow> int \<Rightarrow> bool \<Rightarrow> server \<Rightarrow> (report \<times> server) option" where
  "open_fd sid opaque fd connected ss = do {
     (ns, ss1) \<leftarrow> new_fd sid fd PROTOCOL_TCP opaque True ss;
     case ns of
       None \<Rightarrow> Some (failed_slot sid opaque socket_limit (call (SClose fd) ss1))
     | Some i \<Rightarrow>
         if connected then
           Some (Some (SOCKET_OPEN, \<lparr>sm_id = sid, sm_opaque = opaque, sm_ud = 0, sm_data = Address\<rparr>),
             upd i (\<lambda>s. s\<lparr>sk_type := TY_CONNECTED\<rparr>) ss1)
         else do {
           (err, ss2) \<leftarrow> enable_write i True (upd i (\<lambda>s. s\<lparr>sk_type := TY_CONNECTING\<rparr>) ss1);
           if err then Some (failed_slot sid opaque (Text ''enable write failed'') ss2) else Some (None, ss2) } }"

definition open_socket :: "u32 \<Rightarrow> u64 \<Rightarrow> server \<Rightarrow> (report \<times> server) option" where
  "open_socket sid opaque ss = do {
     (n, ss1) \<leftarrow> sys ss;
     if n < 0 then Some (failed_slot sid opaque (Errno n) ss1)
     else do {
       (r, ss2) \<leftarrow> connect_loop (nat n) ss1;
       case r of
         None \<Rightarrow> Some (failed_slot sid opaque (Errno n) ss2)
       | Some (fd, connected) \<Rightarrow> open_fd sid opaque fd connected ss2 } }"

definition ctrl_cmd :: "server \<Rightarrow> (report \<times> server) option" where
  "ctrl_cmd ss0 =
     (case ss_pipe ss0 of
        [] \<Rightarrow> None
      | req # reqs \<Rightarrow> (let ss = ss0\<lparr>ss_pipe := reqs\<rparr> in
          case req of
            RResume sid opaque \<Rightarrow> resume_socket sid opaque ss
          | RPause sid opaque \<Rightarrow> pause_socket sid ss
          | RBind sid fd opaque \<Rightarrow> bind_socket sid fd opaque ss
          | RListen sid fd opaque \<Rightarrow> listen_socket sid fd opaque ss
          | RClose sid shut opaque \<Rightarrow> close_socket sid shut ss
          | ROpen sid opaque host port \<Rightarrow> open_socket sid opaque ss
          | RExit \<Rightarrow> Some (Some (SOCKET_EXIT, \<lparr>sm_id = 0, sm_opaque = 0, sm_ud = 0, sm_data = NoData\<rparr>), ss)
          | RTrigger sid \<Rightarrow> trigger_write sid ss
          | RSend p sid b \<Rightarrow> do {
              (r, ss1) \<leftarrow> send_socket p sid b None ss;
              ss2 \<leftarrow> dec_sending_ref sid ss1;
              Some (r, ss2) }
          | RSendUdp sid b addr \<Rightarrow> send_socket HIGH sid b (Some addr) ss
          | RSetUdp sid addr \<Rightarrow> set_udp_address sid addr ss
          | RSetopt sid what value \<Rightarrow> Some (None, setopt_socket sid what value ss)
          | RUdp sid fd v6 opaque \<Rightarrow> do { ss1 \<leftarrow> add_udp_socket sid fd v6 opaque ss; Some (None, ss1) }))"

end
