(* ===== verification/Socket_Poll.thy ===== *)
theory Socket_Poll
  imports Socket_Server
begin

section \<open>The poll loop and the calls of other threads (skynet-src/socket_server.c)\<close>

text \<open>
  The second half of socket_server.c: what the socket thread does with an event of \<open>sp_wait\<close>, the loop \<open>socket_server_poll\<close>, and the
  functions that any thread calls: they put a request into the pipe, and \<open>socket_server_send\<close> may write directly.
\<close>

subsection \<open>Events\<close>

text \<open>A read gives \<open>Ret\<close> of a negative number, or the bytes it \<open>Got\<close>, which are no more than it asked for.\<close>

definition forward_message_tcp :: "nat \<Rightarrow> server \<Rightarrow> (report \<times> server) option" where
  "forward_message_tcp i ss = (let s = ss_slot ss i; sz = sk_size s in do {
     (g, ss1) \<leftarrow> sys_data ss;
     case g of
       Ret n \<Rightarrow> if n = E_INTR \<or> n = E_AGAIN then Some (None, ss1) else Some (report_error i (Errno n) ss1)
     | Got bs _ \<Rightarrow> do {
         c_assert (int (length bs) \<le> sz);
         let n = int (length bs);
         if n = 0 then
           (if sk_closing s then
              (if nomore_sending_data s then do { (_, ss2) \<leftarrow> force_close i ss1; Some (None, ss2) } else Some (None, ss1))
            else if sk_type s = TY_HALFCLOSE_READ then Some (None, ss1)
            else do {
              (m, ss2) \<leftarrow> (if sk_type s = TY_HALFCLOSE_WRITE then force_close i ss1 else close_read i ss1);
              Some (Some (SOCKET_CLOSE, m), ss2) })
         else if halfclose_read s then Some (None, ss1)
         else
           (let ss2 = stat_read i n ss1; m = (message_of s (Block bs))\<lparr>sm_ud := n\<rparr> in
            if n = sz then Some (Some (SOCKET_MORE, m), upd i (\<lambda>s. s\<lparr>sk_size := sk_size s * 2\<rparr>) ss2)
            else if MIN_READ_BUFFER < sz \<and> n * 2 < sz then
              Some (Some (SOCKET_DATA, m), upd i (\<lambda>s. s\<lparr>sk_size := sk_size s div 2\<rparr>) ss2)
            else Some (Some (SOCKET_DATA, m), ss2)) } })"

text \<open>The port and the address, as the system has them: 6 bytes for IPv4 and 18 for IPv6.\<close>

definition gen_udp_address :: "nat \<Rightarrow> bytes \<Rightarrow> bytes option" where
  "gen_udp_address protocol sa = (let n = (if protocol = PROTOCOL_UDP then 6 else 18) in do {
     c_assert (n \<le> length sa);
     Some (of_nat protocol # take n sa) })"

definition forward_message_udp :: "nat \<Rightarrow> server \<Rightarrow> (report \<times> server) option" where
  "forward_message_udp i ss = (let s = ss_slot ss i in do {
     (g, ss1) \<leftarrow> sys_data ss;
     case g of
       Ret n \<Rightarrow>
         if n = E_INTR \<or> n = E_AGAIN then Some (None, ss1)
         else do { (m, ss2) \<leftarrow> force_close i ss1; Some (Some (SOCKET_ERR, m\<lparr>sm_data := Errno n\<rparr>), ss2) }
     | Got bs sa \<Rightarrow>
         (let n = int (length bs); ss2 = stat_read i n ss1; protocol = (if length sa = 6 then PROTOCOL_UDP else PROTOCOL_UDPv6) in
          if sk_protocol s \<noteq> protocol then Some (None, ss2)
          else do {
            a \<leftarrow> gen_udp_address protocol sa;
            Some (Some (SOCKET_UDP, (message_of s (Block (bs @ a)))\<lparr>sm_ud := n\<rparr>), ss2) }) })"

text \<open>The results are the error of the socket and whether the address of the peer can be printed.\<close>

definition report_connect :: "nat \<Rightarrow> server \<Rightarrow> (report \<times> server) option" where
  "report_connect i ss = do {
     (e, ss1) \<leftarrow> sys ss;
     if e \<noteq> 0 then do { (m, ss2) \<leftarrow> force_close i ss1; Some (Some (SOCKET_ERR, m\<lparr>sm_data := Errno e\<rparr>), ss2) }
     else do {
       let ss2 = upd i (\<lambda>s. s\<lparr>sk_type := TY_CONNECTED\<rparr>) ss1;
       (failed, ss3) \<leftarrow> (if nomore_sending_data (ss_slot ss2 i) then enable_write i False ss2 else Some (False, ss2));
       if failed then do {
         (m, ss4) \<leftarrow> force_close i ss3;
         Some (Some (SOCKET_ERR, m\<lparr>sm_data := Text ''disable write failed''\<rparr>), ss4) }
       else do {
         (a, ss4) \<leftarrow> sys ss3;
         Some (Some (SOCKET_OPEN, message_of (ss_slot ss4 i) (if a = 0 then Address else NoData)), ss4) } } }"

text \<open>\<open>E_MFILE\<close> stands for both errors of a full table of files. The result \<open>0\<close> of the source is nothing.\<close>

definition report_accept :: "nat \<Rightarrow> server \<Rightarrow> (report \<times> server) option" where
  "report_accept i ss = do {
     (fd, ss1) \<leftarrow> sys ss;
     if fd < 0 then
       (if fd = E_MFILE then Some (Some (SOCKET_ERR, message_of (ss_slot ss1 i) (Errno fd)), ss1) else Some (None, ss1))
     else case reserve_id ss1 of
       (None, ss2) \<Rightarrow> Some (None, call (SClose fd) ss2)
     | (Some sid, ss2) \<Rightarrow> do {
         (r, ss3) \<leftarrow> new_fd sid fd PROTOCOL_TCP (sk_opaque (ss_slot ss2 i)) False ss2;
         case r of
           None \<Rightarrow> Some (None, call (SClose fd) ss3)
         | Some j \<Rightarrow> do {
             let ss4 = upd j (\<lambda>s. s\<lparr>sk_type := TY_PACCEPT\<rparr>) (stat_read i 1 ss3);
             (a, ss5) \<leftarrow> sys ss4;
             Some (Some (SOCKET_ACCEPT, (message_of (ss_slot ss5 i) (if a = 0 then Address else NoData))\<lparr>sm_ud := sint sid\<rparr>), ss5) } } }"

text \<open>The first event that is left for the socket that was closed is cleared.\<close>

fun clear_event :: "(nat \<Rightarrow> socket) \<Rightarrow> u32 \<Rightarrow> event list \<Rightarrow> event list" where
  "clear_event slot sid [] = []"
| "clear_event slot sid (e # es) =
     (case ev_s e of
        None \<Rightarrow> e # clear_event slot sid es
      | Some j \<Rightarrow>
          if socket_invalid (slot j) sid \<and> sk_id (slot j) = sid then e\<lparr>ev_s := None\<rparr> # es
          else e # clear_event slot sid es)"

definition clear_closed_event :: "event_type \<Rightarrow> smessage \<Rightarrow> server \<Rightarrow> server" where
  "clear_closed_event t m ss =
     (if t = SOCKET_CLOSE \<or> t = SOCKET_ERR then ss\<lparr>ss_ev := clear_event (ss_slot ss) (sm_id m) (ss_ev ss)\<rparr> else ss)"

subsection \<open>The loop\<close>

text \<open>The event \<open>e\<close> was taken from the front of \<open>ss_ev\<close>; \<open>--event_index\<close> puts it back.\<close>

definition again :: "event \<Rightarrow> server \<Rightarrow> server" where
  "again e ss = ss\<lparr>ss_ev := e # ss_ev ss\<rparr>"

definition dispatch_read :: "nat \<Rightarrow> event \<Rightarrow> server \<Rightarrow> (report \<times> server) option" where
  "dispatch_read i e ss = do {
     (r, ss1) \<leftarrow> (if sk_protocol (ss_slot ss i) = PROTOCOL_TCP then forward_message_tcp i ss else forward_message_udp i ss);
     let r_write = (if ev_write e then again (e\<lparr>ev_read := False\<rparr>) ss1 else ss1);
     case r of
       None \<Rightarrow> Some (None, r_write)
     | Some (t, m) \<Rightarrow>
         if t = SOCKET_MORE then Some (Some (SOCKET_DATA, m), again e ss1)
         else if t = SOCKET_UDP then Some (Some (SOCKET_UDP, m), again e ss1)
         else if t = SOCKET_CLOSE \<or> t = SOCKET_ERR then Some (Some (t, m), ss1)
         else Some (Some (t, m), r_write) }"

definition dispatch_event :: "event \<Rightarrow> server \<Rightarrow> (report \<times> server) option" where
  "dispatch_event e ss =
     (case ev_s e of
        None \<Rightarrow> Some (None, ss)
      | Some i \<Rightarrow> (let s = ss_slot ss i in
          if sk_type s = TY_CONNECTING then report_connect i ss
          else if sk_type s = TY_LISTEN then report_accept i ss
          else if sk_type s = TY_INVALID then Some (None, ss)
          else if ev_read e then dispatch_read i e ss
          else if ev_write e then send_buffer i ss
          else if ev_error e then do {
            (n, ss1) \<leftarrow> sys ss;
            Some (report_error i (if n \<noteq> 0 then Errno n else Text ''Unknown error'') ss1) }
          else if ev_eof e then do {
            (m, ss1) \<leftarrow> force_close i ss;
            Some (if halfclose_read s then None else Some (SOCKET_CLOSE, m), ss1) }
          else Some (None, ss)))"

text \<open>
  One round of the loop: whether \<open>sp_wait\<close> was called, which clears \<open>more\<close>, and the report; nothing is one more round.
\<close>

definition poll_event :: "server \<Rightarrow> (bool \<times> report \<times> server) option" where
  "poll_event ss =
     (case ss_ev ss of
        e # es \<Rightarrow> do { (r, ss1) \<leftarrow> dispatch_event e (ss\<lparr>ss_ev := es\<rparr>); Some (False, r, ss1) }
      | [] \<Rightarrow>
         (case ss_waits ss of
            [] \<Rightarrow> None
          | evs # ws \<Rightarrow> (let ss1 = ss\<lparr>ss_waits := ws, ss_checkctrl := True\<rparr> in
              case evs of
                [] \<Rightarrow> Some (True, None, ss1)
              | e # es \<Rightarrow> do { (r, ss2) \<leftarrow> dispatch_event e (ss1\<lparr>ss_ev := es\<rparr>); Some (True, r, ss2) })))"

definition poll_round :: "server \<Rightarrow> (bool \<times> report \<times> server) option" where
  "poll_round ss =
     (if ss_checkctrl ss then
        (if ss_pipe ss \<noteq> [] then do {
           (r, ss1) \<leftarrow> ctrl_cmd ss;
           Some (False, r, case r of None \<Rightarrow> ss1 | Some (t, m) \<Rightarrow> clear_closed_event t m ss1) }
         else poll_event (ss\<lparr>ss_checkctrl := False\<rparr>))
      else poll_event ss)"

partial_function (option) socket_server_poll :: "bool \<Rightarrow> server \<Rightarrow> ((event_type \<times> smessage) \<times> bool \<times> server) option" where
  "socket_server_poll mo ss = do {
     (waited, r, ss1) \<leftarrow> poll_round ss;
     case r of
       None \<Rightarrow> socket_server_poll (mo \<and> \<not> waited) ss1
     | Some m \<Rightarrow> Some (m, mo \<and> \<not> waited, ss1) }"

subsection \<open>Requests of other threads\<close>

text \<open>The write to the pipe is repeated until it succeeds, so it is one step that appends. Any thread may do it at any time.\<close>

definition send_request :: "request \<Rightarrow> server \<Rightarrow> server" where
  "send_request r ss = ss\<lparr>ss_pipe := ss_pipe ss @ [r]\<rparr>"

text \<open>\<open>sizeof(struct request_open)\<close> is 24.\<close>

definition open_request :: "string \<Rightarrow> server \<Rightarrow> u32 option \<times> server" where
  "open_request addr ss = (if 256 \<le> length addr + 24 then (None, ss) else reserve_id ss)"

definition socket_server_connect :: "u64 \<Rightarrow> string \<Rightarrow> int \<Rightarrow> server \<Rightarrow> u32 option \<times> server" where
  "socket_server_connect opaque addr port ss =
     (case open_request addr ss of
        (None, ss1) \<Rightarrow> (None, ss1)
      | (Some sid, ss1) \<Rightarrow> (Some sid, send_request (ROpen sid opaque addr port) ss1))"

definition socket_server_exit :: "server \<Rightarrow> server" where
  "socket_server_exit ss = send_request RExit ss"

definition socket_server_close :: "u64 \<Rightarrow> u32 \<Rightarrow> server \<Rightarrow> server" where
  "socket_server_close opaque sid ss = send_request (RClose sid False opaque) ss"

definition socket_server_shutdown :: "u64 \<Rightarrow> u32 \<Rightarrow> server \<Rightarrow> server" where
  "socket_server_shutdown opaque sid ss = send_request (RClose sid True opaque) ss"

text \<open>
  \<open>do_bind\<close> with the results of \<open>getaddrinfo\<close> (an error, or whether the family is IPv6), \<open>socket\<close>, \<open>setsockopt\<close> and \<open>bind\<close>.
\<close>

definition do_bind :: "server \<Rightarrow> ((int \<times> bool) option \<times> server) option" where
  "do_bind ss = do {
     (status, ss1) \<leftarrow> sys ss;
     if status < 0 then Some (None, ss1)
     else do {
       (fd, ss2) \<leftarrow> sys ss1;
       if fd < 0 then Some (None, ss2)
       else do {
         (r, ss3) \<leftarrow> sys ss2;
         if r = - 1 then Some (None, call (SClose fd) ss3)
         else do {
           (b, ss4) \<leftarrow> sys ss3;
           if b \<noteq> 0 then Some (None, call (SClose fd) ss4) else Some (Some (fd, status \<noteq> 0), ss4) } } } }"

definition do_listen :: "server \<Rightarrow> (int option \<times> server) option" where
  "do_listen ss = do {
     (r, ss1) \<leftarrow> do_bind ss;
     case r of
       None \<Rightarrow> Some (None, ss1)
     | Some (fd, v6) \<Rightarrow> do {
         (l, ss2) \<leftarrow> sys ss1;
         if l = - 1 then Some (None, call (SClose fd) ss2) else Some (Some fd, ss2) } }"

definition socket_server_listen :: "u64 \<Rightarrow> server \<Rightarrow> (u32 option \<times> server) option" where
  "socket_server_listen opaque ss = do {
     (r, ss1) \<leftarrow> do_listen ss;
     case r of
       None \<Rightarrow> Some (None, ss1)
     | Some fd \<Rightarrow>
         (case reserve_id ss1 of
            (None, ss2) \<Rightarrow> Some (None, call (SClose fd) ss2)
          | (Some sid, ss2) \<Rightarrow> Some (Some sid, send_request (RListen sid fd opaque) ss2)) }"

definition socket_server_bind :: "u64 \<Rightarrow> int \<Rightarrow> server \<Rightarrow> u32 option \<times> server" where
  "socket_server_bind opaque fd ss =
     (case reserve_id ss of
        (None, ss1) \<Rightarrow> (None, ss1)
      | (Some sid, ss1) \<Rightarrow> (Some sid, send_request (RBind sid fd opaque) ss1))"

definition socket_server_start :: "u64 \<Rightarrow> u32 \<Rightarrow> server \<Rightarrow> server" where
  "socket_server_start opaque sid ss = send_request (RResume sid opaque) ss"

definition socket_server_pause :: "u64 \<Rightarrow> u32 \<Rightarrow> server \<Rightarrow> server" where
  "socket_server_pause opaque sid ss = send_request (RPause sid opaque) ss"

definition TCP_NODELAY :: int where "TCP_NODELAY = 1"

definition socket_server_nodelay :: "u32 \<Rightarrow> server \<Rightarrow> server" where
  "socket_server_nodelay sid ss = send_request (RSetopt sid TCP_NODELAY 1) ss"

text \<open>Without an address and a port no \<open>bind\<close> is done.\<close>

definition socket_server_udp :: "u64 \<Rightarrow> string option \<Rightarrow> int \<Rightarrow> server \<Rightarrow> (u32 option \<times> server) option" where
  "socket_server_udp opaque addr port ss = do {
     (r, ss1) \<leftarrow> (if port \<noteq> 0 \<or> addr \<noteq> None then do_bind ss
       else do { (fd, ss1) \<leftarrow> sys ss; Some (if fd < 0 then None else Some (fd, False), ss1) });
     case r of
       None \<Rightarrow> Some (None, ss1)
     | Some (fd, v6) \<Rightarrow>
         (case reserve_id ss1 of
            (None, ss2) \<Rightarrow> Some (None, call (SClose fd) ss2)
          | (Some sid, ss2) \<Rightarrow> Some (Some sid, send_request (RUdp sid fd v6 opaque) ss2)) }"

subsection \<open>Sending\<close>

text \<open>
  \<open>socket_server_send\<close> is cut where other threads can run: \<open>send_refused\<close> and \<open>direct_lock\<close> (the check, the lock and the check again),
  \<open>direct_write\<close>, and on the other path \<open>inc_sending_ref\<close> and the write to the pipe. The second check reads the lists, the rest of a
  direct write and the count at one moment. Requests that were in the pipe before the call began are counted in the first check
  already.
\<close>

definition can_direct_write :: "socket \<Rightarrow> u32 \<Rightarrow> bool" where
  "can_direct_write s sid \<longleftrightarrow> sk_id s = sid \<and> nomore_sending_data s \<and> sk_type s = TY_CONNECTED \<and> sk_udpconnecting s = 0"

definition send_refused :: "u32 \<Rightarrow> server \<Rightarrow> bool" where
  "send_refused sid ss \<longleftrightarrow> socket_invalid (ss_slot ss (HASH_ID sid)) sid \<or> sk_closing (ss_slot ss (HASH_ID sid))"

definition direct_lock :: "u32 \<Rightarrow> server \<Rightarrow> bool \<times> server" where
  "direct_lock sid ss = (let i = HASH_ID sid; s = ss_slot ss i in
     if can_direct_write s sid \<and> \<not> sk_locked s then (True, upd i (\<lambda>s. s\<lparr>sk_locked := True\<rparr>) ss) else (False, ss))"

definition socket_unlock :: "nat \<Rightarrow> server \<Rightarrow> server" where
  "socket_unlock i ss = upd i (\<lambda>s. s\<lparr>sk_locked := False\<rparr>) ss"

text \<open>The write under the lock: the number of bytes, or nothing when the address of a UDP socket is not set.\<close>

definition direct_send :: "nat \<Rightarrow> bytes \<Rightarrow> server \<Rightarrow> (int option \<times> server) option" where
  "direct_send i data ss = (let s = ss_slot ss i in
     if sk_protocol s = PROTOCOL_TCP then do {
       (n, ss1) \<leftarrow> sys ss;
       c_assert (n \<le> int (length data));
       Some (Some n, if n < 0 then ss1 else call (SWrite (sk_fd s) (take (nat n) data)) ss1) }
     else do {
       ok \<leftarrow> udp_socket_address s (sk_udp_address s);
       if \<not> ok then Some (None, ss)
       else do {
         (n, ss1) \<leftarrow> sys ss;
         c_assert (n \<le> int (length data));
         Some (Some n, if n < 0 then ss1 else call (SSendto (sk_fd s) data (sk_udp_address s)) ss1) } })"

datatype direct_result = Direct_error | Direct_done | Direct_rest

definition direct_write :: "sendbuffer \<Rightarrow> server \<Rightarrow> (direct_result \<times> server) option" where
  "direct_write b ss = (let i = HASH_ID (sb_id b) in do {
     (r, ss1) \<leftarrow> direct_send i (sb_data b) ss;
     case r of
       None \<Rightarrow> Some (Direct_error, free_buffer b (socket_unlock i ss1))
     | Some n0 \<Rightarrow> (let n = max n0 0; ss2 = stat_write i n ss1 in
         if n = int (length (sb_data b)) then Some (Direct_done, free_buffer b (socket_unlock i ss2))
         else (let (c, ss3) = clone_buffer b ss2 in
           Some (Direct_rest, socket_unlock i (upd i (\<lambda>s. s\<lparr>sk_dw := Some (c, nat n)\<rparr>) ss3)))) })"

definition send_enqueue :: "priority \<Rightarrow> sendbuffer \<Rightarrow> server \<Rightarrow> server" where
  "send_enqueue p b ss = (let (c, ss1) = clone_buffer b ss in send_request (RSend p (sb_id b) c) ss1)"

text \<open>The results \<open>-1\<close> and \<open>0\<close> are \<open>False\<close> and \<open>True\<close>.\<close>

definition socket_server_send :: "sendbuffer \<Rightarrow> server \<Rightarrow> (bool \<times> server) option" where
  "socket_server_send b ss = (let sid = sb_id b in
     if send_refused sid ss then Some (False, free_buffer b ss)
     else case direct_lock sid ss of
       (True, ss1) \<Rightarrow> do {
         (r, ss2) \<leftarrow> direct_write b ss1;
         case r of
           Direct_error \<Rightarrow> Some (False, ss2)
         | Direct_done \<Rightarrow> Some (True, ss2)
         | Direct_rest \<Rightarrow> Some (True, send_request (RTrigger sid) ss2) }
     | (False, ss1) \<Rightarrow> do {
         ss2 \<leftarrow> inc_sending_ref sid ss1;
         Some (True, send_enqueue HIGH b ss2) })"

definition socket_server_send_lowpriority :: "sendbuffer \<Rightarrow> server \<Rightarrow> (bool \<times> server) option" where
  "socket_server_send_lowpriority b ss = (let sid = sb_id b in
     if socket_invalid (ss_slot ss (HASH_ID sid)) sid then Some (False, free_buffer b ss)
     else do {
       ss1 \<leftarrow> inc_sending_ref sid ss;
       Some (True, send_enqueue LOW b ss1) })"

subsection \<open>UDP\<close>

definition udp_address_size :: "u8 \<Rightarrow> nat option" where
  "udp_address_size t = (if unat t = PROTOCOL_UDP then Some 7 else if unat t = PROTOCOL_UDPv6 then Some 19 else None)"

text \<open>A negative result of \<open>sendto\<close> leaves the package to the socket thread.\<close>

definition socket_server_udp_send :: "bytes \<Rightarrow> sendbuffer \<Rightarrow> server \<Rightarrow> (bool \<times> server) option" where
  "socket_server_udp_send addr b ss = (let sid = sb_id b; i = HASH_ID sid in
     if socket_invalid (ss_slot ss i) sid then Some (False, free_buffer b ss)
     else do {
       t \<leftarrow> arr_get addr 0;
       case udp_address_size t of
         None \<Rightarrow> Some (False, free_buffer b ss)
       | Some addrsz \<Rightarrow> do {
           c_assert (addrsz \<le> length addr);
           (r, ss1) \<leftarrow>
             (case direct_lock sid ss of
                (True, ss1) \<Rightarrow> do {
                  ok \<leftarrow> udp_socket_address (ss_slot ss1 i) addr;
                  if \<not> ok then Some (Some False, free_buffer b (socket_unlock i ss1))
                  else do {
                    (n, ss2) \<leftarrow> sys ss1;
                    if 0 \<le> n then
                      Some (Some True, free_buffer b (socket_unlock i (stat_write i n (call (SSendto (sk_fd (ss_slot ss1 i)) (sb_data b) addr) ss2))))
                    else Some (None, socket_unlock i ss2) } }
              | (False, ss1) \<Rightarrow> Some (None, ss1));
           case r of
             Some ok \<Rightarrow> Some (ok, ss1)
           | None \<Rightarrow> (let (c, ss2) = clone_buffer b ss1 in Some (True, send_request (RSendUdp sid c (take addrsz addr)) ss2)) } })"

text \<open>The results of \<open>getaddrinfo\<close>: an error, or the address, of IPv4 when it has 6 bytes, and of IPv6 when it has 18.\<close>

definition socket_server_udp_connect :: "u32 \<Rightarrow> server \<Rightarrow> (bool \<times> server) option" where
  "socket_server_udp_connect sid ss = (let i = HASH_ID sid in
     if socket_invalid (ss_slot ss i) sid then Some (False, ss)
     else do {
       c_assert (\<not> sk_locked (ss_slot ss i));
       let ss1 = upd i (\<lambda>s. s\<lparr>sk_udpconnecting := sk_udpconnecting s + 1\<rparr>) ss;
       (g, ss2) \<leftarrow> sys_data ss1;
       case g of
         Ret n \<Rightarrow> Some (False, ss2)
       | Got _ sa \<Rightarrow>
           if length sa = 6 \<or> length sa = 18 then do {
             a \<leftarrow> gen_udp_address (if length sa = 6 then PROTOCOL_UDP else PROTOCOL_UDPv6) sa;
             Some (True, send_request (RSetUdp sid a) ss2) }
           else Some (False, ss2) })"

definition socket_server_udp_address :: "smessage \<Rightarrow> bytes option option" where
  "socket_server_udp_address m =
     (case sm_data m of
        Block bs \<Rightarrow> do {
          t \<leftarrow> arr_get bs (nat (sm_ud m));
          case udp_address_size t of
            None \<Rightarrow> Some None
          | Some n \<Rightarrow> do { c_assert (nat (sm_ud m) + n \<le> length bs); Some (Some (take n (drop (nat (sm_ud m)) bs))) } }
      | _ \<Rightarrow> None)"

subsection \<open>Information\<close>

datatype info_type = SOCKET_INFO_LISTEN | SOCKET_INFO_TCP | SOCKET_INFO_UDP | SOCKET_INFO_BIND | SOCKET_INFO_CLOSING

text \<open>The name, an address as text, is left out.\<close>

record socket_info =
  si_id :: u32
  si_type :: info_type
  si_opaque :: u64
  si_read :: int
  si_write :: int
  si_rtime :: u64
  si_wtime :: u64
  si_wbuffer :: int
  si_reading :: bool
  si_writing :: bool

definition info_type_of :: "socket \<Rightarrow> info_type option" where
  "info_type_of s =
     (if sk_type s = TY_BIND then Some SOCKET_INFO_BIND
      else if sk_type s = TY_LISTEN then Some SOCKET_INFO_LISTEN
      else if sk_type s = TY_HALFCLOSE_READ \<or> sk_type s = TY_HALFCLOSE_WRITE then
        Some (if sk_protocol s = PROTOCOL_TCP then SOCKET_INFO_CLOSING else SOCKET_INFO_UDP)
      else if sk_type s = TY_CONNECTED then Some (if sk_protocol s = PROTOCOL_TCP then SOCKET_INFO_TCP else SOCKET_INFO_UDP)
      else None)"

definition query_info :: "socket \<Rightarrow> socket_info option" where
  "query_info s = do {
     t \<leftarrow> info_type_of s;
     Some \<lparr>si_id = sk_id s, si_type = t, si_opaque = sk_opaque s, si_read = sk_read s, si_write = sk_write s, si_rtime = sk_rtime s,
       si_wtime = sk_wtime s, si_wbuffer = sk_wb_size s, si_reading = sk_reading s, si_writing = sk_writing s\<rparr> }"

text \<open>The list is built from the front, so the highest slot comes first.\<close>

fun info_loop :: "nat \<Rightarrow> (nat \<Rightarrow> socket) \<Rightarrow> socket_info list" where
  "info_loop 0 slot = []"
| "info_loop (Suc n) slot = (case query_info (slot n) of None \<Rightarrow> info_loop n slot | Some si \<Rightarrow> si # info_loop n slot)"

definition socket_server_info :: "server \<Rightarrow> socket_info list" where
  "socket_server_info ss = info_loop MAX_SOCKET (ss_slot ss)"

subsection \<open>The calls of the services (skynet-src/skynet_socket.c)\<close>

text \<open>
  The functions of skynet_socket.c add the handle of the calling service, \<open>source\<close>, as the owner. \<open>skynet_socket_poll\<close> gives the
  message for \<open>forward_message\<close>, with its number and whether its data is a text, and the result of the source, 0 at the exit.
\<close>

definition skynet_socket_listen :: "u32 \<Rightarrow> server \<Rightarrow> (u32 option \<times> server) option" where
  "skynet_socket_listen source ss = socket_server_listen (ucast source) ss"

definition skynet_socket_connect :: "u32 \<Rightarrow> string \<Rightarrow> int \<Rightarrow> server \<Rightarrow> u32 option \<times> server" where
  "skynet_socket_connect source host port ss = socket_server_connect (ucast source) host port ss"

definition skynet_socket_bind :: "u32 \<Rightarrow> int \<Rightarrow> server \<Rightarrow> u32 option \<times> server" where
  "skynet_socket_bind source fd ss = socket_server_bind (ucast source) fd ss"

definition skynet_socket_close :: "u32 \<Rightarrow> u32 \<Rightarrow> server \<Rightarrow> server" where
  "skynet_socket_close source sid ss = socket_server_close (ucast source) sid ss"

definition skynet_socket_shutdown :: "u32 \<Rightarrow> u32 \<Rightarrow> server \<Rightarrow> server" where
  "skynet_socket_shutdown source sid ss = socket_server_shutdown (ucast source) sid ss"

definition skynet_socket_start :: "u32 \<Rightarrow> u32 \<Rightarrow> server \<Rightarrow> server" where
  "skynet_socket_start source sid ss = socket_server_start (ucast source) sid ss"

definition skynet_socket_pause :: "u32 \<Rightarrow> u32 \<Rightarrow> server \<Rightarrow> server" where
  "skynet_socket_pause source sid ss = socket_server_pause (ucast source) sid ss"

definition skynet_socket_udp :: "u32 \<Rightarrow> string option \<Rightarrow> int \<Rightarrow> server \<Rightarrow> (u32 option \<times> server) option" where
  "skynet_socket_udp source addr port ss = socket_server_udp (ucast source) addr port ss"

definition forward_type :: "event_type \<Rightarrow> (nat \<times> bool) option" where
  "forward_type t =
     (case t of
        SOCKET_DATA \<Rightarrow> Some (1, False)
      | SOCKET_CLOSE \<Rightarrow> Some (3, False)
      | SOCKET_OPEN \<Rightarrow> Some (2, True)
      | SOCKET_ERR \<Rightarrow> Some (5, True)
      | SOCKET_ACCEPT \<Rightarrow> Some (4, True)
      | SOCKET_UDP \<Rightarrow> Some (6, False)
      | SOCKET_WARNING \<Rightarrow> Some (7, False)
      | _ \<Rightarrow> None)"

definition skynet_socket_poll :: "server \<Rightarrow> (int \<times> (nat \<times> bool \<times> smessage) option \<times> server) option" where
  "skynet_socket_poll ss = do {
     ((t, m), mo, ss1) \<leftarrow> socket_server_poll True ss;
     Some (if t = SOCKET_EXIT then (0, None, ss1)
       else case forward_type t of
         None \<Rightarrow> (- 1, None, ss1)
       | Some (n, padding) \<Rightarrow> (if mo then - 1 else 1, Some (n, padding, m), ss1)) }"

text \<open>The other functions only pass their arguments on; the clock \<open>skynet_now\<close> is an argument.\<close>

definition skynet_socket_init :: "u64 \<Rightarrow> sysret list \<Rightarrow> server" where
  "skynet_socket_init now sr = socket_server_create now sr"

definition skynet_socket_exit :: "server \<Rightarrow> server" where
  "skynet_socket_exit ss = socket_server_exit ss"

definition skynet_socket_free :: "server \<Rightarrow> server option" where
  "skynet_socket_free ss = socket_server_release ss"

definition skynet_socket_updatetime :: "u64 \<Rightarrow> server \<Rightarrow> server" where
  "skynet_socket_updatetime now ss = socket_server_updatetime now ss"

definition skynet_socket_sendbuffer :: "sendbuffer \<Rightarrow> server \<Rightarrow> (bool \<times> server) option" where
  "skynet_socket_sendbuffer b ss = socket_server_send b ss"

definition skynet_socket_sendbuffer_lowpriority :: "sendbuffer \<Rightarrow> server \<Rightarrow> (bool \<times> server) option" where
  "skynet_socket_sendbuffer_lowpriority b ss = socket_server_send_lowpriority b ss"

definition skynet_socket_nodelay :: "u32 \<Rightarrow> server \<Rightarrow> server" where
  "skynet_socket_nodelay sid ss = socket_server_nodelay sid ss"

definition skynet_socket_udp_connect :: "u32 \<Rightarrow> server \<Rightarrow> (bool \<times> server) option" where
  "skynet_socket_udp_connect sid ss = socket_server_udp_connect sid ss"

definition skynet_socket_udp_sendbuffer :: "bytes \<Rightarrow> sendbuffer \<Rightarrow> server \<Rightarrow> (bool \<times> server) option" where
  "skynet_socket_udp_sendbuffer addr b ss = socket_server_udp_send addr b ss"

definition skynet_socket_udp_address :: "nat \<Rightarrow> smessage \<Rightarrow> bytes option option" where
  "skynet_socket_udp_address t m = (if t \<noteq> 6 then Some None else socket_server_udp_address m)"

definition skynet_socket_info :: "server \<Rightarrow> socket_info list" where
  "skynet_socket_info ss = socket_server_info ss"

end
