(* ===== verification/Socket_Props.thy ===== *)
theory Socket_Props
  imports Socket_Poll
begin

section \<open>Identifiers of sockets, and what the socket server does not handle\<close>

text \<open>
  The search of a free slot covers the table, whatever the last id was. Then four executions that the code does not handle: a
  failed direct write to a UDP socket, an object of the client in the low list, a package sent before the socket is open, and a
  package sent behind the request to close.
\<close>

subsection \<open>The ids\<close>

text \<open>The id after \<open>a\<close>, which skips the negative ones.\<close>

definition next_id :: "u32 \<Rightarrow> u32" where
  "next_id a = (let b = a + 1 in if b <s 0 then b AND 0x7fffffff else b)"

lemma and_31_take_bit: "(b::u32) AND 0x7fffffff = take_bit 31 b"
  by (simp add: take_bit_eq_mask mask_eq_exp_minus_1)

lemma HASH_next: "HASH_ID (next_id a) = Suc (HASH_ID a) mod MAX_SOCKET"
proof -
  have "unat (a + 1) mod 65536 = Suc (unat a mod 65536) mod 65536"
    by (simp add: unat_word_ariths mod_mod_cancel mod_Suc_eq)
  then show ?thesis
    by (simp add: HASH_ID_def next_id_def Let_def MAX_SOCKET_def and_31_take_bit unsigned_take_bit_eq take_bit_nat_def mod_mod_cancel)
qed

lemma next_id_nonneg: "\<not> next_id a <s 0"
proof -
  have "0 \<le> sint (take_bit 31 (a + 1))" by (simp add: sint_uint unsigned_take_bit_eq bit_take_bit_iff)
  then show ?thesis by (auto simp: next_id_def Let_def and_31_take_bit word_sless_alt)
qed

lemma HASH_next_pow: "HASH_ID ((next_id ^^ k) a) = (HASH_ID a + k) mod MAX_SOCKET"
  by (induction k) (simp_all add: HASH_next mod_Suc_eq, simp add: HASH_ID_def MAX_SOCKET_def)

definition reserved :: "u32 \<Rightarrow> server \<Rightarrow> server" where
  "reserved sid ss = upd (HASH_ID sid)
     (\<lambda>s. s\<lparr>sk_type := TY_RESERVE, sk_id := sid, sk_protocol := PROTOCOL_UNKNOWN, sk_udpconnecting := 0, sk_fd := - 1\<rparr>)
     (ss\<lparr>ss_alloc_id := sid\<rparr>)"

lemma reserve_loop_next:
  "reserve_loop (Suc n) ss = (let sid = next_id (ss_alloc_id ss) in
     if sk_type (ss_slot ss (HASH_ID sid)) = TY_INVALID then (Some sid, reserved sid ss)
     else reserve_loop n (ss\<lparr>ss_alloc_id := sid\<rparr>))"
  by (simp add: next_id_def reserved_def Let_def)

declare reserve_loop.simps(2) [simp del]

lemma reserved_alloc [simp]: "reserved sid (ss\<lparr>ss_alloc_id := a\<rparr>) = reserved sid ss"
  by (simp add: reserved_def)

lemma reserve_loop_cases:
  "(\<exists>k < n. let sid = (next_id ^^ Suc k) (ss_alloc_id ss) in
      reserve_loop n ss = (Some sid, reserved sid ss) \<and> sk_type (ss_slot ss (HASH_ID sid)) = TY_INVALID) \<or>
   reserve_loop n ss = (None, ss\<lparr>ss_alloc_id := (next_id ^^ n) (ss_alloc_id ss)\<rparr>) \<and>
   (\<forall>k < n. sk_type (ss_slot ss (HASH_ID ((next_id ^^ Suc k) (ss_alloc_id ss)))) \<noteq> TY_INVALID)"
proof (induction n arbitrary: ss)
  case 0
  then show ?case by simp
next
  case (Suc n)
  let ?a = "ss_alloc_id ss"
  show ?case
  proof (cases "sk_type (ss_slot ss (HASH_ID (next_id ?a))) = TY_INVALID")
    case True
    then show ?thesis by (intro disjI1 exI [of _ 0]) (simp add: reserve_loop_next)
  next
    case False
    then have e: "reserve_loop (Suc n) ss = reserve_loop n (ss\<lparr>ss_alloc_id := next_id ?a\<rparr>)"
      by (simp add: reserve_loop_next Let_def)
    from Suc.IH [of "ss\<lparr>ss_alloc_id := next_id ?a\<rparr>"] show ?thesis
    proof (elim disjE exE conjE)
      fix k
      assume "k < n" "let sid = (next_id ^^ Suc k) (ss_alloc_id (ss\<lparr>ss_alloc_id := next_id ?a\<rparr>)) in
        reserve_loop n (ss\<lparr>ss_alloc_id := next_id ?a\<rparr>) = (Some sid, reserved sid (ss\<lparr>ss_alloc_id := next_id ?a\<rparr>)) \<and>
        sk_type (ss_slot (ss\<lparr>ss_alloc_id := next_id ?a\<rparr>) (HASH_ID sid)) = TY_INVALID"
      then show ?thesis
        unfolding e by (intro disjI1 exI [of _ "Suc k"]) (simp add: Let_def funpow_swap1)
    next
      assume *: "reserve_loop n (ss\<lparr>ss_alloc_id := next_id ?a\<rparr>) =
        (None, ss\<lparr>ss_alloc_id := next_id ?a, ss_alloc_id := (next_id ^^ n) (ss_alloc_id (ss\<lparr>ss_alloc_id := next_id ?a\<rparr>))\<rparr>)"
        "\<forall>k < n. sk_type (ss_slot (ss\<lparr>ss_alloc_id := next_id ?a\<rparr>)
           (HASH_ID ((next_id ^^ Suc k) (ss_alloc_id (ss\<lparr>ss_alloc_id := next_id ?a\<rparr>))))) \<noteq> TY_INVALID"
      have "sk_type (ss_slot ss (HASH_ID ((next_id ^^ Suc k) ?a))) \<noteq> TY_INVALID" if "k < Suc n" for k
        using that *(2) False by (cases k) (simp_all add: funpow_swap1)
      then show ?thesis using *(1) e by (simp add: funpow_swap1)
    qed
  qed
qed

text \<open>No id that is tried is the last one again.\<close>

lemma next_id_take_bit: "next_id a = take_bit 31 (a + 1)"
proof (cases "a + 1 <s 0")
  case False
  then have "\<not> bit (a + 1) 31" using bit_last_iff [of "a + 1"] by (simp add: word_sless_alt)
  then have "take_bit 31 (a + 1) = a + 1" by (intro bit_word_eqI) (auto simp: bit_take_bit_iff less_Suc_eq numeral_eq_Suc)
  then show ?thesis using False by (simp add: next_id_def)
qed (simp add: next_id_def and_31_take_bit)

lemma unat_next_pow: "unat ((next_id ^^ Suc k) a) = (unat a + Suc k) mod 2 ^ 31"
proof (induction k)
  case 0
  show ?case by (simp add: next_id_take_bit unsigned_take_bit_eq take_bit_nat_def unat_word_ariths mod_mod_cancel)
next
  case (Suc k)
  then show ?case
    by (simp add: next_id_take_bit [of "(next_id ^^ Suc k) a"] unsigned_take_bit_eq take_bit_nat_def unat_word_ariths mod_mod_cancel mod_Suc_eq
        del: funpow.simps(2)) (simp add: next_id_take_bit unsigned_take_bit_eq take_bit_nat_def unat_word_ariths mod_mod_cancel mod_Suc_eq)
qed

lemma next_pow_other:
  assumes "k < MAX_SOCKET"
  shows "(next_id ^^ Suc k) a \<noteq> a"
proof
  assume "(next_id ^^ Suc k) a = a"
  then have e: "(unat a + Suc k) mod 2 ^ 31 = unat a" using unat_next_pow [of k a] by simp
  then have "unat a < 2 ^ 31" by (metis mod_less_divisor zero_less_numeral zero_less_power)
  moreover have "Suc k < 2 ^ 31" using assms by (simp add: MAX_SOCKET_def)
  ultimately show False using e by (cases "unat a + Suc k < 2 ^ 31") (simp_all add: le_mod_geq)
qed

lemma reserve_id_cases:
  obtains sid where "reserve_id ss = (Some sid, reserved sid ss)" "sk_type (ss_slot ss (HASH_ID sid)) = TY_INVALID" "sid \<noteq> ss_alloc_id ss"
  | a where "reserve_id ss = (None, ss\<lparr>ss_alloc_id := a\<rparr>)"
  using reserve_loop_cases [of MAX_SOCKET ss] next_pow_other by (auto simp: reserve_id_def Let_def simp del: funpow.simps(2))

text \<open>
  C37. \<open>reserve_id\<close> finds a slot exactly when one is free: the ids it tries, which wrap around at 2 to the 31, visit every
  slot of the table once, from any last id. The id is not negative, its slot was free and is now reserved for it, and the
  other slots are as before. Without a free slot nothing changes but the counter.
\<close>

theorem reserve_id_complete:
  "case reserve_id ss of
     (Some sid, ss') \<Rightarrow> 0 \<le> sint sid \<and> sk_type (ss_slot ss (HASH_ID sid)) = TY_INVALID \<and>
       sk_type (ss_slot ss' (HASH_ID sid)) = TY_RESERVE \<and> sk_id (ss_slot ss' (HASH_ID sid)) = sid \<and>
       (\<forall>i. i \<noteq> HASH_ID sid \<longrightarrow> ss_slot ss' i = ss_slot ss i)
   | (None, ss') \<Rightarrow> (\<forall>i < MAX_SOCKET. sk_type (ss_slot ss i) \<noteq> TY_INVALID) \<and> ss_slot ss' = ss_slot ss"
  using reserve_loop_cases [of MAX_SOCKET ss]
proof (elim disjE exE conjE)
  fix k
  assume "let sid = (next_id ^^ Suc k) (ss_alloc_id ss) in
      reserve_loop MAX_SOCKET ss = (Some sid, reserved sid ss) \<and> sk_type (ss_slot ss (HASH_ID sid)) = TY_INVALID"
  moreover have "\<not> (next_id ^^ Suc k) (ss_alloc_id ss) <s 0" by (simp add: next_id_nonneg)
  ultimately show ?thesis by (auto simp: reserve_id_def Let_def reserved_def upd_def word_sless_alt)
next
  assume none: "reserve_loop MAX_SOCKET ss = (None, ss\<lparr>ss_alloc_id := (next_id ^^ MAX_SOCKET) (ss_alloc_id ss)\<rparr>)"
    and full: "\<forall>k < MAX_SOCKET. sk_type (ss_slot ss (HASH_ID ((next_id ^^ Suc k) (ss_alloc_id ss)))) \<noteq> TY_INVALID"
  have "sk_type (ss_slot ss i) \<noteq> TY_INVALID" if "i < MAX_SOCKET" for i
  proof -
    obtain j where "j < MAX_SOCKET" "(Suc (HASH_ID (ss_alloc_id ss)) + j) mod MAX_SOCKET = i"
      using residue_cover \<open>i < MAX_SOCKET\<close> by blast
    then show ?thesis using full [rule_format, of j] HASH_next_pow [of "Suc j" "ss_alloc_id ss"] by simp
  qed
  then show ?thesis using none by (simp add: reserve_id_def)
qed

text \<open>The last id is the largest one: the next is 0, which has slot 0.\<close>

theorem reserve_id_complete_witness:
  "case reserve_id ((socket_server_create 0 [])\<lparr>ss_alloc_id := 0x7fffffff\<rparr>) of
     (Some sid, ss') \<Rightarrow> sid = 0 \<and> sk_type (ss_slot ss' 0) = TY_RESERVE \<and> sk_type (ss_slot ss' 5) = TY_INVALID
   | (None, ss') \<Rightarrow> False"
proof -
  let ?ss = "(socket_server_create 0 [])\<lparr>ss_alloc_id := 0x7fffffff\<rparr>"
  have "next_id 0x7fffffff = 0" by (simp add: next_id_def word_sless_alt)
  then have "reserve_loop (Suc 65535) ?ss = (Some 0, reserved 0 ?ss)"
    unfolding reserve_loop_next by (simp add: Let_def del: reserved_alloc) (simp add: socket_server_create_def socket_0_def)
  then have "reserve_id ?ss = (Some 0, reserved 0 ?ss)" by (simp add: reserve_id_def MAX_SOCKET_def)
  then show ?thesis using reserve_id_complete [of ?ss]
    by (simp add: HASH_ID_def MAX_SOCKET_def socket_server_create_def socket_0_def)
qed

subsection \<open>A direct write to a UDP socket\<close>

text \<open>A connected socket that nothing waits for.\<close>

definition idle :: "u32 \<Rightarrow> server \<Rightarrow> bool" where
  "idle sid ss \<longleftrightarrow> (let s = ss_slot ss (HASH_ID sid) in
     sk_id s = sid \<and> sk_type s = TY_CONNECTED \<and> send_buffer_empty s \<and> sk_dw s = None \<and> sk_sending s mod 2 ^ 16 = 0 \<and>
     sk_udpconnecting s = 0 \<and> \<not> sk_closing s \<and> \<not> sk_locked s \<and> \<not> sk_writing s)"

lemma idle_direct:
  assumes "idle sid ss"
  shows "\<not> send_refused sid ss" "direct_lock sid ss = (True, upd (HASH_ID sid) (\<lambda>s. s\<lparr>sk_locked := True\<rparr>) ss)"
  using assms by (simp_all add: idle_def Let_def send_refused_def socket_invalid_def direct_lock_def can_direct_write_def nomore_sending_data_def)

lemma udp_socket_address_lock [simp]: "udp_socket_address (s\<lparr>sk_locked := l\<rparr>) a = udp_socket_address s a"
  by (simp add: udp_socket_address_def)

text \<open>What a direct write that the system refuses leaves behind.\<close>

lemma send_refused_direct:
  assumes "idle (sb_id b) ss" "ss_sys ss = Ret E_AGAIN # rs" "sb_data b \<noteq> []"
    and "sk_protocol (ss_slot ss (HASH_ID (sb_id b))) = PROTOCOL_TCP \<or>
      udp_socket_address (ss_slot ss (HASH_ID (sb_id b))) (sk_udp_address (ss_slot ss (HASH_ID (sb_id b)))) = Some True"
  shows "\<exists>ss1 c. socket_server_send b ss = Some (True, ss1) \<and> ss_pipe ss1 = ss_pipe ss @ [RTrigger (sb_id b)] \<and> ss_sys ss1 = rs \<and>
    bl_data c = sb_data b \<and>
    ss_slot ss1 (HASH_ID (sb_id b)) = (ss_slot ss (HASH_ID (sb_id b)))\<lparr>sk_dw := Some (c, 0), sk_wtime := ss_time ss\<rparr>"
proof -
  let ?i = "HASH_ID (sb_id b)"
  let ?l = "upd ?i (\<lambda>s. s\<lparr>sk_locked := True\<rparr>) ss"
  have l: "\<not> sk_locked (ss_slot ss ?i)" using assms(1) by (simp add: idle_def Let_def)
  have "direct_send ?i (sb_data b) ?l = Some (Some E_AGAIN, ?l\<lparr>ss_sys := rs\<rparr>)"
    using assms(2,4) by (auto simp: direct_send_def Let_def E_AGAIN_def)
  moreover obtain c ss3 where cl: "clone_buffer b (stat_write ?i 0 (?l\<lparr>ss_sys := rs\<rparr>)) = (c, ss3)" by fastforce
  ultimately have "socket_server_send b ss =
      Some (True, send_request (RTrigger (sb_id b)) (socket_unlock ?i (upd ?i (\<lambda>s. s\<lparr>sk_dw := Some (c, 0)\<rparr>) ss3)))"
    using assms(1,3) idle_direct [OF assms(1)] by (simp add: socket_server_send_def Let_def direct_write_def E_AGAIN_def)
  then show ?thesis
    using clone_fields [OF cl] l by (auto simp: send_request_def socket_unlock_def stat_write_def intro!: socket.equality)
qed

text \<open>
  C38. A package for a UDP socket that \<open>socket_server_send\<close> cannot write at once is kept for the socket thread. When the socket
  becomes writable, the socket thread puts it into the list as a \<open>write_buffer\<close> without an address, and then reads the address
  that a \<open>write_buffer_udp\<close> would have, behind the end of the block, whatever the system answers.
\<close>

theorem udp_direct_write_overread:
  assumes "idle (sb_id b) ss" "ss_pipe ss = []" "ss_sys ss = [Ret E_AGAIN, Ret 0]" "sb_data b \<noteq> []"
    and "sk_protocol (ss_slot ss (HASH_ID (sb_id b))) = PROTOCOL_UDP"
    and "sk_udp_address (ss_slot ss (HASH_ID (sb_id b))) = of_nat PROTOCOL_UDP # addr" "length addr = 18"
    and "ev_s e = Some (HASH_ID (sb_id b))" "\<not> ev_read e" "ev_write e"
  shows "\<exists>ss1 ss2. socket_server_send b ss = Some (True, ss1) \<and> ctrl_cmd ss1 = Some (None, ss2) \<and>
    (\<forall>rs. dispatch_event e (ss2\<lparr>ss_sys := rs\<rparr>) = None)"
proof -
  let ?i = "HASH_ID (sb_id b)"
  have addr: "udp_socket_address (ss_slot ss ?i) (sk_udp_address (ss_slot ss ?i)) = Some True"
    using assms(5-7) by (simp add: udp_socket_address_def PROTOCOL_UDP_def)
  obtain ss1 c where send: "socket_server_send b ss = Some (True, ss1)" "ss_pipe ss1 = [RTrigger (sb_id b)]" "ss_sys ss1 = [Ret 0]"
      "ss_slot ss1 ?i = (ss_slot ss ?i)\<lparr>sk_dw := Some (c, 0), sk_wtime := ss_time ss\<rparr>"
    using send_refused_direct [OF assms(1,3,4)] addr assms(2) by auto
  let ?ss2 = "snd (the (ctrl_cmd ss1))"
  have ctrl: "ctrl_cmd ss1 = Some (None, ?ss2)" "ss_slot ?ss2 ?i = (ss_slot ss1 ?i)\<lparr>sk_writing := True\<rparr>"
    using assms(1) send by (simp_all add: ctrl_cmd_def trigger_write_def enable_write_def Let_def idle_def socket_invalid_def)
  have "dispatch_event e (?ss2\<lparr>ss_sys := rs\<rparr>) = None" for rs
    using assms(1,5,8-10) send(4) ctrl(2)
    by (simp add: dispatch_event_def Let_def idle_def send_buffer_def take_direct_def send_buffer1_def list_uncomplete_def
        send_buffer_empty_def send_list_def send_list_udp.simps get_list_def PROTOCOL_TCP_def PROTOCOL_UDP_def)
  then show ?thesis using send(1) ctrl(1) by blast
qed

definition udp_example :: server where
  "udp_example = (socket_server_create 0 [Ret E_AGAIN, Ret 0])\<lparr>ss_slot := (\<lambda>i. socket_0)(7 := socket_0\<lparr>sk_id := 7, sk_fd := 9,
     sk_type := TY_CONNECTED, sk_protocol := PROTOCOL_UDP, sk_udp_address := 1 # replicate 18 0\<rparr>)\<rparr>"

definition udp_package :: sendbuffer where
  "udp_package = \<lparr>sb_id = 7, sb_type = SOCKET_BUFFER_MEMORY, sb_buffer = 1, sb_addr = 1, sb_data = [1, 2]\<rparr>"

theorem udp_direct_write_overread_witness:
  "\<exists>ss1 ss2. socket_server_send udp_package udp_example = Some (True, ss1) \<and> ctrl_cmd ss1 = Some (None, ss2) \<and>
    (\<forall>rs. dispatch_event \<lparr>ev_s = Some 7, ev_read = False, ev_write = True, ev_error = False, ev_eof = False\<rparr> (ss2\<lparr>ss_sys := rs\<rparr>) = None)"
proof (rule udp_direct_write_overread [of udp_package udp_example "replicate 18 0"])
  show "idle (sb_id udp_package) udp_example"
    by (simp add: idle_def udp_package_def udp_example_def socket_0_def HASH_ID_def MAX_SOCKET_def send_buffer_empty_def)
qed (simp_all add: udp_package_def udp_example_def socket_server_create_def HASH_ID_def MAX_SOCKET_def PROTOCOL_UDP_def)

subsection \<open>Objects in the low list\<close>

text \<open>
  The bytes of an object are not at its address, so an object at the front of the low list looks as if a part of it were sent,
  and the assertion at the beginning of \<open>send_buffer_\<close> fails.
\<close>

lemma low_object_fails:
  assumes "ss_pipe ss = RSend LOW sid c # reqs" "bl_addr c \<noteq> bl_ptr c" "ss_slot ss (HASH_ID sid) = s"
    and "sk_id s = sid" "sk_type s = TY_CONNECTED" "sk_protocol s = PROTOCOL_TCP" "\<not> sk_closing s" "\<not> sk_locked s"
    and "sk_high s \<noteq> []" "sk_low s = []" "sk_sending s mod 2 ^ 16 \<noteq> 0"
  shows "\<exists>r ss1. ctrl_cmd ss = Some (r, ss1) \<and> (\<forall>rs. send_buffer (HASH_ID sid) (ss1\<lparr>ss_sys := rs\<rparr>) = None)"
proof -
  let ?i = "HASH_ID sid"
  let ?w = "\<lparr>wr_blob = c, wr_done = 0, wr_udp = None\<rparr>"
  let ?ss = "append_sendbuffer ?i LOW c None (ss\<lparr>ss_pipe := reqs\<rparr>)"
  obtain r ss1 where w: "warn_queue ?i ?ss = (r, ss1)" by fastforce
  then have slot: "sk_low (ss_slot ss1 ?i) = [?w]" "sk_id (ss_slot ss1 ?i) = sid" "sk_protocol (ss_slot ss1 ?i) = PROTOCOL_TCP"
      "sk_sending (ss_slot ss1 ?i) = sk_sending s" "\<not> sk_locked (ss_slot ss1 ?i)"
    using assms by (auto simp: warn_queue_def append_sendbuffer_def Let_def get_list_def set_list_def split: if_splits)
  have "send_socket LOW sid c None (ss\<lparr>ss_pipe := reqs\<rparr>) = Some (r, ss1)"
    using assms w by (simp add: send_socket_def Let_def send_buffer_empty_def)
  then have "ctrl_cmd ss = Some (r, upd ?i (\<lambda>s. s\<lparr>sk_sending := sk_sending s - 1\<rparr>) ss1)"
    using assms(1,11) slot by (simp add: ctrl_cmd_def dec_sending_ref_def Let_def)
  moreover have "send_buffer ?i ((upd ?i (\<lambda>s. s\<lparr>sk_sending := sk_sending s - 1\<rparr>) ss1)\<lparr>ss_sys := rs\<rparr>) = None" for rs
    using slot assms(2)
    by (simp add: send_buffer_def take_direct_def send_buffer1_def list_uncomplete_def Let_def split: option.splits)
  ultimately show ?thesis by blast
qed

subsection \<open>A package before the socket is open\<close>

text \<open>
  \<open>socket_server_connect\<close> reserves the slot with an unknown protocol. A package sent now is not counted, since
  \<open>inc_sending_ref\<close> counts for TCP only. When its request is handled the socket is a TCP socket with a count of 0, and the
  assertion of \<open>dec_sending_ref\<close> fails.
\<close>

lemma early_send_not_counted:
  assumes "s = ss_slot ss (HASH_ID sid)" "sk_id s = sid" "sk_type s = TY_RESERVE" "sk_protocol s = PROTOCOL_UNKNOWN"
    "\<not> sk_closing s" "sb_id b = sid"
  shows "\<exists>ss1 c. socket_server_send b ss = Some (True, ss1) \<and> ss_pipe ss1 = ss_pipe ss @ [RSend HIGH sid c] \<and> ss_slot ss1 = ss_slot ss"
proof -
  obtain c ss1 where cl: "clone_buffer b ss = (c, ss1)" by fastforce
  then have "socket_server_send b ss = Some (True, send_request (RSend HIGH sid c) ss1)"
    using assms by (simp add: socket_server_send_def Let_def send_refused_def socket_invalid_def direct_lock_def can_direct_write_def
        inc_sending_ref_def PROTOCOL_UNKNOWN_def PROTOCOL_TCP_def send_enqueue_def)
  then show ?thesis using clone_fields [OF cl] by (simp add: send_request_def)
qed

lemma early_send_fails:
  assumes "s = ss_slot ss (HASH_ID sid)" "sk_id s = sid" "sk_type s = TY_CONNECTED" "sk_protocol s = PROTOCOL_TCP"
    "sk_sending s mod 2 ^ 16 = 0" "send_buffer_empty s" "\<not> sk_closing s" "ss_pipe ss = RSend HIGH sid c # reqs"
  shows "ctrl_cmd ss = None"
proof (cases "send_socket HIGH sid c None (ss\<lparr>ss_pipe := reqs\<rparr>)")
  case (Some p)
  then obtain r ss1 where p: "send_socket HIGH sid c None (ss\<lparr>ss_pipe := reqs\<rparr>) = Some (r, ss1)" by (cases p) auto
  then have "sk_id (ss_slot ss1 (HASH_ID sid)) = sid" "sk_protocol (ss_slot ss1 (HASH_ID sid)) = PROTOCOL_TCP"
      "sk_sending (ss_slot ss1 (HASH_ID sid)) = sk_sending s"
    using assms
    by (auto simp: send_socket_def Let_def append_sendbuffer_def get_list_def set_list_def enable_write_def report_error_def
        warn_queue_def sys_def split: if_splits option.splits list.splits sysret.splits)
  with p assms show ?thesis by (simp add: ctrl_cmd_def dec_sending_ref_def)
qed (use assms in \<open>simp add: ctrl_cmd_def\<close>)

subsection \<open>A package behind the request to close\<close>

text \<open>
  A package in the pipe behind the request to close keeps the socket from being closed, as it is counted, and is then dropped:
  the socket has nothing to send, no event is enabled, and nothing closes it until it is closed a second time.
\<close>

lemma send_behind_close_leaks:
  assumes "idle sid ss" "sk_protocol (ss_slot ss (HASH_ID sid)) = PROTOCOL_TCP" "sb_id b = sid" "ss_pipe ss = []"
    "ss_sys ss = Ret 0 # rs" "sk_reading (ss_slot ss (HASH_ID sid))" "sk_sending (ss_slot ss (HASH_ID sid)) = ID_TAG16 sid * 2 ^ 16"
  shows "\<exists>ss1 r ss2 ss3. socket_server_send_lowpriority b (socket_server_close opaque sid ss) = Some (True, ss1) \<and>
    ctrl_cmd ss1 = Some (Some (SOCKET_CLOSE, r), ss2) \<and> ctrl_cmd ss2 = Some (None, ss3) \<and> ss_pipe ss3 = [] \<and>
    (let s = ss_slot ss3 (HASH_ID sid) in sk_type s = TY_HALFCLOSE_READ \<and> sk_closing s \<and> nomore_sending_data s \<and>
      \<not> sk_reading s \<and> \<not> sk_writing s)"
proof -
  let ?i = "HASH_ID sid"
  let ?s = "ss_slot ss ?i"
  let ?ss0 = "upd ?i (\<lambda>s. s\<lparr>sk_sending := sk_sending s + 1\<rparr>) (socket_server_close opaque sid ss)"
  obtain c ss1 where cl: "clone_buffer b ?ss0 = (c, ss1)" by fastforce
  note ss1 = clone_fields [OF cl]
  let ?ss1 = "send_request (RSend LOW sid c) ss1"
  have idle: "sk_id ?s = sid" "sk_type ?s = TY_CONNECTED" "sk_high ?s = []" "sk_low ?s = []" "sk_dw ?s = None" "\<not> sk_closing ?s"
      "\<not> sk_locked ?s" "\<not> sk_writing ?s"
    using assms(1) by (simp_all add: idle_def Let_def send_buffer_empty_def)
  have send: "socket_server_send_lowpriority b (socket_server_close opaque sid ss) = Some (True, ?ss1)"
    using assms idle cl
    by (simp add: socket_server_send_lowpriority_def Let_def socket_invalid_def inc_sending_ref_def send_enqueue_def
        socket_server_close_def send_request_def)
  have pipe: "ss_pipe ?ss1 = [RClose sid False opaque, RSend LOW sid c]" "ss_sys ?ss1 = Ret 0 # rs"
      "ss_slot ?ss1 ?i = ?s\<lparr>sk_sending := ID_TAG16 sid * 2 ^ 16 + 1\<rparr>"
    using ss1 assms by (simp_all add: send_request_def socket_server_close_def)
  have one: "Suc (ID_TAG16 sid * 65536) mod 65536 = 1" by (simp add: mod_Suc)
  have "\<exists>ss2. ctrl_cmd ?ss1 = Some (Some (SOCKET_CLOSE, message_of ?s NoData), ss2) \<and> ss_pipe ss2 = [RSend LOW sid c] \<and>
      ss_slot ss2 ?i = ?s\<lparr>sk_sending := ID_TAG16 sid * 2 ^ 16 + 1, sk_closing := True, sk_type := TY_HALFCLOSE_READ, sk_reading := False\<rparr>"
    using assms(6) idle pipe one
    by (simp add: ctrl_cmd_def close_socket_def Let_def socket_invalid_def nomore_sending_data_def halfclose_read_def close_read_def
        enable_read_def message_of_def)
  then obtain ss2 where close: "ctrl_cmd ?ss1 = Some (Some (SOCKET_CLOSE, message_of ?s NoData), ss2)" "ss_pipe ss2 = [RSend LOW sid c]"
      "ss_slot ss2 ?i = ?s\<lparr>sk_sending := ID_TAG16 sid * 2 ^ 16 + 1, sk_closing := True, sk_type := TY_HALFCLOSE_READ, sk_reading := False\<rparr>"
    by blast
  have "\<exists>ss3. ctrl_cmd ss2 = Some (None, ss3) \<and> ss_pipe ss3 = [] \<and>
      ss_slot ss3 ?i = ?s\<lparr>sk_sending := ID_TAG16 sid * 2 ^ 16, sk_closing := True, sk_type := TY_HALFCLOSE_READ, sk_reading := False\<rparr>"
    using assms(2) idle close(2,3) one by (simp add: ctrl_cmd_def send_socket_def Let_def dec_sending_ref_def free_blob_def)
  then obtain ss3 where "ctrl_cmd ss2 = Some (None, ss3)" "ss_pipe ss3 = []"
      "ss_slot ss3 ?i = ?s\<lparr>sk_sending := ID_TAG16 sid * 2 ^ 16, sk_closing := True, sk_type := TY_HALFCLOSE_READ, sk_reading := False\<rparr>"
    by blast
  moreover from this idle have "nomore_sending_data (ss_slot ss3 ?i)" by (simp add: nomore_sending_data_def send_buffer_empty_def)
  ultimately show ?thesis
    by (intro exI [of _ ?ss1] exI [of _ "message_of ?s NoData"] exI [of _ ss2] exI [of _ ss3])
      (simp add: send close(1) idle(8) Let_def)
qed

end
