(* ===== verification/Socket_Close.thy ===== *)
theory Socket_Close
  imports Socket_Props
begin

section \<open>SOCKET_CLOSE is raised once\<close>

text \<open>
  The comment at \<open>close_socket\<close> promises that \<open>SOCKET_CLOSE\<close> is raised only once. Five places of the source raise it or decide not
  to. The proof follows the type of the slot: once the message is raised the slot is half closed or free, no operation of the socket
  thread leaves these types, and none of them raises the message there, until the id is handed out again.
\<close>

subsection \<open>What operations keep\<close>

definition calm :: "socket \<Rightarrow> socket \<Rightarrow> bool" where
  "calm s s' \<longleftrightarrow> sk_id s' = sk_id s \<and> (sk_type s = TY_INVALID \<longrightarrow> sk_type s' = TY_INVALID) \<and>
     (sk_type s = TY_HALFCLOSE_READ \<longrightarrow> sk_type s' = TY_HALFCLOSE_READ \<or> sk_type s' = TY_INVALID)"

definition frame :: "server \<Rightarrow> server \<Rightarrow> bool" where
  "frame ss ss' \<longleftrightarrow> ss_pipe ss' = ss_pipe ss \<and> ss_alloc_id ss' = ss_alloc_id ss \<and> (\<forall>i. calm (ss_slot ss i) (ss_slot ss' i))"

lemma calm_refl [simp]: "calm s s"
  by (simp add: calm_def)

lemma frameD: "frame ss ss' \<Longrightarrow> calm (ss_slot ss i) (ss_slot ss' i)"
  by (simp add: frame_def)

lemma calm_trans: "calm s s1 \<Longrightarrow> calm s1 s2 \<Longrightarrow> calm s s2"
  by (auto simp: calm_def)

lemma still_refl [simp]: "frame ss ss"
  by (simp add: frame_def)

lemma still_trans: "frame ss ss1 \<Longrightarrow> frame ss1 ss2 \<Longrightarrow> frame ss ss2"
  unfolding frame_def using calm_trans by metis

lemma frame_upd: "calm (ss_slot ss i) (f (ss_slot ss i)) \<Longrightarrow> frame ss (upd i f ss)"
  by (simp add: frame_def)

lemma frame_updI: "frame ss ss1 \<Longrightarrow> calm (ss_slot ss1 i) (f (ss_slot ss1 i)) \<Longrightarrow> frame ss (upd i f ss1)"
  using still_trans frame_upd by blast

lemma frame_call [simp]: "frame ss (call c ss1) \<longleftrightarrow> frame ss ss1"
  by (simp add: frame_def call_def)

lemma frame_free [simp]: "frame ss (free_blob b ss1) \<longleftrightarrow> frame ss ss1" "frame ss (write_buffer_free w ss1) \<longleftrightarrow> frame ss ss1"
  by (simp_all add: frame_def free_blob_def write_buffer_free_def)

lemma frame_free_list [simp]: "frame ss (free_list ws ss1) \<longleftrightarrow> frame ss ss1"
  by (induction ws arbitrary: ss1) (simp_all add: free_list_def)

lemma frame_freed [simp]: "frame ss (ss1\<lparr>ss_freed := f\<rparr>) \<longleftrightarrow> frame ss ss1" "frame ss (ss1\<lparr>ss_sys := rs\<rparr>) \<longleftrightarrow> frame ss ss1"
  "frame ss (ss1\<lparr>ss_ev := es\<rparr>) \<longleftrightarrow> frame ss ss1" "frame ss (ss1\<lparr>ss_fresh := p\<rparr>) \<longleftrightarrow> frame ss ss1"
  by (simp_all add: frame_def)

lemma sys_frame: "sys ss = Some (n, ss1) \<Longrightarrow> frame ss ss1"
  by (auto simp: sys_def split: list.splits sysret.splits)

lemma sys_data_frame: "sys_data ss = Some (g, ss1) \<Longrightarrow> frame ss ss1"
  by (auto simp: sys_data_def split: list.splits)

lemma sys_slot: "sys ss = Some (n, ss1) \<Longrightarrow> ss_slot ss1 = ss_slot ss"
  by (auto simp: sys_def split: list.splits sysret.splits)

lemma sys_data_slot: "sys_data ss = Some (g, ss1) \<Longrightarrow> ss_slot ss1 = ss_slot ss"
  by (auto simp: sys_data_def split: list.splits)

lemma calm_update [simp]:
  "calm s (s\<lparr>sk_writing := b\<rparr>)" "calm s (s\<lparr>sk_reading := b\<rparr>)" "calm s (s\<lparr>sk_closing := b\<rparr>)" "calm s (s\<lparr>sk_type := TY_INVALID\<rparr>)"
  by (simp_all add: calm_def)

lemma stat_frame [simp]: "frame ss (stat_read i n ss)" "frame ss (stat_write i n ss)"
  by (simp_all add: stat_read_def stat_write_def frame_upd calm_def)

lemma enable_frame:
  assumes "enable_write i b ss = Some (r, ss1) \<or> enable_read i b ss = Some (r, ss1)"
  shows "frame ss ss1"
proof -
  have *: "frame ss ss1" if "sys (call c (upd i f ss)) = Some (n, ss1)" "calm (ss_slot ss i) (f (ss_slot ss i))" for c f n
    by (rule still_trans [OF _ sys_frame [OF that(1)]]) (simp add: frame_upd that(2))
  show ?thesis
    using assms by (auto simp: enable_write_def enable_read_def Let_def bind_eq_Some_conv split: if_splits elim!: *)
qed

lemma force_close_frame:
  assumes "force_close i ss = Some (m, ss1)"
  shows "frame ss ss1" "sk_type (ss_slot ss1 i) = TY_INVALID" "sm_id m = sk_id (ss_slot ss i)"
  using assms by (auto simp: force_close_def Let_def message_of_def calm_def split: if_splits option.splits intro!: frame_updI)

lemma set_list_calm [simp]: "sk_id (set_list p ws s) = sk_id s" "sk_type (set_list p ws s) = sk_type s"
  by (simp_all add: set_list_def split: priority.split)

text \<open>No report is \<open>SOCKET_CLOSE\<close>, and the frame.\<close>

definition silent :: "server \<Rightarrow> (report \<times> server) option \<Rightarrow> bool" where
  "silent ss p \<longleftrightarrow> (\<forall>r ss1. p = Some (r, ss1) \<longrightarrow> frame ss ss1 \<and> (\<forall>m. r \<noteq> Some (SOCKET_CLOSE, m)))"

lemma silentI: "(\<And>r ss1. p = Some (r, ss1) \<Longrightarrow> frame ss ss1 \<and> (\<forall>m. r \<noteq> Some (SOCKET_CLOSE, m))) \<Longrightarrow> silent ss p"
  by (simp add: silent_def)

lemma silent_None [simp]: "silent ss None"
  by (simp add: silent_def)

lemma silent_Some [simp]: "silent ss (Some (r, ss1)) \<longleftrightarrow> frame ss ss1 \<and> (\<forall>m. r \<noteq> Some (SOCKET_CLOSE, m))"
  by (auto simp: silent_def)

lemma silent_frame: "frame ss ss1 \<Longrightarrow> silent ss1 p \<Longrightarrow> silent ss p"
  using still_trans by (fastforce simp: silent_def)

lemma silent_bind:
  assumes "\<And>a ss1. p = Some (a, ss1) \<Longrightarrow> silent ss (f (a, ss1))"
  shows "silent ss (p \<bind> f)"
  using assms by (cases p) auto

lemma silent_sys [intro]:
  assumes "\<And>n ss1. \<lbrakk>sys ss = Some (n, ss1); frame ss ss1; ss_slot ss1 = ss_slot ss\<rbrakk> \<Longrightarrow> silent ss1 (f (n, ss1))"
  shows "silent ss (sys ss \<bind> f)"
  by (rule silent_bind, rule silent_frame, erule sys_frame) (simp add: assms sys_frame sys_slot)

lemma silent_enable_write:
  assumes "\<And>e ss1. frame ss ss1 \<Longrightarrow> silent ss (f (e, ss1))"
  shows "silent ss (enable_write i b ss \<bind> f)"
  by (rule silent_bind, rule assms, rule enable_frame) blast

lemma silent_enable_read:
  assumes "\<And>e ss1. frame ss ss1 \<Longrightarrow> silent ss (f (e, ss1))"
  shows "silent ss (enable_read i b ss \<bind> f)"
  by (rule silent_bind, rule assms, rule enable_frame) blast

lemma silent_force_close:
  assumes "\<And>m ss1. frame ss ss1 \<Longrightarrow> silent ss (f (m, ss1))"
  shows "silent ss (force_close i ss \<bind> f)"
  by (rule silent_bind, rule assms, rule force_close_frame(1))

lemma close_write_silent:
  assumes "sk_type (ss_slot ss i) \<noteq> TY_INVALID"
  shows "silent ss (close_write i n ss)"
proof -
  have "frame ss (call (SShutdown fd b) (upd i (\<lambda>s. s\<lparr>sk_type := TY_HALFCLOSE_WRITE\<rparr>) ss))"
    if "sk_type (ss_slot ss i) \<noteq> TY_HALFCLOSE_READ" for fd b
    using that assms by (simp add: frame_upd calm_def)
  then show ?thesis
    by (auto simp: close_write_def Let_def report_error_def intro!: silent_force_close silent_frame [OF _ silent_enable_write])
qed

lemma close_write_reports: "close_write i n ss = Some (r, ss1) \<Longrightarrow> r \<noteq> None"
  by (auto simp: close_write_def Let_def report_error_def bind_eq_Some_conv split: if_splits)

text \<open>The lists are only left with no report while the type of the socket is as before.\<close>

definition sends :: "nat \<Rightarrow> server \<Rightarrow> (report \<times> server) option \<Rightarrow> bool" where
  "sends i ss p \<longleftrightarrow> silent ss p \<and> (\<forall>ss1. p = Some (None, ss1) \<longrightarrow> sk_type (ss_slot ss1 i) = sk_type (ss_slot ss i))"

lemma sends_simps [simp]:
  "sends i ss None"
  "sends i ss (Some (None, ss1)) \<longleftrightarrow> frame ss ss1 \<and> sk_type (ss_slot ss1 i) = sk_type (ss_slot ss i)"
  by (auto simp: sends_def)

lemma sends_close_write: "sk_type (ss_slot ss i) \<noteq> TY_INVALID \<Longrightarrow> sends i ss (close_write i n ss)"
  using close_write_silent close_write_reports by (fastforce simp: sends_def)

lemma sends_frame: "frame ss ss1 \<Longrightarrow> sk_type (ss_slot ss1 i) = sk_type (ss_slot ss i) \<Longrightarrow> sends i ss1 p \<Longrightarrow> sends i ss p"
  by (auto simp: sends_def intro: silent_frame)

lemma send_list_tcp_sends:
  "sk_type (ss_slot ss i) \<noteq> TY_INVALID \<Longrightarrow> sends i ss (send_list_tcp i p ss)"
proof (induction i p ss rule: send_list_tcp.induct)
  case (1 i p ss)
  show ?case
  proof (cases "get_list p (ss_slot ss i)")
    case Nil
    then show ?thesis by (simp add: send_list_tcp.simps [of i p ss])
  next
    case (Cons w ws)
    show ?thesis
    proof (cases "sys ss")
      case None
      then show ?thesis using Cons by (simp add: send_list_tcp.simps [of i p ss])
    next
      case (Some q)
      then obtain n ss1 where q: "sys ss = Some (n, ss1)" by (cases q) auto
      note IH = "1.IH" [OF Cons q refl]
      have ss1: "frame ss ss1" "ss_slot ss1 = ss_slot ss" using sys_frame sys_slot q by auto
      show ?thesis
      proof (cases "n < 0")
        case True
        have ty: "sk_type (ss_slot ss1 i) \<noteq> TY_INVALID" using "1.prems" ss1 by simp
        have "sends i ss1 (close_write i n ss1)" by (rule sends_close_write [OF ty])
        moreover have "n = E_INTR \<Longrightarrow> sends i ss1 (send_list_tcp i p ss1)" using IH(1) True ty by simp
        ultimately show ?thesis
          using True ss1 sends_frame [OF ss1(1)] by (simp add: send_list_tcp.simps [of i p ss] Cons q)
      next
        case False
        let ?ss2 = "call (SWrite (sk_fd (ss_slot ss1 i)) (take (nat n) (drop (wr_done w) (bl_data (wr_blob w))))) ss1"
        let ?ss3 = "upd i (\<lambda>s. s\<lparr>sk_wb_size := sk_wb_size s - n\<rparr>) (stat_write i n ?ss2)"
        have ss3: "frame ss ?ss3" "sk_type (ss_slot ?ss3 i) = sk_type (ss_slot ss i)"
          using ss1 by (simp_all add: stat_write_def frame_updI calm_def)
        let ?ss4 = "write_buffer_free w (upd i (set_list p ws) ?ss3)"
        have ss4: "frame ss ?ss4" "sk_type (ss_slot ?ss4 i) = sk_type (ss_slot ss i)"
          using ss3 by (simp_all add: frame_updI calm_def write_buffer_free_def free_blob_def)
        show ?thesis
        proof (cases "n \<le> int (wr_sz w) \<and> nat n = wr_sz w")
          case True
          then have "sends i ?ss4 (send_list_tcp i p ?ss4)" using IH(2) False ss4 "1.prems" by simp
          then have "sends i ss (send_list_tcp i p ?ss4)" by (rule sends_frame [OF ss4])
          then show ?thesis using True False by (simp add: send_list_tcp.simps [of i p ss] Cons q Let_def)
        next
          case False
          then show ?thesis
            using \<open>\<not> n < 0\<close> ss3 by (auto simp: send_list_tcp.simps [of i p ss] Cons q Let_def c_assert_def frame_updI calm_def)
        qed
      qed
    qed
  qed
qed

lemma drop_udp_frame: "frame ss ss1 \<Longrightarrow> frame ss (drop_udp i p w ws ss1)"
  "sk_type (ss_slot (drop_udp i p w ws ss1) i) = sk_type (ss_slot ss1 i)"
  by (auto simp: drop_udp_def write_buffer_free_def free_blob_def calm_def frame_def)

lemma send_list_udp_sends: "sends i ss (send_list_udp i p ss)"
proof (induction i p ss rule: send_list_udp.induct)
  case (1 i p ss)
  show ?case
  proof (cases "get_list p (ss_slot ss i)")
    case Nil
    then show ?thesis by (simp add: send_list_udp.simps [of i p ss])
  next
    case (Cons w ws)
    show ?thesis
    proof (cases "wr_udp w \<bind> udp_socket_address (ss_slot ss i)")
      case None
      then show ?thesis by (auto simp: send_list_udp.simps [of i p ss] Cons split: Option.bind_splits)
    next
      case (Some ok)
      then obtain addr where addr: "wr_udp w = Some addr" "udp_socket_address (ss_slot ss i) addr = Some ok"
        by (auto simp: bind_eq_Some_conv)
      show ?thesis
      proof (cases "ok \<and> sys ss \<noteq> None")
        case True
        then obtain n ss1 where q: "sys ss = Some (n, ss1)" "ok" by auto
        have ss1: "frame ss ss1" "ss_slot ss1 = ss_slot ss" using sys_frame sys_slot q by auto
        let ?ss2 = "call (SSendto (sk_fd (ss_slot ss1 i)) (drop (wr_done w) (bl_data (wr_blob w))) addr) ss1"
        let ?ss3 = "drop_udp i p w ws (stat_write i (int (wr_sz w)) ?ss2)"
        have ss3: "frame ss ?ss3" "sk_type (ss_slot ?ss3 i) = sk_type (ss_slot ss i)"
          using ss1 by (simp_all add: drop_udp_frame stat_write_def frame_updI calm_def)
        have "sends i ss (send_list_udp i p ?ss3)" if "\<not> n < 0"
          using "1.IH" [OF Cons addr] q that ss3 by (intro sends_frame [OF ss3]) simp
        then show ?thesis
          using addr q ss1 by (simp add: send_list_udp.simps [of i p ss] Cons drop_udp_frame)
      next
        case False
        then show ?thesis using addr by (cases "sys ss") (auto simp: send_list_udp.simps [of i p ss] Cons drop_udp_frame)
      qed
    qed
  qed
qed

lemma send_list_sends: "sk_type (ss_slot ss i) \<noteq> TY_INVALID \<Longrightarrow> sends i ss (send_list i p ss)"
  by (simp add: send_list_def send_list_tcp_sends send_list_udp_sends)

lemma send_finished_silent: "silent ss (send_finished i ss)"
  by (auto simp: send_finished_def Let_def c_assert_def report_error_def frame_updI calm_def
      intro!: silent_force_close silent_enable_write)

lemma after_send_list:
  assumes "sk_type (ss_slot ss i) \<noteq> TY_INVALID"
    and "\<And>ss1. frame ss ss1 \<Longrightarrow> sk_type (ss_slot ss1 i) \<noteq> TY_INVALID \<Longrightarrow> silent ss1 (f ss1)"
    and "g = (\<lambda>(r, ss1). case r of Some (SOCKET_ERR, m) \<Rightarrow> Some (r, ss1) | Some _ \<Rightarrow> Some (None, ss1) | None \<Rightarrow> f ss1)"
  shows "silent ss (send_list i p ss \<bind> g)"
proof (rule silent_bind)
  fix r ss1
  assume e: "send_list i p ss = Some (r, ss1)"
  from send_list_sends [OF assms(1)] e have *: "frame ss ss1" "\<forall>m. r \<noteq> Some (SOCKET_CLOSE, m)"
      "r = None \<Longrightarrow> sk_type (ss_slot ss1 i) = sk_type (ss_slot ss i)"
    by (auto simp: sends_def silent_def)
  show "silent ss (g (r, ss1))"
  proof (cases r)
    case None
    then show ?thesis using * assms by (auto intro: silent_frame)
  next
    case (Some q)
    then show ?thesis using * by (cases q; cases "fst q") (auto simp: assms(3))
  qed
qed

lemma send_low_silent:
  assumes "sk_type (ss_slot ss i) \<noteq> TY_INVALID"
  shows "silent ss (send_low i ss)"
  unfolding send_low_def
proof (rule after_send_list [OF assms _ refl])
  fix ss1
  have "silent ss1 (raise_uncomplete i ss1 \<bind> (\<lambda>ss2. Some (None, ss2)))"
    by (auto simp: raise_uncomplete_def Let_def c_assert_def frame_updI calm_def split: list.splits)
  then show "silent ss1 (if list_uncomplete (sk_low (ss_slot ss1 i)) then raise_uncomplete i ss1 \<bind> (\<lambda>ss2. Some (None, ss2))
      else if sk_low (ss_slot ss1 i) \<noteq> [] then Some (None, ss1) else send_finished i ss1)"
    using send_finished_silent by simp
qed

lemma send_buffer_silent:
  assumes "sk_type (ss_slot ss i) \<noteq> TY_INVALID"
  shows "silent ss (send_buffer i ss)"
proof -
  have "silent ss1 (send_list i HIGH ss1 \<bind> (\<lambda>(r, ss1). case r of Some (SOCKET_ERR, m) \<Rightarrow> Some (r, ss1) | Some _ \<Rightarrow> Some (None, ss1)
      | None \<Rightarrow> if sk_high (ss_slot ss1 i) = []
          then (if sk_low (ss_slot ss1 i) \<noteq> [] then send_low i ss1 else send_finished i ss1) else Some (None, ss1)))"
    if "sk_type (ss_slot ss1 i) \<noteq> TY_INVALID" for ss1
    by (rule after_send_list [OF that _ refl]) (simp add: send_low_silent send_finished_silent)
  then have "silent ss1 (send_buffer1 i ss1)" if "sk_type (ss_slot ss1 i) \<noteq> TY_INVALID" for ss1
    using that by (simp add: send_buffer1_def c_assert_def)
  moreover have "frame ss (take_direct i ss)" "sk_type (ss_slot (take_direct i ss) i) = sk_type (ss_slot ss i)"
    by (auto simp: take_direct_def Let_def frame_updI calm_def split: option.split)
  ultimately show ?thesis using assms silent_frame by (simp add: send_buffer_def)
qed

subsection \<open>Requests\<close>

lemma trigger_write_silent: "silent ss (trigger_write sid ss)"
  by (auto simp: trigger_write_def Let_def report_error_def intro!: silent_enable_write)

lemma warn_queue_silent: "frame ss ss1 \<Longrightarrow> silent ss (Some (warn_queue i ss1))"
  by (auto simp: warn_queue_def Let_def frame_updI calm_def)

lemma append_frame: "frame ss ss1 \<Longrightarrow> frame ss (append_sendbuffer i p b a ss1)"
  by (auto simp: append_sendbuffer_def Let_def calm_def intro!: frame_updI)

lemma silent_queued:
  assumes "\<And>q ss1. p = Some (q, ss1) \<Longrightarrow> frame ss ss1"
  shows "silent ss (p \<bind> (\<lambda>(queued, ss1). if queued then enable_write i True ss1 \<bind>
    (\<lambda>(err, ss2). if err then Some (report_error i d ss2) else Some (warn_queue i ss2)) else Some (None, ss1)))"
proof (rule silent_bind)
  fix q ss1
  assume "p = Some (q, ss1)"
  then have f: "frame ss ss1" by (rule assms)
  have "silent ss1 (enable_write i True ss1 \<bind> (\<lambda>(err, ss2). if err then Some (report_error i d ss2) else Some (warn_queue i ss2)))"
    by (rule silent_enable_write) (simp add: report_error_def warn_queue_silent)
  with f show "silent ss ((\<lambda>(queued, ss1). if queued then enable_write i True ss1 \<bind>
      (\<lambda>(err, ss2). if err then Some (report_error i d ss2) else Some (warn_queue i ss2)) else Some (None, ss1)) (q, ss1))"
    using silent_frame by auto
qed

lemma silent_if: "(c \<Longrightarrow> silent ss p) \<Longrightarrow> (\<not> c \<Longrightarrow> silent ss q) \<Longrightarrow> silent ss (if c then p else q)"
  by simp

lemma send_socket_silent: "silent ss (send_socket p sid b udp ss)"
  unfolding send_socket_def Let_def
proof (intro silent_if silent_queued warn_queue_silent)
  fix q ss1
  assume "(if sk_protocol (ss_slot ss (HASH_ID sid)) = PROTOCOL_TCP then Some (True, append_sendbuffer (HASH_ID sid) HIGH b None ss)
    else udp_socket_address (ss_slot ss (HASH_ID sid)) (case udp of None \<Rightarrow> sk_udp_address (ss_slot ss (HASH_ID sid)) | Some a \<Rightarrow> a) \<bind>
      (\<lambda>ok. if \<not> ok then Some (False, free_blob b ss)
        else sys ss \<bind> (\<lambda>(n, ss1). if n \<noteq> int (length (bl_data b))
          then Some (True, append_sendbuffer (HASH_ID sid) p b
            (Some (case udp of None \<Rightarrow> sk_udp_address (ss_slot ss (HASH_ID sid)) | Some a \<Rightarrow> a)) ss1)
          else Some (False, free_blob b (stat_write (HASH_ID sid) n
            (call (SSendto (sk_fd (ss_slot ss (HASH_ID sid))) (bl_data b)
              (case udp of None \<Rightarrow> sk_udp_address (ss_slot ss (HASH_ID sid)) | Some a \<Rightarrow> a)) ss1)))))) = Some (q, ss1)"
  then show "frame ss ss1"
    by (auto simp: bind_eq_Some_conv stat_write_def calm_def intro!: append_frame frame_updI split: if_splits)
      (rule sys_frame, assumption)+
next
  show "frame ss (if sk_protocol (ss_slot ss (HASH_ID sid)) = PROTOCOL_TCP then append_sendbuffer (HASH_ID sid) p b None ss
    else append_sendbuffer (HASH_ID sid) p b
      (Some (case udp of None \<Rightarrow> sk_udp_address (ss_slot ss (HASH_ID sid)) | Some a \<Rightarrow> a)) ss)"
    by (simp add: append_frame)
qed auto

lemma pause_socket_silent: "silent ss (pause_socket sid ss)"
  by (auto simp: pause_socket_def Let_def report_error_def intro!: silent_enable_read)

lemma setopt_frame: "frame ss (setopt_socket sid what v ss)"
  by (simp add: setopt_socket_def Let_def)

lemma set_udp_silent: "silent ss (set_udp_address sid addr ss)"
  by (auto simp: set_udp_address_def Let_def report_error_def c_assert_def calm_def intro!: silent_bind frame_updI
      split: option.split Option.bind_splits)

lemma dec_sending_frame: "dec_sending_ref sid ss = Some ss1 \<Longrightarrow> frame ss ss1"
  by (auto simp: dec_sending_ref_def Let_def calm_def intro!: frame_updI split: if_splits)

lemma resume_socket_silent: "silent ss (resume_socket sid opaque ss)"
proof -
  let ?i = "HASH_ID sid"
  have "silent ss (enable_read ?i True ss \<bind> (\<lambda>(err, ss1). if err then Some (Some (SOCKET_ERR, m), ss1) else
      if sk_type (ss_slot ss ?i) = TY_PACCEPT \<or> sk_type (ss_slot ss ?i) = TY_PLISTEN then Some (Some (SOCKET_OPEN, m1), upd ?i f ss1)
      else if sk_type (ss_slot ss ?i) = TY_CONNECTED then Some (Some (SOCKET_OPEN, m2), upd ?i g ss1) else Some (None, ss1)))"
    if "\<And>s. sk_id (f s) = sk_id s" "\<And>s. calm s (g s)" for m m1 m2 f g
  proof (rule silent_bind)
    fix e ss1
    assume en: "enable_read ?i True ss = Some (e, ss1)"
    then have "frame ss ss1" using enable_frame by blast
    moreover have "sk_type (ss_slot ss1 ?i) = sk_type (ss_slot ss ?i)"
      using en sys_slot by (fastforce simp: enable_read_def Let_def bind_eq_Some_conv split: if_splits)
    ultimately show "silent ss ((\<lambda>(err, ss1). if err then Some (Some (SOCKET_ERR, m), ss1) else
        if sk_type (ss_slot ss ?i) = TY_PACCEPT \<or> sk_type (ss_slot ss ?i) = TY_PLISTEN then Some (Some (SOCKET_OPEN, m1), upd ?i f ss1)
        else if sk_type (ss_slot ss ?i) = TY_CONNECTED then Some (Some (SOCKET_OPEN, m2), upd ?i g ss1) else Some (None, ss1)) (e, ss1))"
      using that by (auto simp: frame_updI calm_def)
  qed
  then show ?thesis by (simp add: resume_socket_def Let_def calm_def)
qed

text \<open>The requests that open a socket, and what they do to the slot that is reserved for it.\<close>

definition born :: "u32 \<Rightarrow> server \<Rightarrow> server \<Rightarrow> bool" where
  "born sid ss ss' \<longleftrightarrow> ss_pipe ss' = ss_pipe ss \<and>
     (\<forall>j. calm (ss_slot ss j) (ss_slot ss' j) \<or> j = HASH_ID sid \<and> sk_id (ss_slot ss' j) = sid)"

lemma frame_born: "frame ss ss' \<Longrightarrow> born sid ss ss'"
  by (simp add: frame_def born_def)

lemma born_trans: "born sid ss ss1 \<Longrightarrow> born sid ss1 ss2 \<Longrightarrow> born sid ss ss2"
  unfolding born_def by (metis calm_trans calm_def)

lemma born_upd:
  "born sid ss ss1 \<Longrightarrow> sk_id (ss_slot ss1 (HASH_ID sid)) = sid \<Longrightarrow> sk_id (f (ss_slot ss1 (HASH_ID sid))) = sid \<Longrightarrow>
   born sid ss (upd (HASH_ID sid) f ss1)"
  by (auto simp: born_def)

definition births :: "u32 \<Rightarrow> server \<Rightarrow> (report \<times> server) option \<Rightarrow> bool" where
  "births sid ss p \<longleftrightarrow> (\<forall>r ss1. p = Some (r, ss1) \<longrightarrow>
     born sid ss ss1 \<and> ss_alloc_id ss1 = ss_alloc_id ss \<and> (\<forall>m. r \<noteq> Some (SOCKET_CLOSE, m)))"

lemma births_simps [simp]:
  "births sid ss None"
  "births sid ss (Some (r, ss1)) \<longleftrightarrow> born sid ss ss1 \<and> ss_alloc_id ss1 = ss_alloc_id ss \<and> (\<forall>m. r \<noteq> Some (SOCKET_CLOSE, m))"
  by (auto simp: births_def)

lemma silent_births: "silent ss p \<Longrightarrow> births sid ss p"
  unfolding births_def silent_def using frame_born by (auto simp: frame_def)

lemma births_born: "born sid ss ss1 \<Longrightarrow> ss_alloc_id ss1 = ss_alloc_id ss \<Longrightarrow> births sid ss1 p \<Longrightarrow> births sid ss p"
  unfolding births_def using born_trans by metis

lemma births_sys:
  assumes "\<And>n ss1. births sid ss1 (f (n, ss1))"
  shows "births sid ss (sys ss \<bind> f)"
proof (cases "sys ss")
  case (Some q)
  then obtain n ss1 where q: "sys ss = Some (n, ss1)" by (cases q) auto
  from sys_frame [OF this] have "born sid ss ss1" "ss_alloc_id ss1 = ss_alloc_id ss" by (auto simp: frame_born frame_def)
  then show ?thesis using q assms births_born by simp
qed simp

lemma new_fd_born:
  assumes "new_fd sid fd protocol opaque reading ss = Some (r, ss1)"
  shows "born sid ss ss1" "ss_alloc_id ss1 = ss_alloc_id ss" "r = Some i \<Longrightarrow> i = HASH_ID sid \<and> sk_id (ss_slot ss1 i) = sid"
proof -
  let ?i = "HASH_ID sid"
  let ?make = "\<lambda>ss0. upd ?i (new_socket sid fd protocol opaque) ss0"
  obtain n ss0 where 0: "sk_type (ss_slot ss ?i) = TY_RESERVE" "sys (call (SpAdd fd) ss) = Some (n, ss0)"
      "n \<noteq> 0 \<Longrightarrow> r = None \<and> ss1 = upd ?i (\<lambda>s. s\<lparr>sk_type := TY_INVALID\<rparr>) ss0"
      "n = 0 \<Longrightarrow> \<exists>e ss3. enable_read ?i reading (?make ss0) = Some (e, ss3) \<and>
        (if e then Some (None, upd ?i (\<lambda>s. s\<lparr>sk_type := TY_INVALID\<rparr>) ss3) else Some (Some ?i, ss3)) = Some (r, ss1)"
    using assms by (fastforce simp: new_fd_def Let_def bind_eq_Some_conv split: if_splits)
  have f0: "frame ss ss0" using sys_frame [OF 0(2)] still_trans [of ss "call (SpAdd fd) ss"] by simp
  then have b: "born sid ss (?make ss0)" "ss_alloc_id (?make ss0) = ss_alloc_id ss" "sk_id (ss_slot (?make ss0) ?i) = sid"
    by (auto simp: born_def frame_def new_socket_def)
  have *: "born sid ss ss1 \<and> ss_alloc_id ss1 = ss_alloc_id ss \<and> (\<forall>i. r = Some i \<longrightarrow> i = ?i \<and> sk_id (ss_slot ss1 i) = sid)"
  proof (cases "n = 0")
    case False
    then have "frame ss ss1" "r = None" using 0(3) f0 by (auto simp: frame_updI)
    then show ?thesis by (auto simp: frame_born frame_def)
  next
    case True
    then obtain e ss3 where e: "enable_read ?i reading (?make ss0) = Some (e, ss3)"
        "(if e then Some (None, upd ?i (\<lambda>s. s\<lparr>sk_type := TY_INVALID\<rparr>) ss3) else Some (Some ?i, ss3)) = Some (r, ss1)"
      using 0(4) by blast
    then have f3: "frame (?make ss0) ss3" using enable_frame by blast
    then have i3: "sk_id (ss_slot ss3 ?i) = sid" "ss_alloc_id ss3 = ss_alloc_id ss"
      using b(2,3) by (auto simp: frame_def calm_def)
    have "born sid ss ss3" using b(1) frame_born [OF f3] by (rule born_trans)
    then show ?thesis using i3 e(2) by (auto simp: born_upd split: if_splits)
  qed
  then show "born sid ss ss1" "ss_alloc_id ss1 = ss_alloc_id ss" "r = Some i \<Longrightarrow> i = HASH_ID sid \<and> sk_id (ss_slot ss1 i) = sid"
    by auto
qed

lemma births_new_fd:
  assumes "\<And>ss1. \<lbrakk>born sid ss ss1; ss_alloc_id ss1 = ss_alloc_id ss\<rbrakk> \<Longrightarrow> births sid ss1 (f (None, ss1))"
    and "\<And>ss1. \<lbrakk>born sid ss ss1; ss_alloc_id ss1 = ss_alloc_id ss; sk_id (ss_slot ss1 (HASH_ID sid)) = sid\<rbrakk> \<Longrightarrow>
      births sid ss1 (f (Some (HASH_ID sid), ss1))"
  shows "births sid ss (new_fd sid fd protocol opaque reading ss \<bind> f)"
proof (cases "new_fd sid fd protocol opaque reading ss")
  case (Some q)
  then obtain r ss1 where q: "new_fd sid fd protocol opaque reading ss = Some (r, ss1)" by (cases q) auto
  note b = new_fd_born [OF q]
  have "births sid ss1 (f (r, ss1))"
  proof (cases r)
    case None
    then show ?thesis using assms(1) b(1,2) by blast
  next
    case (Some i)
    then show ?thesis using assms(2) b by blast
  qed
  then show ?thesis using births_born [OF b(1,2)] q by simp
qed simp

lemma born_refl [simp]: "born sid ss ss"
  by (simp add: frame_born)

lemma born_call [simp]: "born sid ss (call c ss1) \<longleftrightarrow> born sid ss ss1" "ss_alloc_id (call c ss1) = ss_alloc_id ss1"
  by (simp_all add: born_def call_def)

lemma failed_slot_births: "births sid ss (Some (failed_slot sid opaque d ss))"
  by (simp add: failed_slot_def frame_born frame_upd)

lemma failed_slot_call_births: "births sid ss (Some (failed_slot sid opaque d (call c ss)))"
  using births_born [OF _ _ failed_slot_births, of sid ss "call c ss"] by simp

lemma born_type: "sk_id (ss_slot ss (HASH_ID sid)) = sid \<Longrightarrow> born sid ss (upd (HASH_ID sid) (\<lambda>s. s\<lparr>sk_type := t\<rparr>) ss)"
  by (simp add: born_upd)

lemma listen_births: "births sid ss (listen_socket sid fd opaque ss)"
  unfolding listen_socket_def by (rule births_new_fd) (simp_all add: failed_slot_call_births born_type)

lemma bind_births: "births sid ss (bind_socket sid fd opaque ss)"
  unfolding bind_socket_def Let_def by (rule births_new_fd) (simp_all add: born_type)

lemma add_udp_births: "births sid ss (add_udp_socket sid fd v6 opaque ss \<bind> (\<lambda>ss1. Some (None, ss1)))"
proof -
  have "births sid ss (new_fd sid fd (if v6 then PROTOCOL_UDPv6 else PROTOCOL_UDP) opaque True ss \<bind> (\<lambda>(r, ss1). (case r of
      None \<Rightarrow> Some (upd (HASH_ID sid) (\<lambda>s. s\<lparr>sk_type := TY_INVALID\<rparr>) (call (SClose fd) ss1))
    | Some i \<Rightarrow> Some (upd i (\<lambda>s. s\<lparr>sk_type := TY_CONNECTED, sk_udp_address := replicate UDP_ADDRESS_SIZE 0\<rparr>) ss1)) \<bind>
      (\<lambda>ss1. Some (None, ss1))))"
    by (rule births_new_fd) (simp_all add: frame_born frame_updI born_upd)
  then show ?thesis by (simp add: add_udp_socket_def split_def)
qed

lemma connect_loop_frame: "connect_loop n ss = Some (r, ss1) \<Longrightarrow> frame ss ss1"
proof (induction n arbitrary: ss)
  case (Suc n)
  from Suc.prems obtain fd ss2 where 2: "sys ss = Some (fd, ss2)"
      "if fd < 0 then connect_loop n ss2 = Some (r, ss1)
       else \<exists>st ss3. sys ss2 = Some (st, ss3) \<and> (connect_loop n (call (SClose fd) ss3) = Some (r, ss1) \<or> ss3 = ss1)"
    by (auto simp: bind_eq_Some_conv split: if_splits)
  have f2: "frame ss ss2" using 2 sys_frame by blast
  show ?case
  proof (cases "fd < 0")
    case True
    then show ?thesis using 2 Suc.IH still_trans [OF f2] by simp
  next
    case False
    then obtain st ss3 where 3: "sys ss2 = Some (st, ss3)" "connect_loop n (call (SClose fd) ss3) = Some (r, ss1) \<or> ss3 = ss1"
      using 2 by auto
    have f3: "frame ss ss3" using sys_frame [OF 3(1)] by (rule still_trans [OF f2])
    then show ?thesis using 3(2) Suc.IH [of "call (SClose fd) ss3"] still_trans [of ss "call (SClose fd) ss3" ss1] by auto
  qed
qed simp

lemma open_fd_births: "births sid ss (open_fd sid opaque fd connected ss)"
  unfolding open_fd_def
proof (rule births_new_fd)
  fix ss1 :: server
  assume i: "sk_id (ss_slot ss1 (HASH_ID sid)) = sid"
  let ?s = "upd (HASH_ID sid) (\<lambda>s. s\<lparr>sk_type := TY_CONNECTING\<rparr>) ss1"
  let ?f = "\<lambda>(err, ss2). if err then Some (failed_slot sid opaque (Text ''enable write failed'') ss2) else Some (None, ss2)"
  have "births sid ?s (enable_write (HASH_ID sid) True ?s \<bind> ?f)"
    by (rule silent_births, rule silent_enable_write) (simp add: failed_slot_def frame_updI)
  then have "births sid ss1 (enable_write (HASH_ID sid) True ?s \<bind> ?f)"
    using births_born [of sid ss1 ?s] born_type [OF i] by simp
  then show "births sid ss1 ((\<lambda>(ns, ss1). case ns of
      None \<Rightarrow> Some (failed_slot sid opaque socket_limit (call (SClose fd) ss1))
    | Some i \<Rightarrow> if connected
        then Some (Some (SOCKET_OPEN, \<lparr>sm_id = sid, sm_opaque = opaque, sm_ud = 0, sm_data = Address\<rparr>),
          upd i (\<lambda>s. s\<lparr>sk_type := TY_CONNECTED\<rparr>) ss1)
        else enable_write i True (upd i (\<lambda>s. s\<lparr>sk_type := TY_CONNECTING\<rparr>) ss1) \<bind> ?f) (Some (HASH_ID sid), ss1))"
    using i by (simp add: born_type)
qed (simp add: failed_slot_call_births)

lemma open_births: "births sid ss (open_socket sid opaque ss)"
  unfolding open_socket_def
proof (rule births_sys)
  fix n ss1
  show "births sid ss1 ((\<lambda>(n, ss1). if n < 0 then Some (failed_slot sid opaque (Errno n) ss1)
      else connect_loop (nat n) ss1 \<bind> (\<lambda>(r, ss2). case r of
        None \<Rightarrow> Some (failed_slot sid opaque (Errno n) ss2)
      | Some (fd, connected) \<Rightarrow> open_fd sid opaque fd connected ss2)) (n, ss1))"
  proof (cases "n < 0 \<or> connect_loop (nat n) ss1 = None")
    case False
    then obtain r ss2 where c: "connect_loop (nat n) ss1 = Some (r, ss2)" by auto
    have b: "born sid ss1 ss2" "ss_alloc_id ss2 = ss_alloc_id ss1"
      using connect_loop_frame [OF c] by (auto simp: frame_born frame_def)
    show ?thesis
      using False c births_born [OF b open_fd_births] births_born [OF b failed_slot_births] by (auto split: option.split)
  qed (auto simp: failed_slot_births)
qed

subsection \<open>The operations that raise the message\<close>

definition over :: "socket \<Rightarrow> bool" where
  "over s \<longleftrightarrow> sk_type s = TY_HALFCLOSE_READ \<or> sk_type s = TY_INVALID"

definition closing :: "nat \<Rightarrow> server \<Rightarrow> (report \<times> server) option \<Rightarrow> bool" where
  "closing i ss p \<longleftrightarrow> (\<forall>r ss1. p = Some (r, ss1) \<longrightarrow> frame ss ss1 \<and> (\<forall>m. r = Some (SOCKET_CLOSE, m) \<longrightarrow>
     sm_id m = sk_id (ss_slot ss i) \<and> \<not> over (ss_slot ss i) \<and> over (ss_slot ss1 i)))"

lemma closing_simps [simp]:
  "closing i ss None"
  "closing i ss (Some (None, ss1)) \<longleftrightarrow> frame ss ss1"
  "closing i ss (Some (Some (SOCKET_CLOSE, m), ss1)) \<longleftrightarrow>
     frame ss ss1 \<and> sm_id m = sk_id (ss_slot ss i) \<and> \<not> over (ss_slot ss i) \<and> over (ss_slot ss1 i)"
  by (auto simp: closing_def)

lemma silent_closing: "silent ss p \<Longrightarrow> closing i ss p"
  by (auto simp: closing_def silent_def)

lemma closing_slot: "frame ss ss1 \<Longrightarrow> ss_slot ss1 = ss_slot ss \<Longrightarrow> closing i ss1 p \<Longrightarrow> closing i ss p"
  unfolding closing_def using still_trans by metis

lemma closing_bind: "(\<And>a ss1. p = Some (a, ss1) \<Longrightarrow> closing i ss (f (a, ss1))) \<Longrightarrow> closing i ss (p \<bind> f)"
  by (cases p) auto

lemma close_read_frame:
  assumes "close_read i ss = Some (m, ss1)" "sk_type (ss_slot ss i) \<noteq> TY_INVALID"
  shows "frame ss ss1" "sm_id m = sk_id (ss_slot ss i)" "over (ss_slot ss1 i)"
proof -
  let ?s = "upd i (\<lambda>s. s\<lparr>sk_type := TY_HALFCLOSE_READ\<rparr>) ss"
  obtain e ss2 where e: "enable_read i False ?s = Some (e, ss2)"
      "m = message_of (ss_slot ss2 i) NoData" "ss1 = call (SShutdown (sk_fd (ss_slot ss2 i)) False) ss2"
    using assms(1) by (auto simp: close_read_def bind_eq_Some_conv)
  have f: "frame ss ?s" using assms(2) by (simp add: frame_upd calm_def)
  have f2: "frame ?s ss2" using e(1) enable_frame by blast
  then show "frame ss ss1" using e(3) still_trans [OF f f2] by simp
  have "calm (ss_slot ?s i) (ss_slot ss2 i)" using f2 by (rule frameD)
  then show "sm_id m = sk_id (ss_slot ss i)" "over (ss_slot ss1 i)" using e by (auto simp: calm_def over_def message_of_def)
qed

lemma closing_close_read:
  assumes "frame ss ss1" "sk_type (ss_slot ss1 i) \<noteq> TY_INVALID" "sk_id (ss_slot ss1 i) = sk_id (ss_slot ss i)" "\<not> over (ss_slot ss i)"
  shows "closing i ss (close_read i ss1 \<bind> (\<lambda>(m, ss2). Some (Some (SOCKET_CLOSE, m), ss2)))"
  using assms close_read_frame [where ss = ss1] still_trans by (auto intro!: closing_bind)

lemma closing_force_close:
  assumes "\<not> over (ss_slot ss i)"
  shows "closing i ss (force_close i ss \<bind> (\<lambda>(m, ss1). Some (Some (SOCKET_CLOSE, m), ss1)))"
  using assms force_close_frame [where ss = ss] by (auto simp: over_def intro!: closing_bind)

lemma silent_close: "silent ss (force_close i ss \<bind> (\<lambda>(m, ss1). Some (None, ss1)))"
  by (auto intro: silent_force_close)

lemma close_socket_closing: "closing (HASH_ID sid) ss (close_socket sid shut ss)"
proof (cases "socket_invalid (ss_slot ss (HASH_ID sid)) sid")
  case True
  then show ?thesis by (simp add: close_socket_def Let_def)
next
  case False
  let ?i = "HASH_ID sid"
  let ?ss1 = "upd ?i (\<lambda>s. s\<lparr>sk_closing := True\<rparr>) ss"
  have ty: "sk_type (ss_slot ss ?i) \<noteq> TY_INVALID" using False by (simp add: socket_invalid_def)
  have f: "frame ss ?ss1" by (simp add: frame_upd)
  show ?thesis
  proof (cases "halfclose_read (ss_slot ss ?i)")
    case True
    then show ?thesis using False silent_close f by (auto simp: close_socket_def Let_def intro!: silent_closing)
  next
    case half: False
    then have o: "\<not> over (ss_slot ss ?i)" using ty by (auto simp: over_def halfclose_read_def)
    have "closing ?i ss (close_read ?i ?ss1 \<bind> (\<lambda>(m, ss2). Some (Some (SOCKET_CLOSE, m), ss2)))"
      by (rule closing_close_read [OF f _ _ o]) (simp_all add: ty)
    then show ?thesis using False half closing_force_close [OF o] by (simp add: close_socket_def Let_def)
  qed
qed

lemma forward_tcp_closing:
  assumes ty: "sk_type (ss_slot ss i) \<noteq> TY_INVALID"
  shows "closing i ss (forward_message_tcp i ss)"
proof (cases "sys_data ss")
  case None
  then show ?thesis by (simp add: forward_message_tcp_def Let_def)
next
  case (Some q)
  then obtain g ss1 where q: "sys_data ss = Some (g, ss1)" by (cases q) auto
  have f: "frame ss ss1" "ss_slot ss1 = ss_slot ss" using q sys_data_frame sys_data_slot by auto
  let ?s = "ss_slot ss i"
  show ?thesis
  proof (cases g)
    case (Ret n)
    then show ?thesis using q f by (auto simp: forward_message_tcp_def Let_def report_error_def intro!: silent_closing)
  next
    case (Got bs a)
    show ?thesis
    proof (cases "bs = []")
      case True
      have "closing i ss1 (close_read i ss1 \<bind> (\<lambda>(m, ss2). Some (Some (SOCKET_CLOSE, m), ss2)))"
        if "sk_type ?s \<noteq> TY_HALFCLOSE_READ"
        using closing_close_read [OF still_refl, of ss1 i] ty that f(2) by (simp add: over_def)
      moreover have "closing i ss1 (force_close i ss1 \<bind> (\<lambda>(m, ss2). Some (Some (SOCKET_CLOSE, m), ss2)))"
        if "sk_type ?s = TY_HALFCLOSE_WRITE"
        using closing_force_close [of ss1 i] that f(2) by (simp add: over_def)
      ultimately show ?thesis
        using True q Got silent_closing [OF silent_close, of i ss1 i] closing_slot [OF f]
        by (simp add: forward_message_tcp_def Let_def c_assert_def f(1))
    next
      case False
      then show ?thesis
        using q Got f
        by (auto simp: forward_message_tcp_def Let_def c_assert_def stat_read_def frame_updI calm_def intro!: silent_closing)
    qed
  qed
qed

lemma silent_sys_data:
  assumes "\<And>g ss1. sys_data ss = Some (g, ss1) \<Longrightarrow> silent ss1 (f (g, ss1))"
  shows "silent ss (sys_data ss \<bind> f)"
  by (rule silent_bind, rule silent_frame, erule sys_data_frame) (rule assms)

lemma forward_udp_silent: "silent ss (forward_message_udp i ss)"
  unfolding forward_message_udp_def Let_def
  by (rule silent_sys_data)
    (auto simp: gen_udp_address_def Let_def c_assert_def stat_read_def frame_updI calm_def split: sysret.split
      intro!: silent_force_close)

lemma report_connect_silent:
  assumes "sk_type (ss_slot ss i) = TY_CONNECTING"
  shows "silent ss (report_connect i ss)"
  unfolding report_connect_def
proof (rule silent_sys)
  fix e and ss1 :: server
  assume "ss_slot ss1 = ss_slot ss"
  let ?ss2 = "upd i (\<lambda>s. s\<lparr>sk_type := TY_CONNECTED\<rparr>) ss1"
  let ?d = "if nomore_sending_data (ss_slot ?ss2 i) then enable_write i False ?ss2 else Some (False, ?ss2)"
  let ?f = "\<lambda>(failed, ss3).
      if failed then force_close i ss3 \<bind> (\<lambda>(m, ss4). Some (Some (SOCKET_ERR, m\<lparr>sm_data := Text ''disable write failed''\<rparr>), ss4))
      else sys ss3 \<bind> (\<lambda>(a, ss4). Some (Some (SOCKET_OPEN, message_of (ss_slot ss4 i) (if a = 0 then Address else NoData)), ss4))"
  have f2: "frame ss1 ?ss2" using assms \<open>ss_slot ss1 = ss_slot ss\<close> by (simp add: frame_upd calm_def)
  have d: "frame ss1 ss3" if "?d = Some (b, ss3)" for b ss3
    using that f2 still_trans [OF f2] enable_frame [of i False ?ss2 b ss3] by (auto split: if_splits)
  have "silent ss3 (?f (b, ss3))" for b ss3 by (auto intro!: silent_force_close)
  then have "silent ss1 (?d \<bind> ?f)" by (intro silent_bind silent_frame [OF d])
  then show "silent ss1 ((\<lambda>(e, ss1). if e \<noteq> 0 then force_close i ss1 \<bind> (\<lambda>(m, ss2). Some (Some (SOCKET_ERR, m\<lparr>sm_data := Errno e\<rparr>), ss2))
      else (let ss2 = upd i (\<lambda>s. s\<lparr>sk_type := TY_CONNECTED\<rparr>) ss1 in
        (if nomore_sending_data (ss_slot ss2 i) then enable_write i False ss2 else Some (False, ss2)) \<bind> ?f)) (e, ss1))"
    by (auto simp: Let_def intro!: silent_force_close)
qed

subsection \<open>One round of the loop\<close>

text \<open>A slot in use belongs to an id of its own.\<close>

definition hashed :: "server \<Rightarrow> bool" where
  "hashed ss \<longleftrightarrow> (\<forall>i. sk_type (ss_slot ss i) \<noteq> TY_INVALID \<longrightarrow> HASH_ID (sk_id (ss_slot ss i)) = i)"

text \<open>The connection \<open>sid\<close> has ended, or its slot has another owner.\<close>

definition gone :: "u32 \<Rightarrow> server \<Rightarrow> bool" where
  "gone sid ss \<longleftrightarrow> (let s = ss_slot ss (HASH_ID sid) in sk_id s \<noteq> sid \<or> over s)"

definition closes :: "u32 \<Rightarrow> report \<Rightarrow> bool" where
  "closes sid r = (case r of Some (SOCKET_CLOSE, m) \<Rightarrow> sm_id m = sid | _ \<Rightarrow> False)"

text \<open>A step handed out the id.\<close>

definition handed :: "u32 \<Rightarrow> server \<Rightarrow> server \<Rightarrow> bool" where
  "handed sid ss ss' \<longleftrightarrow> ss_alloc_id ss' \<noteq> ss_alloc_id ss \<and> ss_alloc_id ss' = sid"

definition fine :: "u32 set \<Rightarrow> server \<Rightarrow> report \<Rightarrow> server \<Rightarrow> bool" where
  "fine X ss r ss' \<longleftrightarrow> (hashed ss \<longrightarrow> hashed ss' \<and>
     (\<forall>sid. sid \<notin> X \<longrightarrow> (gone sid ss \<longrightarrow> gone sid ss') \<and> (closes sid r \<longrightarrow> \<not> gone sid ss \<and> gone sid ss')))"

lemma closes_iff: "closes sid r \<longleftrightarrow> (\<exists>m. r = Some (SOCKET_CLOSE, m) \<and> sm_id m = sid)"
  by (auto simp: closes_def split: option.splits event_type.splits)

lemma calm_over: "calm s s' \<Longrightarrow> sk_id s' = sk_id s \<and> (over s \<longrightarrow> over s') \<and> (sk_type s' \<noteq> TY_INVALID \<longrightarrow> sk_type s \<noteq> TY_INVALID)"
  by (auto simp: calm_def over_def)

lemma closing_fine:
  assumes "closing i ss (Some (r, ss'))"
  shows "fine {} ss r ss'"
  unfolding fine_def
proof (intro impI conjI allI)
  assume h: "hashed ss"
  have f: "frame ss ss'" using assms by (simp add: closing_def)
  show "hashed ss'" using h frameD [OF f] calm_over unfolding hashed_def by metis
  fix sid
  show "gone sid ss \<Longrightarrow> gone sid ss'" using calm_over [OF frameD [OF f, of "HASH_ID sid"]] by (auto simp: gone_def Let_def)
  assume "closes sid r"
  then have *: "sid = sk_id (ss_slot ss i)" "\<not> over (ss_slot ss i)" "over (ss_slot ss' i)"
    using assms by (auto simp: closing_def closes_iff)
  moreover from this have "HASH_ID sid = i" using h by (auto simp: hashed_def over_def)
  ultimately show "\<not> gone sid ss" "gone sid ss'" by (auto simp: gone_def)
qed

lemma silent_fine: "silent ss (Some (r, ss')) \<Longrightarrow> fine {} ss r ss'"
  by (rule closing_fine [OF silent_closing])

lemma born_fine:
  assumes "born sid0 ss ss'" "\<forall>m. r \<noteq> Some (SOCKET_CLOSE, m)"
  shows "fine {sid0} ss r ss'"
  unfolding fine_def
proof (intro impI conjI allI)
  assume h: "hashed ss"
  show "hashed ss'" using h assms(1) calm_over unfolding hashed_def born_def by metis
  fix sid
  assume "sid \<notin> {sid0}"
  moreover have "calm (ss_slot ss (HASH_ID sid)) (ss_slot ss' (HASH_ID sid)) \<or> sk_id (ss_slot ss' (HASH_ID sid)) = sid0"
    using assms(1) by (auto simp: born_def)
  ultimately show "gone sid ss \<Longrightarrow> gone sid ss'"
    by (auto simp: gone_def Let_def dest: calm_over)
  show "closes sid r \<Longrightarrow> \<not> gone sid ss" "closes sid r \<Longrightarrow> gone sid ss'" using assms(2) by (auto simp: closes_iff)
qed

lemma births_fine: "births sid ss (Some (r, ss')) \<Longrightarrow> fine {sid} ss r ss'"
  by (simp add: born_fine)

lemma fine_mono: "fine X ss r ss' \<Longrightarrow> X \<subseteq> Y \<Longrightarrow> fine Y ss r ss'"
  unfolding fine_def by blast

lemma reserved_born: "born sid ss (reserved sid ss)"
  by (simp add: born_def reserved_def)

lemma born_alloc [simp]: "born sid ss (ss1\<lparr>ss_alloc_id := a\<rparr>) \<longleftrightarrow> born sid ss ss1"
  by (simp add: born_def)

lemma report_accept_fine:
  assumes "report_accept i ss = Some (r, ss')"
  shows "fine {sid. handed sid ss ss'} ss r ss' \<and> ss_pipe ss' = ss_pipe ss"
proof -
  obtain fd ss1 where 1: "sys ss = Some (fd, ss1)" using assms by (auto simp: report_accept_def bind_eq_Some_conv)
  have f1: "frame ss ss1" using sys_frame [OF 1] .
  show ?thesis
  proof (cases "fd < 0")
    case True
    then have "silent ss (Some (r, ss'))" using assms 1 f1 by (auto simp: report_accept_def split: if_splits)
    then show ?thesis using fine_mono [OF silent_fine, of ss r ss'] by (simp add: frame_def)
  next
    case False
    show ?thesis
    proof (cases rule: reserve_id_cases [of ss1])
      case (2 a)
      then have r: "r = None" "ss' = call (SClose fd) (ss1\<lparr>ss_alloc_id := a\<rparr>)"
        using assms 1 False by (auto simp: report_accept_def)
      have "fine {} ss None ss1" using f1 by (intro silent_fine) simp
      then have "fine {} ss r ss'" using r by (simp add: fine_def hashed_def gone_def)
      then show ?thesis using fine_mono [of "{}" ss r ss'] r f1 by (simp add: frame_def)
    next
      case (1 sid)
      let ?ss2 = "reserved sid ss1"
      have b2: "born sid ss ?ss2" using frame_born [OF f1] reserved_born by (rule born_trans)
      obtain q ss3 where 3: "new_fd sid fd PROTOCOL_TCP (sk_opaque (ss_slot ?ss2 i)) False ?ss2 = Some (q, ss3)"
          "case q of None \<Rightarrow> r = None \<and> ss' = call (SClose fd) ss3
           | Some j \<Rightarrow> \<exists>a ss5. sys (upd j (\<lambda>s. s\<lparr>sk_type := TY_PACCEPT\<rparr>) (stat_read i 1 ss3)) = Some (a, ss5) \<and> ss' = ss5 \<and>
              (\<forall>m. r \<noteq> Some (SOCKET_CLOSE, m))"
        using assms \<open>sys ss = _\<close> 1(1) False by (fastforce simp: report_accept_def Let_def bind_eq_Some_conv split: option.splits)
      note n = new_fd_born [OF 3(1)]
      have b3: "born sid ss ss3" using b2 n(1) by (rule born_trans)
      have a3: "ss_alloc_id ss3 = sid" using n(2) by (simp add: reserved_def)
      have "born sid ss ss' \<and> ss_alloc_id ss' = sid \<and> (\<forall>m. r \<noteq> Some (SOCKET_CLOSE, m))"
      proof (cases q)
        case None
        then show ?thesis using 3(2) b3 a3 by simp
      next
        case (Some j)
        then have j: "j = HASH_ID sid" "sk_id (ss_slot ss3 j) = sid" using n(3) by auto
        let ?t = "stat_read i 1 ss3"
        let ?u = "upd j (\<lambda>s. s\<lparr>sk_type := TY_PACCEPT\<rparr>) ?t"
        have ft: "frame ss3 ?t" by simp
        have bt: "born sid ss ?t" using b3 frame_born [OF ft] by (rule born_trans)
        have "sk_id (ss_slot ?t j) = sid" using j by (auto simp: stat_read_def)
        then have bu: "born sid ss ?u" using born_upd [OF bt] j(1) by simp
        have fu: "frame ?u ss'" "\<forall>m. r \<noteq> Some (SOCKET_CLOSE, m)" using 3(2) Some sys_frame by auto
        have "born sid ss ss'" using bu frame_born [OF fu(1)] by (rule born_trans)
        moreover have "ss_alloc_id ss' = sid" using fu(1) a3 by (simp add: frame_def stat_read_def)
        ultimately show ?thesis using fu(2) by blast
      qed
      moreover have "ss_alloc_id ss = ss_alloc_id ss1" using f1 by (simp add: frame_def)
      ultimately show ?thesis using born_fine [of sid ss ss' r] 1(3) fine_mono [of "{sid}" ss r ss'] by (auto simp: handed_def born_def)
    qed
  qed
qed

definition round :: "server \<Rightarrow> (report \<times> server) option \<Rightarrow> bool" where
  "round ss p \<longleftrightarrow> (\<forall>r ss'. p = Some (r, ss') \<longrightarrow> fine {sid. handed sid ss ss'} ss r ss' \<and> ss_pipe ss' = ss_pipe ss)"

lemma closing_round: "closing i ss p \<Longrightarrow> round ss p"
  unfolding round_def
proof (intro allI impI)
  fix r ss'
  assume "closing i ss p" "p = Some (r, ss')"
  then have "closing i ss (Some (r, ss'))" by simp
  moreover from this have "frame ss ss'" by (simp add: closing_def)
  ultimately show "fine {sid. handed sid ss ss'} ss r ss' \<and> ss_pipe ss' = ss_pipe ss"
    using fine_mono [OF closing_fine] by (simp add: frame_def)
qed

lemma silent_round: "silent ss p \<Longrightarrow> round ss p"
  by (rule closing_round [OF silent_closing])

lemma closing_again:
  assumes "closing i ss p" "\<And>r ss1. p = Some (r, ss1) \<Longrightarrow> \<exists>ss2 r2. f (r, ss1) = Some (r2, ss2) \<and>
      ss_slot ss2 = ss_slot ss1 \<and> ss_pipe ss2 = ss_pipe ss1 \<and> ss_alloc_id ss2 = ss_alloc_id ss1 \<and>
      (\<forall>m. r2 = Some (SOCKET_CLOSE, m) \<longrightarrow> r = Some (SOCKET_CLOSE, m))"
  shows "closing i ss (p \<bind> f)"
proof (rule closing_bind)
  fix r ss1
  assume p: "p = Some (r, ss1)"
  obtain ss2 r2 where "f (r, ss1) = Some (r2, ss2)" "ss_slot ss2 = ss_slot ss1" "ss_pipe ss2 = ss_pipe ss1"
      "ss_alloc_id ss2 = ss_alloc_id ss1" "\<forall>m. r2 = Some (SOCKET_CLOSE, m) \<longrightarrow> r = Some (SOCKET_CLOSE, m)"
    using assms(2) [OF p] by blast
  moreover have "closing i ss (Some (r, ss1))" using assms(1) p by simp
  ultimately show "closing i ss (f (r, ss1))" unfolding closing_def frame_def by (metis option.inject prod.inject)
qed

lemma dispatch_read_closing:
  assumes "sk_type (ss_slot ss i) \<noteq> TY_INVALID"
  shows "closing i ss (dispatch_read i e ss)"
proof -
  have "closing i ss (if sk_protocol (ss_slot ss i) = PROTOCOL_TCP then forward_message_tcp i ss else forward_message_udp i ss)"
    using assms forward_tcp_closing silent_closing [OF forward_udp_silent] by simp
  then show ?thesis
    unfolding dispatch_read_def by (rule closing_again) (auto simp: again_def Let_def split: option.split)
qed

lemma dispatch_event_round: "round ss (dispatch_event e ss)"
proof (cases "ev_s e")
  case None
  then show ?thesis by (simp add: dispatch_event_def silent_round)
next
  case (Some i)
  let ?s = "ss_slot ss i"
  have eof: "closing i ss (force_close i ss \<bind> (\<lambda>(m, ss1). Some (if halfclose_read ?s then None else Some (SOCKET_CLOSE, m), ss1)))"
    if "sk_type ?s \<noteq> TY_INVALID"
    using silent_closing [OF silent_close, of i ss i] closing_force_close [of ss i] that
    by (cases "sk_type ?s = TY_HALFCLOSE_READ") (simp_all add: halfclose_read_def over_def)
  have err: "silent ss (sys ss \<bind> (\<lambda>(n, ss1). Some (report_error i (if n \<noteq> 0 then Errno n else Text ''Unknown error'') ss1)))"
    by (rule silent_sys) (simp add: report_error_def)
  consider "sk_type ?s = TY_CONNECTING" | "sk_type ?s = TY_LISTEN" | "sk_type ?s = TY_INVALID"
    | "sk_type ?s \<noteq> TY_INVALID" "sk_type ?s \<noteq> TY_CONNECTING" "sk_type ?s \<noteq> TY_LISTEN" by blast
  then show ?thesis
  proof cases
    case 1
    then show ?thesis using Some silent_round [OF report_connect_silent] by (simp add: dispatch_event_def Let_def)
  next
    case 2
    then show ?thesis using Some report_accept_fine by (simp add: dispatch_event_def Let_def round_def)
  next
    case 3
    then show ?thesis using Some by (simp add: dispatch_event_def Let_def silent_round)
  next
    case 4
    then show ?thesis
      using Some closing_round [OF eof] silent_round [OF err] closing_round [OF dispatch_read_closing]
        silent_round [OF send_buffer_silent] by (simp add: dispatch_event_def Let_def silent_round)
  qed
qed

text \<open>The socket that a request opens.\<close>

definition opens :: "request \<Rightarrow> u32 option" where
  "opens r = (case r of ROpen sid opaque host port \<Rightarrow> Some sid | RListen sid fd opaque \<Rightarrow> Some sid | RBind sid fd opaque \<Rightarrow> Some sid
     | RUdp sid fd v6 opaque \<Rightarrow> Some sid | _ \<Rightarrow> None)"

lemma ctrl_cmd_fine:
  assumes "ctrl_cmd ss = Some (r, ss')" "ss_pipe ss = req # reqs"
  shows "fine (set_option (opens req)) ss r ss' \<and> ss_pipe ss' = reqs \<and> ss_alloc_id ss' = ss_alloc_id ss"
proof -
  let ?ss = "ss\<lparr>ss_pipe := reqs\<rparr>"
  have same: "fine X ?ss r ss' = fine X ss r ss'" for X by (simp add: fine_def hashed_def gone_def)
  have cl: "fine {} ss r ss' \<and> ss_pipe ss' = reqs \<and> ss_alloc_id ss' = ss_alloc_id ss" if "closing i ?ss (Some (r, ss'))" for i
    using closing_fine [OF that] that same by (simp add: closing_def frame_def)
  have bi: "fine {sid} ss r ss' \<and> ss_pipe ss' = reqs \<and> ss_alloc_id ss' = ss_alloc_id ss" if "births sid ?ss (Some (r, ss'))" for sid
    using births_fine [OF that] that same by (simp add: born_def)
  have send: "silent ?ss (send_socket p sid b None ?ss \<bind> (\<lambda>(r, ss1). dec_sending_ref sid ss1 \<bind> (\<lambda>ss2. Some (r, ss2))))" for p sid b
  proof (rule silent_bind)
    fix q ss1
    assume "send_socket p sid b None ?ss = Some (q, ss1)"
    then have "frame ?ss ss1" "\<forall>m. q \<noteq> Some (SOCKET_CLOSE, m)" using send_socket_silent [of ?ss p sid b None] by (auto simp: silent_def)
    then show "silent ?ss ((\<lambda>(r, ss1). dec_sending_ref sid ss1 \<bind> (\<lambda>ss2. Some (r, ss2))) (q, ss1))"
      using dec_sending_frame still_trans by (cases "dec_sending_ref sid ss1") auto
  qed
  show ?thesis
  proof (cases req)
    case (RResume sid op)
    then have "silent ?ss (Some (r, ss'))" using resume_socket_silent [of ?ss sid op] assms by (simp add: ctrl_cmd_def del: silent_Some)
    then show ?thesis using cl [OF silent_closing] RResume by (simp add: opens_def del: silent_Some)
  next
    case (RPause sid op)
    then have "silent ?ss (Some (r, ss'))" using pause_socket_silent [of ?ss sid] assms by (simp add: ctrl_cmd_def del: silent_Some)
    then show ?thesis using cl [OF silent_closing] RPause by (simp add: opens_def del: silent_Some)
  next
    case (RBind sid fd op)
    then have "births sid ?ss (Some (r, ss'))" using bind_births [of sid ?ss fd op] assms by (simp add: ctrl_cmd_def del: births_simps)
    then show ?thesis using bi RBind by (simp add: opens_def del: births_simps)
  next
    case (RListen sid fd op)
    then have "births sid ?ss (Some (r, ss'))" using listen_births [of sid ?ss fd op] assms by (simp add: ctrl_cmd_def del: births_simps)
    then show ?thesis using bi RListen by (simp add: opens_def del: births_simps)
  next
    case (RClose sid shut op)
    then have "closing (HASH_ID sid) ?ss (Some (r, ss'))" using close_socket_closing [of sid ?ss shut] assms by (simp add: ctrl_cmd_def)
    then show ?thesis using cl RClose by (simp add: opens_def)
  next
    case (ROpen sid op host port)
    then have "births sid ?ss (Some (r, ss'))" using open_births [of sid ?ss op] assms by (simp add: ctrl_cmd_def del: births_simps)
    then show ?thesis using bi ROpen by (simp add: opens_def del: births_simps)
  next
    case RExit
    then have "silent ?ss (Some (r, ss'))" using assms by (auto simp: ctrl_cmd_def)
    then show ?thesis using cl [OF silent_closing] RExit by (simp add: opens_def del: silent_Some)
  next
    case (RTrigger sid)
    then have "silent ?ss (Some (r, ss'))" using trigger_write_silent [of ?ss sid] assms by (simp add: ctrl_cmd_def del: silent_Some)
    then show ?thesis using cl [OF silent_closing] RTrigger by (simp add: opens_def del: silent_Some)
  next
    case (RSend p sid b)
    then have "silent ?ss (Some (r, ss'))" using send [of p sid b] assms by (simp add: ctrl_cmd_def del: silent_Some)
    then show ?thesis using cl [OF silent_closing] RSend by (simp add: opens_def del: silent_Some)
  next
    case (RSendUdp sid b addr)
    then have "silent ?ss (Some (r, ss'))" using send_socket_silent [of ?ss HIGH sid b "Some addr"] assms by (simp add: ctrl_cmd_def del: silent_Some)
    then show ?thesis using cl [OF silent_closing] RSendUdp by (simp add: opens_def del: silent_Some)
  next
    case (RSetUdp sid addr)
    then have "silent ?ss (Some (r, ss'))" using set_udp_silent [of ?ss sid addr] assms by (simp add: ctrl_cmd_def del: silent_Some)
    then show ?thesis using cl [OF silent_closing] RSetUdp by (simp add: opens_def del: silent_Some)
  next
    case (RSetopt sid what v)
    then have "silent ?ss (Some (r, ss'))" using assms setopt_frame by (auto simp: ctrl_cmd_def)
    then show ?thesis using cl [OF silent_closing] RSetopt by (simp add: opens_def del: silent_Some)
  next
    case (RUdp sid fd v6 op)
    then have "births sid ?ss (Some (r, ss'))" using add_udp_births [of sid ?ss fd v6 op] assms by (simp add: ctrl_cmd_def del: births_simps)
    then show ?thesis using bi RUdp by (simp add: opens_def del: births_simps)
  qed
qed

lemma set_clear: "ss_slot (clear_closed_event t m ss) = ss_slot ss" "ss_pipe (clear_closed_event t m ss) = ss_pipe ss"
  "ss_alloc_id (clear_closed_event t m ss) = ss_alloc_id ss"
  by (simp_all add: clear_closed_event_def)

lemma fine_cong: "ss_slot ss1 = ss_slot ss \<Longrightarrow> ss_slot ss2 = ss_slot ss' \<Longrightarrow> fine X ss1 r ss2 = fine X ss r ss'"
  by (simp add: fine_def hashed_def gone_def)

lemma handed_cong: "ss_alloc_id ss1 = ss_alloc_id ss \<Longrightarrow> ss_alloc_id ss2 = ss_alloc_id ss' \<Longrightarrow> handed sid ss1 ss2 = handed sid ss ss'"
  by (simp add: handed_def)

lemma round_cong:
  assumes "round ss1 (Some (r, ss'))" "ss_slot ss1 = ss_slot ss" "ss_pipe ss1 = ss_pipe ss" "ss_alloc_id ss1 = ss_alloc_id ss"
  shows "fine {sid. handed sid ss ss'} ss r ss' \<and> ss_pipe ss' = ss_pipe ss"
  using assms fine_cong [of ss1 ss ss' ss'] handed_cong [of ss1 ss ss' ss'] by (simp add: round_def)

lemma poll_event_fine:
  assumes "poll_event ss = Some (w, r, ss')"
  shows "fine {sid. handed sid ss ss'} ss r ss' \<and> ss_pipe ss' = ss_pipe ss"
proof (cases "ss_ev ss")
  case (Cons e es)
  then have d: "dispatch_event e (ss\<lparr>ss_ev := es\<rparr>) = Some (r, ss')" using assms by (auto simp: poll_event_def bind_eq_Some_conv)
  show ?thesis using dispatch_event_round [of "ss\<lparr>ss_ev := es\<rparr>" e] unfolding d by (rule round_cong) simp_all
next
  case Nil
  then obtain evs ws where ws: "ss_waits ss = evs # ws" using assms by (auto simp: poll_event_def split: list.splits)
  let ?ss1 = "ss\<lparr>ss_waits := ws, ss_checkctrl := True\<rparr>"
  show ?thesis
  proof (cases evs)
    case Nil
    then have "r = None" "ss' = ?ss1" using assms ws \<open>ss_ev ss = []\<close> by (auto simp: poll_event_def)
    moreover have "round ss (Some (None, ss))" by (simp add: silent_round)
    ultimately show ?thesis by (simp add: round_def fine_def hashed_def gone_def handed_def)
  next
    case (Cons e es)
    then have d: "dispatch_event e (?ss1\<lparr>ss_ev := es\<rparr>) = Some (r, ss')"
      using assms ws \<open>ss_ev ss = []\<close> by (auto simp: poll_event_def bind_eq_Some_conv)
    show ?thesis using dispatch_event_round [of "?ss1\<lparr>ss_ev := es\<rparr>" e] unfolding d by (rule round_cong) simp_all
  qed
qed

definition settled :: "u32 \<Rightarrow> server \<Rightarrow> bool" where
  "settled sid ss \<longleftrightarrow> (\<forall>r \<in> set (ss_pipe ss). opens r \<noteq> Some sid)"

text \<open>What a step keeps for an id that it does not hand out and that no request in the pipe opens.\<close>

definition step_ok :: "server \<Rightarrow> report \<Rightarrow> server \<Rightarrow> bool" where
  "step_ok ss r ss' \<longleftrightarrow> (hashed ss \<longrightarrow> hashed ss') \<and> (\<forall>sid. hashed ss \<longrightarrow> settled sid ss \<longrightarrow> \<not> handed sid ss ss' \<longrightarrow>
     settled sid ss' \<and> (gone sid ss \<longrightarrow> gone sid ss') \<and> (closes sid r \<longrightarrow> \<not> gone sid ss \<and> gone sid ss'))"

lemma fine_step_ok:
  assumes "fine {sid. handed sid ss ss'} ss r ss'"
    and "\<And>q. q \<in> set (ss_pipe ss') \<Longrightarrow> q \<in> set (ss_pipe ss) \<or> (\<forall>sid. opens q = Some sid \<longrightarrow> handed sid ss ss')"
  shows "step_ok ss r ss'"
  using assms unfolding step_ok_def fine_def settled_def by fastforce

lemma poll_round_ok:
  assumes "poll_round ss = Some (w, r, ss')"
  shows "step_ok ss r ss'"
proof -
  have ev: "step_ok ss r ss'" if "poll_event ss1 = Some (w, r, ss')" "ss1 = ss \<or> ss1 = ss\<lparr>ss_checkctrl := False\<rparr>" for ss1
    using poll_event_fine [OF that(1)] that(2) fine_cong [of ss1 ss ss' ss'] handed_cong [of ss1 ss ss' ss']
    by (intro fine_step_ok) auto
  show ?thesis
  proof (cases "ss_checkctrl ss \<and> ss_pipe ss \<noteq> []")
    case False
    then show ?thesis using assms ev by (auto simp: poll_round_def split: if_splits)
  next
    case True
    then obtain req reqs ss1 where c: "ss_pipe ss = req # reqs" "ctrl_cmd ss = Some (r, ss1)"
        "ss_slot ss' = ss_slot ss1" "ss_pipe ss' = ss_pipe ss1"
      using assms by (auto simp: poll_round_def bind_eq_Some_conv set_clear neq_Nil_conv split: option.splits)
    from ctrl_cmd_fine [OF c(2,1)] c fine_cong [of ss ss ss' ss1] have "fine (set_option (opens req)) ss r ss'" "ss_pipe ss' = reqs" by auto
    then show ?thesis unfolding step_ok_def settled_def fine_def using c(1) by auto
  qed
qed

subsection \<open>All operations\<close>

text \<open>
  A step of the system: a round of the loop, or a call of another thread. A direct write can be interrupted between the lock
  and the write, and a package between the count and the pipe.
\<close>

datatype action =
    ARound
  | AConnect u64 string int | AListen u64 | ABind u64 int | AUdp u64 "string option" int
  | ASend sendbuffer | ASend_low sendbuffer | AUdp_send bytes sendbuffer | AUdp_connect u32
  | ALock u32 | AWrite sendbuffer | ACount u32 | AEnqueue priority sendbuffer | ATrigger u32
  | AClose u64 u32 | AShutdown u64 u32 | AStart u64 u32 | APause u64 u32 | ANodelay u32 | AExit | ATime u64

definition quiet :: "('a \<times> server) option \<Rightarrow> (report \<times> server) option" where
  "quiet p = map_option (\<lambda>(x, ss). (None, ss)) p"

fun act :: "action \<Rightarrow> server \<Rightarrow> (report \<times> server) option" where
  "act ARound ss = map_option snd (poll_round ss)"
| "act (AConnect opaque addr port) ss = quiet (Some (socket_server_connect opaque addr port ss))"
| "act (AListen opaque) ss = quiet (socket_server_listen opaque ss)"
| "act (ABind opaque fd) ss = quiet (Some (socket_server_bind opaque fd ss))"
| "act (AUdp opaque addr port) ss = quiet (socket_server_udp opaque addr port ss)"
| "act (ASend b) ss = quiet (socket_server_send b ss)"
| "act (ASend_low b) ss = quiet (socket_server_send_lowpriority b ss)"
| "act (AUdp_send addr b) ss = quiet (socket_server_udp_send addr b ss)"
| "act (AUdp_connect sid) ss = quiet (socket_server_udp_connect sid ss)"
| "act (ALock sid) ss = quiet (Some (direct_lock sid ss))"
| "act (AWrite b) ss = quiet (direct_write b ss)"
| "act (ACount sid) ss = map_option (Pair None) (inc_sending_ref sid ss)"
| "act (AEnqueue p b) ss = Some (None, send_enqueue p b ss)"
| "act (ATrigger sid) ss = Some (None, send_request (RTrigger sid) ss)"
| "act (AClose opaque sid) ss = Some (None, socket_server_close opaque sid ss)"
| "act (AShutdown opaque sid) ss = Some (None, socket_server_shutdown opaque sid ss)"
| "act (AStart opaque sid) ss = Some (None, socket_server_start opaque sid ss)"
| "act (APause opaque sid) ss = Some (None, socket_server_pause opaque sid ss)"
| "act (ANodelay sid) ss = Some (None, socket_server_nodelay sid ss)"
| "act AExit ss = Some (None, socket_server_exit ss)"
| "act (ATime t) ss = Some (None, socket_server_updatetime t ss)"

text \<open>A call adds requests to the pipe that open no socket but one whose id it just got.\<close>

definition calls :: "server \<Rightarrow> server \<Rightarrow> bool" where
  "calls ss ss' \<longleftrightarrow> (\<exists>rs ss1. frame ss ss1 \<and> ss' = ss1\<lparr>ss_pipe := ss_pipe ss1 @ rs\<rparr> \<and> (\<forall>q \<in> set rs. opens q = None))"

lemma calls_ok: "calls ss ss' \<Longrightarrow> step_ok ss None ss'"
proof -
  assume "calls ss ss'"
  then obtain rs ss1 where c: "frame ss ss1" "ss' = ss1\<lparr>ss_pipe := ss_pipe ss1 @ rs\<rparr>" "\<forall>q \<in> set rs. opens q = None"
    by (auto simp: calls_def)
  have "fine {} ss None ss1" using c(1) by (intro silent_fine) simp
  then have "fine {} ss None ss'" by (simp add: c(2) fine_def hashed_def gone_def)
  then have "fine {sid. handed sid ss ss'} ss None ss'" by (rule fine_mono) simp
  moreover have "q \<in> set (ss_pipe ss) \<or> (\<forall>sid. opens q = Some sid \<longrightarrow> handed sid ss ss')" if "q \<in> set (ss_pipe ss')" for q
    using that c by (auto simp: frame_def)
  ultimately show ?thesis by (rule fine_step_ok)
qed

lemma calls_frame: "frame ss ss1 \<Longrightarrow> calls ss ss1"
  unfolding calls_def by (rule exI [of _ "[]"]) simp

lemma calls_request: "frame ss ss1 \<Longrightarrow> opens q = None \<Longrightarrow> calls ss (send_request q ss1)"
  unfolding calls_def send_request_def by (rule exI [of _ "[q]"]) auto

text \<open>A call that reserves an id, after system calls, and asks to open it.\<close>

lemma reserve_ok:
  assumes "frame ss ss1" "reserve_id ss1 = (r, ss2)"
  shows "r = None \<Longrightarrow> step_ok ss None ss2" "r = None \<Longrightarrow> step_ok ss None (call c ss2)"
    and "r = Some sid \<Longrightarrow> opens q = Some sid \<Longrightarrow> step_ok ss None (send_request q ss2)"
proof -
  have f: "fine {} ss None ss1" using assms(1) by (intro silent_fine) simp
  have p: "ss_pipe ss1 = ss_pipe ss" "ss_alloc_id ss1 = ss_alloc_id ss" using assms(1) by (simp_all add: frame_def)
  have ok: "step_ok ss None ss3" if "ss_slot ss3 = ss_slot ss1" "ss_pipe ss3 = ss_pipe ss" for ss3
  proof (rule fine_step_ok)
    have "fine {} ss None ss3" using f that(1) by (simp add: fine_def hashed_def gone_def)
    then show "fine {sid. handed sid ss ss3} ss None ss3" by (rule fine_mono) simp
  qed (simp add: that(2))
  show "step_ok ss None ss2" "step_ok ss None (call c ss2)" if "r = None"
  proof -
    have s: "ss_slot ss2 = ss_slot ss1 \<and> ss_pipe ss2 = ss_pipe ss"
    proof (cases rule: reserve_id_cases [of ss1])
      case (1 sid)
      then show ?thesis using assms(2) that by simp
    next
      case (2 a)
      then have "ss2 = ss1\<lparr>ss_alloc_id := a\<rparr>" using assms(2) by simp
      then show ?thesis using p by simp
    qed
    then show "step_ok ss None ss2" "step_ok ss None (call c ss2)" by (simp_all add: ok)
  qed
  show "step_ok ss None (send_request q ss2)" if r: "r = Some sid" "opens q = Some sid"
  proof -
    have s: "ss2 = reserved sid ss1 \<and> sid \<noteq> ss_alloc_id ss"
    proof (cases rule: reserve_id_cases [of ss1])
      case (1 sid')
      then show ?thesis using assms(2) r(1) p(2) by simp
    next
      case (2 a)
      then show ?thesis using assms(2) r(1) by simp
    qed
    have b: "born sid ss ss2" using born_trans [OF frame_born [OF assms(1)] reserved_born] s by simp
    let ?ss3 = "send_request q ss2"
    have h: "handed sid ss ?ss3" using s by (simp add: handed_def send_request_def reserved_def)
    have "fine {sid} ss None ss2" by (rule born_fine [OF b]) simp
    then have "fine {sid} ss None ?ss3" by (simp add: send_request_def fine_def hashed_def gone_def)
    then have "fine {sid. handed sid ss ?ss3} ss None ?ss3" by (rule fine_mono) (simp add: h)
    moreover have "q' \<in> set (ss_pipe ss) \<or> (\<forall>sid. opens q' = Some sid \<longrightarrow> handed sid ss ?ss3)" if "q' \<in> set (ss_pipe ?ss3)" for q'
      using that b h r(2) by (auto simp: send_request_def born_def)
    ultimately show ?thesis by (rule fine_step_ok)
  qed
qed

lemma do_bind_frame: "do_bind ss = Some (r, ss1) \<Longrightarrow> frame ss ss1"
  by (auto simp: do_bind_def bind_eq_Some_conv split: if_splits dest!: sys_frame elim!: still_trans)

lemma do_listen_frame: "do_listen ss = Some (r, ss1) \<Longrightarrow> frame ss ss1"
  by (auto simp: do_listen_def bind_eq_Some_conv split: if_splits option.splits dest!: sys_frame do_bind_frame elim!: still_trans)

lemma clone_frame: "clone_buffer b ss = (c, ss1) \<Longrightarrow> frame ss ss1"
  by (auto simp: clone_buffer_def split: buffer_type.splits)

lemma free_buffer_frame [simp]: "frame ss (free_buffer b ss1) \<longleftrightarrow> frame ss ss1"
  by (simp add: free_buffer_def split: buffer_type.split)

lemma unlock_frame: "frame ss ss1 \<Longrightarrow> frame ss (socket_unlock i ss1)"
  by (simp add: socket_unlock_def frame_updI calm_def)

lemma lock_frame: "direct_lock sid ss = (r, ss1) \<Longrightarrow> frame ss ss1"
  by (auto simp: direct_lock_def Let_def frame_upd calm_def split: if_splits)

lemma inc_frame: "inc_sending_ref sid ss = Some ss1 \<Longrightarrow> frame ss ss1"
  by (auto simp: inc_sending_ref_def Let_def frame_upd calm_def split: if_splits)

lemma direct_send_frame: "direct_send i data ss = Some (r, ss1) \<Longrightarrow> frame ss ss1"
  by (auto simp: direct_send_def Let_def bind_eq_Some_conv split: if_splits dest: sys_frame)

lemma stat_write_frame: "frame ss ss1 \<Longrightarrow> frame ss (stat_write i n ss1)"
  by (simp add: stat_write_def frame_updI calm_def)

lemma direct_write_frame: "direct_write b ss = Some (r, ss1) \<Longrightarrow> frame ss ss1"
proof -
  assume "direct_write b ss = Some (r, ss1)"
  then obtain q ss2 where 2: "direct_send (HASH_ID (sb_id b)) (sb_data b) ss = Some (q, ss2)"
      "case q of None \<Rightarrow> ss1 = free_buffer b (socket_unlock (HASH_ID (sb_id b)) ss2)
       | Some n0 \<Rightarrow> let ss3 = stat_write (HASH_ID (sb_id b)) (max n0 0) ss2 in
           ss1 = free_buffer b (socket_unlock (HASH_ID (sb_id b)) ss3) \<or>
           (\<exists>c ss4 d. clone_buffer b ss3 = (c, ss4) \<and> ss1 = socket_unlock (HASH_ID (sb_id b)) (upd (HASH_ID (sb_id b)) (\<lambda>s. s\<lparr>sk_dw := d\<rparr>) ss4))"
    by (fastforce simp: direct_write_def Let_def bind_eq_Some_conv split: option.splits if_splits prod.splits)
  have f: "frame ss ss2" using direct_send_frame [OF 2(1)] .
  show ?thesis
  proof (cases q)
    case None
    then show ?thesis using 2(2) f unlock_frame by simp
  next
    case (Some n0)
    let ?ss3 = "stat_write (HASH_ID (sb_id b)) (max n0 0) ss2"
    have f3: "frame ss ?ss3" using f by (rule stat_write_frame)
    then have "frame ss ss4" if "clone_buffer b ?ss3 = (c, ss4)" for c ss4 using clone_frame [OF that] by (rule still_trans)
    then show ?thesis using 2(2) Some f3 unlock_frame by (auto simp: Let_def frame_updI calm_def)
  qed
qed

lemma enqueue_calls: "frame ss ss1 \<Longrightarrow> calls ss (send_enqueue p b ss1)"
proof -
  assume f: "frame ss ss1"
  obtain c ss2 where c: "clone_buffer b ss1 = (c, ss2)" by fastforce
  have "frame ss ss2" using f clone_frame [OF c] by (rule still_trans)
  then show ?thesis using c by (simp add: send_enqueue_def calls_request opens_def)
qed

lemma send_calls: "socket_server_send b ss = Some (x, ss') \<Longrightarrow> calls ss ss'"
proof -
  assume s: "socket_server_send b ss = Some (x, ss')"
  obtain l ss1 where l: "direct_lock (sb_id b) ss = (l, ss1)" by fastforce
  note f1 = lock_frame [OF l]
  show ?thesis
  proof (cases "send_refused (sb_id b) ss")
    case True
    then show ?thesis using s by (auto simp: socket_server_send_def Let_def intro!: calls_frame)
  next
    case refused: False
    show ?thesis
    proof (cases l)
      case True
      then obtain r ss2 where w: "direct_write b ss1 = Some (r, ss2)" "ss' = ss2 \<or> ss' = send_request (RTrigger (sb_id b)) ss2"
        using s l refused
        by (cases "direct_write b ss1"; cases "fst (the (direct_write b ss1))") (auto simp: socket_server_send_def Let_def)
      have "frame ss ss2" using f1 direct_write_frame [OF w(1)] by (rule still_trans)
      then show ?thesis using w(2) calls_frame calls_request by (auto simp: opens_def)
    next
      case False
      then obtain ss2 where w: "inc_sending_ref (sb_id b) ss1 = Some ss2" "ss' = send_enqueue HIGH b ss2"
        using s l refused by (auto simp: socket_server_send_def Let_def bind_eq_Some_conv)
      have "frame ss ss2" using f1 inc_frame [OF w(1)] by (rule still_trans)
      then show ?thesis using w(2) enqueue_calls by simp
    qed
  qed
qed

lemma send_low_calls: "socket_server_send_lowpriority b ss = Some (x, ss') \<Longrightarrow> calls ss ss'"
  by (auto simp: socket_server_send_lowpriority_def Let_def bind_eq_Some_conv split: if_splits
      dest!: inc_frame intro: enqueue_calls calls_frame)

lemma udp_send_calls: "socket_server_udp_send addr b ss = Some (x, ss') \<Longrightarrow> calls ss ss'"
proof -
  assume s: "socket_server_udp_send addr b ss = Some (x, ss')"
  let ?i = "HASH_ID (sb_id b)"
  obtain l ss1 where l: "direct_lock (sb_id b) ss = (l, ss1)" by fastforce
  note f1 = lock_frame [OF l]
  let ?p = "case direct_lock (sb_id b) ss of
      (True, ss1) \<Rightarrow> udp_socket_address (ss_slot ss1 ?i) addr \<bind> (\<lambda>ok.
        if \<not> ok then Some (Some False, free_buffer b (socket_unlock ?i ss1))
        else sys ss1 \<bind> (\<lambda>(n, ss2). if 0 \<le> n
          then Some (Some True, free_buffer b (socket_unlock ?i (stat_write ?i n (call (SSendto (sk_fd (ss_slot ss1 ?i)) (sb_data b) addr) ss2))))
          else Some (None, socket_unlock ?i ss2)))
    | (False, ss1) \<Rightarrow> Some (None, ss1)"
  from s consider "ss' = free_buffer b ss" | ok where "?p = Some (Some ok, ss')"
    | ss2 c ss3 a where "?p = Some (None, ss2)" "clone_buffer b ss2 = (c, ss3)" "ss' = send_request (RSendUdp (sb_id b) c a) ss3"
    by (cases "clone_buffer b (snd (the ?p))"; cases ?p; cases "fst (the ?p)")
      (auto simp: socket_server_udp_send_def Let_def bind_eq_Some_conv split: if_splits option.split_asm)
  then show ?thesis
  proof cases
    case (2 ok)
    then consider "ss' = free_buffer b (socket_unlock ?i ss1)" | n ss2 where "sys ss1 = Some (n, ss2)"
        "ss' = free_buffer b (socket_unlock ?i (stat_write ?i n (call (SSendto (sk_fd (ss_slot ss1 ?i)) (sb_data b) addr) ss2)))"
      using l by (cases l) (auto simp: bind_eq_Some_conv split: if_splits)
    then show ?thesis
    proof cases
      case 2
      have "frame ss ss2" using f1 sys_frame [OF 2(1)] by (rule still_trans)
      then show ?thesis using 2(2) by (simp add: calls_frame unlock_frame stat_write_frame)
    qed (simp add: calls_frame unlock_frame f1)
  next
    case (3 ss2 c ss3 a)
    then have "ss2 = ss1 \<or> (\<exists>n ss4. sys ss1 = Some (n, ss4) \<and> ss2 = socket_unlock ?i ss4)"
      using l by (cases l) (auto simp: bind_eq_Some_conv split: if_splits)
    then have "frame ss ss2" using f1 sys_frame still_trans unlock_frame by metis
    then have "frame ss ss3" using clone_frame [OF 3(2)] by (rule still_trans)
    then show ?thesis using 3(3) by (simp add: calls_request opens_def)
  qed (simp add: calls_frame)
qed

lemma udp_connect_calls: "socket_server_udp_connect sid ss = Some (x, ss') \<Longrightarrow> calls ss ss'"
proof -
  assume s: "socket_server_udp_connect sid ss = Some (x, ss')"
  let ?ss1 = "upd (HASH_ID sid) (\<lambda>s. s\<lparr>sk_udpconnecting := sk_udpconnecting s + 1\<rparr>) ss"
  have f: "frame ss ?ss1" by (simp add: frame_upd calm_def)
  from s consider "ss' = ss" | g where "sys_data ?ss1 = Some (g, ss')"
    | g ss2 a where "sys_data ?ss1 = Some (g, ss2)" "ss' = send_request (RSetUdp sid a) ss2"
    by (cases "sys_data ?ss1"; cases "fst (the (sys_data ?ss1))")
      (auto simp: socket_server_udp_connect_def Let_def bind_eq_Some_conv split: if_splits)
  then show ?thesis
  proof cases
    case 2
    have "frame ss ss'" using f sys_data_frame [OF 2(1)] by (rule still_trans)
    then show ?thesis by (rule calls_frame)
  next
    case 3
    have "frame ss ss2" using f sys_data_frame [OF 3(1)] by (rule still_trans)
    then show ?thesis using 3(2) by (simp add: calls_request opens_def)
  qed (simp add: calls_frame)
qed

lemma act_ok:
  assumes "act a ss = Some (r, ss')"
  shows "step_ok ss r ss'"
proof -
  have req: "step_ok ss None (send_request q ss)" if "opens q = None" for q
    using that by (intro calls_ok calls_request) simp_all
  show ?thesis
  proof (cases a)
    case ARound
    then show ?thesis using assms poll_round_ok by auto
  next
    case (AConnect opaque addr port)
    obtain q ss1 where q: "reserve_id ss = (q, ss1)" by fastforce
    show ?thesis
      using assms AConnect q reserve_ok [OF still_refl q] calls_ok [OF calls_frame [OF still_refl]]
      by (auto simp: quiet_def socket_server_connect_def open_request_def opens_def split: if_splits option.splits)
  next
    case (AListen opaque)
    then obtain p ss1 where p: "do_listen ss = Some (p, ss1)" using assms by (auto simp: quiet_def socket_server_listen_def bind_eq_Some_conv)
    have f: "frame ss ss1" using do_listen_frame [OF p] .
    obtain q ss2 where q: "reserve_id ss1 = (q, ss2)" by fastforce
    show ?thesis
      using assms AListen p q reserve_ok [OF f q] calls_ok [OF calls_frame [OF f]]
      by (auto simp: quiet_def socket_server_listen_def opens_def split: option.splits)
  next
    case (ABind opaque fd)
    obtain q ss1 where q: "reserve_id ss = (q, ss1)" by fastforce
    show ?thesis
      using assms ABind q reserve_ok [OF still_refl q] by (auto simp: quiet_def socket_server_bind_def opens_def split: option.splits)
  next
    case (AUdp opaque addr port)
    let ?p = "if port \<noteq> 0 \<or> addr \<noteq> None then do_bind ss
       else sys ss \<bind> (\<lambda>(fd, ss1). Some (if fd < 0 then None else Some (fd, False), ss1))"
    obtain p ss1 where p: "?p = Some (p, ss1)" using assms AUdp by (auto simp: quiet_def socket_server_udp_def bind_eq_Some_conv)
    have f: "frame ss ss1" using p do_bind_frame sys_frame by (auto simp: bind_eq_Some_conv split: if_splits)
    obtain q ss2 where q: "reserve_id ss1 = (q, ss2)" by fastforce
    show ?thesis
      using assms AUdp p q reserve_ok [OF f q] calls_ok [OF calls_frame [OF f]]
      by (auto simp: quiet_def socket_server_udp_def opens_def simp del: bind_eq_Some_conv split: option.splits)
  next
    case (ASend b)
    then show ?thesis using assms calls_ok [OF send_calls] by (auto simp: quiet_def)
  next
    case (ASend_low b)
    then show ?thesis using assms calls_ok [OF send_low_calls] by (auto simp: quiet_def)
  next
    case (AUdp_send addr b)
    then show ?thesis using assms calls_ok [OF udp_send_calls] by (auto simp: quiet_def)
  next
    case (AUdp_connect sid)
    then show ?thesis using assms calls_ok [OF udp_connect_calls] by (auto simp: quiet_def)
  next
    case (ALock sid)
    obtain l ss1 where l: "direct_lock sid ss = (l, ss1)" by fastforce
    then show ?thesis using assms ALock calls_ok [OF calls_frame [OF lock_frame [OF l]]] by (auto simp: quiet_def)
  next
    case (AWrite b)
    then show ?thesis using assms calls_ok [OF calls_frame [OF direct_write_frame]] by (auto simp: quiet_def)
  next
    case (ACount sid)
    then show ?thesis using assms calls_ok [OF calls_frame [OF inc_frame]] by auto
  next
    case (AEnqueue p b)
    then show ?thesis using assms calls_ok [OF enqueue_calls [OF still_refl]] by auto
  next
    case (ATime t)
    have "frame ss (ss\<lparr>ss_time := t\<rparr>)" by (simp add: frame_def)
    then show ?thesis using assms ATime calls_ok [OF calls_frame] by (auto simp: socket_server_updatetime_def)
  qed (use assms req in \<open>auto simp: opens_def socket_server_close_def socket_server_shutdown_def socket_server_start_def
      socket_server_pause_def socket_server_nodelay_def socket_server_exit_def\<close>)
qed

subsection \<open>Once per connection\<close>

fun runs :: "action list \<Rightarrow> server \<Rightarrow> server option" where
  "runs [] ss = Some ss"
| "runs (a # as) ss = do { (_, ss1) \<leftarrow> act a ss; runs as ss1 }"

text \<open>How often the message is raised for \<open>sid\<close>.\<close>

fun count_close :: "u32 \<Rightarrow> action list \<Rightarrow> server \<Rightarrow> nat option" where
  "count_close sid [] ss = Some 0"
| "count_close sid (a # as) ss = do {
     (r, ss1) \<leftarrow> act a ss;
     n \<leftarrow> count_close sid as ss1;
     Some (if closes sid r then Suc n else n) }"

fun never_handed :: "u32 \<Rightarrow> action list \<Rightarrow> server \<Rightarrow> bool" where
  "never_handed sid [] ss \<longleftrightarrow> True"
| "never_handed sid (a # as) ss \<longleftrightarrow>
     (case act a ss of None \<Rightarrow> True | Some (_, ss1) \<Rightarrow> \<not> handed sid ss ss1 \<and> never_handed sid as ss1)"

lemma runs_hashed: "runs as ss = Some ss' \<Longrightarrow> hashed ss \<Longrightarrow> hashed ss'"
proof (induction as arbitrary: ss)
  case (Cons a as)
  then obtain r ss1 where "act a ss = Some (r, ss1)" "runs as ss1 = Some ss'" by (auto simp: bind_eq_Some_conv)
  with act_ok Cons show ?case unfolding step_ok_def by blast
qed simp

lemma count_close_bound:
  assumes "hashed ss" "settled sid ss" "never_handed sid as ss" "count_close sid as ss = Some n"
  shows "n \<le> 1 \<and> (gone sid ss \<longrightarrow> n = 0)"
  using assms
proof (induction as arbitrary: ss n)
  case (Cons a as)
  then obtain r ss1 m where a: "act a ss = Some (r, ss1)" "count_close sid as ss1 = Some m" "n = (if closes sid r then Suc m else m)"
    by (auto simp: bind_eq_Some_conv)
  then have "\<not> handed sid ss ss1" "never_handed sid as ss1" using Cons.prems(3) by auto
  moreover from this have ok: "hashed ss1" "settled sid ss1" "gone sid ss \<Longrightarrow> gone sid ss1" "closes sid r \<Longrightarrow> \<not> gone sid ss \<and> gone sid ss1"
    using act_ok [OF a(1)] Cons.prems(1,2) by (auto simp: step_ok_def)
  ultimately show ?case using Cons.IH [OF ok(1,2) _ a(2)] a(3) by auto
qed simp

text \<open>
  C39. \<open>SOCKET_CLOSE\<close> is raised at most once for a connection, as the comment at \<open>close_socket\<close> promises: in every run of the
  server from its creation, with any calls of other threads between the rounds of the loop and any answers of the system,
  from any moment when no request to open \<open>sid\<close> is left in the pipe, the message comes at most once for \<open>sid\<close> while the id is
  not handed out again.
\<close>

theorem close_raised_once:
  assumes "runs as0 ((socket_server_create now sr)\<lparr>ss_waits := ws\<rparr>) = Some ss"
    and "settled sid ss" "never_handed sid as ss" "count_close sid as ss = Some n"
  shows "n \<le> 1"
proof -
  have "hashed ((socket_server_create now sr)\<lparr>ss_waits := ws\<rparr>)" by (simp add: hashed_def socket_server_create_def socket_0_def)
  with runs_hashed [OF assms(1)] count_close_bound assms show ?thesis by blast
qed

text \<open>A descriptor is bound and then closed twice.\<close>

theorem close_raised_once_witness:
  "\<exists>ss. runs [ABind 1 9, ARound] ((socket_server_create 0 [Ret 0])\<lparr>ss_waits := []\<rparr>) = Some ss \<and>
    count_close 1 [AClose 1 1, ARound, AClose 1 1, ARound] ss = Some 1 \<and> (1::nat) \<le> 1"
proof -
  let ?s0 = "(socket_server_create 0 [Ret 0])\<lparr>ss_waits := []\<rparr>"
  have "next_id 0 = 1" by (simp add: next_id_def word_sless_alt)
  then have "reserve_loop (Suc 65535) ?s0 = (Some 1, reserved 1 ?s0)"
    unfolding reserve_loop_next by (simp add: Let_def del: reserved_alloc) (simp add: socket_server_create_def socket_0_def)
  then have "reserve_id ?s0 = (Some 1, reserved 1 ?s0)" by (simp add: reserve_id_def MAX_SOCKET_def)
  then have b: "act (ABind 1 9) ?s0 = Some (None, send_request (RBind 1 9 1) (reserved 1 ?s0))"
    by (simp add: socket_server_bind_def quiet_def)
  have h: "HASH_ID 1 = 1" by (simp add: HASH_ID_def MAX_SOCKET_def)
  let ?open = "\<lambda>ss. ss_pipe ss = [] \<and> ss_checkctrl ss \<and> ss_alloc_id ss = 1 \<and> (let s = ss_slot ss 1 in
    sk_id s = 1 \<and> sk_type s = TY_BIND \<and> sk_high s = [] \<and> sk_low s = [] \<and> sk_dw s = None \<and> sk_sending s mod 2 ^ 16 = 0 \<and> \<not> sk_locked s)"
  have "\<exists>r ss. act ARound (send_request (RBind 1 9 1) (reserved 1 ?s0)) = Some (r, ss) \<and> ?open ss"
    by (simp add: poll_round_def send_request_def reserved_def socket_server_create_def socket_0_def ctrl_cmd_def bind_socket_def new_fd_def
        h Let_def sys_def call_def upd_def new_socket_def enable_read_def clear_closed_event_def)
  then obtain r ss where o: "act ARound (send_request (RBind 1 9 1) (reserved 1 ?s0)) = Some (r, ss)" "?open ss" by blast
  let ?gone = "\<lambda>ss. ss_pipe ss = [] \<and> ss_checkctrl ss \<and> ss_alloc_id ss = 1 \<and> sk_type (ss_slot ss 1) = TY_INVALID"
  have "\<exists>m ss2. act ARound (socket_server_close 1 1 ss) = Some (Some (SOCKET_CLOSE, m), ss2) \<and> sm_id m = 1 \<and> ?gone ss2"
    using o(2)
    by (simp add: poll_round_def socket_server_close_def send_request_def ctrl_cmd_def close_socket_def socket_invalid_def nomore_sending_data_def
        send_buffer_empty_def force_close_def free_list_def halfclose_read_def message_of_def clear_closed_event_def h Let_def call_def upd_def)
  then obtain m ss2 where c: "act ARound (socket_server_close 1 1 ss) = Some (Some (SOCKET_CLOSE, m), ss2)" "sm_id m = 1" "?gone ss2"
    by blast
  have "\<exists>ss3. act ARound (socket_server_close 1 1 ss2) = Some (None, ss3) \<and> ?gone ss3"
    using c(3) by (simp add: poll_round_def socket_server_close_def send_request_def ctrl_cmd_def close_socket_def socket_invalid_def h Let_def)
  then obtain ss3 where d: "act ARound (socket_server_close 1 1 ss2) = Some (None, ss3)" "?gone ss3" by blast
  have run: "runs [ABind 1 9, ARound] ?s0 = Some ss" using b o(1) by (simp del: act.simps)
  have count: "count_close 1 [AClose 1 1, ARound, AClose 1 1, ARound] ss = Some 1"
    using c d by (simp add: closes_def del: act.simps(1))
  have settled: "settled 1 ss" using o(2) by (simp add: settled_def)
  have never: "never_handed 1 [AClose 1 1, ARound, AClose 1 1, ARound] ss"
    using o(2) c d by (simp add: handed_def socket_server_close_def send_request_def del: act.simps(1))
  have "(1::nat) \<le> 1" by (rule close_raised_once [OF run settled never count])
  then show ?thesis using run count by blast
qed

end
