(* ===== verification/Socket_Stream.thy ===== *)
theory Socket_Stream
  imports Socket_Poll
begin

section \<open>The byte stream of a connection\<close>

text \<open>
  Many threads send packages to a socket: some write directly under the lock of the socket, the others count themselves and put
  their package into the pipe, and the socket thread keeps two lists and writes what the system takes. The theorem says what
  comes out: whole packages, none twice, and the packages of each priority in the order in which they were sent.

  A step is one of the pieces into which \<open>socket_server_send\<close> and \<open>socket_server_send_lowpriority\<close> are cut, or an operation of
  the socket thread on this socket, with any answers of the system.
\<close>

subsection \<open>What is on the wire and what is left\<close>

definition rest :: "write_buffer \<Rightarrow> bytes" where
  "rest w = drop (wr_done w) (bl_data (wr_blob w))"

definition written :: "int \<Rightarrow> syscall list \<Rightarrow> bytes" where
  "written fd log = concat (map (\<lambda>c. case c of SWrite f bs \<Rightarrow> if f = fd then bs else [] | _ \<Rightarrow> []) log)"

definition of_prio :: "priority \<Rightarrow> (priority \<times> bytes) list \<Rightarrow> bytes list" where
  "of_prio p xs = map snd (filter (\<lambda>x. fst x = p) xs)"

definition low_of :: "priority \<Rightarrow> write_buffer list \<Rightarrow> bytes list" where
  "low_of p ws = (if p = LOW then map (\<lambda>w. bl_data (wr_blob w)) ws else [])"

fun pipe_of :: "priority \<Rightarrow> request list \<Rightarrow> bytes list" where
  "pipe_of p [] = []"
| "pipe_of p (RSend q sid b # rs) = (if q = p then bl_data b # pipe_of p rs else pipe_of p rs)"
| "pipe_of p (r # rs) = pipe_of p rs"

lemma pipe_of_append [simp]: "pipe_of p (rs @ qs) = pipe_of p rs @ pipe_of p qs"
  by (induction p rs rule: pipe_of.induct) auto

lemma of_prio_simps [simp]:
  "of_prio p [] = []" "of_prio p (xs @ ys) = of_prio p xs @ of_prio p ys"
  "of_prio p ((q, d) # xs) = (if q = p then d # of_prio p xs else of_prio p xs)"
  by (simp_all add: of_prio_def)

lemma written_simps [simp]:
  "written fd [] = []" "written fd (log @ log') = written fd log @ written fd log'"
  "written fd (SWrite f bs # log) = (if f = fd then bs else []) @ written fd log"
  "written fd (SpEnable f a b # log) = written fd log" "written fd (SShutdown f a # log) = written fd log"
  "written fd (SClose f # log) = written fd log" "written fd (SpDel f # log) = written fd log"
  "written fd (SSetopt f w v # log) = written fd log"
  by (simp_all add: written_def)

text \<open>
  The packages whose place in the stream is fixed are \<open>cm\<close>: they are written, or wait in the direct write \<open>pnd\<close> or the high list.
  Behind them are the low list and the pipe.
\<close>

definition flow :: "socket \<Rightarrow> bytes \<Rightarrow> bytes \<Rightarrow> request list \<Rightarrow> (priority \<times> bytes) list \<Rightarrow> bool" where
  "flow s pnd wr pipe issued \<longleftrightarrow> (\<exists>cm. wr @ pnd @ concat (map rest (sk_high s)) = concat (map snd cm) \<and>
     (\<forall>p. of_prio p issued = of_prio p cm @ low_of p (sk_low s) @ pipe_of p pipe))"

definition queue_ok :: "socket \<Rightarrow> bool" where
  "queue_ok s \<longleftrightarrow> sk_wb_size s = int (sum_list (map wr_sz (sk_high s @ sk_low s))) \<and>
     (\<forall>w \<in> set (sk_low s). wr_done w = 0 \<and> bl_addr (wr_blob w) = bl_ptr (wr_blob w))"

definition live :: "u32 \<Rightarrow> socket \<Rightarrow> bool" where
  "live sid s \<longleftrightarrow> sk_id s = sid \<and> sk_protocol s = PROTOCOL_TCP \<and> \<not> sk_closing s \<and>
     (sk_type s = TY_CONNECTED \<or> sk_type s = TY_HALFCLOSE_READ)"

text \<open>The fields that matter are the same.\<close>

definition alike :: "socket \<Rightarrow> socket \<Rightarrow> bool" where
  "alike s s' \<longleftrightarrow> sk_id s' = sk_id s \<and> sk_protocol s' = sk_protocol s \<and> sk_closing s' = sk_closing s \<and> sk_fd s' = sk_fd s \<and>
     sk_high s' = sk_high s \<and> sk_low s' = sk_low s \<and> sk_wb_size s' = sk_wb_size s \<and> sk_sending s' = sk_sending s \<and>
     sk_dw s' = sk_dw s \<and> sk_locked s' = sk_locked s \<and> sk_udpconnecting s' = sk_udpconnecting s"

definition quietly :: "nat \<Rightarrow> server \<Rightarrow> server \<Rightarrow> bool" where
  "quietly i ss ss' \<longleftrightarrow> ss_pipe ss' = ss_pipe ss \<and> alike (ss_slot ss i) (ss_slot ss' i) \<and>
     (\<forall>fd. written fd (ss_log ss') = written fd (ss_log ss))"

lemma alike_refl [simp]: "alike s s"
  by (simp add: alike_def)

lemma alike_trans: "alike s s1 \<Longrightarrow> alike s1 s2 \<Longrightarrow> alike s s2"
  by (simp add: alike_def)

lemma quietly_refl [simp]: "quietly i ss ss"
  by (simp add: quietly_def)

lemma quietly_trans: "quietly i ss ss1 \<Longrightarrow> quietly i ss1 ss2 \<Longrightarrow> quietly i ss ss2"
  by (auto simp: quietly_def intro: alike_trans)

lemma quietly_sys: "sys ss = Some (n, ss1) \<Longrightarrow> quietly i ss ss1 \<and> ss_slot ss1 = ss_slot ss"
  by (auto simp: sys_def quietly_def split: list.splits sysret.splits)

lemma quietly_upd: "quietly i ss ss1 \<Longrightarrow> alike (ss_slot ss1 i) (f (ss_slot ss1 i)) \<Longrightarrow> quietly i ss (upd i f ss1)"
  by (auto simp: quietly_def intro: alike_trans)

lemma quietly_sys_of [simp]: "quietly i ss (ss1\<lparr>ss_sys := rs\<rparr>) \<longleftrightarrow> quietly i ss ss1" "quietly i (ss\<lparr>ss_sys := rs\<rparr>) ss1 \<longleftrightarrow> quietly i ss ss1"
  by (simp_all add: quietly_def)

lemma enable_quietly:
  assumes "enable_write i b ss = Some (e, ss1) \<or> enable_read i b ss = Some (e, ss1)"
  shows "quietly i ss ss1" "sk_type (ss_slot ss1 i) = sk_type (ss_slot ss i)"
proof -
  have *: "quietly i ss ss1 \<and> sk_type (ss_slot ss1 i) = sk_type (ss_slot ss i)"
    if "sys (call (SpEnable f x y) (upd i g ss)) = Some (n, ss1)" "alike (ss_slot ss i) (g (ss_slot ss i))"
      "sk_type (g (ss_slot ss i)) = sk_type (ss_slot ss i)" for f x y g n
  proof -
    have "quietly i ss (call (SpEnable f x y) (upd i g ss))" using that(2) by (simp add: quietly_def)
    then show ?thesis using quietly_sys [OF that(1), of i] quietly_trans that(3) by auto
  qed
  have "quietly i ss ss1 \<and> sk_type (ss_slot ss1 i) = sk_type (ss_slot ss i)"
    using assms by (auto simp: enable_write_def enable_read_def Let_def bind_eq_Some_conv alike_def split: if_splits dest!: *)
  then show "quietly i ss ss1" "sk_type (ss_slot ss1 i) = sk_type (ss_slot ss i)" by auto
qed

lemma warn_quietly: "warn_queue i ss = (r, ss1) \<Longrightarrow> quietly i ss ss1 \<and> sk_type (ss_slot ss1 i) = sk_type (ss_slot ss i)"
  by (auto simp: warn_queue_def Let_def quietly_def alike_def split: if_splits)

subsection \<open>Writing a list\<close>

lemma length_rest: "length (rest w) = wr_sz w"
  by (simp add: rest_def wr_sz_def)

lemma get_set_list [simp]: "get_list p (set_list p ws s) = ws" "sk_wb_size (set_list p ws s) = sk_wb_size s"
  "sk_type (set_list p ws s) = sk_type s" "sk_fd (set_list p ws s) = sk_fd s"
  by (simp_all add: get_list_def set_list_def split: priority.split)

text \<open>The list \<open>us @ vs\<close> after \<open>us\<close> is written, and perhaps a part of the first of \<open>vs\<close>; with the bytes that were written.\<close>

definition wrote :: "write_buffer list \<Rightarrow> write_buffer list \<Rightarrow> bytes \<Rightarrow> bool" where
  "wrote ws ws' bs \<longleftrightarrow> (\<exists>us vs. ws = us @ vs \<and> (ws' = vs \<and> bs = concat (map rest us) \<or>
     (\<exists>w v n. vs = w # v \<and> 0 < n \<and> n < wr_sz w \<and> ws' = w\<lparr>wr_done := wr_done w + n\<rparr> # v \<and> bs = concat (map rest us) @ take n (rest w))))"

lemma wrote_refl [simp]: "wrote ws ws []"
  unfolding wrote_def by (rule exI [of _ "[]"]) simp

lemma wrote_Cons: "wrote ws ws' bs \<Longrightarrow> wrote (w # ws) ws' (rest w @ bs)"
  unfolding wrote_def by (elim exE conjE, rule_tac x = "w # us" in exI) auto

lemma wrote_part: "n < wr_sz w \<Longrightarrow> wrote (w # ws) (w\<lparr>wr_done := wr_done w + n\<rparr> # ws) (take n (rest w))"
proof (cases "n = 0")
  case False
  assume "n < wr_sz w"
  with False show ?thesis
    unfolding wrote_def by (intro exI [of _ "[]"] exI [of _ "w # ws"] conjI disjI2) auto
qed simp

lemma wrote_conserves:
  assumes "wrote ws ws' bs"
  shows "bs @ concat (map rest ws') = concat (map rest ws)"
    "int (sum_list (map wr_sz ws')) = int (sum_list (map wr_sz ws)) - int (length bs)"
proof -
  have *: "take n (rest w) @ rest (w\<lparr>wr_done := wr_done w + n\<rparr>) = rest w" for n w
    by (simp add: rest_def add.commute flip: drop_drop)
  show c: "bs @ concat (map rest ws') = concat (map rest ws)" using assms * by (fastforce simp: wrote_def)
  have "sum_list (map wr_sz us) = length (concat (map rest us))" for us by (induction us) (simp_all add: length_rest)
  then show "int (sum_list (map wr_sz ws')) = int (sum_list (map wr_sz ws)) - int (length bs)" using c [symmetric] by simp
qed

definition opposite :: "priority \<Rightarrow> priority" where
  "opposite p = (case p of HIGH \<Rightarrow> LOW | LOW \<Rightarrow> HIGH)"

definition sent :: "priority \<Rightarrow> socket \<Rightarrow> socket \<Rightarrow> bytes \<Rightarrow> bool" where
  "sent p s s' bs \<longleftrightarrow> sk_id s' = sk_id s \<and> sk_protocol s' = sk_protocol s \<and> sk_closing s' = sk_closing s \<and> sk_fd s' = sk_fd s \<and>
     sk_type s' = sk_type s \<and> sk_sending s' = sk_sending s \<and> sk_dw s' = sk_dw s \<and> sk_locked s' = sk_locked s \<and>
     get_list (opposite p) s' = get_list (opposite p) s \<and> wrote (get_list p s) (get_list p s') bs \<and>
     sk_wb_size s' = sk_wb_size s - int (length bs)"

definition sends_to :: "nat \<Rightarrow> priority \<Rightarrow> server \<Rightarrow> bytes \<Rightarrow> server \<Rightarrow> bool" where
  "sends_to i p ss bs ss' \<longleftrightarrow> sent p (ss_slot ss i) (ss_slot ss' i) bs \<and> ss_pipe ss' = ss_pipe ss \<and>
     written (sk_fd (ss_slot ss i)) (ss_log ss') = written (sk_fd (ss_slot ss i)) (ss_log ss) @ bs"

lemma sent_refl: "sent p s s []"
  by (simp add: sent_def)

lemma opposite_list [simp]: "get_list (opposite p) (set_list p ws s) = get_list (opposite p) s"
  by (simp add: get_list_def set_list_def opposite_def split: priority.split)

lemma set_list_fields [simp]: "sk_id (set_list p ws s) = sk_id s" "sk_protocol (set_list p ws s) = sk_protocol s"
  "sk_closing (set_list p ws s) = sk_closing s" "sk_sending (set_list p ws s) = sk_sending s" "sk_dw (set_list p ws s) = sk_dw s"
  "sk_locked (set_list p ws s) = sk_locked s" "sk_udpconnecting (set_list p ws s) = sk_udpconnecting s"
  by (simp_all add: set_list_def split: priority.split)

lemma get_list_update [simp]: "get_list p (s\<lparr>sk_wb_size := n\<rparr>) = get_list p s" "get_list p (s\<lparr>sk_write := a, sk_wtime := b\<rparr>) = get_list p s"
  by (simp_all add: get_list_def split: priority.split)

lemma close_write_ends:
  assumes "close_write i n ss = Some (r, ss1)" "\<not> sk_closing (ss_slot ss i)"
    "sk_type (ss_slot ss i) = TY_CONNECTED \<or> sk_type (ss_slot ss i) = TY_HALFCLOSE_READ"
  shows "r \<noteq> None \<and> sk_type (ss_slot ss1 i) \<noteq> TY_CONNECTED \<and> sk_type (ss_slot ss1 i) \<noteq> TY_HALFCLOSE_READ"
  using assms(3)
proof
  assume "sk_type (ss_slot ss i) = TY_CONNECTED"
  then obtain e ss2 where "enable_write i False (call (SShutdown (sk_fd (ss_slot ss i)) True)
      (upd i (\<lambda>s. s\<lparr>sk_type := TY_HALFCLOSE_WRITE\<rparr>) ss)) = Some (e, ss2)" "r \<noteq> None" "ss1 = ss2"
    using assms(1,2) by (auto simp: close_write_def Let_def bind_eq_Some_conv report_error_def)
  then show ?thesis using enable_quietly(2) by (fastforce simp: call_def)
next
  assume "sk_type (ss_slot ss i) = TY_HALFCLOSE_READ"
  then show ?thesis
    using assms(1) by (auto simp: close_write_def Let_def force_close_def bind_eq_Some_conv)
qed

lemma send_list_tcp_writes:
  assumes "send_list_tcp i p ss = Some (r, ss')" "\<not> sk_closing (ss_slot ss i)"
    "sk_type (ss_slot ss i) = TY_CONNECTED \<or> sk_type (ss_slot ss i) = TY_HALFCLOSE_READ"
  shows "(r = None \<longrightarrow> (\<exists>bs. sends_to i p ss bs ss')) \<and>
    (r \<noteq> None \<longrightarrow> sk_type (ss_slot ss' i) \<noteq> TY_CONNECTED \<and> sk_type (ss_slot ss' i) \<noteq> TY_HALFCLOSE_READ)"
  using assms
proof (induction i p ss rule: send_list_tcp.induct)
  case (1 i p ss)
  let ?s = "ss_slot ss i"
  show ?case
  proof (cases "get_list p ?s")
    case Nil
    then have "r = None" "ss' = ss" using "1.prems"(1) by (simp_all add: send_list_tcp.simps [of i p ss])
    then show ?thesis by (auto simp: sends_to_def sent_refl intro: exI [of _ "[]"])
  next
    case (Cons w ws)
    obtain n ss1 where q: "sys ss = Some (n, ss1)"
      using "1.prems"(1) by (cases "sys ss") (auto simp: send_list_tcp.simps [of i p ss] Cons)
    note IH = "1.IH" [OF Cons q refl]
    have ss1: "ss_slot ss1 = ss_slot ss" "ss_pipe ss1 = ss_pipe ss" "ss_log ss1 = ss_log ss"
      using q by (auto simp: sys_def split: list.splits sysret.splits)
    have refl1: "sends_to i p ss [] ss1" using ss1 by (simp add: sends_to_def sent_refl)
    show ?thesis
    proof (cases "n < 0")
      case True
      consider "n = E_INTR" | "n \<noteq> E_INTR" "n = E_AGAIN" | "n \<noteq> E_INTR" "n \<noteq> E_AGAIN" by blast
      then show ?thesis
      proof cases
        case 1
        then have "send_list_tcp i p ss1 = Some (r, ss')" using "1.prems"(1) True by (simp add: send_list_tcp.simps [of i p ss] Cons q)
        then show ?thesis using IH(1) True 1 "1.prems"(2,3) ss1 by (simp add: sends_to_def)
      next
        case 2
        then show ?thesis using "1.prems"(1) True refl1 by (auto simp: send_list_tcp.simps [of i p ss] Cons q)
      next
        case 3
        then have "close_write i n ss1 = Some (r, ss')" using "1.prems"(1) True by (simp add: send_list_tcp.simps [of i p ss] Cons q)
        then show ?thesis using close_write_ends [of i n ss1] "1.prems"(2,3) ss1 by auto
      qed
    next
      case False
      let ?bs = "take (nat n) (rest w)"
      let ?ss2 = "call (SWrite (sk_fd (ss_slot ss1 i)) (take (nat n) (drop (wr_done w) (bl_data (wr_blob w))))) ss1"
      let ?ss3 = "upd i (\<lambda>s. s\<lparr>sk_wb_size := sk_wb_size s - n\<rparr>) (stat_write i n ?ss2)"
      let ?ss4 = "write_buffer_free w (upd i (set_list p ws) ?ss3)"
      have n: "n \<le> int (wr_sz w)" using "1.prems"(1) False by (simp add: send_list_tcp.simps [of i p ss] Cons q)
      then have len: "int (length ?bs) = n" using False by (simp add: length_rest)
      have log3: "written (sk_fd ?s) (ss_log ?ss3) = written (sk_fd ?s) (ss_log ss) @ ?bs"
        using ss1 by (simp add: stat_write_def rest_def)
      show ?thesis
      proof (cases "nat n = wr_sz w")
        case True
        have rec: "send_list_tcp i p ?ss4 = Some (r, ss')"
          using "1.prems"(1) False n True by (simp add: send_list_tcp.simps [of i p ss] Cons q Let_def)
        have IH4: "(r = None \<longrightarrow> (\<exists>bs. sends_to i p ?ss4 bs ss')) \<and>
            (r \<noteq> None \<longrightarrow> sk_type (ss_slot ss' i) \<noteq> TY_CONNECTED \<and> sk_type (ss_slot ss' i) \<noteq> TY_HALFCLOSE_READ)"
          using IH(2) [OF False _ refl refl _ rec] n True "1.prems"(2,3) ss1
          by (simp add: write_buffer_free_def free_blob_def stat_write_def)
        have "sends_to i p ss (rest w @ bs) ss'" if "sends_to i p ?ss4 bs ss'" for bs
        proof -
          have "?bs = rest w" using True by (simp add: length_rest)
          then show ?thesis
            using that log3 ss1 Cons len True wrote_Cons
            by (auto simp: sends_to_def sent_def write_buffer_free_def free_blob_def stat_write_def length_rest)
        qed
        with IH4 show ?thesis by blast
      next
        case part: False
        then have r: "r = None" "ss' = upd i (set_list p (w\<lparr>wr_done := wr_done w + nat n\<rparr> # ws)) ?ss3"
          using "1.prems"(1) False n by (simp_all add: send_list_tcp.simps [of i p ss] Cons q Let_def)
        have "wrote (w # ws) (w\<lparr>wr_done := wr_done w + nat n\<rparr> # ws) ?bs" using n part by (intro wrote_part) linarith
        then have "sends_to i p ss ?bs ss'"
          using log3 ss1 Cons len r(2) by (simp add: sends_to_def sent_def stat_write_def)
        then show ?thesis using r by blast
      qed
    qed
  qed
qed

subsection \<open>The write event\<close>

definition core :: "u32 \<Rightarrow> bytes \<Rightarrow> (priority \<times> bytes) list \<Rightarrow> server \<Rightarrow> bool" where
  "core sid pnd issued ss \<longleftrightarrow> (let s = ss_slot ss (HASH_ID sid) in
     live sid s \<and> queue_ok s \<and> flow s pnd (written (sk_fd s) (ss_log ss)) (ss_pipe ss) issued)"

definition steady :: "nat \<Rightarrow> server \<Rightarrow> server \<Rightarrow> bool" where
  "steady i ss ss' \<longleftrightarrow> ss_pipe ss' = ss_pipe ss \<and> sk_sending (ss_slot ss' i) = sk_sending (ss_slot ss i) \<and>
     sk_locked (ss_slot ss' i) = sk_locked (ss_slot ss i)"

text \<open>After a step the socket is no longer open, or the invariant holds again.\<close>

definition is_open :: "socket \<Rightarrow> bool" where
  "is_open s \<longleftrightarrow> sk_type s = TY_CONNECTED \<or> sk_type s = TY_HALFCLOSE_READ"

lemma core_quietly:
  assumes "core sid pnd issued ss" "quietly (HASH_ID sid) ss ss'" "is_open (ss_slot ss' (HASH_ID sid))"
  shows "core sid pnd issued ss'"
  using assms by (auto simp: core_def Let_def quietly_def alike_def live_def queue_ok_def flow_def is_open_def)

lemma flow_high:
  assumes "flow s pnd wr pipe issued" "pnd = []" "wrote (sk_high s) (sk_high s') bs" "sk_low s' = sk_low s"
  shows "flow s' pnd (wr @ bs) pipe issued"
  using assms wrote_conserves(1) [OF assms(3)] by (auto simp: flow_def)

lemma send_finished_quietly:
  assumes "send_finished i ss = Some (r, ss')" "\<not> sk_closing (ss_slot ss i)"
  shows "quietly i ss ss'"
proof -
  obtain e ss1 where e: "enable_write i False ss = Some (e, ss1)" "ss' = ss1 \<or> ss' = upd i (\<lambda>s. s\<lparr>sk_warn_size := 0\<rparr>) ss1"
    using assms by (auto simp: send_finished_def Let_def bind_eq_Some_conv report_error_def split: if_splits)
  have "quietly i ss ss1" using e(1) enable_quietly(1) by blast
  then show ?thesis using e(2) quietly_upd by (auto simp: alike_def)
qed

lemma quietly_steady: "quietly i ss ss' \<Longrightarrow> steady i ss ss' \<and> sk_dw (ss_slot ss' i) = sk_dw (ss_slot ss i)"
  by (simp add: quietly_def alike_def steady_def)

lemma steady_trans: "steady i ss ss1 \<Longrightarrow> steady i ss1 ss2 \<Longrightarrow> steady i ss ss2"
  by (simp add: steady_def)

lemma low_rest: "wr_done w = 0 \<Longrightarrow> rest w = bl_data (wr_blob w)"
  by (simp add: rest_def)

lemma flow_low:
  assumes "flow s [] wr pipe issued" "sk_high s = []" "sk_low s = us @ vs" "\<forall>w \<in> set us. wr_done w = 0"
    "sk_high s' = []" "sk_low s' = vs"
  shows "flow s' [] (wr @ concat (map rest us)) pipe issued"
proof -
  obtain cm where cm: "wr = concat (map snd cm)" "\<And>p. of_prio p issued = of_prio p cm @ low_of p (us @ vs) @ pipe_of p pipe"
    using assms(1-3) by (auto simp: flow_def)
  let ?cm = "cm @ map (\<lambda>w. (LOW, bl_data (wr_blob w))) us"
  have "concat (map snd ?cm) = wr @ concat (map rest us)" using assms(4) cm(1) by (simp add: comp_def low_rest cong: map_cong)
  moreover have "of_prio p issued = of_prio p ?cm @ low_of p vs @ pipe_of p pipe" for p
    using cm(2) by (auto simp: low_of_def of_prio_def comp_def)
  ultimately show ?thesis unfolding flow_def using assms(5,6) by (intro exI [of _ ?cm]) auto
qed

lemma flow_raise:
  assumes "flow s [] wr pipe issued" "sk_high s = []" "sk_low s = w # v" "wr_done w = 0" "n < wr_sz w"
    "sk_high s' = [w\<lparr>wr_done := n\<rparr>]" "sk_low s' = v"
  shows "flow s' [] (wr @ take n (rest w)) pipe issued"
proof -
  obtain cm where cm: "wr = concat (map snd cm)" "\<And>p. of_prio p issued = of_prio p cm @ low_of p (w # v) @ pipe_of p pipe"
    using assms(1-3) by (auto simp: flow_def)
  let ?cm = "cm @ [(LOW, bl_data (wr_blob w))]"
  have "concat (map snd ?cm) = (wr @ take n (rest w)) @ rest (w\<lparr>wr_done := n\<rparr>)" using assms(4) cm(1) by (simp add: rest_def)
  moreover have "of_prio p issued = of_prio p ?cm @ low_of p v @ pipe_of p pipe" for p using cm(2) by (auto simp: low_of_def)
  ultimately show ?thesis unfolding flow_def using assms(6,7) by (intro exI [of _ ?cm]) auto
qed

definition keeps :: "u32 \<Rightarrow> (priority \<times> bytes) list \<Rightarrow> server \<Rightarrow> server \<Rightarrow> bool" where
  "keeps sid issued ss ss' \<longleftrightarrow> (is_open (ss_slot ss' (HASH_ID sid)) \<longrightarrow>
     core sid [] issued ss' \<and> steady (HASH_ID sid) ss ss' \<and> sk_dw (ss_slot ss' (HASH_ID sid)) = sk_dw (ss_slot ss (HASH_ID sid)))"

lemma keeps_step:
  assumes "core sid [] issued ss1" "steady (HASH_ID sid) ss ss1" "sk_dw (ss_slot ss1 (HASH_ID sid)) = sk_dw (ss_slot ss (HASH_ID sid))"
    "quietly (HASH_ID sid) ss1 ss'"
  shows "keeps sid issued ss ss'"
  using assms core_quietly quietly_steady [OF assms(4)] steady_trans by (auto simp: keeps_def)

lemma send_high_core:
  assumes "core sid [] issued ss" "sends_to (HASH_ID sid) HIGH ss bs ss1"
  shows "core sid [] issued ss1 \<and> steady (HASH_ID sid) ss ss1 \<and> sk_dw (ss_slot ss1 (HASH_ID sid)) = sk_dw (ss_slot ss (HASH_ID sid))"
proof -
  let ?s = "ss_slot ss (HASH_ID sid)" and ?s1 = "ss_slot ss1 (HASH_ID sid)"
  have w: "wrote (sk_high ?s) (sk_high ?s1) bs" "sk_low ?s1 = sk_low ?s" "sk_wb_size ?s1 = sk_wb_size ?s - int (length bs)"
      "ss_pipe ss1 = ss_pipe ss" "written (sk_fd ?s1) (ss_log ss1) = written (sk_fd ?s) (ss_log ss) @ bs"
    using assms(2) by (simp_all add: sends_to_def sent_def get_list_def opposite_def)
  have "flow ?s1 [] (written (sk_fd ?s1) (ss_log ss1)) (ss_pipe ss1) issued"
    using assms(1) w flow_high [OF _ refl w(1,2)] by (simp add: core_def Let_def)
  moreover have "queue_ok ?s1" using assms(1) w wrote_conserves(2) [OF w(1)] by (simp add: core_def Let_def queue_ok_def)
  moreover have "live sid ?s1" using assms by (simp add: core_def Let_def live_def sends_to_def sent_def)
  ultimately show ?thesis using assms(2) by (simp add: core_def Let_def steady_def sends_to_def sent_def)
qed

lemma uncomplete_false: "\<forall>w \<in> set ws. wr_done w = 0 \<and> bl_addr (wr_blob w) = bl_ptr (wr_blob w) \<Longrightarrow> \<not> list_uncomplete ws"
  by (cases ws) (auto simp: list_uncomplete_def)

text \<open>The report of a list that was written, and the two ways to go on.\<close>

lemma send_list_open:
  assumes "send_list (HASH_ID sid) p ss = Some (r, ss1)" "live sid (ss_slot ss (HASH_ID sid))"
  shows "r = None \<Longrightarrow> \<exists>bs. sends_to (HASH_ID sid) p ss bs ss1" "r \<noteq> None \<Longrightarrow> \<not> is_open (ss_slot ss1 (HASH_ID sid))"
  using assms send_list_tcp_writes [of "HASH_ID sid" p ss r ss1] by (auto simp: send_list_def live_def is_open_def)

lemma send_low_keeps:
  assumes "send_low (HASH_ID sid) ss = Some (r, ss')" "core sid [] issued ss" "sk_high (ss_slot ss (HASH_ID sid)) = []"
  shows "keeps sid issued ss ss'"
proof -
  let ?i = "HASH_ID sid"
  let ?s = "ss_slot ss ?i"
  have live: "live sid ?s" using assms(2) by (simp add: core_def Let_def)
  obtain r0 ss1 where 1: "send_list ?i LOW ss = Some (r0, ss1)" using assms(1) by (auto simp: send_low_def bind_eq_Some_conv)
  let ?s1 = "ss_slot ss1 ?i"
  show ?thesis
  proof (cases r0)
    case (Some q)
    then have "\<not> is_open ?s1" using send_list_open(2) [OF 1 live] by simp
    moreover have "ss' = ss1" using assms(1) 1 Some by (cases q; cases "fst q") (auto simp: send_low_def)
    ultimately show ?thesis by (simp add: keeps_def)
  next
    case None
    then obtain bs where bs: "sends_to ?i LOW ss bs ss1" using send_list_open(1) [OF 1 live] by blast
    have w: "wrote (sk_low ?s) (sk_low ?s1) bs" "sk_high ?s1 = []" "sk_wb_size ?s1 = sk_wb_size ?s - int (length bs)"
        "ss_pipe ss1 = ss_pipe ss" "written (sk_fd ?s1) (ss_log ss1) = written (sk_fd ?s) (ss_log ss) @ bs" "live sid ?s1"
        "steady ?i ss ss1" "sk_dw ?s1 = sk_dw ?s"
      using bs live assms(3) by (auto simp: sends_to_def sent_def get_list_def opposite_def live_def steady_def)
    have q: "sk_wb_size ?s = int (sum_list (map wr_sz (sk_low ?s)))"
        "\<forall>w \<in> set (sk_low ?s). wr_done w = 0 \<and> bl_addr (wr_blob w) = bl_ptr (wr_blob w)"
        "flow ?s [] (written (sk_fd ?s) (ss_log ss)) (ss_pipe ss) issued"
      using assms(2,3) by (simp_all add: core_def Let_def queue_ok_def)
    have size: "sk_wb_size ?s1 = int (sum_list (map wr_sz (sk_low ?s1)))" using q(1) w(3) wrote_conserves(2) [OF w(1)] by simp
    from w(1) obtain us vs where us: "sk_low ?s = us @ vs" "sk_low ?s1 = vs \<and> bs = concat (map rest us) \<or>
        (\<exists>w v n. vs = w # v \<and> 0 < n \<and> n < wr_sz w \<and> sk_low ?s1 = w\<lparr>wr_done := wr_done w + n\<rparr> # v \<and> bs = concat (map rest us) @ take n (rest w))"
      unfolding wrote_def by blast
    from us(2) show ?thesis
    proof
      assume v: "sk_low ?s1 = vs \<and> bs = concat (map rest us)"
      have "flow ?s1 [] (written (sk_fd ?s1) (ss_log ss1)) (ss_pipe ss1) issued"
        using flow_low [OF q(3) assms(3) us(1)] q(2) us(1) v w by simp
      moreover have low: "\<forall>w \<in> set vs. wr_done w = 0 \<and> bl_addr (wr_blob w) = bl_ptr (wr_blob w)" using q(2) us(1) by simp
      ultimately have c1: "core sid [] issued ss1" using size w v by (simp add: core_def Let_def queue_ok_def)
      have "quietly ?i ss1 ss'"
        using assms(1) 1 None v uncomplete_false [OF low] send_finished_quietly [of ?i ss1 r ss'] w(6)
        by (auto simp: send_low_def live_def split: if_splits)
      then show ?thesis using keeps_step [OF c1] w by simp
    next
      assume "\<exists>w v n. vs = w # v \<and> 0 < n \<and> n < wr_sz w \<and> sk_low ?s1 = w\<lparr>wr_done := wr_done w + n\<rparr> # v \<and> bs = concat (map rest us) @ take n (rest w)"
      then obtain x v n where x: "vs = x # v" "0 < n" "n < wr_sz x" "sk_low ?s1 = x\<lparr>wr_done := wr_done x + n\<rparr> # v"
          "bs = concat (map rest us) @ take n (rest x)" by blast
      have x0: "wr_done x = 0" "bl_addr (wr_blob x) = bl_ptr (wr_blob x)" using q(2) us(1) x(1) by auto
      have "list_uncomplete (sk_low ?s1)" using x(2,4) x0 by (simp add: list_uncomplete_def)
      then have ss': "ss' = upd ?i (\<lambda>s. s\<lparr>sk_low := v, sk_high := [x\<lparr>wr_done := n\<rparr>]\<rparr>) ss1"
        using assms(1) 1 None x(4) x0 w(2) by (auto simp: send_low_def raise_uncomplete_def Let_def)
      let ?m = "?s\<lparr>sk_low := vs\<rparr>" and ?s' = "ss_slot ss' ?i"
      have "flow ?m [] (written (sk_fd ?s) (ss_log ss) @ concat (map rest us)) (ss_pipe ss) issued"
        using flow_low [OF q(3) assms(3) us(1)] q(2) us(1) assms(3) by simp
      then have "flow ?s' [] ((written (sk_fd ?s) (ss_log ss) @ concat (map rest us)) @ take n (rest x)) (ss_pipe ss) issued"
        by (rule flow_raise) (use x(1,3) x0 assms(3) ss' in simp_all)
      then have "core sid [] issued ss'"
        using size w x q(2) us(1) ss' x0 by (simp add: core_def Let_def queue_ok_def live_def)
      then show ?thesis using ss' w by (simp add: keeps_def steady_def)
    qed
  qed
qed

definition dw_rest :: "socket \<Rightarrow> bytes" where
  "dw_rest s = (case sk_dw s of None \<Rightarrow> [] | Some (c, off) \<Rightarrow> drop off (bl_data c))"

lemma take_direct_core:
  assumes "core sid (dw_rest (ss_slot ss (HASH_ID sid))) issued ss"
  shows "core sid [] issued (take_direct (HASH_ID sid) ss)" "steady (HASH_ID sid) ss (take_direct (HASH_ID sid) ss)"
    "sk_dw (ss_slot (take_direct (HASH_ID sid) ss) (HASH_ID sid)) = None"
  using assms
  by (auto simp: core_def Let_def take_direct_def dw_rest_def live_def queue_ok_def flow_def rest_def steady_def split: option.splits)

lemma send_buffer_core:
  assumes "send_buffer (HASH_ID sid) ss = Some (r, ss')" "\<not> sk_locked (ss_slot ss (HASH_ID sid))"
    "core sid (dw_rest (ss_slot ss (HASH_ID sid))) issued ss" "is_open (ss_slot ss' (HASH_ID sid))"
  shows "core sid [] issued ss' \<and> steady (HASH_ID sid) ss ss' \<and> sk_dw (ss_slot ss' (HASH_ID sid)) = None"
proof -
  let ?i = "HASH_ID sid"
  let ?ss0 = "take_direct ?i ss"
  note t = take_direct_core [OF assms(3)]
  have b: "send_buffer1 ?i ?ss0 = Some (r, ss')" using assms(1,2) by (simp add: send_buffer_def)
  have live: "live sid (ss_slot ?ss0 ?i)" using t(1) by (simp add: core_def Let_def)
  obtain r0 ss1 where 1: "send_list ?i HIGH ?ss0 = Some (r0, ss1)" using b by (auto simp: send_buffer1_def bind_eq_Some_conv)
  have "keeps sid issued ?ss0 ss'"
  proof (cases r0)
    case (Some q)
    then have "\<not> is_open (ss_slot ss1 ?i)" using send_list_open(2) [OF 1 live] by simp
    moreover have "ss' = ss1" using b 1 Some by (cases q; cases "fst q") (auto simp: send_buffer1_def)
    ultimately show ?thesis by (simp add: keeps_def)
  next
    case None
    then obtain bs where "sends_to ?i HIGH ?ss0 bs ss1" using send_list_open(1) [OF 1 live] by blast
    note c = send_high_core [OF t(1) this]
    have closing: "\<not> sk_closing (ss_slot ss1 ?i)" using c by (simp add: core_def Let_def live_def)
    consider "sk_high (ss_slot ss1 ?i) \<noteq> []" "ss' = ss1"
      | "sk_high (ss_slot ss1 ?i) = []" "send_low ?i ss1 = Some (r, ss')" | "send_finished ?i ss1 = Some (r, ss')"
      using b 1 None by (auto simp: send_buffer1_def split: if_splits)
    then show ?thesis
    proof cases
      case 1
      then show ?thesis using c by (simp add: keeps_def)
    next
      case 2
      then show ?thesis using send_low_keeps [OF 2(2) _ 2(1)] c steady_trans by (auto simp: keeps_def)
    next
      case 3
      then show ?thesis using keeps_step c send_finished_quietly [OF 3 closing] by blast
    qed
  qed
  then show ?thesis using assms(4) t(2,3) steady_trans by (auto simp: keeps_def)
qed

subsection \<open>A package from the pipe\<close>

lemma append_core:
  assumes "core sid pnd issued ss" "ss_pipe ss = RSend p sid c # reqs" "bl_addr c = bl_ptr c \<or> q = HIGH"
    "q = HIGH \<and> (p = HIGH \<or> sk_low (ss_slot ss (HASH_ID sid)) = []) \<or> q = p"
    "ss' = append_sendbuffer (HASH_ID sid) q c None (ss\<lparr>ss_pipe := reqs\<rparr>)"
  shows "core sid pnd issued ss'"
proof -
  let ?s = "ss_slot ss (HASH_ID sid)" and ?s' = "ss_slot ss' (HASH_ID sid)"
  let ?w = "\<lparr>wr_blob = c, wr_done = 0, wr_udp = None\<rparr>"
  have s': "?s' = set_list q (get_list q ?s @ [?w]) (?s\<lparr>sk_wb_size := sk_wb_size ?s + int (wr_sz ?w)\<rparr>)"
      "ss_pipe ss' = reqs" "ss_log ss' = ss_log ss"
    using assms(5) by (simp_all add: append_sendbuffer_def Let_def)
  have "live sid ?s'" using assms(1) s'(1) by (simp add: core_def Let_def live_def)
  moreover have "queue_ok ?s'"
    using assms(1,3) s'(1) by (cases q) (auto simp: core_def Let_def queue_ok_def get_list_def set_list_def)
  moreover have "flow ?s' pnd (written (sk_fd ?s') (ss_log ss')) reqs issued"
  proof -
    obtain cm where cm: "written (sk_fd ?s) (ss_log ss) @ pnd @ concat (map rest (sk_high ?s)) = concat (map snd cm)"
        "\<And>p'. of_prio p' issued = of_prio p' cm @ low_of p' (sk_low ?s) @ pipe_of p' (RSend p sid c # reqs)"
      using assms(1,2) by (auto simp: core_def Let_def flow_def)
    show ?thesis
    proof (cases q)
      case HIGH
      let ?cm = "cm @ [(p, bl_data c)]"
      have "written (sk_fd ?s) (ss_log ss) @ pnd @ concat (map rest (sk_high ?s')) = concat (map snd ?cm)"
        using cm(1) HIGH s'(1) by (simp add: get_list_def set_list_def low_rest)
      moreover have "of_prio p' issued = of_prio p' ?cm @ low_of p' (sk_low ?s') @ pipe_of p' reqs" for p'
        using cm(2) [of p'] assms(4) HIGH s'(1) by (auto simp: low_of_def get_list_def set_list_def)
      ultimately show ?thesis unfolding flow_def using HIGH s' by (intro exI [of _ ?cm]) (simp add: set_list_def)
    next
      case LOW
      then have p: "p = LOW" using assms(4) by auto
      have "of_prio p' issued = of_prio p' cm @ low_of p' (sk_low ?s') @ pipe_of p' reqs" for p'
        using cm(2) [of p'] LOW p s'(1) by (simp add: low_of_def get_list_def set_list_def)
      then show ?thesis unfolding flow_def using LOW s' cm(1) by (intro exI [of _ cm]) (simp add: set_list_def)
    qed
  qed
  ultimately show ?thesis using s'(2) by (simp add: core_def Let_def)
qed

lemma send_socket_core:
  assumes "send_socket p sid c None (ss\<lparr>ss_pipe := reqs\<rparr>) = Some (r, ss')" "core sid pnd issued ss"
    "ss_pipe ss = RSend p sid c # reqs" "bl_addr c = bl_ptr c \<or> p = HIGH"
  shows "is_open (ss_slot ss' (HASH_ID sid)) \<Longrightarrow> core sid pnd issued ss'" "ss_pipe ss' = reqs"
    "sk_sending (ss_slot ss' (HASH_ID sid)) = sk_sending (ss_slot ss (HASH_ID sid))"
    "sk_locked (ss_slot ss' (HASH_ID sid)) = sk_locked (ss_slot ss (HASH_ID sid))"
    "sk_dw (ss_slot ss' (HASH_ID sid)) = sk_dw (ss_slot ss (HASH_ID sid))"
proof -
  let ?i = "HASH_ID sid"
  let ?s = "ss_slot ss ?i"
  let ?q = "if send_buffer_empty ?s then HIGH else p"
  let ?ss1 = "append_sendbuffer ?i ?q c None (ss\<lparr>ss_pipe := reqs\<rparr>)"
  have live: "live sid ?s" using assms(2) by (simp add: core_def Let_def)
  have c1: "core sid pnd issued ?ss1"
    by (rule append_core [OF assms(2,3)]) (use assms(4) in \<open>auto simp: send_buffer_empty_def\<close>)
  have q: "quietly ?i ?ss1 ss'"
  proof (cases "send_buffer_empty ?s")
    case True
    then obtain e ss2 where e: "enable_write ?i True ?ss1 = Some (e, ss2)" "ss' = ss2 \<or> (\<exists>r. warn_queue ?i ss2 = (r, ss'))"
      using assms(1) live by (auto simp: send_socket_def Let_def live_def bind_eq_Some_conv report_error_def split: if_splits)
    then have "quietly ?i ?ss1 ss2" using enable_quietly(1) by blast
    then show ?thesis using e(2) warn_quietly quietly_trans by blast
  next
    case False
    then have "warn_queue ?i ?ss1 = (r, ss')"
      using assms(1) live by (auto simp: send_socket_def Let_def live_def split: if_splits)
    then show ?thesis using warn_quietly by blast
  qed
  show "is_open (ss_slot ss' ?i) \<Longrightarrow> core sid pnd issued ss'" by (rule core_quietly [OF c1 q])
  show "ss_pipe ss' = reqs" "sk_sending (ss_slot ss' ?i) = sk_sending ?s" "sk_locked (ss_slot ss' ?i) = sk_locked ?s"
      "sk_dw (ss_slot ss' ?i) = sk_dw ?s"
    using q by (simp_all add: quietly_def alike_def append_sendbuffer_def Let_def)
qed

subsection \<open>The interleavings\<close>

text \<open>
  A call in progress: a direct write that holds the lock, a package that is counted but not yet in the pipe, and the request for the
  write event behind a direct write that left a rest.
\<close>

datatype phase = PDirect sendbuffer | PCounted priority sendbuffer | PTrigger

definition directs :: "phase list \<Rightarrow> sendbuffer list" where
  "directs cs = concat (map (\<lambda>c. case c of PDirect b \<Rightarrow> [b] | _ \<Rightarrow> []) cs)"

definition counteds :: "phase list \<Rightarrow> nat" where
  "counteds cs = length (filter (\<lambda>c. case c of PCounted p b \<Rightarrow> True | _ \<Rightarrow> False) cs)"

definition sends_in :: "request list \<Rightarrow> nat" where
  "sends_in rs = length (filter (\<lambda>r. case r of RSend p sid b \<Rightarrow> True | _ \<Rightarrow> False) rs)"

lemma directs_simps [simp]: "directs [] = []" "directs (xs @ ys) = directs xs @ directs ys" "directs (PDirect b # cs) = b # directs cs"
  "directs (PCounted p b # cs) = directs cs" "directs (PTrigger # cs) = directs cs"
  by (simp_all add: directs_def)

lemma counteds_simps [simp]: "counteds [] = 0" "counteds (xs @ ys) = counteds xs + counteds ys" "counteds (PDirect b # cs) = counteds cs"
  "counteds (PCounted p b # cs) = Suc (counteds cs)" "counteds (PTrigger # cs) = counteds cs"
  by (simp_all add: counteds_def)

lemma sends_in_simps [simp]: "sends_in [] = 0" "sends_in (xs @ ys) = sends_in xs + sends_in ys" "sends_in (RSend p sid b # rs) = Suc (sends_in rs)"
  by (simp_all add: sends_in_def)

lemma no_sends: "sends_in rs = 0 \<Longrightarrow> pipe_of p rs = []"
  by (induction p rs rule: pipe_of.induct) (auto simp: sends_in_def)

text \<open>Requests for the same socket that send nothing.\<close>

fun control :: "u32 \<Rightarrow> request \<Rightarrow> bool" where
  "control sid (RResume s opaque) \<longleftrightarrow> s = sid"
| "control sid (RPause s opaque) \<longleftrightarrow> s = sid"
| "control sid (RSetopt s what v) \<longleftrightarrow> s = sid"
| "control sid (RTrigger s) \<longleftrightarrow> s = sid"
| "control sid _ \<longleftrightarrow> False"

text \<open>
  The state is the server, the calls in progress, and the packages in the order in which they were given to the connection, which for
  a direct write is the moment of the lock.
\<close>

type_synonym conn = "server \<times> phase list \<times> (priority \<times> bytes) list"

inductive conn_step :: "u32 \<Rightarrow> conn \<Rightarrow> conn \<Rightarrow> bool" for sid where
  direct_begin: "\<lbrakk>\<not> send_refused sid ss; sb_id b = sid; direct_lock sid ss = (True, ss1)\<rbrakk> \<Longrightarrow>
    conn_step sid (ss, cs, iss) (ss1, cs @ [PDirect b], iss @ [(HIGH, sb_data b)])"
| direct_end: "direct_write b (ss\<lparr>ss_sys := rs\<rparr>) = Some (r, ss1) \<Longrightarrow>
    conn_step sid (ss, xs @ PDirect b # ys, iss) (ss1, xs @ (if r = Direct_rest then [PTrigger] else []) @ ys, iss)"
| trigger: "conn_step sid (ss, xs @ PTrigger # ys, iss) (send_request (RTrigger sid) ss, xs @ ys, iss)"
| queue_begin: "\<lbrakk>\<not> send_refused sid ss; sb_id b = sid; direct_lock sid ss = (False, ss1); inc_sending_ref sid ss1 = Some ss2\<rbrakk> \<Longrightarrow>
    conn_step sid (ss, cs, iss) (ss2, cs @ [PCounted HIGH b], iss)"
| low_begin: "\<lbrakk>\<not> socket_invalid (ss_slot ss (HASH_ID sid)) sid; sb_id b = sid; sb_type b \<noteq> SOCKET_BUFFER_OBJECT;
    inc_sending_ref sid ss = Some ss1\<rbrakk> \<Longrightarrow> conn_step sid (ss, cs, iss) (ss1, cs @ [PCounted LOW b], iss)"
| enqueue: "conn_step sid (ss, xs @ PCounted p b # ys, iss) (send_enqueue p b ss, xs @ ys, iss @ [(p, sb_data b)])"
| request: "control sid q \<Longrightarrow> conn_step sid (ss, cs, iss) (send_request q ss, cs, iss)"
| command: "ctrl_cmd (ss\<lparr>ss_sys := rs\<rparr>) = Some (r, ss1) \<Longrightarrow> conn_step sid (ss, cs, iss) (ss1, cs, iss)"
| write_event: "send_buffer (HASH_ID sid) (ss\<lparr>ss_sys := rs\<rparr>) = Some (r, ss1) \<Longrightarrow> conn_step sid (ss, cs, iss) (ss1, cs, iss)"
| read_event: "forward_message_tcp (HASH_ID sid) (ss\<lparr>ss_sys := rs\<rparr>) = Some (r, ss1) \<Longrightarrow> conn_step sid (ss, cs, iss) (ss1, cs, iss)"

text \<open>The steps of a connection while it is open.\<close>

inductive conn_reach :: "u32 \<Rightarrow> conn \<Rightarrow> conn \<Rightarrow> bool" for sid where
  start: "conn_reach sid c c"
| more: "\<lbrakk>conn_reach sid c0 c; is_open (ss_slot (fst c) (HASH_ID sid)); conn_step sid c c'\<rbrakk> \<Longrightarrow> conn_reach sid c0 c'"

text \<open>A socket that was just connected.\<close>

definition opened :: "u32 \<Rightarrow> server \<Rightarrow> bool" where
  "opened sid ss \<longleftrightarrow> (let s = ss_slot ss (HASH_ID sid) in
     live sid s \<and> sk_high s = [] \<and> sk_low s = [] \<and> sk_wb_size s = 0 \<and> sk_dw s = None \<and> \<not> sk_locked s \<and>
     sk_sending s = ID_TAG16 sid * 2 ^ 16 \<and> ss_pipe ss = [] \<and> written (sk_fd s) (ss_log ss) = [])"

definition pending :: "phase list \<Rightarrow> socket \<Rightarrow> bytes" where
  "pending cs s = (case directs cs of b # bs \<Rightarrow> sb_data b | [] \<Rightarrow> dw_rest s)"

fun good :: "u32 \<Rightarrow> request \<Rightarrow> bool" where
  "good sid (RSend p s c) \<longleftrightarrow> s = sid \<and> (bl_addr c = bl_ptr c \<or> p = HIGH)"
| "good sid q \<longleftrightarrow> control sid q"

fun good_call :: "u32 \<Rightarrow> phase \<Rightarrow> bool" where
  "good_call sid (PDirect b) \<longleftrightarrow> sb_id b = sid"
| "good_call sid (PCounted p b) \<longleftrightarrow> sb_id b = sid \<and> (sb_type b \<noteq> SOCKET_BUFFER_OBJECT \<or> p = HIGH)"
| "good_call sid PTrigger \<longleftrightarrow> True"

definition rights :: "u32 \<Rightarrow> phase list \<Rightarrow> server \<Rightarrow> bool" where
  "rights sid cs ss \<longleftrightarrow> (let s = ss_slot ss (HASH_ID sid) in
     (if sk_locked s then (\<exists>b. directs cs = [b]) \<and> sk_dw s = None else directs cs = []) \<and>
     sk_sending s = ID_TAG16 sid * 2 ^ 16 + (sends_in (ss_pipe ss) + counteds cs) \<and> sends_in (ss_pipe ss) + counteds cs < 2 ^ 16 \<and>
     (\<forall>q \<in> set (ss_pipe ss). good sid q) \<and> (\<forall>c \<in> set cs. good_call sid c))"

definition conn_inv :: "u32 \<Rightarrow> conn \<Rightarrow> bool" where
  "conn_inv sid c \<longleftrightarrow> (case c of (ss, cs, iss) \<Rightarrow> is_open (ss_slot ss (HASH_ID sid)) \<longrightarrow>
     core sid (pending cs (ss_slot ss (HASH_ID sid))) iss ss \<and> rights sid cs ss)"

lemma conn_invI:
  "(is_open (ss_slot ss (HASH_ID sid)) \<Longrightarrow> core sid (pending cs (ss_slot ss (HASH_ID sid))) iss ss \<and> rights sid cs ss) \<Longrightarrow>
   conn_inv sid (ss, cs, iss)"
  by (simp add: conn_inv_def)

lemma pending_cong: "sk_dw s' = sk_dw s \<Longrightarrow> pending cs s' = pending cs s"
  by (cases "directs cs") (simp_all add: pending_def dw_rest_def)

lemma alike_pending: "alike s s' \<Longrightarrow> pending cs s' = pending cs s"
  by (rule pending_cong) (simp add: alike_def)

lemma quietly_inv:
  assumes "core sid (pending cs (ss_slot ss (HASH_ID sid))) iss ss" "rights sid cs ss" "quietly (HASH_ID sid) ss ss1"
  shows "conn_inv sid (ss1, cs, iss)"
proof (rule conn_invI)
  assume "is_open (ss_slot ss1 (HASH_ID sid))"
  then have "core sid (pending cs (ss_slot ss (HASH_ID sid))) iss ss1" using core_quietly assms(1,3) by blast
  moreover have "pending cs (ss_slot ss1 (HASH_ID sid)) = pending cs (ss_slot ss (HASH_ID sid))"
    using assms(3) by (intro alike_pending) (simp add: quietly_def)
  moreover have "rights sid cs ss1" using assms(2,3) by (simp add: quietly_def rights_def Let_def alike_def)
  ultimately show "core sid (pending cs (ss_slot ss1 (HASH_ID sid))) iss ss1 \<and> rights sid cs ss1" by simp
qed

text \<open>A request that sends nothing enters or leaves the pipe.\<close>

lemma control_pipe: "control sid q \<Longrightarrow> pipe_of p [q] = []" "control sid q \<Longrightarrow> sends_in [q] = 0" "control sid q \<Longrightarrow> good sid q"
  by (cases q; simp add: sends_in_def)+

lemma control_Cons: "control sid q \<Longrightarrow> pipe_of p (q # rs) = pipe_of p rs" "control sid q \<Longrightarrow> sends_in (q # rs) = sends_in rs"
  by (cases q; simp add: sends_in_def)+

lemma core_send_request: "control sid q \<Longrightarrow> core sid pnd iss (send_request q ss) = core sid pnd iss ss"
  by (simp add: core_def Let_def send_request_def flow_def control_pipe)

lemma request_inv:
  assumes "core sid (pending cs (ss_slot ss (HASH_ID sid))) iss ss" "rights sid cs ss" "control sid q"
  shows "conn_inv sid (send_request q ss, cs, iss)"
proof -
  have "rights sid cs (send_request q ss)"
    using assms(2) control_pipe [OF assms(3)] by (auto simp: rights_def Let_def send_request_def)
  moreover have "core sid (pending cs (ss_slot ss (HASH_ID sid))) iss (send_request q ss)"
    using assms(1) by (simp add: core_send_request [OF assms(3)])
  ultimately show ?thesis by (simp add: conn_inv_def) (simp add: send_request_def)
qed

lemma trigger_inv:
  assumes "core sid (pending (xs @ PTrigger # ys) (ss_slot ss (HASH_ID sid))) iss ss" "rights sid (xs @ PTrigger # ys) ss"
  shows "conn_inv sid (send_request (RTrigger sid) ss, xs @ ys, iss)"
proof -
  have "core sid (pending (xs @ ys) (ss_slot ss (HASH_ID sid))) iss ss" using assms(1) by (simp add: pending_def)
  moreover have "rights sid (xs @ ys) ss" using assms(2) by (simp add: rights_def Let_def split: if_splits)
  ultimately show ?thesis by (rule request_inv) simp
qed

lemma direct_lock_inv:
  assumes "core sid (pending cs (ss_slot ss (HASH_ID sid))) iss ss" "rights sid cs ss" "sb_id b = sid" "direct_lock sid ss = (True, ss1)"
  shows "conn_inv sid (ss1, cs @ [PDirect b], iss @ [(HIGH, sb_data b)])"
proof (rule conn_invI)
  let ?i = "HASH_ID sid"
  let ?s = "ss_slot ss ?i"
  have can: "can_direct_write ?s sid" "\<not> sk_locked ?s" and ss1: "ss1 = upd ?i (\<lambda>s. s\<lparr>sk_locked := True\<rparr>) ss"
    using assms(4) by (auto simp: direct_lock_def Let_def split: if_splits)
  then have e: "sk_high ?s = []" "sk_low ?s = []" "sk_dw ?s = None" "sk_sending ?s mod 2 ^ 16 = 0"
    by (auto simp: can_direct_write_def nomore_sending_data_def send_buffer_empty_def)
  have r: "directs cs = []" "sends_in (ss_pipe ss) + counteds cs < 2 ^ 16"
      "sk_sending ?s = ID_TAG16 sid * 2 ^ 16 + (sends_in (ss_pipe ss) + counteds cs)"
    using assms(2) can(2) by (simp_all add: rights_def Let_def)
  then have "sk_sending ?s mod 2 ^ 16 = sends_in (ss_pipe ss) + counteds cs" by simp
  then have z: "sends_in (ss_pipe ss) = 0" using e(4) by linarith
  obtain cm where cm: "written (sk_fd ?s) (ss_log ss) = concat (map snd cm)" "\<And>p. of_prio p iss = of_prio p cm"
    using assms(1) e r(1) no_sends [OF z] by (auto simp: core_def Let_def flow_def pending_def dw_rest_def low_of_def)
  have "core sid (sb_data b) (iss @ [(HIGH, sb_data b)]) ss1"
    using assms(1) e ss1 cm no_sends [OF z]
    by (auto simp: core_def Let_def live_def queue_ok_def flow_def low_of_def intro!: exI [of _ "cm @ [(HIGH, sb_data b)]"])
  moreover have "rights sid (cs @ [PDirect b]) ss1" using assms(2,3) e(3) r(1) ss1 by (auto simp: rights_def Let_def)
  ultimately show "core sid (pending (cs @ [PDirect b]) (ss_slot ss1 ?i)) (iss @ [(HIGH, sb_data b)]) ss1 \<and> rights sid (cs @ [PDirect b]) ss1"
    using r(1) by (simp add: pending_def)
qed

lemma free_buffer_fields [simp]: "ss_slot (free_buffer b ss) = ss_slot ss" "ss_pipe (free_buffer b ss) = ss_pipe ss"
  "ss_log (free_buffer b ss) = ss_log ss"
  by (simp_all add: free_buffer_def split: buffer_type.split)

lemma take_drop_append: "take n xs @ drop n xs @ ys = xs @ ys"
  by (simp flip: append_assoc)

lemma same_dw: "sk_dw s = d \<Longrightarrow> s\<lparr>sk_locked := l, sk_dw := d\<rparr> = s\<lparr>sk_locked := l\<rparr>"
  by (cases s) simp

lemma direct_write_inv:
  assumes "core sid (pending (xs @ PDirect b # ys) (ss_slot ss (HASH_ID sid))) iss ss" "rights sid (xs @ PDirect b # ys) ss"
    "direct_write b (ss\<lparr>ss_sys := rs\<rparr>) = Some (r, ss1)"
  shows "conn_inv sid (ss1, xs @ (if r = Direct_rest then [PTrigger] else []) @ ys, iss)"
proof (rule conn_invI)
  let ?i = "HASH_ID sid"
  let ?s = "ss_slot ss ?i" and ?d = "sb_data b" and ?t = "if r = Direct_rest then [PTrigger] else []"
  have lock: "sk_locked ?s" "sk_dw ?s = None" "directs xs = []" "directs ys = []" "sb_id b = sid"
    using assms(2) by (auto simp: rights_def Let_def append_eq_Cons_conv split: if_splits)
  have tcp: "sk_protocol ?s = PROTOCOL_TCP" using assms(1) by (simp add: core_def Let_def live_def)
  obtain n ss2 where n: "sys (ss\<lparr>ss_sys := rs\<rparr>) = Some (n, ss2)" "n \<le> int (length ?d)"
      "direct_send ?i ?d (ss\<lparr>ss_sys := rs\<rparr>) = Some (Some n, if n < 0 then ss2 else call (SWrite (sk_fd ?s) (take (nat n) ?d)) ss2)"
    using assms(3) tcp lock(5) by (auto simp: direct_write_def direct_send_def Let_def bind_eq_Some_conv)
  have q2: "ss_slot ss2 = ss_slot ss" "ss_pipe ss2 = ss_pipe ss" "ss_log ss2 = ss_log ss"
    using n(1) by (auto simp: sys_def split: list.splits sysret.splits)
  let ?ss3 = "stat_write ?i (max n 0) (if n < 0 then ss2 else call (SWrite (sk_fd ?s) (take (nat n) ?d)) ss2)"
  have q3: "alike ?s (ss_slot ?ss3 ?i)" "ss_pipe ?ss3 = ss_pipe ss" "sk_type (ss_slot ?ss3 ?i) = sk_type ?s"
      "written (sk_fd ?s) (ss_log ?ss3) = written (sk_fd ?s) (ss_log ss) @ take (nat n) ?d"
    using q2 by (simp_all add: stat_write_def alike_def)
  define dw where "dw = (if r = Direct_rest then Some (fst (clone_buffer b ?ss3), nat n) else None)"
  have fin: "ss_slot ss1 ?i = (ss_slot ?ss3 ?i)\<lparr>sk_locked := False, sk_dw := dw\<rparr> \<and> ss_pipe ss1 = ss_pipe ss \<and> ss_log ss1 = ss_log ?ss3 \<and>
      (r \<noteq> Direct_rest \<longrightarrow> take (nat n) ?d = ?d) \<and> dw_rest (ss_slot ss1 ?i) = drop (nat n) ?d"
  proof (cases "max n 0 = int (length ?d)")
    case True
    then have "r = Direct_done" "ss1 = free_buffer b (socket_unlock ?i ?ss3)"
      using assms(3) n(3) lock(5) by (simp_all add: direct_write_def Let_def)
    moreover have "length ?d \<le> nat n" using True by linarith
    moreover have "sk_dw (ss_slot ?ss3 ?i) = None" using lock(2) q3(1) by (simp add: alike_def)
    ultimately show ?thesis
      using q3(2) by (simp add: dw_def socket_unlock_def dw_rest_def same_dw)
  next
    case False
    obtain c ss4 where c: "clone_buffer b ?ss3 = (c, ss4)" by fastforce
    have nat: "nat (max n 0) = nat n" by simp
    have "r = Direct_rest" "ss1 = socket_unlock ?i (upd ?i (\<lambda>s. s\<lparr>sk_dw := Some (c, nat n)\<rparr>) ss4)"
      using False assms(3) n(3) lock(5) c nat by (simp_all add: direct_write_def Let_def)
    then show ?thesis
      using clone_fields [OF c] c q3(2) by (simp add: dw_def socket_unlock_def dw_rest_def)
  qed
  let ?s1 = "ss_slot ss1 ?i"
  have same: "sk_id ?s1 = sk_id ?s" "sk_protocol ?s1 = sk_protocol ?s" "sk_closing ?s1 = sk_closing ?s" "sk_type ?s1 = sk_type ?s"
      "sk_fd ?s1 = sk_fd ?s" "sk_high ?s1 = sk_high ?s" "sk_low ?s1 = sk_low ?s" "sk_wb_size ?s1 = sk_wb_size ?s"
      "sk_sending ?s1 = sk_sending ?s" "\<not> sk_locked ?s1" "ss_pipe ss1 = ss_pipe ss"
    using fin q3(1,3) by (simp_all add: alike_def)
  have s: "flow ?s ?d (written (sk_fd ?s) (ss_log ss)) (ss_pipe ss) iss" "live sid ?s" "queue_ok ?s"
    using assms(1) lock by (simp_all add: core_def Let_def pending_def)
  have "written (sk_fd ?s) (ss_log ss1) = written (sk_fd ?s) (ss_log ss) @ take (nat n) ?d" using fin q3(4) by simp
  then have "flow ?s1 (drop (nat n) ?d) (written (sk_fd ?s1) (ss_log ss1)) (ss_pipe ss1) iss"
    using s(1) same by (simp add: flow_def take_drop_append)
  then have "core sid (drop (nat n) ?d) iss ss1" using s(2,3) same by (simp add: core_def Let_def live_def queue_ok_def)
  moreover have "rights sid (xs @ ?t @ ys) ss1"
    using assms(2) lock(1,3,4) same by (auto simp: rights_def Let_def)
  moreover have "pending (xs @ ?t @ ys) (ss_slot ss1 ?i) = drop (nat n) ?d"
    using lock(3,4) conjunct2 [OF conjunct2 [OF conjunct2 [OF conjunct2 [OF fin]]]] by (simp add: pending_def)
  ultimately show "core sid (pending (xs @ ?t @ ys) (ss_slot ss1 ?i)) iss ss1 \<and> rights sid (xs @ ?t @ ys) ss1" by simp
qed

lemma count_inv:
  assumes "core sid (pending cs (ss_slot ss (HASH_ID sid))) iss ss" "rights sid cs ss" "sb_id b = sid"
    "sb_type b \<noteq> SOCKET_BUFFER_OBJECT \<or> p = HIGH" "inc_sending_ref sid ss = Some ss1"
  shows "conn_inv sid (ss1, cs @ [PCounted p b], iss)"
proof (rule conn_invI)
  let ?i = "HASH_ID sid"
  let ?s = "ss_slot ss ?i"
  let ?k = "sends_in (ss_pipe ss) + counteds cs"
  have tcp: "sk_protocol ?s = PROTOCOL_TCP" using assms(1) by (simp add: core_def Let_def live_def)
  have k: "sk_sending ?s = ID_TAG16 sid * 2 ^ 16 + ?k" "?k < 2 ^ 16" using assms(2) by (simp_all add: rights_def Let_def)
  then have d: "sk_sending ?s div 2 ^ 16 = ID_TAG16 sid" "sk_sending ?s mod 2 ^ 16 = ?k" by simp_all
  have ss1: "ss1 = upd ?i (\<lambda>s. s\<lparr>sk_sending := sk_sending s + 1\<rparr>) ss" "?k \<noteq> 0xffff"
    using assms(5) tcp d by (auto simp: inc_sending_ref_def Let_def split: if_splits)
  have "core sid (pending cs ?s) iss ss1"
    using assms(1) ss1(1) by (simp add: core_def Let_def live_def queue_ok_def flow_def)
  moreover have "pending (cs @ [PCounted p b]) (ss_slot ss1 ?i) = pending cs ?s"
    using ss1(1) pending_cong [of "ss_slot ss1 ?i" ?s cs] by (simp add: pending_def)
  moreover have "rights sid (cs @ [PCounted p b]) ss1" using assms(2-4) ss1 k by (auto simp: rights_def Let_def)
  ultimately show "core sid (pending (cs @ [PCounted p b]) (ss_slot ss1 ?i)) iss ss1 \<and> rights sid (cs @ [PCounted p b]) ss1" by simp
qed

lemma clone_good:
  assumes "clone_buffer b ss = (c, ss1)" "sb_type b \<noteq> SOCKET_BUFFER_OBJECT \<or> p = HIGH"
  shows "bl_addr c = bl_ptr c \<or> p = HIGH"
  using assms by (auto simp: clone_buffer_def split: buffer_type.splits)

lemma enqueue_inv:
  assumes "core sid (pending (xs @ PCounted p b # ys) (ss_slot ss (HASH_ID sid))) iss ss" "rights sid (xs @ PCounted p b # ys) ss"
  shows "conn_inv sid (send_enqueue p b ss, xs @ ys, iss @ [(p, sb_data b)])"
proof (rule conn_invI)
  let ?i = "HASH_ID sid"
  obtain c ss1 where c: "clone_buffer b ss = (c, ss1)" by fastforce
  note f = clone_fields [OF c]
  let ?ss2 = "send_request (RSend p (sb_id b) c) ss1"
  have e: "send_enqueue p b ss = ?ss2" using c by (simp add: send_enqueue_def)
  have b: "sb_id b = sid" "sb_type b \<noteq> SOCKET_BUFFER_OBJECT \<or> p = HIGH" using assms(2) by (auto simp: rights_def Let_def)
  have "core sid (pending (xs @ ys) (ss_slot ss ?i)) (iss @ [(p, sb_data b)]) ?ss2"
    using assms(1) f b(1) by (auto simp: core_def Let_def flow_def send_request_def pending_def)
  moreover have "rights sid (xs @ ys) ?ss2"
    using assms(2) f b(1) clone_good [OF c b(2)] by (auto simp: rights_def Let_def send_request_def split: if_splits)
  ultimately show "core sid (pending (xs @ ys) (ss_slot (send_enqueue p b ss) ?i)) (iss @ [(p, sb_data b)]) (send_enqueue p b ss) \<and>
      rights sid (xs @ ys) (send_enqueue p b ss)"
    unfolding e using f(1) by (simp add: send_request_def)
qed

text \<open>A request that is taken from the pipe.\<close>

lemma control_quietly:
  assumes "ctrl_cmd ss = Some (r, ss1)" "ss_pipe ss = q # reqs" "control sid q" "live sid (ss_slot ss (HASH_ID sid))"
  shows "quietly (HASH_ID sid) (ss\<lparr>ss_pipe := reqs\<rparr>) ss1"
proof -
  let ?i = "HASH_ID sid" and ?ss = "ss\<lparr>ss_pipe := reqs\<rparr>"
  have valid: "\<not> socket_invalid (ss_slot ss ?i) sid" using assms(4) by (auto simp: live_def socket_invalid_def)
  show ?thesis
  proof (cases q)
    case (RResume s opaque)
    then have s: "s = sid" "resume_socket sid opaque ?ss = Some (r, ss1)" using assms(1-3) by (auto simp: ctrl_cmd_def)
    then consider "ss1 = ?ss" | e ss2 where "enable_read ?i True ?ss = Some (e, ss2)" "quietly ?i ss2 ss1"
      using valid by (auto simp: resume_socket_def Let_def bind_eq_Some_conv quietly_def alike_def split: if_splits)
    then show ?thesis using enable_quietly(1) quietly_trans by cases (simp, blast)
  next
    case (RPause s opaque)
    then have "pause_socket sid ?ss = Some (r, ss1)" using assms(1-3) by (auto simp: ctrl_cmd_def)
    then obtain e where "enable_read ?i False ?ss = Some (e, ss1)"
      using valid by (auto simp: pause_socket_def Let_def bind_eq_Some_conv report_error_def split: if_splits)
    then show ?thesis using enable_quietly(1) by blast
  next
    case (RTrigger s)
    then have "trigger_write sid ?ss = Some (r, ss1)" using assms(1-3) by (auto simp: ctrl_cmd_def)
    then obtain e where "enable_write ?i True ?ss = Some (e, ss1)"
      using valid by (auto simp: trigger_write_def Let_def bind_eq_Some_conv report_error_def split: if_splits)
    then show ?thesis using enable_quietly(1) by blast
  next
    case (RSetopt s what v)
    then have "ss1 = setopt_socket sid what v ?ss" using assms(1-3) by (auto simp: ctrl_cmd_def)
    then show ?thesis by (simp add: setopt_socket_def Let_def quietly_def)
  qed (use assms(3) in auto)
qed

lemma core_control_pop: "core sid pnd iss ss \<Longrightarrow> ss_pipe ss = q # reqs \<Longrightarrow> control sid q \<Longrightarrow> core sid pnd iss (ss\<lparr>ss_pipe := reqs\<rparr>)"
  by (simp add: core_def Let_def flow_def control_Cons)

lemma command_inv:
  assumes "core sid (pending cs (ss_slot ss (HASH_ID sid))) iss ss" "rights sid cs ss" "ctrl_cmd (ss\<lparr>ss_sys := rs\<rparr>) = Some (r, ss1)"
  shows "conn_inv sid (ss1, cs, iss)"
proof -
  let ?i = "HASH_ID sid" and ?ss = "ss\<lparr>ss_sys := rs\<rparr>"
  have c: "core sid (pending cs (ss_slot ?ss ?i)) iss ?ss" "rights sid cs ?ss"
    using assms(1,2) by (simp_all add: core_def rights_def Let_def)
  obtain q reqs where q: "ss_pipe ?ss = q # reqs" using assms(3) by (auto simp: ctrl_cmd_def split: list.splits)
  then have good: "good sid q" using c(2) by (simp add: rights_def Let_def)
  show ?thesis
  proof (cases "control sid q")
    case True
    have "live sid (ss_slot ?ss ?i)" using c(1) by (simp add: core_def Let_def)
    note k = control_quietly [OF assms(3) q True this]
    show ?thesis
    proof (rule quietly_inv [OF _ _ k])
      show "core sid (pending cs (ss_slot (?ss\<lparr>ss_pipe := reqs\<rparr>) ?i)) iss (?ss\<lparr>ss_pipe := reqs\<rparr>)"
        using core_control_pop [OF c(1) q True] by simp
      show "rights sid cs (?ss\<lparr>ss_pipe := reqs\<rparr>)" using c(2) q control_Cons(2) [OF True] by (simp add: rights_def Let_def)
    qed
  next
    case False
    then obtain p b where b: "q = RSend p sid b" "bl_addr b = bl_ptr b \<or> p = HIGH" using good by (cases q) auto
    obtain ss2 where s: "send_socket p sid b None (?ss\<lparr>ss_pipe := reqs\<rparr>) = Some (r, ss2)" "dec_sending_ref sid ss2 = Some ss1"
      using assms(3) q b(1) by (auto simp: ctrl_cmd_def bind_eq_Some_conv)
    note k = send_socket_core [OF s(1) c(1) q [unfolded b(1)] b(2)]
    show ?thesis
    proof (rule conn_invI)
      assume o: "is_open (ss_slot ss1 ?i)"
      have ty: "sk_type (ss_slot ss1 ?i) = sk_type (ss_slot ss2 ?i)"
        using s(2) by (auto simp: dec_sending_ref_def Let_def split: if_splits)
      then have c2: "core sid (pending cs (ss_slot ?ss ?i)) iss ss2" using k(1) o by (simp add: is_open_def)
      then have "sk_id (ss_slot ss2 ?i) = sid" "sk_protocol (ss_slot ss2 ?i) = PROTOCOL_TCP" by (simp_all add: core_def Let_def live_def)
      then have ss1: "ss1 = upd ?i (\<lambda>s. s\<lparr>sk_sending := sk_sending s - 1\<rparr>) ss2"
        using s(2) by (auto simp: dec_sending_ref_def Let_def)
      have "core sid (pending cs (ss_slot ?ss ?i)) iss ss1"
        using c2 ss1 by (simp add: core_def Let_def live_def queue_ok_def flow_def)
      moreover have "pending cs (ss_slot ss1 ?i) = pending cs (ss_slot ?ss ?i)" using k(5) ss1 by (intro pending_cong) simp
      moreover have "rights sid cs ss1" using c(2) q b(1) k(2-5) ss1 by (simp add: rights_def Let_def)
      ultimately show "core sid (pending cs (ss_slot ss1 ?i)) iss ss1 \<and> rights sid cs ss1" by simp
    qed
  qed
qed

lemma write_event_inv:
  assumes "core sid (pending cs (ss_slot ss (HASH_ID sid))) iss ss" "rights sid cs ss"
    "send_buffer (HASH_ID sid) (ss\<lparr>ss_sys := rs\<rparr>) = Some (r, ss1)"
  shows "conn_inv sid (ss1, cs, iss)"
proof -
  let ?i = "HASH_ID sid" and ?ss = "ss\<lparr>ss_sys := rs\<rparr>"
  have c: "core sid (pending cs (ss_slot ?ss ?i)) iss ?ss" "rights sid cs ?ss"
    using assms(1,2) by (simp_all add: core_def rights_def Let_def)
  show ?thesis
  proof (cases "sk_locked (ss_slot ?ss ?i)")
    case True
    then have "ss1 = ?ss" using assms(3) by (simp add: send_buffer_def)
    then show ?thesis using quietly_inv [OF c] by simp
  next
    case False
    then have d: "directs cs = []" using c(2) by (simp add: rights_def Let_def)
    show ?thesis
    proof (rule conn_invI)
      assume "is_open (ss_slot ss1 ?i)"
      then have k: "core sid [] iss ss1" "steady ?i ?ss ss1" "sk_dw (ss_slot ss1 ?i) = None"
        using send_buffer_core [OF assms(3) False] c(1) d by (simp_all add: pending_def)
      then show "core sid (pending cs (ss_slot ss1 ?i)) iss ss1 \<and> rights sid cs ss1"
        using c(2) d False by (simp add: pending_def dw_rest_def rights_def Let_def steady_def split: if_splits)
    qed
  qed
qed

lemma read_event_inv:
  assumes "core sid (pending cs (ss_slot ss (HASH_ID sid))) iss ss" "rights sid cs ss"
    "forward_message_tcp (HASH_ID sid) (ss\<lparr>ss_sys := rs\<rparr>) = Some (r, ss1)"
  shows "conn_inv sid (ss1, cs, iss)"
proof -
  let ?i = "HASH_ID sid" and ?ss = "ss\<lparr>ss_sys := rs\<rparr>"
  have live: "live sid (ss_slot ss ?i)" using assms(1) by (simp add: core_def Let_def)
  obtain g ss2 where g: "sys_data ?ss = Some (g, ss2)" using assms(3) by (auto simp: forward_message_tcp_def Let_def bind_eq_Some_conv)
  then have q2: "quietly ?i ss ss2" "ss_slot ss2 = ss_slot ss" by (auto simp: sys_data_def quietly_def split: list.splits)
  have "quietly ?i ss2 ss1"
  proof (cases g)
    case (Ret n)
    then show ?thesis using assms(3) g by (auto simp: forward_message_tcp_def Let_def report_error_def split: if_splits)
  next
    case (Got bs a)
    consider "quietly ?i ss2 ss1" | m where "close_read ?i ss2 = Some (m, ss1)"
      using assms(3) g Got live
      by (auto simp: forward_message_tcp_def Let_def live_def bind_eq_Some_conv stat_read_def quietly_def alike_def split: if_splits)
    then show ?thesis
    proof cases
      case 2
      then obtain e ss3 where e: "enable_read ?i False (upd ?i (\<lambda>s. s\<lparr>sk_type := TY_HALFCLOSE_READ\<rparr>) ss2) = Some (e, ss3)"
          "ss1 = call (SShutdown (sk_fd (ss_slot ss3 ?i)) False) ss3"
        by (auto simp: close_read_def bind_eq_Some_conv)
      have "quietly ?i ss2 (upd ?i (\<lambda>s. s\<lparr>sk_type := TY_HALFCLOSE_READ\<rparr>) ss2)" by (simp add: quietly_upd alike_def)
      then have "quietly ?i ss2 ss3" using e(1) enable_quietly(1) quietly_trans by blast
      then show ?thesis using e(2) by (simp add: quietly_def)
    qed
  qed
  then have "quietly ?i ss ss1" using q2(1) quietly_trans by blast
  then show ?thesis by (rule quietly_inv [OF assms(1,2)])
qed

lemma conn_step_inv:
  assumes "conn_step sid c c'" "conn_inv sid c" "is_open (ss_slot (fst c) (HASH_ID sid))"
  shows "conn_inv sid c'"
  using assms
proof (induction rule: conn_step.induct)
  case (direct_begin ss b ss1 cs iss)
  then show ?case using direct_lock_inv by (auto simp: conn_inv_def [of sid "(ss, cs, iss)"])
next
  case (direct_end b rs ss r ss1 xs ys iss)
  then show ?case using direct_write_inv [OF _ _ direct_end(1)] by (simp add: conn_inv_def [of sid "(ss, xs @ PDirect b # ys, iss)"])
next
  case (trigger ss xs ys iss)
  then show ?case using trigger_inv by (auto simp: conn_inv_def [of sid "(ss, xs @ PTrigger # ys, iss)"])
next
  case (queue_begin ss b ss1 ss2 cs iss)
  moreover from this have "ss1 = ss" by (auto simp: direct_lock_def Let_def split: if_splits)
  ultimately show ?case using count_inv [of sid cs ss iss b HIGH ss2] by (auto simp: conn_inv_def [of sid "(ss, cs, iss)"])
next
  case (low_begin ss b ss1 cs iss)
  then show ?case using count_inv [of sid cs ss iss b LOW ss1] by (auto simp: conn_inv_def [of sid "(ss, cs, iss)"])
next
  case (enqueue ss xs p b ys iss)
  then show ?case using enqueue_inv by (auto simp: conn_inv_def [of sid "(ss, xs @ PCounted p b # ys, iss)"])
next
  case (request q ss cs iss)
  then show ?case using request_inv by (auto simp: conn_inv_def [of sid "(ss, cs, iss)"])
next
  case (command rs ss r ss1 cs iss)
  then show ?case using command_inv by (auto simp: conn_inv_def [of sid "(ss, cs, iss)"])
next
  case (write_event rs ss r ss1 cs iss)
  then show ?case using write_event_inv by (auto simp: conn_inv_def [of sid "(ss, cs, iss)"])
next
  case (read_event rs ss r ss1 cs iss)
  then show ?case using read_event_inv by (auto simp: conn_inv_def [of sid "(ss, cs, iss)"])
qed

lemma opened_inv: "opened sid ss \<Longrightarrow> conn_inv sid (ss, [], [])"
  by (auto simp: opened_def conn_inv_def core_def rights_def Let_def queue_ok_def flow_def pending_def dw_rest_def low_of_def
      intro!: exI [of _ "[]"])

lemma conn_reach_inv: "conn_reach sid c0 c \<Longrightarrow> conn_inv sid c0 \<Longrightarrow> conn_inv sid c"
  by (induction rule: conn_reach.induct) (auto intro: conn_step_inv)


text \<open>A direct write of which the system takes two of three bytes.\<close>

definition stream_example :: server where
  "stream_example = (socket_server_create 0 [])\<lparr>ss_slot := (\<lambda>i. socket_0)(7 := socket_0\<lparr>sk_id := 7, sk_fd := 9,
     sk_type := TY_CONNECTED, sk_protocol := PROTOCOL_TCP, sk_sending := ID_TAG16 7 * 2 ^ 16\<rparr>)\<rparr>"

definition stream_package :: sendbuffer where
  "stream_package = \<lparr>sb_id = 7, sb_type = SOCKET_BUFFER_MEMORY, sb_buffer = 1, sb_addr = 1, sb_data = [1, 2, 3]\<rparr>"


end
