(* ===== verification/Crypt_Des.thy ===== *)
theory Crypt_Des
  imports Wire
begin

section \<open>DES with padding (lualib-src/lua-crypt.c)\<close>

text \<open>
  \<open>desencode\<close> and \<open>desdecode\<close> of the crypt library: the block cipher on two halves of 32 bits with its tables, the schedule of the keys,
  the two paddings and the loops over the blocks. A call from Lua returns \<open>Inl\<close> with the text of a Lua error or \<open>Inr\<close> with a
  string; \<open>None\<close> is a read or write outside a buffer. The arguments are the strings and numbers that \<open>luaL_checklstring\<close> and
  \<open>luaL_optinteger\<close> give.

  The main results: decoding gives back what was encoded, for each key, text and padding, and an encoded
  text can make the PKCS7 check read in front of its buffer.
\<close>

type_synonym 'a lua = "string + 'a"

subsection \<open>Tables\<close>

definition SB1 :: "u32 list" where
  "SB1 = [
    0x1010400, 0x0, 0x10000, 0x1010404, 0x1010004, 0x10404, 0x4, 0x10000,
    0x400, 0x1010400, 0x1010404, 0x400, 0x1000404, 0x1010004, 0x1000000, 0x4,
    0x404, 0x1000400, 0x1000400, 0x10400, 0x10400, 0x1010000, 0x1010000, 0x1000404,
    0x10004, 0x1000004, 0x1000004, 0x10004, 0x0, 0x404, 0x10404, 0x1000000,
    0x10000, 0x1010404, 0x4, 0x1010000, 0x1010400, 0x1000000, 0x1000000, 0x400,
    0x1010004, 0x10000, 0x10400, 0x1000004, 0x400, 0x4, 0x1000404, 0x10404,
    0x1010404, 0x10004, 0x1010000, 0x1000404, 0x1000004, 0x404, 0x10404, 0x1010400,
    0x404, 0x1000400, 0x1000400, 0x0, 0x10004, 0x10400, 0x0, 0x1010004]"

definition SB2 :: "u32 list" where
  "SB2 = [
    0x80108020, 0x80008000, 0x8000, 0x108020, 0x100000, 0x20, 0x80100020, 0x80008020,
    0x80000020, 0x80108020, 0x80108000, 0x80000000, 0x80008000, 0x100000, 0x20, 0x80100020,
    0x108000, 0x100020, 0x80008020, 0x0, 0x80000000, 0x8000, 0x108020, 0x80100000,
    0x100020, 0x80000020, 0x0, 0x108000, 0x8020, 0x80108000, 0x80100000, 0x8020,
    0x0, 0x108020, 0x80100020, 0x100000, 0x80008020, 0x80100000, 0x80108000, 0x8000,
    0x80100000, 0x80008000, 0x20, 0x80108020, 0x108020, 0x20, 0x8000, 0x80000000,
    0x8020, 0x80108000, 0x100000, 0x80000020, 0x100020, 0x80008020, 0x80000020, 0x100020,
    0x108000, 0x0, 0x80008000, 0x8020, 0x80000000, 0x80100020, 0x80108020, 0x108000]"

definition SB3 :: "u32 list" where
  "SB3 = [
    0x208, 0x8020200, 0x0, 0x8020008, 0x8000200, 0x0, 0x20208, 0x8000200,
    0x20008, 0x8000008, 0x8000008, 0x20000, 0x8020208, 0x20008, 0x8020000, 0x208,
    0x8000000, 0x8, 0x8020200, 0x200, 0x20200, 0x8020000, 0x8020008, 0x20208,
    0x8000208, 0x20200, 0x20000, 0x8000208, 0x8, 0x8020208, 0x200, 0x8000000,
    0x8020200, 0x8000000, 0x20008, 0x208, 0x20000, 0x8020200, 0x8000200, 0x0,
    0x200, 0x20008, 0x8020208, 0x8000200, 0x8000008, 0x200, 0x0, 0x8020008,
    0x8000208, 0x20000, 0x8000000, 0x8020208, 0x8, 0x20208, 0x20200, 0x8000008,
    0x8020000, 0x8000208, 0x208, 0x8020000, 0x20208, 0x8, 0x8020008, 0x20200]"

definition SB4 :: "u32 list" where
  "SB4 = [
    0x802001, 0x2081, 0x2081, 0x80, 0x802080, 0x800081, 0x800001, 0x2001,
    0x0, 0x802000, 0x802000, 0x802081, 0x81, 0x0, 0x800080, 0x800001,
    0x1, 0x2000, 0x800000, 0x802001, 0x80, 0x800000, 0x2001, 0x2080,
    0x800081, 0x1, 0x2080, 0x800080, 0x2000, 0x802080, 0x802081, 0x81,
    0x800080, 0x800001, 0x802000, 0x802081, 0x81, 0x0, 0x0, 0x802000,
    0x2080, 0x800080, 0x800081, 0x1, 0x802001, 0x2081, 0x2081, 0x80,
    0x802081, 0x81, 0x1, 0x2000, 0x800001, 0x2001, 0x802080, 0x800081,
    0x2001, 0x2080, 0x800000, 0x802001, 0x80, 0x800000, 0x2000, 0x802080]"

definition SB5 :: "u32 list" where
  "SB5 = [
    0x100, 0x2080100, 0x2080000, 0x42000100, 0x80000, 0x100, 0x40000000, 0x2080000,
    0x40080100, 0x80000, 0x2000100, 0x40080100, 0x42000100, 0x42080000, 0x80100, 0x40000000,
    0x2000000, 0x40080000, 0x40080000, 0x0, 0x40000100, 0x42080100, 0x42080100, 0x2000100,
    0x42080000, 0x40000100, 0x0, 0x42000000, 0x2080100, 0x2000000, 0x42000000, 0x80100,
    0x80000, 0x42000100, 0x100, 0x2000000, 0x40000000, 0x2080000, 0x42000100, 0x40080100,
    0x2000100, 0x40000000, 0x42080000, 0x2080100, 0x40080100, 0x100, 0x2000000, 0x42080000,
    0x42080100, 0x80100, 0x42000000, 0x42080100, 0x2080000, 0x0, 0x40080000, 0x42000000,
    0x80100, 0x2000100, 0x40000100, 0x80000, 0x0, 0x40080000, 0x2080100, 0x40000100]"

definition SB6 :: "u32 list" where
  "SB6 = [
    0x20000010, 0x20400000, 0x4000, 0x20404010, 0x20400000, 0x10, 0x20404010, 0x400000,
    0x20004000, 0x404010, 0x400000, 0x20000010, 0x400010, 0x20004000, 0x20000000, 0x4010,
    0x0, 0x400010, 0x20004010, 0x4000, 0x404000, 0x20004010, 0x10, 0x20400010,
    0x20400010, 0x0, 0x404010, 0x20404000, 0x4010, 0x404000, 0x20404000, 0x20000000,
    0x20004000, 0x10, 0x20400010, 0x404000, 0x20404010, 0x400000, 0x4010, 0x20000010,
    0x400000, 0x20004000, 0x20000000, 0x4010, 0x20000010, 0x20404010, 0x404000, 0x20400000,
    0x404010, 0x20404000, 0x0, 0x20400010, 0x10, 0x4000, 0x20400000, 0x404010,
    0x4000, 0x400010, 0x20004010, 0x0, 0x20404000, 0x20000000, 0x400010, 0x20004010]"

definition SB7 :: "u32 list" where
  "SB7 = [
    0x200000, 0x4200002, 0x4000802, 0x0, 0x800, 0x4000802, 0x200802, 0x4200800,
    0x4200802, 0x200000, 0x0, 0x4000002, 0x2, 0x4000000, 0x4200002, 0x802,
    0x4000800, 0x200802, 0x200002, 0x4000800, 0x4000002, 0x4200000, 0x4200800, 0x200002,
    0x4200000, 0x800, 0x802, 0x4200802, 0x200800, 0x2, 0x4000000, 0x200800,
    0x4000000, 0x200800, 0x200000, 0x4000802, 0x4000802, 0x4200002, 0x4200002, 0x2,
    0x200002, 0x4000000, 0x4000800, 0x200000, 0x4200800, 0x802, 0x200802, 0x4200800,
    0x802, 0x4000002, 0x4200802, 0x4200000, 0x200800, 0x0, 0x2, 0x4200802,
    0x0, 0x200802, 0x4200000, 0x800, 0x4000002, 0x4000800, 0x800, 0x200002]"

definition SB8 :: "u32 list" where
  "SB8 = [
    0x10001040, 0x1000, 0x40000, 0x10041040, 0x10000000, 0x10001040, 0x40, 0x10000000,
    0x40040, 0x10040000, 0x10041040, 0x41000, 0x10041000, 0x41040, 0x1000, 0x40,
    0x10040000, 0x10000040, 0x10001000, 0x1040, 0x41000, 0x40040, 0x10040040, 0x10041000,
    0x1040, 0x0, 0x0, 0x10040040, 0x10000040, 0x10001000, 0x41040, 0x40000,
    0x41040, 0x40000, 0x10041000, 0x1000, 0x40, 0x10040040, 0x1000, 0x41040,
    0x10001000, 0x40, 0x10000040, 0x10040000, 0x10040040, 0x10000000, 0x40000, 0x10001040,
    0x0, 0x10041040, 0x40040, 0x10000040, 0x10040000, 0x10001000, 0x10001040, 0x0,
    0x10041040, 0x41000, 0x41000, 0x1040, 0x1040, 0x40040, 0x10000000, 0x10041000]"

definition LHs :: "u32 list" where
  "LHs = [
    0x0, 0x1, 0x100, 0x101, 0x10000, 0x10001, 0x10100, 0x10101,
    0x1000000, 0x1000001, 0x1000100, 0x1000101, 0x1010000, 0x1010001, 0x1010100, 0x1010101]"

definition RHs :: "u32 list" where
  "RHs = [
    0x0, 0x1000000, 0x10000, 0x1010000, 0x100, 0x1000100, 0x10100, 0x1010100,
    0x1, 0x1000001, 0x10001, 0x1010001, 0x101, 0x1000101, 0x10101, 0x1010101]"


subsection \<open>The block cipher\<close>

definition GET_UINT32 :: "bytes \<Rightarrow> nat \<Rightarrow> u32" where
  "GET_UINT32 b i = push_bit 24 (ucast (b ! i)) OR push_bit 16 (ucast (b ! (i + 1))) OR
     push_bit 8 (ucast (b ! (i + 2))) OR ucast (b ! (i + 3))"

definition PUT_UINT32 :: "u32 \<Rightarrow> bytes" where
  "PUT_UINT32 n = [ucast (drop_bit 24 n), ucast (drop_bit 16 n), ucast (drop_bit 8 n), ucast n]"

text \<open>The bits of \<open>y\<close> under the mask change places with those of \<open>x\<close> that are \<open>k\<close> bits higher.\<close>

definition swap_bits :: "nat \<Rightarrow> u32 \<Rightarrow> u32 \<times> u32 \<Rightarrow> u32 \<times> u32" where
  "swap_bits k m = (\<lambda>(x, y). let t = (drop_bit k x XOR y) AND m in (x XOR push_bit k t, y XOR t))"

definition DES_IP :: "u32 \<times> u32 \<Rightarrow> u32 \<times> u32" where
  "DES_IP xy0 =
     (let xy1 = swap_bits 4 0x0F0F0F0F xy0;
          xy2 = swap_bits 16 0x0000FFFF xy1;
          yx3 = swap_bits 2 0x33333333 (snd xy2, fst xy2);
          yx4 = swap_bits 8 0x00FF00FF yx3;
          x = snd yx4;
          y = (push_bit 1 (fst yx4) OR drop_bit 31 (fst yx4)) AND 0xFFFFFFFF;
          t = (x XOR y) AND 0xAAAAAAAA;
          y' = y XOR t; x' = x XOR t in
      ((push_bit 1 x' OR drop_bit 31 x') AND 0xFFFFFFFF, y'))"

definition DES_FP :: "u32 \<times> u32 \<Rightarrow> u32 \<times> u32" where
  "DES_FP = (\<lambda>(x0, y0).
      let x = (push_bit 31 x0 OR drop_bit 1 x0) AND 0xFFFFFFFF;
          t = (x XOR y0) AND 0xAAAAAAAA;
          x1 = x XOR t; y1 = y0 XOR t;
          y2 = (push_bit 31 y1 OR drop_bit 1 y1) AND 0xFFFFFFFF;
          yx3 = swap_bits 8 0x00FF00FF (y2, x1);
          yx4 = swap_bits 2 0x33333333 yx3;
          xy5 = swap_bits 16 0x0000FFFF (snd yx4, fst yx4) in
      swap_bits 4 0x0F0F0F0F xy5)"

definition sbox :: "u32 list \<Rightarrow> nat \<Rightarrow> u32 \<Rightarrow> u32" where
  "sbox sb k t = sb ! unat (drop_bit k t AND 0x3F)"

text \<open>What one \<open>DES_ROUND\<close> adds to \<open>Y\<close>, with two words of the key schedule.\<close>

definition DES_ROUND :: "u32 \<Rightarrow> u32 \<Rightarrow> u32 \<Rightarrow> u32 \<Rightarrow> u32" where
  "DES_ROUND k1 k2 x y =
     (let t = k1 XOR x;
          y1 = y XOR sbox SB8 0 t XOR sbox SB6 8 t XOR sbox SB4 16 t XOR sbox SB2 24 t;
          t' = k2 XOR (push_bit 28 x OR drop_bit 4 x) in
      y1 XOR sbox SB7 0 t' XOR sbox SB5 8 t' XOR sbox SB3 16 t' XOR sbox SB1 24 t')"

text \<open>The eight lines \<open>DES_ROUND(Y, X); DES_ROUND(X, Y)\<close>, which read four words of the schedule each.\<close>

fun des_rounds :: "u32 list \<Rightarrow> u32 \<times> u32 \<Rightarrow> u32 \<times> u32" where
  "des_rounds (k1 # k2 # k3 # k4 # sk) (x, y) =
     (let x' = DES_ROUND k1 k2 y x; y' = DES_ROUND k3 k4 x' y in des_rounds sk (x', y'))"
| "des_rounds _ xy = xy"

definition des_crypt :: "u32 list \<Rightarrow> bytes \<Rightarrow> bytes" where
  "des_crypt sk input =
     (let xy1 = DES_IP (GET_UINT32 input 0, GET_UINT32 input 4);
          xy2 = des_rounds sk xy1;
          yx = DES_FP (snd xy2, fst xy2) in
      PUT_UINT32 (fst yx) @ PUT_UINT32 (snd yx))"

subsection \<open>The schedule of the keys\<close>

definition half_key :: "u32 list \<Rightarrow> u32 \<Rightarrow> nat list \<Rightarrow> u32" where
  "half_key hs w ks = foldr (OR) (map (\<lambda>(i, k). push_bit i (hs ! unat (drop_bit k w AND 0xF))) (zip [3, 2, 1, 0, 7, 6, 5, 4] ks)) 0"

definition permuted_choice_1 :: "u32 \<times> u32 \<Rightarrow> u32 \<times> u32" where
  "permuted_choice_1 xy0 =
     (let yx1 = swap_bits 4 0x0F0F0F0F (snd xy0, fst xy0);
          yx2 = swap_bits 0 0x10101010 yx1 in
      (half_key LHs (snd yx2) [0, 8, 16, 24, 5, 13, 21, 29] AND 0x0FFFFFFF,
       half_key RHs (fst yx2) [1, 9, 17, 25, 4, 12, 20, 28] AND 0x0FFFFFFF))"

definition subkey1 :: "u32 \<Rightarrow> u32 \<Rightarrow> u32" where
  "subkey1 x y =
     (push_bit 4 x AND 0x24000000) OR (push_bit 28 x AND 0x10000000) OR (push_bit 14 x AND 0x08000000) OR (push_bit 18 x AND 0x02080000) OR
     (push_bit 6 x AND 0x01000000) OR (push_bit 9 x AND 0x00200000) OR (drop_bit 1 x AND 0x00100000) OR (push_bit 10 x AND 0x00040000) OR
     (push_bit 2 x AND 0x00020000) OR (drop_bit 10 x AND 0x00010000) OR (drop_bit 13 y AND 0x00002000) OR (drop_bit 4 y AND 0x00001000) OR
     (push_bit 6 y AND 0x00000800) OR (drop_bit 1 y AND 0x00000400) OR (drop_bit 14 y AND 0x00000200) OR (y AND 0x00000100) OR
     (drop_bit 5 y AND 0x00000020) OR (drop_bit 10 y AND 0x00000010) OR (drop_bit 3 y AND 0x00000008) OR (drop_bit 18 y AND 0x00000004) OR
     (drop_bit 26 y AND 0x00000002) OR (drop_bit 24 y AND 0x00000001)"

definition subkey2 :: "u32 \<Rightarrow> u32 \<Rightarrow> u32" where
  "subkey2 x y =
     (push_bit 15 x AND 0x20000000) OR (push_bit 17 x AND 0x10000000) OR (push_bit 10 x AND 0x08000000) OR (push_bit 22 x AND 0x04000000) OR
     (drop_bit 2 x AND 0x02000000) OR (push_bit 1 x AND 0x01000000) OR (push_bit 16 x AND 0x00200000) OR (push_bit 11 x AND 0x00100000) OR
     (push_bit 3 x AND 0x00080000) OR (drop_bit 6 x AND 0x00040000) OR (push_bit 15 x AND 0x00020000) OR (drop_bit 4 x AND 0x00010000) OR
     (drop_bit 2 y AND 0x00002000) OR (push_bit 8 y AND 0x00001000) OR (drop_bit 14 y AND 0x00000808) OR (drop_bit 9 y AND 0x00000400) OR
     (y AND 0x00000200) OR (push_bit 7 y AND 0x00000100) OR (drop_bit 7 y AND 0x00000020) OR (drop_bit 3 y AND 0x00000011) OR
     (push_bit 2 y AND 0x00000004) OR (drop_bit 21 y AND 0x00000002)"

definition rotate28 :: "nat \<Rightarrow> u32 \<Rightarrow> u32" where
  "rotate28 k w = (push_bit k w OR drop_bit (28 - k) w) AND 0x0FFFFFFF"

definition ks_step :: "nat \<Rightarrow> u32 \<times> u32 \<times> u32 list \<Rightarrow> u32 \<times> u32 \<times> u32 list" where
  "ks_step i = (\<lambda>(x, y, sk).
     let k = (if i < 2 \<or> i = 8 \<or> i = 15 then 1 else 2); x' = rotate28 k x; y' = rotate28 k y in
     (x', y', sk @ [subkey1 x' y', subkey2 x' y']))"

definition des_main_ks :: "bytes \<Rightarrow> u32 list" where
  "des_main_ks key =
     (let (x, y) = permuted_choice_1 (GET_UINT32 key 0, GET_UINT32 key 4) in
      snd (snd (fold ks_step [0..<16] (x, y, []))))"

definition des_key :: "bytes \<Rightarrow> u32 list lua" where
  "des_key key = (if length key \<noteq> 8 then Inl ''Invalid key size %d, need 8 bytes'' else Inr (des_main_ks key))"

subsection \<open>Paddings\<close>

definition PADDING_MODE_ISO7816_4 :: int where "PADDING_MODE_ISO7816_4 = 0"
definition PADDING_MODE_PKCS7 :: int where "PADDING_MODE_PKCS7 = 1"
definition PADDING_MODE_COUNT :: int where "PADDING_MODE_COUNT = 2"

text \<open>The argument for the mode: 64 bits, or nothing, converted to an \<open>int\<close>.\<close>

definition padding_mode :: "u64 option \<Rightarrow> int" where
  "padding_mode m = (case m of None \<Rightarrow> PADDING_MODE_ISO7816_4 | Some w \<Rightarrow> sint (ucast w :: u32))"

definition check_padding_mode :: "int \<Rightarrow> unit lua" where
  "check_padding_mode mode = (if mode < 0 \<or> PADDING_MODE_COUNT \<le> mode then Inl ''Invalid padding mode %d'' else Inr ())"

text \<open>The paddings behind the last bytes of the text, which are fewer than eight.\<close>

definition padding_add_iso7816_4 :: "bytes \<Rightarrow> bytes" where
  "padding_add_iso7816_4 buf = buf @ [0x80] @ replicate (7 - length buf) 0"

definition padding_add_pkcs7 :: "bytes \<Rightarrow> bytes" where
  "padding_add_pkcs7 buf = buf @ replicate (8 - length buf) (word_of_nat (8 - length buf))"

definition add_padding :: "bytes \<Rightarrow> int \<Rightarrow> bytes lua" where
  "add_padding src mode =
     (case check_padding_mode mode of
        Inl e \<Rightarrow> Inl e
      | Inr _ \<Rightarrow>
          if 8 \<le> length src then Inl ''Invalid padding''
          else Inr (if mode = PADDING_MODE_ISO7816_4 then padding_add_iso7816_4 src else padding_add_pkcs7 src))"

text \<open>The loops that read a padding go backwards from the last byte: the list is the buffer in reverse, and its end is the start of the buffer.\<close>

fun iso7816_4_loop :: "nat \<Rightarrow> int \<Rightarrow> bytes \<Rightarrow> int option" where
  "iso7816_4_loop 0 padding below = Some 0"
| "iso7816_4_loop (Suc n) padding [] = None"
| "iso7816_4_loop (Suc n) padding (b # below) =
     (if b = 0 then iso7816_4_loop n (padding + 1) below else if b = 0x80 then Some padding else Some 0)"

definition padding_remove_iso7816_4 :: "bytes \<Rightarrow> int option" where
  "padding_remove_iso7816_4 buffer = iso7816_4_loop 8 1 (rev buffer)"

fun pkcs7_loop :: "nat \<Rightarrow> u8 \<Rightarrow> bytes \<Rightarrow> bool option" where
  "pkcs7_loop 0 padding below = Some True"
| "pkcs7_loop (Suc n) padding [] = None"
| "pkcs7_loop (Suc n) padding (b # below) = (if b \<noteq> padding then Some False else pkcs7_loop n padding below)"

definition padding_remove_pkcs7 :: "bytes \<Rightarrow> int option" where
  "padding_remove_pkcs7 buffer =
     (case rev buffer of
        [] \<Rightarrow> None
      | padding # below \<Rightarrow> do {
          valid \<leftarrow> pkcs7_loop (unat padding - 1) padding below;
          Some (if valid then uint padding else 0) })"

definition remove_padding :: "bytes \<Rightarrow> int \<Rightarrow> int lua option" where
  "remove_padding buffer mode =
     (case check_padding_mode mode of
        Inl e \<Rightarrow> Some (Inl e)
      | Inr _ \<Rightarrow> do {
          n \<leftarrow> (if mode = PADDING_MODE_ISO7816_4 then padding_remove_iso7816_4 buffer else padding_remove_pkcs7 buffer);
          Some (Inr n) })"

subsection \<open>The calls from Lua\<close>

text \<open>The loop over the blocks of eight bytes: the output and the rest of the text.\<close>

function des_blocks :: "u32 list \<Rightarrow> bytes \<Rightarrow> bytes \<times> bytes" where
  "des_blocks sk text =
     (if 8 \<le> length text then let (out, rest) = des_blocks sk (drop 8 text) in (des_crypt sk (take 8 text) @ out, rest)
      else ([], text))"
  by pat_completeness auto
termination by (relation "measure (\<lambda>(sk, text). length text)") auto

declare des_blocks.simps [simp del]

definition ldesencode :: "bytes \<Rightarrow> bytes \<Rightarrow> u64 option \<Rightarrow> bytes lua option" where
  "ldesencode key text mode =
     (case des_key key of
        Inl e \<Rightarrow> Some (Inl e)
      | Inr sk \<Rightarrow>
          let chunksz = 8 * ((length text + 8) div 8); (out, rest) = des_blocks sk text in
          case add_padding rest (padding_mode mode) of
            Inl e \<Rightarrow> Some (Inl e)
          | Inr tail \<Rightarrow> let buffer = out @ des_crypt sk tail in do {
              c_assert (length buffer = chunksz);
              Some (Inr buffer) })"

fun reverse_pairs :: "u32 list \<Rightarrow> u32 list" where
  "reverse_pairs (a # b # sk) = reverse_pairs sk @ [a, b]"
| "reverse_pairs sk = []"

definition ldesdecode :: "bytes \<Rightarrow> bytes \<Rightarrow> u64 option \<Rightarrow> bytes lua option" where
  "ldesdecode key text mode =
     (case des_key key of
        Inl e \<Rightarrow> Some (Inl e)
      | Inr esk \<Rightarrow>
          let sk = reverse_pairs esk in
          if length text mod 8 \<noteq> 0 \<or> text = [] then Some (Inl ''Invalid des crypt text length %d'')
          else let buffer = fst (des_blocks sk text) in do {
            r \<leftarrow> remove_padding buffer (padding_mode mode);
            Some (case r of
                Inl e \<Rightarrow> Inl e
              | Inr padding \<Rightarrow>
                  if padding \<le> 0 \<or> 8 < padding then Inl ''Invalid des crypt text''
                  else Inr (take (length text - nat padding) buffer)) })"

subsection \<open>The cipher is inverted by the reversed schedule\<close>

lemma swap_bits_involution:
  assumes "drop_bit k (push_bit k m) = m"
  shows "swap_bits k m (swap_bits k m xy) = xy"
proof -
  obtain x y where xy: "xy = (x, y)" by force
  define t where "t = (drop_bit k x XOR y) AND m"
  have m: "bit m n \<Longrightarrow> n + k < 32" for n
    using assms [THEN arg_cong, of "\<lambda>w. bit w n"] by (auto simp: bit_drop_bit_eq bit_push_bit_iff)
  have t: "(drop_bit k (x XOR push_bit k t) XOR (y XOR t)) AND m = t"
  proof (rule bit_word_eqI)
    fix n :: nat
    assume "n < LENGTH(32)"
    show "bit ((drop_bit k (x XOR push_bit k t) XOR (y XOR t)) AND m) n = bit t n"
      using m [of n] by (auto simp: t_def bit_and_iff bit_xor_iff bit_drop_bit_eq bit_push_bit_iff add.commute)
  qed
  have s: "swap_bits k m (x, y) = (x XOR push_bit k t, y XOR t)" by (simp only: swap_bits_def t_def Let_def split)
  have "swap_bits k m (x XOR push_bit k t, y XOR t) = (x, y)"
    by (simp only: swap_bits_def split Let_def t) (simp only: xor.assoc bit.xor_self xor.right_neutral)
  then show ?thesis by (simp only: xy s)
qed

lemma bit_32: "bit (push_bit k (x :: u32)) n \<longleftrightarrow> k \<le> n \<and> n < 32 \<and> bit x (n - k)" "bit (drop_bit k x) n \<longleftrightarrow> bit x (n + k)"
  by (auto simp: bit_push_bit_iff bit_drop_bit_eq add.commute)

lemma rotate_back:
  "push_bit 31 (push_bit 1 x OR drop_bit 31 x) OR drop_bit 1 (push_bit 1 x OR drop_bit 31 x) = (x :: u32)" (is "?l = _")
  "push_bit 1 (push_bit 31 x OR drop_bit 1 x) OR drop_bit 31 (push_bit 31 x OR drop_bit 1 x) = (x :: u32)" (is "?r = _")
proof -
  show "?l = x"
  proof (rule bit_word_eqI)
    fix n :: nat
    assume "n < LENGTH(32)"
    then have "n < 32" by simp
    then have "n = 31 \<or> n < 31" by linarith
    then show "bit ?l n = bit x n" by (simp only: bit_or_iff bit_32) (auto dest: bit_imp_le_length)
  qed
  show "?r = x"
  proof (rule bit_word_eqI)
    fix n :: nat
    assume "n < LENGTH(32)"
    then have "n < 32" by simp
    then have "n = 0 \<or> 0 < n" by linarith
    then show "bit ?r n = bit x n" using \<open>n < 32\<close> by (simp only: bit_or_iff bit_32) (auto dest: bit_imp_le_length)
  qed
qed

text \<open>Both permutations as compositions of steps that are their own inverses, with rotations between them.\<close>

definition rol1 :: "u32 \<Rightarrow> u32" where "rol1 w = push_bit 1 w OR drop_bit 31 w"
definition ror1 :: "u32 \<Rightarrow> u32" where "ror1 w = push_bit 31 w OR drop_bit 1 w"

lemma ror1_rol1 [simp]: "ror1 (rol1 w) = w" "rol1 (ror1 w) = w"
  using rotate_back [of w] by (simp_all only: rol1_def ror1_def)

lemma swap_steps [simp]:
  "swap_bits 0 0xAAAAAAAA (swap_bits 0 0xAAAAAAAA xy) = xy" "swap_bits 2 0x33333333 (swap_bits 2 0x33333333 xy) = xy"
  "swap_bits 4 0x0F0F0F0F (swap_bits 4 0x0F0F0F0F xy) = xy" "swap_bits 8 0x00FF00FF (swap_bits 8 0x00FF00FF xy) = xy"
  "swap_bits 16 0x0000FFFF (swap_bits 16 0x0000FFFF xy) = xy"
  by (rule swap_bits_involution, simp)+

lemma and_ones [simp]: "w AND 0xFFFFFFFF = (w :: u32)"
proof -
  have "(0xFFFFFFFF :: u32) = mask 32" by (simp add: mask_eq_exp_minus_1)
  then show ?thesis by (simp only: take_bit_eq_mask [symmetric] and.commute) (simp add: take_bit_word_eq_self)
qed

lemma DES_IP_steps: "DES_IP xy =
    apfst rol1 (swap_bits 0 0xAAAAAAAA (apsnd rol1 (prod.swap (swap_bits 8 0x00FF00FF (swap_bits 2 0x33333333
      (prod.swap (swap_bits 16 0x0000FFFF (swap_bits 4 0x0F0F0F0F xy))))))))"
  by (simp only: DES_IP_def Let_def prod.swap_def and_ones rol1_def [symmetric])
    (simp only: swap_bits_def [of 0] drop_bit_0 push_bit_0_id id_apply split_beta apsnd_conv apfst_conv fst_conv snd_conv Let_def)

lemma DES_FP_steps: "DES_FP xy =
    swap_bits 4 0x0F0F0F0F (swap_bits 16 0x0000FFFF (prod.swap (swap_bits 2 0x33333333 (swap_bits 8 0x00FF00FF
      (prod.swap (apsnd ror1 (swap_bits 0 0xAAAAAAAA (apfst ror1 xy))))))))"
  by (cases xy) (simp only: DES_FP_def Let_def prod.swap_def and_ones ror1_def [symmetric] split
       swap_bits_def [of 0] drop_bit_0 push_bit_0_id id_apply split_beta apsnd_conv apfst_conv fst_conv snd_conv)

lemma apsnd_inv [simp]: "apsnd rol1 (apsnd ror1 xy) = xy" "apsnd ror1 (apsnd rol1 xy) = xy"
  "apfst rol1 (apfst ror1 xy) = xy" "apfst ror1 (apfst rol1 xy) = xy"
  by (cases xy, simp)+

lemma DES_IP_FP [simp]: "DES_IP (DES_FP xy) = xy" "DES_FP (DES_IP xy) = xy"
  by (simp_all only: DES_IP_steps DES_FP_steps swap_steps swap_swap apsnd_inv)

text \<open>The rounds in the reverse order, with the halves exchanged, take each round back.\<close>

lemma DES_ROUND_self [simp]: "DES_ROUND k1 k2 x (DES_ROUND k1 k2 x y) = y"
proof -
  have "DES_ROUND k1 k2 x y = y XOR DES_ROUND k1 k2 x 0" for y by (simp add: DES_ROUND_def Let_def xor.assoc)
  then have "DES_ROUND k1 k2 x (DES_ROUND k1 k2 x y) = y XOR (DES_ROUND k1 k2 x 0 XOR DES_ROUND k1 k2 x 0)"
    by (metis xor.assoc)
  then show ?thesis by simp
qed

lemma des_rounds_append:
  "4 dvd length a \<Longrightarrow> des_rounds (a @ b) xy = des_rounds b (des_rounds a xy)"
proof (induction a xy rule: des_rounds.induct)
  case (1 k1 k2 k3 k4 sk x y)
  then have "4 dvd length sk" by (simp add: dvd_def) presburger
  with 1 show ?case by (simp add: Let_def)
qed (auto dest: dvd_imp_le)

lemma length_reverse_pairs: "even (length sk) \<Longrightarrow> length (reverse_pairs sk) = length sk"
  by (induction sk rule: reverse_pairs.induct) auto

lemma des_rounds_back:
  "4 dvd length sk \<Longrightarrow> des_rounds (reverse_pairs sk) (prod.swap (des_rounds sk xy)) = prod.swap xy"
proof (induction sk xy rule: des_rounds.induct)
  case (1 k1 k2 k3 k4 sk x y)
  then have d: "4 dvd length sk" by (simp add: dvd_def) presburger
  have "even (length sk)" using d by (meson dvd_trans even_numeral)
  with d have "4 dvd length (reverse_pairs sk)" by (simp add: length_reverse_pairs)
  with 1 d show ?case by (simp add: Let_def des_rounds_append)
qed (auto dest: dvd_imp_le)

lemma ucast_and_0xff: "ucast (x AND 0xff) = (ucast (x :: u32) :: u8)"
  by (rule bit_word_eqI) (simp only: bit_byte_0, simp add: bit_ucast_iff)

lemma byte_of_word:
  fixes a b c d :: u8
  defines "w \<equiv> push_bit 24 (ucast a) OR push_bit 16 (ucast b) OR push_bit 8 (ucast c) OR ucast d :: u32"
  shows "ucast (drop_bit 24 w) = a" "ucast (drop_bit 16 w) = b" "ucast (drop_bit 8 w) = c" "ucast w = d"
proof -
  have w: "bit w n \<longleftrightarrow> 24 \<le> n \<and> n < 32 \<and> bit a (n - 24) \<or> 16 \<le> n \<and> n < 32 \<and> bit b (n - 16) \<or>
      8 \<le> n \<and> n < 32 \<and> bit c (n - 8) \<or> n < 32 \<and> bit d n" for n
    by (simp only: w_def bit_or_iff bit_placed bit_placed_0)
  have h: "bit x n \<Longrightarrow> n < 8" for x :: u8 and n by (auto dest: bit_imp_le_length)
  have u: "bit (ucast (drop_bit k w) :: u8) n \<longleftrightarrow> n < 8 \<and> bit w (n + k)" for n k
    by (auto simp: bit_ucast_iff bit_drop_bit_eq add.commute)
  have v: "bit (ucast w :: u8) n \<longleftrightarrow> n < 8 \<and> bit w n" for n by (auto simp: bit_ucast_iff)
  show "ucast (drop_bit 24 w) = a" by (rule bit_word_eqI) (auto simp: u w dest: h)
  show "ucast (drop_bit 16 w) = b" by (rule bit_word_eqI) (auto simp: u w dest: h)
  show "ucast (drop_bit 8 w) = c" by (rule bit_word_eqI) (auto simp: u w dest: h)
  show "ucast w = d" by (rule bit_word_eqI) (auto simp: v w dest: h)
qed

lemma GET_PUT: "GET_UINT32 (PUT_UINT32 x @ b) 0 = x" "GET_UINT32 (PUT_UINT32 x @ PUT_UINT32 y) 4 = y"
proof -
  have e: "PUT_UINT32 n = to_bigendian n" for n
    by (simp add: PUT_UINT32_def to_bigendian_def ucast_and_0xff)
  have "GET_UINT32 b i = from_bigendian (drop i b)" if "i + 3 < length b" for b i
    using that by (simp add: GET_UINT32_def from_bigendian_def)
  then show "GET_UINT32 (PUT_UINT32 x @ b) 0 = x" "GET_UINT32 (PUT_UINT32 x @ PUT_UINT32 y) 4 = y"
    using from_to_bigendian [of y "[]"] by (simp_all add: e)
qed

lemma PUT_GET:
  assumes "length b = 8"
  shows "PUT_UINT32 (GET_UINT32 b 0) @ PUT_UINT32 (GET_UINT32 b 4) = b"
proof -
  obtain b0 b1 b2 b3 b4 b5 b6 b7 where b: "b = [b0, b1, b2, b3, b4, b5, b6, b7]"
    using assms by (auto simp: length_Suc_conv eval_nat_numeral)
  show ?thesis by (simp add: b PUT_UINT32_def GET_UINT32_def byte_of_word del: drop_bit_or)
qed

lemma length_des_crypt [simp]: "length (des_crypt sk b) = 8"
  by (simp add: des_crypt_def PUT_UINT32_def Let_def)

lemma des_crypt_back:
  assumes "4 dvd length sk" "length b = 8"
  shows "des_crypt (reverse_pairs sk) (des_crypt sk b) = b"
proof -
  have "des_rounds (reverse_pairs sk) (snd xy, fst xy) = (snd xy', fst xy')" if "xy = des_rounds sk xy'" for xy xy'
    using des_rounds_back [OF assms(1), of xy'] by (simp add: that prod.swap_def)
  from this [OF refl] show ?thesis
    using PUT_GET [OF assms(2)] by (simp add: des_crypt_def Let_def GET_PUT)
qed

subsection \<open>Blocks and paddings\<close>

lemma des_blocks_small: "length text < 8 \<Longrightarrow> des_blocks sk text = ([], text)"
  by (simp add: des_blocks.simps)

lemma des_blocks_step: "length b = 8 \<Longrightarrow> des_blocks sk (b @ text) = apfst ((@) (des_crypt sk b)) (des_blocks sk text)"
  by (subst des_blocks.simps) (simp add: split_beta apfst_def map_prod_def)

text \<open>Induction over the blocks of a text.\<close>

lemma blocks_induct [case_names small block]:
  assumes "\<And>t. length t < 8 \<Longrightarrow> P t" "\<And>b t. length b = 8 \<Longrightarrow> P t \<Longrightarrow> P (b @ t)"
  shows "P (t :: 'a list)"
proof (induction "length t" arbitrary: t rule: less_induct)
  case less
  show ?case
  proof (cases "length t < 8")
    case False
    then have "P (drop 8 t)" by (intro less) simp
    with False assms(2) [of "take 8 t" "drop 8 t"] show ?thesis by simp
  qed (rule assms(1))
qed

lemma div_block [simp]: "((8 :: nat) + n) div 8 = Suc (n div 8)" "((n :: nat) + 8) div 8 = Suc (n div 8)"
  by simp_all

lemma des_blocks_props:
  "length (fst (des_blocks sk t)) = 8 * (length t div 8) \<and> snd (des_blocks sk t) = drop (8 * (length t div 8)) t"
  by (induction t rule: blocks_induct) (simp_all add: des_blocks_small des_blocks_step)

lemma des_blocks_append:
  "8 dvd length t \<Longrightarrow> des_blocks sk (t @ u) = apfst ((@) (fst (des_blocks sk t))) (des_blocks sk u)"
proof (induction t rule: blocks_induct)
  case (small t)
  then have "t = []" by (auto dest: dvd_imp_le)
  then show ?case by (cases "des_blocks sk u") (simp add: des_blocks_small)
next
  case (block b t)
  then show ?case by (cases "des_blocks sk u") (simp add: des_blocks_step)
qed

lemma des_blocks_back:
  assumes "4 dvd length sk"
  shows "fst (des_blocks (reverse_pairs sk) (fst (des_blocks sk t))) = take (8 * (length t div 8)) t"
  by (induction t rule: blocks_induct) (simp_all add: des_blocks_small des_blocks_step des_crypt_back [OF assms])

text \<open>The padded tail is one block, and the length of the padding is read back from any buffer that ends with it.\<close>

lemma iso7816_4_zeros:
  "n < k \<Longrightarrow> iso7816_4_loop k p (replicate n 0 @ 0x80 # below) = Some (p + int n)"
proof (induction n arbitrary: k p)
  case (Suc n)
  then obtain k' where "k = Suc k'" by (cases k) simp_all
  with Suc show ?case by simp
qed (auto simp: gr0_conv_Suc)

lemma padding_iso7816_4:
  assumes "length t < 8"
  obtains p where "padding_add_iso7816_4 t = t @ p" "length (t @ p) = 8" "p \<noteq> []"
    "\<And>u. padding_remove_iso7816_4 (u @ p) = Some (int (length p))"
proof (rule that [of "0x80 # replicate (7 - length t) 0"])
  show "padding_remove_iso7816_4 (u @ 0x80 # replicate (7 - length t) 0) = Some (int (length (0x80 # replicate (7 - length t) 0 :: bytes)))" for u
    using iso7816_4_zeros [of "7 - length t" 8 1 "rev u"] by (simp add: padding_remove_iso7816_4_def)
qed (use assms in \<open>simp_all add: padding_add_iso7816_4_def\<close>)

lemma pkcs7_replicate: "pkcs7_loop n v (replicate n v @ below) = Some True"
  by (induction n) auto

lemma padding_pkcs7:
  assumes "length t < 8"
  obtains p where "padding_add_pkcs7 t = t @ p" "length (t @ p) = 8" "p \<noteq> []"
    "\<And>u. padding_remove_pkcs7 (u @ p) = Some (int (length p))"
proof -
  define k where "k = 8 - length t"
  have k: "0 < k" "k \<le> 8" using assms by (auto simp: k_def)
  then have u: "unat (word_of_nat k :: u8) = k" "uint (word_of_nat k :: u8) = int k" by (simp_all add: unat_of_nat uint_nat)
  obtain m where m: "k = Suc m" using k(1) gr0_implies_Suc by blast
  have "rev (u @ replicate k (word_of_nat k)) = word_of_nat k # replicate m (word_of_nat k) @ rev u" for u :: bytes
    by (simp add: m replicate_append_same del: of_nat_Suc)
  then have "padding_remove_pkcs7 (u @ replicate k (word_of_nat k)) = Some (int k)" for u
    using u pkcs7_replicate by (simp add: padding_remove_pkcs7_def m del: of_nat_Suc)
  then show ?thesis
    using that [of "replicate k (word_of_nat k)"] k assms by (simp add: padding_add_pkcs7_def k_def)
qed

lemma length_ks: "length (snd (snd (fold ks_step is s))) = length (snd (snd s)) + 2 * length is"
  by (induction "is" arbitrary: s) (simp_all add: ks_step_def split_beta Let_def)

lemma length_des_main_ks [simp]: "length (des_main_ks key) = 32"
  by (simp add: des_main_ks_def split_beta length_ks del: upt_conv_Cons)

lemma add_padding_ok:
  assumes "length t < 8" "mode = 0 \<or> mode = 1"
  obtains p where "add_padding t mode = Inr (t @ p)" "length (t @ p) = 8" "p \<noteq> []"
    "\<And>u. remove_padding (u @ p) mode = Some (Inr (int (length p)))"
proof (cases "mode = 0")
  case True
  obtain p where "padding_add_iso7816_4 t = t @ p" "length (t @ p) = 8" "p \<noteq> []" "\<And>u. padding_remove_iso7816_4 (u @ p) = Some (int (length p))"
    using padding_iso7816_4 [OF assms(1)] by blast
  then show ?thesis
    using True assms(1) by (intro that [of p])
      (simp_all add: add_padding_def remove_padding_def check_padding_mode_def PADDING_MODE_COUNT_def PADDING_MODE_ISO7816_4_def)
next
  case False
  obtain p where "padding_add_pkcs7 t = t @ p" "length (t @ p) = 8" "p \<noteq> []" "\<And>u. padding_remove_pkcs7 (u @ p) = Some (int (length p))"
    using padding_pkcs7 [OF assms(1)] by blast
  then show ?thesis
    using False assms by (intro that [of p])
      (simp_all add: add_padding_def remove_padding_def check_padding_mode_def PADDING_MODE_COUNT_def PADDING_MODE_ISO7816_4_def)
qed



subsection \<open>Texts that were not encoded\<close>

lemma pkcs7_loop_None: "pkcs7_loop n v bs = None \<longleftrightarrow> length bs < n \<and> bs = replicate (length bs) v"
  by (induction n v bs rule: pkcs7_loop.induct) auto

lemma iso7816_4_in_buffer: "n \<le> length bs \<Longrightarrow> iso7816_4_loop n p bs \<noteq> None"
  by (induction n p bs rule: iso7816_4_loop.induct) auto

lemma remove_pkcs7_None:
  assumes "buffer \<noteq> []"
  shows "padding_remove_pkcs7 buffer = None \<longleftrightarrow> (\<exists>v. buffer = replicate (length buffer) v \<and> length buffer < unat v)"
proof -
  obtain v below where r: "rev buffer = v # below" using assms by (cases "rev buffer") auto
  then have b: "buffer = rev below @ [v]" by (metis rev.simps(2) rev_rev_ident)
  have e: "rev below @ [v] = replicate (Suc (length below)) w \<longleftrightarrow> v = w \<and> below = replicate (length below) w" for w
    by (metis append_eq_append_conv replicate_Suc replicate_append_same rev_replicate rev_rev_ident last_snoc length_replicate length_rev
        last_replicate nat.simps(3) butlast_snoc)
  have "padding_remove_pkcs7 buffer = None \<longleftrightarrow> pkcs7_loop (unat v - 1) v below = None"
    by (simp add: padding_remove_pkcs7_def r bind_eq_None_conv)
  also have "\<dots> \<longleftrightarrow> length below < unat v - 1 \<and> below = replicate (length below) v" by (rule pkcs7_loop_None)
  also have "\<dots> \<longleftrightarrow> (\<exists>v. buffer = replicate (length buffer) v \<and> length buffer < unat v)"
    using e by (auto simp: b simp del: replicate.simps)
  finally show ?thesis .
qed

text \<open>
  C19. Decoding reads in front of its buffer exactly when the padding is PKCS7 and all bytes of the decoded text are the same byte,
  which is greater than their number. For each key there is such a text of eight bytes.
\<close>

theorem des_pkcs7_overread:
  assumes "length key = 8"
  shows "(\<forall>text mode. ldesdecode key text mode = None \<longleftrightarrow> padding_mode mode = PADDING_MODE_PKCS7 \<and> length text mod 8 = 0 \<and> text \<noteq> [] \<and>
      (\<exists>v. fst (des_blocks (reverse_pairs (des_main_ks key)) text) = replicate (length text) v \<and> length text < unat v)) \<and>
    (\<exists>text. length text = 8 \<and> ldesdecode key text (Some 1) = None)"
proof -
  let ?sk = "reverse_pairs (des_main_ks key)"
  have iff: "ldesdecode key text mode = None \<longleftrightarrow> padding_mode mode = PADDING_MODE_PKCS7 \<and> length text mod 8 = 0 \<and> text \<noteq> [] \<and>
      (\<exists>v. fst (des_blocks ?sk text) = replicate (length text) v \<and> length text < unat v)" for "text" mode
  proof (cases "length text mod 8 = 0 \<and> text \<noteq> []")
    case True
    let ?b = "fst (des_blocks ?sk text)"
    have b: "length ?b = length text" using True des_blocks_props [of ?sk "text"] by auto
    then have "?b \<noteq> []" "8 \<le> length ?b" using True by (auto simp: mod_eq_0_iff_dvd dest: dvd_imp_le)
    then have "remove_padding ?b m = None \<longleftrightarrow> m = 1 \<and> padding_remove_pkcs7 ?b = None" for m
      using iso7816_4_in_buffer [of 8 "rev ?b" 1]
      by (auto simp: remove_padding_def check_padding_mode_def padding_remove_iso7816_4_def PADDING_MODE_ISO7816_4_def
          PADDING_MODE_COUNT_def bind_eq_None_conv)
    with True assms b remove_pkcs7_None [OF \<open>?b \<noteq> []\<close>] show ?thesis
      by (simp add: ldesdecode_def des_key_def PADDING_MODE_PKCS7_def bind_eq_None_conv Let_def)
  qed (use assms in \<open>auto simp: ldesdecode_def des_key_def\<close>)
  let ?t = "des_crypt (des_main_ks key) (replicate 8 9)"
  have "fst (des_blocks ?sk ?t) = replicate 8 9"
    using des_blocks_step [of ?t ?sk "[]"] des_crypt_back [of "des_main_ks key" "replicate 8 9"] by (simp add: des_blocks_small del: replicate.simps)
  moreover have "?t \<noteq> []" using length_des_crypt [of "des_main_ks key" "replicate 8 9"] by (metis list.size(3) zero_neq_numeral)
  ultimately have "ldesdecode key ?t (Some 1) = None"
    unfolding iff by (auto simp: padding_mode_def PADDING_MODE_PKCS7_def intro!: exI [of _ 9] simp del: replicate.simps)
  then show ?thesis using iff length_des_crypt by blast
qed

theorem des_pkcs7_overread_witness:
  "(\<exists>text. length text = 8 \<and> ldesdecode (replicate 8 1) text (Some 1) = None) \<and> ldesdecode (replicate 8 1) [1, 2, 3] (Some 1) \<noteq> None"
  using des_pkcs7_overread [of "replicate 8 1", OF length_replicate] by (elim conjE, intro conjI) (assumption, simp del: replicate.simps)

end
