(* ===== verification/Crypt_Dh.thy ===== *)
theory Crypt_Dh
  imports Crypt_Des
begin

section \<open>The exchange of keys (lualib-src/lua-crypt.c)\<close>

text \<open>
  \<open>dhexchange\<close> and \<open>dhsecret\<close>: powers of 5 modulo the largest prime of 64 bits, without any
  intermediate value of more than 64 bits. Numbers are strings of eight bytes, low byte first. \<open>None\<close> is the recursion of \<open>pow_mod_p\<close>
  that does not end, for the exponent 0. The results: the multiplication does not overflow, the power is right, and
  both sides of an exchange get the same secret.
\<close>

definition P :: u64 where "P = 0xffffffffffffffc5"
definition G :: u64 where "G = 5"

lemma unat_half: "unat (drop_bit 1 b) = unat (b :: u64) div 2"
  by (simp add: drop_bit_Suc unat_div)

function mul_loop :: "u64 \<Rightarrow> u64 \<Rightarrow> u64 \<Rightarrow> u64" where
  "mul_loop m a b =
     (if b = 0 then m
      else
        let m' = (if b AND 1 \<noteq> 0 then let t = P - a in if t \<le> m then m - t else m + a else m);
            a' = (if P - a \<le> a then a * 2 - P else a * 2) in
        mul_loop m' a' (drop_bit 1 b))"
  by pat_completeness auto
termination
proof (relation "measure (\<lambda>(m, a, b). unat b)")
  fix b :: u64
  assume "b \<noteq> 0"
  then have "0 < unat b" by (simp add: unat_gt_0)
  then show "((x, y, drop_bit 1 b), (m, a, b)) \<in> measure (\<lambda>(m, a, b). unat b)" for x y m a :: u64
    by (simp only: unat_half in_measure split)
qed simp

declare mul_loop.simps [simp del]

definition mul_mod_p :: "u64 \<Rightarrow> u64 \<Rightarrow> u64" where
  "mul_mod_p a b = mul_loop 0 a b"

partial_function (option) pow_mod_p :: "u64 \<Rightarrow> u64 \<Rightarrow> u64 option" where
  "pow_mod_p a b =
     (if b = 1 then Some a
      else do {
        t \<leftarrow> pow_mod_p a (drop_bit 1 b);
        let t = mul_mod_p t t;
        Some (if b mod 2 \<noteq> 0 then mul_mod_p t a else t) })"

definition powmodp :: "u64 \<Rightarrow> u64 \<Rightarrow> u64 option" where
  "powmodp a b = pow_mod_p (if P < a then a mod P else a) b"

text \<open>Numbers as strings of eight bytes.\<close>

definition word_at :: "bytes \<Rightarrow> nat \<Rightarrow> u32" where
  "word_at x i = ucast (x ! i) OR push_bit 8 (ucast (x ! (i + 1))) OR push_bit 16 (ucast (x ! (i + 2))) OR push_bit 24 (ucast (x ! (i + 3)))"

definition read64 :: "bytes \<Rightarrow> bytes \<Rightarrow> ((u32 \<times> u32) \<times> (u32 \<times> u32)) lua" where
  "read64 x y =
     (if length x \<noteq> 8 then Inl ''Invalid uint64 x''
      else if length y \<noteq> 8 then Inl ''Invalid uint64 y''
      else Inr ((word_at x 0, word_at x 4), (word_at y 0, word_at y 4)))"

definition join64 :: "u32 \<times> u32 \<Rightarrow> u64" where
  "join64 x = ucast (fst x) OR push_bit 32 (ucast (snd x))"

definition push64 :: "u64 \<Rightarrow> bytes" where
  "push64 r = map (\<lambda>k. ucast (drop_bit k r AND 0xff)) [0, 8, 16, 24, 32, 40, 48, 56]"

definition ldhsecret :: "bytes \<Rightarrow> bytes \<Rightarrow> bytes lua option" where
  "ldhsecret x y =
     (case read64 x y of
        Inl e \<Rightarrow> Some (Inl e)
      | Inr (x, y) \<Rightarrow>
          let xx = join64 x; yy = join64 y in
          if xx = 0 \<or> yy = 0 then Some (Inl ''Can't be 0'')
          else do { r \<leftarrow> powmodp xx yy; Some (Inr (push64 r)) })"

definition ldhexchange :: "bytes \<Rightarrow> bytes lua option" where
  "ldhexchange x =
     (if length x \<noteq> 8 then Some (Inl ''Invalid dh uint64 key'')
      else
        let x64 = join64 (word_at x 0, word_at x 4) in
        if x64 = 0 then Some (Inl ''Can't be 0'')
        else do { r \<leftarrow> powmodp G x64; Some (Inr (push64 r)) })"

subsection \<open>Arithmetic modulo the prime\<close>

definition p64 :: nat where "p64 = 2 ^ 64 - 59"

lemma unat_P: "unat P = p64"
  by (simp add: P_def p64_def)

lemma p64_bounds: "2 < p64" "p64 < 2 ^ 64"
  by (simp_all add: p64_def)

lemma add_below: "unat m + unat a < p64 \<Longrightarrow> unat (m + a) = unat m + unat (a :: u64)"
  using p64_bounds(2) unat_add_lem [of m a] by simp

text \<open>One addition and one doubling modulo the prime.\<close>

lemma add_step:
  assumes "a \<le> P" "m < P"
  defines "s \<equiv> if P - a \<le> m then m - (P - a) else m + a"
  shows "s < P" "unat s mod p64 = (unat m + unat a) mod p64"
proof -
  have a: "unat a \<le> p64" "unat m < p64" using assms(1,2) unat_P by (simp_all add: word_le_nat_alt word_less_nat_alt)
  have t: "unat (P - a) = p64 - unat a" using unat_sub [OF assms(1)] unat_P by simp
  have "unat s = (if p64 - unat a \<le> unat m then unat m + unat a - p64 else unat m + unat a)"
  proof (cases "P - a \<le> m")
    case True
    then have le: "p64 - unat a \<le> unat m" using t by (simp add: word_le_nat_alt)
    have "unat (m - (P - a)) = unat m - (p64 - unat a)" using unat_sub [OF True] t by simp
    with True le a show ?thesis unfolding s_def by simp
  next
    case False
    then have "\<not> p64 - unat a \<le> unat m" using t by (simp add: word_le_nat_alt)
    moreover from this a have "unat (m + a) = unat m + unat a" by (intro add_below) linarith
    ultimately show ?thesis using False unfolding s_def by simp
  qed
  then have "unat s < p64 \<and> unat s mod p64 = (unat m + unat a) mod p64"
    using a by (auto simp: le_mod_geq)
  then show "s < P" "unat s mod p64 = (unat m + unat a) mod p64"
    using unat_P by (simp_all add: word_less_nat_alt)
qed

lemma double_step:
  assumes "a \<le> P"
  defines "d \<equiv> if P - a \<le> a then a * 2 - P else a * 2"
  shows "d \<le> P" "unat d mod p64 = (2 * unat a) mod p64"
proof -
  have a: "unat a \<le> p64" using assms(1) unat_P by (simp add: word_le_nat_alt)
  have t: "unat (P - a) = p64 - unat a" using unat_sub [OF assms(1)] unat_P by simp
  have "unat d = (if p64 - unat a \<le> unat a then 2 * unat a - p64 else 2 * unat a)"
  proof (cases "P - a \<le> a")
    case True
    then have le: "p64 - unat a \<le> unat a" using t by (simp add: word_le_nat_alt)
    have "unat (a - (P - a)) = unat a - (p64 - unat a)" using unat_sub [OF True] t by simp
    moreover have "a * 2 - P = a - (P - a)" by simp
    ultimately show ?thesis using True le a unfolding d_def by (simp only: if_True)
  next
    case False
    then have "\<not> p64 - unat a \<le> unat a" using t by (simp add: word_le_nat_alt)
    moreover from this a have "unat (a + a) = unat a + unat a" by (intro add_below) linarith
    moreover have "a * 2 = a + a" by simp
    ultimately show ?thesis using False unfolding d_def by (simp only: if_False)
  qed
  then have "unat d \<le> p64 \<and> unat d mod p64 = (2 * unat a) mod p64"
    using a by (auto simp: le_mod_geq)
  then show "d \<le> P" "unat d mod p64 = (2 * unat a) mod p64"
    using unat_P by (simp_all add: word_le_nat_alt)
qed

lemma low_bit: "(b :: u64) AND 1 \<noteq> 0 \<longleftrightarrow> odd (unat b)"
proof -
  have "odd (unat b) \<longleftrightarrow> odd b" by (simp only: bit_0 [symmetric] bit_unsigned_iff) simp
  then show ?thesis by (simp add: and_one_eq odd_iff_mod_2_eq_one)
qed

lemma horner_step:
  fixes m a :: nat
  assumes "m' mod p = (m + a * c) mod p" "a' mod p = (2 * a) mod p" "b = 2 * h + c"
  shows "(m' + a' * h) mod p = (m + a * b) mod p"
proof -
  have "(m' + a' * h) mod p = (m + a * c + 2 * a * h) mod p"
    using assms(1,2) by (intro mod_add_cong mod_mult_cong) simp_all
  also have "m + a * c + 2 * a * h = m + a * b" by (simp add: assms(3) algebra_simps)
  finally show ?thesis .
qed

lemma mul_loop_correct:
  "a \<le> P \<Longrightarrow> m < P \<Longrightarrow> mul_loop m a b < P \<and> unat (mul_loop m a b) mod p64 = (unat m + unat a * unat b) mod p64"
proof (induction m a b rule: mul_loop.induct)
  case (1 m a b)
  show ?case
  proof (cases "b = 0")
    case True
    with 1 show ?thesis by (simp add: mul_loop.simps [of m a 0])
  next
    case False
    define m' where "m' = (if b AND 1 \<noteq> 0 then if P - a \<le> m then m - (P - a) else m + a else m)"
    define a' where "a' = (if P - a \<le> a then a * 2 - P else a * 2)"
    note a' = double_step [OF 1(2), folded a'_def]
    have low: "unat b = 2 * unat (drop_bit 1 b) + (if b AND 1 \<noteq> 0 then 1 else 0)"
      by (simp only: unat_half low_bit) presburger
    have m': "m' < P \<and> unat m' mod p64 = (unat m + unat a * (if b AND 1 \<noteq> 0 then 1 else 0)) mod p64"
      using add_step [OF 1(2,3)] 1(3) unfolding m'_def by simp
    have r: "mul_loop m a b = mul_loop m' a' (drop_bit 1 b)"
      using False by (subst mul_loop.simps) (simp only: m'_def a'_def Let_def if_False)
    have "mul_loop m' a' (drop_bit 1 b) < P \<and> unat (mul_loop m' a' (drop_bit 1 b)) mod p64 = (unat m' + unat a' * unat (drop_bit 1 b)) mod p64"
    proof (rule 1(1) [OF False])
      show "m' = (if b AND 1 \<noteq> 0 then let t = P - a in if t \<le> m then m - t else m + a else m)" by (simp only: m'_def Let_def)
    qed (use a'(1) m' in \<open>simp_all only: a'_def\<close>)
    moreover have "(unat m' + unat a' * unat (drop_bit 1 b)) mod p64 = (unat m + unat a * unat b) mod p64"
      by (rule horner_step [OF m' [THEN conjunct2] a'(2) low])
    ultimately show ?thesis using r by simp
  qed
qed

lemma less_P: "w < P \<longleftrightarrow> unat w < p64"
  using unat_P by (simp add: word_less_nat_alt)

lemma mul_mod_p_correct:
  assumes "a \<le> P"
  shows "mul_mod_p a b < P" "unat (mul_mod_p a b) = (unat a * unat b) mod p64"
proof -
  have c: "mul_mod_p a b < P \<and> unat (mul_mod_p a b) mod p64 = (unat a * unat b) mod p64"
    using mul_loop_correct [OF assms, of 0 b] by (simp add: mul_mod_p_def P_def)
  then show "mul_mod_p a b < P" by blast
  with c show "unat (mul_mod_p a b) = (unat a * unat b) mod p64" by (metis less_P mod_less)
qed

text \<open>The power: the number itself for the exponent 1, and below the prime for each greater one.\<close>

lemma pow_mod_p_correct:
  assumes "a \<le> P" "b \<noteq> 0"
  shows "\<exists>r. pow_mod_p a b = Some r \<and> (if b = 1 then r = a else r < P \<and> unat r = unat a ^ unat b mod p64)"
  using assms(2)
proof (induction "unat b" arbitrary: b rule: less_induct)
  case less
  show ?case
  proof (cases "b = 1")
    case True
    then show ?thesis by (subst pow_mod_p.simps) simp
  next
    case False
    let ?h = "drop_bit 1 b"
    have "unat b \<noteq> 1" using False by (metis unat_1 word_unat_eq_iff)
    moreover have "0 < unat b" using less(2) by (simp add: unat_gt_0)
    ultimately have h: "unat ?h < unat b" "0 < unat ?h" using unat_half [of b] by linarith+
    then have "?h \<noteq> 0" by (auto simp only: unat_0 less_irrefl)
    from less(1) [OF h(1) this] obtain t where r: "pow_mod_p a ?h = Some t"
        "if ?h = 1 then t = a else t < P \<and> unat t = unat a ^ unat ?h mod p64" by blast
    have t: "pow_mod_p a ?h = Some t" "t \<le> P" "unat t mod p64 = unat a ^ unat ?h mod p64"
    proof -
      have "t \<le> P \<and> unat t mod p64 = unat a ^ unat ?h mod p64"
      proof (cases "?h = 1")
        case True
        then have "unat ?h = 1" by (simp only: unat_1)
        with True r(2) assms(1) show ?thesis by simp
      next
        case False
        then have "t < P" "unat t = unat a ^ unat ?h mod p64" using r(2) by simp_all
        then show ?thesis by (simp only: mod_mod_trivial less_imp_le)
      qed
      then show "pow_mod_p a ?h = Some t" "t \<le> P" "unat t mod p64 = unat a ^ unat ?h mod p64" using r(1) by simp_all
    qed
    let ?s = "mul_mod_p t t"
    have s: "?s < P" "unat ?s = unat a ^ (2 * unat ?h) mod p64"
      using mul_mod_p_correct [OF t(2), of t] t(3) mod_mult_cong [OF t(3) t(3)] by (simp_all add: mult_2 power_add)
    have "unat (mul_mod_p ?s a) = (unat a ^ (2 * unat ?h) mod p64 * unat a) mod p64"
      using mul_mod_p_correct(2) [of ?s a] s by simp
    also have "\<dots> = unat a ^ (2 * unat ?h + 1) mod p64" by (simp only: mod_mult_left_eq power_add power_one_right)
    finally have q: "unat (mul_mod_p ?s a) = unat a ^ (2 * unat ?h + 1) mod p64" .
    have odd: "b mod 2 \<noteq> 0 \<longleftrightarrow> odd (unat b)" using low_bit [of b] by (simp add: and_one_eq)
    have "pow_mod_p a b = Some (if b mod 2 \<noteq> 0 then mul_mod_p ?s a else ?s)"
      using False t(1) by (subst pow_mod_p.simps) (simp add: Let_def)
    moreover have "unat b = 2 * unat ?h + (if odd (unat b) then 1 else 0)" using unat_half [of b] by presburger
    ultimately show ?thesis
      using False odd q s mul_mod_p_correct(1) [of ?s a] by (cases "odd (unat b)") simp_all
  qed
qed

subsection \<open>The exchange\<close>

lemma bit_0xff_64: "bit (0xff :: u64) i \<longleftrightarrow> i < 8"
proof -
  have "(0xff :: u64) = mask 8" by (simp add: mask_eq_exp_minus_1)
  then show ?thesis by (simp only: bit_mask_iff) auto
qed

lemma bit_low_byte: "bit (ucast (drop_bit k w AND 0xff) :: u8) i \<longleftrightarrow> i < 8 \<and> bit (w :: u64) (k + i)"
  by (simp only: bit_ucast_iff bit_and_iff bit_0xff_64 bit_drop_bit_eq comp_def) auto

lemma push64_nth: "k < 8 \<Longrightarrow> push64 r ! k = ucast (drop_bit (8 * k) r AND 0xff)"
  by (auto simp: push64_def less_Suc_eq numeral_eq_Suc)

lemma word_at_bit:
  assumes "k + 3 < 8" "\<And>j. j < 4 \<Longrightarrow> x ! (k + j) = ucast (drop_bit (8 * (k + j)) r AND 0xff)"
  shows "bit (word_at x k) n \<longleftrightarrow> n < 32 \<and> bit (r :: u64) (8 * k + n)"
proof -
  have b: "x ! k = ucast (drop_bit (8 * k) r AND 0xff)" "x ! (k + 1) = ucast (drop_bit (8 * k + 8) r AND 0xff)"
    "x ! (k + 2) = ucast (drop_bit (8 * k + 16) r AND 0xff)" "x ! (k + 3) = ucast (drop_bit (8 * k + 24) r AND 0xff)"
    using assms(2) [of 0] assms(2) [of 1] assms(2) [of 2] assms(2) [of 3] by (simp_all add: algebra_simps)
  have "bit (word_at x k) n \<longleftrightarrow> n < 32 \<and> n < 8 \<and> bit r (8 * k + n) \<or> 8 \<le> n \<and> n < 32 \<and> n - 8 < 8 \<and> bit r (8 * k + 8 + (n - 8)) \<or>
      16 \<le> n \<and> n < 32 \<and> n - 16 < 8 \<and> bit r (8 * k + 16 + (n - 16)) \<or> 24 \<le> n \<and> n < 32 \<and> n - 24 < 8 \<and> bit r (8 * k + 24 + (n - 24))"
    by (simp only: word_at_def bit_or_iff bit_placed bit_placed_0 b bit_low_byte disj_assoc)
  moreover have "n < 8 \<or> (\<exists>m < 8. n = 8 + m) \<or> (\<exists>m < 8. n = 16 + m) \<or> (\<exists>m < 8. n = 24 + m) \<or> 32 \<le> n" by presburger
  ultimately show ?thesis by (elim disjE exE conjE) (simp_all add: algebra_simps)
qed

lemma join64_push64: "join64 (word_at (push64 r) 0, word_at (push64 r) 4) = r"
proof (rule bit_word_eqI)
  fix i :: nat
  assume "i < LENGTH(64)"
  then have i: "i < 64" by simp
  let ?w = "\<lambda>k :: nat. word_at (push64 r) k"
  have w: "bit (?w 0) n \<longleftrightarrow> n < 32 \<and> bit r (8 * 0 + n)" "bit (?w 4) n \<longleftrightarrow> n < 32 \<and> bit r (8 * 4 + n)" for n
    by (rule word_at_bit; simp add: push64_nth)+
  have "bit (join64 (?w 0, ?w 4)) i \<longleftrightarrow> i < 32 \<and> bit (?w 0) i \<or> 32 \<le> i \<and> bit (?w 4) (i - 32)"
    using i by (auto simp: join64_def bit_or_iff bit_ucast_iff bit_push_bit_iff dest: bit_imp_le_length)
  then show "bit (join64 (?w 0, ?w 4)) i = bit r i" unfolding w using i by auto
qed

lemma length_push64 [simp]: "length (push64 r) = 8"
  by (simp add: push64_def)

definition qword :: "bytes \<Rightarrow> u64" where
  "qword x = join64 (word_at x 0, word_at x 4)"

lemma qword_push64 [simp]: "qword (push64 r) = r"
  by (simp add: qword_def join64_push64)

lemma powmodp_correct:
  assumes "b \<noteq> 0" "a \<noteq> P"
  shows "\<exists>r. powmodp a b = Some r \<and> r < P \<and> unat r = unat a ^ unat b mod p64"
proof -
  define a' where "a' = (if P < a then a mod P else a)"
  have "0 < p64" by (simp add: p64_def)
  then have a': "unat a' = unat a mod p64" "a' < P"
    using assms(2) unat_P by (auto simp: a'_def less_P unat_mod word_less_nat_alt not_less le_neq_implies_less word_unat_eq_iff)
  from pow_mod_p_correct [of a' b] obtain r where r: "pow_mod_p a' b = Some r"
      "if b = 1 then r = a' else r < P \<and> unat r = unat a' ^ unat b mod p64"
    using assms(1) order.strict_implies_order [OF a'(2)] by blast
  have "r < P \<and> unat r = unat a ^ unat b mod p64"
    using r(2) a' by (cases "b = 1") (simp_all add: power_mod)
  with r(1) show ?thesis by (simp add: powmodp_def a'_def)
qed

lemma p64_coprime_5: "5 ^ n mod p64 \<noteq> 0"
proof
  assume "5 ^ n mod p64 = 0"
  then have "p64 dvd 5 ^ n" by (simp add: mod_eq_0_iff_dvd)
  moreover have "coprime p64 5"
    by (simp add: p64_def coprime_iff_gcd_eq_1 gcd_non_0_nat)
  then have "coprime p64 (5 ^ n)" by simp
  ultimately have "p64 = 1" using coprime_absorb_left [of p64 "5 ^ n"] by simp
  then show False using p64_bounds by simp
qed

lemma ldhexchange_value:
  assumes "length x = 8" "qword x \<noteq> 0"
  shows "\<exists>g. ldhexchange x = Some (Inr (push64 g)) \<and> g < P \<and> g \<noteq> 0 \<and> unat g = 5 ^ unat (qword x) mod p64"
proof -
  obtain g where g: "powmodp G (qword x) = Some g" "g < P" "unat g = 5 ^ unat (qword x) mod p64"
    using powmodp_correct [OF assms(2), of G] by (auto simp: G_def P_def)
  moreover from this(3) have "g \<noteq> 0" by (metis p64_coprime_5 unat_0)
  ultimately show ?thesis using assms by (intro exI [of _ g]) (simp add: ldhexchange_def qword_def Let_def)
qed

lemma ldhsecret_value:
  assumes "length x = 8" "length y = 8" "qword x \<noteq> 0" "qword y \<noteq> 0" "qword x \<noteq> P"
  shows "\<exists>s. ldhsecret x y = Some (Inr (push64 s)) \<and> unat s = unat (qword x) ^ unat (qword y) mod p64"
  using powmodp_correct [OF assms(4,5)] assms by (auto simp: ldhsecret_def read64_def qword_def)

text \<open>
  C25. For any two private keys of eight bytes that are not zero, both sides compute their public keys and then the same
  secret, which is 5 to the product of the keys modulo the prime.
\<close>

theorem dh_agreement:
  assumes "length x = 8" "length y = 8" "qword x \<noteq> 0" "qword y \<noteq> 0"
  shows "\<exists>gx gy s. ldhexchange x = Some (Inr gx) \<and> ldhexchange y = Some (Inr gy) \<and>
    ldhsecret gx y = Some (Inr (push64 s)) \<and> ldhsecret gy x = Some (Inr (push64 s)) \<and>
    unat s = 5 ^ (unat (qword x) * unat (qword y)) mod p64"
proof -
  obtain gx gy where g: "ldhexchange x = Some (Inr (push64 gx))" "gx < P" "gx \<noteq> 0" "unat gx = 5 ^ unat (qword x) mod p64"
    "ldhexchange y = Some (Inr (push64 gy))" "gy < P" "gy \<noteq> 0" "unat gy = 5 ^ unat (qword y) mod p64"
    using ldhexchange_value [OF assms(1,3)] ldhexchange_value [OF assms(2,4)] by blast
  obtain s t where s: "ldhsecret (push64 gx) y = Some (Inr (push64 s))" "unat s = unat gx ^ unat (qword y) mod p64"
    "ldhsecret (push64 gy) x = Some (Inr (push64 t))" "unat t = unat gy ^ unat (qword x) mod p64"
    using ldhsecret_value [of "push64 gx" y] ldhsecret_value [of "push64 gy" x] assms g by auto
  have "unat s = 5 ^ (unat (qword x) * unat (qword y)) mod p64" "unat t = 5 ^ (unat (qword x) * unat (qword y)) mod p64"
    by (simp_all only: s g power_mod power_mult [symmetric] mult.commute)
  moreover from this have "s = t" by (simp add: word_unat_eq_iff)
  ultimately show ?thesis using g s by blast
qed

theorem dh_agreement_witness:
  "\<exists>gx gy s. ldhexchange (push64 3) = Some (Inr gx) \<and> ldhexchange (push64 4) = Some (Inr gy) \<and>
    ldhsecret gx (push64 4) = Some (Inr (push64 s)) \<and> ldhsecret gy (push64 3) = Some (Inr (push64 s)) \<and> unat s = 5 ^ 12 mod p64"
  using dh_agreement [of "push64 3" "push64 4"] by (simp del: power_Suc)

end
