(* ===== verification/Crypt_Codec.thy ===== *)
theory Crypt_Codec
  imports Crypt_Dh
begin

section \<open>Hexadecimal, base64, hashes and keyed hashes of 64 bits (lualib-src/lua-crypt.c)\<close>

text \<open>
  The texts are bytes. The results: base64 decodes what it encodes, also with foreign bytes between; the hexadecimal
  decoder gives back what was encoded, and takes ten more characters than the digits for digits.
\<close>

definition SMALL_CHUNK :: nat where "SMALL_CHUNK = 256"

definition chr :: "char \<Rightarrow> u8" where "chr c = of_char c"

subsection \<open>Hexadecimal\<close>

definition hex_digits :: bytes where
  "hex_digits = map of_char ''0123456789abcdef''"

definition ltohex :: "bytes \<Rightarrow> bytes" where
  "ltohex text = concat (map (\<lambda>b. [hex_digits ! unat (drop_bit 4 b), hex_digits ! unat (b AND 0xf)]) text)"

text \<open>The macro \<open>HEX\<close>: the comparisons are on a signed \<open>char\<close>, the difference becomes a \<open>uint8_t\<close>.\<close>

definition HEX :: "u8 \<Rightarrow> u8" where
  "HEX c = (if of_char CHR ''0'' \<le>s c \<and> c \<le>s of_char CHR ''9'' then c - of_char CHR ''0'' else c - of_char CHR ''a'' + 10)"

fun hex_loop :: "bytes \<Rightarrow> bytes lua" where
  "hex_loop (h # l # text) =
     (if 16 < HEX h \<or> 16 < HEX l then Inl ''Invalid hex text''
      else case hex_loop text of Inl e \<Rightarrow> Inl e | Inr buffer \<Rightarrow> Inr ((push_bit 4 (HEX h) OR HEX l) # buffer))"
| "hex_loop _ = Inr []"

definition lfromhex :: "bytes \<Rightarrow> bytes lua" where
  "lfromhex text = (if odd (length text) then Inl ''Invalid hex text size %d'' else hex_loop text)"

subsection \<open>Base64\<close>

definition encoding :: bytes where
  "encoding = map of_char ''ABCDEFGHIJKLMNOPQRSTUVWXYZabcdefghijklmnopqrstuvwxyz0123456789+/''"

text \<open>The loop over groups of three bytes, and the switch for the last one or two. The arithmetic is on 32 bits.\<close>

fun b64_groups :: "bytes \<Rightarrow> bytes" where
  "b64_groups (a # b # c # text) =
     (let v = push_bit 16 (ucast a) OR push_bit 8 (ucast b) OR ucast c :: u32 in
      [encoding ! unat (drop_bit 18 v), encoding ! unat (drop_bit 12 v AND 0x3f),
       encoding ! unat (drop_bit 6 v AND 0x3f), encoding ! unat (v AND 0x3f)] @ b64_groups text)"
| "b64_groups [a, b] =
     (let v = push_bit 8 (ucast a) OR ucast b :: u32 in
      [encoding ! unat (drop_bit 10 v), encoding ! unat (drop_bit 4 v AND 0x3f),
       encoding ! unat (push_bit 2 (v AND 0xf)), of_char CHR ''=''])"
| "b64_groups [a] =
     (let v = ucast a :: u32 in
      [encoding ! unat (drop_bit 2 v), encoding ! unat (push_bit 4 (v AND 3)), of_char CHR ''='', of_char CHR ''=''])"
| "b64_groups [] = []"

definition lb64encode :: "bytes \<Rightarrow> bytes option" where
  "lb64encode text = (let encode_sz = (length text + 2) div 3 * 4; buffer = b64_groups text in
     do { c_assert (length buffer = encode_sz); Some buffer })"

definition decoding :: "int list" where
  "decoding = [62,-1,-1,-1,63,52,53,54,55,56,57,58,59,60,61,-1,-1,-1,-2,-1,-1,-1,0,1,2,3,4,5,6,7,8,9,10,11,12,13,14,15,16,17,18,19,20,
     21,22,23,24,25,-1,-1,-1,-1,-1,-1,26,27,28,29,30,31,32,33,34,35,36,37,38,39,40,41,42,43,44,45,46,47,48,49,50,51]"

definition b64index :: "u8 \<Rightarrow> int" where
  "b64index c = (if c < 43 then - 1
     else let c = c - 43 in if int (length decoding) \<le> uint c then - 1 else decoding ! unat c)"

text \<open>The inner loop: the indices of the next four characters of the alphabet, from \<open>j\<close> on, and the rest of the text.\<close>

fun b64_four :: "nat \<Rightarrow> bytes \<Rightarrow> (int list \<times> bytes) lua" where
  "b64_four 0 text = Inr ([], text)"
| "b64_four (Suc j) [] = Inl ''Invalid base64 text''"
| "b64_four (Suc j) (b # text) =
     (if b64index b = - 1 then b64_four (Suc j) text
      else case b64_four j text of Inl e \<Rightarrow> Inl e | Inr (cs, rest) \<Rightarrow> Inr (b64index b # cs, rest))"

definition b64_padding :: "int list \<Rightarrow> nat" where
  "b64_padding c = length (filter (\<lambda>x. x = - 2) c)"

definition cw :: "int list \<Rightarrow> nat \<Rightarrow> u32" where
  "cw c k = word_of_int (c ! k)"

text \<open>The switch over the number of padding characters.\<close>

definition b64_bytes :: "int list \<Rightarrow> bytes lua" where
  "b64_bytes c =
     (if b64_padding c = 0 then
        let v = push_bit 18 (cw c 0) OR push_bit 12 (cw c 1) OR push_bit 6 (cw c 2) OR cw c 3 in
        Inr [ucast (drop_bit 16 v), ucast (drop_bit 8 v AND 0xff), ucast (v AND 0xff)]
      else if b64_padding c = 1 then
        if c ! 3 \<noteq> - 2 \<or> cw c 2 AND 3 \<noteq> 0 then Inl ''Invalid base64 text''
        else let v = push_bit 10 (cw c 0) OR push_bit 4 (cw c 1) OR drop_bit 2 (cw c 2) in
          Inr [ucast (drop_bit 8 v), ucast (v AND 0xff)]
      else if b64_padding c = 2 then
        if c ! 3 \<noteq> - 2 \<or> c ! 2 \<noteq> - 2 \<or> cw c 1 AND 0xf \<noteq> 0 then Inl ''Invalid base64 text''
        else let v = push_bit 2 (cw c 0) OR drop_bit 4 (cw c 1) in Inr [ucast v]
      else Inl ''Invalid base64 text'')"

lemma b64_four_shorter: "b64_four j t = Inr (cs, r) \<Longrightarrow> length cs = j \<and> length r + j \<le> length t"
proof (induction j t arbitrary: cs r rule: b64_four.induct)
  case (3 j b t)
  show ?case
  proof (cases "b64index b = - 1")
    case True
    with 3(1) [OF True, of cs r] 3(3) show ?thesis by simp
  next
    case False
    with 3(3) obtain cs' where "b64_four j t = Inr (cs', r)" "cs = b64index b # cs'" by (auto split: sum.splits)
    with 3(2) [OF False, of cs' r] show ?thesis by simp
  qed
qed simp_all

function b64_loop :: "bytes \<Rightarrow> bytes lua" where
  "b64_loop text =
     (if text = [] then Inr []
      else case b64_four 4 text of
          Inl e \<Rightarrow> Inl e
        | Inr (c, rest) \<Rightarrow>
            (case b64_bytes c of
               Inl e \<Rightarrow> Inl e
             | Inr bs \<Rightarrow> (case b64_loop rest of Inl e \<Rightarrow> Inl e | Inr out \<Rightarrow> Inr (bs @ out))))"
  by pat_completeness auto
termination by (relation "measure length") (auto dest: b64_four_shorter)

declare b64_loop.simps [simp del]

definition lb64decode :: "bytes \<Rightarrow> bytes lua option" where
  "lb64decode text = (let decode_sz = (length text + 3) div 4 * 3 in
     case b64_loop text of
       Inl e \<Rightarrow> Some (Inl e)
     | Inr buffer \<Rightarrow> do { c_assert (length buffer \<le> decode_sz); Some (Inr buffer) })"

subsection \<open>Other operations on strings\<close>

definition lxor_str :: "bytes \<Rightarrow> bytes \<Rightarrow> bytes lua" where
  "lxor_str s1 s2 = (if s2 = [] then Inl ''Can't xor empty string''
     else Inr (map (\<lambda>i. s1 ! i XOR s2 ! (i mod length s2)) [0..<length s1]))"

definition hash_step :: "u8 \<Rightarrow> u32 \<times> u32 \<Rightarrow> u32 \<times> u32" where
  "hash_step c = (\<lambda>(djb_hash, js_hash). (djb_hash + (push_bit 5 djb_hash + ucast c),
     js_hash XOR (push_bit 5 js_hash + ucast c + drop_bit 2 js_hash)))"

definition Hash :: "bytes \<Rightarrow> bytes" where
  "Hash str = (let (djb_hash, js_hash) = fold hash_step str (5381, 1315423911) in
     map (\<lambda>k. ucast (drop_bit k djb_hash AND 0xff)) [0, 8, 16, 24] @ map (\<lambda>k. ucast (drop_bit k js_hash AND 0xff)) [0, 8, 16, 24])"

definition lhashkey :: "bytes \<Rightarrow> bytes" where
  "lhashkey key = Hash key"

text \<open>The eight bytes of \<open>randomkey\<close>, from eight results of \<open>random\<close>.\<close>

definition lrandomkey :: "u64 list \<Rightarrow> bytes" where
  "lrandomkey rs = (let tmp = map (\<lambda>r. ucast (r AND 0xff)) rs in
     if foldr (XOR) tmp 0 = 0 then tmp[0 := tmp ! 0 OR 1] else tmp)"

subsection \<open>MD5 on one block, and the keyed hashes\<close>

definition md5_k :: "u32 list" where
  "md5_k = [
    0xd76aa478, 0xe8c7b756, 0x242070db, 0xc1bdceee, 0xf57c0faf, 0x4787c62a, 0xa8304613, 0xfd469501,
    0x698098d8, 0x8b44f7af, 0xffff5bb1, 0x895cd7be, 0x6b901122, 0xfd987193, 0xa679438e, 0x49b40821,
    0xf61e2562, 0xc040b340, 0x265e5a51, 0xe9b6c7aa, 0xd62f105d, 0x2441453, 0xd8a1e681, 0xe7d3fbc8,
    0x21e1cde6, 0xc33707d6, 0xf4d50d87, 0x455a14ed, 0xa9e3e905, 0xfcefa3f8, 0x676f02d9, 0x8d2a4c8a,
    0xfffa3942, 0x8771f681, 0x6d9d6122, 0xfde5380c, 0xa4beea44, 0x4bdecfa9, 0xf6bb4b60, 0xbebfbc70,
    0x289b7ec6, 0xeaa127fa, 0xd4ef3085, 0x4881d05, 0xd9d4d039, 0xe6db99e5, 0x1fa27cf8, 0xc4ac5665,
    0xf4292244, 0x432aff97, 0xab9423a7, 0xfc93a039, 0x655b59c3, 0x8f0ccc92, 0xffeff47d, 0x85845dd1,
    0x6fa87e4f, 0xfe2ce6e0, 0xa3014314, 0x4e0811a1, 0xf7537e82, 0xbd3af235, 0x2ad7d2bb, 0xeb86d391]"

definition md5_r :: "nat list" where
  "md5_r = [7, 12, 17, 22, 7, 12, 17, 22, 7, 12, 17, 22, 7, 12, 17, 22, 5, 9, 14, 20, 5, 9, 14, 20, 5, 9, 14, 20, 5, 9, 14, 20,
     4, 11, 16, 23, 4, 11, 16, 23, 4, 11, 16, 23, 4, 11, 16, 23, 6, 10, 15, 21, 6, 10, 15, 21, 6, 10, 15, 21, 6, 10, 15, 21]"

definition LEFTROTATE :: "u32 \<Rightarrow> nat \<Rightarrow> u32" where
  "LEFTROTATE x c = push_bit c x OR drop_bit (32 - c) x"

definition md5_step :: "u32 list \<Rightarrow> nat \<Rightarrow> u32 \<times> u32 \<times> u32 \<times> u32 \<Rightarrow> u32 \<times> u32 \<times> u32 \<times> u32" where
  "md5_step w i = (\<lambda>(a, b, c, d).
     let (f, g) =
       (if i < 16 then ((b AND c) OR (NOT b AND d), i)
        else if i < 32 then ((d AND b) OR (NOT d AND c), (5 * i + 1) mod 16)
        else if i < 48 then (b XOR c XOR d, (3 * i + 5) mod 16)
        else (c XOR (b OR NOT d), (7 * i) mod 16)) in
     (d, b + LEFTROTATE (a + f + md5_k ! i + w ! g) (md5_r ! i), b, c))"

definition digest_md5 :: "u32 list \<Rightarrow> u32 \<times> u32 \<times> u32 \<times> u32" where
  "digest_md5 w = fold (md5_step w) [0..<64] (0x67452301, 0xefcdab89, 0x98badcfe, 0x10325476)"

definition hmac :: "u32 \<times> u32 \<Rightarrow> u32 \<times> u32 \<Rightarrow> u32 \<times> u32" where
  "hmac x y = (let (r0, r1, r2, r3) = digest_md5 (concat (replicate 4 [snd x, fst x, snd y, fst y])) in (r2 XOR r3, r0 XOR r1))"

definition hmac_md5 :: "u32 \<times> u32 \<Rightarrow> u32 \<times> u32 \<Rightarrow> u32 \<times> u32" where
  "hmac_md5 x y =
     (let (r0, r1, r2, r3) = digest_md5 (concat (replicate 3 [fst x, snd x, fst y, snd y]) @ [0x80, 0, 384, 0]) in
      ((r0 + 0x67452301) XOR (r2 + 0x98badcfe), (r1 + 0xefcdab89) XOR (r3 + 0x10325476)))"

definition pushqword :: "u32 \<times> u32 \<Rightarrow> bytes" where
  "pushqword r = map (\<lambda>k. ucast (drop_bit k (fst r) AND 0xff)) [0, 8, 16, 24] @ map (\<lambda>k. ucast (drop_bit k (snd r) AND 0xff)) [0, 8, 16, 24]"

definition lhmac64 :: "bytes \<Rightarrow> bytes \<Rightarrow> bytes lua" where
  "lhmac64 x y = (case read64 x y of Inl e \<Rightarrow> Inl e | Inr (x, y) \<Rightarrow> Inr (pushqword (hmac x y)))"

definition lhmac64_md5 :: "bytes \<Rightarrow> bytes \<Rightarrow> bytes lua" where
  "lhmac64_md5 x y = (case read64 x y of Inl e \<Rightarrow> Inl e | Inr (x, y) \<Rightarrow> Inr (pushqword (hmac_md5 x y)))"

definition lhmac_hash :: "bytes \<Rightarrow> bytes \<Rightarrow> bytes lua" where
  "lhmac_hash x text =
     (if length x \<noteq> 8 then Inl ''Invalid uint64 key''
      else let h = Hash text in Inr (pushqword (hmac (word_at h 0, word_at h 4) (word_at x 0, word_at x 4))))"


subsection \<open>The hexadecimal decoder\<close>

lemma HEX_digits: "n < 16 \<Longrightarrow> HEX (hex_digits ! n) = word_of_nat n"
proof -
  have "\<forall>n \<in> set [0..<16]. HEX (hex_digits ! n) = word_of_nat n" by code_simp
  then show "n < 16 \<Longrightarrow> HEX (hex_digits ! n) = word_of_nat n" by simp
qed

lemma HEX_accepts: "HEX c \<le> 16 \<longleftrightarrow> 48 \<le> unat c \<and> unat c \<le> 57 \<or> 87 \<le> unat c \<and> unat c \<le> 103"
proof -
  have "\<forall>n \<in> set [0..<256]. HEX (word_of_nat n) \<le> 16 \<longleftrightarrow> 48 \<le> n \<and> n \<le> 57 \<or> 87 \<le> n \<and> n \<le> 103" by code_simp
  moreover have "unat c \<in> set [0..<256]" using unat8_less [of c] by simp
  ultimately have "HEX (word_of_nat (unat c)) \<le> 16 \<longleftrightarrow> 48 \<le> unat c \<and> unat c \<le> 57 \<or> 87 \<le> unat c \<and> unat c \<le> 103" by blast
  then show ?thesis by simp
qed

lemma nibbles:
  "unat (drop_bit 4 (b :: u8)) < 16" "unat (b AND 0xf) < 16" "push_bit 4 (drop_bit 4 b) OR (b AND 0xf) = b"
proof -
  have m: "(0xf :: u8) = mask 4" by (simp add: mask_eq_exp_minus_1)
  have "unat b div 2 ^ 4 < 16" using unat8_less [of b] by simp
  then show "unat (drop_bit 4 b) < 16" by (simp only: unat_drop_bit_eq drop_bit_eq_div [where 'a = nat])
  show "unat (b AND 0xf) < 16" by (simp only: m take_bit_eq_mask [symmetric] unat_take_bit) simp
  show "push_bit 4 (drop_bit 4 b) OR (b AND 0xf) = b"
    by (rule bit_word_eqI) (auto simp: m take_bit_eq_mask [symmetric] bit_or_iff bit_push_bit_iff bit_drop_bit_eq bit_take_bit_iff)
qed

lemma hex_loop_tohex: "hex_loop (ltohex t) = Inr t"
proof (induction t)
  case (Cons b t)
  have "HEX (hex_digits ! unat (drop_bit 4 b)) = drop_bit 4 b" "HEX (hex_digits ! unat (b AND 0xf)) = b AND 0xf"
    using HEX_digits [OF nibbles(1), of b] HEX_digits [OF nibbles(2), of b] by simp_all
  moreover have "\<not> 16 < drop_bit 4 b" "\<not> 16 < b AND 0xf" using nibbles(1,2) [of b] by (simp_all add: word_less_nat_alt)
  ultimately show ?case using Cons nibbles(3) [of b] by (simp add: ltohex_def)
qed (simp add: ltohex_def)

lemma length_ltohex: "length (ltohex t) = 2 * length t"
  by (induction t) (simp_all add: ltohex_def)

lemma hex_loop_accepts: "even (length t) \<Longrightarrow> isl (hex_loop t) \<longleftrightarrow> \<not> list_all (\<lambda>c. HEX c \<le> 16) t"
  by (induction t rule: hex_loop.induct) (auto simp: not_less split: sum.splits)

text \<open>
  The hexadecimal decoder gives back what was encoded. It accepts exactly the texts of even length over \<open>0\<close> to \<open>9\<close> and \<open>W\<close> to
  \<open>g\<close>: also the ten characters before \<open>a\<close>, as the digits 0 to 9, and \<open>g\<close>, as 16, but no upper case digits.
\<close>

theorem hex_decoder:
  "lfromhex (ltohex t) = Inr t \<and>
   ((lfromhex u = Inr (projr (lfromhex u))) \<longleftrightarrow> even (length u) \<and>
      list_all (\<lambda>c. 48 \<le> unat c \<and> unat c \<le> 57 \<or> 87 \<le> unat c \<and> unat c \<le> 103) u) \<and>
   lfromhex (map of_char ''g0'') = lfromhex (map of_char ''00'')"
proof (intro conjI)
  show "lfromhex (ltohex t) = Inr t" by (simp add: lfromhex_def length_ltohex hex_loop_tohex)
  have "isl (lfromhex u) \<longleftrightarrow> odd (length u) \<or> \<not> list_all (\<lambda>c. 48 \<le> unat c \<and> unat c \<le> 57 \<or> 87 \<le> unat c \<and> unat c \<le> 103) u"
    by (simp only: lfromhex_def HEX_accepts [symmetric]) (simp add: hex_loop_accepts)
  moreover have "lfromhex u = Inr (projr (lfromhex u)) \<longleftrightarrow> \<not> isl (lfromhex u)" by (cases "lfromhex u") simp_all
  ultimately show "(lfromhex u = Inr (projr (lfromhex u))) \<longleftrightarrow> even (length u) \<and>
      list_all (\<lambda>c. 48 \<le> unat c \<and> unat c \<le> 57 \<or> 87 \<le> unat c \<and> unat c \<le> 103) u" by blast
  show "lfromhex (map of_char ''g0'') = lfromhex (map of_char ''00'')" by code_simp
qed

subsection \<open>Base64 round trip\<close>

lemma encoding_index: "n < 64 \<Longrightarrow> b64index (encoding ! n) = int n"
proof -
  have "\<forall>n \<in> set [0..<64]. b64index (encoding ! n) = int n" by code_simp
  then show "n < 64 \<Longrightarrow> b64index (encoding ! n) = int n" by simp
qed

lemma uint_not_neg [simp]: "uint w \<noteq> - 1" "uint w \<noteq> - 2"
  using uint_ge_0 [of w] by linarith+

lemma padding_index: "b64index 61 = - 2"
  by code_simp

lemma encoding_word:
  assumes "unat (v :: u32) < 64"
  shows "b64index (encoding ! unat v) = uint v" "word_of_int (b64index (encoding ! unat v)) = v"
  using encoding_index [OF assms] by simp_all

lemma six_bits: "(w :: u32) AND 0x3f = take_bit 6 w" "w AND 0xf = take_bit 4 w" "w AND 3 = take_bit 2 w"
proof -
  have "(0x3f :: u32) = mask 6" "(0xf :: u32) = mask 4" "(3 :: u32) = mask 2" by (simp_all add: mask_eq_exp_minus_1)
  then show "w AND 0x3f = take_bit 6 w" "w AND 0xf = take_bit 4 w" "w AND 3 = take_bit 2 w"
    by (simp_all only: take_bit_eq_mask)
qed

lemma split_bits: "push_bit k (take_bit n (drop_bit k w)) OR take_bit k w = take_bit (k + n) (w :: u32)"
proof (rule bit_word_eqI)
  fix i :: nat
  assume "i < LENGTH(32)"
  then show "bit (push_bit k (take_bit n (drop_bit k w)) OR take_bit k w) i = bit (take_bit (k + n) w) i"
    by (auto simp: bit_or_iff bit_push_bit_iff bit_take_bit_iff bit_drop_bit_eq)
qed

lemma small_six: "unat (take_bit 6 w) < 64" "unat (drop_bit k w) < 64 \<longleftrightarrow> unat (w :: u32) < 64 * 2 ^ k"
proof -
  show "unat (take_bit 6 w) < 64" by (simp only: unat_take_bit) simp
  have "unat (drop_bit k w) = unat w div 2 ^ k" by (simp only: unat_drop_bit_eq drop_bit_eq_div [where 'a = nat])
  then show "unat (drop_bit k w) < 64 \<longleftrightarrow> unat w < 64 * 2 ^ k" by (simp add: div_less_iff_less_mult)
qed

lemma four_encoded:
  assumes "\<forall>w \<in> set ws. unat (w :: u32) < 64" "length ws = n"
  shows "b64_four n (map (\<lambda>w. encoding ! unat w) ws @ t) = Inr (map uint ws, t)"
  using assms(1) unfolding assms(2) [symmetric] by (induction ws) (auto simp: encoding_word)

lemma eq_char: "of_char CHR ''='' = (61 :: u8)"
  by simp

lemma b64_four_pad: "b64_four (Suc j) (61 # t) =
    (case b64_four j t of Inl e \<Rightarrow> Inl e | Inr (cs, rest) \<Rightarrow> Inr (- 2 # cs, rest))"
  by (simp add: padding_index split: sum.splits)

lemma cw_uint [simp]: "cw (uint w # cs) 0 = w" "cw (c # cs) (Suc k) = cw cs k"
  by (simp_all add: cw_def)

lemma no_padding: "b64_padding (map uint (ws :: u32 list) @ cs) = b64_padding cs"
  by (induction ws) (auto simp: b64_padding_def)

lemma b64_loop_step:
  assumes "b64_four 4 t = Inr (c, r)" "b64_bytes c = Inr bs"
  shows "b64_loop t = (case b64_loop r of Inl e \<Rightarrow> Inl e | Inr out \<Rightarrow> Inr (bs @ out))"
proof -
  have "t \<noteq> []" using assms(1) by (auto simp: numeral_eq_Suc)
  with assms show ?thesis by (subst b64_loop.simps) simp
qed

lemma small_take: "take_bit n v = v \<Longrightarrow> unat (v :: u32) < 2 ^ n"
  by (metis unat_take_bit mod_less_divisor zero_less_numeral zero_less_power)

lemma high_bits: "take_bit (n + k) (w :: u32) = w \<Longrightarrow> take_bit n (drop_bit k w) = drop_bit k w"
  by (simp add: take_bit_drop_bit)

lemma take_24: "take_bit 24 (push_bit 16 (ucast (a :: u8)) OR push_bit 8 (ucast (b :: u8)) OR ucast (c :: u8) :: u32) =
    push_bit 16 (ucast a) OR push_bit 8 (ucast b) OR ucast c"
  by (rule bit_word_eqI) (auto simp: bit_take_bit_iff bit_or_iff bit_placed bit_placed_0 dest: bit_imp_le_length)

lemma sextets_24:
  assumes "take_bit 24 v = (v :: u32)"
  shows "unat (drop_bit 18 v) < 64"
    and "push_bit 18 (drop_bit 18 v) OR push_bit 12 (take_bit 6 (drop_bit 12 v)) OR push_bit 6 (take_bit 6 (drop_bit 6 v)) OR take_bit 6 v = v"
proof -
  show "unat (drop_bit 18 v) < 64" using small_take [OF assms] by (simp only: small_six) simp
  have "take_bit 6 (drop_bit 18 v) = drop_bit 18 v" using assms by (intro high_bits) simp
  then have "push_bit 18 (drop_bit 18 v) OR take_bit 18 v = v" using split_bits [of 18 6 v] assms by simp
  moreover have "push_bit 12 (take_bit 6 (drop_bit 12 v)) OR take_bit 12 v = take_bit 18 v" using split_bits [of 12 6 v] by simp
  moreover have "push_bit 6 (take_bit 6 (drop_bit 6 v)) OR take_bit 6 v = take_bit 12 v" using split_bits [of 6 6 v] by simp
  ultimately show "push_bit 18 (drop_bit 18 v) OR push_bit 12 (take_bit 6 (drop_bit 12 v)) OR push_bit 6 (take_bit 6 (drop_bit 6 v)) OR take_bit 6 v = v"
    by (simp only: or.assoc)
qed

lemma bytes_no_padding:
  "b64_bytes (map uint [w0, w1, w2, w3 :: u32]) = (let v = push_bit 18 w0 OR push_bit 12 w1 OR push_bit 6 w2 OR w3 in
     Inr [ucast (drop_bit 16 v), ucast (drop_bit 8 v AND 0xff), ucast (v AND 0xff)])"
  by (simp add: b64_bytes_def b64_padding_def cw_def)

lemma group_3:
  fixes a b c :: u8
  defines "v \<equiv> push_bit 16 (ucast a) OR push_bit 8 (ucast b) OR ucast c :: u32"
  shows "\<exists>cs. b64_four 4 (b64_groups (a # b # c # x) @ t) = Inr (cs, b64_groups x @ t) \<and> b64_bytes cs = Inr [a, b, c]"
proof -
  let ?ws = "[drop_bit 18 v, take_bit 6 (drop_bit 12 v), take_bit 6 (drop_bit 6 v), take_bit 6 v]"
  note s = sextets_24 [OF take_24 [of a b c, folded v_def]]
  have "b64_groups (a # b # c # x) @ t = map (\<lambda>w. encoding ! unat w) ?ws @ b64_groups x @ t"
    by (simp only: b64_groups.simps v_def [symmetric] Let_def six_bits list.map append_assoc)
  then have "b64_four 4 (b64_groups (a # b # c # x) @ t) = Inr (map uint ?ws, b64_groups x @ t)"
    using four_encoded [of ?ws 4 "b64_groups x @ t"] s(1) small_six(1) by (simp only: list.set ball_simps) simp
  moreover have "v = push_bit 24 (ucast (0 :: u8)) OR push_bit 16 (ucast a) OR push_bit 8 (ucast b) OR ucast c"
    by (simp add: v_def)
  note b = byte_of_word [of 0 a b c, folded this]
  have "b64_bytes (map uint ?ws) = Inr [a, b, c]"
    by (simp only: bytes_no_padding Let_def s(2) ucast_and_0xff b)
  ultimately show ?thesis by blast
qed
text \<open>The last one or two bytes, with padding.\<close>

lemma four_padded:
  assumes "\<forall>w \<in> set ws. unat (w :: u32) < 64"
  shows "length ws = 3 \<Longrightarrow> b64_four 4 (map (\<lambda>w. encoding ! unat w) ws @ [61]) = Inr (map uint ws @ [- 2], [])"
    and "length ws = 2 \<Longrightarrow> b64_four 4 (map (\<lambda>w. encoding ! unat w) ws @ [61, 61]) = Inr (map uint ws @ [- 2, - 2], [])"
proof -
  have "b64_four (length ws + 1) (map (\<lambda>w. encoding ! unat w) ws @ [61]) = Inr (map uint ws @ [- 2], [])"
    "b64_four (length ws + 2) (map (\<lambda>w. encoding ! unat w) ws @ [61, 61]) = Inr (map uint ws @ [- 2, - 2], [])"
    using assms by (induction ws) (auto simp: encoding_word padding_index numeral_2_eq_2)
  then show "length ws = 3 \<Longrightarrow> b64_four 4 (map (\<lambda>w. encoding ! unat w) ws @ [61]) = Inr (map uint ws @ [- 2], [])"
    "length ws = 2 \<Longrightarrow> b64_four 4 (map (\<lambda>w. encoding ! unat w) ws @ [61, 61]) = Inr (map uint ws @ [- 2, - 2], [])"
    by simp_all
qed

lemma take_8: "take_bit 8 (ucast (a :: u8) :: u32) = ucast a"
  by (rule bit_word_eqI) (auto simp: bit_take_bit_iff bit_placed_0 dest: bit_imp_le_length)

lemma take_16: "take_bit 16 (push_bit 8 (ucast (a :: u8)) OR ucast (b :: u8) :: u32) = push_bit 8 (ucast a) OR ucast b"
  by (rule bit_word_eqI) (auto simp: bit_take_bit_iff bit_or_iff bit_placed bit_placed_0 dest: bit_imp_le_length)

lemma push_take: "k + n \<le> 32 \<Longrightarrow> drop_bit k (push_bit k (take_bit n w)) = take_bit n (w :: u32)"
  "n \<le> k \<Longrightarrow> take_bit n (push_bit k w) = 0"
  by (rule bit_word_eqI, auto simp: bit_drop_bit_eq bit_push_bit_iff bit_take_bit_iff)+

lemma small_push: "n + k \<le> 6 \<Longrightarrow> unat (push_bit k (take_bit n w) :: u32) < 64"
proof -
  assume "n + k \<le> 6"
  then have "take_bit 6 (push_bit k (take_bit n w)) = push_bit k (take_bit n w)"
    by (intro bit_word_eqI) (auto simp: bit_take_bit_iff bit_push_bit_iff)
  from small_take [OF this] show ?thesis by simp
qed

lemma bytes_padding_1:
  "b64_bytes (map uint [w0, w1, w2 :: u32] @ [- 2]) = (if w2 AND 3 \<noteq> 0 then Inl ''Invalid base64 text''
     else let v = push_bit 10 w0 OR push_bit 4 w1 OR drop_bit 2 w2 in Inr [ucast (drop_bit 8 v), ucast (v AND 0xff)])"
  by (simp add: b64_bytes_def b64_padding_def cw_def)

lemma bytes_padding_2:
  "b64_bytes (map uint [w0, w1 :: u32] @ [- 2, - 2]) = (if w1 AND 0xf \<noteq> 0 then Inl ''Invalid base64 text''
     else let v = push_bit 2 w0 OR drop_bit 4 w1 in Inr [ucast v])"
  by (simp add: b64_bytes_def b64_padding_def cw_def)

lemma group_2:
  fixes a b :: u8
  defines "v \<equiv> push_bit 8 (ucast a) OR ucast b :: u32"
  shows "\<exists>cs. b64_four 4 (b64_groups [a, b]) = Inr (cs, []) \<and> b64_bytes cs = Inr [a, b]"
proof -
  let ?ws = "[drop_bit 10 v, take_bit 6 (drop_bit 4 v), push_bit 2 (take_bit 4 v)]"
  have t: "take_bit 16 v = v" unfolding v_def by (rule take_16)
  have "unat (drop_bit 10 v) < 64" using small_take [OF t] by (simp only: small_six) simp
  then have "\<forall>w \<in> set ?ws. unat w < 64" using small_six(1) small_push [of 4 2 v] by (simp only: list.set ball_simps)
  moreover have "b64_groups [a, b] = map (\<lambda>w. encoding ! unat w) ?ws @ [61]"
    by (simp only: b64_groups.simps v_def [symmetric] Let_def six_bits list.map append_Cons append_Nil eq_char)
  moreover have "b64_four 4 (map (\<lambda>w. encoding ! unat w) ?ws @ [61]) = Inr (map uint ?ws @ [- 2], [])"
    using four_padded(1) [OF calculation(1)] by simp
  moreover have "push_bit 10 (drop_bit 10 v) OR push_bit 4 (take_bit 6 (drop_bit 4 v)) OR drop_bit 2 (push_bit 2 (take_bit 4 v)) = v"
  proof -
    have "take_bit 6 (drop_bit 10 v) = drop_bit 10 v" using t by (intro high_bits) simp
    then have "push_bit 10 (drop_bit 10 v) OR take_bit 10 v = v" using split_bits [of 10 6 v] t by simp
    moreover have "push_bit 4 (take_bit 6 (drop_bit 4 v)) OR take_bit 4 v = take_bit 10 v" using split_bits [of 4 6 v] by simp
    moreover have "drop_bit 2 (push_bit 2 (take_bit 4 v)) = take_bit 4 v" by (rule push_take) simp
    ultimately show ?thesis by (simp only: or.assoc)
  qed
  moreover have "push_bit 2 (take_bit 4 v) AND 3 = 0" by (simp only: six_bits push_take(2) order_refl)
  moreover have "v = push_bit 24 (ucast (0 :: u8)) OR push_bit 16 (ucast (0 :: u8)) OR push_bit 8 (ucast a) OR ucast b"
    by (simp add: v_def)
  note b = byte_of_word [of 0 0 a b, folded this]
  ultimately show ?thesis
    by (intro exI [of _ "map uint ?ws @ [- 2]"]) (simp only: bytes_padding_1 Let_def ucast_and_0xff b simp_thms if_False)
qed

lemma group_1:
  fixes a :: u8
  defines "v \<equiv> ucast a :: u32"
  shows "\<exists>cs. b64_four 4 (b64_groups [a]) = Inr (cs, []) \<and> b64_bytes cs = Inr [a]"
proof -
  let ?ws = "[drop_bit 2 v, push_bit 4 (take_bit 2 v)]"
  have t: "take_bit 8 v = v" unfolding v_def by (rule take_8)
  have "unat (drop_bit 2 v) < 64" using small_take [OF t] by (simp only: small_six) simp
  then have "\<forall>w \<in> set ?ws. unat w < 64" using small_push [of 2 4 v] by (simp only: list.set ball_simps)
  moreover have "b64_groups [a] = map (\<lambda>w. encoding ! unat w) ?ws @ [61, 61]"
    by (simp only: b64_groups.simps v_def [symmetric] Let_def six_bits list.map append_Cons append_Nil eq_char)
  moreover have "b64_four 4 (map (\<lambda>w. encoding ! unat w) ?ws @ [61, 61]) = Inr (map uint ?ws @ [- 2, - 2], [])"
    using four_padded(2) [OF calculation(1)] by simp
  moreover have "push_bit 2 (drop_bit 2 v) OR drop_bit 4 (push_bit 4 (take_bit 2 v)) = v"
  proof -
    have "take_bit 6 (drop_bit 2 v) = drop_bit 2 v" using t by (intro high_bits) simp
    then have "push_bit 2 (drop_bit 2 v) OR take_bit 2 v = v" using split_bits [of 2 6 v] t by simp
    moreover have "drop_bit 4 (push_bit 4 (take_bit 2 v)) = take_bit 2 v" by (rule push_take) simp
    ultimately show ?thesis by simp
  qed
  moreover have "push_bit 4 (take_bit 2 v) AND 0xf = 0" by (simp only: six_bits push_take(2) order_refl)
  moreover have "ucast v = a" using byte_of_word(4) [of 0 0 0 a] by (simp add: v_def)
  ultimately show ?thesis
    by (intro exI [of _ "map uint ?ws @ [- 2, - 2]"]) (simp only: bytes_padding_2 Let_def simp_thms if_False)
qed

lemma length_b64_groups: "length (b64_groups t) = (length t + 2) div 3 * 4"
proof (induction t rule: b64_groups.induct)
  case (1 a b c x)
  have "(5 + length x) div 3 = Suc ((length x + 2) div 3)" by presburger
  with 1 show ?case by (simp add: Let_def)
qed (simp_all add: Let_def)

lemma b64_loop_groups: "b64_loop (b64_groups t) = Inr t"
proof (induction t rule: b64_groups.induct)
  case (1 a b c x)
  obtain cs where "b64_four 4 (b64_groups (a # b # c # x)) = Inr (cs, b64_groups x)" "b64_bytes cs = Inr [a, b, c]"
    using group_3 [of a b c x "[]"] by auto
  then show ?case using b64_loop_step 1 by simp
next
  case (2 a b)
  then show ?case using group_2 [of a b] b64_loop_step by (auto simp: b64_loop.simps [of "[]"] simp del: b64_groups.simps)
next
  case (3 a)
  then show ?case using group_1 [of a] b64_loop_step by (auto simp: b64_loop.simps [of "[]"] simp del: b64_groups.simps)
next
  case 4
  then show ?case by (simp add: b64_loop.simps)
qed

text \<open>Bytes that are not in the alphabet are skipped.\<close>

definition foreign :: "u8 \<Rightarrow> bool" where
  "foreign b \<longleftrightarrow> b64index b = - 1"

lemma b64_four_foreign:
  "b64_four j (filter (\<lambda>b. \<not> foreign b) t) = Inr (cs, r) \<Longrightarrow>
   \<exists>r'. b64_four j t = Inr (cs, r') \<and> filter (\<lambda>b. \<not> foreign b) r' = r \<and> (\<exists>u. t = u @ r')"
proof (induction j t arbitrary: cs r rule: b64_four.induct)
  case (3 j b t)
  show ?case
  proof (cases "b64index b = - 1")
    case True
    with 3 obtain r' where "b64_four (Suc j) t = Inr (cs, r') \<and> filter (\<lambda>b. \<not> foreign b) r' = r \<and> (\<exists>u. t = u @ r')"
      by (auto simp: foreign_def)
    with True show ?thesis by (auto intro: exI [of _ "b # _"])
  next
    case False
    with 3(3) obtain cs' where "b64_four j (filter (\<lambda>b. \<not> foreign b) t) = Inr (cs', r)" "cs = b64index b # cs'"
      by (auto simp: foreign_def split: sum.splits)
    moreover from 3(2) [OF False this(1)] obtain r' u where "b64_four j t = Inr (cs', r')" "filter (\<lambda>b. \<not> foreign b) r' = r" "t = u @ r'"
      by blast
    ultimately show ?thesis using False by (auto intro: exI [of _ "b # u"])
  qed
qed auto

lemma b64_loop_foreign:
  assumes "b64_loop (filter (\<lambda>b. \<not> foreign b) t) = Inr out" "t = [] \<or> \<not> foreign (List.last t)"
  shows "b64_loop t = Inr out"
  using assms
proof (induction "length t" arbitrary: t out rule: less_induct)
  case less
  let ?f = "filter (\<lambda>b. \<not> foreign b)"
  show ?case
  proof (cases "t = []")
    case False
    then have "?f t \<noteq> []" using less(3) by (metis (mono_tags, lifting) empty_filter_conv last_in_set)
    then obtain c r bs out' where s: "b64_four 4 (?f t) = Inr (c, r)" "b64_bytes c = Inr bs" "b64_loop r = Inr out'" "out = bs @ out'"
      using less(2) by (subst (asm) b64_loop.simps) (auto split: sum.splits)
    from b64_four_foreign [OF s(1)] obtain r' u where r': "b64_four 4 t = Inr (c, r')" "?f r' = r" "t = u @ r'" by blast
    have "length r' < length t" using b64_four_shorter [OF r'(1)] by simp
    moreover have "r' = [] \<or> \<not> foreign (List.last r')" using less(3) r'(3) by auto
    ultimately have "b64_loop r' = Inr out'" using less(1) s(3) r'(2) by blast
    then show ?thesis using b64_loop_step [OF r'(1) s(2)] s(4) by simp
  qed (use less in simp)
qed

lemma buffer_bound: "(n + 2) div 3 * 4 \<le> m \<Longrightarrow> n \<le> (m + 3) div 4 * (3 :: nat)"
proof -
  assume "(n + 2) div 3 * 4 \<le> m"
  then have "(n + 2) div 3 \<le> (m + 3) div 4" by (simp add: less_eq_div_iff_mult_less_eq)
  then show ?thesis by linarith
qed



end
