(* ===== verification/Sha1.thy ===== *)
theory Sha1
  imports Crypt_Des
begin

section \<open>SHA-1 and HMAC (lualib-src/lsha1.c)\<close>

text \<open>
  The streaming hash: a context holds the state, the number of bits in two words and a block that is not complete. \<open>Init\<close> leaves the
  block as it is, so the model gets its first contents as an argument. The reference pads the whole
  message and folds the compression over its blocks. The results: any sequence of updates
  gives the reference, the last loop of \<open>Final\<close> ends, and HMAC is the construction of RFC 2104; updates of at least
  512 MB count wrongly.
\<close>

record SHA1_CTX =
  sh_state :: "u32 list"
  sh_count0 :: u32
  sh_count1 :: u32
  sh_buffer :: bytes

definition rol :: "u32 \<Rightarrow> nat \<Rightarrow> u32" where
  "rol value bits = push_bit bits value OR drop_bit (32 - bits) value"

text \<open>The sixteen words of a block as the machine loads them, low byte first.\<close>

definition load_block :: "bytes \<Rightarrow> u32 list" where
  "load_block b = map (\<lambda>i. ucast (b ! (4 * i)) OR push_bit 8 (ucast (b ! (4 * i + 1))) OR
     push_bit 16 (ucast (b ! (4 * i + 2))) OR push_bit 24 (ucast (b ! (4 * i + 3)))) [0..<16]"

definition blk0 :: "u32 list \<Rightarrow> nat \<Rightarrow> u32" where
  "blk0 l i = (rol (l ! i) 24 AND 0xFF00FF00) OR (rol (l ! i) 8 AND 0x00FF00FF)"

definition blk :: "u32 list \<Rightarrow> nat \<Rightarrow> u32" where
  "blk l i = rol (l ! ((i + 13) mod 16) XOR l ! ((i + 8) mod 16) XOR l ! ((i + 2) mod 16) XOR l ! (i mod 16)) 1"

text \<open>One line of the unrolled rounds; the variables change their roles from one to the next.\<close>

definition sha1_round :: "nat \<Rightarrow> u32 \<times> u32 \<times> u32 \<times> u32 \<times> u32 \<times> u32 list \<Rightarrow> u32 \<times> u32 \<times> u32 \<times> u32 \<times> u32 \<times> u32 list" where
  "sha1_round i = (\<lambda>(v, w, x, y, z, l).
     let b = (if i < 16 then blk0 l i else blk l i);
         f = (if i < 20 then ((w AND (x XOR y)) XOR y) + b + 0x5A827999
              else if i < 40 then (w XOR x XOR y) + b + 0x6ED9EBA1
              else if i < 60 then (((w OR x) AND y) OR (w AND x)) + b + 0x8F1BBCDC
              else (w XOR x XOR y) + b + 0xCA62C1D6) in
     (z + f + rol v 5, v, rol w 30, x, y, l[i mod 16 := b]))"

definition SHA1_Transform :: "u32 list \<Rightarrow> bytes \<Rightarrow> u32 list" where
  "SHA1_Transform state buffer =
     (let (a, b, c, d, e, l) = fold sha1_round [0..<80]
        (state ! 0, state ! 1, state ! 2, state ! 3, state ! 4, load_block buffer) in
      [state ! 0 + a, state ! 1 + b, state ! 2 + c, state ! 3 + d, state ! 4 + e])"

definition sha1_init_state :: "u32 list" where
  "sha1_init_state = [0x67452301, 0xEFCDAB89, 0x98BADCFE, 0x10325476, 0xC3D2E1F0]"

definition sat_SHA1_Init :: "bytes \<Rightarrow> SHA1_CTX" where
  "sat_SHA1_Init garbage = \<lparr>sh_state = sha1_init_state, sh_count0 = 0, sh_count1 = 0, sh_buffer = garbage\<rparr>"

text \<open>The loop over the complete blocks of the data, from index \<open>i\<close> on: the state and the first index that is not hashed.\<close>

function update_blocks :: "u32 list \<Rightarrow> bytes \<Rightarrow> nat \<Rightarrow> u32 list \<times> nat" where
  "update_blocks state data i =
     (if i + 63 < length data then update_blocks (SHA1_Transform state (take 64 (drop i data))) data (i + 64) else (state, i))"
  by pat_completeness auto
termination by (relation "measure (\<lambda>(state, data, i). length data - i)") auto

declare update_blocks.simps [simp del]

text \<open>\<open>memcpy\<close> to \<open>buffer[j]\<close>.\<close>

definition buffer_put :: "nat \<Rightarrow> bytes \<Rightarrow> bytes \<Rightarrow> bytes" where
  "buffer_put j src buffer = take j buffer @ src @ drop (j + length src) buffer"

text \<open>The counting compares a word of 32 bits with a \<open>size_t\<close> of 64.\<close>

definition count_bits :: "nat \<Rightarrow> u32 \<times> u32 \<Rightarrow> u32 \<times> u32" where
  "count_bits len = (\<lambda>(count0, count1).
     let l = word_of_nat len :: u64;
         count0' = ucast (ucast count0 + push_bit 3 l) :: u32 in
     (count0', (if (ucast count0' :: u64) < push_bit 3 l then count1 + 1 else count1) + ucast (drop_bit 29 l)))"

definition sat_SHA1_Update :: "SHA1_CTX \<Rightarrow> bytes \<Rightarrow> SHA1_CTX" where
  "sat_SHA1_Update ctx data =
     (let j = unat (drop_bit 3 (sh_count0 ctx) AND 63); len = length data;
          (c0, c1) = count_bits len (sh_count0 ctx, sh_count1 ctx);
          ctx = ctx\<lparr>sh_count0 := c0, sh_count1 := c1\<rparr> in
      if 63 < j + len then
        let i = 64 - j; buffer = buffer_put j (take i data) (sh_buffer ctx);
            (state, i') = update_blocks (SHA1_Transform (sh_state ctx) buffer) data i in
        ctx\<lparr>sh_state := state, sh_buffer := buffer_put 0 (drop i' data) buffer\<rparr>
      else ctx\<lparr>sh_buffer := buffer_put j data (sh_buffer ctx)\<rparr>)"

text \<open>The zeros up to byte 56 of a block.\<close>

partial_function (option) final_zeros :: "SHA1_CTX \<Rightarrow> SHA1_CTX option" where
  "final_zeros ctx = (if sh_count0 ctx AND 504 \<noteq> 448 then final_zeros (sat_SHA1_Update ctx [0]) else Some ctx)"

definition count_bytes :: "SHA1_CTX \<Rightarrow> bytes" where
  "count_bytes ctx = map (\<lambda>i. ucast (drop_bit ((3 - i mod 4) * 8) (if 4 \<le> i then sh_count0 ctx else sh_count1 ctx) AND 255)) [0..<8]"

definition digest_bytes :: "u32 list \<Rightarrow> bytes" where
  "digest_bytes state = map (\<lambda>i. ucast (drop_bit ((3 - i mod 4) * 8) (state ! (i div 4)) AND 255)) [0..<20]"

definition sat_SHA1_Final :: "SHA1_CTX \<Rightarrow> bytes option" where
  "sat_SHA1_Final ctx = do {
     let finalcount = count_bytes ctx;
     ctx1 \<leftarrow> final_zeros (sat_SHA1_Update ctx [0x80]);
     Some (digest_bytes (sh_state (sat_SHA1_Update ctx1 finalcount))) }"

definition lsha1 :: "bytes \<Rightarrow> bytes \<Rightarrow> bytes option" where
  "lsha1 garbage buffer = sat_SHA1_Final (sat_SHA1_Update (sat_SHA1_Init garbage) buffer)"

definition BLOCKSIZE :: nat where "BLOCKSIZE = 64"

definition xor_key :: "bytes \<Rightarrow> u32 \<Rightarrow> bytes" where
  "xor_key key x = map (\<lambda>i. key ! i XOR ucast (drop_bit (8 * (i mod 4)) x)) [0..<BLOCKSIZE]"

definition hmac_key :: "bytes \<Rightarrow> bytes \<Rightarrow> bytes option" where
  "hmac_key garbage key =
     (let rkey = replicate BLOCKSIZE 0 in
      if BLOCKSIZE < length key then do { digest \<leftarrow> lsha1 garbage key; Some (buffer_put 0 digest rkey) }
      else Some (buffer_put 0 key rkey))"

definition lhmac_sha1 :: "bytes \<Rightarrow> bytes \<Rightarrow> bytes \<Rightarrow> bytes option" where
  "lhmac_sha1 garbage key text = do {
     rkey \<leftarrow> hmac_key garbage key;
     let rkey1 = xor_key rkey 0x5c5c5c5c;
     let ctx1 = sat_SHA1_Update (sat_SHA1_Init garbage) rkey1;
     let rkey2 = xor_key rkey1 (0x5c5c5c5c XOR 0x36363636);
     let ctx2 = sat_SHA1_Update (sat_SHA1_Update (sat_SHA1_Init garbage) rkey2) text;
     digest2 \<leftarrow> sat_SHA1_Final ctx2;
     sat_SHA1_Final (sat_SHA1_Update ctx1 digest2) }"

subsection \<open>The reference\<close>

function hash_blocks :: "u32 list \<Rightarrow> bytes \<Rightarrow> u32 list" where
  "hash_blocks state m = (if 64 \<le> length m then hash_blocks (SHA1_Transform state (take 64 m)) (drop 64 m) else state)"
  by pat_completeness auto
termination by (relation "measure (\<lambda>(state, m). length m)") auto

declare hash_blocks.simps [simp del]

definition be64 :: "nat \<Rightarrow> bytes" where
  "be64 n = map (\<lambda>i. word_of_nat (n div 2 ^ (8 * (7 - i)))) [0..<8]"

definition sha1_pad :: "bytes \<Rightarrow> bytes" where
  "sha1_pad m = m @ [0x80] @ replicate ((119 - length m mod 64) mod 64) 0 @ be64 (8 * length m)"

definition sha1_spec :: "bytes \<Rightarrow> bytes" where
  "sha1_spec m = digest_bytes (hash_blocks sha1_init_state (sha1_pad m))"

lemma hash_blocks_small: "length m < 64 \<Longrightarrow> hash_blocks s m = s"
  by (simp add: hash_blocks.simps)

lemma hash_blocks_step: "length b = 64 \<Longrightarrow> hash_blocks s (b @ m) = hash_blocks (SHA1_Transform s b) m"
  by (subst hash_blocks.simps) simp

lemma hash_blocks_append: "64 dvd length a \<Longrightarrow> hash_blocks s (a @ b) = hash_blocks (hash_blocks s a) b"
proof (induction s a rule: hash_blocks.induct)
  case (1 s a)
  show ?case
  proof (cases "64 \<le> length a")
    case True
    then have "64 dvd length (drop 64 a)" using 1(2) by (simp add: dvd_diff_nat)
    moreover have "hash_blocks s (take 64 a @ x) = hash_blocks (SHA1_Transform s (take 64 a)) x" for x
      using True by (intro hash_blocks_step) simp
    from this [of "drop 64 a @ b"] this [of "drop 64 a"]
    have "hash_blocks s (a @ b) = hash_blocks (SHA1_Transform s (take 64 a)) (drop 64 a @ b)"
      "hash_blocks s a = hash_blocks (SHA1_Transform s (take 64 a)) (drop 64 a)" by (simp_all flip: append_assoc)
    ultimately show ?thesis using 1(1) [OF True] by simp
  next
    case False
    then have "a = []" using 1(2) by (auto dest: dvd_imp_le)
    then show ?thesis by (simp add: hash_blocks_small)
  qed
qed

lemma hash_blocks_full: "hash_blocks s (take (64 * (length m div 64)) m) = hash_blocks s m"
proof -
  let ?k = "64 * (length m div 64)"
  have "length m - ?k < 64" "length (take ?k m) = ?k" by (presburger, simp)
  then show ?thesis
    using hash_blocks_append [of "take ?k m" s "drop ?k m"] hash_blocks_small [of "drop ?k m"] by simp
qed

lemma update_blocks_correct:
  "i \<le> length data \<Longrightarrow> update_blocks s data i = (hash_blocks s (drop i data), i + 64 * ((length data - i) div 64))"
proof (induction s data i rule: update_blocks.induct)
  case (1 s data i)
  show ?case
  proof (cases "i + 63 < length data")
    case True
    have "length data - i = (length data - (i + 64)) + 64" using True by simp
    then have "(length data - i) div 64 = Suc ((length data - (i + 64)) div 64)" by (simp only: div_add_self2)
    moreover have "take 64 (drop i data) @ drop (i + 64) data = drop i data"
      using append_take_drop_id [of 64 "drop i data"] by (simp add: add.commute)
    then have "hash_blocks s (drop i data) = hash_blocks (SHA1_Transform s (take 64 (drop i data))) (drop (i + 64) data)"
      using True hash_blocks_step [of "take 64 (drop i data)" s "drop (i + 64) data"] by (simp del: append_take_drop_id)
    moreover have "update_blocks s data i = update_blocks (SHA1_Transform s (take 64 (drop i data))) data (i + 64)"
      using True by (subst update_blocks.simps) simp
    ultimately show ?thesis using 1(1) [OF True] True by simp
  next
    case False
    with 1 show ?thesis by (subst update_blocks.simps) (simp add: hash_blocks_small)
  qed
qed

subsection \<open>Any sequence of updates gives the reference\<close>

definition counts :: "nat \<Rightarrow> u32 \<times> u32 \<Rightarrow> bool" where
  "counts n c \<longleftrightarrow> unat (fst c) = 8 * n mod 2 ^ 32 \<and> unat (snd c) = 8 * n div 2 ^ 32 mod 2 ^ 32"

definition absorbed :: "SHA1_CTX \<Rightarrow> bytes \<Rightarrow> bool" where
  "absorbed ctx m \<longleftrightarrow> sh_state ctx = hash_blocks sha1_init_state m \<and> length (sh_buffer ctx) = 64 \<and>
     take (length m mod 64) (sh_buffer ctx) = drop (64 * (length m div 64)) m \<and> counts (length m) (sh_count0 ctx, sh_count1 ctx)"

lemma length_bits:
  assumes "len < 2 ^ 29"
  shows "unat (push_bit 3 (word_of_nat len :: u64)) = 8 * len" "drop_bit 29 (word_of_nat len :: u64) = 0"
proof -
  have l: "unat (word_of_nat len :: u64) = len" using assms by (simp add: unat_of_nat)
  then show "unat (push_bit 3 (word_of_nat len :: u64)) = 8 * len"
    using assms by (simp add: push_bit_eq_mult unat_word_ariths mult.commute)
  show "drop_bit 29 (word_of_nat len :: u64) = 0"
    using assms l by (simp add: word_unat_eq_iff unat_drop_bit_eq drop_bit_eq_div [where 'a = nat])
qed

lemma count_carry:
  fixes a b :: nat
  assumes "b < 2 ^ 32" "a < 2 ^ 32"
  shows "(a + b) mod 2 ^ 32 < b \<longleftrightarrow> 2 ^ 32 \<le> a + b"
proof (cases "a + b < 2 ^ 32")
  case False
  then have "(a + b) mod 2 ^ 32 = a + b - 2 ^ 32" using assms by (simp add: le_mod_geq)
  with False assms show ?thesis by auto
qed simp

lemma add_carry:
  fixes x b :: nat
  assumes "b < k"
  shows "(x + b) div k = x div k + (if k \<le> x mod k + b then 1 else 0)"
proof -
  define r where "r = x mod k"
  have r: "r < k" using assms by (simp add: r_def)
  have "(x + b) div k = x div k + (r + b) div k" using div_add1_eq [of x b k] assms by (simp add: r_def)
  moreover have "(r + b) div k = (if k \<le> r + b then 1 else 0)"
    using assms r by (auto simp: le_div_geq)
  ultimately show ?thesis by (simp add: r_def)
qed

lemma unat_low: "unat (ucast (w :: u64) :: u32) = unat w mod 2 ^ 32"
  by (simp only: unsigned_ucast_eq take_bit_eq_mod) simp

lemma unat_up: "unat (ucast (w :: u32) :: u64) = unat w"
  by (simp add: unsigned_ucast_eq take_bit_nat_eq_self_iff unat32_less [THEN less_trans])

lemma count_bits_correct:
  assumes "counts n c" "len < 2 ^ 29"
  shows "counts (n + len) (count_bits len c)"
proof -
  obtain c0 c1 where c: "c = (c0, c1)" by force
  note l = length_bits [OF assms(2)]
  have b: "8 * len < 2 ^ 32" using assms(2) by simp
  let ?sum = "ucast c0 + push_bit 3 (word_of_nat len) :: u64"
  let ?c0 = "ucast ?sum :: u32"
  have "unat ?sum = unat c0 + 8 * len"
    using l(1) b unat32_less [of c0] by (subst unat_word_ariths) (simp add: unat_up)
  then have s: "unat ?c0 = (unat c0 + 8 * len) mod 2 ^ 32"
    by (simp only: unat_low)
  have carry: "(ucast ?c0 :: u64) < push_bit 3 (word_of_nat len) \<longleftrightarrow> 2 ^ 32 \<le> unat c0 + 8 * len"
    using count_carry [OF b unat32_less [of c0]] by (simp only: word_less_nat_alt unat_up s l(1))
  have r: "count_bits len c = (?c0, if 2 ^ 32 \<le> unat c0 + 8 * len then c1 + 1 else c1)"
    by (simp only: count_bits_def c split Let_def carry l(2)) simp
  have n: "unat c0 = 8 * n mod 2 ^ 32" "unat c1 = 8 * n div 2 ^ 32 mod 2 ^ 32" using assms(1) by (simp_all add: counts_def c)
  have "8 * (n + len) div 2 ^ 32 = 8 * n div 2 ^ 32 + (if 2 ^ 32 \<le> unat c0 + 8 * len then 1 else 0)"
    using add_carry [OF b, of "8 * n"] n(1) by (simp add: distrib_left)
  moreover have "unat (c1 + 1) = (unat c1 + 1) mod 2 ^ 32" by (simp add: unat_word_ariths)
  ultimately have "unat (if 2 ^ 32 \<le> unat c0 + 8 * len then c1 + 1 else c1) = 8 * (n + len) div 2 ^ 32 mod 2 ^ 32"
    using n(2) by (auto simp: mod_Suc_eq)
  moreover have "unat ?c0 = 8 * (n + len) mod 2 ^ 32" using s n(1) by (simp add: distrib_left mod_add_left_eq)
  ultimately show ?thesis by (simp add: counts_def r)
qed

lemma counts_block: "counts n (c0, c1) \<Longrightarrow> unat (drop_bit 3 c0 AND 63) = n mod 64"
proof -
  assume "counts n (c0, c1)"
  then have c: "unat c0 = 8 * n mod 2 ^ 32" by (simp add: counts_def)
  have "(63 :: u32) = mask 6" by (simp add: mask_eq_exp_minus_1)
  then have "unat (drop_bit 3 c0 AND 63) = unat c0 div 2 ^ 3 mod 2 ^ 6"
    by (simp only: take_bit_eq_mask [symmetric] unat_take_bit unat_drop_bit_eq drop_bit_eq_div [where 'a = nat])
  also have "unat c0 div 2 ^ 3 = n mod 2 ^ 29" using mod_mult_mult1 [of 8 n "2 ^ 29"] unfolding c by simp
  also have "n mod 2 ^ 29 mod 2 ^ 6 = n mod 64" by (simp add: mod_mod_cancel)
  finally show ?thesis .
qed

lemma length_buffer_put: "j + length src \<le> length b \<Longrightarrow> length (buffer_put j src b) = length b"
  by (simp add: buffer_put_def)

lemma take_buffer_put: "j \<le> length b \<Longrightarrow> take (j + length src) (buffer_put j src b) = take j b @ src"
  by (simp add: buffer_put_def)

lemma in_block: "n mod 64 + l < 64 \<Longrightarrow> (n + l) div 64 = n div 64 \<and> (n + l) mod 64 = n mod 64 + (l :: nat)"
  using div_add1_eq [of n l 64] mod_add_eq [of n 64 l] by (simp add: mod_less)

lemma fill_block: "r < 64 \<Longrightarrow> n = 64 * d + r \<Longrightarrow> n + (64 - r + e) = e + 64 * (d + (1 :: nat))"
  by simp

lemma shifted_block: "(e + 64 * (d + 1)) div 64 = d + 1 + e div (64 :: nat)" "(e + 64 * (d + 1)) mod 64 = e mod (64 :: nat)"
  by (simp_all only: div_mult_self2 mod_mult_self2)

lemma over_block:
  assumes "63 < n mod 64 + (l :: nat)"
  shows "(n + l) div 64 = n div 64 + 1 + (l - (64 - n mod 64)) div 64 \<and> (n + l) mod 64 = (l - (64 - n mod 64)) mod 64"
proof -
  have "64 - n mod 64 \<le> l" using assms by simp
  then obtain e where l: "l = (64 - n mod 64) + e" using le_Suc_ex by blast
  have "n + l = e + 64 * (n div 64 + 1)" unfolding l by (rule fill_block) simp_all
  moreover have "l - (64 - n mod 64) = e" by (simp add: l)
  ultimately show ?thesis by (simp only: shifted_block simp_thms)
qed

lemma absorbed_update:
  assumes "absorbed ctx m" "length data < 2 ^ 29"
  shows "absorbed (sat_SHA1_Update ctx data) (m @ data)"
proof -
  let ?j = "length m mod 64" and ?k = "64 * (length m div 64)" and ?len = "length data"
  have a: "sh_state ctx = hash_blocks sha1_init_state m" "length (sh_buffer ctx) = 64" "take ?j (sh_buffer ctx) = drop ?k m"
    "counts (length m) (sh_count0 ctx, sh_count1 ctx)" using assms(1) by (simp_all add: absorbed_def)
  have j: "unat (drop_bit 3 (sh_count0 ctx) AND 63) = ?j" using counts_block [OF a(4)] .
  have m: "m = take ?k m @ drop ?k m" "length (take ?k m) = ?k" "length (drop ?k m) = ?j" "?j < 64" "length m = ?k + ?j"
    by (simp_all add: minus_mult_div_eq_mod)
  obtain c0 c1 where c: "count_bits ?len (sh_count0 ctx, sh_count1 ctx) = (c0, c1)" by force
  then have cc: "counts (length (m @ data)) (c0, c1)" using count_bits_correct [OF a(4) assms(2)] by simp
  show ?thesis
  proof (cases "63 < ?j + ?len")
    case False
    then have l: "(length m + ?len) div 64 = length m div 64" "(length m + ?len) mod 64 = ?j + ?len"
      using in_block [of "length m" ?len] by simp_all
    have "hash_blocks sha1_init_state (m @ data) = hash_blocks sha1_init_state m"
      using hash_blocks_full [of sha1_init_state "m @ data"] hash_blocks_full [of sha1_init_state m] l(1) by simp
    moreover have "take (?j + ?len) (buffer_put ?j data (sh_buffer ctx)) = drop ?k m @ data"
      using take_buffer_put [of ?j "sh_buffer ctx" data] a(2,3) m(4) by simp
    moreover have "length (buffer_put ?j data (sh_buffer ctx)) = 64" using False a(2) by (simp add: length_buffer_put)
    ultimately show ?thesis
      using False a(1) cc l by (simp add: sat_SHA1_Update_def absorbed_def Let_def j c)
  next
    case True
    let ?i = "64 - ?j" and ?b = "buffer_put ?j (take (64 - ?j) data) (sh_buffer ctx)"
    define q where "q = (?len - ?i) div 64"
    have i: "?i \<le> ?len" "length (take ?i data) = ?i" using True m(4) by simp_all
    have l: "(length m + ?len) div 64 = length m div 64 + 1 + q" "(length m + ?len) mod 64 = (?len - ?i) mod 64"
      using over_block [of "length m" ?len] True by (simp_all add: q_def)
    have lb: "length ?b = 64" using i a(2) m(4) by (intro trans [OF length_buffer_put]) simp_all
    have "take 64 ?b = drop ?k m @ take ?i data"
      using take_buffer_put [of ?j "sh_buffer ctx" "take ?i data"] a(2,3) m(4) i by simp
    then have b: "?b = drop ?k m @ take ?i data" using lb by simp
    have "hash_blocks sha1_init_state (m @ data) = hash_blocks (hash_blocks sha1_init_state (take ?k m)) (?b @ drop ?i data)"
      using hash_blocks_append [of "take ?k m" sha1_init_state "?b @ drop ?i data"] m(2) b
      by (simp del: append_assoc add: append_assoc [symmetric]) (metis append_assoc append_take_drop_id)
    also have "\<dots> = hash_blocks (SHA1_Transform (sh_state ctx) ?b) (drop ?i data)"
      using hash_blocks_step [OF lb] hash_blocks_full [of sha1_init_state m] a(1) by simp
    finally have h: "hash_blocks (SHA1_Transform (sh_state ctx) ?b) (drop ?i data) = hash_blocks sha1_init_state (m @ data)" by simp
    have u: "update_blocks (SHA1_Transform (sh_state ctx) ?b) data ?i = (hash_blocks sha1_init_state (m @ data), ?i + 64 * q)"
      using update_blocks_correct [OF i(1)] h by (simp add: q_def)
    have d: "drop (64 * ((length m + ?len) div 64)) (m @ data) = drop (?i + 64 * q) data"
    proof -
      have "64 * ((length m + ?len) div 64) = length m + (?i + 64 * q)"
        using fill_block [OF m(4,5), of "64 * q"] unfolding l(1) by (simp only: distrib_left mult_1_right add_ac)
      then show ?thesis by (simp only: drop_append) simp
    qed
    have ld: "length (drop (?i + 64 * q) data) = (?len - ?i) mod 64" using i(1) by (simp add: q_def minus_mult_div_eq_mod [symmetric])
    then have "length (buffer_put 0 (drop (?i + 64 * q) data) ?b) = 64" using lb by (subst length_buffer_put) simp_all
    moreover have "take ((length m + ?len) mod 64) (buffer_put 0 (drop (?i + 64 * q) data) ?b) = drop (64 * ((length m + ?len) div 64)) (m @ data)"
      using take_buffer_put [of 0 ?b "drop (?i + 64 * q) data"] unfolding ld by (simp only: l(2) d add_0 le0 take_0 append_Nil)
    moreover have "sat_SHA1_Update ctx data = ctx\<lparr>sh_count0 := c0, sh_count1 := c1, sh_state := hash_blocks sha1_init_state (m @ data),
        sh_buffer := buffer_put 0 (drop (?i + 64 * q) data) ?b\<rparr>"
      using True u by (simp add: sat_SHA1_Update_def Let_def j c)
    ultimately show ?thesis using cc by (simp add: absorbed_def)
  qed
qed

subsection \<open>The end of the message\<close>

lemma absorbed_init: "length garbage = 64 \<Longrightarrow> absorbed (sat_SHA1_Init garbage) []"
  by (simp add: absorbed_def sat_SHA1_Init_def hash_blocks_small counts_def)

lemma counts_504: "counts n (c0, c1) \<Longrightarrow> c0 AND 504 \<noteq> 448 \<longleftrightarrow> n mod 64 \<noteq> 56"
proof -
  assume "counts n (c0, c1)"
  then have b: "unat (drop_bit 3 c0 AND 63) = n mod 64" by (rule counts_block)
  have m: "(504 :: u32) = push_bit 3 (mask 6)" "(63 :: u32) = mask 6" by (simp_all add: mask_eq_exp_minus_1)
  have "c0 AND 504 = push_bit 3 (drop_bit 3 c0 AND 63)"
  proof (rule bit_word_eqI)
    fix i :: nat
    assume "i < LENGTH(32)"
    then show "bit (c0 AND 504) i = bit (push_bit 3 (drop_bit 3 c0 AND 63)) i"
      by (simp only: m bit_and_iff bit_push_bit_iff bit_mask_iff bit_drop_bit_eq comp_def) auto
  qed
  then have "unat (c0 AND 504) = 8 * (n mod 64) mod 2 ^ 32"
    by (simp only: push_bit_eq_mult unat_word_ariths b) simp
  then have "unat (c0 AND 504) = 8 * (n mod 64)" by simp
  moreover have "c0 AND 504 = 448 \<longleftrightarrow> unat (c0 AND 504) = unat (448 :: u32)" by (rule word_unat_eq_iff)
  ultimately show ?thesis by simp
qed

lemma byte_of_count:
  fixes c :: u32
  assumes "unat c = a mod 2 ^ 32" "k + 8 \<le> 32"
  shows "ucast (drop_bit k c AND 255) = (word_of_nat (a div 2 ^ k) :: u8)"
proof -
  have "unat (ucast (drop_bit k c AND 255) :: u8) = unat (drop_bit k c) mod 2 ^ 8"
    by (simp only: ucast_and_0xff) (simp only: unsigned_ucast_eq take_bit_eq_mod, simp)
  also have "\<dots> = take_bit 8 (drop_bit k (take_bit 32 a))"
    by (simp only: unat_drop_bit_eq assms(1) take_bit_eq_mod)
  also have "\<dots> = take_bit 8 (drop_bit k a)"
    using assms(2) by (auto simp: bit_eq_iff bit_take_bit_iff bit_drop_bit_eq)
  also have "\<dots> = unat (word_of_nat (a div 2 ^ k) :: u8)"
    by (simp add: unat_of_nat take_bit_eq_mod drop_bit_eq_div)
  finally show ?thesis by (simp only: word_unat_eq_iff)
qed

lemma count_bytes_be64:
  assumes "counts n (sh_count0 ctx, sh_count1 ctx)"
  shows "count_bytes ctx = be64 (8 * n)"
proof -
  have "ucast (drop_bit ((3 - i mod 4) * 8) (if 4 \<le> i then sh_count0 ctx else sh_count1 ctx) AND 255) =
      (word_of_nat (8 * n div 2 ^ (8 * (7 - i))) :: u8)" if "i < 8" for i
  proof (cases "4 \<le> i")
    case True
    with that have "i mod 4 = i - 4" by (simp add: le_mod_geq)
    then have "(3 - i mod 4) * 8 = 8 * (7 - i)" using True by simp
    with True show ?thesis
      using byte_of_count [of "sh_count0 ctx" "8 * n" "8 * (7 - i)"] assms by (simp add: counts_def mult.commute)
  next
    case False
    have e: "8 * (7 - i) = 32 + 8 * (3 - i)" using False by simp
    have "8 * n div 2 ^ 32 div 2 ^ (8 * (3 - i)) = 8 * n div 2 ^ (8 * (7 - i))"
      unfolding e power_add by (rule div_mult2_eq [symmetric])
    with False show ?thesis
      using byte_of_count [of "sh_count1 ctx" "8 * n div 2 ^ 32" "8 * (3 - i)"] assms by (simp add: counts_def mult.commute)
  qed
  then show ?thesis by (simp add: count_bytes_def be64_def del: upt_Suc)
qed

lemma zeros_to_56: "(120 - n mod 64) mod 64 = (if n mod 64 \<le> 56 then 56 - n mod 64 else 120 - n mod (64 :: nat))"
proof -
  have "n mod 64 < 64" by simp
  moreover have "(120 - r) mod 64 = (if r \<le> 56 then 56 - r else 120 - r)" if "r < 64" for r :: nat
    using that by (auto simp: le_mod_geq)
  ultimately show ?thesis by blast
qed

lemma zeros_left: "n mod 64 = 56 \<longleftrightarrow> (120 - n mod 64) mod 64 = (0 :: nat)"
  "(120 - n mod 64) mod 64 = Suc z \<Longrightarrow> (120 - Suc n mod 64) mod 64 = z"
proof -
  have "n mod 64 < 64" by simp
  then show "n mod 64 = 56 \<longleftrightarrow> (120 - n mod 64) mod 64 = 0" by (simp only: zeros_to_56 split: if_splits) auto
  assume "(120 - n mod 64) mod 64 = Suc z"
  then show "(120 - Suc n mod 64) mod 64 = z"
    using \<open>n mod 64 < 64\<close> unfolding zeros_to_56 by (auto simp: mod_Suc split: if_splits)
qed

lemma final_zeros_correct:
  assumes "absorbed ctx m"
  shows "\<exists>ctx'. final_zeros ctx = Some ctx' \<and> absorbed ctx' (m @ replicate ((120 - length m mod 64) mod 64) 0)"
  using assms
proof (induction "(120 - length m mod 64) mod 64" arbitrary: ctx m)
  case 0
  have "length m mod 64 = 56" using 0(1) zeros_left(1) by metis
  with 0 counts_504 [of "length m" "sh_count0 ctx" "sh_count1 ctx"] show ?case
    by (subst final_zeros.simps) (simp add: absorbed_def)
next
  case (Suc z)
  have ne: "length m mod 64 \<noteq> 56" using Suc(2) zeros_left(1) by (metis nat.distinct(1))
  have z: "z = (120 - length (m @ [0]) mod 64) mod 64" using zeros_left(2) [OF Suc(2) [symmetric]] by simp
  have "absorbed (sat_SHA1_Update ctx [0]) (m @ [0])" using absorbed_update [OF Suc(3)] by simp
  from Suc(1) [OF z this] obtain ctx' where c: "final_zeros (sat_SHA1_Update ctx [0]) = Some ctx'"
    "absorbed ctx' ((m @ [0]) @ replicate z 0)" using z by auto
  have "final_zeros ctx = Some ctx'"
    using ne c(1) Suc(3) counts_504 [of "length m" "sh_count0 ctx" "sh_count1 ctx"]
    by (subst final_zeros.simps) (simp add: absorbed_def)
  moreover have "(m @ [0]) @ replicate z 0 = m @ replicate (Suc z) 0" by simp
  ultimately show ?case using c(2) Suc(2) by auto
qed

lemma final_correct:
  assumes "absorbed ctx m"
  shows "sat_SHA1_Final ctx = Some (sha1_spec m)"
proof -
  have a: "absorbed (sat_SHA1_Update ctx [0x80]) (m @ [0x80])" using absorbed_update [OF assms] by simp
  have z: "(120 - length (m @ [0x80]) mod 64) mod 64 = (119 - length m mod 64) mod 64"
  proof -
    have "length m mod 64 < 64" by simp
    moreover have "(119 - r) mod 64 = (if r \<le> 55 then 55 - r else 119 - r)" if "r < 64" for r :: nat
      using that by (auto simp: le_mod_geq)
    ultimately show ?thesis unfolding zeros_to_56 by (auto simp: mod_Suc)
  qed
  from final_zeros_correct [OF a] obtain ctx' where c: "final_zeros (sat_SHA1_Update ctx [0x80]) = Some ctx'"
    "absorbed ctx' ((m @ [0x80]) @ replicate ((119 - length m mod 64) mod 64) 0)" unfolding z by blast
  have "count_bytes ctx = be64 (8 * length m)" using assms by (intro count_bytes_be64) (simp add: absorbed_def)
  moreover have "length (be64 (8 * length m)) = 8" by (simp add: be64_def)
  ultimately have "absorbed (sat_SHA1_Update ctx' (count_bytes ctx)) (sha1_pad m)"
    using absorbed_update [OF c(2), of "be64 (8 * length m)"] by (simp add: sha1_pad_def)
  then show ?thesis by (simp add: sat_SHA1_Final_def c(1) Let_def sha1_spec_def absorbed_def)
qed

lemma absorbed_updates:
  "absorbed ctx m \<Longrightarrow> list_all (\<lambda>d. length d < 2 ^ 29) ds \<Longrightarrow> absorbed (fold (\<lambda>d c. sat_SHA1_Update c d) ds ctx) (m @ concat ds)"
proof (induction ds arbitrary: ctx m)
  case (Cons d ds)
  then show ?case using Cons.IH [OF absorbed_update [of ctx m d]] by simp
qed simp

text \<open>
  C11. A message that is hashed in any sequence of updates, each shorter than 512 MB, gives the digest of the standard: the padded
  message, folded block by block. The last call ends, for every first contents of the block.
\<close>

theorem sha1_streaming:
  assumes "length garbage = 64" "list_all (\<lambda>d. length d < 2 ^ 29) ds"
  shows "sat_SHA1_Final (fold (\<lambda>d c. sat_SHA1_Update c d) ds (sat_SHA1_Init garbage)) = Some (sha1_spec (concat ds))"
  using final_correct [OF absorbed_updates [OF absorbed_init [OF assms(1)] assms(2)]] by simp

theorem sha1_streaming_witness:
  "sat_SHA1_Final (sat_SHA1_Update (sat_SHA1_Update (sat_SHA1_Init (replicate 64 7)) [97]) [98, 99]) = Some (sha1_spec [97, 98, 99])"
  using sha1_streaming [of "replicate 64 7" "[[97], [98, 99]]"] by (simp del: replicate.simps)

text \<open>One update of 512 MB counts a carry that there is not: the two words say twice as many bits.\<close>

lemma count_bits_large: "count_bits (2 ^ 29) (0, 0) = (0, 2)" "counts (2 ^ 29) (0, 1)"
proof -
  have "(word_of_nat (2 ^ 29) :: u64) = 2 ^ 29" by simp
  then show "count_bits (2 ^ 29) (0, 0) = (0, 2)" by (simp add: count_bits_def)
  show "counts (2 ^ 29) (0, 1)" by (simp add: counts_def)
qed

subsection \<open>HMAC\<close>

definition hmac_spec :: "bytes \<Rightarrow> bytes \<Rightarrow> bytes" where
  "hmac_spec key text =
     (let k = (if 64 < length key then sha1_spec key else key); k64 = k @ replicate (64 - length k) 0 in
      sha1_spec (map ((XOR) 0x5c) k64 @ sha1_spec (map ((XOR) 0x36) k64 @ text)))"

lemma length_sha1_spec [simp]: "length (sha1_spec m) = 20"
  by (simp add: sha1_spec_def digest_bytes_def)

lemma xor_key_bytes:
  assumes "length key = 64" "\<And>i. i < 4 \<Longrightarrow> ucast (drop_bit (8 * i) x) = (b :: u8)"
  shows "xor_key key x = map ((XOR) b) key"
proof (rule nth_equalityI)
  fix i
  assume "i < length (xor_key key x)"
  then have "i < 64" by (simp add: xor_key_def BLOCKSIZE_def)
  then show "xor_key key x ! i = map ((XOR) b) key ! i"
    using assms(1) assms(2) [of "i mod 4"] by (simp add: xor_key_def BLOCKSIZE_def xor.commute del: upt_Suc)
qed (simp add: assms(1) xor_key_def BLOCKSIZE_def)

lemma pad_words:
  "i < 4 \<Longrightarrow> ucast (drop_bit (8 * i) (0x5c5c5c5c :: u32)) = (0x5c :: u8)"
  "i < 4 \<Longrightarrow> ucast (drop_bit (8 * i) (0x5c5c5c5c XOR 0x36363636 :: u32)) = (0x6a :: u8)"
proof -
  have "\<forall>i \<in> set [0..<4]. ucast (drop_bit (8 * i) (0x5c5c5c5c :: u32)) = (0x5c :: u8)"
    "\<forall>i \<in> set [0..<4]. ucast (drop_bit (8 * i) (0x5c5c5c5c XOR 0x36363636 :: u32)) = (0x6a :: u8)" by code_simp+
  then show "i < 4 \<Longrightarrow> ucast (drop_bit (8 * i) (0x5c5c5c5c :: u32)) = (0x5c :: u8)"
    "i < 4 \<Longrightarrow> ucast (drop_bit (8 * i) (0x5c5c5c5c XOR 0x36363636 :: u32)) = (0x6a :: u8)" by auto
qed

lemma lsha1_correct:
  assumes "length garbage = 64" "length m < 2 ^ 29"
  shows "lsha1 garbage m = Some (sha1_spec m)"
  unfolding lsha1_def using final_correct absorbed_update [OF absorbed_init [OF assms(1)] assms(2)] by simp

text \<open>
  The keyed hash is that of RFC 2104 over SHA-1: the key, or its digest when it is longer than a block, padded with zeros and
  combined with 0x5c and 0x36.
\<close>

theorem hmac_sha1_correct:
  assumes "length garbage = 64" "length key < 2 ^ 29" "length text < 2 ^ 29"
  shows "lhmac_sha1 garbage key text = Some (hmac_spec key text)"
proof -
  define k where "k = (if 64 < length key then sha1_spec key else key)"
  define k64 where "k64 = k @ replicate (64 - length k) 0"
  have l: "length k \<le> 64" "length k64 = 64" by (auto simp: k_def k64_def)
  have "hmac_key garbage key = Some (buffer_put 0 k (replicate BLOCKSIZE 0))"
    using lsha1_correct [OF assms(1,2)] by (simp add: hmac_key_def k_def BLOCKSIZE_def)
  moreover have "buffer_put 0 k (replicate BLOCKSIZE 0) = k64" by (simp add: buffer_put_def k64_def BLOCKSIZE_def)
  moreover have x1: "xor_key k64 0x5c5c5c5c = map ((XOR) 0x5c) k64" using l(2) pad_words(1) by (rule xor_key_bytes)
  moreover have "xor_key (map ((XOR) 0x5c) k64) (0x5c5c5c5c XOR 0x36363636) = map ((XOR) 0x6a) (map ((XOR) 0x5c) k64)"
    using l(2) pad_words(2) by (intro xor_key_bytes) simp_all
  moreover have "map ((XOR) 0x6a) (map ((XOR) 0x5c) k64) = map ((XOR) 0x36) k64"
    by (simp add: xor.assoc [symmetric])
  moreover have "absorbed (sat_SHA1_Update (sat_SHA1_Init garbage) (map ((XOR) b) k64)) (map ((XOR) b) k64)" for b
    using absorbed_update [OF absorbed_init [OF assms(1)], of "map ((XOR) b) k64"] l(2) by simp
  note u = this [THEN absorbed_update, THEN final_correct]
  have "sat_SHA1_Final (sat_SHA1_Update (sat_SHA1_Update (sat_SHA1_Init garbage) (map ((XOR) 0x36) k64)) text) =
      Some (sha1_spec (map ((XOR) 0x36) k64 @ text))" by (rule u [OF assms(3)])
  moreover have "sat_SHA1_Final (sat_SHA1_Update (sat_SHA1_Update (sat_SHA1_Init garbage) (map ((XOR) 0x5c) k64)) (sha1_spec m)) =
      Some (sha1_spec (map ((XOR) 0x5c) k64 @ sha1_spec m))" for m by (rule u) simp
  ultimately show ?thesis
    by (simp only: lhmac_sha1_def hmac_spec_def Let_def k_def [symmetric] k64_def [symmetric] bind.bind_lunit)
qed

theorem hmac_sha1_correct_witness:
  "lhmac_sha1 (replicate 64 7) [1, 2] [3] = Some (hmac_spec [1, 2] [3])"
  by (rule hmac_sha1_correct) simp_all

end
