(* ===== verification/Sproto_Pack.thy ===== *)
theory Sproto_Pack
  imports Crypt_Des
begin

section \<open>Packing of zeros (lualib-src/sproto/sproto.c, lsproto.c)\<close>

text \<open>
  Each segment of eight bytes becomes a byte of flags and its bytes that are not zero; up to 256 segments without zeros follow
  each other behind the flags 0xff and their number. The output buffer is a list of bytes with an explicit
  remaining size, which gets negative when the output does not fit; writing outside the list is \<open>None\<close>. The source is
  read by index, or from the copy \<open>tmp\<close> of the last segment.

  The results: nothing is written outside any buffer, the length does not depend on the buffer, what fits is the
  reference, unpacking gives back the source up to zeros at its end, and the buffer that the binding provides is enough.
\<close>

subsection \<open>Packing\<close>

text \<open>The loop of \<open>pack_seg\<close>: the flags, the number of bytes, and the buffer with the place and the size that are left.\<close>

record seg_state =
  sg_header :: u8
  sg_notzero :: nat
  sg_buf :: bytes
  sg_pos :: nat
  sg_sz :: int

definition seg_byte :: "bytes \<Rightarrow> nat \<Rightarrow> seg_state \<Rightarrow> seg_state option" where
  "seg_byte src i st =
     (if src ! i \<noteq> 0 then
        let st = st\<lparr>sg_notzero := sg_notzero st + 1, sg_header := sg_header st OR push_bit i 1\<rparr> in
        if 0 < sg_sz st then do {
          buf \<leftarrow> arr_set (sg_buf st) (sg_pos st) (src ! i);
          Some (st\<lparr>sg_buf := buf, sg_pos := sg_pos st + 1, sg_sz := sg_sz st - 1\<rparr>) }
        else Some st
      else Some st)"

definition pack_seg :: "bytes \<Rightarrow> bytes \<Rightarrow> nat \<Rightarrow> int \<Rightarrow> nat \<Rightarrow> (nat \<times> bytes) option" where
  "pack_seg src buf pos sz n = do {
     st \<leftarrow> each (seg_byte src) [0..<8] \<lparr>sg_header = 0, sg_notzero = 0, sg_buf = buf, sg_pos = pos + 1, sg_sz = sz - 1\<rparr>;
     let notzero = (if (sg_notzero st = 7 \<or> sg_notzero st = 6) \<and> 0 < n then 8 else sg_notzero st);
     if notzero = 8 then Some (if 0 < n then 8 else 10, sg_buf st)
     else do {
       buf \<leftarrow> (if sz - 1 < 0 then Some (sg_buf st) else arr_set (sg_buf st) pos (sg_header st));
       Some (notzero + 1, buf) } }"

text \<open>A place in the source, or the copy of the last segment.\<close>

datatype seg_ptr = In_src nat | In_tmp

definition arr_copy :: "bytes \<Rightarrow> nat \<Rightarrow> bytes \<Rightarrow> bytes option" where
  "arr_copy buf pos xs = (if pos + length xs \<le> length buf then Some (take pos buf @ xs @ drop (pos + length xs) buf) else None)"

definition write_ff :: "bytes \<Rightarrow> seg_ptr \<Rightarrow> bytes \<Rightarrow> nat \<Rightarrow> nat \<Rightarrow> bytes option" where
  "write_ff srcv src buf des n =
     (case src of
        In_tmp \<Rightarrow> None
      | In_src s \<Rightarrow> do {
          buf \<leftarrow> arr_set buf des 0xff;
          buf \<leftarrow> arr_set buf (des + 1) (word_of_nat (n - 1));
          if s + n * 8 \<le> length srcv then arr_copy buf (des + 2) (take (n * 8) (drop s srcv))
          else let sz = length srcv - s in do {
            buf \<leftarrow> arr_copy buf (des + 2) (drop s srcv);
            arr_copy buf (des + 2 + sz) (replicate (n * 8 - sz) 0) } })"

record pack_state =
  pk_buf :: bytes
  pk_pos :: nat
  pk_bufsz :: int
  pk_ff_src :: seg_ptr
  pk_ff_des :: nat
  pk_ff_n :: nat
  pk_size :: nat

text \<open>The end of a group of segments without zeros: it is written when everything up to here fits.\<close>

definition close_ff :: "bytes \<Rightarrow> nat \<Rightarrow> pack_state \<Rightarrow> pack_state option" where
  "close_ff srcv n st = do {
     buf \<leftarrow> (if 0 \<le> pk_bufsz st then write_ff srcv (pk_ff_src st) (pk_buf st) (pk_ff_des st) n else Some (pk_buf st));
     Some (st\<lparr>pk_buf := buf, pk_ff_n := 0\<rparr>) }"

definition pack_step :: "bytes \<Rightarrow> nat \<Rightarrow> pack_state \<Rightarrow> pack_state option" where
  "pack_step srcv k st =
     (let i = 8 * k; padding = int i + 8 - int (length srcv);
          src = (if 0 < padding then take (8 - nat padding) (drop i srcv) @ replicate (nat padding) 0 else take 8 (drop i srcv));
          ptr = (if 0 < padding then In_tmp else In_src i) in do {
      (n, buf) \<leftarrow> pack_seg src (pk_buf st) (pk_pos st) (pk_bufsz st) (pk_ff_n st);
      let st1 = st\<lparr>pk_buf := buf, pk_bufsz := pk_bufsz st - int n\<rparr>;
      st2 \<leftarrow>
        (if n = 10 then Some (st1\<lparr>pk_ff_src := ptr, pk_ff_des := pk_pos st, pk_ff_n := 1\<rparr>)
         else if n = 8 \<and> 0 < pk_ff_n st1 then
           (if pk_ff_n st1 + 1 = 256 then close_ff srcv 256 st1 else Some (st1\<lparr>pk_ff_n := pk_ff_n st1 + 1\<rparr>))
         else if 0 < pk_ff_n st1 then close_ff srcv (pk_ff_n st1) st1
         else Some st1);
      Some (st2\<lparr>pk_pos := pk_pos st2 + n, pk_size := pk_size st2 + n\<rparr>) })"

definition sproto_pack :: "bytes \<Rightarrow> bytes \<Rightarrow> (nat \<times> bytes) option" where
  "sproto_pack srcv bufferv = do {
     st \<leftarrow> each (pack_step srcv) [0..<(length srcv + 7) div 8]
       \<lparr>pk_buf = bufferv, pk_pos = 0, pk_bufsz = int (length bufferv), pk_ff_src = In_tmp, pk_ff_des = 0, pk_ff_n = 0, pk_size = 0\<rparr>;
     buf \<leftarrow> (if 0 \<le> pk_bufsz st \<and> 0 < pk_ff_n st then write_ff srcv (pk_ff_src st) (pk_buf st) (pk_ff_des st) (pk_ff_n st)
             else Some (pk_buf st));
     Some (pk_size st, buf) }"

subsection \<open>Unpacking\<close>

record unpack_state =
  up_src :: bytes
  up_buf :: bytes
  up_pos :: nat
  up_bufsz :: int
  up_size :: nat

text \<open>One byte of a segment; \<open>Inl\<close> is the result -1.\<close>

definition put_byte :: "u8 \<Rightarrow> unpack_state \<Rightarrow> unpack_state option" where
  "put_byte b st =
     (if 0 < up_bufsz st then do {
        buf \<leftarrow> arr_set (up_buf st) (up_pos st) b;
        Some (st\<lparr>up_buf := buf, up_pos := up_pos st + 1, up_bufsz := up_bufsz st - 1, up_size := up_size st + 1\<rparr>) }
      else Some (st\<lparr>up_size := up_size st + 1\<rparr>))"

fun seg_bits :: "u8 \<Rightarrow> nat list \<Rightarrow> unpack_state \<Rightarrow> (unit + unpack_state) option" where
  "seg_bits header [] st = Some (Inr st)"
| "seg_bits header (i # is) st =
     (if bit header i then
        (case up_src st of
           [] \<Rightarrow> Some (Inl ())
         | b # src \<Rightarrow> do { st1 \<leftarrow> put_byte b st; seg_bits header is (st1\<lparr>up_src := src\<rparr>) })
      else do { st1 \<leftarrow> put_byte 0 st; seg_bits header is st1 })"

definition copy_ff :: "bytes \<Rightarrow> nat \<Rightarrow> unpack_state \<Rightarrow> unpack_state option" where
  "copy_ff src n st = do {
     buf \<leftarrow> (if int n \<le> up_bufsz st then arr_copy (up_buf st) (up_pos st) (take n src) else Some (up_buf st));
     Some (st\<lparr>up_src := drop n src, up_buf := buf, up_pos := up_pos st + n, up_bufsz := up_bufsz st - int n, up_size := up_size st + n\<rparr>) }"

text \<open>The loop, with the length of the source as fuel: each round reads a byte.\<close>

fun unpack_loop :: "nat \<Rightarrow> unpack_state \<Rightarrow> (unit + nat \<times> bytes) option" where
  "unpack_loop 0 st = (if up_src st = [] then Some (Inr (up_size st, up_buf st)) else None)"
| "unpack_loop (Suc fuel) st =
     (case up_src st of
        [] \<Rightarrow> Some (Inr (up_size st, up_buf st))
      | header # src \<Rightarrow>
          if header = 0xff then
            (case src of
               [] \<Rightarrow> Some (Inl ())
             | c # src1 \<Rightarrow>
                 let n = (unat c + 1) * 8 in
                 if length src < n + 1 then Some (Inl ())
                 else do { st1 \<leftarrow> copy_ff src1 n st; unpack_loop fuel st1 })
          else do {
            r \<leftarrow> seg_bits header [0..<8] (st\<lparr>up_src := src\<rparr>);
            case r of Inl _ \<Rightarrow> Some (Inl ()) | Inr st1 \<Rightarrow> unpack_loop fuel st1 })"

definition sproto_unpack :: "bytes \<Rightarrow> bytes \<Rightarrow> (unit + nat \<times> bytes) option" where
  "sproto_unpack srcv bufferv =
     unpack_loop (length srcv) \<lparr>up_src = srcv, up_buf = bufferv, up_pos = 0, up_bufsz = int (length bufferv), up_size = 0\<rparr>"

subsection \<open>The calls from Lua\<close>

text \<open>
  The buffer of the closure is a list whose length is its size. A new one has unknown contents, which \<open>garbage\<close> gives for each size.
\<close>

definition ENCODE_MAXSIZE :: nat where "ENCODE_MAXSIZE = 0x1000000"

function expand_size :: "nat \<Rightarrow> nat \<Rightarrow> nat" where
  "expand_size osz nsz = (let osz = osz * 2 in if osz < nsz \<and> 0 < osz then expand_size osz nsz else osz)"
  by pat_completeness auto
termination by (relation "measure (\<lambda>(osz, nsz). nsz - osz)") auto

declare expand_size.simps [simp del]

definition expand_buffer :: "(nat \<Rightarrow> bytes) \<Rightarrow> nat \<Rightarrow> nat \<Rightarrow> bytes lua" where
  "expand_buffer garbage osz nsz = (let osz = expand_size osz nsz in
     if ENCODE_MAXSIZE < osz then Inl ''object is too large (>%d)'' else Inr (garbage osz))"

definition lpack :: "(nat \<Rightarrow> bytes) \<Rightarrow> bytes \<Rightarrow> bytes \<Rightarrow> bytes lua option" where
  "lpack garbage output buffer =
     (let sz = length buffer; maxsz = (sz + 2047) div 2048 * 2 + sz + 2 in
      case (if length output < maxsz then expand_buffer garbage (length output) maxsz else Inr output) of
        Inl e \<Rightarrow> Some (Inl e)
      | Inr output \<Rightarrow> do {
          (bytes, out) \<leftarrow> sproto_pack buffer (take maxsz output);
          Some (if maxsz < bytes then Inl ''packing error, return size = %d'' else Inr (take bytes out)) })"

definition lunpack :: "(nat \<Rightarrow> bytes) \<Rightarrow> bytes \<Rightarrow> bytes \<Rightarrow> bytes lua option" where
  "lunpack garbage output buffer = do {
     r \<leftarrow> sproto_unpack buffer output;
     case r of
       Inl _ \<Rightarrow> Some (Inl ''Invalid unpack stream'')
     | Inr (r, out) \<Rightarrow>
         if length output < r then
           (case expand_buffer garbage (length output) r of
              Inl e \<Rightarrow> Some (Inl e)
            | Inr output1 \<Rightarrow> do {
                r1 \<leftarrow> sproto_unpack buffer (take r output1);
                case r1 of
                  Inl _ \<Rightarrow> Some (Inl ''Invalid unpack stream'')
                | Inr (r, out) \<Rightarrow> Some (Inr (take r out)) })
         else Some (Inr (take r out)) }"

subsection \<open>The reference\<close>

definition nonzeros :: "bytes \<Rightarrow> bytes" where
  "nonzeros s = filter (\<lambda>b. b \<noteq> 0) s"

fun seg_header :: "nat \<Rightarrow> bytes \<Rightarrow> u8" where
  "seg_header 0 s = 0"
| "seg_header (Suc k) s = seg_header k s OR (if s ! k \<noteq> 0 then push_bit k 1 else 0)"

definition seg_code :: "bytes \<Rightarrow> bytes" where
  "seg_code s = seg_header 8 s # nonzeros s"

text \<open>A segment joins the open group of \<open>n\<close> segments, or opens one.\<close>

definition dense :: "nat \<Rightarrow> bytes \<Rightarrow> bool" where
  "dense n s \<longleftrightarrow> length (nonzeros s) = 8 \<or> 0 < n \<and> 6 \<le> length (nonzeros s)"

definition group_code :: "bytes list \<Rightarrow> bytes" where
  "group_code g = (if g = [] then [] else 0xff # word_of_nat (length g - 1) # concat g)"

fun pack_go :: "bytes list \<Rightarrow> bytes list \<Rightarrow> bytes" where
  "pack_go g [] = group_code g"
| "pack_go g (s # ss) =
     (if dense (length g) s then if length g + 1 = 256 then group_code (g @ [s]) @ pack_go [] ss else pack_go (g @ [s]) ss
      else group_code g @ seg_code s @ pack_go [] ss)"

text \<open>The source with zeros up to a multiple of eight, and its segments.\<close>

definition padded :: "bytes \<Rightarrow> bytes" where
  "padded src = src @ replicate (8 * ((length src + 7) div 8) - length src) 0"

definition segment :: "bytes \<Rightarrow> nat \<Rightarrow> bytes" where
  "segment src k = take 8 (drop (8 * k) (padded src))"

definition segments :: "bytes \<Rightarrow> nat \<Rightarrow> bytes list" where
  "segments src n = map (segment src) [0..<n]"

definition pack_spec :: "bytes \<Rightarrow> bytes" where
  "pack_spec src = pack_go [] (segments src ((length src + 7) div 8))"

subsection \<open>One segment\<close>

lemma each_snoc: "each f (xs @ [x]) w = do { w1 \<leftarrow> each f xs w; f x w1 }"
proof -
  have "m \<bind> each f [] = m" for m by (cases m) simp_all
  then show ?thesis by (simp add: each_append)
qed

text \<open>The state of the loop over the first \<open>k\<close> bytes: as many of those that are not zero are written as fit.\<close>

definition seg_after :: "bytes \<Rightarrow> bytes \<Rightarrow> nat \<Rightarrow> nat \<Rightarrow> seg_state" where
  "seg_after src buf pos k = (let f = nonzeros (take k src); m = min (length f) (length buf - (pos + 1)) in
     \<lparr>sg_header = seg_header k src, sg_notzero = length f, sg_buf = take (pos + 1) buf @ take m f @ drop (pos + 1 + m) buf,
      sg_pos = pos + 1 + m, sg_sz = int (length buf) - int pos - 1 - int m\<rparr>)"

lemma seg_loop:
  "k \<le> length src \<Longrightarrow> each (seg_byte src) [0..<k]
     \<lparr>sg_header = 0, sg_notzero = 0, sg_buf = buf, sg_pos = pos + 1, sg_sz = int (length buf) - int pos - 1\<rparr> =
   Some (seg_after src buf pos k)"
proof (induction k)
  case 0
  then show ?case by (simp add: seg_after_def nonzeros_def)
next
  case (Suc k)
  then have k: "k < length src" by simp
  let ?f = "nonzeros (take k src)" and ?m = "min (length (nonzeros (take k src))) (length buf - (pos + 1))"
  have t: "nonzeros (take (Suc k) src) = (if src ! k \<noteq> 0 then ?f @ [src ! k] else ?f)"
    using k by (simp add: take_Suc_conv_app_nth nonzeros_def)
  have "seg_byte src k (seg_after src buf pos k) = Some (seg_after src buf pos (Suc k))"
  proof (cases "src ! k = 0")
    case True
    then show ?thesis by (simp add: seg_byte_def seg_after_def t)
  next
    case False
    show ?thesis
    proof (cases "length ?f < length buf - (pos + 1)")
      case True
      then have "?m = length ?f" "min (Suc (length ?f)) (length buf - Suc pos) = Suc (length ?f)" "pos + 1 + length ?f < length buf"
        by simp_all
      moreover from this(3) have "(take (pos + 1) buf @ ?f @ drop (pos + 1 + length ?f) buf)[pos + 1 + length ?f := x] =
          take (pos + 1) buf @ (?f @ [x]) @ drop (pos + 2 + length ?f) buf" for x
        by (simp add: list_update_append min_def Cons_nth_drop_Suc [symmetric])
      ultimately show ?thesis using False by (simp add: seg_byte_def seg_after_def t Let_def)
    next
      case over: False
      then have "?m = length buf - (pos + 1)" "min (Suc (length ?f)) (length buf - Suc pos) = length buf - (pos + 1)" by simp_all
      then show ?thesis using False over by (simp add: seg_byte_def seg_after_def t Let_def)
    qed
  qed
  with Suc k show ?case by (simp add: each_snoc)
qed

definition seg_size :: "nat \<Rightarrow> bytes \<Rightarrow> nat" where
  "seg_size n s = (if dense n s then if 0 < n then 8 else 10 else length (nonzeros s) + 1)"

lemma pack_seg_result:
  assumes "length s = 8"
  shows "\<exists>buf'. pack_seg s buf pos (int (length buf) - int pos) n = Some (seg_size n s, buf') \<and> length buf' = length buf \<and>
    take pos buf' = take pos buf \<and>
    (\<not> dense n s \<longrightarrow> pos + seg_size n s \<le> length buf \<longrightarrow> take (pos + seg_size n s) buf' = take pos buf @ seg_code s)"
proof -
  let ?f = "nonzeros s" and ?m = "min (length (nonzeros s)) (length buf - (pos + 1))"
  define b where "b = take (pos + 1) buf @ take ?m ?f @ drop (pos + 1 + ?m) buf"
  have b: "length b = length buf" "take pos b = take pos buf" by (auto simp: b_def min_def)
  have le: "length ?f \<le> 8" using assms by (metis nonzeros_def length_filter_le)
  have e: "each (seg_byte s) [0..<8] \<lparr>sg_header = 0, sg_notzero = 0, sg_buf = buf, sg_pos = pos + 1, sg_sz = int (length buf) - int pos - 1\<rparr> =
      Some \<lparr>sg_header = seg_header 8 s, sg_notzero = length ?f, sg_buf = b, sg_pos = pos + 1 + ?m,
        sg_sz = int (length buf) - int pos - 1 - int ?m\<rparr>"
    using seg_loop [of 8 s buf pos] assms by (simp add: seg_after_def b_def Let_def)
  show ?thesis
  proof (cases "dense n s")
    case True
    with le consider "length ?f = 8" | "0 < n" "length ?f = 7" | "0 < n" "length ?f = 6" by (fastforce simp: dense_def)
    then show ?thesis using e True b by cases (simp_all add: pack_seg_def seg_size_def Let_def)
  next
    case False
    then have l: "\<not> ((length ?f = 7 \<or> length ?f = 6) \<and> 0 < n)" "length ?f \<noteq> 8" by (auto simp: dense_def)
    show ?thesis
    proof (cases "pos < length buf")
      case True
      from l(1) consider "n = 0" | "length ?f \<noteq> 7" "length ?f \<noteq> 6" by auto
      then have "pack_seg s buf pos (int (length buf) - int pos) n = Some (seg_size n s, b[pos := seg_header 8 s])"
        using e l(2) b(1) False True by cases (simp_all add: pack_seg_def seg_size_def Let_def)
      moreover have "take (pos + seg_size n s) (b[pos := seg_header 8 s]) = take pos buf @ seg_code s" if "pos + seg_size n s \<le> length buf"
      proof -
        have "?m = length ?f" using that False by (simp add: seg_size_def)
        then have "b[pos := x] = take pos buf @ (x # ?f) @ drop (pos + 1 + length ?f) buf" for x
          using True by (simp add: b_def list_update_append min_def take_Suc_conv_app_nth)
        then show ?thesis using that True False by (simp add: seg_size_def seg_code_def)
      qed
      ultimately show ?thesis using b by simp
    next
      case over: False
      from l(1) consider "n = 0" | "length ?f \<noteq> 7" "length ?f \<noteq> 6" by auto
      then have "pack_seg s buf pos (int (length buf) - int pos) n = Some (seg_size n s, b)"
        using e l(2) False over by cases (simp_all add: pack_seg_def seg_size_def Let_def)
      then show ?thesis using b over by (auto simp: seg_size_def)
    qed
  qed
qed

subsection \<open>The loop over the segments\<close>

lemma length_padded: "length (padded src) = 8 * ((length src + 7) div 8)"
proof -
  have "length src \<le> 8 * ((length src + 7) div 8)" by linarith
  then show ?thesis by (simp add: padded_def)
qed

lemma length_segment: "k < (length src + 7) div 8 \<Longrightarrow> length (segment src k) = 8"
  using length_padded [of src] by (simp add: segment_def)

text \<open>What the step reads is the segment of the padded source, the copy only for the last one.\<close>

lemma step_segment:
  assumes "k < (length src + 7) div 8"
  shows "(if 0 < int (8 * k) + 8 - int (length src) then take (8 - nat (int (8 * k) + 8 - int (length src))) (drop (8 * k) src) @
      replicate (nat (int (8 * k) + 8 - int (length src))) 0 else take 8 (drop (8 * k) src)) = segment src k"
proof (cases "8 * k + 8 \<le> length src")
  case True
  then show ?thesis by (simp add: segment_def padded_def)
next
  case False
  then have k: "(length src + 7) div 8 = k + 1" using assms by linarith
  have "8 * k < length src" using assms by linarith
  then have "segment src k = drop (8 * k) src @ replicate (8 * k + 8 - length src) 0"
    using False by (simp add: segment_def padded_def k)
  moreover have "nat (int (8 * k) + 8 - int (length src)) = 8 * k + 8 - length src" by simp
  ultimately show ?thesis using False \<open>8 * k < length src\<close> by simp
qed

lemma segment_append:
  "a \<le> b \<Longrightarrow> b \<le> (length src + 7) div 8 \<Longrightarrow> concat (map (segment src) [a..<b]) = take (8 * (b - a)) (drop (8 * a) (padded src))"
proof (induction b)
  case (Suc b)
  show ?case
  proof (cases "a = Suc b")
    case False
    then have le: "a \<le> b" using Suc.prems by simp
    have "8 * (Suc b - a) = 8 * (b - a) + 8" "8 * (b - a) + 8 * a = 8 * b" using le by simp_all
    then have "take (8 * (Suc b - a)) (drop (8 * a) (padded src)) = take (8 * (b - a)) (drop (8 * a) (padded src)) @ segment src b"
      by (simp only: take_add drop_drop segment_def)
    then show ?thesis using Suc le by (simp add: segment_def)
  qed simp
qed simp

lemma arr_copy_append:
  "p + length u + length v \<le> length b \<Longrightarrow> do { b1 \<leftarrow> arr_copy b p u; arr_copy b1 (p + length u) v } = arr_copy b p (u @ v)"
  by (simp add: arr_copy_def add_ac)

lemma write_ff_result:
  assumes "0 < n" "a + n \<le> (length src + 7) div 8" "des + 2 + 8 * n \<le> length buf"
  shows "write_ff src (In_src (8 * a)) buf des n =
    Some (take des buf @ group_code (map (segment src) [a..<a + n]) @ drop (des + 2 + 8 * n) buf)"
proof -
  let ?x = "concat (map (segment src) [a..<a + n])" and ?b = "buf[des := 0xff, des + 1 := word_of_nat (n - 1)]"
  have x: "?x = take (8 * n) (drop (8 * a) (padded src))" using segment_append [of a "a + n" src] assms(2) by simp
  have lx: "length ?x = 8 * n" using assms(2) unfolding x by (simp add: length_padded)
  have b: "?b = take des buf @ [0xff, word_of_nat (n - 1)] @ drop (des + 2) buf"
    using assms(3) by (simp add: list_update_append take_Suc_conv_app_nth upd_conv_take_nth_drop Cons_nth_drop_Suc drop_update_swap)
  have g: "group_code (map (segment src) [a..<a + n]) = [0xff, word_of_nat (n - 1)] @ ?x" using assms(1) by (simp add: group_code_def)
  have c: "arr_copy ?b (des + 2) ?x = Some (take des buf @ group_code (map (segment src) [a..<a + n]) @ drop (des + 2 + 8 * n) buf)"
    unfolding arr_copy_def b g using assms(3) lx by (simp add: add.commute add.left_commute)
  show ?thesis
  proof (cases "8 * a + n * 8 \<le> length src")
    case True
    then have "?x = take (n * 8) (drop (8 * a) src)" by (simp add: x padded_def mult.commute)
    then show ?thesis using True c assms(3) by (simp add: write_ff_def mult.commute)
  next
    case False
    let ?y = "drop (8 * a) src" and ?z = "n * 8 - (length src - 8 * a)"
    have "a < (length src + 7) div 8" using assms(1,2) by linarith
    then have "8 * a < length src" by linarith
    moreover have "8 * ((length src + 7) div 8) \<le> length src + 7" by simp
    then have "(length src + 7) div 8 \<le> a + n" using False by (intro leI notI) linarith
    then have "8 * a + 8 * n = 8 * ((length src + 7) div 8)" using assms(2) by linarith
    ultimately have "?x = ?y @ replicate ?z 0" using False by (simp add: x padded_def mult.commute)
    moreover have "length ?y = length src - 8 * a" "des + 2 + length ?y + ?z \<le> length ?b"
      using assms(3) \<open>8 * a < length src\<close> False by simp_all
    moreover note arr_copy_append [of "des + 2" ?y "replicate ?z 0" ?b]
    ultimately show ?thesis using False c assms(3) by (simp add: write_ff_def mult.commute Let_def)
  qed
qed

lemma last_has_zero:
  assumes "length src < 8 * k + 8" "k < (length src + 7) div 8"
  shows "length (nonzeros (segment src k)) < 8"
proof -
  have p: "0 < int (8 * k) + 8 - int (length src)" using assms(1) by simp
  then have "segment src k = take (8 - nat (int (8 * k) + 8 - int (length src))) (drop (8 * k) src) @
      replicate (nat (int (8 * k) + 8 - int (length src))) 0"
    using step_segment [OF assms(2)] by (simp only: if_True)
  then have "0 \<in> set (segment src k)" using p by simp
  then have "nonzeros (segment src k) \<noteq> segment src k" by (auto simp: nonzeros_def filter_id_conv)
  then have "length (nonzeros (segment src k)) \<noteq> length (segment src k)"
    by (metis nonzeros_def length_filter_less filter_id_conv less_irrefl)
  moreover have "length (nonzeros (segment src k)) \<le> length (segment src k)" by (simp add: nonzeros_def)
  ultimately show ?thesis using length_segment [OF assms(2)] by simp
qed

text \<open>
  The invariant after \<open>t\<close> segments: \<open>out\<close> is the code of the closed groups, which is in the buffer when it fits, and the last
  segments, as many as are counted, are an open group.
\<close>

definition pack_inv :: "bytes \<Rightarrow> nat \<Rightarrow> nat \<Rightarrow> bytes \<Rightarrow> pack_state \<Rightarrow> bool" where
  "pack_inv src room t out st \<longleftrightarrow> (let n = pk_ff_n st in
     n \<le> t \<and> n < 256 \<and> length (pk_buf st) = room \<and> pk_size st = pk_pos st \<and> pk_bufsz st = int room - int (pk_pos st) \<and>
     (\<forall>rest. pack_go [] (segments src t @ rest) = out @ pack_go (map (segment src) [t - n..<t]) rest) \<and>
     pk_pos st = length out + (if n = 0 then 0 else 2 + 8 * n) \<and>
     (0 < n \<longrightarrow> pk_ff_des st = length out \<and> pk_ff_src st = In_src (8 * (t - n))) \<and>
     (pk_pos st \<le> room \<longrightarrow> take (length out) (pk_buf st) = out))"

lemma close_ff_result:
  assumes "pk_ff_src st = In_src (8 * a)" "pk_ff_des st = des" "pk_buf st = buf" "0 \<le> pk_bufsz st \<longleftrightarrow> fits"
    and "0 < n" "a + n \<le> (length src + 7) div 8" "fits \<Longrightarrow> des + 2 + 8 * n \<le> length buf"
  shows "close_ff src n st = Some (st\<lparr>pk_ff_n := 0, pk_buf := if fits
    then take des buf @ group_code (map (segment src) [a..<a + n]) @ drop (des + 2 + 8 * n) buf else buf\<rparr>)"
  using assms write_ff_result [OF assms(5,6)] by (auto simp: close_ff_def)

lemma segments_Suc: "segments src (Suc t) @ rest = segments src t @ segment src t # rest"
  by (simp add: segments_def)

lemma length_group_code: "\<forall>s \<in> set g. length s = 8 \<Longrightarrow> length (group_code g) = (if g = [] then 0 else 2 + 8 * length g)"
proof -
  assume a: "\<forall>s \<in> set g. length s = 8"
  have "length (concat g) = 8 * length g" using a by (induction g) auto
  then show ?thesis by (simp add: group_code_def)
qed

lemma take_part: "take k xs = ys \<Longrightarrow> j \<le> k \<Longrightarrow> take j xs = take j ys"
  by (metis min.absorb1 take_take)

lemma pack_step_inv:
  assumes inv: "pack_inv src room t out st" and t: "t < (length src + 7) div 8"
  shows "\<exists>st' out'. pack_step src t st = Some st' \<and> pack_inv src room (Suc t) out' st'"
proof -
  let ?s = "segment src t"
  define n where "n = pk_ff_n st"
  let ?g = "map (segment src) [t - n..<t]" and ?k = "seg_size n ?s" and ?pos = "pk_pos st"
  have i: "n \<le> t" "n < 256" "length (pk_buf st) = room" "pk_size st = ?pos" "pk_bufsz st = int room - int ?pos"
    "\<And>rest. pack_go [] (segments src t @ rest) = out @ pack_go ?g rest" "?pos = length out + (if n = 0 then 0 else 2 + 8 * n)"
    "0 < n \<Longrightarrow> pk_ff_des st = length out \<and> pk_ff_src st = In_src (8 * (t - n))" "?pos \<le> room \<Longrightarrow> take (length out) (pk_buf st) = out"
    using inv by (simp_all add: pack_inv_def Let_def n_def)
  have lg: "length ?g = n" using i(1) by simp
  have go: "pack_go [] (segments src (Suc t) @ rest) = out @ pack_go ?g (?s # rest)" for rest
    unfolding segments_Suc by (rule i(6))
  obtain buf where b: "pack_seg ?s (pk_buf st) ?pos (pk_bufsz st) n = Some (?k, buf)" "length buf = room"
    "take ?pos buf = take ?pos (pk_buf st)"
    "\<not> dense n ?s \<Longrightarrow> ?pos + ?k \<le> room \<Longrightarrow> take (?pos + ?k) buf = take ?pos (pk_buf st) @ seg_code ?s"
    using pack_seg_result [OF length_segment [OF t], of "pk_buf st" ?pos n] i(3,5) by auto
  have out: "take (length out) buf = out" if "?pos \<le> room"
    using i(9) [OF that] take_part [OF b(3), of "length out"] i(7) by simp
  define ptr where "ptr = (if 0 < int (8 * t) + 8 - int (length src) then In_tmp else In_src (8 * t))"
  let ?st1 = "st\<lparr>pk_buf := buf, pk_bufsz := pk_bufsz st - int ?k\<rparr>"
  have step: "pack_step src t st = do {
      st2 \<leftarrow> (if ?k = 10 then Some (?st1\<lparr>pk_ff_src := ptr, pk_ff_des := ?pos, pk_ff_n := 1\<rparr>)
         else if ?k = 8 \<and> 0 < n then
           (if n + 1 = 256 then close_ff src 256 ?st1 else Some (?st1\<lparr>pk_ff_n := n + 1\<rparr>))
         else if 0 < n then close_ff src n ?st1 else Some ?st1);
      Some (st2\<lparr>pk_pos := pk_pos st2 + ?k, pk_size := pk_size st2 + ?k\<rparr>) }"
    using b(1) by (simp only: pack_step_def Let_def step_segment [OF t] n_def [symmetric] ptr_def [symmetric]) (simp add: n_def)
  show ?thesis
  proof (cases "dense n ?s")
    case d: True
    show ?thesis
    proof (cases "n = 0")
      case True
      then have k: "?k = 10" using d by (simp add: seg_size_def)
      have "length (nonzeros ?s) = 8" using d True by (simp add: dense_def)
      then have "ptr = In_src (8 * t)" using last_has_zero [OF _ t] by (auto simp: ptr_def)
      moreover have "pack_go [] (?s # rest) = pack_go [?s] rest" for rest using d True by simp
      ultimately have "pack_inv src room (Suc t) out (?st1\<lparr>pk_ff_src := ptr, pk_ff_des := ?pos, pk_ff_n := 1, pk_pos := ?pos + 10, pk_size := pk_size st + 10\<rparr>)"
        using i(3,4,5,7) k True go out b(2) by (simp add: pack_inv_def Let_def)
      then show ?thesis using step k by auto
    next
      case False
      then have k: "?k = 8" using d by (simp add: seg_size_def)
      show ?thesis
      proof (cases "n + 1 = 256")
        case True
        have "map (segment src) [t - n..<t - n + 256] = ?g @ [?s]" using i(1) True by simp
        moreover have "close_ff src 256 ?st1 = Some (?st1\<lparr>pk_ff_n := 0, pk_buf := if ?pos + 8 \<le> room
            then take (length out) buf @ group_code (map (segment src) [t - n..<t - n + 256]) @ drop (length out + 2 + 8 * 256) buf else buf\<rparr>)"
          using i(1,5,7,8) b(2) t True k False by (intro close_ff_result) (simp_all, arith?)
        moreover have lc: "length (group_code (?g @ [?s])) = 2 + 8 * 256"
          using lg True i(1) t length_segment by (subst length_group_code) auto
        ultimately have "pack_step src t st = Some (st\<lparr>pk_buf := if ?pos + 8 \<le> room
            then take (length out) buf @ group_code (?g @ [?s]) @ drop (length out + 2 + 8 * 256) buf else buf,
            pk_bufsz := pk_bufsz st - 8, pk_ff_n := 0, pk_pos := ?pos + 8, pk_size := pk_size st + 8\<rparr>)"
          using step k True False by simp
        moreover have "pack_go ?g (?s # rest) = group_code (?g @ [?s]) @ pack_go [] rest" for rest using d lg True by simp
        then have "pack_inv src room (Suc t) (out @ group_code (?g @ [?s])) (st\<lparr>pk_buf := if ?pos + 8 \<le> room
            then take (length out) buf @ group_code (?g @ [?s]) @ drop (length out + 2 + 8 * 256) buf else buf,
            pk_bufsz := pk_bufsz st - 8, pk_ff_n := 0, pk_pos := ?pos + 8, pk_size := pk_size st + 8\<rparr>)"
          using i(4,5,7) go out b(2) lc True False by (simp add: pack_inv_def Let_def del: pack_go.simps)
        ultimately show ?thesis by blast
      next
        case more: False
        have "pack_go ?g (?s # rest) = pack_go (?g @ [?s]) rest" for rest using d lg more by simp
        moreover have "map (segment src) [Suc t - (n + 1)..<Suc t] = ?g @ [?s]" using i(1) by simp
        ultimately have "pack_inv src room (Suc t) out (?st1\<lparr>pk_ff_n := n + 1, pk_pos := ?pos + 8, pk_size := pk_size st + 8\<rparr>)"
          using i(1,2,3,4,5,7,8) k False more go out b(2) by (simp add: pack_inv_def Let_def del: pack_go.simps upt_Suc)
        then show ?thesis using step k False more by auto
      qed
    qed
  next
    case d: False
    have k: "?k = length (seg_code ?s)" using d by (simp add: seg_size_def seg_code_def)
    have k10: "(?k = 10) = False" and k8: "(?k = 8 \<and> 0 < n) = False"
      using d length_segment [OF t] length_filter_le [of "\<lambda>b. b \<noteq> 0" ?s] by (auto simp: seg_size_def dense_def nonzeros_def)
    have g: "pack_go ?g (?s # rest) = group_code ?g @ seg_code ?s @ pack_go [] rest" for rest using d lg by simp
    have lc: "length (group_code ?g) = (if n = 0 then 0 else 2 + 8 * n)"
      using lg i(1) t length_segment by (subst length_group_code) auto
    define buf2 where "buf2 = (if 0 < n \<and> ?pos + ?k \<le> room then take (length out) buf @ group_code ?g @ drop (length out + 2 + 8 * n) buf else buf)"
    have close: "(if 0 < n then close_ff src n ?st1 else Some ?st1) = Some (?st1\<lparr>pk_ff_n := 0, pk_buf := buf2\<rparr>)"
    proof (cases "0 < n")
      case True
      have "map (segment src) [t - n..<t - n + n] = ?g" using i(1) by simp
      moreover have "close_ff src n ?st1 = Some (?st1\<lparr>pk_ff_n := 0, pk_buf := if ?pos + ?k \<le> room
          then take (length out) buf @ group_code (map (segment src) [t - n..<t - n + n]) @ drop (length out + 2 + 8 * n) buf else buf\<rparr>)"
        using i(1,5,7,8) b(2) t True by (intro close_ff_result) auto
      ultimately show ?thesis using True by (simp add: buf2_def)
    next
      case False
      then show ?thesis by (simp add: buf2_def n_def)
    qed
    have st: "pack_step src t st = Some (st\<lparr>pk_buf := buf2, pk_bufsz := pk_bufsz st - int ?k, pk_ff_n := 0, pk_pos := ?pos + ?k, pk_size := pk_size st + ?k\<rparr>)"
      unfolding step k10 k8 if_False close by simp
    have lb: "length buf2 = room" using b(2) i(7) lc by (auto simp: buf2_def)
    have tk: "take (length out + length (group_code ?g) + ?k) buf2 = out @ group_code ?g @ seg_code ?s" if fit: "?pos + ?k \<le> room"
    proof -
      have p: "?pos = length out + length (group_code ?g)" using i(7) lc by simp
      have "take (?pos + ?k) buf = take ?pos buf @ seg_code ?s" using b(3) b(4) [OF d] fit by simp
      then have "take ?k (drop ?pos buf) = seg_code ?s" by (simp add: take_add)
      then show ?thesis using out fit i(7) p lc b(2) by (auto simp: buf2_def take_add)
    qed
    have "pack_inv src room (Suc t) (out @ group_code ?g @ seg_code ?s) (st\<lparr>pk_buf := buf2, pk_bufsz := pk_bufsz st - int ?k, pk_ff_n := 0, pk_pos := ?pos + ?k, pk_size := pk_size st + ?k\<rparr>)"
      using i(4,5,7) lb tk lc k go g by (simp add: pack_inv_def Let_def add.assoc del: pack_go.simps)
    with st show ?thesis by blast
  qed
qed

lemma pack_loop_inv:
  assumes "pack_inv src room 0 [] st" "t \<le> (length src + 7) div 8"
  shows "\<exists>st' out. each (pack_step src) [0..<t] st = Some st' \<and> pack_inv src room t out st'"
  using assms(2)
proof (induction t)
  case 0
  then show ?case using assms(1) by auto
next
  case (Suc t)
  then obtain st' out where "each (pack_step src) [0..<t] st = Some st'" "pack_inv src room t out st'" by auto
  then show ?case using pack_step_inv [of src room t out st'] Suc.prems by (auto simp: each_snoc simp del: each.simps)
qed

text \<open>Nothing is written outside the buffer, the length is that of the reference, and what fits is the reference.\<close>

lemma sproto_pack_result:
  "\<exists>buf'. sproto_pack src buf = Some (length (pack_spec src), buf') \<and> length buf' = length buf \<and>
    (length (pack_spec src) \<le> length buf \<longrightarrow> take (length (pack_spec src)) buf' = pack_spec src)"
proof -
  let ?m = "(length src + 7) div 8" and ?st0 = "\<lparr>pk_buf = buf, pk_pos = 0, pk_bufsz = int (length buf), pk_ff_src = In_tmp,
    pk_ff_des = 0, pk_ff_n = 0, pk_size = 0\<rparr>"
  have "pack_inv src (length buf) 0 [] ?st0" by (simp add: pack_inv_def segments_def)
  then obtain st out where e: "each (pack_step src) [0..<?m] ?st0 = Some st" and inv: "pack_inv src (length buf) ?m out st"
    using pack_loop_inv [of src "length buf" ?st0 ?m] by auto
  define n where "n = pk_ff_n st"
  let ?g = "map (segment src) [?m - n..<?m]" and ?pos = "pk_pos st"
  have i: "n \<le> ?m" "length (pk_buf st) = length buf" "pk_size st = ?pos" "pk_bufsz st = int (length buf) - int ?pos"
    "?pos = length out + (if n = 0 then 0 else 2 + 8 * n)" "?pos \<le> length buf \<Longrightarrow> take (length out) (pk_buf st) = out"
    "0 < n \<Longrightarrow> pk_ff_des st = length out \<and> pk_ff_src st = In_src (8 * (?m - n))"
    using inv by (simp_all add: pack_inv_def Let_def n_def)
  have "pack_go [] (segments src ?m @ []) = out @ pack_go ?g []" using inv unfolding pack_inv_def Let_def n_def by blast
  then have spec: "pack_spec src = out @ group_code ?g" by (simp add: pack_spec_def)
  have "length (group_code ?g) = (if n = 0 then 0 else 2 + 8 * n)"
    using i(1) length_segment by (subst length_group_code) auto
  then have len: "length (pack_spec src) = ?pos" using spec i(5) by simp
  show ?thesis
  proof (cases "?pos \<le> length buf \<and> 0 < n")
    case True
    then have p: "0 < n" "?pos = length out + 2 + 8 * n" "length out + 2 + 8 * n \<le> length buf" using i(5) by auto
    have "write_ff src (In_src (8 * (?m - n))) (pk_buf st) (length out) n = Some (take (length out) (pk_buf st) @
        group_code (map (segment src) [?m - n..<?m - n + n]) @ drop (length out + 2 + 8 * n) (pk_buf st))"
      using p i(1,2) by (intro write_ff_result) simp_all
    then have "sproto_pack src buf = Some (?pos, pack_spec src @ drop ?pos (pk_buf st))"
      using p e i(1,3,4,6,7) n_def spec by (simp add: sproto_pack_def add_ac)
    then show ?thesis using len i(2) p by simp
  next
    case False
    then have "sproto_pack src buf = Some (?pos, pk_buf st)" using e i(3,4) n_def by (auto simp: sproto_pack_def)
    moreover have "take ?pos (pk_buf st) = pack_spec src" if "?pos \<le> length buf"
      using that False i(5,6) spec by (simp add: group_code_def)
    ultimately show ?thesis using len i(2) by simp
  qed
qed

subsection \<open>The bound of the binding\<close>

definition pack_bound :: "nat \<Rightarrow> nat" where
  "pack_bound n = 8 * n + 2 * ((n + 255) div 256)"

lemma pack_bound_mono: "a + n \<le> m \<Longrightarrow> 8 * a + pack_bound n \<le> pack_bound m"
proof -
  assume a: "a + n \<le> m"
  then have "(n + 255) div 256 \<le> (m + 255) div 256" by (intro div_le_mono) simp
  then show ?thesis using a by (simp add: pack_bound_def)
qed

lemma pack_bound_full: "pack_bound (256 + n) = 2050 + pack_bound n"
proof -
  have "(n + 255 + 256) div 256 = (n + 255) div 256 + 1" for n :: nat by simp
  from this [of n] have "(256 + n + 255) div 256 = (n + 255) div 256 + 1" by (simp add: add_ac)
  then show ?thesis unfolding pack_bound_def by simp
qed

lemma sparse_length:
  "\<not> dense n s \<Longrightarrow> length s = 8 \<Longrightarrow> length (seg_code s) \<le> (if n = 0 then 8 else 6)"
  using length_filter_le [of "\<lambda>b. b \<noteq> 0" s] by (auto simp: dense_def seg_code_def nonzeros_def)

lemma pack_go_bound:
  assumes base: "\<And>g. \<forall>s \<in> set g. length s = 8 \<Longrightarrow> length (pack_go g rest) \<le> pack_bound (length g) + c"
  shows "\<forall>s \<in> set (g @ ss). length s = 8 \<Longrightarrow> length (pack_go g (ss @ rest)) \<le> pack_bound (length g + length ss) + c"
proof (induction ss arbitrary: g)
  case Nil
  then show ?case using base by simp
next
  case (Cons s ss)
  have s: "length s = 8" and g: "\<forall>x \<in> set g. length x = 8" "\<forall>x \<in> set (g @ [s]). length x = 8" using Cons.prems by auto
  have e: "length (pack_go [] (ss @ rest)) \<le> pack_bound (length ss) + c" using Cons.IH [of "[]"] Cons.prems by simp
  show ?case
  proof (cases "dense (length g) s")
    case d: True
    show ?thesis
    proof (cases "length g + 1 = 256")
      case True
      then have "length g + length (s # ss) = 256 + length ss" by simp
      then have "pack_bound (length g + length (s # ss)) = 2050 + pack_bound (length ss)" by (simp only: pack_bound_full)
      moreover have "length (group_code (g @ [s])) = 2050" using True g(2) by (subst length_group_code) auto
      ultimately show ?thesis using d True e by simp
    next
      case False
      then show ?thesis using d Cons.IH [of "g @ [s]"] Cons.prems by simp
    qed
  next
    case False
    have "8 * (length g + 1) + pack_bound (length ss) \<le> pack_bound (length g + length (s # ss))" by (rule pack_bound_mono) simp
    moreover have "length (group_code g) + length (seg_code s) \<le> 8 * (length g + 1)"
      using sparse_length [OF False s] g(1) by (cases g) (auto simp: length_group_code)
    ultimately show ?thesis using False e by simp
  qed
qed

text \<open>The last segment is short by the zeros that it was filled with.\<close>

lemma last_segment_code:
  assumes "(length src + 7) div 8 = Suc k" "length src + 2 < 8 * Suc k"
  shows "length (nonzeros (segment src k)) + 8 * k \<le> length src" "length (nonzeros (segment src k)) < 6"
proof -
  let ?pad = "8 * k + 8 - length src"
  have k: "k < (length src + 7) div 8" "length src < 8 * k + 8" using assms by simp_all
  have "8 * Suc k \<le> length src + 7" using div_times_less_eq_dividend [of "length src + 7" 8] assms(1) by simp
  then have "8 * k < length src" by simp
  have "nat (8 * int k + 8 - int (length src)) = ?pad" by simp
  then have "segment src k = drop (8 * k) src @ replicate ?pad 0" using step_segment [OF k(1)] k(2) \<open>8 * k < length src\<close> by simp
  then have "length (nonzeros (segment src k)) \<le> length src - 8 * k"
    using length_filter_le [of "\<lambda>b. b \<noteq> 0" "drop (8 * k) src"] by (simp add: nonzeros_def)
  then show "length (nonzeros (segment src k)) + 8 * k \<le> length src" "length (nonzeros (segment src k)) < 6"
    using assms(2) \<open>8 * k < length src\<close> by simp_all
qed

lemma pack_go_last_bound:
  assumes "(length src + 7) div 8 = Suc k" "length src + 2 < 8 * Suc k"
  shows "length (pack_spec src) \<le> pack_bound k + (1 + length (nonzeros (segment src k)))"
proof -
  let ?s = "segment src k"
  have seg: "\<forall>s \<in> set (segments src k). length s = 8" using length_segment assms(1) by (auto simp: segments_def)
  have "length (pack_go [] (segments src k @ [?s])) \<le> pack_bound (length ([] :: bytes list) + length (segments src k)) + (1 + length (nonzeros ?s))"
  proof (rule pack_go_bound)
    show "length (pack_go g [?s]) \<le> pack_bound (length g) + (1 + length (nonzeros ?s))" if "\<forall>s \<in> set g. length s = 8" for g
      using length_group_code [OF that] last_segment_code(2) [OF assms]
      by (cases g) (simp_all add: pack_bound_def dense_def seg_code_def group_code_def)
  qed (use seg length_segment assms(1) in simp)
  then show ?thesis by (simp add: pack_spec_def segments_def assms(1))
qed

lemma pack_go_full_bound:
  assumes "\<forall>s \<in> set ss. length s = 8"
  shows "length (pack_go [] ss) \<le> pack_bound (length ss)"
proof -
  have "length (pack_go [] (ss @ [])) \<le> pack_bound (length ([] :: bytes list) + length ss) + 0"
  proof (rule pack_go_bound)
    show "length (pack_go g []) \<le> pack_bound (length g) + 0" if "\<forall>s \<in> set g. length s = 8" for g
      using length_group_code [OF that] by (cases g) (simp_all add: pack_bound_def)
  qed (use assms in simp)
  then show ?thesis by simp
qed

lemma pack_spec_bound: "length (pack_spec src) \<le> (length src + 2047) div 2048 * 2 + length src + 2"
proof -
  define m where "m = (length src + 7) div 8"
  have seg: "\<forall>s \<in> set (segments src m). length s = 8" using length_segment by (auto simp: segments_def m_def)
  have full: "length (pack_spec src) \<le> pack_bound m"
    using pack_go_full_bound [OF seg] by (simp only: pack_spec_def m_def [symmetric]) (simp add: segments_def)
  have "m + 255 = (length src + 7 + 255 * 8) div 8" unfolding m_def by (subst div_mult_self1) simp_all
  then have d: "(m + 255) div 256 = (length src + 2047) div 2048" by (simp add: div_mult2_eq [symmetric])
  show ?thesis
  proof (cases "8 * m \<le> length src + 2")
    case True
    then show ?thesis using full unfolding pack_bound_def d by simp
  next
    case False
    then obtain k where k: "m = Suc k" by (cases m) auto
    have a: "(length src + 7) div 8 = Suc k" "length src + 2 < 8 * Suc k" using k False m_def by simp_all
    have "(k + 255) div 256 \<le> (length src + 2047) div 2048" using k by (simp add: d [symmetric] div_le_mono)
    then show ?thesis using pack_go_last_bound [OF a] last_segment_code(1) [OF a] unfolding pack_bound_def by simp
  qed
qed

subsection \<open>What unpacking reads\<close>

fun seg_decode :: "u8 \<Rightarrow> nat list \<Rightarrow> bytes \<Rightarrow> (bytes \<times> bytes) option" where
  "seg_decode h [] src = Some ([], src)"
| "seg_decode h (i # is) src =
     (if bit h i then
        (case src of [] \<Rightarrow> None | b # src \<Rightarrow> map_option (\<lambda>(out, rest). (b # out, rest)) (seg_decode h is src))
      else map_option (\<lambda>(out, rest). (0 # out, rest)) (seg_decode h is src))"

fun unpack_go :: "nat \<Rightarrow> bytes \<Rightarrow> bytes option" where
  "unpack_go _ [] = Some []"
| "unpack_go 0 (h # src) = None"
| "unpack_go (Suc fuel) (h # src) =
     (if h = 0xff then
        (case src of
           [] \<Rightarrow> None
         | c # src \<Rightarrow>
             if length src < (unat c + 1) * 8 then None
             else map_option ((@) (take ((unat c + 1) * 8) src)) (unpack_go fuel (drop ((unat c + 1) * 8) src)))
      else
        (case seg_decode h [0..<8] src of
           None \<Rightarrow> None
         | Some (out, rest) \<Rightarrow> map_option ((@) out) (unpack_go fuel rest)))"

definition unpack_spec :: "bytes \<Rightarrow> bytes option" where
  "unpack_spec src = unpack_go (length src) src"

text \<open>\<open>out\<close> was decoded. While it fits it is what the buffer starts with; after that nothing is written.\<close>

definition unpack_inv :: "nat \<Rightarrow> bytes \<Rightarrow> unpack_state \<Rightarrow> bool" where
  "unpack_inv room out st \<longleftrightarrow> length (up_buf st) = room \<and> up_size st = length out \<and>
     (if length out \<le> room
      then up_pos st = length out \<and> up_bufsz st = int room - int (length out) \<and> take (length out) (up_buf st) = out
      else up_bufsz st \<le> 0)"

lemma put_byte_inv:
  assumes "unpack_inv room out st"
  obtains st' where "put_byte b st = Some st'" "unpack_inv room (out @ [b]) st'" "up_src st' = up_src st"
proof (cases "length out < room")
  case True
  then have "put_byte b st = Some (st\<lparr>up_buf := (up_buf st)[length out := b], up_pos := length out + 1,
      up_bufsz := up_bufsz st - 1, up_size := up_size st + 1\<rparr>)"
    using assms by (simp add: put_byte_def unpack_inv_def)
  moreover have "take (length out + 1) ((up_buf st)[length out := b]) = out @ [b]"
    using True assms by (simp add: unpack_inv_def take_Suc_conv_app_nth)
  ultimately show ?thesis using that True assms by (simp add: unpack_inv_def)
next
  case False
  then show ?thesis using that assms by (auto simp: put_byte_def unpack_inv_def split: if_splits)
qed

lemma copy_ff_inv:
  assumes "unpack_inv room out st" "0 < n" "n \<le> length src"
  obtains st' where "copy_ff src n st = Some st'" "unpack_inv room (out @ take n src) st'" "up_src st' = drop n src"
proof (cases "length out + n \<le> room")
  case True
  then have "copy_ff src n st = Some (st\<lparr>up_src := drop n src, up_buf := out @ take n src @ drop (length out + n) (up_buf st),
      up_pos := up_pos st + n, up_bufsz := up_bufsz st - int n, up_size := up_size st + n\<rparr>)"
    using assms by (simp add: copy_ff_def arr_copy_def unpack_inv_def min_absorb2)
  then show ?thesis using that True assms by (simp add: unpack_inv_def min_absorb2)
next
  case False
  then have "\<not> int n \<le> up_bufsz st" using assms by (auto simp: unpack_inv_def split: if_splits)
  then show ?thesis using that False assms by (auto simp: copy_ff_def unpack_inv_def min_absorb2)
qed

lemma seg_bits_result:
  "unpack_inv room out st \<Longrightarrow>
   (case seg_decode h is (up_src st) of
      None \<Rightarrow> seg_bits h is st = Some (Inl ())
    | Some (d, rest) \<Rightarrow> \<exists>st'. seg_bits h is st = Some (Inr st') \<and> unpack_inv room (out @ d) st' \<and> up_src st' = rest)"
proof (induction "is" arbitrary: out st)
  case Nil
  then show ?case by simp
next
  case (Cons i "is")
  show ?case
  proof (cases "bit h i")
    case True
    show ?thesis
    proof (cases "up_src st")
      case Nil
      then show ?thesis using True by simp
    next
      case (Cons b src)
      obtain st1 where st1: "put_byte b st = Some st1" "unpack_inv room (out @ [b]) st1" by (rule put_byte_inv [OF \<open>unpack_inv room out st\<close>])
      then have "unpack_inv room (out @ [b]) (st1\<lparr>up_src := src\<rparr>)" by (auto simp: unpack_inv_def split: if_splits)
      from Cons.IH [OF this] show ?thesis using True Cons st1 by (auto split: option.splits)
    qed
  next
    case False
    obtain st1 where st1: "put_byte 0 st = Some st1" "unpack_inv room (out @ [0]) st1" "up_src st1 = up_src st"
      by (rule put_byte_inv [OF Cons.prems])
    from Cons.IH [OF st1(2)] show ?thesis using False st1 by (auto split: option.splits)
  qed
qed

lemma seg_decode_length: "seg_decode h is src = Some (d, rest) \<Longrightarrow> length rest \<le> length src \<and> length d = length is"
proof (induction "is" arbitrary: src d)
  case (Cons i "is")
  then show ?case by (cases src) (auto split: if_splits, fastforce+)
qed simp

lemma unpack_loop_result:
  "unpack_inv room out st \<Longrightarrow> length (up_src st) \<le> fuel \<Longrightarrow>
   (case unpack_go fuel (up_src st) of
      None \<Rightarrow> unpack_loop fuel st = Some (Inl ())
    | Some d \<Rightarrow> \<exists>buf. unpack_loop fuel st = Some (Inr (length (out @ d), buf)) \<and> length buf = room \<and>
        (length (out @ d) \<le> room \<longrightarrow> take (length (out @ d)) buf = out @ d))"
proof (induction fuel arbitrary: out st)
  case 0
  then show ?case by (auto simp: unpack_inv_def)
next
  case (Suc fuel)
  show ?case
  proof (cases "up_src st")
    case Nil
    then show ?thesis using Suc.prems by (auto simp: unpack_inv_def)
  next
    case (Cons h src)
    show ?thesis
    proof (cases "h = 0xff")
      case True
      show ?thesis
      proof (cases src)
        case Nil
        then show ?thesis using True Cons by simp
      next
        case (Cons c src1)
        let ?n = "(unat c + 1) * 8"
        show ?thesis
        proof (cases "length src1 < ?n")
          case short: True
          then show ?thesis using True Cons \<open>up_src st = h # src\<close> by (simp add: Let_def)
        next
          case False
          obtain st1 where st1: "copy_ff src1 ?n st = Some st1" "unpack_inv room (out @ take ?n src1) st1" "up_src st1 = drop ?n src1"
            using copy_ff_inv [OF Suc.prems(1), of ?n src1] False by auto
          have "length (up_src st1) \<le> fuel" using Suc.prems(2) Cons \<open>up_src st = h # src\<close> st1(3) by simp
          from Suc.IH [OF st1(2) this] show ?thesis
            using True Cons \<open>up_src st = h # src\<close> st1(1,3) False by (auto simp: Let_def split: option.splits)
        qed
      qed
    next
      case False
      have "unpack_inv room out (st\<lparr>up_src := src\<rparr>)" using Suc.prems(1) by (simp add: unpack_inv_def)
      note bits = seg_bits_result [OF this, of h "[0..<8]"]
      show ?thesis
      proof (cases "seg_decode h [0..<8] src")
        case None
        then show ?thesis using bits False Cons by simp
      next
        case (Some r)
        obtain d rest where r: "r = (d, rest)" by (cases r)
        obtain st1 where st1: "seg_bits h [0..<8] (st\<lparr>up_src := src\<rparr>) = Some (Inr st1)" "unpack_inv room (out @ d) st1" "up_src st1 = rest"
          using bits Some r by auto
        have "length (up_src st1) \<le> fuel" using Suc.prems(2) Cons st1(3) seg_decode_length Some r by fastforce
        from Suc.IH [OF st1(2) this] show ?thesis
          using False Cons Some r st1(1,3) by (auto simp del: upt_rec_numeral split: option.splits)
      qed
    qed
  qed
qed

text \<open>Any source is decoded as the reference says; nothing is read or written outside the two buffers.\<close>

lemma sproto_unpack_result:
  "case unpack_spec src of
     None \<Rightarrow> sproto_unpack src buf = Some (Inl ())
   | Some d \<Rightarrow> \<exists>buf'. sproto_unpack src buf = Some (Inr (length d, buf')) \<and> length buf' = length buf \<and>
       (length d \<le> length buf \<longrightarrow> take (length d) buf' = d)"
proof -
  have "unpack_inv (length buf) [] \<lparr>up_src = src, up_buf = buf, up_pos = 0, up_bufsz = int (length buf), up_size = 0\<rparr>"
    by (simp add: unpack_inv_def)
  from unpack_loop_result [OF this, of "length src"] show ?thesis
    by (simp add: unpack_spec_def sproto_unpack_def split: option.splits)
qed

subsection \<open>Unpacking what was packed\<close>

lemma bit_seg_header: "n \<le> 8 \<Longrightarrow> bit (seg_header n s) i \<longleftrightarrow> i < n \<and> s ! i \<noteq> 0"
  by (induction n) (auto simp: bit_simps less_Suc_eq)

lemma seg_decode_code:
  "(\<And>i. i < length s \<Longrightarrow> bit h (k + i) \<longleftrightarrow> s ! i \<noteq> 0) \<Longrightarrow> seg_decode h [k..<k + length s] (nonzeros s @ rest) = Some (s, rest)"
proof (induction s arbitrary: k)
  case Nil
  then show ?case by (simp add: nonzeros_def)
next
  case (Cons b s)
  have "seg_decode h [Suc k..<Suc k + length s] (nonzeros s @ rest) = Some (s, rest)"
    using Cons.prems [of "Suc _"] by (intro Cons.IH) simp
  moreover have "[k..<k + length (b # s)] = k # [Suc k..<Suc k + length s]" using upt_conv_Cons [of k "k + length (b # s)"] by simp
  ultimately show ?case using Cons.prems [of 0] by (simp add: nonzeros_def)
qed

lemma seg_header_not_ff:
  assumes "length s = 8" "\<not> dense n s"
  shows "seg_header 8 s \<noteq> 0xff"
proof
  assume "seg_header 8 s = 0xff"
  moreover have "bit (0xff :: u8) i" if "i < 8" for i using that by (auto simp: less_Suc_eq numeral_eq_Suc bit_simps)
  ultimately have "s ! i \<noteq> 0" if "i < 8" for i using that bit_seg_header [of 8 s i] by simp
  then have "nonzeros s = s" using assms(1) by (auto simp: nonzeros_def filter_id_conv in_set_conv_nth)
  then show False using assms by (simp add: dense_def)
qed

lemma unpack_group:
  assumes "length g \<le> 256" "\<forall>s \<in> set g. length s = 8" "g \<noteq> []" "length (group_code g @ rest) \<le> fuel"
  obtains fuel' where "unpack_go fuel (group_code g @ rest) = map_option ((@) (concat g)) (unpack_go fuel' rest)" "length rest \<le> fuel'"
proof -
  have "length (concat g) = 8 * length g" using assms(2) by (induction g) auto
  moreover have "unat (word_of_nat (length g - 1) :: u8) + 1 = length g"
    using assms(1,3) by (cases g) (simp_all add: unat_of_nat take_bit_nat_eq_self)
  moreover obtain f where f: "fuel = Suc f" using assms(3,4) by (cases fuel) (auto simp: group_code_def)
  ultimately have "unpack_go fuel (group_code g @ rest) = map_option ((@) (concat g)) (unpack_go f rest)"
    using assms(3) by (simp add: group_code_def mult.commute del: of_nat_diff)
  then show ?thesis using that f assms(3,4) by (simp add: group_code_def)
qed

lemma unpack_seg:
  assumes "length s = 8" "\<not> dense n s" "length (seg_code s @ rest) \<le> fuel"
  obtains fuel' where "unpack_go fuel (seg_code s @ rest) = map_option ((@) s) (unpack_go fuel' rest)" "length rest \<le> fuel'"
proof -
  obtain f where f: "fuel = Suc f" using assms(3) by (cases fuel) (auto simp: seg_code_def)
  have "seg_decode (seg_header 8 s) [0..<0 + length s] (nonzeros s @ rest) = Some (s, rest)"
    by (rule seg_decode_code) (simp add: assms(1) bit_seg_header)
  then show ?thesis using that [of f] f assms seg_header_not_ff [OF assms(1,2)] by (simp add: seg_code_def)
qed

lemma unpack_go_pack:
  "length g < 256 \<Longrightarrow> \<forall>s \<in> set (g @ ss). length s = 8 \<Longrightarrow> length (pack_go g ss) \<le> fuel \<Longrightarrow>
   unpack_go fuel (pack_go g ss) = Some (concat g @ concat ss)"
proof (induction g ss arbitrary: fuel rule: pack_go.induct)
  case (1 g)
  show ?case
  proof (cases "g = []")
    case True
    then show ?thesis by (simp add: group_code_def)
  next
    case False
    then obtain f where "unpack_go fuel (group_code g @ []) = map_option ((@) (concat g)) (unpack_go f [])"
      using unpack_group [of g "[]" fuel] 1 by auto
    then show ?thesis by simp
  qed
next
  case (2 g s ss)
  show ?case
  proof (cases "dense (length g) s")
    case d: True
    show ?thesis
    proof (cases "length g + 1 = 256")
      case True
      then obtain f where f: "unpack_go fuel (group_code (g @ [s]) @ pack_go [] ss) =
          map_option ((@) (concat (g @ [s]))) (unpack_go f (pack_go [] ss))" "length (pack_go [] ss) \<le> f"
        using unpack_group [of "g @ [s]" "pack_go [] ss" fuel] d 2(5,6) by auto
      then show ?thesis using d True 2(1) [OF d True, of f] 2(5) by simp
    next
      case False
      then show ?thesis using d 2(2) [OF d False, of fuel] 2(4,5,6) by simp
    qed
  next
    case False
    have "\<exists>f. unpack_go fuel (group_code g @ seg_code s @ pack_go [] ss) =
        map_option ((@) (concat g)) (unpack_go f (seg_code s @ pack_go [] ss)) \<and> length (seg_code s @ pack_go [] ss) \<le> f"
    proof (cases "g = []")
      case True
      have "map_option ((@) []) m = m" for m :: "bytes option" by (cases m) simp_all
      then show ?thesis using True False 2(6) by (auto simp: group_code_def)
    next
      case g: False
      then show ?thesis using unpack_group [of g "seg_code s @ pack_go [] ss" fuel] False 2(4,5,6) by auto
    qed
    then obtain f1 where f1: "unpack_go fuel (pack_go g (s # ss)) = map_option ((@) (concat g)) (unpack_go f1 (seg_code s @ pack_go [] ss))"
      "length (seg_code s @ pack_go [] ss) \<le> f1" using False by auto
    obtain f2 where f2: "unpack_go f1 (seg_code s @ pack_go [] ss) = map_option ((@) s) (unpack_go f2 (pack_go [] ss))"
      "length (pack_go [] ss) \<le> f2" using unpack_seg [OF _ False f1(2)] 2(5) by auto
    then show ?thesis using f1(1) 2(3) [OF False, of f2] 2(5) by simp
  qed
qed

lemma unpack_pack_spec: "unpack_spec (pack_spec src) = Some (padded src)"
proof -
  let ?m = "(length src + 7) div 8"
  have "\<forall>s \<in> set ([] @ segments src ?m). length s = 8" using length_segment by (auto simp: segments_def)
  from unpack_go_pack [OF _ this] have "unpack_spec (pack_spec src) = Some (concat (segments src ?m))"
    by (simp add: unpack_spec_def pack_spec_def)
  also have "concat (segments src ?m) = padded src"
    using segment_append [of 0 ?m src] length_padded [of src] by (simp add: segments_def)
  finally show ?thesis .
qed

subsection \<open>The binding\<close>

lemma expand_size_ge: "0 < osz \<Longrightarrow> nsz \<le> expand_size osz nsz"
  by (induction osz nsz rule: expand_size.induct) (subst expand_size.simps, auto simp: Let_def)

lemma expand_size_le: "0 < osz \<Longrightarrow> osz < nsz \<Longrightarrow> expand_size osz nsz \<le> 2 * nsz"
  by (induction osz nsz rule: expand_size.induct) (subst expand_size.simps, auto simp: Let_def)

definition pack_maxsz :: "nat \<Rightarrow> nat" where
  "pack_maxsz sz = (sz + 2047) div 2048 * 2 + sz + 2"

text \<open>The buffer is too small and a bigger one is above the limit.\<close>

definition too_large :: "nat \<Rightarrow> nat \<Rightarrow> bool" where
  "too_large osz nsz \<longleftrightarrow> osz < nsz \<and> ENCODE_MAXSIZE < expand_size osz nsz"

lemma lpack_result:
  assumes "\<And>n. length (garbage n) = n" "0 < length buf0"
  shows "lpack garbage buf0 x = Some (
    if too_large (length buf0) (pack_maxsz (length x)) then Inl ''object is too large (>%d)'' else Inr (pack_spec x))"
proof -
  let ?max = "pack_maxsz (length x)"
  have packed: "\<exists>out. sproto_pack x (take ?max b) = Some (length (pack_spec x), out) \<and> take (length (pack_spec x)) out = pack_spec x"
    if "?max \<le> length b" for b
    using sproto_pack_result [of x "take ?max b"] pack_spec_bound [of x] that by (auto simp: pack_maxsz_def)
  have le: "length (pack_spec x) \<le> ?max" using pack_spec_bound by (simp add: pack_maxsz_def)
  have lpack: "lpack garbage buf0 x = (case (if length buf0 < ?max then expand_buffer garbage (length buf0) ?max else Inr buf0) of
      Inl e \<Rightarrow> Some (Inl e)
    | Inr b \<Rightarrow> do { (bytes, out) \<leftarrow> sproto_pack x (take ?max b);
        Some (if ?max < bytes then Inl ''packing error, return size = %d'' else Inr (take bytes out)) })"
    by (simp only: lpack_def Let_def pack_maxsz_def)
  show ?thesis
  proof (cases "length buf0 < ?max")
    case True
    then show ?thesis using lpack packed [of "garbage (expand_size (length buf0) ?max)"] le assms expand_size_ge [of "length buf0" ?max]
      by (auto simp: expand_buffer_def too_large_def Let_def)
  next
    case False
    then show ?thesis using lpack packed [of buf0] le by (auto simp: too_large_def)
  qed
qed



text \<open>
  Any string from the network is decoded as the reference says, or refused; the second call with the bigger buffer
  gives the size of the first.
\<close>

theorem lunpack_correct:
  assumes "\<And>n. length (garbage n) = n" "0 < length buf0"
  shows "lunpack garbage buf0 x = Some (
    case unpack_spec x of
      None \<Rightarrow> Inl ''Invalid unpack stream''
    | Some d \<Rightarrow> if too_large (length buf0) (length d) then Inl ''object is too large (>%d)'' else Inr d)"
proof (cases "unpack_spec x")
  case None
  then show ?thesis using sproto_unpack_result [of x buf0] by (simp add: lunpack_def)
next
  case (Some d)
  let ?b = "garbage (expand_size (length buf0) (length d))"
  obtain b1 where b1: "sproto_unpack x buf0 = Some (Inr (length d, b1))" "length d \<le> length buf0 \<Longrightarrow> take (length d) b1 = d"
    using sproto_unpack_result [of x buf0] Some by auto
  have "length (take (length d) ?b) = length d" using expand_size_ge assms by simp
  then obtain b2 where "sproto_unpack x (take (length d) ?b) = Some (Inr (length d, b2))" "take (length d) b2 = d"
    using sproto_unpack_result [of x "take (length d) ?b"] Some by auto
  then show ?thesis using Some b1 by (auto simp: lunpack_def expand_buffer_def too_large_def Let_def)
qed

lemma lunpack_correct_witness:
  "lunpack (\<lambda>n. replicate n 7) (replicate 8 0) [5, 1] = Some (Inl ''Invalid unpack stream'')"
proof -
  have "unpack_spec [5, 1] = None" by code_simp
  then show ?thesis using lunpack_correct [of "\<lambda>n. replicate n 7" "replicate 8 0" "[5, 1]"] by simp
qed

text \<open>
  C14. What was packed is unpacked to the source, with zeros up to a multiple of eight bytes, whatever buffers the two calls
  start with. The limit on the size is that of the buffers.
\<close>

theorem pack_roundtrip:
  assumes "\<And>n. length (garbage n) = n" "0 < length buf1" "0 < length buf2" "length x \<le> 8000000"
  shows "\<exists>p. lpack garbage buf1 x = Some (Inr p) \<and> lunpack garbage buf2 p = Some (Inr (padded x))"
proof -
  have small: "\<not> too_large osz nsz" if "0 < osz" "nsz \<le> 8388608" for osz nsz
    using expand_size_le [of osz nsz] that by (auto simp: too_large_def ENCODE_MAXSIZE_def)
  have "(length x + 2047) div 2048 \<le> 8002047 div 2048" using assms(4) by (intro div_le_mono) simp
  then have "pack_maxsz (length x) \<le> 8388608" using assms(4) by (simp add: pack_maxsz_def)
  moreover have "8 * ((length x + 7) div 8) \<le> length x + 7" by (rule times_div_less_eq_dividend)
  then have "length (padded x) \<le> 8388608" using assms(4) length_padded [of x] by linarith
  ultimately show ?thesis
    using small [OF assms(2)] small [OF assms(3)] unpack_pack_spec [of x]
    using lpack_result [of garbage buf1 x] lunpack_correct [of garbage buf2 "pack_spec x"] assms(1,2,3) by simp
qed

lemma pack_roundtrip_witness:
  "\<exists>p. lpack (\<lambda>n. replicate n 7) [0, 0] [0, 0, 4] = Some (Inr p) \<and> lunpack (\<lambda>n. replicate n 7) [9] p = Some (Inr [0, 0, 4, 0, 0, 0, 0, 0])"
proof -
  have "padded [0, 0, 4] = [0, 0, 4, 0, 0, 0, 0, 0]" by code_simp
  then show ?thesis using pack_roundtrip [of "\<lambda>n. replicate n 7" "[0, 0]" "[9]" "[0, 0, 4]"] by simp
qed

end
