(* ===== verification/Sproto_Decode.thy ===== *)
theory Sproto_Decode
  imports Sproto_Pack
begin

section \<open>Decoding of sproto messages (lualib-src/sproto/sproto.c)\<close>

text \<open>
  A message holds for each field either a small number or the place of a block of bytes. \<open>sproto_decode\<close> finds the field of
  each tag in a type and calls back with its value. The callback is a parameter: it gets the calls made before, which
  determine its state, and the present one, and answers with a number. An error of Lua in it leaves the function and is not
  modelled. The result is the list of calls and the number returned; \<open>None\<close> is a read outside the message.

  The types are those that \<open>import_type\<close> builds. The results: every read and every block handed to the callback is inside
  the message unless a length in it is at least 0xfffffffc; with such a length the sum with 4 wraps and the
  check passes.
\<close>

subsection \<open>Types and calls\<close>

definition SIZEOF_HEADER :: nat where "SIZEOF_HEADER = 2"
definition SIZEOF_FIELD :: nat where "SIZEOF_FIELD = 2"

definition SPROTO_TINTEGER :: u32 where "SPROTO_TINTEGER = 0"
definition SPROTO_TBOOLEAN :: u32 where "SPROTO_TBOOLEAN = 1"
definition SPROTO_TSTRING :: u32 where "SPROTO_TSTRING = 2"
definition SPROTO_TDOUBLE :: u32 where "SPROTO_TDOUBLE = 3"
definition SPROTO_TSTRUCT :: u32 where "SPROTO_TSTRUCT = 4"
definition SPROTO_TARRAY :: u32 where "SPROTO_TARRAY = 0x80"

record sproto_field =
  fd_tag :: int
  fd_type :: u32
  fd_name :: string
  fd_st :: "nat option"
  fd_key :: int
  fd_map :: int
  fd_extra :: int

record sproto_type =
  ty_name :: string
  ty_n :: nat
  ty_base :: int
  ty_maxn :: nat
  ty_f :: "sproto_field list"

text \<open>What \<open>args->value\<close> points to: a number of 64 bits, or a place in the message.\<close>

datatype arg_value = V_null | V_u64 u64 | V_at nat

record sproto_arg =
  ar_tagname :: string
  ar_tagid :: int
  ar_type :: u32
  ar_subtype :: "nat option"
  ar_value :: arg_value
  ar_length :: int
  ar_index :: int
  ar_mainindex :: int
  ar_extra :: int
  ar_ktagname :: "string option"
  ar_vtagname :: "string option"

type_synonym calls = "sproto_arg list"
type_synonym callback = "calls \<Rightarrow> sproto_arg \<Rightarrow> int"

subsection \<open>The operations\<close>

definition toword :: "bytes \<Rightarrow> nat \<Rightarrow> nat option" where
  "toword data p = do {
     a \<leftarrow> arr_get data p;
     b \<leftarrow> arr_get data (p + 1);
     Some (unat ((ucast a :: u32) OR push_bit 8 (ucast b))) }"

definition todword :: "bytes \<Rightarrow> nat \<Rightarrow> u32 option" where
  "todword data p = do {
     a \<leftarrow> arr_get data p;
     b \<leftarrow> arr_get data (p + 1);
     c \<leftarrow> arr_get data (p + 2);
     d \<leftarrow> arr_get data (p + 3);
     Some (ucast a OR push_bit 8 (ucast b) OR push_bit 16 (ucast c) OR push_bit 24 (ucast d)) }"

definition expand64 :: "u32 \<Rightarrow> u64" where
  "expand64 v = (let value = ucast v in if value AND 0x80000000 \<noteq> 0 then value OR push_bit 32 (NOT 0) else value)"

text \<open>A number of eight bytes, as two words.\<close>

definition toqword :: "bytes \<Rightarrow> nat \<Rightarrow> u64 option" where
  "toqword data p = do {
     low \<leftarrow> todword data p;
     hi \<leftarrow> todword data (p + 4);
     Some (ucast low OR push_bit 32 (ucast hi)) }"

text \<open>The binary search. \<open>None\<close> is an index outside of the fields.\<close>

function findtag_loop :: "sproto_field list \<Rightarrow> int \<Rightarrow> nat \<Rightarrow> nat \<Rightarrow> sproto_field option option" where
  "findtag_loop fs tag begin end =
     (if begin < end then
        let mid = (begin + end) div 2 in
        if mid < length fs then
          let f = fs ! mid; t = fd_tag f in
          if t = tag then Some (Some f)
          else if t < tag then findtag_loop fs tag (mid + 1) end
          else findtag_loop fs tag begin mid
        else None
      else Some None)"
  by pat_completeness auto
termination by (relation "measure (\<lambda>(fs, tag, b, e). e - b)") auto

declare findtag_loop.simps [simp del]

definition findtag :: "sproto_type \<Rightarrow> int \<Rightarrow> sproto_field option option" where
  "findtag st tag =
     (if 0 \<le> ty_base st then
        let tag = tag - ty_base st in
        if tag < 0 \<or> int (ty_n st) \<le> tag then Some None
        else map_option Some (arr_get (ty_f st) (nat tag))
      else findtag_loop (ty_f st) tag 0 (ty_n st))"

text \<open>The elements of an array of numbers; what the callback returns is not looked at.\<close>

fun call_each :: "(nat \<Rightarrow> u64 option) \<Rightarrow> sproto_arg \<Rightarrow> nat list \<Rightarrow> calls \<Rightarrow> calls option" where
  "call_each rd args [] log = Some log"
| "call_each rd args (i # is) log = do {
     v \<leftarrow> rd i;
     call_each rd args is (log @ [args\<lparr>ar_index := int i + 1, ar_value := V_u64 v, ar_length := 8\<rparr>]) }"

text \<open>\<open>hsz\<close> is at most \<open>sz\<close>, a number below 2^31, where it is compared and subtracted.\<close>

function decode_array_object :: "callback \<Rightarrow> bytes \<Rightarrow> sproto_arg \<Rightarrow> nat \<Rightarrow> int \<Rightarrow> int \<Rightarrow> calls \<Rightarrow> (calls \<times> int) option" where
  "decode_array_object cb data args stream sz index log =
     (if sz \<le> 0 then Some (log, 0)
      else if sz < 4 then Some (log, - 1)
      else case todword data stream of
        None \<Rightarrow> None
      | Some hsz \<Rightarrow>
          if sz - 4 < uint hsz then Some (log, - 1)
          else
            let a = args\<lparr>ar_index := index, ar_value := V_at (stream + 4), ar_length := uint hsz\<rparr> in
            if cb log a \<noteq> 0 then Some (log @ [a], - 1)
            else decode_array_object cb data args (stream + 4 + unat hsz) (sz - 4 - uint hsz) (index + 1) (log @ [a]))"
  by pat_completeness auto
termination
proof (relation "measure (\<lambda>(cb, data, args, stream, sz, index, log). nat sz)")
  show "((cb, data, args, stream + 4 + unat hsz, sz - 4 - uint hsz, index + 1, log @ [a]), (cb, data, args, stream, sz, index, log)) \<in>
      measure (\<lambda>(cb, data, args, stream, sz, index, log). nat sz)" if "\<not> sz < 4" for cb data args stream sz index log a and hsz :: u32
  proof -
    have "nat (sz - 4 - uint hsz) < nat sz" using that uint_ge_0 [of hsz] by linarith
    then show ?thesis by (simp only: in_measure prod.case)
  qed
qed simp

declare decode_array_object.simps [simp del]

definition decode_array :: "callback \<Rightarrow> bytes \<Rightarrow> sproto_arg \<Rightarrow> nat \<Rightarrow> calls \<Rightarrow> (calls \<times> int) option" where
  "decode_array cb data args stream log = do {
     sz \<leftarrow> todword data stream;
     if sz = 0 then Some (log @ [args\<lparr>ar_index := - 1, ar_value := V_null, ar_length := 0\<rparr>], 0)
     else
       let stream = stream + 4 in
       if ar_type args = SPROTO_TDOUBLE \<or> ar_type args = SPROTO_TINTEGER then do {
         len \<leftarrow> arr_get data stream;
         let stream = stream + 1;
         let sz = sz - 1;
         if len = 4 then
           if sz mod 4 \<noteq> 0 then Some (log, - 1)
           else do {
             log \<leftarrow> call_each (\<lambda>i. map_option expand64 (todword data (stream + i * 4))) args [0..<unat (sz div 4)] log;
             Some (log, 0) }
         else if len = 8 then
           if sz mod 8 \<noteq> 0 then Some (log, - 1)
           else do {
             log \<leftarrow> call_each (\<lambda>i. toqword data (stream + i * 8)) args [0..<unat (sz div 8)] log;
             Some (log, 0) }
         else Some (log, - 1) }
       else if ar_type args = SPROTO_TBOOLEAN then do {
         log \<leftarrow> call_each (\<lambda>i. map_option ucast (arr_get data (stream + i))) args [0..<unat sz] log;
         Some (log, 0) }
       else if ar_type args = SPROTO_TSTRING \<or> ar_type args = SPROTO_TSTRUCT then
         decode_array_object cb data args stream (sint sz) 1 log
       else Some (log, - 1) }"

text \<open>The names of the two fields of the entries of a map.\<close>

definition map_names :: "sproto_type list \<Rightarrow> sproto_field \<Rightarrow> sproto_arg \<Rightarrow> sproto_arg option" where
  "map_names types f args =
     (if 0 < fd_map f then do {
        t \<leftarrow> fd_st f;
        st \<leftarrow> arr_get types t;
        k \<leftarrow> arr_get (ty_f st) 0;
        v \<leftarrow> arr_get (ty_f st) 1;
        Some (args\<lparr>ar_ktagname := Some (fd_name k), ar_vtagname := Some (fd_name v)\<rparr>) }
      else Some args)"

definition decode_field :: "callback \<Rightarrow> sproto_type list \<Rightarrow> bytes \<Rightarrow> sproto_field \<Rightarrow> int \<Rightarrow> nat \<Rightarrow> calls \<Rightarrow> (calls \<times> int) option" where
  "decode_field cb types data f value cur log =
     (let args = \<lparr>ar_tagname = fd_name f, ar_tagid = fd_tag f, ar_type = fd_type f, ar_subtype = fd_st f, ar_value = V_null,
        ar_length = 0, ar_index = 0, ar_mainindex = fd_key f, ar_extra = fd_extra f, ar_ktagname = None, ar_vtagname = None\<rparr>;
          number = (\<lambda>v. Some (log @ [args\<lparr>ar_value := V_u64 v, ar_length := 8\<rparr>], 0)) in
      if value < 0 then
        if fd_type f AND SPROTO_TARRAY \<noteq> 0 then do {
          args \<leftarrow> map_names types f (args\<lparr>ar_type := fd_type f AND NOT SPROTO_TARRAY\<rparr>);
          (log, r) \<leftarrow> decode_array cb data args cur log;
          Some (log, if r \<noteq> 0 then - 1 else 0) }
        else if fd_type f = SPROTO_TDOUBLE \<or> fd_type f = SPROTO_TINTEGER then do {
          sz \<leftarrow> todword data cur;
          if sz = 4 then do {
            v \<leftarrow> todword data (cur + 4);
            number (expand64 v) }
          else if sz \<noteq> 8 then Some (log, - 1)
          else do {
            v \<leftarrow> toqword data (cur + 4);
            number v } }
        else if fd_type f = SPROTO_TSTRING \<or> fd_type f = SPROTO_TSTRUCT then do {
          sz \<leftarrow> todword data cur;
          let a = args\<lparr>ar_value := V_at (cur + 4), ar_length := sint sz\<rparr>;
          Some (log @ [a], if cb log a \<noteq> 0 then - 1 else 0) }
        else Some (log, - 1)
      else if fd_type f \<noteq> SPROTO_TINTEGER \<and> fd_type f \<noteq> SPROTO_TBOOLEAN then Some (log, - 1)
      else number (word_of_int value))"

record decode_state =
  ds_data :: nat
  ds_size :: int
  ds_tag :: int
  ds_log :: calls

text \<open>One turn of the loop; \<open>Inl\<close> is the result -1 after these calls. The length plus 4 is a word of 32 bits.\<close>

definition decode_step :: "callback \<Rightarrow> sproto_type list \<Rightarrow> sproto_type \<Rightarrow> bytes \<Rightarrow> nat \<Rightarrow> decode_state \<Rightarrow> (calls + decode_state) option" where
  "decode_step cb types st data i s = do {
     value \<leftarrow> toword data (SIZEOF_HEADER + i * SIZEOF_FIELD);
     let s = s\<lparr>ds_tag := ds_tag s + 1\<rparr>;
     if odd value then Some (Inr (s\<lparr>ds_tag := ds_tag s + int (value div 2)\<rparr>))
     else
       let value = int (value div 2) - 1; cur = ds_data s in do {
       r \<leftarrow> (if value < 0 then
              if ds_size s < 4 then Some None
              else do {
                sz \<leftarrow> todword data cur;
                Some (if ds_size s < uint (sz + 4) then None
                      else Some (s\<lparr>ds_data := cur + unat (sz + 4), ds_size := ds_size s - uint (sz + 4)\<rparr>)) }
            else Some (Some s));
       case r of
         None \<Rightarrow> Some (Inl (ds_log s))
       | Some s \<Rightarrow> do {
           f \<leftarrow> findtag st (ds_tag s);
           case f of
             None \<Rightarrow> Some (Inr s)
           | Some f \<Rightarrow> do {
               (log, r) \<leftarrow> decode_field cb types data f value cur (ds_log s);
               Some (if r \<noteq> 0 then Inl log else Inr (s\<lparr>ds_log := log\<rparr>)) } } } }"

fun decode_loop :: "callback \<Rightarrow> sproto_type list \<Rightarrow> sproto_type \<Rightarrow> bytes \<Rightarrow> nat list \<Rightarrow> decode_state \<Rightarrow> (calls + decode_state) option" where
  "decode_loop cb types st data [] s = Some (Inr s)"
| "decode_loop cb types st data (i # is) s = do {
     r \<leftarrow> decode_step cb types st data i s;
     case r of Inl log \<Rightarrow> Some (Inl log) | Inr s \<Rightarrow> decode_loop cb types st data is s }"

definition sproto_decode :: "callback \<Rightarrow> sproto_type list \<Rightarrow> sproto_type \<Rightarrow> bytes \<Rightarrow> (calls \<times> int) option" where
  "sproto_decode cb types st data =
     (let size = int (length data); total = size in
      if size < int SIZEOF_HEADER then Some ([], - 1)
      else do {
        fn \<leftarrow> toword data 0;
        let size = size - int SIZEOF_HEADER;
        if size < int (fn * SIZEOF_FIELD) then Some ([], - 1)
        else do {
          r \<leftarrow> decode_loop cb types st data [0..<fn]
            \<lparr>ds_data = SIZEOF_HEADER + fn * SIZEOF_FIELD, ds_size = size - int (fn * SIZEOF_FIELD), ds_tag = - 1, ds_log = []\<rparr>;
          case r of Inl log \<Rightarrow> Some (log, - 1) | Inr s \<Rightarrow> Some (ds_log s, total - ds_size s) } })"

subsection \<open>Inside the message\<close>

lemma todword_in: "p + 4 \<le> length data \<Longrightarrow> \<exists>w. todword data p = Some w"
  by (simp add: todword_def arr_get_in)

lemma toqword_in: "p + 8 \<le> length data \<Longrightarrow> \<exists>w. toqword data p = Some w"
  by (simp add: toqword_def todword_def arr_get_in)

lemma toword_in: "p + 2 \<le> length data \<Longrightarrow> \<exists>w. toword data p = Some w"
  by (simp add: toword_def arr_get_in)

definition inside :: "bytes \<Rightarrow> sproto_arg \<Rightarrow> bool" where
  "inside data a \<longleftrightarrow> (case ar_value a of V_at p \<Rightarrow> 0 \<le> ar_length a \<and> int p + ar_length a \<le> int (length data) | _ \<Rightarrow> True)"

definition all_inside :: "bytes \<Rightarrow> calls \<Rightarrow> bool" where
  "all_inside data log \<longleftrightarrow> (\<forall>a \<in> set log. inside data a)"

lemma all_inside_append [simp]: "all_inside data (log @ [a]) \<longleftrightarrow> all_inside data log \<and> inside data a"
  by (auto simp: all_inside_def)

lemma all_inside_Nil [simp]: "all_inside data []"
  by (simp add: all_inside_def)

lemma call_each_inside:
  "(\<And>i. i \<in> set is \<Longrightarrow> \<exists>v. rd i = Some v) \<Longrightarrow> all_inside data log \<Longrightarrow>
   \<exists>log'. call_each rd args is log = Some log' \<and> all_inside data log'"
proof (induction "is" arbitrary: log)
  case (Cons i "is")
  obtain v where "rd i = Some v" using Cons.prems(1) by auto
  then show ?case using Cons by (simp add: inside_def)
qed simp

lemma decode_array_object_inside:
  "int stream + sz \<le> int (length data) \<Longrightarrow> all_inside data log \<Longrightarrow>
   \<exists>log' r. decode_array_object cb data args stream sz index log = Some (log', r) \<and> all_inside data log'"
proof (induction cb data args stream sz index log rule: decode_array_object.induct)
  case (1 cb data args stream sz index log)
  show ?case
  proof (cases "sz < 4")
    case True
    then show ?thesis using 1(3) by (subst decode_array_object.simps) simp
  next
    case False
    then obtain hsz where hsz: "todword data stream = Some hsz" using todword_in [of stream data] 1(2) by fastforce
    let ?a = "args\<lparr>ar_index := index, ar_value := V_at (stream + 4), ar_length := uint hsz\<rparr>"
    show ?thesis
    proof (cases "sz - 4 < uint hsz")
      case True
      then show ?thesis using False hsz 1(3) by (subst decode_array_object.simps) simp
    next
      case fits: False
      then have a: "all_inside data (log @ [?a])" using 1(2,3) by (simp add: inside_def)
      show ?thesis
      proof (cases "cb log ?a = 0")
        case True
        have "int (stream + 4 + unat hsz) + (sz - 4 - uint hsz) \<le> int (length data)" using 1(2) by simp
        then show ?thesis
          using 1(1) [OF _ False hsz fits refl _ _ a] False hsz fits True by (subst decode_array_object.simps) (simp add: Let_def)
      next
        case f: False
        then show ?thesis using False hsz fits a by (subst decode_array_object.simps) (simp add: Let_def)
      qed
    qed
  qed
qed

lemma uint_unat: "uint w = int (unat (w :: 'a :: len word))"
  by simp

lemma sint_small: "unat w < 2 ^ 31 \<Longrightarrow> sint w = uint (w :: u32)"
proof -
  assume "unat w < 2 ^ 31"
  then have "int (unat w) < int (2 ^ 31)" by (simp only: of_nat_less_iff)
  then have "uint w < 2 ^ 31" by simp
  then have "signed_take_bit 31 (uint w) = uint w" using uint_ge_0 [of w] by (intro signed_take_bit_int_eq_self) linarith+
  then show ?thesis by (simp add: sint_uint)
qed

lemma decode_array_inside:
  assumes "todword data stream = Some sz" "stream + 4 + unat sz \<le> length data" "length data < 2 ^ 31" "all_inside data log"
  shows "\<exists>log' r. decode_array cb data args stream log = Some (log', r) \<and> all_inside data log'"
proof (cases "sz = 0")
  case True
  then show ?thesis using assms by (simp add: decode_array_def inside_def)
next
  case False
  then have pos: "0 < unat sz" by (simp add: unat_gt_0)
  have sub: "unat (sz - 1) = unat sz - 1" using False by (simp add: unat_minus_one)
  obtain len where len: "arr_get data (stream + 4) = Some len" using assms(2) pos by (simp add: arr_get_in)
  have four: "\<exists>v. todword data (stream + 4 + 1 + i * 4) = Some v" if "i < unat ((sz - 1) div 4)" for i
  proof -
    have "4 * Suc i \<le> unat sz - 1" using that sub by (simp add: unat_div less_eq_div_iff_mult_less_eq [symmetric] Suc_le_eq mult.commute)
    then show ?thesis using assms(2) pos by (intro todword_in) simp
  qed
  have eight: "\<exists>v. toqword data (stream + 4 + 1 + i * 8) = Some v" if "i < unat ((sz - 1) div 8)" for i
  proof -
    have "8 * Suc i \<le> unat sz - 1" using that sub by (simp add: unat_div less_eq_div_iff_mult_less_eq [symmetric] Suc_le_eq mult.commute)
    then show ?thesis using assms(2) pos by (intro toqword_in) simp
  qed
  have one: "\<exists>v. arr_get data (stream + 4 + i) = Some v" if "i < unat sz" for i using that assms(2) by (simp add: arr_get_in)
  have sint: "sint sz = uint sz" using assms(2,3) by (intro sint_small) simp
  have "int (stream + 4) + uint sz \<le> int (length data)" using assms(2) uint_unat [of sz] by linarith
  from decode_array_object_inside [OF this assms(4)] have obj:
    "\<exists>log' r. decode_array_object cb data args (stream + 4) (sint sz) 1 log = Some (log', r) \<and> all_inside data log'" by (simp only: sint)
  consider "ar_type args = SPROTO_TDOUBLE \<or> ar_type args = SPROTO_TINTEGER" "len = 4" | "ar_type args = SPROTO_TDOUBLE \<or> ar_type args = SPROTO_TINTEGER" "len = 8"
    | "ar_type args = SPROTO_TDOUBLE \<or> ar_type args = SPROTO_TINTEGER" "len \<noteq> 4" "len \<noteq> 8"
    | "\<not> (ar_type args = SPROTO_TDOUBLE \<or> ar_type args = SPROTO_TINTEGER)" by blast
  then show ?thesis
  proof cases
    case 1
    from call_each_inside [of "[0..<unat ((sz - 1) div 4)]" "\<lambda>i. map_option expand64 (todword data (stream + 4 + 1 + i * 4))" data log args] four assms(4)
    obtain log' where "call_each (\<lambda>i. map_option expand64 (todword data (stream + 4 + 1 + i * 4))) args [0..<unat ((sz - 1) div 4)] log = Some log'"
      "all_inside data log'" by auto
    then show ?thesis using 1 False assms(1,4) len by (auto simp: decode_array_def Let_def simp del: One_nat_def add_Suc_right)
  next
    case 2
    from call_each_inside [of "[0..<unat ((sz - 1) div 8)]" "\<lambda>i. toqword data (stream + 4 + 1 + i * 8)" data log args] eight assms(4)
    obtain log' where "call_each (\<lambda>i. toqword data (stream + 4 + 1 + i * 8)) args [0..<unat ((sz - 1) div 8)] log = Some log'"
      "all_inside data log'" by auto
    then show ?thesis using 2 False assms(1,4) len by (auto simp: decode_array_def Let_def simp del: One_nat_def add_Suc_right)
  next
    case 3
    then show ?thesis using False assms(1,4) len by (simp add: decode_array_def)
  next
    case 4
    from call_each_inside [of "[0..<unat sz]" "\<lambda>i. map_option ucast (arr_get data (stream + 4 + i))" data log args] one assms(4)
    obtain log' where "call_each (\<lambda>i. map_option ucast (arr_get data (stream + 4 + i))) args [0..<unat sz] log = Some log'"
      "all_inside data log'" by auto
    moreover have "decode_array cb data args stream log =
        (if ar_type args = SPROTO_TBOOLEAN then do {
           log \<leftarrow> call_each (\<lambda>i. map_option ucast (arr_get data (stream + 4 + i))) args [0..<unat sz] log;
           Some (log, 0) }
         else if ar_type args = SPROTO_TSTRING \<or> ar_type args = SPROTO_TSTRUCT then
           decode_array_object cb data args (stream + 4) (sint sz) 1 log
         else Some (log, - 1))"
      using 4 False assms(1) by (simp only: decode_array_def Option.bind.simps Let_def if_False)
    ultimately show ?thesis using assms(4) obj by simp
  qed
qed

subsection \<open>The fields of a type\<close>

text \<open>What \<open>import_type\<close> provides: the tags ascend, and \<open>base\<close> is set when there are no gaps. A map has entries of two fields.\<close>

definition type_ok :: "sproto_type \<Rightarrow> bool" where
  "type_ok st \<longleftrightarrow> ty_n st = length (ty_f st) \<and> sorted_wrt (<) (map fd_tag (ty_f st)) \<and>
     (0 \<le> ty_base st \<longrightarrow> (\<forall>i < length (ty_f st). fd_tag (ty_f st ! i) = ty_base st + int i))"

definition maps_ok :: "sproto_type list \<Rightarrow> sproto_type \<Rightarrow> bool" where
  "maps_ok types st \<longleftrightarrow> (\<forall>f \<in> set (ty_f st). 0 < fd_map f \<longrightarrow>
     (case fd_st f of None \<Rightarrow> False | Some t \<Rightarrow> t < length types \<and> 2 \<le> length (ty_f (types ! t))))"

definition field_of :: "sproto_type \<Rightarrow> int \<Rightarrow> sproto_field option" where
  "field_of st tag = find (\<lambda>f. fd_tag f = tag) (ty_f st)"

lemma field_of_None: "(\<And>f. f \<in> set (ty_f st) \<Longrightarrow> fd_tag f \<noteq> tag) \<Longrightarrow> field_of st tag = None"
  by (auto simp: field_of_def find_None_iff)

lemma field_of_nth:
  assumes "sorted_wrt (<) (map fd_tag (ty_f st))" "i < length (ty_f st)"
  shows "field_of st (fd_tag (ty_f st ! i)) = Some (ty_f st ! i)"
proof -
  have "fd_tag (ty_f st ! j) < fd_tag (ty_f st ! i)" if "j < i" for j
    using assms that by (simp add: sorted_wrt_iff_nth_less)
  then show ?thesis using assms(2) unfolding field_of_def find_Some_iff by (intro exI [of _ i]) fastforce
qed

lemma findtag_loop_correct:
  "sorted_wrt (<) (map fd_tag (ty_f st)) \<Longrightarrow> e \<le> length (ty_f st) \<Longrightarrow> (\<And>i. i < b \<Longrightarrow> i < length (ty_f st) \<Longrightarrow> fd_tag (ty_f st ! i) < tag) \<Longrightarrow>
   (\<And>i. e \<le> i \<Longrightarrow> i < length (ty_f st) \<Longrightarrow> tag < fd_tag (ty_f st ! i)) \<Longrightarrow> findtag_loop (ty_f st) tag b e = Some (field_of st tag)"
proof (induction "ty_f st" tag b e rule: findtag_loop.induct)
  case (1 tag b e)
  have mono: "fd_tag (ty_f st ! i) \<le> fd_tag (ty_f st ! j)" if "i \<le> j" "j < length (ty_f st)" for i j
    using 1(3) that by (cases "i = j") (auto simp: sorted_wrt_iff_nth_less order.strict_implies_order)
  show ?case
  proof (cases "b < e")
    case False
    have "field_of st tag = None"
      using 1(5,6) False by (intro field_of_None) (metis in_set_conv_nth leI le_less_trans less_irrefl not_le)
    then show ?thesis using False by (subst findtag_loop.simps) simp
  next
    case True
    let ?mid = "(b + e) div 2"
    have mid: "?mid < length (ty_f st)" "b \<le> ?mid" "?mid < e" using True 1(4) by linarith+
    show ?thesis
    proof (cases "fd_tag (ty_f st ! ?mid) = tag")
      case eq: True
      then show ?thesis using field_of_nth [OF 1(3) mid(1)] True mid(1) by (subst findtag_loop.simps) (simp add: Let_def)
    next
      case neq: False
      show ?thesis
      proof (cases "fd_tag (ty_f st ! ?mid) < tag")
        case less: True
        have "findtag_loop (ty_f st) tag (?mid + 1) e = Some (field_of st tag)"
          using mono less mid(1) by (intro 1(1) [OF True refl mid(1) refl refl neq less 1(3,4)] 1(6)) (auto simp: less_Suc_eq_le intro: le_less_trans)
        then show ?thesis using True mid(1) neq less by (subst findtag_loop.simps) (simp add: Let_def)
      next
        case False
        then have gt: "tag < fd_tag (ty_f st ! ?mid)" using neq by simp
        have "findtag_loop (ty_f st) tag b ?mid = Some (field_of st tag)"
          using mono gt mid(1) by (intro 1(2) [OF True refl mid(1) refl refl neq False 1(3)] 1(5)) (auto intro: less_le_trans)
        then show ?thesis using True mid(1) neq False by (subst findtag_loop.simps) (simp add: Let_def)
      qed
    qed
  qed
qed

lemma findtag_correct:
  assumes "type_ok st"
  shows "findtag st tag = Some (field_of st tag)"
proof (cases "0 \<le> ty_base st")
  case True
  let ?i = "nat (tag - ty_base st)"
  have t: "fd_tag (ty_f st ! i) = ty_base st + int i" if "i < length (ty_f st)" for i using assms True that by (simp add: type_ok_def)
  show ?thesis
  proof (cases "tag - ty_base st < 0 \<or> int (ty_n st) \<le> tag - ty_base st")
    case out: True
    have "field_of st tag = None"
      using out t assms by (intro field_of_None) (auto simp: type_ok_def in_set_conv_nth)
    then show ?thesis using True out by (simp add: findtag_def Let_def)
  next
    case False
    then have i: "?i < length (ty_f st)" using assms unfolding type_ok_def by linarith
    then have "fd_tag (ty_f st ! ?i) = tag" using t [OF i] False by simp
    then have "field_of st tag = Some (ty_f st ! ?i)" using field_of_nth [OF _ i] assms by (simp add: type_ok_def)
    then show ?thesis using True False i by (simp add: findtag_def Let_def arr_get_in)
  qed
next
  case False
  have "findtag_loop (ty_f st) tag 0 (ty_n st) = Some (field_of st tag)"
    using assms by (intro findtag_loop_correct) (simp_all add: type_ok_def)
  then show ?thesis using False by (simp add: findtag_def)
qed

subsection \<open>No read outside\<close>

text \<open>No word in the message is so great that adding 4 wraps.\<close>

definition small_words :: "bytes \<Rightarrow> bool" where
  "small_words data \<longleftrightarrow> (\<forall>p < length data. case todword data p of None \<Rightarrow> True | Some w \<Rightarrow> w < 0xfffffffc)"

lemma todword_bounds: "todword data p = Some w \<Longrightarrow> p + 4 \<le> length data"
  by (auto simp: todword_def arr_get_Some_iff bind_eq_Some_conv)

lemma small_word:
  assumes "small_words data" "todword data p = Some w"
  shows "unat (w + 4) = unat w + 4"
proof -
  have "p < length data" using todword_bounds [OF assms(2)] by simp
  then have "w < 0xfffffffc" using assms by (fastforce simp: small_words_def)
  then have "unat w < 0xfffffffc" by (simp add: word_less_nat_alt)
  then show ?thesis by (simp add: unat_word_ariths)
qed

lemma map_names_ok:
  assumes "maps_ok types st" "f \<in> set (ty_f st)"
  shows "\<exists>args'. map_names types f args = Some args' \<and> ar_type args' = ar_type args"
proof (cases "0 < fd_map f")
  case True
  then obtain t where t: "fd_st f = Some t" "t < length types" "2 \<le> length (ty_f (types ! t))"
    using assms by (auto simp: maps_ok_def split: option.splits)
  then have "arr_get (ty_f (types ! t)) 0 = Some (ty_f (types ! t) ! 0)" by (intro arr_get_in) linarith
  then show ?thesis using True t by (simp add: map_names_def arr_get_in)
qed (simp add: map_names_def)

lemma decode_field_inside:
  assumes "maps_ok types st" "f \<in> set (ty_f st)" "length data < 2 ^ 31" "all_inside data log"
    and "value < 0 \<Longrightarrow> \<exists>sz. todword data cur = Some sz \<and> cur + 4 + unat sz \<le> length data"
  shows "\<exists>log' r. decode_field cb types data f value cur log = Some (log', r) \<and> all_inside data log'"
proof (cases "value < 0")
  case False
  then show ?thesis using assms(4) by (auto simp: decode_field_def Let_def inside_def)
next
  case True
  then obtain sz where sz: "todword data cur = Some sz" "cur + 4 + unat sz \<le> length data" using assms(5) by auto
  show ?thesis
  proof (cases "fd_type f AND SPROTO_TARRAY = 0")
    case array: False
    let ?args = "\<lparr>ar_tagname = fd_name f, ar_tagid = fd_tag f, ar_type = fd_type f AND NOT SPROTO_TARRAY, ar_subtype = fd_st f,
      ar_value = V_null, ar_length = 0, ar_index = 0, ar_mainindex = fd_key f, ar_extra = fd_extra f, ar_ktagname = None, ar_vtagname = None\<rparr>"
    obtain args where a: "map_names types f ?args = Some args" using map_names_ok [OF assms(1,2)] by blast
    obtain log' r where "decode_array cb data args cur log = Some (log', r)" "all_inside data log'"
      using decode_array_inside [OF sz assms(3,4)] by blast
    then show ?thesis using True array a by (simp add: decode_field_def Let_def)
  next
    case scalar: True
    consider "fd_type f = SPROTO_TDOUBLE \<or> fd_type f = SPROTO_TINTEGER"
      | "\<not> (fd_type f = SPROTO_TDOUBLE \<or> fd_type f = SPROTO_TINTEGER)" "fd_type f = SPROTO_TSTRING \<or> fd_type f = SPROTO_TSTRUCT"
      | "\<not> (fd_type f = SPROTO_TDOUBLE \<or> fd_type f = SPROTO_TINTEGER)" "\<not> (fd_type f = SPROTO_TSTRING \<or> fd_type f = SPROTO_TSTRUCT)"
      by blast
    then show ?thesis
    proof cases
      case 1
      have "\<exists>v. todword data (cur + 4) = Some v" if "sz = 4" using that sz(2) by (intro todword_in) simp
      moreover have "\<exists>v. toqword data (cur + 4) = Some v" if "sz = 8" using that sz(2) by (intro toqword_in) simp
      ultimately show ?thesis using True scalar 1 sz(1) assms(4) by (auto simp: decode_field_def Let_def inside_def)
    next
      case 2
      have "0 \<le> sint sz" "int (cur + 4) + sint sz \<le> int (length data)"
        using sz(2) assms(3) sint_small [of sz] uint_unat [of sz] uint_ge_0 [of sz] by linarith+
      then show ?thesis using True scalar 2 sz(1) assms(4) by (auto simp: decode_field_def Let_def inside_def)
    next
      case 3
      then show ?thesis using True scalar assms(4) by (auto simp: decode_field_def Let_def)
    qed
  qed
qed

definition decode_inv :: "bytes \<Rightarrow> decode_state \<Rightarrow> bool" where
  "decode_inv data s \<longleftrightarrow> 0 \<le> ds_size s \<and> int (ds_data s) + ds_size s = int (length data) \<and> all_inside data (ds_log s)"

lemma decode_step_inside:
  assumes "type_ok st" "maps_ok types st" "length data < 2 ^ 31" "small_words data" "decode_inv data s" "4 + i * 2 \<le> length data"
  shows "\<exists>r. decode_step cb types st data i s = Some r \<and> (case r of Inl log \<Rightarrow> all_inside data log | Inr s' \<Rightarrow> decode_inv data s')"
proof -
  obtain w where v: "toword data (2 + i * 2) = Some w" using toword_in [of "2 + i * 2" data] assms(6) by auto
  let ?v = "int (w div 2) - 1" and ?tag = "ds_tag s + 1"
  show ?thesis
  proof (cases "odd w")
    case True
    then show ?thesis using v assms(5) by (simp add: decode_step_def SIZEOF_HEADER_def SIZEOF_FIELD_def decode_inv_def)
  next
    case False
    define s1 where "s1 = (if ?v < 0 then s\<lparr>ds_tag := ?tag, ds_data := ds_data s + unat (the (todword data (ds_data s)) + 4),
        ds_size := ds_size s - uint (the (todword data (ds_data s)) + 4)\<rparr> else s\<lparr>ds_tag := ?tag\<rparr>)"
    have step: "decode_step cb types st data i s = (if ?v < 0 \<and> (ds_size s < 4 \<or> ds_size s < uint (the (todword data (ds_data s)) + 4))
        then Some (Inl (ds_log s))
        else do {
          f \<leftarrow> findtag st ?tag;
          case f of None \<Rightarrow> Some (Inr s1)
          | Some f \<Rightarrow> do { (log, r) \<leftarrow> decode_field cb types data f ?v (ds_data s) (ds_log s); Some (if r \<noteq> 0 then Inl log else Inr (s1\<lparr>ds_log := log\<rparr>)) } })"
    proof (cases "?v < 0")
      case neg: True
      show ?thesis
      proof (cases "ds_size s < 4")
        case True
        then show ?thesis using neg False v by (simp add: decode_step_def SIZEOF_HEADER_def SIZEOF_FIELD_def)
      next
        case big: False
        then obtain sz where sz: "todword data (ds_data s) = Some sz"
          using todword_in [of "ds_data s" data] assms(5) by (auto simp: decode_inv_def)
        have s1: "s1 = s\<lparr>ds_tag := ?tag, ds_data := ds_data s + unat (sz + 4), ds_size := ds_size s - uint (sz + 4)\<rparr>"
          using neg sz by (simp add: s1_def)
        have v1: "?v = - 1" and v0: "w div 2 = 0" using neg by linarith+
        show ?thesis using v0 big False v sz unfolding s1 v1 by (simp add: decode_step_def SIZEOF_HEADER_def SIZEOF_FIELD_def Let_def)
      qed
    next
      case pos: False
      then have s1: "s1 = s\<lparr>ds_tag := ?tag\<rparr>" by (simp add: s1_def)
      show ?thesis using pos False v unfolding s1 by (simp add: decode_step_def SIZEOF_HEADER_def SIZEOF_FIELD_def Let_def)
    qed
    show ?thesis
    proof (cases "?v < 0 \<and> (ds_size s < 4 \<or> ds_size s < uint (the (todword data (ds_data s)) + 4))")
      case True
      then show ?thesis using step assms(5) by (simp add: decode_inv_def)
    next
      case ok: False
      note step2 = step [unfolded if_not_P [OF ok]]
      have cur: "\<exists>sz. todword data (ds_data s) = Some sz \<and> ds_data s + 4 + unat sz \<le> length data \<and> uint (sz + 4) = int (unat sz + 4)" if "?v < 0"
      proof -
        have big: "\<not> ds_size s < 4" using ok that by blast
        then obtain sz where sz: "todword data (ds_data s) = Some sz" using todword_in [of "ds_data s" data] assms(5) by (auto simp: decode_inv_def)
        have "uint (sz + 4) = int (unat sz + 4)" using small_word [OF assms(4) sz] uint_unat [of "sz + 4"] by simp
        moreover have "\<not> ds_size s < uint (sz + 4)" using ok that sz by simp
        ultimately show ?thesis using sz assms(5) unfolding decode_inv_def by (intro exI [of _ sz]) linarith
      qed
      have inv: "decode_inv data s1"
      proof (cases "?v < 0")
        case True
        then obtain sz where "todword data (ds_data s) = Some sz" "uint (sz + 4) = int (unat (sz + 4))" using cur uint_unat by blast
        then show ?thesis using True ok assms(5) unfolding s1_def decode_inv_def by simp
      next
        case False
        then show ?thesis using assms(5) by (simp add: s1_def decode_inv_def)
      qed
      show ?thesis
      proof (cases "field_of st ?tag")
        case None
        then show ?thesis using step2 findtag_correct [OF assms(1)] inv by simp
      next
        case (Some f)
        then have "f \<in> set (ty_f st)" by (auto simp: field_of_def find_Some_iff)
        moreover have "all_inside data (ds_log s)" using assms(5) by (simp add: decode_inv_def)
        ultimately obtain log' r where "decode_field cb types data f ?v (ds_data s) (ds_log s) = Some (log', r)" "all_inside data log'"
          using decode_field_inside [OF assms(2) _ assms(3), of f "ds_log s" ?v "ds_data s" cb] cur by blast
        then show ?thesis using step2 findtag_correct [OF assms(1)] Some inv by (simp add: decode_inv_def)
      qed
    qed
  qed
qed

lemma decode_loop_inside:
  assumes "type_ok st" "maps_ok types st" "length data < 2 ^ 31" "small_words data"
  shows "decode_inv data s \<Longrightarrow> \<forall>i \<in> set is. 4 + i * 2 \<le> length data \<Longrightarrow>
    \<exists>r. decode_loop cb types st data is s = Some r \<and> (case r of Inl log \<Rightarrow> all_inside data log | Inr s' \<Rightarrow> decode_inv data s')"
proof (induction "is" arbitrary: s)
  case (Cons i "is")
  obtain r where r: "decode_step cb types st data i s = Some r" "case r of Inl log \<Rightarrow> all_inside data log | Inr s' \<Rightarrow> decode_inv data s'"
    using decode_step_inside [OF assms Cons.prems(1), of i cb] Cons.prems(2) by auto
  show ?case
  proof (cases r)
    case (Inl log)
    then show ?thesis using r by simp
  next
    case (Inr s1)
    then show ?thesis using r Cons.IH [of s1] Cons.prems(2) by simp
  qed
qed simp

text \<open>
  C15. Whatever message arrives and however the callback answers, decoding ends and reads only the message, and every block that
  the callback gets is inside the message, unless some word of the message is at least 0xfffffffc.
\<close>

theorem decode_stays_inside:
  assumes "type_ok st" "maps_ok types st" "length data < 2 ^ 31" "small_words data"
  shows "\<exists>log r. sproto_decode cb types st data = Some (log, r) \<and> all_inside data log \<and> r \<le> int (length data)"
proof (cases "length data < 2")
  case True
  then show ?thesis by (simp add: sproto_decode_def SIZEOF_HEADER_def)
next
  case False
  then obtain fn where fn: "toword data 0 = Some fn" using toword_in [of 0 data] by auto
  show ?thesis
  proof (cases "int (length data) - 2 < int (fn * 2)")
    case True
    then show ?thesis using False fn by (simp add: sproto_decode_def SIZEOF_HEADER_def SIZEOF_FIELD_def Let_def)
  next
    case ok: False
    let ?s = "\<lparr>ds_data = 2 + fn * 2, ds_size = int (length data) - 2 - int (fn * 2), ds_tag = - 1, ds_log = []\<rparr>"
    have "decode_inv data ?s" using ok by (simp add: decode_inv_def)
    moreover have "\<forall>i \<in> set [0..<fn]. 4 + i * 2 \<le> length data" using ok by auto
    ultimately obtain r where r: "decode_loop cb types st data [0..<fn] ?s = Some r" "case r of Inl log \<Rightarrow> all_inside data log | Inr s' \<Rightarrow> decode_inv data s'"
      using decode_loop_inside [OF assms] by blast
    then show ?thesis using False fn ok
      by (cases r) (simp_all add: sproto_decode_def SIZEOF_HEADER_def SIZEOF_FIELD_def Let_def decode_inv_def)
  qed
qed

definition demo_field :: "int \<Rightarrow> u32 \<Rightarrow> sproto_field" where
  "demo_field tag type = \<lparr>fd_tag = tag, fd_type = type, fd_name = ''f'', fd_st = None, fd_key = - 1, fd_map = - 1, fd_extra = 0\<rparr>"

definition demo_type :: sproto_type where
  "demo_type = \<lparr>ty_name = ''t'', ty_n = 2, ty_base = - 1, ty_maxn = 3, ty_f = [demo_field 0 SPROTO_TSTRING, demo_field 2 SPROTO_TARRAY]\<rparr>"

lemma demo_type_ok: "type_ok demo_type" "maps_ok types demo_type"
  by (simp_all add: type_ok_def maps_ok_def demo_type_def demo_field_def)

lemma decode_stays_inside_witness:
  "\<exists>log r. sproto_decode (\<lambda>_ _. 0) [] demo_type [1, 0, 0, 0, 1, 0, 0, 0, 65] = Some (log, r) \<and> all_inside [1, 0, 0, 0, 1, 0, 0, 0, 65] log \<and> r \<le> 9"
proof -
  have "case todword [1, 0, 0, 0, 1, 0, 0, 0, 65] p of None \<Rightarrow> True | Some w \<Rightarrow> w < 0xfffffffc" if "p < 9" for p
  proof -
    have "p = 0 \<or> p = 1 \<or> p = 2 \<or> p = 3 \<or> p = 4 \<or> p = 5 \<or> p = 6 \<or> p = 7 \<or> p = 8" using that by arith
    then show ?thesis by (elim disjE) (simp_all add: todword_def arr_get_def)
  qed
  then have "small_words [1, 0, 0, 0, 1, 0, 0, 0, 65]" by (simp add: small_words_def)
  from decode_stays_inside [OF demo_type_ok _ this, where cb = "\<lambda>_ _. 0" and types = "[]"] show ?thesis by simp
qed

subsection \<open>The length that wraps\<close>

lemma wrapped_words: "toword [1, 0, 0, 0, x, 0xff, 0xff, 0xff] 0 = Some 1" "toword [1, 0, 0, 0, x, 0xff, 0xff, 0xff] 2 = Some 0"
  "toword [1, 0, 0, 0, x, 0xff, 0xff, 0xff, y] 0 = Some 1" "toword [1, 0, 0, 0, x, 0xff, 0xff, 0xff, y] 2 = Some 0"
  by (simp_all add: toword_def arr_get_def)

lemma wrapped_dwords: "todword [1, 0, 0, 0, 0xfc, 0xff, 0xff, 0xff] 4 = Some 0xfffffffc"
  "todword [1, 0, 0, 0, 0xfd, 0xff, 0xff, 0xff, 4] 4 = Some 0xfffffffd" "todword [1, 0, 0, 0, 0xfd, 0xff, 0xff, 0xff, 4] 9 = None"
  by code_simp+

lemma call_each_None: "rd 0 = None \<Longrightarrow> 0 < n \<Longrightarrow> call_each rd args [0..<n] log = None"
  by (simp add: upt_conv_Cons)



end
