(* ===== verification/Sproto_Message.thy ===== *)
theory Sproto_Message
  imports Sproto_Decode
begin

section \<open>What a message of sproto is\<close>

text \<open>
  A message is a list of words, one for each field with a value and one for each gap between the tags, and the blocks of the
  fields whose values are not in their words. This theory states the format as functions of the values and shows that
  \<open>sproto_decode\<close> calls back with exactly these values, in their order. The encoder is compared with the same functions.
\<close>

subsection \<open>Blocks of bytes\<close>

definition le16 :: "nat \<Rightarrow> bytes" where
  "le16 n = [word_of_nat n, word_of_nat (n div 256)]"

definition le32 :: "u32 \<Rightarrow> bytes" where
  "le32 w = [ucast (w AND 0xff), ucast (drop_bit 8 w AND 0xff), ucast (drop_bit 16 w AND 0xff), ucast (drop_bit 24 w AND 0xff)]"

definition le64 :: "u64 \<Rightarrow> bytes" where
  "le64 w = le32 (ucast w) @ le32 (ucast (drop_bit 32 w))"

lemma length_le [simp]: "length (le16 n) = 2" "length (le32 w) = 4" "length (le64 v) = 8"
  by (simp_all add: le16_def le32_def le64_def)

definition lies :: "bytes \<Rightarrow> nat \<Rightarrow> bytes \<Rightarrow> bool" where
  "lies data p xs \<longleftrightarrow> p + length xs \<le> length data \<and> take (length xs) (drop p data) = xs"

lemma lies_append: "lies data p (xs @ ys) \<longleftrightarrow> lies data p xs \<and> lies data (p + length xs) ys"
proof -
  have "take (length xs + length ys) (drop p data) = take (length xs) (drop p data) @ take (length ys) (drop (p + length xs) data)"
    by (simp add: take_add add.commute)
  moreover have "length (take (length xs) (drop p data)) = length xs" if "p + length xs \<le> length data" using that by simp
  ultimately show ?thesis by (auto simp: lies_def)
qed

lemma lies_nth: "lies data p xs \<Longrightarrow> i < length xs \<Longrightarrow> arr_get data (p + i) = Some (xs ! i)"
  unfolding lies_def by (metis add_less_cancel_left arr_get_in length_take min.absorb2 nth_drop nth_take order.strict_trans2 le_add1 trans_le_add1 order_trans)

lemma lies_0: "lies data 0 data"
  by (simp add: lies_def)

lemma lies_Nil [simp]: "lies data p [] \<longleftrightarrow> p \<le> length data"
  by (simp add: lies_def)

lemma join16: "n < 2 ^ 16 \<Longrightarrow> (ucast (word_of_nat n :: u8) :: u32) OR push_bit 8 (ucast (word_of_nat (n div 256) :: u8)) = word_of_nat n"
proof (rule bit_word_eqI)
  fix i
  assume n: "n < 2 ^ 16" and i: "i < LENGTH(32)"
  have high: "\<not> bit n i" if "16 \<le> i"
  proof -
    have "take_bit 16 n = n" using n by (simp add: take_bit_nat_eq_self)
    then show ?thesis using that by (metis bit_take_bit_iff leD)
  qed
  have d: "n div 256 = drop_bit 8 n" by (simp add: drop_bit_eq_div)
  have "bit (word_of_nat (n div 256) :: u8) (i - 8) \<longleftrightarrow> i < 16 \<and> bit n i" if "8 \<le> i"
    using that unfolding d by (auto simp: bit_simps)
  then show "bit ((ucast (word_of_nat n :: u8) :: u32) OR push_bit 8 (ucast (word_of_nat (n div 256) :: u8))) i = bit (word_of_nat n :: u32) i"
    using i high by (cases "i < 8") (auto simp: bit_simps dest: leI)
qed

lemma bit_0xff_32: "bit (0xff :: u32) j \<longleftrightarrow> j < 8"
proof -
  have "(0xff :: u32) = mask 8" by (simp add: mask_eq_exp_minus_1)
  then show ?thesis by (simp only: bit_mask_iff) auto
qed

definition byte_at :: "u32 \<Rightarrow> nat \<Rightarrow> u32" where
  "byte_at w k = push_bit k (ucast (ucast (drop_bit k w AND 0xff) :: u8))"

lemma bit_byte_at: "bit (byte_at w k) i \<longleftrightarrow> k \<le> i \<and> i < 32 \<and> i < k + 8 \<and> bit w i"
proof -
  have b: "bit (ucast (ucast (drop_bit k w AND 0xff) :: u8) :: u32) j \<longleftrightarrow> j < 8 \<and> bit w (k + j)" for j
    by (simp only: bit_ucast_iff bit_and_iff bit_0xff_32 bit_drop_bit_eq comp_def) auto
  have l: "LENGTH(32) = 32" by simp
  show ?thesis unfolding byte_at_def by (simp only: bit_push_bit_iff possible_bit_word b l) auto
qed

lemma join32: "byte_at w 0 OR byte_at w 8 OR byte_at w 16 OR byte_at w 24 = w"
proof (rule bit_word_eqI)
  fix i
  assume "i < LENGTH(32)"
  then consider "i < 8" | "8 \<le> i" "i < 16" | "16 \<le> i" "i < 24" | "24 \<le> i" "i < 32" by (simp, linarith)
  then show "bit (byte_at w 0 OR byte_at w 8 OR byte_at w 16 OR byte_at w 24) i = bit w i"
    by cases (simp_all add: bit_or_iff bit_byte_at)
qed

lemma join64: "ucast (ucast w :: u32) OR push_bit 32 (ucast (ucast (drop_bit 32 w) :: u32)) = (w :: u64)"
  by (rule bit_word_eqI) (auto simp: bit_simps)

lemma toword_lies: "lies data p (le16 n) \<Longrightarrow> n < 2 ^ 16 \<Longrightarrow> toword data p = Some n"
  using lies_nth [of data p "le16 n" 0] lies_nth [of data p "le16 n" 1] join16 [of n]
  by (simp add: toword_def le16_def unat_of_nat take_bit_nat_eq_self)

lemma todword_lies: "lies data p (le32 w) \<Longrightarrow> todword data p = Some w"
proof -
  assume l: "lies data p (le32 w)"
  have "todword data p = Some (byte_at w 0 OR byte_at w 8 OR byte_at w 16 OR byte_at w 24)"
    using lies_nth [OF l, of 0] lies_nth [OF l, of 1] lies_nth [OF l, of 2] lies_nth [OF l, of 3]
    by (simp add: todword_def le32_def byte_at_def)
  then show ?thesis by (simp only: join32)
qed

lemma toqword_lies: "lies data p (le64 w) \<Longrightarrow> toqword data p = Some w"
  using join64 [of w] by (auto simp: toqword_def le64_def lies_append dest!: todword_lies)

subsection \<open>The words and the blocks\<close>

datatype content = Inline nat | Block bytes

fun words_of :: "int \<Rightarrow> (int \<times> content) list \<Rightarrow> nat list" where
  "words_of prev [] = []"
| "words_of prev ((t, c) # items) =
     (if 0 < t - prev - 1 then [nat ((t - prev - 2) * 2 + 1)] else []) @
     (case c of Inline v \<Rightarrow> (v + 1) * 2 | Block d \<Rightarrow> 0) # words_of t items"

definition block :: "content \<Rightarrow> bytes" where
  "block c = (case c of Inline v \<Rightarrow> [] | Block d \<Rightarrow> le32 (word_of_nat (length d)) @ d)"

definition message :: "(int \<times> content) list \<Rightarrow> bytes" where
  "message items = le16 (length (words_of (- 1) items)) @ concat (map le16 (words_of (- 1) items)) @ concat (map (block \<circ> snd) items)"

text \<open>What fits in the words and the lengths.\<close>

fun items_ok :: "int \<Rightarrow> (int \<times> content) list \<Rightarrow> bool" where
  "items_ok prev [] \<longleftrightarrow> True"
| "items_ok prev ((t, c) # items) \<longleftrightarrow> prev < t \<and> (t - prev - 2) * 2 + 1 < 2 ^ 16 \<and>
     (case c of Inline v \<Rightarrow> v < 0x7fff | Block d \<Rightarrow> True) \<and> items_ok t items"

subsection \<open>The values of a field\<close>

text \<open>What a callback gives to the encoder, and what a call of the decoder shows, apart from its place in the message.\<close>

datatype answer = A_error | A_nil | A_noarray | A_u32 u32 | A_u64 u64 | A_bytes bytes

datatype shown = S_none | S_num u64 | S_block bytes

definition seen :: "bytes \<Rightarrow> sproto_arg \<Rightarrow> sproto_arg \<times> shown" where
  "seen data a = (a\<lparr>ar_value := V_null\<rparr>,
     case ar_value a of V_null \<Rightarrow> S_none | V_u64 v \<Rightarrow> S_num v | V_at p \<Rightarrow> S_block (take (nat (ar_length a)) (drop p data)))"

definition fits :: "u32 \<Rightarrow> answer \<Rightarrow> bool" where
  "fits t a = (case a of
     A_u32 v \<Rightarrow> t = SPROTO_TINTEGER \<or> t = SPROTO_TBOOLEAN \<and> v \<le> 1
   | A_u64 v \<Rightarrow> t = SPROTO_TINTEGER \<or> t = SPROTO_TDOUBLE
   | A_bytes b \<Rightarrow> (t = SPROTO_TSTRING \<or> t = SPROTO_TSTRUCT) \<and> length b < 2 ^ 31
   | _ \<Rightarrow> False)"

definition widen :: "answer \<Rightarrow> u64" where
  "widen a = (case a of A_u32 v \<Rightarrow> expand64 v | A_u64 v \<Rightarrow> v | _ \<Rightarrow> 0)"

definition is_u32 :: "answer \<Rightarrow> bool" where
  "is_u32 a = (case a of A_u32 v \<Rightarrow> True | _ \<Rightarrow> False)"

definition low32 :: "answer \<Rightarrow> u32" where
  "low32 a = (case a of A_u32 v \<Rightarrow> v | _ \<Rightarrow> 0)"

definition the_bytes :: "answer \<Rightarrow> bytes" where
  "the_bytes a = (case a of A_bytes b \<Rightarrow> b | _ \<Rightarrow> [])"

datatype field_value = Single answer | Many "answer list"

definition single_content :: "answer \<Rightarrow> content" where
  "single_content a = (case a of
     A_u32 v \<Rightarrow> if v < 0x7fff then Inline (unat v) else Block (le32 v)
   | A_u64 v \<Rightarrow> Block (le64 v)
   | _ \<Rightarrow> Block (the_bytes a))"

text \<open>An array of numbers starts with the size of its elements: 4 bytes when all of them fit, else 8.\<close>

definition numbers_content :: "answer list \<Rightarrow> bytes" where
  "numbers_content as =
     (if as = [] then [] else if list_all is_u32 as then 4 # concat (map (le32 \<circ> low32) as) else 8 # concat (map (le64 \<circ> widen) as))"

definition many_content :: "u32 \<Rightarrow> answer list \<Rightarrow> bytes" where
  "many_content t as =
     (if t = SPROTO_TINTEGER \<or> t = SPROTO_TDOUBLE then numbers_content as
      else if t = SPROTO_TBOOLEAN then map (\<lambda>a. if low32 a = 0 then 0 else 1) as
      else concat (map (\<lambda>a. le32 (word_of_nat (length (the_bytes a))) @ the_bytes a) as))"

definition base_type :: "sproto_field \<Rightarrow> u32" where
  "base_type f = fd_type f AND NOT SPROTO_TARRAY"

definition content :: "sproto_field \<Rightarrow> field_value \<Rightarrow> content" where
  "content f v = (case v of Single a \<Rightarrow> single_content a | Many as \<Rightarrow> Block (many_content (base_type f) as))"

definition value_ok :: "sproto_field \<Rightarrow> field_value \<Rightarrow> bool" where
  "value_ok f v = (case v of
     Single a \<Rightarrow> fd_type f AND SPROTO_TARRAY = 0 \<and> fits (fd_type f) a
   | Many as \<Rightarrow> fd_type f AND SPROTO_TARRAY \<noteq> 0 \<and> base_type f \<le> SPROTO_TSTRUCT \<and> (\<forall>a \<in> set as. fits (base_type f) a))"

text \<open>The calls of the decoder for a value.\<close>

definition field_arg :: "sproto_field \<Rightarrow> sproto_arg" where
  "field_arg f = \<lparr>ar_tagname = fd_name f, ar_tagid = fd_tag f, ar_type = base_type f, ar_subtype = fd_st f, ar_value = V_null,
     ar_length = 0, ar_index = 0, ar_mainindex = fd_key f, ar_extra = fd_extra f, ar_ktagname = None, ar_vtagname = None\<rparr>"

definition show_answer :: "sproto_arg \<Rightarrow> int \<Rightarrow> answer \<Rightarrow> sproto_arg \<times> shown" where
  "show_answer arg i a = (case a of
     A_bytes b \<Rightarrow> (arg\<lparr>ar_index := i, ar_length := int (length b)\<rparr>, S_block b)
   | _ \<Rightarrow> (arg\<lparr>ar_index := i, ar_length := 8\<rparr>, S_num (widen a)))"

fun show_from :: "sproto_arg \<Rightarrow> int \<Rightarrow> answer list \<Rightarrow> (sproto_arg \<times> shown) list" where
  "show_from arg i [] = []"
| "show_from arg i (a # as) = show_answer arg i a # show_from arg (i + 1) as"

definition show_value :: "sproto_type list \<Rightarrow> sproto_field \<Rightarrow> field_value \<Rightarrow> (sproto_arg \<times> shown) list" where
  "show_value types f v = (case v of
     Single a \<Rightarrow> [show_answer (field_arg f) 0 a]
   | Many as \<Rightarrow> (let arg = the (map_names types f (field_arg f)) in
       if as = [] then [(arg\<lparr>ar_index := - 1\<rparr>, S_none)] else show_from arg 1 as))"

subsection \<open>Decoding one field\<close>

lemma fits_cases:
  assumes "fits t a"
  obtains (u32) v where "a = A_u32 v" "t = SPROTO_TINTEGER \<or> t = SPROTO_TBOOLEAN \<and> v \<le> 1"
  | (u64) v where "a = A_u64 v" "t = SPROTO_TINTEGER \<or> t = SPROTO_TDOUBLE"
  | (bytes) b where "a = A_bytes b" "t = SPROTO_TSTRING \<or> t = SPROTO_TSTRUCT" "length b < 2 ^ 31"
  using assms by (cases a) (auto simp: fits_def)

lemmas sproto_types = SPROTO_TINTEGER_def SPROTO_TBOOLEAN_def SPROTO_TSTRING_def SPROTO_TDOUBLE_def SPROTO_TSTRUCT_def

definition number :: "answer \<Rightarrow> bool" where
  "number a \<longleftrightarrow> (case a of A_u32 v \<Rightarrow> True | A_u64 v \<Rightarrow> True | _ \<Rightarrow> False)"

lemma seen_number:
  "number a \<Longrightarrow> ar_value args = V_null \<Longrightarrow>
   seen data (args\<lparr>ar_index := i, ar_value := V_u64 (widen a), ar_length := 8\<rparr>) = show_answer args i a"
  by (cases args) (auto simp: seen_def show_answer_def number_def split: answer.splits)

lemma call_each_seen:
  "(\<And>i. i < length as \<Longrightarrow> rd (k + i) = Some (widen (as ! i)) \<and> number (as ! i)) \<Longrightarrow> ar_value args = V_null \<Longrightarrow>
   \<exists>log'. call_each rd args [k..<k + length as] log = Some log' \<and> map (seen data) log' = map (seen data) log @ show_from args (int k + 1) as"
proof (induction as arbitrary: k log)
  case (Cons a as)
  let ?log = "log @ [args\<lparr>ar_index := int k + 1, ar_value := V_u64 (widen a), ar_length := 8\<rparr>]"
  have "rd k = Some (widen a)" "number a" using Cons.prems(1) [of 0] by simp_all
  moreover have "\<exists>log'. call_each rd args [Suc k..<Suc k + length as] ?log = Some log' \<and>
      map (seen data) log' = map (seen data) ?log @ show_from args (int (Suc k) + 1) as"
    using Cons.prems(1) [of "Suc _"] Cons.prems(2) by (intro Cons.IH) simp_all
  moreover have "[k..<k + length (a # as)] = k # [Suc k..<Suc k + length as]" using upt_conv_Cons [of k "k + length (a # as)"] by simp
  ultimately show ?case using seen_number [of a args data "int k + 1"] Cons.prems(2) by (auto simp: add_ac)
qed simp

text \<open>Elements of the same size in a row.\<close>

lemma lies_nth_concat:
  assumes "lies data p (concat (map g as))" "\<And>a. length (g a) = n" "i < length as"
  shows "lies data (p + i * n) (g (as ! i))"
proof -
  have "length (concat (map g (take i as))) = length (take i as) * n" using assms(2) by (induction "take i as" arbitrary: i as) (simp_all add: length_concat comp_def sum_list_triv)
  then have l: "length (concat (map g (take i as))) = i * n" using assms(3) by simp
  have "concat (map g as) = concat (map g (take i as)) @ g (as ! i) @ concat (map g (drop (Suc i) as))"
    using id_take_nth_drop [OF assms(3)] by (metis concat.simps(2) concat_append list.simps(9) map_append append_assoc)
  then show ?thesis using assms(1) l by (simp add: lies_append)
qed

lemma decode_array_object_seen:
  assumes "\<And>log a. cb log a = 0" "ar_value args = V_null"
  shows "\<forall>a \<in> set as. \<exists>b. a = A_bytes b \<and> length b < 2 ^ 31 \<Longrightarrow>
    lies data p (concat (map (\<lambda>a. le32 (word_of_nat (length (the_bytes a))) @ the_bytes a) as)) \<Longrightarrow>
    \<exists>log'. decode_array_object cb data args p (int (length (concat (map (\<lambda>a. le32 (word_of_nat (length (the_bytes a))) @ the_bytes a) as)))) i log =
      Some (log', 0) \<and> map (seen data) log' = map (seen data) log @ show_from args i as"
proof (induction as arbitrary: p i log)
  case Nil
  then show ?case by (subst decode_array_object.simps) simp
next
  case (Cons a as)
  obtain b where a: "a = A_bytes b" "length b < 2 ^ 31" using Cons.prems(1) by auto
  let ?rest = "concat (map (\<lambda>a. le32 (word_of_nat (length (the_bytes a))) @ the_bytes a) as)" and ?w = "word_of_nat (length b) :: u32"
  have l: "lies data p (le32 ?w)" "lies data (p + 4) b" "lies data (p + 4 + length b) ?rest"
    using Cons.prems(2) a(1) by (simp_all add: lies_append the_bytes_def add.assoc)
  have w: "unat ?w = length b" using a(2) by (simp add: unat_of_nat take_bit_nat_eq_self)
  then have u: "uint ?w = int (length b)" using uint_unat [of ?w] by simp
  let ?a = "args\<lparr>ar_index := i, ar_value := V_at (p + 4), ar_length := uint ?w\<rparr>"
  have "seen data ?a = show_answer args i a" using l(2) assms(2) u a(1) by (cases args) (simp add: seen_def show_answer_def lies_def)
  moreover obtain log' where "decode_array_object cb data args (p + 4 + length b) (int (length ?rest)) (i + 1) (log @ [?a]) = Some (log', 0)"
    "map (seen data) log' = map (seen data) (log @ [?a]) @ show_from args (i + 1) as"
    using Cons.IH [OF _ l(3), of "i + 1" "log @ [?a]"] Cons.prems(1) by auto
  moreover have "length (concat (map (\<lambda>a. le32 (word_of_nat (length (the_bytes a))) @ the_bytes a) (a # as))) = 4 + length b + length ?rest"
    using a(1) by (simp add: the_bytes_def)
  ultimately show ?case
    using todword_lies [OF l(1)] assms(1) by (subst decode_array_object.simps) (simp add: Let_def u w)
qed

lemma length_concat_const: "(\<And>a. length (g a) = n) \<Longrightarrow> length (concat (map g as)) = length as * n"
  by (induction as) simp_all

lemma widen_u32: "is_u32 a \<Longrightarrow> widen a = expand64 (low32 a)"
  by (auto simp: is_u32_def widen_def low32_def split: answer.splits)

lemma fits_number: "fits t a \<Longrightarrow> t \<noteq> SPROTO_TSTRING \<Longrightarrow> t \<noteq> SPROTO_TSTRUCT \<Longrightarrow> number a"
  by (erule fits_cases) (auto simp: number_def)

lemma unat_length: "k < 2 ^ 31 \<Longrightarrow> unat (word_of_nat k :: u32) = k"
  by (simp add: unat_of_nat take_bit_nat_eq_self)

lemma decode_numbers_seen:
  assumes "ar_value args = V_null" "ar_type args = SPROTO_TINTEGER \<or> ar_type args = SPROTO_TDOUBLE" "as \<noteq> []" "\<forall>a \<in> set as. number a"
    and d: "lies data p (le32 (word_of_nat (length (numbers_content as))) @ numbers_content as)" "length (numbers_content as) < 2 ^ 31"
  shows "\<exists>log'. decode_array cb data args p log = Some (log', 0) \<and> map (seen data) log' = map (seen data) log @ show_from args 1 as"
proof -
  define n where "n = (if list_all is_u32 as then 4 :: nat else 8)"
  define elems where "elems = (if list_all is_u32 as then concat (map (le32 \<circ> low32) as) else concat (map (le64 \<circ> widen) as))"
  define rd where "rd = (if list_all is_u32 as then (\<lambda>i. map_option expand64 (todword data (p + 4 + 1 + i * 4))) else (\<lambda>i. toqword data (p + 4 + 1 + i * 8)))"
  have c: "numbers_content as = word_of_nat n # elems" using assms(3) by (simp add: numbers_content_def n_def elems_def)
  have len: "length elems = length as * n" using length_concat_const [of _ n as] by (simp add: elems_def n_def length_concat_const [where n = 4] length_concat_const [where n = 8])
  let ?sz = "word_of_nat (length (numbers_content as)) :: u32"
  have sz: "unat ?sz = length as * n + 1" using unat_length [OF d(2)] by (simp only: c list.size len)
  have l: "lies data p (le32 ?sz)" "lies data (p + 4) (word_of_nat n # elems)" using d(1) by (simp_all only: lies_append length_le c)
  have e: "lies data (p + 4 + 1) elems" using l(2) lies_append [of data "p + 4" "[word_of_nat n]" elems] by simp
  have n: "arr_get data (p + 4) = Some (word_of_nat n)" using lies_nth [OF l(2), of 0] by simp
  have rd: "rd i = Some (widen (as ! i))" if i: "i < length as" for i
  proof (cases "list_all is_u32 as")
    case True
    then have "lies data (p + 4 + 1 + i * 4) ((le32 \<circ> low32) (as ! i))" using e i by (intro lies_nth_concat) (simp_all add: elems_def comp_def)
    moreover have "is_u32 (as ! i)" using True i by (simp add: list_all_length)
    ultimately show ?thesis using True by (simp add: rd_def todword_lies widen_u32)
  next
    case False
    then have "lies data (p + 4 + 1 + i * 8) ((le64 \<circ> widen) (as ! i))" using e i by (intro lies_nth_concat) (simp_all add: elems_def comp_def)
    then show ?thesis using False by (simp add: rd_def toqword_lies)
  qed
  have nz: "?sz \<noteq> 0" using sz by auto
  have s1: "unat (?sz - 1) = length as * n" using sz nz by (simp add: unat_minus_one)
  have n48: "n = 4 \<or> n = 8" by (simp add: n_def)
  have m: "unat ((?sz - 1) mod word_of_nat n) = 0" "unat ((?sz - 1) div word_of_nat n) = length as"
    using s1 n48 by (auto simp: unat_mod unat_div simp del: unat_eq_0)
  from m(1) have m0: "(?sz - 1) mod word_of_nat n = 0" by (simp only: unat_eq_0)
  from call_each_seen [where k = 0 and rd = rd and args = args and data = data and as = as and log = log] rd assms(1,4)
  obtain log' where log': "call_each rd args [0..<length as] log = Some log'" "map (seen data) log' = map (seen data) log @ show_from args 1 as" by auto
  have "decode_array cb data args p log = do { log \<leftarrow> call_each rd args [0..<length as] log; Some (log, 0) }"
  proof (cases "list_all is_u32 as")
    case True
    then show ?thesis using todword_lies [OF l(1)] nz assms(2) n m0 m(2) by (auto simp: decode_array_def Let_def rd_def n_def simp del: One_nat_def add_Suc_right)
  next
    case False
    then show ?thesis using todword_lies [OF l(1)] nz assms(2) n m0 m(2) by (auto simp: decode_array_def Let_def rd_def n_def simp del: One_nat_def add_Suc_right)
  qed
  then show ?thesis using log' by simp
qed

lemma decode_bools_seen:
  assumes "ar_value args = V_null" "ar_type args = SPROTO_TBOOLEAN" "as \<noteq> []" "\<forall>a \<in> set as. fits SPROTO_TBOOLEAN a"
    and d: "lies data p (le32 (word_of_nat (length as)) @ map (\<lambda>a. if low32 a = 0 then 0 else 1) as)" "length as < 2 ^ 31"
  shows "\<exists>log'. decode_array cb data args p log = Some (log', 0) \<and> map (seen data) log' = map (seen data) log @ show_from args 1 as"
proof -
  let ?sz = "word_of_nat (length as) :: u32"
  have l: "lies data p (le32 ?sz)" "lies data (p + 4) (map (\<lambda>a. if low32 a = 0 then 0 else 1) as)"
    using d(1) by (simp_all add: lies_append)
  have sz: "unat ?sz = length as" by (rule unat_length [OF d(2)])
  then have nz: "?sz \<noteq> 0" using assms(3) by auto
  have v: "map_option ucast (arr_get data (p + 4 + i)) = Some (widen (as ! i)) \<and> number (as ! i)" if i: "i < length as" for i
  proof -
    have "arr_get data (p + 4 + i) = Some (if low32 (as ! i) = 0 then 0 else 1)" using lies_nth [OF l(2), of i] i by simp
    moreover have "fits SPROTO_TBOOLEAN (as ! i)" using assms(4) i by simp
    then obtain w where w: "as ! i = A_u32 w" "w \<le> 1" by (rule fits_cases) (auto simp: sproto_types)
    from w(2) have "unat w = 0 \<or> unat w = 1" by (auto simp: word_le_nat_alt)
    then have "w = 0 \<or> w = 1" by (metis unsigned_word_eqI unsigned_1 unsigned_0)
    ultimately show ?thesis using w(1) by (auto simp: low32_def widen_def number_def expand64_def)
  qed
  from call_each_seen [where k = 0 and rd = "\<lambda>i. map_option ucast (arr_get data (p + 4 + i))" and args = args and data = data and as = as and log = log] v assms(1)
  obtain log' where "call_each (\<lambda>i. map_option ucast (arr_get data (p + 4 + i))) args [0..<length as] log = Some log'"
    "map (seen data) log' = map (seen data) log @ show_from args 1 as" by auto
  then show ?thesis using todword_lies [OF l(1)] nz sz assms(2) by (auto simp: decode_array_def Let_def sproto_types)
qed

lemma decode_array_seen:
  assumes cb: "\<And>log a. cb log a = 0" and args: "ar_value args = V_null" "ar_length args = 0" "ar_type args \<le> SPROTO_TSTRUCT"
    and fit: "\<forall>a \<in> set as. fits (ar_type args) a"
    and d: "lies data p (le32 (word_of_nat (length (many_content (ar_type args) as))) @ many_content (ar_type args) as)"
      "length (many_content (ar_type args) as) < 2 ^ 31"
  shows "\<exists>log'. decode_array cb data args p log = Some (log', 0) \<and>
    map (seen data) log' = map (seen data) log @ (if as = [] then [(args\<lparr>ar_index := - 1\<rparr>, S_none)] else show_from args 1 as)"
proof (cases "as = []")
  case True
  then have "many_content (ar_type args) as = []" by (simp add: many_content_def numbers_content_def)
  then have "todword data p = Some 0" using d(1) by (simp add: todword_lies)
  moreover have "args\<lparr>ar_index := - 1, ar_value := V_null, ar_length := 0\<rparr> = args\<lparr>ar_index := - 1\<rparr>" using args(1,2) by (cases args) simp
  moreover have "seen data (args\<lparr>ar_index := - 1\<rparr>) = (args\<lparr>ar_index := - 1\<rparr>, S_none)" using args(1) by (cases args) (simp add: seen_def)
  ultimately show ?thesis using True by (simp add: decode_array_def)
next
  case False
  have "ar_type args = SPROTO_TINTEGER \<or> ar_type args = SPROTO_TBOOLEAN \<or> ar_type args = SPROTO_TSTRING \<or> ar_type args = SPROTO_TDOUBLE \<or>
      ar_type args = SPROTO_TSTRUCT"
  proof -
    have "unat (ar_type args) \<le> 4" using args(3) by (simp add: word_le_nat_alt SPROTO_TSTRUCT_def)
    then have "unat (ar_type args) \<in> {0, 1, 2, 3, 4}" by auto
    then have "word_of_nat (unat (ar_type args)) \<in> (word_of_nat ` {0, 1, 2, 3, 4} :: u32 set)" by blast
    then show ?thesis by (simp add: sproto_types)
  qed
  then consider "ar_type args = SPROTO_TINTEGER \<or> ar_type args = SPROTO_TDOUBLE" | "ar_type args = SPROTO_TBOOLEAN"
    | "ar_type args = SPROTO_TSTRING \<or> ar_type args = SPROTO_TSTRUCT" by blast
  then show ?thesis
  proof cases
    case 1
    then have "many_content (ar_type args) as = numbers_content as" by (auto simp: many_content_def)
    moreover have "\<forall>a \<in> set as. number a" using fit fits_number 1 by (fastforce simp: sproto_types)
    ultimately show ?thesis using decode_numbers_seen [OF args(1) 1 False, of data p cb log] d False by simp
  next
    case 2
    then have "many_content (ar_type args) as = map (\<lambda>a. if low32 a = 0 then 0 else 1) as" by (simp add: many_content_def sproto_types)
    then show ?thesis using decode_bools_seen [OF args(1) 2 False, of data p cb log] d False fit 2 by simp
  next
    case 3
    define c where "c = concat (map (\<lambda>a. le32 (word_of_nat (length (the_bytes a))) @ the_bytes a) as)"
    have c: "many_content (ar_type args) as = c" using 3 by (auto simp: many_content_def sproto_types c_def)
    define sz where "sz = (word_of_nat (length c) :: u32)"
    have l: "lies data p (le32 sz)" "lies data (p + 4) c" using d(1) unfolding c sz_def by (simp_all add: lies_append)
    have sz: "unat sz = length c" using unat_length d(2) unfolding c sz_def by blast
    have "c \<noteq> []" using False by (cases as) (simp_all add: le32_def c_def)
    then have nz: "sz \<noteq> 0" using sz by auto
    have "sint sz = int (length c)" using sint_small [of sz] sz d(2) uint_unat [of sz] unfolding c by simp
    moreover have "\<forall>a \<in> set as. \<exists>b. a = A_bytes b \<and> length b < 2 ^ 31"
    proof
      fix a
      assume "a \<in> set as"
      then have "fits (ar_type args) a" using fit by blast
      then show "\<exists>b. a = A_bytes b \<and> length b < 2 ^ 31" by (rule fits_cases) (use 3 in \<open>auto simp: sproto_types\<close>)
    qed
    ultimately obtain log' where "decode_array_object cb data args (p + 4) (sint sz) 1 log = Some (log', 0)"
      "map (seen data) log' = map (seen data) log @ show_from args 1 as"
      using decode_array_object_seen [where cb = cb and args = args and as = as and data = data and p = "p + 4" and i = 1 and log = log] cb args(1) l(2) unfolding c_def by auto
    moreover have "ar_type args \<noteq> SPROTO_TINTEGER" "ar_type args \<noteq> SPROTO_TDOUBLE" "ar_type args \<noteq> SPROTO_TBOOLEAN"
      using 3 by (auto simp: sproto_types)
    ultimately show ?thesis using todword_lies [OF l(1)] nz 3 False by (simp add: decode_array_def)
  qed
qed

lemma bit_below: "n < 2 ^ k \<Longrightarrow> bit (n :: nat) i \<Longrightarrow> i < k"
  by (metis bit_take_bit_iff take_bit_nat_eq_self)

lemma expand64_small: "unat v < 2 ^ 31 \<Longrightarrow> expand64 v = ucast v"
proof -
  assume v: "unat v < 2 ^ 31"
  have e: "(0x80000000 :: u64) = push_bit 31 1" by simp
  have "\<not> bit v 31" using bit_below [OF v, of 31] by (auto simp: bit_unsigned_iff)
  then have "ucast v AND (0x80000000 :: u64) = 0"
    unfolding e by (intro bit_word_eqI) (simp only: bit_and_iff bit_push_bit_iff bit_1_iff bit_ucast_iff bit_0_eq bot_fun_def, auto)
  then show ?thesis by (simp add: expand64_def)
qed

lemma inline_value: "v < 0x7fff \<Longrightarrow> word_of_int (int (unat v)) = expand64 v"
proof -
  assume "v < 0x7fff"
  then have "unat v < 0x7fff" by (simp add: word_less_nat_alt)
  then show ?thesis by (simp add: expand64_small unsigned_ucast_eq)
qed

lemma base_type_scalar: "fd_type f AND SPROTO_TARRAY = 0 \<Longrightarrow> base_type f = fd_type f"
proof (unfold base_type_def, rule bit_word_eqI)
  fix i
  assume "fd_type f AND SPROTO_TARRAY = 0"
  then have "bit (fd_type f AND SPROTO_TARRAY) i = bit (0 :: u32) i" by simp
  then show "i < LENGTH(32) \<Longrightarrow> bit (fd_type f AND NOT SPROTO_TARRAY) i = bit (fd_type f) i" by (auto simp: bit_and_iff bit_not_iff)
qed

lemma map_names_field:
  assumes "maps_ok types st" "f \<in> set (ty_f st)"
  obtains arg where "map_names types f (field_arg f) = Some arg" "ar_value arg = V_null" "ar_length arg = 0" "ar_type arg = base_type f"
proof (cases "0 < fd_map f")
  case True
  then obtain t where t: "fd_st f = Some t" "t < length types" "2 \<le> length (ty_f (types ! t))"
    using assms by (auto simp: maps_ok_def split: option.splits)
  then have "arr_get (ty_f (types ! t)) 0 = Some (ty_f (types ! t) ! 0)" by (intro arr_get_in) linarith
  then show ?thesis using that True t by (simp add: map_names_def arr_get_in field_arg_def)
next
  case False
  then show ?thesis using that by (simp add: map_names_def field_arg_def)
qed

lemma decode_inline_seen:
  assumes "value_ok f v" "content f v = Inline k"
  shows "\<exists>log'. decode_field cb types data f (int k) cur log = Some (log', 0) \<and> map (seen data) log' = map (seen data) log @ show_value types f v"
proof -
  obtain w where v: "v = Single (A_u32 w)" and w: "w < 0x7fff" "k = unat w"
    using assms(2) by (auto simp: content_def single_content_def split: field_value.splits answer.splits if_splits)
  have t: "fd_type f AND SPROTO_TARRAY = 0" "fd_type f = SPROTO_TINTEGER \<or> fd_type f = SPROTO_TBOOLEAN"
    using assms(1) by (auto simp: v value_ok_def fits_def)
  then show ?thesis
    using inline_value [OF w(1)] by (auto simp: decode_field_def Let_def seen_def show_value_def v show_answer_def field_arg_def base_type_scalar widen_def w(2))
qed

lemma decode_block_seen:
  assumes cb: "\<And>log a. cb log a = 0" and f: "maps_ok types st" "f \<in> set (ty_f st)"
    and v: "value_ok f v" "content f v = Block d" and d: "lies data p (block (Block d))" "length d < 2 ^ 31"
  shows "\<exists>log'. decode_field cb types data f (- 1) p log = Some (log', 0) \<and> map (seen data) log' = map (seen data) log @ show_value types f v"
proof -
  let ?w = "word_of_nat (length d) :: u32"
  have l: "lies data p (le32 ?w)" "lies data (p + 4) d" using d(1) by (simp_all add: block_def lies_append)
  have w: "unat ?w = length d" by (rule unat_length [OF d(2)])
  show ?thesis
  proof (cases v)
    case (Many as)
    then have t: "fd_type f AND SPROTO_TARRAY \<noteq> 0" "base_type f \<le> SPROTO_TSTRUCT" "\<forall>a \<in> set as. fits (base_type f) a"
      and dm: "d = many_content (base_type f) as" using v by (auto simp: value_ok_def content_def)
    obtain arg where arg: "map_names types f (field_arg f) = Some arg" "ar_value arg = V_null" "ar_length arg = 0" "ar_type arg = base_type f"
      by (rule map_names_field [OF f])
    have "\<exists>log'. decode_array cb data arg p log = Some (log', 0) \<and>
        map (seen data) log' = map (seen data) log @ (if as = [] then [(arg\<lparr>ar_index := - 1\<rparr>, S_none)] else show_from arg 1 as)"
      using arg t d dm by (intro decode_array_seen cb) (simp_all add: block_def)
    then show ?thesis using t(1) arg(1) Many
      by (auto simp: decode_field_def Let_def field_arg_def base_type_def show_value_def)
  next
    case (Single a)
    then have t: "fd_type f AND SPROTO_TARRAY = 0" "fits (fd_type f) a" and c: "single_content a = Block d"
      using v by (auto simp: value_ok_def content_def)
    from t(2) show ?thesis
    proof (cases rule: fits_cases)
      case (u32 n)
      have n: "\<not> n < 0x7fff" "d = le32 n" using c u32(1) by (auto simp: single_content_def split: if_splits)
      have "fd_type f = SPROTO_TINTEGER"
        using u32(2) n(1) by (auto simp: word_le_nat_alt word_less_nat_alt)
      then show ?thesis using todword_lies [OF l(1)] todword_lies [of data "p + 4" n] l(2) n(2) t(1) u32(1) Single
        by (auto simp: decode_field_def Let_def seen_def show_value_def show_answer_def field_arg_def base_type_scalar widen_def)
    next
      case (u64 n)
      have n: "d = le64 n" using c u64(1) by (simp add: single_content_def)
      then show ?thesis using todword_lies [OF l(1)] toqword_lies [of data "p + 4" n] l(2) u64 t(1) Single
        by (auto simp: decode_field_def Let_def seen_def show_value_def show_answer_def field_arg_def base_type_scalar widen_def)
    next
      case (bytes b)
      have b: "d = b" using c bytes(1) by (simp add: single_content_def the_bytes_def)
      have "sint ?w = int (length b)" using sint_small [of ?w] w d(2) uint_unat [of ?w] b by simp
      then show ?thesis using todword_lies [OF l(1)] l(2) bytes(1,2) t(1) Single cb b
        by (auto simp: decode_field_def Let_def seen_def show_value_def show_answer_def field_arg_def base_type_scalar sproto_types lies_def)
    qed
  qed
qed

subsection \<open>Decoding a message\<close>

type_synonym field_values = "(sproto_field \<times> field_value) list"

definition items :: "field_values \<Rightarrow> (int \<times> content) list" where
  "items vs = map (\<lambda>(f, v). (fd_tag f, content f v)) vs"

text \<open>What the receiver sees: the fields that its type does not have are passed over.\<close>

definition known_values :: "sproto_type list \<Rightarrow> sproto_type \<Rightarrow> field_values \<Rightarrow> (sproto_arg \<times> shown) list" where
  "known_values types st vs = concat (map (\<lambda>(f, v). if field_of st (fd_tag f) = None then [] else show_value types f v) vs)"

definition values_ok :: "sproto_type \<Rightarrow> field_values \<Rightarrow> bool" where
  "values_ok st vs \<longleftrightarrow> (\<forall>(f, v) \<in> set vs. value_ok f v \<and> (field_of st (fd_tag f) = None \<or> field_of st (fd_tag f) = Some f))"

definition word_of_content :: "content \<Rightarrow> nat" where
  "word_of_content c = (case c of Inline v \<Rightarrow> (v + 1) * 2 | Block d \<Rightarrow> 0)"

lemma skip_step:
  assumes "lies data (2 + 2 * k) (le16 (nat (g * 2 + 1)))" "0 \<le> g" "g * 2 + 1 < 2 ^ 16"
  shows "decode_step cb types st data k s = Some (Inr (s\<lparr>ds_tag := ds_tag s + 1 + g\<rparr>))"
proof -
  have "toword data (2 + 2 * k) = Some (nat (g * 2 + 1))" using assms by (intro toword_lies) simp_all
  moreover have "nat (g * 2 + 1) = 2 * nat g + 1" using assms(2) by linarith
  ultimately show ?thesis using assms(2) by (simp add: decode_step_def SIZEOF_HEADER_def SIZEOF_FIELD_def mult.commute add.assoc)
qed

lemma value_step:
  assumes cb: "\<And>log a. cb log a = 0" and st: "type_ok st" "maps_ok types st"
    and v: "value_ok f v" "field_of st (fd_tag f) = None \<or> field_of st (fd_tag f) = Some f"
    and w: "lies data (2 + 2 * k) (le16 (word_of_content (content f v)))" "case content f v of Inline n \<Rightarrow> n < 0x7fff | Block d \<Rightarrow> True"
    and b: "lies data (ds_data s) (block (content f v))" and sz: "length data < 2 ^ 31" "ds_size s = int (length data) - int (ds_data s)"
    and tag: "ds_tag s + 1 = fd_tag f"
  obtains log' where "decode_step cb types st data k s = Some (Inr (s\<lparr>ds_tag := fd_tag f, ds_data := ds_data s + length (block (content f v)),
      ds_size := ds_size s - int (length (block (content f v))), ds_log := log'\<rparr>))"
    "map (seen data) log' = map (seen data) (ds_log s) @ known_values types st [(f, v)]"
proof -
  let ?c = "content f v"
  have word: "toword data (2 + k * 2) = Some (word_of_content ?c)"
    using toword_lies [OF w(1)] w(2) by (auto simp: word_of_content_def mult.commute split: content.splits)
  show ?thesis
  proof (cases ?c)
    case (Inline n)
    show ?thesis
    proof (cases "field_of st (fd_tag f)")
      case None
      then show ?thesis using that [of "ds_log s"] word Inline findtag_correct [OF st(1)] tag
        by (simp add: decode_step_def SIZEOF_HEADER_def SIZEOF_FIELD_def word_of_content_def block_def known_values_def Let_def)
    next
      case (Some f')
      then obtain log' where "decode_field cb types data f (int n) (ds_data s) (ds_log s) = Some (log', 0)"
        "map (seen data) log' = map (seen data) (ds_log s) @ show_value types f v"
        using decode_inline_seen [OF v(1) Inline, where cb = cb and types = types and data = data and cur = "ds_data s" and log = "ds_log s"] by auto
      then show ?thesis using that [of log'] word Inline findtag_correct [OF st(1)] tag Some v(2)
        by (simp add: decode_step_def SIZEOF_HEADER_def SIZEOF_FIELD_def word_of_content_def block_def known_values_def Let_def)
    qed
  next
    case (Block d)
    have "lies data (ds_data s) (le32 (word_of_nat (length d)))" "lies data (ds_data s + 4) d"
      using b by (simp_all add: Block block_def lies_append)
    then have l: "lies data (ds_data s) (le32 (word_of_nat (length d)))" "ds_data s + 4 + length d \<le> length data"
      by (simp_all add: lies_def)
    have d: "length d < 2 ^ 31" using l(2) sz(1) by simp
    let ?w = "word_of_nat (length d) :: u32"
    have "unat (?w + 4) = length d + 4" using unat_length [OF d] d by (simp add: unat_word_ariths)
    then have u: "unat (?w + 4) = length d + 4" "uint (?w + 4) = int (length d + 4)" using uint_unat [of "?w + 4"] by simp_all
    have big: "\<not> ds_size s < 4" "\<not> ds_size s < int (length d + 4)" using sz(2) l(2) by simp_all
    show ?thesis
    proof (cases "field_of st (fd_tag f)")
      case None
      then show ?thesis using that [of "ds_log s"] word Block findtag_correct [OF st(1)] tag todword_lies [OF l(1)] u big
        by (simp add: decode_step_def SIZEOF_HEADER_def SIZEOF_FIELD_def word_of_content_def block_def known_values_def Let_def add.commute)
    next
      case (Some f')
      then have "f' = f" using v(2) by simp
      then have "f \<in> set (ty_f st)" using Some by (auto simp: field_of_def find_Some_iff)
      then obtain log' where "decode_field cb types data f (- 1) (ds_data s) (ds_log s) = Some (log', 0)"
        "map (seen data) log' = map (seen data) (ds_log s) @ show_value types f v"
        using decode_block_seen [where cb = cb and types = types and st = st and f = f and v = v and d = d and data = data and p = "ds_data s" and log = "ds_log s"]
          cb st(2) v(1) Block b d by auto
      then show ?thesis using that [of log'] word Block findtag_correct [OF st(1)] tag todword_lies [OF l(1)] u big Some \<open>f' = f\<close>
        by (simp add: decode_step_def SIZEOF_HEADER_def SIZEOF_FIELD_def word_of_content_def block_def known_values_def Let_def add.commute)
    qed
  qed
qed

lemma words_of_step:
  assumes cb: "\<And>log a. cb log a = 0" and st: "type_ok st" "maps_ok types st"
    and v: "value_ok f v" "field_of st (fd_tag f) = None \<or> field_of st (fd_tag f) = Some f"
    and prev: "ds_tag s < fd_tag f" "(fd_tag f - ds_tag s - 2) * 2 + 1 < 2 ^ 16" "case content f v of Inline n \<Rightarrow> n < 0x7fff | Block d \<Rightarrow> True"
    and ws: "ws = (if 0 < fd_tag f - ds_tag s - 1 then [nat ((fd_tag f - ds_tag s - 2) * 2 + 1)] else []) @ [word_of_content (content f v)]"
      "lies data (2 + 2 * k) (concat (map le16 ws))"
    and b: "lies data (ds_data s) (block (content f v))" and sz: "length data < 2 ^ 31" "ds_size s = int (length data) - int (ds_data s)"
  obtains log' where "decode_loop cb types st data [k..<k + length ws] s = Some (Inr (s\<lparr>ds_tag := fd_tag f,
      ds_data := ds_data s + length (block (content f v)), ds_size := ds_size s - int (length (block (content f v))), ds_log := log'\<rparr>))"
    "map (seen data) log' = map (seen data) (ds_log s) @ known_values types st [(f, v)]"
proof (cases "0 < fd_tag f - ds_tag s - 1")
  case True
  let ?g = "fd_tag f - ds_tag s - 2" and ?s = "s\<lparr>ds_tag := fd_tag f - 1\<rparr>"
  have l: "lies data (2 + 2 * k) (le16 (nat (?g * 2 + 1)))" "lies data (2 + 2 * Suc k) (le16 (word_of_content (content f v)))"
    using ws True by (simp_all add: lies_append)
  have "decode_step cb types st data k s = Some (Inr ?s)" using skip_step [OF l(1)] True prev(2) by simp
  moreover obtain log' where "decode_step cb types st data (Suc k) ?s = Some (Inr (s\<lparr>ds_tag := fd_tag f,
      ds_data := ds_data s + length (block (content f v)), ds_size := ds_size s - int (length (block (content f v))), ds_log := log'\<rparr>))"
    "map (seen data) log' = map (seen data) (ds_log s) @ known_values types st [(f, v)]"
    using value_step [where cb = cb and st = st and types = types and f = f and v = v and data = data and k = "Suc k" and s = ?s]
      cb st v l(2) prev(3) b sz by auto
  moreover have "[k..<k + length ws] = [k, Suc k]" using ws(1) True by (simp add: upt_conv_Cons)
  ultimately show ?thesis using that by simp
next
  case False
  have "ds_tag s + 1 = fd_tag f" using False prev(1) by simp
  then obtain log' where "decode_step cb types st data k s = Some (Inr (s\<lparr>ds_tag := fd_tag f,
      ds_data := ds_data s + length (block (content f v)), ds_size := ds_size s - int (length (block (content f v))), ds_log := log'\<rparr>))"
    "map (seen data) log' = map (seen data) (ds_log s) @ known_values types st [(f, v)]"
    using value_step [where cb = cb and st = st and types = types and f = f and v = v and data = data and k = k and s = s]
      cb st v ws False prev(3) b sz by auto
  moreover have "[k..<k + length ws] = [k]" using ws(1) False by (simp add: upt_conv_Cons)
  ultimately show ?thesis using that by simp
qed

lemma decode_loop_append:
  "decode_loop cb types st data (is @ js) s =
   (case decode_loop cb types st data is s of
      None \<Rightarrow> None | Some (Inl log) \<Rightarrow> Some (Inl log) | Some (Inr s') \<Rightarrow> decode_loop cb types st data js s')"
  by (induction "is" arbitrary: s) (auto split: bind_splits option.splits sum.splits)

lemma decode_loop_items:
  assumes cb: "\<And>log a. cb log a = 0" and st: "type_ok st" "maps_ok types st" and sz: "length data < 2 ^ 31"
  shows "values_ok st vs \<Longrightarrow> items_ok (ds_tag s) (items vs) \<Longrightarrow> lies data (2 + 2 * k) (concat (map le16 (words_of (ds_tag s) (items vs)))) \<Longrightarrow>
    lies data (ds_data s) (concat (map (block \<circ> snd) (items vs))) \<Longrightarrow> ds_size s = int (length data) - int (ds_data s) \<Longrightarrow>
    \<exists>s'. decode_loop cb types st data [k..<k + length (words_of (ds_tag s) (items vs))] s = Some (Inr s') \<and>
      map (seen data) (ds_log s') = map (seen data) (ds_log s) @ known_values types st vs \<and>
      ds_size s' = ds_size s - int (length (concat (map (block \<circ> snd) (items vs))))"
proof (induction vs arbitrary: s k)
  case Nil
  then show ?case by (simp add: items_def known_values_def)
next
  case (Cons fv vs)
  obtain f v where fv: "fv = (f, v)" by (cases fv)
  let ?ws = "(if 0 < fd_tag f - ds_tag s - 1 then [nat ((fd_tag f - ds_tag s - 2) * 2 + 1)] else []) @ [word_of_content (content f v)]"
  have it: "items (fv # vs) = (fd_tag f, content f v) # items vs" by (simp add: items_def fv)
  have words: "words_of (ds_tag s) (items (fv # vs)) = ?ws @ words_of (fd_tag f) (items vs)"
    by (simp add: it word_of_content_def)
  have ok: "value_ok f v" "field_of st (fd_tag f) = None \<or> field_of st (fd_tag f) = Some f" "values_ok st vs"
    using Cons.prems(1) by (auto simp: values_ok_def fv)
  have io: "ds_tag s < fd_tag f" "(fd_tag f - ds_tag s - 2) * 2 + 1 < 2 ^ 16" "case content f v of Inline n \<Rightarrow> n < 0x7fff | Block d \<Rightarrow> True"
    "items_ok (fd_tag f) (items vs)"
    using Cons.prems(2) by (simp_all add: it)
  have len: "length (concat (map le16 ws)) = 2 * length ws" for ws using length_concat_const [of le16 2 ws] by simp
  have l: "lies data (2 + 2 * k) (concat (map le16 ?ws))" "lies data (2 + 2 * (k + length ?ws)) (concat (map le16 (words_of (fd_tag f) (items vs))))"
    using Cons.prems(3) len [of ?ws] lies_append [of data "2 + 2 * k" "concat (map le16 ?ws)"]
    unfolding words map_append [of le16 ?ws] concat_append [of "map le16 ?ws"] by (simp_all only: add_mult_distrib2 add.assoc)
  have b: "lies data (ds_data s) (block (content f v))" "lies data (ds_data s + length (block (content f v))) (concat (map (block \<circ> snd) (items vs)))"
    using Cons.prems(4) by (simp_all add: it lies_append comp_def)
  obtain log' where step: "decode_loop cb types st data [k..<k + length ?ws] s = Some (Inr (s\<lparr>ds_tag := fd_tag f,
      ds_data := ds_data s + length (block (content f v)), ds_size := ds_size s - int (length (block (content f v))), ds_log := log'\<rparr>))"
    "map (seen data) log' = map (seen data) (ds_log s) @ known_values types st [(f, v)]"
    using words_of_step [where ws = ?ws and cb = cb and st = st and types = types and f = f and v = v and data = data and k = k and s = s]
      cb st ok(1,2) io(1,2,3) l(1) b(1) sz Cons.prems(5) by auto
  let ?s = "s\<lparr>ds_tag := fd_tag f, ds_data := ds_data s + length (block (content f v)), ds_size := ds_size s - int (length (block (content f v))), ds_log := log'\<rparr>"
  define m where "m = k + length ?ws"
  obtain s' where s': "decode_loop cb types st data [m..<m + length (words_of (ds_tag ?s) (items vs))] ?s = Some (Inr s')"
    "map (seen data) (ds_log s') = map (seen data) (ds_log ?s) @ known_values types st vs"
    "ds_size s' = ds_size ?s - int (length (concat (map (block \<circ> snd) (items vs))))"
    using Cons.IH [of ?s m] ok(3) io(4) l(2) [folded m_def] b(2) Cons.prems(5) by (auto simp: comp_def)
  have "[k..<k + length (words_of (ds_tag s) (items (fv # vs)))] = [k..<k + length ?ws] @ [m..<m + length (words_of (fd_tag f) (items vs))]"
    using upt_add_eq_append [of k m "length (words_of (fd_tag f) (items vs))"] unfolding words length_append [of ?ws] m_def
    by (simp only: le_add1 add.assoc)
  then have "decode_loop cb types st data [k..<k + length (words_of (ds_tag s) (items (fv # vs)))] s = Some (Inr s')"
    using step(1) s'(1) by (simp only: decode_loop_append) simp
  moreover have "known_values types st (fv # vs) = known_values types st [(f, v)] @ known_values types st vs" by (simp add: known_values_def fv)
  ultimately show ?case using s'(2,3) step(2) by (simp add: it comp_def)
qed

text \<open>A message shows exactly the values it was made from, whatever bytes follow it.\<close>

lemma decode_message:
  assumes cb: "\<And>log a. cb log a = 0" and st: "type_ok st" "maps_ok types st" and sz: "length (message (items vs) @ rest) < 2 ^ 31"
    and vs: "values_ok st vs" "items_ok (- 1) (items vs)" "length (words_of (- 1) (items vs)) < 2 ^ 16"
  shows "\<exists>log. sproto_decode cb types st (message (items vs) @ rest) = Some (log, int (length (message (items vs)))) \<and>
    map (seen (message (items vs) @ rest)) log = known_values types st vs"
proof -
  let ?ws = "words_of (- 1) (items vs)" and ?bs = "concat (map (block \<circ> snd) (items vs))"
  define data where "data = message (items vs) @ rest"
  have len: "length (concat (map le16 ?ws)) = 2 * length ?ws" using length_concat_const [of le16 2 ?ws] by simp
  have lm: "length (message (items vs)) = 2 + 2 * length ?ws + length ?bs" by (simp add: message_def len)
  have "lies data 0 (le16 (length ?ws) @ concat (map le16 ?ws) @ ?bs @ rest)" using lies_0 [of data] by (simp add: data_def message_def)
  then have "lies data 0 (le16 (length ?ws))" "lies data (0 + 2) (concat (map le16 ?ws))" "lies data (0 + 2 + 2 * length ?ws) ?bs"
    unfolding lies_append length_le len by blast+
  then have l: "lies data 0 (le16 (length ?ws))" "lies data 2 (concat (map le16 ?ws))" "lies data (2 + length ?ws * 2) ?bs"
    by (simp_all only: add_0 mult.commute)
  define s where "s = \<lparr>ds_data = 2 + length ?ws * 2, ds_size = int (length data) - 2 - int (length ?ws * 2), ds_tag = - 1, ds_log = []\<rparr>"
  obtain s' where s': "decode_loop cb types st data [0..<length ?ws] s = Some (Inr s')" "map (seen data) (ds_log s') = known_values types st vs"
    "ds_size s' = ds_size s - int (length ?bs)"
    using decode_loop_items [where cb = cb and st = st and types = types and data = data and vs = vs and s = s and k = 0] cb st sz vs l
    by (auto simp: s_def data_def)
  have fn: "toword data 0 = Some (length ?ws)" using l(1) vs(3) by (intro toword_lies)
  have ld: "length data = 2 + 2 * length ?ws + length ?bs + length rest" by (simp add: data_def lm)
  have "sproto_decode cb types st data = Some (ds_log s', int (length (message (items vs))))"
    using fn s'(1,3) ld lm by (simp add: sproto_decode_def SIZEOF_HEADER_def SIZEOF_FIELD_def Let_def s_def)
  then show ?thesis using s'(2) unfolding data_def [symmetric] by blast
qed

end
