(* ===== verification/Sproto_Encode.thy ===== *)
theory Sproto_Encode
  imports Sproto_Message
begin

section \<open>Encoding of sproto messages (lualib-src/sproto/sproto.c)\<close>

text \<open>
  \<open>sproto_encode\<close> asks a callback for the value of each field, writes the words of the header into the room for the greatest header
  and the blocks behind it, and moves the blocks down at the end. The callback is a parameter: a function of the request, as the
  binding reads an immutable table. For a number it writes the union or the \<open>int\<close> it was given (\<open>A_u32\<close>, \<open>A_u64\<close>, with the size 4 or 8),
  so that \<open>A_bytes\<close> stands there for a size the code refuses; otherwise it writes bytes, and returns their count. The buffer is a list of bytes with the given size; \<open>None\<close> is a write outside of it or a failed assertion. A result
  \<open>Inl\<close> is -1, after which the contents of the buffer are not used.

  The results: with a callback that keeps to the length, nothing is written outside the buffer, the result is the message
  of the values, and -1 is returned only when the buffer is too small. Decoding it gives the values back.
\<close>

subsection \<open>Numbers and objects\<close>

definition SIZEOF_INT64 :: int where "SIZEOF_INT64 = 8"
definition SIZEOF_INT32 :: int where "SIZEOF_INT32 = 4"

type_synonym ecallback = "sproto_arg \<Rightarrow> answer"

text \<open>The number that the callback returns for a block, and the bytes that it wrote.\<close>

fun answer_bytes :: "answer \<Rightarrow> bytes" where
  "answer_bytes (A_u32 v) = le32 v"
| "answer_bytes (A_u64 v) = le64 v"
| "answer_bytes (A_bytes b) = b"
| "answer_bytes _ = []"

definition fill_size :: "bytes \<Rightarrow> nat \<Rightarrow> nat \<Rightarrow> bytes option" where
  "fill_size buf data sz = arr_copy buf data (le32 (word_of_nat sz))"

text \<open>The comparisons with \<open>sizeof\<close> are without sign: a negative size passes.\<close>

definition encode_integer :: "u32 \<Rightarrow> bytes \<Rightarrow> nat \<Rightarrow> int \<Rightarrow> (unit + nat \<times> bytes) option" where
  "encode_integer v buf data room =
     (if 0 \<le> room \<and> room < 8 then Some (Inl ())
      else do {
        buf \<leftarrow> arr_copy buf (data + 4) (le32 v);
        buf \<leftarrow> fill_size buf data 4;
        Some (Inr (8, buf)) })"

definition encode_uint64 :: "u64 \<Rightarrow> bytes \<Rightarrow> nat \<Rightarrow> int \<Rightarrow> (unit + nat \<times> bytes) option" where
  "encode_uint64 v buf data room =
     (if 0 \<le> room \<and> room < 12 then Some (Inl ())
      else do {
        buf \<leftarrow> arr_copy buf (data + 4) (le64 v);
        buf \<leftarrow> fill_size buf data 8;
        Some (Inr (12, buf)) })"

definition encode_object :: "ecallback \<Rightarrow> sproto_arg \<Rightarrow> bytes \<Rightarrow> nat \<Rightarrow> int \<Rightarrow> (unit + nat \<times> bytes) option" where
  "encode_object cb args buf data room =
     (if room < 4 then Some (Inl ())
      else case cb (args\<lparr>ar_length := room - 4\<rparr>) of
        A_nil \<Rightarrow> Some (Inr (0, buf))
      | A_error \<Rightarrow> Some (Inl ())
      | A_noarray \<Rightarrow> Some (Inl ())
      | a \<Rightarrow> do {
          buf \<leftarrow> arr_copy buf (data + 4) (answer_bytes a);
          _ \<leftarrow> c_assert (int (length (answer_bytes a)) \<le> room - 4);
          buf \<leftarrow> fill_size buf data (length (answer_bytes a));
          Some (Inr (length (answer_bytes a) + 4, buf)) })"

subsection \<open>Arrays\<close>

definition uint32_to_uint64 :: "bool \<Rightarrow> bytes \<Rightarrow> nat \<Rightarrow> bytes option" where
  "uint32_to_uint64 negative buf p = arr_copy buf (p + 4) (replicate 4 (if negative then 0xff else 0))"

definition arr_slice :: "bytes \<Rightarrow> nat \<Rightarrow> nat \<Rightarrow> bytes option" where
  "arr_slice buf p n = (if p + n \<le> length buf then Some (take n (drop p buf)) else None)"

text \<open>The elements of four bytes are spread in place to eight bytes, the last one first.\<close>

definition spread_one :: "nat \<Rightarrow> nat \<Rightarrow> bytes \<Rightarrow> bytes option" where
  "spread_one header i buf = do {
     b \<leftarrow> arr_slice buf (header + 1 + i * 4) 4;
     buf \<leftarrow> arr_copy buf (header + 1 + i * 8) b;
     c \<leftarrow> arr_get buf (header + 1 + i * 8 + 3);
     uint32_to_uint64 (c AND 0x80 \<noteq> 0) buf (header + 1 + i * 8) }"

text \<open>\<open>wide\<close> says that \<open>intlen\<close> is 8 and not 4. \<open>n\<close> is \<open>index - 1\<close>. \<open>Inl\<close> is the null pointer.\<close>

function int_array_loop :: "ecallback \<Rightarrow> sproto_arg \<Rightarrow> nat \<Rightarrow> bytes \<Rightarrow> nat \<Rightarrow> int \<Rightarrow> bool \<Rightarrow> nat \<Rightarrow> (unit + bytes \<times> nat \<times> bool \<times> bool) option" where
  "int_array_loop cb args header buf pos room wide n =
     (case cb (args\<lparr>ar_index := int n + 1, ar_length := 8\<rparr>) of
        A_nil \<Rightarrow> Some (Inr (buf, pos, wide, False))
      | A_noarray \<Rightarrow> Some (Inr (buf, pos, wide, True))
      | A_error \<Rightarrow> Some (Inl ())
      | A_bytes _ \<Rightarrow> Some (Inl ())
      | A_u32 v \<Rightarrow>
          if room < SIZEOF_INT64 then Some (Inl ())
          else (case do {
              buf \<leftarrow> arr_copy buf pos (le32 v);
              if wide then uint32_to_uint64 (v AND 0x80000000 \<noteq> 0) buf pos else Some buf } of
            None \<Rightarrow> None
          | Some buf \<Rightarrow> int_array_loop cb args header buf (pos + (if wide then 8 else 4)) (room - (if wide then 8 else 4)) wide (n + 1))
      | A_u64 v \<Rightarrow>
          if room < SIZEOF_INT64 then Some (Inl ())
          else if wide then (case arr_copy buf pos (le64 v) of
            None \<Rightarrow> None
          | Some buf \<Rightarrow> int_array_loop cb args header buf (pos + 8) (room - 8) True (n + 1))
          else if room - int n * SIZEOF_INT32 < SIZEOF_INT64 then Some (Inl ())
          else (case do {
              buf \<leftarrow> each (spread_one header) (rev [0..<n]) buf;
              arr_copy buf (pos + n * 4) (le64 v) } of
            None \<Rightarrow> None
          | Some buf \<Rightarrow> int_array_loop cb args header buf (pos + n * 4 + 8) (room - int n * SIZEOF_INT32 - 8) True (n + 1)))"
  by pat_completeness auto
termination
  by (relation "measure (\<lambda>(cb, args, header, buf, pos, room, wide, n). nat room)") (auto simp: SIZEOF_INT64_def SIZEOF_INT32_def)

declare int_array_loop.simps [simp del]

definition encode_integer_array :: "ecallback \<Rightarrow> sproto_arg \<Rightarrow> bytes \<Rightarrow> nat \<Rightarrow> int \<Rightarrow> (unit + bytes \<times> nat \<times> bool) option" where
  "encode_integer_array cb args buf header room =
     (if room < 1 then Some (Inl ())
      else do {
        r \<leftarrow> int_array_loop cb args header buf (header + 1) (room - 1) False 0;
        case r of
          Inl _ \<Rightarrow> Some (Inl ())
        | Inr (buf, pos, wide, noarray) \<Rightarrow>
            if pos = header + 1 then Some (Inr (buf, header, noarray))
            else do {
              buf \<leftarrow> arr_set buf header (if wide then 8 else 4);
              Some (Inr (buf, pos, noarray)) } })"

function encode_array_object :: "ecallback \<Rightarrow> sproto_arg \<Rightarrow> bytes \<Rightarrow> nat \<Rightarrow> int \<Rightarrow> int \<Rightarrow> (unit + bytes \<times> nat \<times> bool) option" where
  "encode_array_object cb args buf pos room index =
     (if room < 4 then Some (Inl ())
      else case cb (args\<lparr>ar_index := index, ar_length := room - 4\<rparr>) of
        A_nil \<Rightarrow> Some (Inr (buf, pos, False))
      | A_noarray \<Rightarrow> Some (Inr (buf, pos, True))
      | A_error \<Rightarrow> Some (Inl ())
      | a \<Rightarrow> (case do {
            buf \<leftarrow> arr_copy buf (pos + 4) (answer_bytes a);
            fill_size buf pos (length (answer_bytes a)) } of
          None \<Rightarrow> None
        | Some buf \<Rightarrow> encode_array_object cb args buf (pos + 4 + length (answer_bytes a)) (room - 4 - int (length (answer_bytes a))) (index + 1)))"
  by pat_completeness auto
termination by (relation "measure (\<lambda>(cb, args, buf, pos, room, index). nat room)") auto

declare encode_array_object.simps [simp del]

function bool_array_loop :: "ecallback \<Rightarrow> sproto_arg \<Rightarrow> bytes \<Rightarrow> nat \<Rightarrow> int \<Rightarrow> int \<Rightarrow> (unit + bytes \<times> nat \<times> bool) option" where
  "bool_array_loop cb args buf pos room index =
     (case cb (args\<lparr>ar_index := index, ar_length := 4\<rparr>) of
        A_nil \<Rightarrow> Some (Inr (buf, pos, False))
      | A_noarray \<Rightarrow> Some (Inr (buf, pos, True))
      | A_u32 v \<Rightarrow>
          if room < 1 then Some (Inl ())
          else (case arr_set buf pos (if v \<noteq> 0 then 1 else 0) of
            None \<Rightarrow> None
          | Some buf \<Rightarrow> bool_array_loop cb args buf (pos + 1) (room - 1) (index + 1))
      | _ \<Rightarrow> Some (Inl ()))"
  by pat_completeness auto
termination by (relation "measure (\<lambda>(cb, args, buf, pos, room, index). nat room)") auto

declare bool_array_loop.simps [simp del]

definition encode_array :: "ecallback \<Rightarrow> sproto_arg \<Rightarrow> bytes \<Rightarrow> nat \<Rightarrow> int \<Rightarrow> (unit + nat \<times> bytes) option" where
  "encode_array cb args buf data room =
     (if room < 4 then Some (Inl ())
      else do {
        r \<leftarrow> (if ar_type args = SPROTO_TDOUBLE \<or> ar_type args = SPROTO_TINTEGER then encode_integer_array cb args buf (data + 4) (room - 4)
              else if ar_type args = SPROTO_TBOOLEAN then bool_array_loop cb args buf (data + 4) (room - 4) 1
              else encode_array_object cb args buf (data + 4) (room - 4) 1);
        case r of
          Inl _ \<Rightarrow> Some (Inl ())
        | Inr (buf, pos, noarray) \<Rightarrow>
            if noarray then Some (Inr (0, buf))
            else do {
              buf \<leftarrow> fill_size buf data (pos - (data + 4));
              Some (Inr (pos - (data + 4) + 4, buf)) } })"

subsection \<open>Messages\<close>

text \<open>What a field comes to: -1, the end of the whole encoding with 0, no value, or \<open>value\<close> and \<open>sz\<close>; and the buffer.\<close>

datatype field_result = F_error | F_return0 | F_skip bytes | F_done nat nat bytes

definition done_of :: "(unit + nat \<times> bytes) \<Rightarrow> field_result" where
  "done_of r = (case r of Inl _ \<Rightarrow> F_error | Inr (sz, buf) \<Rightarrow> if sz = 0 then F_skip buf else F_done 0 sz buf)"

definition encode_field :: "ecallback \<Rightarrow> sproto_type list \<Rightarrow> sproto_field \<Rightarrow> bytes \<Rightarrow> nat \<Rightarrow> int \<Rightarrow> field_result option" where
  "encode_field cb types f buf data room =
     (if fd_type f AND SPROTO_TARRAY \<noteq> 0 then do {
        args \<leftarrow> map_names types f (field_arg f);
        map_option done_of (encode_array cb args buf data room) }
      else if fd_type f = SPROTO_TDOUBLE \<or> fd_type f = SPROTO_TINTEGER \<or> fd_type f = SPROTO_TBOOLEAN then
        (case cb (field_arg f\<lparr>ar_length := 8\<rparr>) of
           A_nil \<Rightarrow> Some (F_skip buf)
         | A_noarray \<Rightarrow> Some F_return0
         | A_u32 v \<Rightarrow>
             if v < 0x7fff then Some (F_done (unat ((v + 1) * 2)) 2 buf)
             else map_option done_of (encode_integer v buf data room)
         | A_u64 v \<Rightarrow> map_option done_of (encode_uint64 v buf data room)
         | _ \<Rightarrow> Some F_error)
      else if fd_type f = SPROTO_TSTRUCT \<or> fd_type f = SPROTO_TSTRING then
        map_option done_of (encode_object cb (field_arg f) buf data room)
      else Some F_error)"

record encode_state =
  es_buf :: bytes
  es_data :: nat
  es_size :: int
  es_index :: nat
  es_lasttag :: int

text \<open>One field of the loop; \<open>Inl\<close> is an early return.\<close>

definition encode_step :: "ecallback \<Rightarrow> sproto_type list \<Rightarrow> sproto_field \<Rightarrow> encode_state \<Rightarrow> (int + encode_state) option" where
  "encode_step cb types f s = do {
     r \<leftarrow> encode_field cb types f (es_buf s) (es_data s) (es_size s);
     case r of
       F_error \<Rightarrow> Some (Inl (- 1))
     | F_return0 \<Rightarrow> Some (Inl 0)
     | F_skip buf \<Rightarrow> Some (Inr (s\<lparr>es_buf := buf\<rparr>))
     | F_done val sz buf \<Rightarrow>
         let s = s\<lparr>es_buf := buf\<rparr>;
             s = (if val = 0 then s\<lparr>es_data := es_data s + sz, es_size := es_size s - int sz\<rparr> else s);
             tag = fd_tag f - es_lasttag s - 1;
             skip = (tag - 1) * 2 + 1 in
         if 0 < tag \<and> 0xffff < skip then Some (Inl (- 1))
         else do {
           s \<leftarrow> (if 0 < tag then do {
                  buf \<leftarrow> arr_copy (es_buf s) (SIZEOF_HEADER + SIZEOF_FIELD * es_index s) (le16 (nat skip));
                  Some (s\<lparr>es_buf := buf, es_index := es_index s + 1\<rparr>) }
                else Some s);
           buf \<leftarrow> arr_copy (es_buf s) (SIZEOF_HEADER + SIZEOF_FIELD * es_index s) (le16 val);
           Some (Inr (s\<lparr>es_buf := buf, es_index := es_index s + 1, es_lasttag := fd_tag f\<rparr>)) } }"

fun encode_loop :: "ecallback \<Rightarrow> sproto_type list \<Rightarrow> sproto_field list \<Rightarrow> encode_state \<Rightarrow> (int + encode_state) option" where
  "encode_loop cb types [] s = Some (Inr s)"
| "encode_loop cb types (f # fs) s = do {
     r \<leftarrow> encode_step cb types f s;
     case r of Inl e \<Rightarrow> Some (Inl e) | Inr s \<Rightarrow> encode_loop cb types fs s }"

definition sproto_encode :: "ecallback \<Rightarrow> sproto_type list \<Rightarrow> sproto_type \<Rightarrow> bytes \<Rightarrow> (int \<times> bytes) option" where
  "sproto_encode cb types st buf =
     (let header_sz = SIZEOF_HEADER + ty_maxn st * SIZEOF_FIELD in
      if length buf < header_sz then Some (- 1, buf)
      else do {
        r \<leftarrow> encode_loop cb types (take (ty_n st) (ty_f st))
          \<lparr>es_buf = buf, es_data = header_sz, es_size = int (length buf) - int header_sz, es_index = 0, es_lasttag = - 1\<rparr>;
        case r of
          Inl e \<Rightarrow> Some (e, buf)
        | Inr s \<Rightarrow> do {
            out \<leftarrow> arr_copy (es_buf s) 0 (le16 (es_index s));
            let datasz = es_data s - header_sz;
            let end = SIZEOF_HEADER + es_index s * SIZEOF_FIELD;
            out \<leftarrow> (if es_index s \<noteq> ty_maxn st then do {
                     blocks \<leftarrow> arr_slice out header_sz datasz;
                     arr_copy out end blocks }
                   else Some out);
            Some (int (end + datasz), out) } })"

subsection \<open>Writing into the buffer\<close>

definition keeps :: "nat \<Rightarrow> bytes \<Rightarrow> bytes \<Rightarrow> bool" where
  "keeps p buf buf' \<longleftrightarrow> length buf' = length buf \<and> take p buf' = take p buf"

lemma keeps_refl [simp]: "keeps p buf buf"
  by (simp add: keeps_def)

lemma keeps_trans: "keeps p a b \<Longrightarrow> keeps p b c \<Longrightarrow> keeps p a c"
  by (simp add: keeps_def)

lemma keeps_mono: "keeps p a b \<Longrightarrow> q \<le> p \<Longrightarrow> keeps q a b"
  unfolding keeps_def by (metis min.absorb1 take_take)

lemma keeps_length: "keeps p a b \<Longrightarrow> length b = length a"
  by (simp add: keeps_def)

lemma lies_keeps:
  assumes "lies buf q ys" "q + length ys \<le> p" "keeps p buf buf'"
  shows "lies buf' q ys"
proof -
  have "take (length ys) (drop q (take p b)) = take (length ys) (drop q b)" for b :: bytes using assms(2) by (simp add: drop_take)
  from this [of buf] this [of buf'] show ?thesis using assms(1,3) by (simp add: lies_def keeps_def)
qed

lemma arr_copy_wrote:
  assumes "p + length xs \<le> length buf"
  obtains buf' where "arr_copy buf p xs = Some buf'" "keeps p buf buf'" "lies buf' p xs" "drop (p + length xs) buf' = drop (p + length xs) buf"
  using assms by (simp add: arr_copy_def keeps_def lies_def)

lemma fill_size_wrote:
  assumes "p + 4 \<le> length buf"
  obtains buf' where "fill_size buf p n = Some buf'" "keeps p buf buf'" "lies buf' p (le32 (word_of_nat n))" "drop (p + 4) buf' = drop (p + 4) buf"
  using arr_copy_wrote [of p "le32 (word_of_nat n)" buf] assms by (auto simp: fill_size_def)

lemma lies_drop: "lies buf (q + k) ys \<Longrightarrow> drop q buf' = drop q buf \<Longrightarrow> length buf' = length buf \<Longrightarrow> lies buf' (q + k) ys"
proof -
  assume a: "lies buf (q + k) ys" "drop q buf' = drop q buf" "length buf' = length buf"
  have "drop (q + k) buf' = drop (q + k) buf" using arg_cong [OF a(2), of "drop k"] by (simp add: add.commute)
  then show ?thesis using a(1,3) by (simp add: lies_def)
qed

text \<open>A block behind its length, which is written first or last.\<close>

definition block_at :: "bytes \<Rightarrow> nat \<Rightarrow> bytes \<Rightarrow> bool" where
  "block_at buf p d \<longleftrightarrow> lies buf p (le32 (word_of_nat (length d)) @ d)"

lemma copy_then_size:
  assumes "p + 4 + length d \<le> length buf"
  obtains buf' where "do { buf \<leftarrow> arr_copy buf (p + 4) d; fill_size buf p (length d) } = Some buf'" "keeps p buf buf'" "block_at buf' p d"
proof -
  obtain b1 where b1: "arr_copy buf (p + 4) d = Some b1" "keeps (p + 4) buf b1" "lies b1 (p + 4) d" by (rule arr_copy_wrote [OF assms])
  obtain b2 where b2: "fill_size b1 p (length d) = Some b2" "keeps p b1 b2" "lies b2 p (le32 (word_of_nat (length d)))" "drop (p + 4) b2 = drop (p + 4) b1"
    using fill_size_wrote [of p b1 "length d"] assms keeps_length [OF b1(2)] by auto
  have "lies b2 (p + 4 + 0) d" by (rule lies_drop [OF _ b2(4) keeps_length [OF b2(2)]]) (use b1(3) in simp)
  then have "block_at b2 p d" using b2(3) by (simp add: block_at_def lies_append)
  moreover have "keeps p buf b2" using keeps_trans [OF keeps_mono [OF b1(2)] b2(2)] by simp
  moreover have "do { buf \<leftarrow> arr_copy buf (p + 4) d; fill_size buf p (length d) } = Some b2" using b1(1) b2(1) by simp
  ultimately show ?thesis using that by blast
qed

text \<open>The outcome of writing a block \<open>d\<close> that needs \<open>need\<close> more bytes of room than its length.\<close>

definition wrote_block :: "bytes \<Rightarrow> nat \<Rightarrow> int \<Rightarrow> nat \<Rightarrow> bytes \<Rightarrow> (unit + nat \<times> bytes) option \<Rightarrow> bool" where
  "wrote_block buf p room need d r \<longleftrightarrow>
     r = Some (Inl ()) \<and> room < int (length d + 4 + need) \<or>
     (\<exists>buf'. r = Some (Inr (length d + 4, buf')) \<and> keeps p buf buf' \<and> block_at buf' p d \<and> int (length d + 4) \<le> room)"

text \<open>The answers that do not depend on the room, except that bytes may be refused when they do not fit with some slack.\<close>

definition serves :: "nat \<Rightarrow> ecallback \<Rightarrow> ecallback \<Rightarrow> bool" where
  "serves slack get cb \<longleftrightarrow> (\<forall>a. case get (a\<lparr>ar_length := 0\<rparr>) of
     A_bytes b \<Rightarrow> cb a = A_bytes b \<and> int (length b) \<le> ar_length a \<or> cb a = A_error \<and> ar_length a < int (length b + slack)
   | r \<Rightarrow> cb a = r)"

lemma serves_bytes:
  assumes "serves slack get cb" "get (a\<lparr>ar_length := 0\<rparr>) = A_bytes b"
  obtains "cb a = A_bytes b" "int (length b) \<le> ar_length a" | "cb a = A_error" "ar_length a < int (length b + slack)"
proof -
  have "case get (a\<lparr>ar_length := 0\<rparr>) of
     A_bytes b \<Rightarrow> cb a = A_bytes b \<and> int (length b) \<le> ar_length a \<or> cb a = A_error \<and> ar_length a < int (length b + slack)
   | r \<Rightarrow> cb a = r" using assms(1) unfolding serves_def by blast
  then show ?thesis using that assms(2) by auto
qed

lemma serves_other:
  "serves slack get cb \<Longrightarrow> get (a\<lparr>ar_length := 0\<rparr>) = r \<Longrightarrow> (\<And>b. r \<noteq> A_bytes b) \<Longrightarrow> cb a = r"
  unfolding serves_def by (drule spec [of _ a]) (auto split: answer.splits)

lemma encode_integer_wrote:
  assumes "0 \<le> room" "int p + room \<le> int (length buf)"
  shows "wrote_block buf p room 0 (le32 v) (encode_integer v buf p room)"
proof (cases "room < 8")
  case True
  then show ?thesis using assms(1) by (simp add: wrote_block_def encode_integer_def)
next
  case False
  obtain buf' where "do { buf \<leftarrow> arr_copy buf (p + 4) (le32 v); fill_size buf p (length (le32 v)) } = Some buf'" "keeps p buf buf'" "block_at buf' p (le32 v)"
    using copy_then_size [of p "le32 v" buf] assms False by auto
  then show ?thesis using False by (auto simp: wrote_block_def encode_integer_def bind_eq_Some_conv)
qed

lemma encode_uint64_wrote:
  assumes "0 \<le> room" "int p + room \<le> int (length buf)"
  shows "wrote_block buf p room 0 (le64 v) (encode_uint64 v buf p room)"
proof (cases "room < 12")
  case True
  then show ?thesis using assms(1) by (simp add: wrote_block_def encode_uint64_def)
next
  case False
  obtain buf' where "do { buf \<leftarrow> arr_copy buf (p + 4) (le64 v); fill_size buf p (length (le64 v)) } = Some buf'" "keeps p buf buf'" "block_at buf' p (le64 v)"
    using copy_then_size [of p "le64 v" buf] assms False by auto
  then show ?thesis using False by (auto simp: wrote_block_def encode_uint64_def bind_eq_Some_conv)
qed

lemma encode_object_wrote:
  assumes cb: "serves slack get cb" "get (args\<lparr>ar_length := 0\<rparr>) = A_bytes b" and room: "int p + room \<le> int (length buf)"
  shows "wrote_block buf p room slack b (encode_object cb args buf p room)"
proof (cases "room < 4")
  case True
  then show ?thesis by (simp add: wrote_block_def encode_object_def)
next
  case False
  consider "cb (args\<lparr>ar_length := room - 4\<rparr>) = A_bytes b" "int (length b) \<le> room - 4"
    | "cb (args\<lparr>ar_length := room - 4\<rparr>) = A_error" "room - 4 < int (length b + slack)"
    using serves_bytes [OF cb(1), of "args\<lparr>ar_length := room - 4\<rparr>" b] cb(2) by auto
  then show ?thesis
  proof cases
    case 1
    then have "p + 4 + length b \<le> length buf" using room by simp
    then obtain buf' where "do { buf \<leftarrow> arr_copy buf (p + 4) b; fill_size buf p (length b) } = Some buf'" "keeps p buf buf'" "block_at buf' p b"
      by (rule copy_then_size)
    then show ?thesis using False 1 by (auto simp: wrote_block_def encode_object_def c_assert_def bind_eq_Some_conv)
  next
    case 2
    then show ?thesis using False by (auto simp: wrote_block_def encode_object_def)
  qed
qed

subsection \<open>Writing the elements of an array\<close>

fun answers :: "ecallback \<Rightarrow> sproto_arg \<Rightarrow> int \<Rightarrow> answer list \<Rightarrow> bool" where
  "answers get args i [] \<longleftrightarrow> get (args\<lparr>ar_index := i, ar_length := 0\<rparr>) = A_nil"
| "answers get args i (a # as) \<longleftrightarrow> get (args\<lparr>ar_index := i, ar_length := 0\<rparr>) = a \<and> answers get args (i + 1) as"

text \<open>The outcome of writing the bytes \<open>d\<close>: \<open>k\<close> gives the result for the new buffer.\<close>

definition wrote_elems :: "bytes \<Rightarrow> nat \<Rightarrow> int \<Rightarrow> nat \<Rightarrow> bytes \<Rightarrow> (bytes \<Rightarrow> 'r) \<Rightarrow> (unit + 'r) option \<Rightarrow> bool" where
  "wrote_elems buf p room need d k r \<longleftrightarrow>
     r = Some (Inl ()) \<and> room < int (length d + need) \<or>
     (\<exists>buf'. r = Some (Inr (k buf')) \<and> keeps p buf buf' \<and> lies buf' p d \<and> int (length d) \<le> room)"

lemma wrote_elems_more:
  assumes "keeps p buf b1" "lies b1 p x" "int (length x) \<le> room"
    and "wrote_elems b1 (p + length x) (room - int (length x)) need d k r"
  shows "wrote_elems buf p room need (x @ d) k r"
  using assms(4) unfolding wrote_elems_def
proof (elim disjE exE conjE)
  fix buf'
  assume w: "r = Some (Inr (k buf'))" "keeps (p + length x) b1 buf'" "lies buf' (p + length x) d" "int (length d) \<le> room - int (length x)"
  have "lies buf' p x" by (rule lies_keeps [OF assms(2) _ w(2)]) simp
  moreover have "keeps p buf buf'" using keeps_trans [OF assms(1) keeps_mono [OF w(2)]] by simp
  ultimately show "r = Some (Inl ()) \<and> room < int (length (x @ d) + need) \<or>
      (\<exists>buf'. r = Some (Inr (k buf')) \<and> keeps p buf buf' \<and> lies buf' p (x @ d) \<and> int (length (x @ d)) \<le> room)"
    using w by (auto simp: lies_append)
qed auto

lemma bool_array_loop_wrote:
  assumes "serves slack get cb"
  shows "answers get args i as \<Longrightarrow> \<forall>a \<in> set as. fits SPROTO_TBOOLEAN a \<Longrightarrow> 0 \<le> room \<Longrightarrow> int p + room \<le> int (length buf) \<Longrightarrow>
    wrote_elems buf p room 0 (map (\<lambda>a. if low32 a = 0 then 0 else 1) as) (\<lambda>b. (b, p + length as, False)) (bool_array_loop cb args buf p room i)"
proof (induction as arbitrary: i p room buf)
  case Nil
  have "cb (args\<lparr>ar_index := i, ar_length := 4\<rparr>) = A_nil" using Nil.prems(1) by (intro serves_other [OF assms]) simp_all
  then show ?case using Nil.prems by (subst bool_array_loop.simps) (simp add: wrote_elems_def)
next
  case (Cons a as)
  have "fits SPROTO_TBOOLEAN a" using Cons.prems(2) by simp
  then obtain v where a: "a = A_u32 v" by (rule fits_cases) (auto simp: sproto_types)
  have cb: "cb (args\<lparr>ar_index := i, ar_length := 4\<rparr>) = A_u32 v" using Cons.prems(1) a by (intro serves_other [OF assms]) simp_all
  show ?case
  proof (cases "room < 1")
    case True
    then show ?thesis using cb by (subst bool_array_loop.simps) (simp add: wrote_elems_def)
  next
    case False
    define x where "x = (if low32 a = 0 then 0 else 1 :: u8)"
    obtain b1 where b1: "arr_copy buf p [x] = Some b1" "keeps p buf b1" "lies b1 p [x]" using arr_copy_wrote [of p "[x]" buf] Cons.prems(4) False by auto
    have set: "arr_set buf p x = Some b1" using b1(1) Cons.prems(4) False by (auto simp: arr_copy_def arr_set_def upd_conv_take_nth_drop)
    have "wrote_elems b1 (p + 1) (room - 1) 0 (map (\<lambda>a. if low32 a = 0 then 0 else 1) as) (\<lambda>b. (b, p + 1 + length as, False))
        (bool_array_loop cb args b1 (p + 1) (room - 1) (i + 1))"
      using Cons.prems False keeps_length [OF b1(2)] by (intro Cons.IH) simp_all
    then have "wrote_elems buf p room 0 ([x] @ map (\<lambda>a. if low32 a = 0 then 0 else 1) as) (\<lambda>b. (b, p + 1 + length as, False))
        (bool_array_loop cb args b1 (p + 1) (room - 1) (i + 1))"
      using False by (intro wrote_elems_more [OF b1(2,3)]) simp_all
    moreover have "bool_array_loop cb args buf p room i = bool_array_loop cb args b1 (p + 1) (room - 1) (i + 1)"
      using cb False set a by (subst bool_array_loop.simps) (cases "v = 0", simp_all add: x_def low32_def)
    ultimately show ?thesis by (simp add: x_def)
  qed
qed

definition object_elems :: "answer list \<Rightarrow> bytes" where
  "object_elems as = concat (map (\<lambda>a. le32 (word_of_nat (length (the_bytes a))) @ the_bytes a) as)"

lemma encode_array_object_wrote:
  assumes "serves slack get cb"
  shows "answers get args i as \<Longrightarrow> \<forall>a \<in> set as. \<exists>b. a = A_bytes b \<Longrightarrow> int p + room \<le> int (length buf) \<Longrightarrow>
    wrote_elems buf p room (4 + slack) (object_elems as) (\<lambda>b. (b, p + length (object_elems as), False)) (encode_array_object cb args buf p room i)"
proof (induction as arbitrary: i p room buf)
  case Nil
  have "cb (args\<lparr>ar_index := i, ar_length := room - 4\<rparr>) = A_nil" using Nil.prems(1) by (intro serves_other [OF assms]) simp_all
  then show ?case using Nil.prems by (subst encode_array_object.simps) (auto simp: wrote_elems_def object_elems_def)
next
  case (Cons a as)
  let ?rest = "object_elems as"
  obtain b where a: "a = A_bytes b" using Cons.prems(2) by auto
  then have d: "object_elems (a # as) = (le32 (word_of_nat (length b)) @ b) @ ?rest"
    by (simp add: the_bytes_def object_elems_def)
  show ?case
  proof (cases "room < 4")
    case True
    then show ?thesis unfolding d by (subst encode_array_object.simps) (simp add: wrote_elems_def)
  next
    case False
    consider "cb (args\<lparr>ar_index := i, ar_length := room - 4\<rparr>) = A_bytes b" "int (length b) \<le> room - 4"
      | "cb (args\<lparr>ar_index := i, ar_length := room - 4\<rparr>) = A_error" "room - 4 < int (length b + slack)"
      using serves_bytes [OF assms, of "args\<lparr>ar_index := i, ar_length := room - 4\<rparr>" b] Cons.prems(1) a by auto
    then show ?thesis
    proof cases
      case 1
      then have "p + 4 + length b \<le> length buf" using Cons.prems(3) by simp
      then obtain b1 where b1: "do { buf \<leftarrow> arr_copy buf (p + 4) b; fill_size buf p (length b) } = Some b1" "keeps p buf b1" "block_at b1 p b"
        by (rule copy_then_size)
      let ?x = "le32 (word_of_nat (length b)) @ b"
      have "wrote_elems b1 (p + length ?x) (room - int (length ?x)) (4 + slack) ?rest (\<lambda>b. (b, p + length ?x + length ?rest, False))
          (encode_array_object cb args b1 (p + length ?x) (room - int (length ?x)) (i + 1))"
        using Cons.prems keeps_length [OF b1(2)] by (intro Cons.IH) simp_all
      then have "wrote_elems buf p room (4 + slack) (?x @ ?rest) (\<lambda>b. (b, p + length ?x + length ?rest, False))
          (encode_array_object cb args b1 (p + length ?x) (room - int (length ?x)) (i + 1))"
        using wrote_elems_more [OF b1(2), of ?x room "4 + slack" ?rest "\<lambda>b. (b, p + length ?x + length ?rest, False)"] b1(3) 1(2) unfolding block_at_def by simp
      moreover have "encode_array_object cb args buf p room i = encode_array_object cb args b1 (p + length ?x) (room - int (length ?x)) (i + 1)"
        using 1(1) False b1(1) by (subst encode_array_object.simps) (simp add: add.assoc [symmetric] diff_diff_eq)
      ultimately show ?thesis unfolding d by (simp add: add_ac)
    next
      case 2
      then show ?thesis using False unfolding d by (subst encode_array_object.simps) (simp add: wrote_elems_def)
    qed
  qed
qed

subsection \<open>Widening in place\<close>

lemma sign_32: "v AND 0x80000000 \<noteq> 0 \<longleftrightarrow> bit (v :: u32) 31"
proof -
  have "(0x80000000 :: u32) = push_bit 31 1" by simp
  then show ?thesis by (simp only: bit_iff_and_push_bit_not_eq_0)
qed

lemma sign_64: "ucast v AND (0x80000000 :: u64) \<noteq> 0 \<longleftrightarrow> bit (v :: u32) 31"
proof -
  have "(0x80000000 :: u64) = push_bit 31 1" by simp
  then have "ucast v AND (0x80000000 :: u64) \<noteq> 0 \<longleftrightarrow> bit (ucast v :: u64) 31" by (simp only: bit_iff_and_push_bit_not_eq_0)
  also have "\<dots> \<longleftrightarrow> bit v 31" by (simp only: bit_ucast_iff) auto
  finally show ?thesis .
qed

lemma sign_byte: "(le32 v ! 3) AND 0x80 \<noteq> 0 \<longleftrightarrow> bit v 31"
proof -
  have "(0x80 :: u8) = push_bit 7 1" by simp
  then have "(le32 v ! 3) AND 0x80 \<noteq> 0 \<longleftrightarrow> bit (le32 v ! 3) 7" by (simp only: bit_iff_and_push_bit_not_eq_0)
  moreover have "le32 v ! 3 = ucast (drop_bit 24 v AND 0xff)" by (simp add: le32_def)
  moreover have "bit (ucast (drop_bit 24 v AND 0xff) :: u8) 7 \<longleftrightarrow> bit v 31"
    by (simp only: bit_ucast_iff bit_and_iff bit_drop_bit_eq bit_0xff_32 comp_def) auto
  ultimately show ?thesis by (simp only:)
qed

definition sign_bytes :: "u32 \<Rightarrow> bytes" where
  "sign_bytes v = replicate 4 (if bit v 31 then 0xff else 0)"

lemma length_sign_bytes [simp]: "length (sign_bytes v) = 4"
  by (simp add: sign_bytes_def)

lemma expand64_if: "expand64 v = (if bit v 31 then ucast v OR NOT (mask 32) else ucast v)"
proof -
  have "push_bit 32 (NOT 0) = (NOT (mask 32) :: u64)"
    by (rule bit_word_eqI) (auto simp: bit_push_bit_iff bit_not_iff bit_mask_iff)
  then show ?thesis by (simp only: expand64_def Let_def sign_64)
qed

lemma expand64_halves: "ucast (expand64 v) = v" "ucast (drop_bit 32 (expand64 v)) = (if bit v 31 then (- 1 :: u32) else 0)"
  by (rule bit_word_eqI; auto simp: expand64_if bit_ucast_iff bit_or_iff bit_not_iff bit_mask_iff bit_drop_bit_eq dest: bit_imp_le_length)+

lemma le64_expand: "le64 (expand64 v) = le32 v @ sign_bytes v"
proof -
  have r: "replicate 4 x = [x, x, x, x]" for x :: u8 by (simp add: numeral_eq_Suc)
  have "le32 (- 1) = replicate 4 0xff" "le32 0 = replicate 4 0" unfolding r by (simp_all add: le32_def mask_eq_exp_minus_1)
  then show ?thesis by (simp add: le64_def sign_bytes_def expand64_halves)
qed

lemma uint32_to_uint64_wrote:
  assumes "lies buf p (le32 v)" "p + 8 \<le> length buf"
  obtains buf' where "uint32_to_uint64 (bit v 31) buf p = Some buf'" "keeps p buf buf'" "lies buf' p (le64 (expand64 v))" "drop (p + 8) buf' = drop (p + 8) buf"
proof -
  obtain b where b: "arr_copy buf (p + 4) (sign_bytes v) = Some b" "keeps (p + 4) buf b" "lies b (p + 4) (sign_bytes v)" "drop (p + 8) b = drop (p + 8) buf"
    using arr_copy_wrote [of "p + 4" "sign_bytes v" buf] assms(2) by (auto simp: add.assoc)
  have "lies b p (le32 v)" by (rule lies_keeps [OF assms(1) _ b(2)]) simp
  then have "lies b p (le64 (expand64 v))" using b(3) by (simp add: le64_expand lies_append)
  moreover have "keeps p buf b" by (rule keeps_mono [OF b(2)]) simp
  ultimately show ?thesis using that b(1,4) by (simp add: uint32_to_uint64_def sign_bytes_def)
qed

lemma spread_one_wrote:
  assumes "lies buf (h + 1 + i * 4) (le32 v)" "h + 1 + i * 8 + 8 \<le> length buf"
  obtains buf' where "spread_one h i buf = Some buf'" "keeps (h + 1 + i * 8) buf buf'" "lies buf' (h + 1 + i * 8) (le64 (expand64 v))"
    "drop (h + 1 + i * 8 + 8) buf' = drop (h + 1 + i * 8 + 8) buf"
proof -
  let ?p = "h + 1 + i * 8"
  have "arr_slice buf (h + 1 + i * 4) 4 = Some (le32 v)" using assms(1) by (simp add: arr_slice_def lies_def)
  moreover obtain b1 where b1: "arr_copy buf ?p (le32 v) = Some b1" "keeps ?p buf b1" "lies b1 ?p (le32 v)" "drop (?p + 4) b1 = drop (?p + 4) buf"
    using arr_copy_wrote [of ?p "le32 v" buf] assms(2) by auto
  moreover have "arr_get b1 (?p + 3) = Some (le32 v ! 3)" by (rule lies_nth [OF b1(3)]) simp
  moreover obtain b2 where b2: "uint32_to_uint64 (bit v 31) b1 ?p = Some b2" "keeps ?p b1 b2" "lies b2 ?p (le64 (expand64 v))" "drop (?p + 8) b2 = drop (?p + 8) b1"
    using uint32_to_uint64_wrote [OF b1(3)] assms(2) keeps_length [OF b1(2)] by auto
  moreover have "drop (?p + 8) b1 = drop (?p + 8) buf" using arg_cong [OF b1(4), of "drop 4"] by (simp add: add.commute)
  ultimately show ?thesis using that [of b2] keeps_trans [OF b1(2) b2(2)] by (simp add: spread_one_def sign_byte)
qed

lemma spread_wrote:
  "lies buf (h + 1) (concat (map le32 vs)) \<Longrightarrow> h + 1 + length vs * 8 \<le> length buf \<Longrightarrow>
   \<exists>buf'. each (spread_one h) (rev [0..<length vs]) buf = Some buf' \<and> keeps (h + 1) buf buf' \<and>
     lies buf' (h + 1) (concat (map (le64 \<circ> expand64) vs)) \<and> drop (h + 1 + length vs * 8) buf' = drop (h + 1 + length vs * 8) buf"
proof (induction vs arbitrary: buf rule: rev_induct)
  case Nil
  then show ?case by simp
next
  case (snoc v vs)
  let ?n = "length vs"
  have len: "length (concat (map le32 vs)) = ?n * 4" "length (concat (map (le64 \<circ> expand64) vs)) = ?n * 8"
    using length_concat_const [of le32 4 vs] length_concat_const [of "le64 \<circ> expand64" 8 vs] by simp_all
  have l: "lies buf (h + 1) (concat (map le32 vs))" "lies buf (h + 1 + ?n * 4) (le32 v)" using snoc.prems(1) len(1) by (simp_all add: lies_append)
  obtain b1 where b1: "spread_one h ?n buf = Some b1" "keeps (h + 1 + ?n * 8) buf b1" "lies b1 (h + 1 + ?n * 8) (le64 (expand64 v))"
    "drop (h + 1 + ?n * 8 + 8) b1 = drop (h + 1 + ?n * 8 + 8) buf"
    using spread_one_wrote [OF l(2)] snoc.prems(2) by auto
  have "lies b1 (h + 1) (concat (map le32 vs))" by (rule lies_keeps [OF l(1) _ b1(2)]) (use len in simp)
  then obtain b2 where b2: "each (spread_one h) (rev [0..<?n]) b1 = Some b2" "keeps (h + 1) b1 b2" "lies b2 (h + 1) (concat (map (le64 \<circ> expand64) vs))"
    "drop (h + 1 + ?n * 8) b2 = drop (h + 1 + ?n * 8) b1"
    using snoc.IH [of b1] snoc.prems(2) keeps_length [OF b1(2)] by (auto simp: comp_def)
  have "lies b2 (h + 1 + ?n * 8 + 0) (le64 (expand64 v))" by (rule lies_drop [OF _ b2(4) keeps_length [OF b2(2)]]) (use b1(3) in simp)
  then have "lies b2 (h + 1) (concat (map (le64 \<circ> expand64) (vs @ [v])))" using b2(3) len(2) by (simp add: lies_append)
  moreover have "drop (h + 1 + ?n * 8 + 8) b2 = drop (h + 1 + ?n * 8 + 8) b1" using arg_cong [OF b2(4), of "drop 8"] by (simp add: add.commute)
  moreover have "keeps (h + 1) buf b2" using keeps_trans [OF keeps_mono [OF b1(2)] b2(2)] by simp
  ultimately show ?case using b1(1,4) b2(1) by (simp add: add.assoc add.commute comp_def)
qed

subsection \<open>Writing an array of numbers\<close>

lemma number_cases:
  assumes "number a"
  obtains (u32) v where "a = A_u32 v" | (u64) v where "a = A_u64 v"
  using assms by (cases a) (auto simp: number_def)

lemma store_wide:
  assumes "int p + room \<le> int (length buf)" "8 \<le> room"
  obtains b where "do { b \<leftarrow> arr_copy buf p (le32 v); uint32_to_uint64 (bit v 31) b p } = Some b" "keeps p buf b" "lies b p (le64 (expand64 v))"
proof -
  obtain b1 where b1: "arr_copy buf p (le32 v) = Some b1" "keeps p buf b1" "lies b1 p (le32 v)" using arr_copy_wrote [of p "le32 v" buf] assms by auto
  obtain b2 where "uint32_to_uint64 (bit v 31) b1 p = Some b2" "keeps p b1 b2" "lies b2 p (le64 (expand64 v))"
    using uint32_to_uint64_wrote [OF b1(3)] assms keeps_length [OF b1(2)] by auto
  then show ?thesis using that [of b2] b1(1) keeps_trans [OF b1(2)] by simp
qed

lemma int_loop_wide:
  assumes "serves slack get cb"
  shows "answers get args (int n + 1) as \<Longrightarrow> \<forall>a \<in> set as. number a \<Longrightarrow> 0 \<le> room \<Longrightarrow> int p + room \<le> int (length buf) \<Longrightarrow>
    wrote_elems buf p room 0 (concat (map (le64 \<circ> widen) as)) (\<lambda>b. (b, p + 8 * length as, True, False)) (int_array_loop cb args h buf p room True n)"
proof (induction as arbitrary: n p room buf)
  case Nil
  have "cb (args\<lparr>ar_index := int n + 1, ar_length := 8\<rparr>) = A_nil" using Nil.prems(1) by (intro serves_other [OF assms]) simp_all
  then show ?case using Nil.prems by (subst int_array_loop.simps) (simp add: wrote_elems_def)
next
  case (Cons a as)
  have num: "number a" using Cons.prems(2) by simp
  have cb: "cb (args\<lparr>ar_index := int n + 1, ar_length := 8\<rparr>) = a"
    using Cons.prems(1) num by (intro serves_other [OF assms]) (auto simp: number_def)
  show ?case
  proof (cases "room < 8")
    case True
    then show ?thesis using cb num by (subst int_array_loop.simps) (cases a; simp add: wrote_elems_def SIZEOF_INT64_def number_def)
  next
    case False
    have "\<exists>b. keeps p buf b \<and> lies b p (le64 (widen a)) \<and> int_array_loop cb args h buf p room True n = int_array_loop cb args h b (p + 8) (room - 8) True (n + 1)"
      using num
    proof (cases rule: number_cases)
      case (u32 v)
      obtain b where b: "do { b \<leftarrow> arr_copy buf p (le32 v); uint32_to_uint64 (bit v 31) b p } = Some b" "keeps p buf b" "lies b p (le64 (expand64 v))"
        using store_wide [OF Cons.prems(4), of v] False by auto
      then have "int_array_loop cb args h buf p room True n = int_array_loop cb args h b (p + 8) (room - 8) True (n + 1)"
        using cb u32 False by (subst int_array_loop.simps) (simp add: SIZEOF_INT64_def sign_32)
      then show ?thesis using b u32 by (auto simp: widen_def)
    next
      case (u64 v)
      obtain b where b: "arr_copy buf p (le64 v) = Some b" "keeps p buf b" "lies b p (le64 v)" using arr_copy_wrote [of p "le64 v" buf] Cons.prems(4) False by auto
      then have "int_array_loop cb args h buf p room True n = int_array_loop cb args h b (p + 8) (room - 8) True (n + 1)"
        using cb u64 False by (subst int_array_loop.simps) (simp add: SIZEOF_INT64_def)
      then show ?thesis using b u64 by (auto simp: widen_def)
    qed
    then obtain b where b: "keeps p buf b" "lies b p (le64 (widen a))"
      "int_array_loop cb args h buf p room True n = int_array_loop cb args h b (p + 8) (room - 8) True (n + 1)" by blast
    have "wrote_elems b (p + 8) (room - 8) 0 (concat (map (le64 \<circ> widen) as)) (\<lambda>b. (b, p + 8 + 8 * length as, True, False))
        (int_array_loop cb args h b (p + 8) (room - 8) True (n + 1))"
      using Cons.prems False keeps_length [OF b(1)] by (intro Cons.IH) (simp_all add: add_ac)
    then have "wrote_elems buf p room 0 (le64 (widen a) @ concat (map (le64 \<circ> widen) as)) (\<lambda>b. (b, p + 8 + 8 * length as, True, False))
        (int_array_loop cb args h b (p + 8) (room - 8) True (n + 1))"
      using False by (intro wrote_elems_more [OF b(1,2)]) simp_all
    then show ?thesis using b(3) by (simp add: add_ac comp_def)
  qed
qed

text \<open>The elements when \<open>vs\<close> are already stored with four bytes each.\<close>

definition number_elems :: "u32 list \<Rightarrow> answer list \<Rightarrow> bytes" where
  "number_elems vs as =
     (if list_all is_u32 as then concat (map le32 (vs @ map low32 as)) else concat (map le64 (map expand64 vs @ map widen as)))"

lemma length_number_elems: "length (number_elems vs as) = (length vs + length as) * (if list_all is_u32 as then 4 else 8)"
  using length_concat_const [of le32 4 "vs @ map low32 as"] length_concat_const [of le64 8 "map expand64 vs @ map widen as"]
  by (simp add: number_elems_def)

lemma int_loop_narrow:
  assumes "serves slack get cb"
  shows "answers get args (int (length vs) + 1) as \<Longrightarrow> \<forall>a \<in> set as. number a \<Longrightarrow> lies buf (h + 1) (concat (map le32 vs)) \<Longrightarrow> 0 \<le> room \<Longrightarrow>
    int (h + 1 + length vs * 4) + room \<le> int (length buf) \<Longrightarrow>
    wrote_elems buf (h + 1) (room + int (length vs * 4)) 4 (number_elems vs as) (\<lambda>b. (b, h + 1 + length (number_elems vs as), \<not> list_all is_u32 as, False))
      (int_array_loop cb args h buf (h + 1 + length vs * 4) room False (length vs))"
proof (induction as arbitrary: vs room buf)
  case Nil
  have "cb (args\<lparr>ar_index := int (length vs) + 1, ar_length := 8\<rparr>) = A_nil" using Nil.prems(1) by (intro serves_other [OF assms]) simp_all
  moreover have "number_elems vs [] = concat (map le32 vs)" by (simp add: number_elems_def)
  ultimately show ?case using Nil.prems(3,4) length_number_elems [of vs "[]"] by (subst int_array_loop.simps) (simp add: wrote_elems_def)
next
  case (Cons a as)
  let ?n = "length vs" and ?p = "h + 1 + length vs * 4"
  have num: "number a" using Cons.prems(2) by simp
  have cb: "cb (args\<lparr>ar_index := int ?n + 1, ar_length := 8\<rparr>) = a"
    using Cons.prems(1) num by (intro serves_other [OF assms]) (auto simp: number_def)
  have lv: "length (concat (map le32 vs)) = ?n * 4" using length_concat_const [of le32 4 vs] by simp
  show ?case
  proof (cases "room < 8")
    case True
    then have "int_array_loop cb args h buf ?p room False ?n = Some (Inl ())"
      using cb num by (subst int_array_loop.simps) (cases a; simp add: SIZEOF_INT64_def number_def)
    moreover have "room + int (?n * 4) < int (length (number_elems vs (a # as)) + 4)"
      using True Cons.prems(4) by (simp add: length_number_elems)
    ultimately show ?thesis by (simp add: wrote_elems_def)
  next
    case False
    from num show ?thesis
    proof (cases rule: number_cases)
      case (u32 v)
      obtain b where b: "arr_copy buf ?p (le32 v) = Some b" "keeps ?p buf b" "lies b ?p (le32 v)"
        using arr_copy_wrote [of ?p "le32 v" buf] Cons.prems(5) False by auto
      have "lies b (h + 1) (concat (map le32 vs))" by (rule lies_keeps [OF Cons.prems(3) _ b(2)]) (simp add: lv)
      then have l: "lies b (h + 1) (concat (map le32 (vs @ [v])))" using b(3) lv by (simp add: lies_append)
      have e: "number_elems (vs @ [v]) as = number_elems vs (a # as)" "list_all is_u32 (a # as) = list_all is_u32 as"
        using u32 by (auto simp: number_elems_def is_u32_def low32_def widen_def)
      have "wrote_elems b (h + 1) (room - 4 + int (length (vs @ [v]) * 4)) 4 (number_elems (vs @ [v]) as)
          (\<lambda>b. (b, h + 1 + length (number_elems (vs @ [v]) as), \<not> list_all is_u32 as, False))
          (int_array_loop cb args h b (h + 1 + length (vs @ [v]) * 4) (room - 4) False (length (vs @ [v])))"
        using Cons.prems False l keeps_length [OF b(2)] by (intro Cons.IH) (simp_all add: add_ac)
      moreover have "int_array_loop cb args h buf ?p room False ?n = int_array_loop cb args h b (h + 1 + length (vs @ [v]) * 4) (room - 4) False (length (vs @ [v]))"
        using cb u32 False b(1) by (subst int_array_loop.simps) (simp add: SIZEOF_INT64_def add_ac)
      moreover have "keeps (h + 1) buf b" by (rule keeps_mono [OF b(2)]) simp
      ultimately show ?thesis unfolding wrote_elems_def e by (auto dest: keeps_trans)
    next
      case (u64 v)
      have e: "\<not> list_all is_u32 (a # as)" "number_elems vs (a # as) = concat (map (le64 \<circ> expand64) vs) @ le64 v @ concat (map (le64 \<circ> widen) as)"
        using u64 by (simp_all add: number_elems_def is_u32_def widen_def comp_def)
      have len: "length (number_elems vs (a # as)) = (?n + length (a # as)) * 8" using length_number_elems [of vs "a # as"] e(1) by (simp only: if_False)
      have lw: "length (concat (map (le64 \<circ> expand64) vs)) = ?n * 8" using length_concat_const [of "le64 \<circ> expand64" 8 vs] by simp
      show ?thesis
      proof (cases "room - int ?n * 4 < 8")
        case True
        then have "int_array_loop cb args h buf ?p room False ?n = Some (Inl ())"
          using cb u64 False by (subst int_array_loop.simps) (simp add: SIZEOF_INT64_def SIZEOF_INT32_def)
        moreover have "room + int (?n * 4) < int (length (number_elems vs (a # as)) + 4)"
          using True by (simp add: len)
        ultimately show ?thesis by (simp add: wrote_elems_def)
      next
        case fits: False
        have "h + 1 + ?n * 8 \<le> length buf" using fits Cons.prems(5) by simp
        then obtain b1 where b1: "each (spread_one h) (rev [0..<?n]) buf = Some b1" "keeps (h + 1) buf b1" "lies b1 (h + 1) (concat (map (le64 \<circ> expand64) vs))"
          using spread_wrote [OF Cons.prems(3)] by blast
        let ?q = "h + 1 + ?n * 8"
        obtain b2 where b2: "arr_copy b1 ?q (le64 v) = Some b2" "keeps ?q b1 b2" "lies b2 ?q (le64 v)"
          using arr_copy_wrote [of ?q "le64 v" b1] keeps_length [OF b1(2)] Cons.prems(5) fits by auto
        have l2: "lies b2 (h + 1) (concat (map (le64 \<circ> expand64) vs))" by (rule lies_keeps [OF b1(3) _ b2(2)]) (simp add: lw)
        have l: "lies b2 (h + 1) (concat (map (le64 \<circ> expand64) vs) @ le64 v)" using l2 b2(3) lw by (simp add: lies_append)
        have k: "keeps (h + 1) buf b2" using keeps_trans [OF b1(2) keeps_mono [OF b2(2)]] by simp
        let ?x = "concat (map (le64 \<circ> expand64) vs) @ le64 v"
        have lx: "length ?x = ?n * 8 + 8" using lw by simp
        have wide: "wrote_elems b2 (?q + 8) (room - int ?n * 4 - 8) 0 (concat (map (le64 \<circ> widen) as)) (\<lambda>b. (b, ?q + 8 + 8 * length as, True, False))
            (int_array_loop cb args h b2 (?q + 8) (room - int ?n * 4 - 8) True (?n + 1))"
          using Cons.prems fits keeps_length [OF k] by (intro int_loop_wide [OF assms]) (simp_all add: add_ac)
        have "wrote_elems buf (h + 1) (room + int (?n * 4)) 0 (?x @ concat (map (le64 \<circ> widen) as)) (\<lambda>b. (b, ?q + 8 + 8 * length as, True, False))
            (int_array_loop cb args h b2 (?q + 8) (room - int ?n * 4 - 8) True (?n + 1))"
        proof (rule wrote_elems_more [OF k l])
          show "int (length ?x) \<le> room + int (?n * 4)" using fits lx by linarith
          have "h + 1 + length ?x = ?q + 8" "room + int (?n * 4) - int (length ?x) = room - int ?n * 4 - 8" using lx by simp_all
          then show "wrote_elems b2 (h + 1 + length ?x) (room + int (?n * 4) - int (length ?x)) 0 (concat (map (le64 \<circ> widen) as)) (\<lambda>b. (b, ?q + 8 + 8 * length as, True, False))
            (int_array_loop cb args h b2 (?q + 8) (room - int ?n * 4 - 8) True (?n + 1))" using wide by (simp only:)
        qed
        moreover have "int_array_loop cb args h buf ?p room False ?n = int_array_loop cb args h b2 (?q + 8) (room - int ?n * 4 - 8) True (?n + 1)"
        proof -
          have q: "?p + ?n * 4 = ?q" by simp
          have c: "do { b \<leftarrow> each (spread_one h) (rev [0..<?n]) buf; arr_copy b (?p + ?n * 4) (le64 v) } = Some b2"
            unfolding q using b1(1) b2(1) by simp
          show ?thesis using cb u64 False fits c by (subst int_array_loop.simps) (simp add: SIZEOF_INT64_def SIZEOF_INT32_def mult.commute add.commute)
        qed
        moreover have "h + 1 + length (number_elems vs (a # as)) = ?q + 8 + 8 * length as" by (simp add: len)
        ultimately show ?thesis using e by (auto simp: wrote_elems_def)
      qed
    qed
  qed
qed

lemma number_elems_content: "as \<noteq> [] \<Longrightarrow> numbers_content as = (if list_all is_u32 as then 4 else 8) # number_elems [] as"
  by (simp add: numbers_content_def number_elems_def comp_def)

lemma encode_integer_array_wrote:
  assumes "serves slack get cb" "answers get args 1 as" "\<forall>a \<in> set as. number a" "int h + room \<le> int (length buf)"
  shows "wrote_elems buf h room 5 (numbers_content as) (\<lambda>b. (b, h + length (numbers_content as), False)) (encode_integer_array cb args buf h room)"
proof (cases "room < 1")
  case True
  then show ?thesis by (simp add: wrote_elems_def encode_integer_array_def)
next
  case False
  have "wrote_elems buf (h + 1) (room - 1 + int (length ([] :: u32 list) * 4)) 4 (number_elems [] as)
      (\<lambda>b. (b, h + 1 + length (number_elems [] as), \<not> list_all is_u32 as, False))
      (int_array_loop cb args h buf (h + 1 + length ([] :: u32 list) * 4) (room - 1) False (length ([] :: u32 list)))"
    using assms False by (intro int_loop_narrow [OF assms(1)]) simp_all
  then have loop: "wrote_elems buf (h + 1) (room - 1) 4 (number_elems [] as) (\<lambda>b. (b, h + 1 + length (number_elems [] as), \<not> list_all is_u32 as, False))
      (int_array_loop cb args h buf (h + 1) (room - 1) False 0)" by simp
  then consider "int_array_loop cb args h buf (h + 1) (room - 1) False 0 = Some (Inl ())" "room - 1 < int (length (number_elems [] as) + 4)"
    | b where "int_array_loop cb args h buf (h + 1) (room - 1) False 0 = Some (Inr (b, h + 1 + length (number_elems [] as), \<not> list_all is_u32 as, False))"
      "keeps (h + 1) buf b" "lies b (h + 1) (number_elems [] as)" "int (length (number_elems [] as)) \<le> room - 1"
    unfolding wrote_elems_def by blast
  then show ?thesis
  proof cases
    case 1
    then show ?thesis using False number_elems_content [of as] by (cases "as = []") (simp_all add: wrote_elems_def encode_integer_array_def numbers_content_def length_number_elems)
  next
    case 2
    show ?thesis
    proof (cases "as = []")
      case True
      have "keeps h buf b" by (rule keeps_mono [OF 2(2)]) simp
      then show ?thesis using True 2 False assms(4)
        by (auto simp: wrote_elems_def encode_integer_array_def numbers_content_def number_elems_def keeps_length)
    next
      case ne: False
      then have pos: "h + 1 + length (number_elems [] as) \<noteq> h + 1" by (simp add: length_number_elems)
      define x where "x = (if list_all is_u32 as then 4 else 8 :: u8)"
      obtain b2 where b2: "arr_copy b h [x] = Some b2" "keeps h b b2" "lies b2 h [x]" "drop (h + 1) b2 = drop (h + 1) b"
        using arr_copy_wrote [of h "[x]" b] keeps_length [OF 2(2)] assms(4) False by auto
      have set: "arr_set b h x = Some b2" using b2(1) keeps_length [OF 2(2)] assms(4) False by (auto simp: arr_copy_def arr_set_def upd_conv_take_nth_drop)
      have "lies b2 (h + 1 + 0) (number_elems [] as)" by (rule lies_drop [OF _ b2(4) keeps_length [OF b2(2)]]) (use 2(3) in simp)
      then have "lies b2 h (numbers_content as)" using b2(3) lies_append [of b2 h "[x]" "number_elems [] as"] number_elems_content [OF ne] by (simp add: x_def)
      moreover have "keeps h buf b2" using keeps_trans [OF keeps_mono [OF 2(2)] b2(2)] by simp
      moreover have "encode_integer_array cb args buf h room = Some (Inr (b2, h + length (numbers_content as), False))"
        using False 2(1) pos set number_elems_content [OF ne] by (auto simp: encode_integer_array_def x_def)
      ultimately show ?thesis using 2(4) number_elems_content [OF ne] by (simp add: wrote_elems_def)
    qed
  qed
qed

text \<open>An array is written as the block of its elements; when the first answer is that there is none, nothing is.\<close>

lemma encode_array_wrote:
  assumes cb: "serves slack get cb" and ans: "answers get args 1 as" and fit: "\<forall>a \<in> set as. fits (ar_type args) a"
    and t: "ar_type args \<le> SPROTO_TSTRUCT" and room: "int p + room \<le> int (length buf)"
  shows "wrote_block buf p room (5 + slack) (many_content (ar_type args) as) (encode_array cb args buf p room)"
proof (cases "room < 4")
  case True
  then show ?thesis by (simp add: wrote_block_def encode_array_def)
next
  case False
  let ?d = "many_content (ar_type args) as"
  define r where "r = (if ar_type args = SPROTO_TDOUBLE \<or> ar_type args = SPROTO_TINTEGER then encode_integer_array cb args buf (p + 4) (room - 4)
      else if ar_type args = SPROTO_TBOOLEAN then bool_array_loop cb args buf (p + 4) (room - 4) 1
      else encode_array_object cb args buf (p + 4) (room - 4) 1)"
  have r: "wrote_elems buf (p + 4) (room - 4) (5 + slack) ?d (\<lambda>b. (b, p + 4 + length ?d, False)) r"
  proof -
    have weaken: "wrote_elems buf q n k1 d k x \<Longrightarrow> k1 \<le> k2 \<Longrightarrow> wrote_elems buf q n k2 d k x" for q n k1 k2 d k and x :: "(unit + bytes \<times> nat \<times> bool) option"
      by (auto simp: wrote_elems_def)
    consider "ar_type args = SPROTO_TDOUBLE \<or> ar_type args = SPROTO_TINTEGER" | "ar_type args = SPROTO_TBOOLEAN"
      | "ar_type args \<noteq> SPROTO_TDOUBLE" "ar_type args \<noteq> SPROTO_TINTEGER" "ar_type args \<noteq> SPROTO_TBOOLEAN" by blast
    then show ?thesis
    proof cases
      case 1
      then have "ar_type args \<noteq> SPROTO_TSTRING" "ar_type args \<noteq> SPROTO_TSTRUCT" by (auto simp: sproto_types)
      then have "\<forall>a \<in> set as. number a" using fit fits_number by blast
      moreover have "?d = numbers_content as" using 1 by (auto simp: many_content_def)
      ultimately show ?thesis using 1 encode_integer_array_wrote [OF cb ans, of "p + 4" "room - 4" buf] room by (auto simp: r_def intro: weaken)
    next
      case 2
      then have "?d = map (\<lambda>a. if low32 a = 0 then 0 else 1) as" by (simp add: many_content_def sproto_types)
      moreover have "wrote_elems buf (p + 4) (room - 4) 0 (map (\<lambda>a. if low32 a = 0 then 0 else 1) as) (\<lambda>b. (b, p + 4 + length as, False))
          (bool_array_loop cb args buf (p + 4) (room - 4) 1)"
        using room False fit 2 by (intro bool_array_loop_wrote [OF cb ans]) simp_all
      ultimately show ?thesis using 2 by (auto simp: r_def sproto_types intro: weaken)
    next
      case 3
      have "\<exists>b. a = A_bytes b" if "a \<in> set as" for a
      proof -
        have "fits (ar_type args) a" using fit that by blast
        then show ?thesis by (rule fits_cases) (use 3 in auto)
      qed
      moreover have "?d = object_elems as" using 3 by (simp add: many_content_def object_elems_def)
      ultimately show ?thesis using 3 encode_array_object_wrote [OF cb ans, of "p + 4" "room - 4" buf] room
        by (auto simp: r_def intro: weaken)
    qed
  qed
  have e: "encode_array cb args buf p room = do {
      r \<leftarrow> r; case r of Inl _ \<Rightarrow> Some (Inl ()) | Inr (buf, pos, noarray) \<Rightarrow>
        if noarray then Some (Inr (0, buf))
        else do { buf \<leftarrow> fill_size buf p (pos - (p + 4)); Some (Inr (pos - (p + 4) + 4, buf)) } }"
    using False by (simp add: encode_array_def r_def)
  from r consider "r = Some (Inl ())" "room - 4 < int (length ?d + (5 + slack))"
    | b where "r = Some (Inr (b, p + 4 + length ?d, False))" "keeps (p + 4) buf b" "lies b (p + 4) ?d" "int (length ?d) \<le> room - 4"
    unfolding wrote_elems_def by blast
  then show ?thesis
  proof cases
    case 1
    then show ?thesis using e by (simp add: wrote_block_def)
  next
    case 2
    obtain b2 where b2: "fill_size b p (length ?d) = Some b2" "keeps p b b2" "lies b2 p (le32 (word_of_nat (length ?d)))" "drop (p + 4) b2 = drop (p + 4) b"
      using fill_size_wrote [of p b "length ?d"] keeps_length [OF 2(2)] room False by auto
    have "lies b2 (p + 4 + 0) ?d" by (rule lies_drop [OF _ b2(4) keeps_length [OF b2(2)]]) (use 2(3) in simp)
    then have "block_at b2 p ?d" using b2(3) by (simp add: block_at_def lies_append)
    moreover have "keeps p buf b2" using keeps_trans [OF keeps_mono [OF 2(2)] b2(2)] by simp
    ultimately show ?thesis using e 2(1,4) b2(1) by (simp add: wrote_block_def)
  qed
qed

subsection \<open>Writing a field\<close>

text \<open>The value of a field in the answers of \<open>get\<close>; an array ends with the first \<open>A_nil\<close>.\<close>

definition has_value :: "sproto_type list \<Rightarrow> ecallback \<Rightarrow> sproto_field \<Rightarrow> field_value option \<Rightarrow> bool" where
  "has_value types get f v \<longleftrightarrow> (case v of
     None \<Rightarrow>
       if fd_type f AND SPROTO_TARRAY \<noteq> 0 then base_type f \<le> SPROTO_TSTRUCT \<and> get (the (map_names types f (field_arg f))\<lparr>ar_index := 1\<rparr>) = A_noarray
       else fd_type f \<le> SPROTO_TSTRUCT \<and> get (field_arg f) = A_nil
   | Some (Single a) \<Rightarrow> value_ok f (Single a) \<and> get (field_arg f) = a
   | Some (Many as) \<Rightarrow> value_ok f (Many as) \<and> answers get (the (map_names types f (field_arg f))) 1 as)"

definition content_size :: "content \<Rightarrow> nat" where
  "content_size c = (case c of Inline v \<Rightarrow> 2 | Block d \<Rightarrow> length d + 4)"

lemma type_cases:
  assumes "t \<le> SPROTO_TSTRUCT"
  obtains "t = SPROTO_TINTEGER" | "t = SPROTO_TBOOLEAN" | "t = SPROTO_TSTRING" | "t = SPROTO_TDOUBLE" | "t = SPROTO_TSTRUCT"
proof -
  have "unat t \<le> 4" using assms by (simp add: word_le_nat_alt SPROTO_TSTRUCT_def)
  then have "unat t \<in> {0, 1, 2, 3, 4}" by auto
  then have "word_of_nat (unat t) \<in> (word_of_nat ` {0, 1, 2, 3, 4} :: u32 set)" by blast
  then show ?thesis using that by (auto simp: sproto_types)
qed

lemma field_arg_length [simp]: "(field_arg f)\<lparr>ar_length := 0\<rparr> = field_arg f"
  by (simp add: field_arg_def)

lemma encode_field_none:
  assumes cb: "serves slack get cb" and f: "maps_ok types st" "f \<in> set (ty_f st)" and v: "has_value types get f None"
  shows "encode_field cb types f buf p room = Some F_error \<and> room < 8 \<or> encode_field cb types f buf p room = Some (F_skip buf)"
proof (cases "fd_type f AND SPROTO_TARRAY = 0")
  case True
  then have g: "get (field_arg f) = A_nil" and t: "fd_type f \<le> SPROTO_TSTRUCT" using v by (simp_all add: has_value_def)
  have c: "cb (field_arg f\<lparr>ar_length := n\<rparr>) = A_nil" for n using g by (intro serves_other [OF cb]) simp_all
  from t show ?thesis
    by (cases rule: type_cases) (simp_all add: True encode_field_def c encode_object_def done_of_def sproto_types SPROTO_TARRAY_def)
next
  case False
  obtain arg where arg: "map_names types f (field_arg f) = Some arg" "ar_length arg = 0" "ar_type arg = base_type f" using map_names_field [OF f] by blast
  then have g: "get (arg\<lparr>ar_index := 1\<rparr>) = A_noarray" and t: "base_type f \<le> SPROTO_TSTRUCT" using v False by (simp_all add: has_value_def)
  have "arg\<lparr>ar_index := 1, ar_length := 0\<rparr> = arg\<lparr>ar_index := 1\<rparr>" using arg(2) by (cases arg) simp
  then have c: "cb (arg\<lparr>ar_index := 1, ar_length := n\<rparr>) = A_noarray" for n using g by (intro serves_other [OF cb]) simp_all
  from t have "encode_array cb arg buf p room = Some (Inl ()) \<and> room < 8 \<or> encode_array cb arg buf p room = Some (Inr (0, buf))"
    by (cases rule: type_cases) (auto simp: arg(3) encode_array_def encode_integer_array_def int_array_loop.simps bool_array_loop.simps encode_array_object.simps c sproto_types)
  then show ?thesis using False arg(1) by (auto simp: encode_field_def done_of_def)
qed

lemma encode_field_some:
  assumes cb: "serves slack get cb" and f: "maps_ok types st" "f \<in> set (ty_f st)" and v: "has_value types get f (Some v)"
    and room: "0 \<le> room" "int p + room \<le> int (length buf)"
  shows "encode_field cb types f buf p room = Some F_error \<and> room < int (length (block (content f v)) + 8 + slack) \<or>
    (\<exists>buf'. encode_field cb types f buf p room = Some (F_done (word_of_content (content f v)) (content_size (content f v)) buf') \<and>
       keeps p buf buf' \<and> lies buf' p (block (content f v)) \<and> int (length (block (content f v))) \<le> room)"
proof -
  have blk: ?thesis if "wrote_block buf p room need d r" "need \<le> 8 + slack" "encode_field cb types f buf p room = map_option done_of r" "content f v = Block d" for need d r
    using that by (auto simp: wrote_block_def done_of_def block_def content_size_def word_of_content_def block_at_def)
  show ?thesis
  proof (cases v)
    case (Many as)
    then have ok: "fd_type f AND SPROTO_TARRAY \<noteq> 0" "base_type f \<le> SPROTO_TSTRUCT" "\<forall>a \<in> set as. fits (base_type f) a"
      and ans: "answers get (the (map_names types f (field_arg f))) 1 as" using v by (auto simp: has_value_def value_ok_def)
    obtain arg where arg: "map_names types f (field_arg f) = Some arg" "ar_type arg = base_type f" using map_names_field [OF f] by blast
    have "wrote_block buf p room (5 + slack) (many_content (ar_type arg) as) (encode_array cb arg buf p room)"
      using ans ok arg room(2) by (intro encode_array_wrote [OF cb]) simp_all
    then show ?thesis using ok(1) arg Many by (intro blk) (auto simp: encode_field_def content_def)
  next
    case (Single a)
    then have ok: "fd_type f AND SPROTO_TARRAY = 0" "fits (fd_type f) a" and g: "get (field_arg f) = a" using v by (auto simp: has_value_def value_ok_def)
    from ok(2) show ?thesis
    proof (cases rule: fits_cases)
      case (u32 n)
      have c: "cb (field_arg f\<lparr>ar_length := 8\<rparr>) = A_u32 n" using g u32(1) by (intro serves_other [OF cb]) simp_all
      have t: "fd_type f = SPROTO_TDOUBLE \<or> fd_type f = SPROTO_TINTEGER \<or> fd_type f = SPROTO_TBOOLEAN" using u32(2) by blast
      show ?thesis
      proof (cases "n < 0x7fff")
        case True
        then have "unat n < 0x7fff" by (simp add: word_less_nat_alt)
        then have "unat ((n + 1) * 2) = (unat n + 1) * 2" by (simp add: unat_word_ariths)
        then show ?thesis using True c t ok(1) Single u32(1) room
          by (auto simp: encode_field_def content_def single_content_def word_of_content_def content_size_def block_def)
      next
        case False
        have "wrote_block buf p room 0 (le32 n) (encode_integer n buf p room)" by (rule encode_integer_wrote [OF room])
        then show ?thesis using False c t ok(1) Single u32(1)
          by (intro blk [where need = 0 and d = "le32 n" and r = "encode_integer n buf p room"]) (auto simp: encode_field_def content_def single_content_def)
      qed
    next
      case (u64 n)
      have c: "cb (field_arg f\<lparr>ar_length := 8\<rparr>) = A_u64 n" using g u64(1) by (intro serves_other [OF cb]) simp_all
      have "wrote_block buf p room 0 (le64 n) (encode_uint64 n buf p room)" by (rule encode_uint64_wrote [OF room])
      then show ?thesis using c ok(1) Single u64
        by (intro blk [where need = 0 and d = "le64 n" and r = "encode_uint64 n buf p room"]) (auto simp: encode_field_def content_def single_content_def)
    next
      case (bytes b)
      have "wrote_block buf p room slack b (encode_object cb (field_arg f) buf p room)"
        using g bytes(1) room(2) by (intro encode_object_wrote [OF cb]) simp_all
      then show ?thesis using ok(1) Single bytes(1,2)
        by (intro blk [where need = slack and d = b and r = "encode_object cb (field_arg f) buf p room"])
          (auto simp: encode_field_def content_def single_content_def the_bytes_def sproto_types)
    qed
  qed
qed

subsection \<open>The loop over the fields\<close>

text \<open>The words that fields after the tag \<open>prev\<close> can take: what \<open>import_type\<close> counts in \<open>maxn\<close>.\<close>

fun max_words :: "int \<Rightarrow> sproto_field list \<Rightarrow> nat" where
  "max_words prev [] = 0"
| "max_words prev (f # fs) = (if prev + 1 < fd_tag f then 1 else 0) + 1 + max_words (fd_tag f) fs"

lemma max_words_skip: "max_words prev fs \<le> 1 + max_words t fs"
  by (cases fs) auto

text \<open>The tag of the last field that has a value, and the words in order.\<close>

fun last_tag :: "int \<Rightarrow> field_values \<Rightarrow> int" where
  "last_tag prev [] = prev"
| "last_tag prev ((f, v) # vs) = last_tag (fd_tag f) vs"

lemma words_of_append: "words_of prev (items (vs @ ws)) = words_of prev (items vs) @ words_of (last_tag prev vs) (items ws)"
  by (induction prev vs rule: last_tag.induct) (simp_all add: items_def)

lemma items_single: "items [(f, v)] = [(fd_tag f, content f v)]"
  by (simp add: items_def)

lemma last_tag_append: "last_tag prev (vs @ [(f, v)]) = fd_tag f"
  by (induction prev vs rule: last_tag.induct) simp_all

lemma last_tag_ge: "last_tag prev vs = prev \<or> (\<exists>(f, v) \<in> set vs. last_tag prev vs = fd_tag f)"
  by (induction prev vs rule: last_tag.induct) auto

definition blocks :: "field_values \<Rightarrow> bytes" where
  "blocks vs = concat (map (block \<circ> snd) (items vs))"

lemma blocks_append: "blocks (vs @ [(f, v)]) = blocks vs @ block (content f v)"
  by (simp add: blocks_def items_def)

definition encode_inv :: "nat \<Rightarrow> nat \<Rightarrow> field_values \<Rightarrow> sproto_field list \<Rightarrow> encode_state \<Rightarrow> bool" where
  "encode_inv len h vs fs s \<longleftrightarrow> length (es_buf s) = len \<and> es_index s = length (words_of (- 1) (items vs)) \<and>
     lies (es_buf s) 2 (concat (map le16 (words_of (- 1) (items vs)))) \<and> lies (es_buf s) h (blocks vs) \<and>
     es_data s = h + length (blocks vs) \<and> es_size s = int len - int (es_data s) \<and> 0 \<le> es_size s \<and>
     es_lasttag s = last_tag (- 1) vs \<and> 2 + 2 * (es_index s + max_words (es_lasttag s) fs) \<le> h"

lemma put_word:
  assumes "lies buf 2 (concat (map le16 ws))" "lies buf h d" "2 + 2 * length ws + 2 \<le> h"
  obtains b where "arr_copy buf (2 + 2 * length ws) (le16 w) = Some b" "length b = length buf" "lies b 2 (concat (map le16 (ws @ [w])))" "lies b h d"
proof -
  let ?p = "2 + 2 * length ws"
  have l: "length (concat (map le16 ws)) = 2 * length ws" using length_concat_const [of le16 2 ws] by simp
  have "h \<le> length buf" using assms(2) by (simp add: lies_def)
  then obtain b where b: "arr_copy buf ?p (le16 w) = Some b" "keeps ?p buf b" "lies b ?p (le16 w)" "drop (?p + 2) b = drop (?p + 2) buf"
    using arr_copy_wrote [of ?p "le16 w" buf] assms(3) by auto
  have "lies b 2 (concat (map le16 ws))" by (rule lies_keeps [OF assms(1) _ b(2)]) (simp add: l)
  moreover obtain k where k: "h = ?p + 2 + k" using assms(3) le_Suc_ex by blast
  have "lies b (?p + 2 + k) d" by (rule lies_drop [OF _ b(4) keeps_length [OF b(2)]]) (use assms(2) k in simp)
  then have "lies b h d" by (simp only: k)
  ultimately show ?thesis using that b(1,3) keeps_length [OF b(2)] assms(3) l by (simp add: lies_append)
qed

lemma encode_step_none:
  assumes cb: "serves slack get cb" and f: "maps_ok types st" "f \<in> set (ty_f st)" and v: "has_value types get f None"
    and inv: "encode_inv len h vs (f # fs) s"
  shows "encode_step cb types f s = Some (Inl (- 1)) \<and> int len < int (h + length (blocks vs) + 8 + slack) \<or>
    (\<exists>s'. encode_step cb types f s = Some (Inr s') \<and> encode_inv len h vs fs s')"
proof -
  have "encode_inv len h vs fs s" using inv max_words_skip [of "es_lasttag s" fs "fd_tag f"] by (auto simp: encode_inv_def)
  then show ?thesis using encode_field_none [OF cb f v, of "es_buf s" "es_data s" "es_size s"] inv
    by (auto simp: encode_step_def encode_inv_def)
qed

lemma encode_step_some:
  assumes cb: "serves slack get cb" and f: "maps_ok types st" "f \<in> set (ty_f st)" and v: "has_value types get f (Some v)"
    and tag: "last_tag (- 1) vs < fd_tag f" "fd_tag f < 0x8000" "- 1 \<le> last_tag (- 1) vs"
    and inv: "encode_inv len h vs (f # fs) s"
  shows "encode_step cb types f s = Some (Inl (- 1)) \<and> int len < int (h + length (blocks (vs @ [(f, v)])) + 8 + slack) \<or>
    (\<exists>s'. encode_step cb types f s = Some (Inr s') \<and> encode_inv len h (vs @ [(f, v)]) fs s')"
proof -
  let ?c = "content f v" and ?ws = "words_of (- 1) (items vs)"
  have i: "length (es_buf s) = len" "es_index s = length ?ws" "lies (es_buf s) 2 (concat (map le16 ?ws))" "lies (es_buf s) h (blocks vs)"
    "es_data s = h + length (blocks vs)" "es_size s = int len - int (es_data s)" "0 \<le> es_size s" "es_lasttag s = last_tag (- 1) vs"
    "2 + 2 * (es_index s + max_words (es_lasttag s) (f # fs)) \<le> h"
    using inv unfolding encode_inv_def by blast+
  have "int (es_data s) + es_size s \<le> int (length (es_buf s))" using i(1,6) by simp
  from encode_field_some [OF cb f v i(7) this] consider
    "encode_field cb types f (es_buf s) (es_data s) (es_size s) = Some F_error" "es_size s < int (length (block ?c) + 8 + slack)"
  | b where "encode_field cb types f (es_buf s) (es_data s) (es_size s) = Some (F_done (word_of_content ?c) (content_size ?c) b)"
      "keeps (es_data s) (es_buf s) b" "lies b (es_data s) (block ?c)" "int (length (block ?c)) \<le> es_size s"
    by blast
  then show ?thesis
  proof cases
    case 1
    then show ?thesis using i(5,6) by (auto simp: encode_step_def blocks_append)
  next
    case 2
    define s1 where "s1 = s\<lparr>es_buf := b, es_data := es_data s + length (block ?c), es_size := es_size s - int (length (block ?c))\<rparr>"
    have s1: "(if word_of_content ?c = 0 then (s\<lparr>es_buf := b\<rparr>)\<lparr>es_data := es_data (s\<lparr>es_buf := b\<rparr>) + content_size ?c,
          es_size := es_size (s\<lparr>es_buf := b\<rparr>) - int (content_size ?c)\<rparr>
        else s\<lparr>es_buf := b\<rparr>) = s1"
      by (cases ?c) (simp_all add: s1_def word_of_content_def content_size_def block_def)
    have h: "2 + 2 * length ?ws \<le> h" using i(2,9) by simp
    have lw: "length (concat (map le16 ?ws)) = 2 * length ?ws" using length_concat_const [of le16 2 ?ws] by simp
    have b1: "lies b 2 (concat (map le16 ?ws))" by (rule lies_keeps [OF i(3) _ 2(2)]) (use h i(5) lw in simp)
    have "lies b h (blocks vs)" by (rule lies_keeps [OF i(4) _ 2(2)]) (simp add: i(5))
    then have b2: "lies b h (blocks (vs @ [(f, v)]))" using 2(3) i(5) by (simp add: blocks_append lies_append)
    let ?tag = "fd_tag f - es_lasttag s - 1"
    let ?sk = "if 0 < ?tag then [nat ((?tag - 1) * 2 + 1)] else []"
    have words: "words_of (- 1) (items (vs @ [(f, v)])) = ?ws @ ?sk @ [word_of_content ?c]"
      by (simp add: words_of_append items_single i(8) word_of_content_def)
    have "max_words (es_lasttag s) (f # fs) = length ?sk + 1 + max_words (fd_tag f) fs" by simp
    moreover have "m = k + 1 + r \<Longrightarrow> 2 + 2 * (a + m) \<le> h \<Longrightarrow> 2 + 2 * (a + k) + 2 + 2 * r \<le> h" for a k m r :: nat by simp
    ultimately have fit: "2 + 2 * (length ?ws + length ?sk) + 2 + 2 * max_words (fd_tag f) fs \<le> h" using i(9) unfolding i(2) by blast
    have step: "encode_step cb types f s = do {
        s \<leftarrow> (if 0 < ?tag then do {
               buf \<leftarrow> arr_copy (es_buf s1) (2 + 2 * es_index s1) (le16 (nat ((?tag - 1) * 2 + 1)));
               Some (s1\<lparr>es_buf := buf, es_index := es_index s1 + 1\<rparr>) }
             else Some s1);
        buf \<leftarrow> arr_copy (es_buf s) (2 + 2 * es_index s) (le16 (word_of_content ?c));
        Some (Inr (s\<lparr>es_buf := buf, es_index := es_index s + 1, es_lasttag := fd_tag f\<rparr>)) }"
    proof -
      have "\<not> (0 < ?tag \<and> 0xffff < (?tag - 1) * 2 + 1)" using tag i(8) by auto
      then show ?thesis using 2(1) unfolding encode_step_def by (simp only: Option.bind.simps field_result.case Let_def s1 if_False SIZEOF_HEADER_def SIZEOF_FIELD_def)
          (simp add: s1_def)
    qed
    have "\<exists>b'. encode_step cb types f s = Some (Inr (s1\<lparr>es_buf := b', es_index := length (?ws @ ?sk @ [word_of_content ?c]), es_lasttag := fd_tag f\<rparr>)) \<and>
        length b' = len \<and> lies b' 2 (concat (map le16 (?ws @ ?sk @ [word_of_content ?c]))) \<and> lies b' h (blocks (vs @ [(f, v)]))"
    proof (cases "0 < ?tag")
      case True
      obtain c1 where c1: "arr_copy b (2 + 2 * length ?ws) (le16 (nat ((?tag - 1) * 2 + 1))) = Some c1" "length c1 = length b"
        "lies c1 2 (concat (map le16 (?ws @ [nat ((?tag - 1) * 2 + 1)])))" "lies c1 h (blocks (vs @ [(f, v)]))"
        using put_word [OF b1 b2, of "nat ((?tag - 1) * 2 + 1)"] fit by auto
      obtain c2 where c2: "arr_copy c1 (2 + 2 * length (?ws @ [nat ((?tag - 1) * 2 + 1)])) (le16 (word_of_content ?c)) = Some c2" "length c2 = length c1"
        "lies c2 2 (concat (map le16 ((?ws @ [nat ((?tag - 1) * 2 + 1)]) @ [word_of_content ?c])))" "lies c2 h (blocks (vs @ [(f, v)]))"
        using put_word [OF c1(3,4), of "word_of_content ?c"] fit True by auto
      show ?thesis using step True c1(1,2) c2 keeps_length [OF 2(2)] i(1,2) by (intro exI [of _ c2]) (simp add: s1_def)
    next
      case False
      obtain c2 where c2: "arr_copy b (2 + 2 * length ?ws) (le16 (word_of_content ?c)) = Some c2" "length c2 = length b"
        "lies c2 2 (concat (map le16 (?ws @ [word_of_content ?c])))" "lies c2 h (blocks (vs @ [(f, v)]))"
        using put_word [OF b1 b2, of "word_of_content ?c"] fit by auto
      show ?thesis using step False c2 keeps_length [OF 2(2)] i(1,2) by (intro exI [of _ c2]) (simp add: s1_def)
    qed
    then obtain b' where b': "encode_step cb types f s = Some (Inr (s1\<lparr>es_buf := b', es_index := length (?ws @ ?sk @ [word_of_content ?c]), es_lasttag := fd_tag f\<rparr>))"
      "length b' = len" "lies b' 2 (concat (map le16 (?ws @ ?sk @ [word_of_content ?c])))" "lies b' h (blocks (vs @ [(f, v)]))" by blast
    have "encode_inv len h (vs @ [(f, v)]) fs (s1\<lparr>es_buf := b', es_index := length (?ws @ ?sk @ [word_of_content ?c]), es_lasttag := fd_tag f\<rparr>)"
      unfolding encode_inv_def words using b'(2,3,4) i(5,6) 2(4) fit by (simp add: s1_def blocks_append last_tag_append)
    with b'(1) show ?thesis by blast
  qed
qed

definition present :: "(sproto_field \<Rightarrow> field_value option) \<Rightarrow> sproto_field list \<Rightarrow> field_values" where
  "present val fs = concat (map (\<lambda>f. case val f of None \<Rightarrow> [] | Some v \<Rightarrow> [(f, v)]) fs)"

lemma present_Cons: "present val (f # fs) = (case val f of None \<Rightarrow> [] | Some v \<Rightarrow> [(f, v)]) @ present val fs"
  by (simp add: present_def)

lemma length_blocks_append: "length (blocks (vs @ ws)) = length (blocks vs) + length (blocks ws)"
  by (simp add: blocks_def items_def)

lemma encode_loop_result:
  assumes cb: "serves slack get cb" and st: "maps_ok types st"
  shows "\<forall>f \<in> set fs. f \<in> set (ty_f st) \<and> has_value types get f (val f) \<and> last_tag (- 1) vs < fd_tag f \<and> fd_tag f < 0x8000 \<Longrightarrow>
    sorted_wrt (<) (map fd_tag fs) \<Longrightarrow> - 1 \<le> last_tag (- 1) vs \<Longrightarrow> encode_inv len h vs fs s \<Longrightarrow>
    encode_loop cb types fs s = Some (Inl (- 1)) \<and> int len < int (h + length (blocks (vs @ present val fs)) + 8 + slack) \<or>
    (\<exists>s'. encode_loop cb types fs s = Some (Inr s') \<and> encode_inv len h (vs @ present val fs) [] s')"
proof (induction fs arbitrary: vs s)
  case Nil
  then show ?case by (simp add: present_def)
next
  case (Cons f fs)
  have f: "f \<in> set (ty_f st)" "has_value types get f (val f)" "last_tag (- 1) vs < fd_tag f" "fd_tag f < 0x8000" using Cons.prems(1) by simp_all
  show ?case
  proof (cases "val f")
    case None
    then have p: "present val (f # fs) = present val fs" by (simp add: present_Cons)
    from encode_step_none [OF cb st f(1) _ Cons.prems(4)] f(2) None consider
      "encode_step cb types f s = Some (Inl (- 1))" "int len < int (h + length (blocks vs) + 8 + slack)"
    | s' where "encode_step cb types f s = Some (Inr s')" "encode_inv len h vs fs s'" by auto
    then show ?thesis
    proof cases
      case 1
      then show ?thesis by (simp add: length_blocks_append)
    next
      case 2
      then show ?thesis using Cons.IH [of vs s'] Cons.prems p by auto
    qed
  next
    case (Some v)
    let ?vs = "vs @ [(f, v)]"
    have p: "vs @ present val (f # fs) = ?vs @ present val fs" using Some by (simp add: present_Cons)
    from encode_step_some [OF cb st f(1) _ f(3,4) Cons.prems(3,4), of v] f(2) Some consider
      "encode_step cb types f s = Some (Inl (- 1))" "int len < int (h + length (blocks ?vs) + 8 + slack)"
    | s' where "encode_step cb types f s = Some (Inr s')" "encode_inv len h ?vs fs s'" by auto
    then show ?thesis
    proof cases
      case 1
      then show ?thesis unfolding p length_blocks_append [of ?vs] by simp
    next
      case 2
      have "\<forall>g \<in> set fs. g \<in> set (ty_f st) \<and> has_value types get g (val g) \<and> last_tag (- 1) ?vs < fd_tag g \<and> fd_tag g < 0x8000"
        using Cons.prems(1,2) by (simp add: last_tag_append)
      moreover have "- 1 \<le> last_tag (- 1) ?vs" using Cons.prems(3) f(3) by (simp add: last_tag_append)
      ultimately have "encode_loop cb types fs s' = Some (Inl (- 1)) \<and> int len < int (h + length (blocks (?vs @ present val fs)) + 8 + slack) \<or>
          (\<exists>s''. encode_loop cb types fs s' = Some (Inr s'') \<and> encode_inv len h (?vs @ present val fs) [] s'')"
        using Cons.prems(2) 2(2) by (intro Cons.IH) simp_all
      then show ?thesis using 2(1) unfolding p by auto
    qed
  qed
qed

subsection \<open>The whole message\<close>

text \<open>A type as \<open>import_type\<close> builds it, with tags that fit into the words.\<close>

definition type_complete :: "sproto_type \<Rightarrow> bool" where
  "type_complete st \<longleftrightarrow> type_ok st \<and> ty_maxn st = max_words (- 1) (ty_f st) \<and> (\<forall>f \<in> set (ty_f st). 0 \<le> fd_tag f \<and> fd_tag f < 0x8000)"

lemma sproto_encode_result:
  assumes cb: "serves slack get cb" and st: "type_complete st" "maps_ok types st" and val: "\<And>f. f \<in> set (ty_f st) \<Longrightarrow> has_value types get f (val f)"
  defines "vs \<equiv> present val (ty_f st)"
  shows "sproto_encode cb types st buf = Some (- 1, buf) \<and> length buf < 2 + 2 * ty_maxn st + length (blocks vs) + 8 + slack \<or>
    (\<exists>out. sproto_encode cb types st buf = Some (int (length (message (items vs))), out) \<and> length out = length buf \<and>
       take (length (message (items vs))) out = message (items vs))"
proof (cases "length buf < 2 + 2 * ty_maxn st")
  case True
  then show ?thesis by (simp add: sproto_encode_def SIZEOF_HEADER_def SIZEOF_FIELD_def Let_def mult.commute)
next
  case False
  define h where "h = 2 + 2 * ty_maxn st"
  define s0 where "s0 = \<lparr>es_buf = buf, es_data = h, es_size = int (length buf) - int h, es_index = 0, es_lasttag = - 1\<rparr>"
  have h: "SIZEOF_HEADER + ty_maxn st * SIZEOF_FIELD = h" by (simp add: h_def SIZEOF_HEADER_def SIZEOF_FIELD_def)
  have fs: "take (ty_n st) (ty_f st) = ty_f st" "sorted_wrt (<) (map fd_tag (ty_f st))" using st(1) by (simp_all add: type_complete_def type_ok_def)
  have "encode_inv (length buf) h [] (ty_f st) s0"
    using False st(1) by (simp add: encode_inv_def s0_def h_def blocks_def items_def type_complete_def)
  moreover have "\<forall>f \<in> set (ty_f st). f \<in> set (ty_f st) \<and> has_value types get f (val f) \<and> last_tag (- 1) [] < fd_tag f \<and> fd_tag f < 0x8000"
    using st(1) val by (force simp: type_complete_def)
  ultimately consider "encode_loop cb types (ty_f st) s0 = Some (Inl (- 1))" "length buf < h + length (blocks vs) + 8 + slack"
    | s where "encode_loop cb types (ty_f st) s0 = Some (Inr s)" "encode_inv (length buf) h vs [] s"
    using encode_loop_result [OF cb st(2), where fs = "ty_f st" and vs = "[]" and val = val and len = "length buf" and h = h and s = s0] fs(2)
    unfolding vs_def append_Nil by (auto simp del: of_nat_add)
  then show ?thesis
  proof cases
    case 1
    then show ?thesis using False fs(1) by (simp add: sproto_encode_def Let_def h s0_def [symmetric]) (simp add: h_def)
  next
    case 2
    let ?ws = "words_of (- 1) (items vs)"
    have i: "length (es_buf s) = length buf" "es_index s = length ?ws" "lies (es_buf s) 2 (concat (map le16 ?ws))" "lies (es_buf s) h (blocks vs)"
      "es_data s = h + length (blocks vs)" "2 + 2 * length ?ws \<le> h" using 2(2) by (simp_all add: encode_inv_def)
    have lw: "length (concat (map le16 ?ws)) = 2 * length ?ws" using length_concat_const [of le16 2 ?ws] by simp
    have msg: "message (items vs) = le16 (length ?ws) @ concat (map le16 ?ws) @ blocks vs" by (simp add: message_def blocks_def)
    have "0 + length (le16 (length ?ws)) \<le> length (es_buf s)" unfolding length_le i(1) using False by linarith
    then obtain o1 where "arr_copy (es_buf s) 0 (le16 (length ?ws)) = Some o1" "keeps 0 (es_buf s) o1" "lies o1 0 (le16 (length ?ws))"
      "drop (0 + length (le16 (length ?ws))) o1 = drop (0 + length (le16 (length ?ws))) (es_buf s)" by (rule arr_copy_wrote)
    then have o1: "arr_copy (es_buf s) 0 (le16 (length ?ws)) = Some o1" "keeps 0 (es_buf s) o1" "lies o1 0 (le16 (length ?ws))"
      "drop 2 o1 = drop 2 (es_buf s)" by (simp_all only: length_le add_0)
    have lo: "length o1 = length (es_buf s)" by (rule keeps_length [OF o1(2)])
    have w1: "lies o1 (2 + 0) (concat (map le16 ?ws))" by (rule lies_drop [OF _ o1(4) lo]) (use i(3) in simp)
    have b1: "lies o1 (2 + (h - 2)) (blocks vs)" by (rule lies_drop [OF _ o1(4) lo]) (use i(4) in \<open>simp add: h_def\<close>)
    then have b1: "lies o1 h (blocks vs)" by (simp add: h_def)
    let ?e = "2 + 2 * length ?ws"
    have "\<exists>out. (if length ?ws \<noteq> ty_maxn st then do { blocks \<leftarrow> arr_slice o1 h (length (blocks vs)); arr_copy o1 ?e blocks } else Some o1) = Some out \<and>
        keeps ?e o1 out \<and> lies out ?e (blocks vs)"
    proof (cases "length ?ws = ty_maxn st")
      case True
      then show ?thesis using b1 by (simp add: h_def)
    next
      case False
      have "arr_slice o1 h (length (blocks vs)) = Some (blocks vs)" using b1 by (simp add: arr_slice_def lies_def)
      moreover have "?e + length (blocks vs) \<le> length o1" using b1 i(6) by (simp add: lies_def)
      then obtain out where "arr_copy o1 ?e (blocks vs) = Some out" "keeps ?e o1 out" "lies out ?e (blocks vs)" by (rule arr_copy_wrote)
      ultimately show ?thesis using False by simp
    qed
    then obtain out where out: "(if length ?ws \<noteq> ty_maxn st then do { blocks \<leftarrow> arr_slice o1 h (length (blocks vs)); arr_copy o1 ?e blocks } else Some o1) = Some out"
      "keeps ?e o1 out" "lies out ?e (blocks vs)" by blast
    have "lies o1 0 (le16 (length ?ws) @ concat (map le16 ?ws))" using o1(3) w1 unfolding lies_append length_le add_0 add_0_right by blast
    then have "lies out 0 (le16 (length ?ws) @ concat (map le16 ?ws))" by (rule lies_keeps [OF _ _ out(2)]) (simp add: lw)
    moreover have "0 + length (le16 (length ?ws) @ concat (map le16 ?ws)) = ?e" by (simp add: lw)
    ultimately have "lies out 0 (message (items vs))" using out(3)
      lies_append [of out 0 "le16 (length ?ws) @ concat (map le16 ?ws)" "blocks vs"] unfolding msg append_assoc by (simp only:)
    moreover have "sproto_encode cb types st buf = Some (int (length (message (items vs))), out)"
    proof -
      have "sproto_encode cb types st buf = do {
          out \<leftarrow> (if length ?ws \<noteq> ty_maxn st then do { blocks \<leftarrow> arr_slice o1 h (length (blocks vs)); arr_copy o1 ?e blocks } else Some o1);
          Some (int (?e + length (blocks vs)), out) }"
        using False 2(1) o1(1) i(2,5) fs(1) by (simp add: sproto_encode_def Let_def h s0_def [symmetric]) (simp add: h_def SIZEOF_HEADER_def SIZEOF_FIELD_def mult.commute add.assoc)
      then show ?thesis using out(1) by (simp add: msg lw)
    qed
    moreover have "length out = length buf" using keeps_length [OF out(2)] lo i(1) by simp
    ultimately show ?thesis by (simp add: lies_def)
  qed
qed

text \<open>
  C12. With a callback that keeps to the lengths it is given, \<open>sproto_encode\<close> writes only inside its buffer and returns the message of the
  values, with nothing wasted; it returns -1 only when the buffer has less than the greatest header, the blocks and a few bytes of slack.
\<close>

theorem sproto_encode_correct:
  assumes "serves slack get cb" "type_complete st" "maps_ok types st" "\<And>f. f \<in> set (ty_f st) \<Longrightarrow> has_value types get f (val f)"
  shows "\<exists>n out. sproto_encode cb types st buf = Some (n, out) \<and> length out = length buf \<and>
    (if n = - 1 then length buf < 2 + 2 * ty_maxn st + length (blocks (present val (ty_f st))) + 8 + slack
     else take (nat n) out = message (items (present val (ty_f st))))"
proof -
  let ?m = "message (items (present val (ty_f st)))"
  have "sproto_encode cb types st buf = Some (- 1, buf) \<and> length buf < 2 + 2 * ty_maxn st + length (blocks (present val (ty_f st))) + 8 + slack \<or>
    (\<exists>out. sproto_encode cb types st buf = Some (int (length ?m), out) \<and> length out = length buf \<and> take (length ?m) out = ?m)"
    by (rule sproto_encode_result [OF assms])
  then show ?thesis
  proof (elim disjE exE conjE)
    fix out
    assume "sproto_encode cb types st buf = Some (int (length ?m), out)" "length out = length buf" "take (length ?m) out = ?m"
    then show ?thesis by (intro exI [of _ "int (length ?m)"] exI [of _ out]) simp
  qed simp
qed

subsection \<open>Encoding and decoding\<close>

lemma present_iff: "(f, v) \<in> set (present val fs) \<longleftrightarrow> f \<in> set fs \<and> val f = Some v"
  by (auto simp: present_def split: option.splits)

lemma words_le_max: "length (words_of prev (items (present val fs))) \<le> max_words prev fs"
proof (induction fs arbitrary: prev)
  case Nil
  then show ?case by (simp add: present_def items_def)
next
  case (Cons f fs)
  show ?case
  proof (cases "val f")
    case None
    have "length (words_of prev (items (present val fs))) \<le> max_words prev fs" by (rule Cons.IH)
    then show ?thesis using None max_words_skip [of prev fs "fd_tag f"] by (simp add: present_Cons)
  next
    case (Some v)
    have "items (present val (f # fs)) = (fd_tag f, content f v) # items (present val fs)" using Some by (simp add: present_Cons items_def)
    then show ?thesis using Cons.IH [of "fd_tag f"] by simp
  qed
qed

lemma items_ok_present:
  "sorted_wrt (<) (map fd_tag fs) \<Longrightarrow> \<forall>f \<in> set fs. prev < fd_tag f \<and> fd_tag f < 0x8000 \<Longrightarrow> - 1 \<le> prev \<Longrightarrow>
   \<forall>f \<in> set fs. \<forall>v. val f = Some v \<longrightarrow> (case content f v of Inline n \<Rightarrow> n < 0x7fff | Block d \<Rightarrow> True) \<Longrightarrow> items_ok prev (items (present val fs))"
proof (induction fs arbitrary: prev)
  case Nil
  then show ?case by (simp add: present_def items_def)
next
  case (Cons f fs)
  show ?case
  proof (cases "val f")
    case None
    then show ?thesis using Cons by (simp add: present_Cons)
  next
    case (Some v)
    have "items (present val (f # fs)) = (fd_tag f, content f v) # items (present val fs)" using Some by (simp add: present_Cons items_def)
    moreover have "items_ok (fd_tag f) (items (present val fs))" using Cons.prems by (intro Cons.IH) auto
    ultimately show ?thesis using Cons.prems Some by auto
  qed
qed

lemma content_inline: "case content f v of Inline n \<Rightarrow> n < 0x7fff | Block d \<Rightarrow> True"
  by (auto simp: content_def single_content_def word_less_nat_alt split: field_value.splits answer.splits)

lemma has_value_ok: "has_value types get f (Some v) \<Longrightarrow> value_ok f v"
  by (cases v) (simp_all add: has_value_def)

text \<open>
  C18. What was encoded is decoded to the same values, in a buffer with enough room. The receiver may have another type: it sees the
  fields that both have, and passes over the others.
\<close>

theorem sproto_roundtrip:
  assumes cb: "serves slack get cb" and st: "type_complete st" "maps_ok types st" "ty_maxn st < 2 ^ 16"
    and val: "\<And>f. f \<in> set (ty_f st) \<Longrightarrow> has_value types get f (val f)"
    and room: "2 + 2 * ty_maxn st + length (blocks (present val (ty_f st))) + 8 + slack \<le> length buf" "length buf < 2 ^ 31"
    and recv: "type_ok st'" "maps_ok types st'" "\<And>log a. cb' log a = 0"
      "\<And>f. f \<in> set (ty_f st) \<Longrightarrow> field_of st' (fd_tag f) = None \<or> field_of st' (fd_tag f) = Some f"
  shows "\<exists>n out log. sproto_encode cb types st buf = Some (int n, out) \<and> sproto_decode cb' types st' (take n out) = Some (log, int n) \<and>
    map (seen (take n out)) log = known_values types st' (present val (ty_f st))"
proof -
  let ?vs = "present val (ty_f st)"
  obtain out where out: "sproto_encode cb types st buf = Some (int (length (message (items ?vs))), out)" "length out = length buf"
    "take (length (message (items ?vs))) out = message (items ?vs)"
    using sproto_encode_result [OF cb st(1,2), where val = val and buf = buf] val room(1) by auto
  have "length (message (items ?vs)) \<le> length buf" using arg_cong [OF out(3), of length] out(2) by simp
  then have len: "length (message (items ?vs) @ []) < 2 ^ 31" using room(2) by simp
  have "values_ok st' ?vs" using val recv(4) has_value_ok by (fastforce simp: values_ok_def present_iff)
  moreover have "items_ok (- 1) (items ?vs)"
    using st(1) content_inline by (intro items_ok_present) (force simp: type_complete_def type_ok_def)+
  moreover have "length (words_of (- 1) (items ?vs)) < 2 ^ 16" using words_le_max [of "- 1" val "ty_f st"] st(1,3) by (simp add: type_complete_def)
  ultimately obtain log where "sproto_decode cb' types st' (message (items ?vs) @ []) = Some (log, int (length (message (items ?vs))))"
    "map (seen (message (items ?vs) @ [])) log = known_values types st' ?vs"
    using decode_message [where cb = cb' and st = st' and types = types and vs = ?vs and rest = "[]"] recv(1,2,3) len by blast
  then show ?thesis using out(1,3) by (intro exI [of _ "length (message (items ?vs))"] exI [of _ out] exI [of _ log]) simp
qed

subsection \<open>A message\<close>

definition demo_get :: ecallback where
  "demo_get a = (if ar_tagid a = 0 then A_bytes [65, 66] else if ar_index a = 1 then A_u32 5 else if ar_index a = 2 then A_u64 0x10000000000 else A_nil)"

definition demo_serve :: ecallback where
  "demo_serve a = (case demo_get a of A_bytes b \<Rightarrow> if int (length b) \<le> ar_length a then A_bytes b else A_error | r \<Rightarrow> r)"

definition demo_val :: "sproto_field \<Rightarrow> field_value option" where
  "demo_val f = Some (if fd_tag f = 0 then Single (A_bytes [65, 66]) else Many [A_u32 5, A_u64 0x10000000000])"

lemma demo_serves: "serves 0 demo_get demo_serve"
  by (auto simp: serves_def demo_serve_def demo_get_def)

lemma demo_complete: "type_complete demo_type"
  using demo_type_ok(1) by (simp add: type_complete_def demo_type_def demo_field_def)

lemma demo_has_value: "f \<in> set (ty_f demo_type) \<Longrightarrow> has_value [] demo_get f (demo_val f)"
  by (auto simp: demo_type_def demo_field_def has_value_def demo_val_def demo_get_def value_ok_def fits_def base_type_def sproto_types SPROTO_TARRAY_def
    field_arg_def map_names_def)

lemma demo_present: "blocks (present demo_val (ty_f demo_type)) = [2, 0, 0, 0, 65, 66, 17, 0, 0, 0, 8, 5, 0, 0, 0, 0, 0, 0, 0, 0, 0, 0, 0, 0, 1, 0, 0]"
  by code_simp

lemma demo_maxn: "ty_maxn demo_type = 3"
  by (simp add: demo_type_def)

lemma sproto_encode_correct_witness:
  "\<exists>n out. sproto_encode demo_serve [] demo_type (replicate 50 0) = Some (n, out) \<and> n \<noteq> - 1 \<and> take (nat n) out = message (items (present demo_val (ty_f demo_type)))"
proof -
  obtain n out where e: "sproto_encode demo_serve [] demo_type (replicate 50 0) = Some (n, out)"
    "if n = - 1 then length (replicate 50 (0 :: u8)) < 2 + 2 * ty_maxn demo_type + length (blocks (present demo_val (ty_f demo_type))) + 8 + 0
     else take (nat n) out = message (items (present demo_val (ty_f demo_type)))"
    using sproto_encode_correct [OF demo_serves demo_complete demo_type_ok(2), of "[]" demo_val "replicate 50 0"] demo_has_value by blast
  then show ?thesis using demo_present demo_maxn by (auto split: if_splits)
qed

lemma sproto_roundtrip_witness:
  "\<exists>n out log. sproto_encode demo_serve [] demo_type (replicate 50 0) = Some (int n, out) \<and>
     sproto_decode (\<lambda>_ _. 0) [] demo_type (take n out) = Some (log, int n) \<and>
     map (snd \<circ> seen (take n out)) log = [S_block [65, 66], S_num 5, S_num 0x10000000000]"
proof -
  have f: "field_of demo_type (fd_tag f) = None \<or> field_of demo_type (fd_tag f) = Some f" if "f \<in> set (ty_f demo_type)" for f
    using that by (auto simp: field_of_def demo_type_def demo_field_def)
  have m: "ty_maxn demo_type < 2 ^ 16" by (simp add: demo_maxn)
  have room: "2 + 2 * ty_maxn demo_type + length (blocks (present demo_val (ty_f demo_type))) + 8 + 0 \<le> length (replicate 50 (0 :: u8))"
    "length (replicate 50 (0 :: u8)) < 2 ^ 31" unfolding demo_present demo_maxn by simp_all
  have "\<exists>n out log. sproto_encode demo_serve [] demo_type (replicate 50 0) = Some (int n, out) \<and>
      sproto_decode (\<lambda>_ _. 0) [] demo_type (take n out) = Some (log, int n) \<and>
      map (seen (take n out)) log = known_values [] demo_type (present demo_val (ty_f demo_type))"
    by (rule sproto_roundtrip [OF demo_serves demo_complete demo_type_ok(2) m demo_has_value room demo_type_ok refl f])
  moreover have v: "map snd (known_values [] demo_type (present demo_val (ty_f demo_type))) = [S_block [65, 66], S_num 5, S_num 0x10000000000]" by code_simp
  have "map (snd \<circ> seen b) log = [S_block [65, 66], S_num 5, S_num 0x10000000000]"
    if "map (seen b) log = known_values [] demo_type (present demo_val (ty_f demo_type))" for b log
    using arg_cong [OF that, of "map snd"] unfolding v by (simp only: map_map)
  ultimately show ?thesis by blast
qed

end
