(* ===== verification/Spec2Isabelle.thy ===== *)
theory Spec2Isabelle
  imports Sched Handle Timer Module Delivery Service_Props Gate Harbor_Link Harbor_Names Locks Stm Netpack Seri Socket_Close Socket_Stream Crypt_Codec Sha1 Sproto_Encode
begin

text \<open>
  Skynet: a framework of services that exchange messages, in C, with Lua on top. This development models the
  C core and the services and libraries in C that carry logic of their own, and proves what makes
  them correct.

  \<^bold>\<open>The program.\<close> A \<^emph>\<open>service\<close> is a context (skynet_server.c) with a handle (skynet_handle.c), a
  mailbox (skynet_mq.c) and a callback from a module (skynet_module.c). Services send messages to
  handles. Worker threads take mailboxes from a global queue, dispatch some messages and put the mailboxes
  back. The timer thread (skynet_timer.c) sends an empty response when a timeout is due, the socket thread
  (skynet_socket.c over socket_server.c) forwards network events as messages, the harbor service
  (service_harbor.c) carries messages to other nodes, and the gate service (service_gate.c) cuts the
  streams of its connections into packages.

  \<^bold>\<open>Theories.\<close> Each component has a theory with its state as records, its operations as functions, its
  invariant, and its properties.

  \<^item> \<open>Prelude\<close>: types of machine integers, arrays with explicit range checks, the shared lemmas and
    collections, and the locales of the interfaces: \<open>fifo\<close> and \<open>total_fifo\<close> (a queue against a list) and
    \<open>threads_invariant\<close> (threads that interleave on one state).
  \<^item> \<open>CString\<close>: what the sources use of the C library on strings.
  \<^item> \<open>Mqueue\<close> (skynet-src/skynet_mq.c): the mailbox as a growing ring, the global queue as a linked list.
    The ring interprets \<open>fifo\<close>. The lemmas relate both to lists.
  \<^item> \<open>Sched\<close>: any interleaving of the threads' operations on the queues, as a step relation whose
    invariant gives mutual exclusion, no lost wake-up, and order.
  \<^item> \<open>Handle\<close> (skynet-src/skynet_handle.c): the table of handles and the sorted table of names, with the
    lock of the source making each operation atomic. Both are finite maps.
  \<^item> \<open>Timer\<close> (skynet-src/skynet_timer.c): the hierarchical timing wheel, against the multiset of pending timers.
  \<^item> \<open>Module\<close> (skynet-src/skynet_module.c): the search path for services with its buffer.
  \<^item> \<open>World\<close>, \<open>Server\<close>, \<open>Command\<close> (skynet_server.c and skynet_error.c, skynet_env.c, skynet_harbor.c,
    skynet_monitor.c, skynet_log.c, part of skynet_socket.c): the node. \<open>world\<close> holds the heap, the contexts,
    the mailboxes, the registry, the timer and the environment; every operation is a
    function on it, with \<open>None\<close> for undefined behaviour and failed assertions.
  \<^item> \<open>Delivery\<close>: the invariant \<open>node_ok\<close> of the node, and what sending and dropping mailboxes does to it.
  \<^item> \<open>Service_Props\<close>: properties of the commands, of logging and of error reports.
  \<^item> \<open>Hashid\<close>, \<open>Databuffer\<close>, \<open>Framing\<close>, \<open>Gate\<close> (service-src/hashid.h, databuffer.h, service_gate.c): the
    gate service. \<open>Framing\<close> says what a stream of packages with headers is, for the gate and the harbor.
  \<^item> \<open>Wire\<close>: big-endian numbers on the wire. \<open>Harbor\<close>, \<open>Harbor_Link\<close>, \<open>Harbor_Names\<close>
    (service-src/service_harbor.c): the links to the other nodes with their handshake and the
    messages that wait for it, and the table of global names.
  \<^item> \<open>Locks\<close> (skynet-src/spinlock.h, rwlock.h): each atomic operation is a step; readers and writers exclude each other.
  \<^item> \<open>Stm\<close> (lualib-src/lua-stm.c): shared copies with two levels of reference counts.
  \<^item> \<open>Netpack\<close> (lualib-src/lua-netpack.c): packages with two-byte headers out of the blocks of each connection, and
    the queue of complete packages.
  \<^item> \<open>Seri\<close> (lualib-src/lua-seri.c): the serialisation of Lua values, in both directions.
  \<^item> \<open>Socket_Server\<close>, \<open>Socket_Poll\<close> (skynet-src/socket_server.c, skynet_socket.c): the slots of the sockets, the
    requests that threads put into the pipe, the direct write of another thread, the write lists, and
    the loop that handles requests and events. \<open>Socket_Props\<close> holds properties of single operations,
    \<open>Socket_Close\<close> the life of a connection in any run (SOCKET_CLOSE is raised once), \<open>Socket_Stream\<close> the bytes of a
    connection in any interleaving of the senders and the socket thread.
  \<^item> \<open>Crypt_Des\<close>, \<open>Crypt_Dh\<close>, \<open>Crypt_Codec\<close> (lualib-src/lua-crypt.c) and \<open>Sha1\<close> (lualib-src/lsha1.c): the functions of the
    login protocol. A string of Lua is a list of bytes, an error of Lua is \<open>Inl\<close>. The lemmas show that DES
    and the encodings are inverted, that both sides of an exchange compute the same number without overflow, and that the
    hash computed piece by piece is that of the whole text, and they mark the texts that make the code read outside a buffer.
  \<^item> \<open>Sproto_Pack\<close> (lualib-src/sproto/sproto.c, lsproto.c): the packing of zeros, against a reference that groups the
    segments, and the buffers that the binding gives it. \<open>Sproto_Decode\<close>: the decoder of messages with its callback as a
    parameter; \<open>Sproto_Message\<close>: what a message is, and that the decoder shows exactly its values;
    \<open>Sproto_Encode\<close>: the encoder, also with its callback as a parameter, refined to that message, and the round trip.

  \<^bold>\<open>Conventions.\<close> C integers are words of their width where they can wrap, \<open>int\<close> or \<open>nat\<close> where the
  source bounds them. A function that fails an assertion, reads outside an array or dereferences a null
  pointer returns \<open>None\<close>. Loops are structural where they are, \<open>partial_function (option)\<close> where their end
  depends on an invariant: then the theorems show that they return.

  \<^bold>\<open>Bounds and fuel.\<close> The reader of \<open>Seri\<close> has a fuel of one more than the bytes it reads; each call reads a byte, so
  it is enough, and the round trip is proved with it. Strings and tables there are shorter than 2 GB, as the source
  keeps their lengths in an \<open>int\<close>. The loop of \<open>sproto_unpack\<close> has the length of its source as fuel, as each round reads a
  byte; the sources there are shorter than 1 GB, beyond which the sizes in \<open>int\<close> overflow. The updates of SHA-1 in the
  theorems are shorter than 512 MB: for a longer one the count of bits is wrong. The results of system calls on sockets (how much a write takes, what
  a read gives) are a list in the state, consumed in the order of the calls, over which the theorems quantify.
  \<open>socket_server_poll\<close> may wait for ever and is a \<open>partial_function\<close>; one round of it always returns. The second
  check of a direct write and the write itself are under the lock of the socket, and are one step.

  \<^bold>\<open>Not modelled.\<close> The wrappers of epoll and kqueue and the start of the processes and threads are system
  calls only. The Lua host and the bindings in lualib-src without logic of their own convert between the stack of Lua and the
  functions above. The vendored libraries under 3rd/ (Lua, jemalloc, lpeg, md5) are not code of this program. The list
  of components in the manifest gives the reason for each.
\<close>

end
